(* ===== verification/Prelude.thy ===== *)
theory Prelude
  imports Main "HOL-Library.Word" "HOL-Library.Signed_Division"
begin

unbundle bit_operations_syntax

text \<open>
  Shared vocabulary of the development: the exception classes of \<^verbatim>\<open>mc/exception.h\<close> as a
  datatype, results as a sum type, the machine types, the string-view operations the
  components use (\<open>substr\<close>, forward scans), and the collections the component proofs draw
  on. Nothing here models a function of the repository by itself.
\<close>

section \<open>Results and exceptions\<close>

text \<open>
  One constructor per exception class the modelled code throws, and two for what the
  language leaves open: \<open>undefined_behaviour\<close> is a path on which the C++ code has
  undefined behaviour (a null dereference, an out-of-range index), \<open>out_of_fuel\<close> marks the
  bound of a recursion that the model runs with fuel and that is proved never to be
  reached where a property needs it.
\<close>

datatype mc_exception =
    invalid_arg_exception
  | parse_error_exception
  | out_of_range_exception
  | runtime_exception
  | assert_exception
  | bad_cast_exception
  | invalid_op_exception
  | divide_by_zero_exception
  | eof_exception
  | undefined_behaviour
  | out_of_fuel

type_synonym 'a result = "mc_exception + 'a"

definition bind_result :: "'a result \<Rightarrow> ('a \<Rightarrow> 'b result) \<Rightarrow> 'b result" where
  "bind_result m f = (case m of Inl e \<Rightarrow> Inl e | Inr x \<Rightarrow> f x)"

lemma bind_result_simps [simp]:
  "bind_result (Inl e) f = Inl e"
  "bind_result (Inr x) f = f x"
  by (simp_all add: bind_result_def)

lemma bind_result_eq_Inr:
  "bind_result m f = Inr y \<longleftrightarrow> (\<exists>x. m = Inr x \<and> f x = Inr y)"
  by (cases m) auto

lemma bind_result_eq_Inl:
  "bind_result m f = Inl e \<longleftrightarrow> m = Inl e \<or> (\<exists>x. m = Inr x \<and> f x = Inl e)"
  by (cases m) auto

lemma bind_result_cong:
  "m = m' \<Longrightarrow> (\<And>x. m' = Inr x \<Longrightarrow> f x = f' x) \<Longrightarrow> bind_result m f = bind_result m' f'"
  by (cases m') auto

section \<open>Results that stay within the fuel\<close>

text \<open>\<open>yields r P\<close>: the result is not the end of the fuel, and a value satisfies \<open>P\<close>.\<close>

definition yields :: "'a result \<Rightarrow> ('a \<Rightarrow> bool) \<Rightarrow> bool" where
  "yields r P = (case r of Inl e \<Rightarrow> e \<noteq> out_of_fuel | Inr x \<Rightarrow> P x)"

lemma yields_simps [simp]: "yields (Inl e) P \<longleftrightarrow> e \<noteq> out_of_fuel" "yields (Inr x) P \<longleftrightarrow> P x"
  by (simp_all add: yields_def)

lemma yields_bind:
  "yields m P \<Longrightarrow> (\<And>x. P x \<Longrightarrow> yields (f x) Q) \<Longrightarrow> yields (bind_result m f) Q"
  by (cases m) auto

lemma yields_mono: "yields m P \<Longrightarrow> (\<And>x. P x \<Longrightarrow> Q x) \<Longrightarrow> yields m Q"
  by (cases m) auto

lemma yieldsD: "yields m P \<Longrightarrow> m \<noteq> Inl out_of_fuel" "yields m P \<Longrightarrow> m = Inr x \<Longrightarrow> P x"
  by auto

section \<open>Machine types\<close>

type_synonym u8 = "8 word"
type_synonym u32 = "32 word"
type_synonym i64 = "64 word"
type_synonym u64 = "64 word"

section \<open>Strings and string views\<close>

text \<open>
  A string view is the list of its bytes. \<open>substr s pos n\<close> is
  \<^verbatim>\<open>s.substr(pos, n)\<close> for \<open>pos \<le> s.size()\<close>, the only positions the modelled code
  passes.
\<close>

definition substr :: "'a list \<Rightarrow> nat \<Rightarrow> nat \<Rightarrow> 'a list" where
  "substr s pos n = take n (drop pos s)"

lemma length_substr: "length (substr s pos n) = min n (length s - pos)"
  by (simp add: substr_def)

lemma substr_all [simp]: "substr s 0 (length s) = s"
  by (simp add: substr_def)

lemma substr_append_middle:
  "substr (xs @ ys @ zs) (length xs) (length ys) = ys"
  by (simp add: substr_def)

lemma set_substr: "set (substr s pos n) \<subseteq> set s"
  unfolding substr_def by (meson order_trans set_drop_subset set_take_subset)

text \<open>
  \<^verbatim>\<open>while (pos < s.size() && P(s[pos])) ++pos;\<close> as a function of the start position.
\<close>

definition scan_while :: "('a \<Rightarrow> bool) \<Rightarrow> 'a list \<Rightarrow> nat \<Rightarrow> nat" where
  "scan_while P s pos = pos + length (takeWhile P (drop pos s))"

lemma scan_while_unfold:
  "scan_while P s pos =
     (if pos < length s \<and> P (s ! pos) then scan_while P s (Suc pos) else pos)"
proof (cases "pos < length s")
  case True
  then have "drop pos s = s ! pos # drop (Suc pos) s"
    by (simp add: Cons_nth_drop_Suc)
  with True show ?thesis by (simp add: scan_while_def)
next
  case False
  then show ?thesis by (simp add: scan_while_def)
qed

lemma scan_while_ge: "pos \<le> scan_while P s pos"
  by (simp add: scan_while_def)

lemma scan_while_le: "pos \<le> length s \<Longrightarrow> scan_while P s pos \<le> length s"
proof -
  assume "pos \<le> length s"
  moreover have "length (takeWhile P (drop pos s)) \<le> length s - pos"
    by (metis length_drop length_takeWhile_le)
  ultimately show ?thesis by (simp add: scan_while_def)
qed

lemma drop_scan_while: "drop (scan_while P s pos) s = dropWhile P (drop pos s)"
  by (metis add.commute drop_drop dropWhile_eq_drop scan_while_def)

lemma substr_scan_while:
  "substr s pos (scan_while P s pos - pos) = takeWhile P (drop pos s)"
  by (simp add: substr_def scan_while_def takeWhile_eq_take [symmetric])

lemma dropWhile_hd: "dropWhile P xs = y # ys \<Longrightarrow> \<not> P y"
  by (simp add: dropWhile_eq_Cons_conv)

lemma scan_while_range:
  "pos \<le> i \<Longrightarrow> i < scan_while P s pos \<Longrightarrow> P (s ! i)"
proof -
  assume i: "pos \<le> i" "i < scan_while P s pos"
  let ?t = "takeWhile P (drop pos s)"
  have lt: "i - pos < length ?t" using i by (simp add: scan_while_def)
  then have "?t ! (i - pos) = drop pos s ! (i - pos)" by (simp add: takeWhile_nth)
  also have "\<dots> = s ! i"
    using lt i length_takeWhile_le [of P "drop pos s"] by (subst nth_drop) auto
  finally show ?thesis using lt by (metis nth_mem set_takeWhileD)
qed

lemma scan_while_stop:
  "scan_while P s pos < length s \<Longrightarrow> \<not> P (s ! scan_while P s pos)"
proof -
  assume lt: "scan_while P s pos < length s"
  then have "drop (scan_while P s pos) s = s ! scan_while P s pos # drop (Suc (scan_while P s pos)) s"
    by (simp add: Cons_nth_drop_Suc)
  then show ?thesis using drop_scan_while [of P s pos] dropWhile_hd by metis
qed

section \<open>Characters\<close>

text \<open>The classifications of \<^verbatim>\<open><cctype>\<close> in the C locale.\<close>

definition isdigit :: "char \<Rightarrow> bool" where
  "isdigit c \<longleftrightarrow> 48 \<le> (of_char c :: nat) \<and> (of_char c :: nat) \<le> 57"

definition isalpha :: "char \<Rightarrow> bool" where
  "isalpha c \<longleftrightarrow> (65 \<le> (of_char c :: nat) \<and> (of_char c :: nat) \<le> 90) \<or>
                 (97 \<le> (of_char c :: nat) \<and> (of_char c :: nat) \<le> 122)"

definition isalnum :: "char \<Rightarrow> bool" where
  "isalnum c \<longleftrightarrow> isalpha c \<or> isdigit c"

definition isspace :: "char \<Rightarrow> bool" where
  "isspace c \<longleftrightarrow> (of_char c :: nat) = 32 \<or> (9 \<le> (of_char c :: nat) \<and> (of_char c :: nat) \<le> 13)"

definition isxdigit :: "char \<Rightarrow> bool" where
  "isxdigit c \<longleftrightarrow> isdigit c \<or> (65 \<le> (of_char c :: nat) \<and> (of_char c :: nat) \<le> 70) \<or>
                  (97 \<le> (of_char c :: nat) \<and> (of_char c :: nat) \<le> 102)"

section \<open>Words\<close>

lemma unat_of_nat_small: "n < 2 ^ LENGTH('a) \<Longrightarrow> unat (of_nat n :: 'a::len word) = n"
  by (simp add: unsigned_of_nat take_bit_nat_eq_self)

section \<open>Truncating division\<close>

text \<open>C's integer division of a value between \<open>lo * n\<close> and \<open>hi * n\<close> stays in \<open>[lo, hi]\<close>.\<close>

lemma sdiv_le:
  fixes a n hi :: int
  assumes "0 < n" and "a \<le> hi * n"
  shows "a sdiv n \<le> hi"
proof (cases "0 \<le> a")
  case True
  with assms have "a sdiv n = a div n"
    by (simp add: signed_divide_int_def sgn_if)
  also have "\<dots> \<le> hi"
    using zdiv_mono1 [of a "hi * n" n] assms by simp
  finally show ?thesis .
next
  case False
  with assms have "a sdiv n = - ((- a) div n)"
    by (simp add: signed_divide_int_def sgn_if)
  moreover have "- hi \<le> (- a) div n"
  proof -
    have "(- hi) * n \<le> - a" using assms by simp
    then show ?thesis
      by (metis assms(1) less_irrefl nonzero_mult_div_cancel_right zdiv_mono1)
  qed
  ultimately show ?thesis by simp
qed

lemma sdiv_ge:
  fixes a n lo :: int
  assumes "0 < n" and "lo * n \<le> a"
  shows "lo \<le> a sdiv n"
proof -
  have neg: "(- a) sdiv n = - (a sdiv n)"
    by (simp add: signed_divide_int_def sgn_if)
  have "(- a) sdiv n \<le> - lo"
    by (rule sdiv_le) (use assms in auto)
  with neg show ?thesis by simp
qed

lemma sum_list_bounds:
  fixes xs :: "int list"
  assumes "\<forall>x \<in> set xs. lo \<le> x \<and> x \<le> hi"
  shows "lo * int (length xs) \<le> sum_list xs" "sum_list xs \<le> hi * int (length xs)"
  using assms by (induction xs) (auto simp: algebra_simps)

end
