(* ===== verification/Debounce.thy ===== *)
theory Debounce
  imports Prelude
begin

text \<open>
  The debouncers of \<^verbatim>\<open>src/debounce\<close>: \<^verbatim>\<open>Average\<close>, \<^verbatim>\<open>Median\<close>, \<^verbatim>\<open>Continue\<close> and
  \<^verbatim>\<open>BinaryContinue\<close>, four implementations of the interface \<^verbatim>\<open>Base\<close>. A class is a record, a
  method a function from the state to its result and the new state; \<^verbatim>\<open>std::nullopt\<close> is
  \<open>None\<close>. C's \<^verbatim>\<open>int\<close> is \<open>int\<close>: the model does not cover a window whose sum
  overflows it. The debug log of the two counting debouncers is left out.
\<close>

section \<open>Average\<close>

record average =
  avg_size :: int
  avg_is_signed :: bool
  avg_data :: "int list"

definition new_average :: "int \<Rightarrow> bool \<Rightarrow> average result" where
  "new_average win is_signed =
     (if win \<le> 0 then Inl runtime_exception
      else Inr \<lparr>avg_size = win, avg_is_signed = is_signed, avg_data = []\<rparr>)"

definition average_adjust_signed :: "average \<Rightarrow> int \<Rightarrow> int" where
  "average_adjust_signed a value =
     (if avg_is_signed a \<and> value < 0 then value + 256 else value)"

definition average_get_debounce_val :: "int \<Rightarrow> average \<Rightarrow> int option result \<times> average" where
  "average_get_debounce_val raw_val a =
     (let new_val = (if avg_is_signed a \<and> raw_val > 127 then raw_val - 256 else raw_val);
          data = avg_data a @ [new_val];
          window_size = nat (avg_size a);
          data = (if length data > window_size then tl data else data);
          a = a\<lparr>avg_data := data\<rparr>
      in if length data < window_size then (Inr None, a)
         else
           let dbd_val =
             (if avg_size a < 3 then sum_list data sdiv avg_size a
              else
                let values = sort data;
                    sum = sum_list (butlast (tl values))
                in sum sdiv (avg_size a - 2))
           in (Inr (Some (average_adjust_signed a dbd_val)), a))"

definition average_clear_debounce_val :: "average \<Rightarrow> average" where
  "average_clear_debounce_val a = a\<lparr>avg_data := []\<rparr>"

section \<open>Median\<close>

record median =
  med_size :: int
  med_is_signed :: bool
  med_data :: "int list"

definition new_median :: "int \<Rightarrow> bool \<Rightarrow> median result" where
  "new_median win is_signed =
     (if win \<le> 0 then Inl runtime_exception
      else Inr \<lparr>med_size = win, med_is_signed = is_signed, med_data = []\<rparr>)"

definition median_adjust_signed :: "median \<Rightarrow> int \<Rightarrow> int" where
  "median_adjust_signed m value =
     (if med_is_signed m \<and> value < 0 then value + 256 else value)"

text \<open>
  \<^verbatim>\<open>values.erase(values.begin())\<close> and \<^verbatim>\<open>values.pop_back()\<close> need a non-empty vector and
  \<^verbatim>\<open>values[n / 2]\<close> an index in range: with a window of one sample the second call, with two
  the indexing has undefined behaviour.
\<close>

definition median_get_debounce_val :: "int \<Rightarrow> median \<Rightarrow> int option result \<times> median" where
  "median_get_debounce_val raw_val m =
     (let new_val = (if med_is_signed m \<and> raw_val > 127 then raw_val - 256 else raw_val);
          data = med_data m @ [new_val];
          window_size = nat (med_size m);
          data = (if length data > window_size then tl data else data);
          m = m\<lparr>med_data := data\<rparr>
      in if length data < window_size then (Inr None, m)
         else
           let values = sort data
           in if values = [] then (Inl undefined_behaviour, m)
              else
                let values = tl values
                in if values = [] then (Inl undefined_behaviour, m)
                   else
                     let values = butlast values;
                         n = length values
                     in if n div 2 < n
                        then (Inr (Some (median_adjust_signed m (values ! (n div 2)))), m)
                        else (Inl undefined_behaviour, m))"

definition median_clear_debounce_val :: "median \<Rightarrow> median" where
  "median_clear_debounce_val m = m\<lparr>med_data := []\<rparr>"

section \<open>Continue\<close>

record continue =
  c_count :: int
  c_stable_val :: int
  c_unstable_val :: int
  c_unstable_val_count :: int
  c_is_valid :: bool

definition new_continue :: "int \<Rightarrow> continue result" where
  "new_continue count =
     (if count \<le> 0 then Inl runtime_exception
      else Inr \<lparr>c_count = count, c_stable_val = -1, c_unstable_val = -1,
                c_unstable_val_count = 0, c_is_valid = False\<rparr>)"

definition continue_get_debounce_val :: "int \<Rightarrow> continue \<Rightarrow> int option result \<times> continue" where
  "continue_get_debounce_val new_val c =
     (let c = (if c_stable_val c = new_val
               then c\<lparr>c_unstable_val := c_stable_val c, c_unstable_val_count := 0\<rparr>
               else if c_unstable_val c = new_val
               then c\<lparr>c_unstable_val_count := c_unstable_val_count c + 1\<rparr>
               else c\<lparr>c_unstable_val := new_val, c_unstable_val_count := 1\<rparr>);
          c = (if c_unstable_val_count c \<ge> c_count c
               then c\<lparr>c_stable_val := c_unstable_val c, c_unstable_val_count := 0,
                      c_is_valid := True\<rparr>
               else c)
      in (Inr (if c_is_valid c then Some (c_stable_val c) else None), c))"

definition continue_clear_debounce_val :: "continue \<Rightarrow> continue" where
  "continue_clear_debounce_val c =
     c\<lparr>c_count := 0, c_stable_val := -1, c_unstable_val := -1,
       c_unstable_val_count := 0, c_is_valid := False\<rparr>"

section \<open>BinaryContinue\<close>

record binary_continue =
  bc_high_level_count :: int
  bc_low_level_count :: int
  bc_stable_val :: int
  bc_unstable_val :: int
  bc_unstable_val_count :: int
  bc_is_valid :: bool

definition new_binary_continue :: "int \<Rightarrow> int \<Rightarrow> binary_continue result" where
  "new_binary_continue h_count l_count =
     (if h_count \<le> 0 \<or> l_count \<le> 0 then Inl runtime_exception
      else Inr \<lparr>bc_high_level_count = h_count, bc_low_level_count = l_count,
                bc_stable_val = -1, bc_unstable_val = 0, bc_unstable_val_count = 0,
                bc_is_valid = False\<rparr>)"

definition binary_continue_get_debounce_val ::
    "int \<Rightarrow> binary_continue \<Rightarrow> int option result \<times> binary_continue" where
  "binary_continue_get_debounce_val new_val b =
     (let b = (if bc_stable_val b \<noteq> new_val
               then (if bc_unstable_val b = new_val
                     then b\<lparr>bc_unstable_val_count := bc_unstable_val_count b + 1\<rparr>
                     else b\<lparr>bc_unstable_val := new_val, bc_unstable_val_count := 1\<rparr>)
               else b\<lparr>bc_unstable_val_count := 0\<rparr>);
          b = (if (bc_unstable_val b = 0 \<and> bc_unstable_val_count b \<ge> bc_low_level_count b) \<or>
                  (bc_unstable_val b = 1 \<and> bc_unstable_val_count b \<ge> bc_high_level_count b)
               then b\<lparr>bc_stable_val := bc_unstable_val b, bc_unstable_val_count := 0,
                      bc_is_valid := True\<rparr>
               else b)
      in (Inr (if bc_is_valid b then Some (bc_stable_val b) else None), b))"

definition binary_continue_clear_debounce_val :: "binary_continue \<Rightarrow> binary_continue" where
  "binary_continue_clear_debounce_val b =
     b\<lparr>bc_high_level_count := 0, bc_low_level_count := 0, bc_stable_val := -1,
       bc_unstable_val := 0, bc_unstable_val_count := 0, bc_is_valid := False\<rparr>"

section \<open>The interface\<close>

text \<open>Feeding a sequence of samples: the results in order, and the final state.\<close>

fun debounce_run ::
    "(int \<Rightarrow> 's \<Rightarrow> int option result \<times> 's) \<Rightarrow> 's \<Rightarrow> int list \<Rightarrow> int option result list \<times> 's" where
  "debounce_run get s [] = ([], s)"
| "debounce_run get s (x # xs) =
     (let (r, s) = get x s; (rs, s) = debounce_run get s xs in (r # rs, s))"

text \<open>
  What every implementation of \<^verbatim>\<open>Base\<close> promises its clients: a debouncer smooths, it never
  invents. \<open>encl lo hi s\<close> says that what the state remembers lies in \<open>[lo, hi]\<close>; while the
  samples do, so does every result.
\<close>

locale debouncer =
  fixes get :: "int \<Rightarrow> 's \<Rightarrow> int option result \<times> 's"
    and clear :: "'s \<Rightarrow> 's"
    and encl :: "int \<Rightarrow> int \<Rightarrow> 's \<Rightarrow> bool"
    and admissible :: "int \<Rightarrow> bool"
  assumes encl_get: "\<lbrakk>encl lo hi s; admissible x; lo \<le> x; x \<le> hi\<rbrakk> \<Longrightarrow> encl lo hi (snd (get x s))"
    and get_in_range: "\<lbrakk>encl lo hi s; admissible x; lo \<le> x; x \<le> hi; fst (get x s) = Inr (Some v)\<rbrakk>
           \<Longrightarrow> lo \<le> v \<and> v \<le> hi"
    and encl_clear: "encl lo hi s \<Longrightarrow> encl lo hi (clear s)"
begin

lemma encl_run:
  "\<lbrakk>encl lo hi s; \<forall>x \<in> set xs. admissible x \<and> lo \<le> x \<and> x \<le> hi\<rbrakk>
     \<Longrightarrow> encl lo hi (snd (debounce_run get s xs))"
  by (induction xs arbitrary: s) (auto simp: split_beta Let_def intro: encl_get)

lemma run_in_range:
  assumes "encl lo hi s" and "\<forall>x \<in> set xs. admissible x \<and> lo \<le> x \<and> x \<le> hi"
    and "Inr (Some v) \<in> set (fst (debounce_run get s xs))"
  shows "lo \<le> v \<and> v \<le> hi"
  using assms
proof (induction xs arbitrary: s)
  case Nil
  then show ?case by simp
next
  case (Cons x xs)
  then have x: "admissible x" "lo \<le> x" "x \<le> hi" by auto
  from Cons.prems(3) consider "fst (get x s) = Inr (Some v)"
    | "Inr (Some v) \<in> set (fst (debounce_run get (snd (get x s)) xs))"
    by (auto simp: split_beta Let_def)
  then show ?case
  proof cases
    case 1
    from Cons.prems(1) x 1 show ?thesis by (rule get_in_range)
  next
    case 2
    from Cons.prems(1) x have "encl lo hi (snd (get x s))" by (rule encl_get)
    moreover have "\<forall>x \<in> set xs. admissible x \<and> lo \<le> x \<and> x \<le> hi"
      using Cons.prems(2) by simp
    ultimately show ?thesis using 2 by (rule Cons.IH)
  qed
qed

lemma run_after_clear_in_range:
  "\<lbrakk>encl lo hi s; \<forall>x \<in> set xs. admissible x \<and> lo \<le> x \<and> x \<le> hi;
    Inr (Some v) \<in> set (fst (debounce_run get (clear s) xs))\<rbrakk> \<Longrightarrow> lo \<le> v \<and> v \<le> hi"
  by (rule run_in_range [OF encl_clear])

end

section \<open>Order statistics of a window\<close>

lemma sorted_trim_bounds:
  fixes xs :: "int list"
  assumes "sorted xs" and few: "length (filter (\<lambda>x. \<not> (lo \<le> x \<and> x \<le> hi)) xs) \<le> 1"
    and x: "x \<in> set (butlast (tl xs))"
  shows "lo \<le> x \<and> x \<le> hi"
proof (rule ccontr)
  assume out: "\<not> (lo \<le> x \<and> x \<le> hi)"
  let ?out = "\<lambda>x. \<not> (lo \<le> x \<and> x \<le> hi)"
  obtain a ys where xs: "xs = a # ys" using x by (cases xs) auto
  obtain zs b where ys: "ys = zs @ [b]" using x xs by (cases ys rule: rev_cases) auto
  from x xs ys have x': "x \<in> set zs" by simp
  then obtain us vs where zs: "zs = us @ x # vs" by (meson split_list)
  from assms(1) xs ys zs have "a \<le> x" "x \<le> b" by (auto simp: sorted_append)
  with out have "?out a \<or> ?out b" by auto
  then have "2 \<le> length (filter ?out xs)"
    using out by (auto simp: xs ys zs)
  with few show False by simp
qed

lemma set_trim: "set (butlast (tl xs)) \<subseteq> set xs"
  by (cases xs) (auto dest: in_set_butlastD)

lemma length_filter_sort [simp]: "length (filter P (sort xs)) = length (filter P xs)"
  by (simp add: filter_sort)

lemma trim_sort_bounds:
  fixes xs :: "int list"
  assumes "length (filter (\<lambda>x. \<not> (lo \<le> x \<and> x \<le> hi)) xs) \<le> 1"
  shows "\<forall>x \<in> set (butlast (tl (sort xs))). lo \<le> x \<and> x \<le> hi"
proof
  fix x
  assume "x \<in> set (butlast (tl (sort xs)))"
  with assms show "lo \<le> x \<and> x \<le> hi"
    by (intro sorted_trim_bounds [of "sort xs"]) (simp_all only: sorted_sort length_filter_sort)
qed

lemma in_range_filter:
  "\<forall>x \<in> set xs. lo \<le> x \<and> x \<le> (hi::int) \<Longrightarrow> length (filter (\<lambda>x. \<not> (lo \<le> x \<and> x \<le> hi)) xs) \<le> 1"
  by (simp add: filter_empty_conv [THEN iffD2])

lemma mean_bounds:
  fixes xs :: "int list"
  assumes "xs \<noteq> []" and "\<forall>x \<in> set xs. lo \<le> x \<and> x \<le> hi"
  shows "lo \<le> sum_list xs sdiv int (length xs)" "sum_list xs sdiv int (length xs) \<le> hi"
proof -
  have n: "0 < int (length xs)" using assms(1) by simp
  show "lo \<le> sum_list xs sdiv int (length xs)"
    by (rule sdiv_ge [OF n sum_list_bounds(1) [OF assms(2)]])
  show "sum_list xs sdiv int (length xs) \<le> hi"
    by (rule sdiv_le [OF n sum_list_bounds(2) [OF assms(2)]])
qed

section \<open>Average: the window and its trimmed mean\<close>

definition average_wf :: "average \<Rightarrow> bool" where
  "average_wf a \<longleftrightarrow> 0 < avg_size a \<and> length (avg_data a) \<le> nat (avg_size a)"

definition average_norm :: "average \<Rightarrow> int \<Rightarrow> int" where
  "average_norm a x = (if avg_is_signed a \<and> x > 127 then x - 256 else x)"

text \<open>The last \<open>n\<close> elements of a list.\<close>

definition last_n :: "nat \<Rightarrow> 'a list \<Rightarrow> 'a list" where
  "last_n n xs = drop (length xs - n) xs"

lemma length_last_n [simp]: "length (last_n n xs) = min n (length xs)"
  by (simp add: last_n_def)

lemma last_n_all: "length xs \<le> n \<Longrightarrow> last_n n xs = xs"
  by (simp add: last_n_def)

lemma set_last_n: "set (last_n n xs) \<subseteq> set xs"
  by (simp add: last_n_def set_drop_subset)

lemma last_n_snoc:
  assumes "0 < n" and "length xs \<le> n"
  shows "last_n n (xs @ [x]) = (if n < Suc (length xs) then tl (xs @ [x]) else xs @ [x])"
proof (cases "length xs = n")
  case True
  with assms(1) have "tl (xs @ [x]) = tl xs @ [x]" by (cases xs) auto
  with True assms(1) show ?thesis by (simp add: last_n_def drop_Suc)
qed (use assms in \<open>auto simp: last_n_def\<close>)

lemma last_n_append_last_n: "last_n n (last_n n xs @ ys) = last_n n (xs @ ys)"
proof (cases "length xs \<le> n")
  case False
  define us where "us = take (length xs - n) xs"
  have xs: "xs = us @ last_n n xs" by (simp add: us_def last_n_def)
  have "length (last_n n xs) = n" using False by simp
  then have "last_n n (us @ (last_n n xs @ ys)) = last_n n (last_n n xs @ ys)"
    by (simp add: last_n_def)
  with xs show ?thesis by (metis append.assoc)
qed (simp add: last_n_all)

text \<open>One call in closed form: what it stores, and what it returns.\<close>

definition average_value :: "int \<Rightarrow> int list \<Rightarrow> int" where
  "average_value n d =
     (if n < 3 then sum_list d sdiv n else sum_list (butlast (tl (sort d))) sdiv (n - 2))"

definition average_window :: "average \<Rightarrow> int \<Rightarrow> int list" where
  "average_window a x = last_n (nat (avg_size a)) (avg_data a @ [average_norm a x])"

lemma average_get_closed:
  assumes "average_wf a"
  shows "average_get_debounce_val x a =
     (Inr (if length (average_window a x) < nat (avg_size a) then None
           else Some (average_adjust_signed a (average_value (avg_size a) (average_window a x)))),
      a\<lparr>avg_data := average_window a x\<rparr>)"
proof -
  have n: "0 < nat (avg_size a)" "length (avg_data a) \<le> nat (avg_size a)"
    using assms by (simp_all add: average_wf_def)
  show ?thesis
    unfolding average_get_debounce_val_def average_norm_def average_window_def Let_def
    by (simp add: last_n_snoc [OF n, symmetric] average_value_def average_adjust_signed_def)
qed

lemma average_get_wf:
  assumes "average_wf a"
  shows "average_wf (snd (average_get_debounce_val x a))"
  using assms by (simp add: average_get_closed) (simp add: average_wf_def average_window_def)

lemma average_value_bounds:
  assumes n: "0 < n" "int (length d) = n"
    and few: "length (filter (\<lambda>x. \<not> (lo \<le> x \<and> x \<le> hi)) d) \<le> (if n < 3 then 0 else 1)"
  shows "lo \<le> average_value n d \<and> average_value n d \<le> hi"
proof (cases "n < 3")
  case True
  with few have "\<forall>x \<in> set d. lo \<le> x \<and> x \<le> hi" by (simp add: filter_empty_conv)
  with n True show ?thesis
    using mean_bounds [of d lo hi] by (auto simp: average_value_def)
next
  case False
  let ?t = "butlast (tl (sort d))"
  from False few have "\<forall>x \<in> set ?t. lo \<le> x \<and> x \<le> hi"
    by (intro trim_sort_bounds) simp
  moreover from n False have len: "int (length ?t) = n - 2" by auto
  moreover have "?t \<noteq> []"
  proof
    assume t: "?t = []"
    from len have "n - 2 = 0" unfolding t by simp
    with False show False by simp
  qed
  ultimately show ?thesis
    using False mean_bounds [of ?t lo hi] by (auto simp: average_value_def)
qed

text \<open>
  The interpretation of the interface. With signed samples the range has to stay among the
  non-negative ones: \<open>average_adjust_signed\<close> maps a negative mean back to \<open>[128, 255]\<close>.
\<close>

definition average_encl :: "int \<Rightarrow> int \<Rightarrow> average \<Rightarrow> bool" where
  "average_encl lo hi a \<longleftrightarrow> average_wf a \<and> (\<forall>x \<in> set (avg_data a). lo \<le> x \<and> x \<le> hi) \<and>
     (avg_is_signed a \<longrightarrow> 0 \<le> lo \<and> hi \<le> 127)"

lemma set_average_window: "set (average_window a x) \<subseteq> insert (average_norm a x) (set (avg_data a))"
  using set_last_n [of "nat (avg_size a)" "avg_data a @ [average_norm a x]"]
  by (auto simp: average_window_def)

lemma average_encl_window:
  assumes "average_encl lo hi a" and "lo \<le> x" and "x \<le> hi"
  shows "\<forall>y \<in> set (average_window a x). lo \<le> y \<and> y \<le> hi"
  using assms set_average_window [of a x] by (auto simp: average_encl_def average_norm_def)

lemma average_adjust_id:
  "average_encl lo hi a \<Longrightarrow> lo \<le> v \<Longrightarrow> average_adjust_signed a v = v"
  by (auto simp: average_adjust_signed_def average_encl_def)

lemma average_window_full:
  assumes "average_wf a" and "\<not> length (average_window a x) < nat (avg_size a)"
  shows "int (length (average_window a x)) = avg_size a"
  using assms by (auto simp: average_wf_def average_window_def)

interpretation avg: debouncer average_get_debounce_val average_clear_debounce_val average_encl "\<lambda>_. True"
proof unfold_locales
  fix lo hi a x v
  assume a: "average_encl lo hi a" and x: "lo \<le> x" "x \<le> hi"
  from a have wf: "average_wf a" by (simp add: average_encl_def)
  note win = average_encl_window [OF a x]
  show "average_encl lo hi (snd (average_get_debounce_val x a))"
    using a win average_get_wf [OF wf, of x]
    by (simp add: average_get_closed [OF wf] average_encl_def)
  assume "fst (average_get_debounce_val x a) = Inr (Some v)"
  then have full: "\<not> length (average_window a x) < nat (avg_size a)"
    and v: "v = average_adjust_signed a (average_value (avg_size a) (average_window a x))"
    by (auto simp: average_get_closed [OF wf] split: if_splits)
  have "filter (\<lambda>y. \<not> (lo \<le> y \<and> y \<le> hi)) (average_window a x) = []"
    using win by (simp only: filter_empty_conv) blast
  then have "lo \<le> average_value (avg_size a) (average_window a x) \<and>
      average_value (avg_size a) (average_window a x) \<le> hi"
    using average_window_full [OF wf full] wf
    by (intro average_value_bounds) (simp_all add: average_wf_def)
  then show "lo \<le> v \<and> v \<le> hi"
    using average_adjust_id [OF a] v by simp
qed (simp add: average_encl_def average_clear_debounce_val_def average_wf_def)

section \<open>Median\<close>

definition median_wf :: "median \<Rightarrow> bool" where
  "median_wf m \<longleftrightarrow> 0 < med_size m \<and> length (med_data m) \<le> nat (med_size m)"

definition median_norm :: "median \<Rightarrow> int \<Rightarrow> int" where
  "median_norm m x = (if med_is_signed m \<and> x > 127 then x - 256 else x)"

definition median_window :: "median \<Rightarrow> int \<Rightarrow> int list" where
  "median_window m x = last_n (nat (med_size m)) (med_data m @ [median_norm m x])"

definition median_value :: "int list \<Rightarrow> int" where
  "median_value d = (let t = butlast (tl (sort d)) in t ! (length t div 2))"

lemma median_get_closed:
  assumes "median_wf m"
  shows "median_get_debounce_val x m =
     (if length (median_window m x) < nat (med_size m) then Inr None
      else if med_size m < 3 then Inl undefined_behaviour
      else Inr (Some (median_adjust_signed m (median_value (median_window m x)))),
      m\<lparr>med_data := median_window m x\<rparr>)"
proof -
  have n: "0 < nat (med_size m)" "length (med_data m) \<le> nat (med_size m)"
    using assms by (simp_all add: median_wf_def)
  let ?d = "median_window m x"
  have get: "median_get_debounce_val x m =
      (if length ?d < nat (med_size m) then (Inr None, m\<lparr>med_data := ?d\<rparr>)
       else if sort ?d = [] \<or> tl (sort ?d) = [] then (Inl undefined_behaviour, m\<lparr>med_data := ?d\<rparr>)
       else if length (butlast (tl (sort ?d))) div 2 < length (butlast (tl (sort ?d)))
       then (Inr (Some (median_adjust_signed m (median_value ?d))), m\<lparr>med_data := ?d\<rparr>)
       else (Inl undefined_behaviour, m\<lparr>med_data := ?d\<rparr>))"
    unfolding median_get_debounce_val_def median_norm_def median_window_def Let_def
    by (simp add: last_n_snoc [OF n, symmetric] last_n_all median_value_def
        median_adjust_signed_def Let_def)
  show ?thesis
  proof (cases "length ?d < nat (med_size m)")
    case False
    then have len: "length (sort ?d) = nat (med_size m)"
      using n by (simp add: median_window_def)
    then have t: "length (butlast (tl (sort ?d))) = nat (med_size m) - 2" by simp
    show ?thesis
    proof (cases "med_size m < 3")
      case True
      then have "nat (med_size m) - 2 = 0" by simp
      with t have "length (butlast (tl (sort ?d))) = 0" by simp
      with get False True show ?thesis by (simp split del: if_split) simp
    next
      case big: False
      then have "2 < length (sort ?d)" using len by simp
      then obtain a b r where "sort ?d = a # b # r"
        by (cases "sort ?d"; cases "tl (sort ?d)") auto
      then have "sort ?d \<noteq> []" "tl (sort ?d) \<noteq> []" by auto
      moreover have "length (butlast (tl (sort ?d))) div 2 < length (butlast (tl (sort ?d)))"
        using t big by simp
      ultimately show ?thesis using get False big by simp
    qed
  qed (simp add: get)
qed

lemma median_get_wf:
  assumes "median_wf m"
  shows "median_wf (snd (median_get_debounce_val x m))"
  using assms by (simp add: median_get_closed) (simp add: median_wf_def median_window_def)

lemma median_value_bounds:
  assumes "3 \<le> length d"
    and few: "length (filter (\<lambda>x. \<not> (lo \<le> x \<and> x \<le> hi)) d) \<le> 1"
  shows "lo \<le> median_value d \<and> median_value d \<le> hi"
proof -
  let ?t = "butlast (tl (sort d))"
  have "length ?t = length d - 2" by simp
  with assms(1) have "?t ! (length ?t div 2) \<in> set ?t" by (intro nth_mem) simp
  with trim_sort_bounds [OF few] show ?thesis by (auto simp: median_value_def Let_def)
qed

definition median_encl :: "int \<Rightarrow> int \<Rightarrow> median \<Rightarrow> bool" where
  "median_encl lo hi m \<longleftrightarrow> median_wf m \<and> (\<forall>x \<in> set (med_data m). lo \<le> x \<and> x \<le> hi) \<and>
     (med_is_signed m \<longrightarrow> 0 \<le> lo \<and> hi \<le> 127)"

lemma median_encl_window:
  assumes "median_encl lo hi m" and "lo \<le> x" and "x \<le> hi"
  shows "\<forall>y \<in> set (median_window m x). lo \<le> y \<and> y \<le> hi"
  using assms set_last_n [of "nat (med_size m)" "med_data m @ [median_norm m x]"]
  by (auto simp: median_encl_def median_norm_def median_window_def)

lemma median_full_result:
  assumes "median_wf m" and "fst (median_get_debounce_val x m) = Inr (Some v)"
  shows "3 \<le> med_size m" "length (median_window m x) = nat (med_size m)"
    "v = median_adjust_signed m (median_value (median_window m x))"
  using assms by (auto simp: median_get_closed median_window_def median_wf_def split: if_splits)

interpretation med: debouncer median_get_debounce_val median_clear_debounce_val median_encl "\<lambda>_. True"
proof unfold_locales
  fix lo hi m x v
  assume m: "median_encl lo hi m" and x: "lo \<le> x" "x \<le> hi"
  from m have wf: "median_wf m" by (simp add: median_encl_def)
  note win = median_encl_window [OF m x]
  show "median_encl lo hi (snd (median_get_debounce_val x m))"
    using m win median_get_wf [OF wf, of x]
    by (simp add: median_get_closed [OF wf] median_encl_def)
  assume res: "fst (median_get_debounce_val x m) = Inr (Some v)"
  note full = median_full_result [OF wf res]
  have "lo \<le> median_value (median_window m x) \<and> median_value (median_window m x) \<le> hi"
    using full(1,2) by (intro median_value_bounds in_range_filter [OF win]) simp
  with m full(3) show "lo \<le> v \<and> v \<le> hi"
    by (auto simp: median_adjust_signed_def median_encl_def)
qed (simp add: median_encl_def median_clear_debounce_val_def median_wf_def)

section \<open>Continue: a value is reported after enough equal samples in a row\<close>

definition continue_encl :: "int \<Rightarrow> int \<Rightarrow> continue \<Rightarrow> bool" where
  "continue_encl lo hi c \<longleftrightarrow> (c_is_valid c \<longrightarrow> lo \<le> c_stable_val c \<and> c_stable_val c \<le> hi)"

lemma continue_get_cases:
  "continue_get_debounce_val x c =
     (let u = (if c_stable_val c = x then 0
               else if c_unstable_val c = x then c_unstable_val_count c + 1 else 1)
      in if u \<ge> c_count c
         then (Inr (Some x), c\<lparr>c_stable_val := x, c_unstable_val := x, c_unstable_val_count := 0,
                 c_is_valid := True\<rparr>)
         else (Inr (if c_is_valid c then Some (c_stable_val c) else None),
               c\<lparr>c_unstable_val := x, c_unstable_val_count := u\<rparr>))"
  by (auto simp: continue_get_debounce_val_def Let_def)

interpretation con: debouncer continue_get_debounce_val continue_clear_debounce_val continue_encl "\<lambda>_. True"
  by unfold_locales
    (auto simp: continue_get_cases continue_encl_def continue_clear_debounce_val_def Let_def
      split: if_splits)

text \<open>
  What the state knows of the samples \<open>xs\<close> seen so far: the counter counts the trailing
  samples equal to the candidate, and a valid stable value was once seen \<open>c_count\<close> times in
  a row.
\<close>

definition continue_hist :: "int list \<Rightarrow> continue \<Rightarrow> bool" where
  "continue_hist xs c \<longleftrightarrow>
     0 < c_count c \<and> 0 \<le> c_unstable_val_count c \<and> c_unstable_val_count c < c_count c \<and>
     (\<exists>ys. xs = ys @ replicate (nat (c_unstable_val_count c)) (c_unstable_val c)) \<and>
     (c_is_valid c \<longrightarrow>
        (\<exists>ys zs. xs = ys @ replicate (nat (c_count c)) (c_stable_val c) @ zs)) \<and>
     (\<not> c_is_valid c \<longrightarrow> c_stable_val c = -1)"

lemma continue_hist_get:
  assumes h: "continue_hist xs c"
  shows "continue_hist (xs @ [x]) (snd (continue_get_debounce_val x c))"
proof -
  let ?u = "if c_stable_val c = x then 0
     else if c_unstable_val c = x then c_unstable_val_count c + 1 else 1"
  obtain ys where ys: "xs = ys @ replicate (nat (c_unstable_val_count c)) (c_unstable_val c)"
    and pos: "0 < c_count c" "0 \<le> c_unstable_val_count c" "c_unstable_val_count c < c_count c"
    using h by (auto simp: continue_hist_def)
  have run: "\<exists>ys. xs @ [x] = ys @ replicate (nat ?u) x"
  proof -
    consider "c_stable_val c = x" | "c_stable_val c \<noteq> x" "c_unstable_val c = x"
      | "c_stable_val c \<noteq> x" "c_unstable_val c \<noteq> x" by blast
    then show ?thesis
    proof cases
      case 2
      have "nat (c_unstable_val_count c + 1) = Suc (nat (c_unstable_val_count c))"
        using pos by simp
      with 2 ys have "xs @ [x] = ys @ replicate (nat ?u) x"
        by (simp add: replicate_append_same)
      then show ?thesis by blast
    qed (auto intro: exI [of _ xs])
  qed
  have keep: "\<exists>ys zs. xs @ [x] = ys @ replicate (nat (c_count c)) (c_stable_val c) @ zs"
    if "c_is_valid c"
    using that h by (force simp: continue_hist_def)
  show ?thesis
  proof (cases "?u \<ge> c_count c")
    case True
    with pos have u: "?u = c_count c" by (auto split: if_splits)
    from run obtain zs where "xs @ [x] = zs @ replicate (nat ?u) x" ..
    then have "xs @ [x] = zs @ replicate (nat (c_count c)) x @ []"
      unfolding u by simp
    then have "\<exists>ys zs. xs @ [x] = ys @ replicate (nat (c_count c)) x @ zs" by blast
    with True pos show ?thesis
      by (simp add: continue_get_cases continue_hist_def Let_def)
  next
    case False
    have "0 \<le> ?u" using pos by simp
    with False run keep h pos show ?thesis
      by (simp add: continue_get_cases continue_hist_def Let_def split del: if_split)
  qed
qed

lemma debounce_run_append:
  "debounce_run get s (xs @ ys) =
     (fst (debounce_run get s xs) @ fst (debounce_run get (snd (debounce_run get s xs)) ys),
      snd (debounce_run get (snd (debounce_run get s xs)) ys))"
  by (induction xs arbitrary: s) (auto simp: split_beta Let_def)

lemma continue_get_count [simp]: "c_count (snd (continue_get_debounce_val x c)) = c_count c"
  by (simp add: continue_get_cases Let_def)

lemma continue_run_count [simp]:
  "c_count (snd (debounce_run continue_get_debounce_val c xs)) = c_count c"
  by (induction xs arbitrary: c) (simp_all add: split_beta Let_def)

lemma continue_hist_run:
  "continue_hist ys c \<Longrightarrow>
     continue_hist (ys @ xs) (snd (debounce_run continue_get_debounce_val c xs))"
proof (induction xs arbitrary: ys c)
  case (Cons x xs)
  from Cons.IH [OF continue_hist_get [OF Cons.prems]]
  show ?case by (simp add: split_beta Let_def)
qed simp

lemma continue_hist_new:
  "new_continue n = Inr cinit \<Longrightarrow> continue_hist [] cinit \<and> c_count cinit = n"
  by (auto simp: new_continue_def continue_hist_def split: if_splits)

lemma continue_feed:
  assumes "0 \<le> c_unstable_val_count c" "c_is_valid c \<or> v \<noteq> c_stable_val c"
  shows "let c' = snd (debounce_run continue_get_debounce_val c (replicate k v)) in
      (c_stable_val c' = v \<and> c_is_valid c') \<or>
      (c_stable_val c' \<noteq> v \<and> (k = 0 \<or> c_unstable_val c' = v \<and> int k \<le> c_unstable_val_count c'))"
    (is "?P k")
proof (induction k)
  case 0
  then show ?case using assms by auto
next
  case (Suc k)
  have "replicate (Suc k) v = replicate k v @ [v]"
    by (simp add: replicate_append_same)
  moreover have "0 \<le> c_unstable_val_count (snd (debounce_run continue_get_debounce_val c xs))" for xs
    using assms(1)
    by (induction xs arbitrary: c) (auto simp: split_beta Let_def continue_get_cases)
  ultimately show ?case using Suc.IH assms(1)
    by (auto simp: debounce_run_append continue_get_cases Let_def split_beta)
qed

text \<open>
  A use of the class: samples, and clearings, which set the configured count to 0. From then on every
  sample is reported at once.
\<close>

datatype continue_event = Sample int | Clear_Samples

fun continue_events :: "continue \<Rightarrow> continue_event list \<Rightarrow> continue" where
  "continue_events c [] = c"
| "continue_events c (Sample x # es) = continue_events (snd (continue_get_debounce_val x c)) es"
| "continue_events c (Clear_Samples # es) = continue_events (continue_clear_debounce_val c) es"

lemma continue_events_samples:
  "continue_events c (map Sample xs) = snd (debounce_run continue_get_debounce_val c xs)"
  by (induction xs arbitrary: c) (simp_all add: split_beta Let_def)

lemma no_clear_samples: "Clear_Samples \<notin> set es \<Longrightarrow> \<exists>xs. es = map Sample xs"
proof (induction es)
  case (Cons e es)
  then obtain x xs where "e = Sample x" "es = map Sample xs" by (cases e) auto
  then show ?case by (intro exI [of _ "x # xs"]) simp
qed simp

lemma continue_cleared:
  "c_count c = 0 \<and> 0 \<le> c_unstable_val_count c \<Longrightarrow>
     c_count (continue_events c es) = 0 \<and> 0 \<le> c_unstable_val_count (continue_events c es)"
  by (induction c es rule: continue_events.induct)
    (auto simp: continue_get_cases continue_clear_debounce_val_def Let_def)

lemma continue_clear_count:
  "Clear_Samples \<in> set es \<Longrightarrow> 0 \<le> c_unstable_val_count c \<Longrightarrow>
     c_count (continue_events c es) = 0 \<and> 0 \<le> c_unstable_val_count (continue_events c es)"
proof (induction c es rule: continue_events.induct)
  case (3 c es)
  show ?case by (simp, rule continue_cleared) (simp add: continue_clear_debounce_val_def)
next
  case (2 c x es)
  have "0 \<le> c_unstable_val_count (snd (continue_get_debounce_val x c))"
    using 2(3) by (simp add: continue_get_cases Let_def)
  with 2 show ?case by simp
qed simp

lemma continue_reports_run:
  assumes "new_continue n = Inr cinit"
    and "fst (continue_get_debounce_val x (snd (debounce_run continue_get_debounce_val cinit xs)))
         = Inr (Some v)"
  shows "\<exists>ys zs. xs @ [x] = ys @ replicate (nat n) v @ zs"
proof -
  let ?c = "snd (debounce_run continue_get_debounce_val cinit xs)"
  note new = continue_hist_new [OF assms(1)]
  from new have "continue_hist xs ?c" using continue_hist_run [of "[]" cinit xs] by simp
  then have "continue_hist (xs @ [x]) (snd (continue_get_debounce_val x ?c))"
    by (rule continue_hist_get)
  moreover have "c_count ?c = n" using new by simp
  moreover have "c_is_valid (snd (continue_get_debounce_val x ?c))"
    "c_stable_val (snd (continue_get_debounce_val x ?c)) = v"
    using assms(2) by (auto simp: continue_get_debounce_val_def Let_def split: if_splits)
  ultimately show ?thesis by (simp add: continue_hist_def)
qed

text \<open>
  C40. What a \<open>Continue\<close> debouncer reports, after any samples and clearings: as long as it has not been
  cleared, a value that has occurred \<open>n\<close> times in a row among the samples that it was given, \<open>n\<close> the
  configured count, so that it never reports a glitch; once it has been cleared, every sample at once.
\<close>

theorem continue_reports_only_stable:
  assumes "new_continue n = Inr cinit" and "fst (continue_get_debounce_val x (continue_events cinit es)) = Inr r"
  shows "if Clear_Samples \<in> set es then r = Some x
    else \<exists>xs. es = map Sample xs \<and> (r = None \<or> (\<exists>v ys zs. r = Some v \<and> xs @ [x] = ys @ replicate (nat n) v @ zs))"
proof (cases "Clear_Samples \<in> set es")
  case True
  have "0 \<le> c_unstable_val_count cinit" using continue_hist_new [OF assms(1)] by (simp add: continue_hist_def)
  from continue_clear_count [OF True this] show ?thesis
    using assms(2) True by (auto simp: continue_get_cases Let_def split: if_splits)
next
  case False
  then obtain xs where xs: "es = map Sample xs" using no_clear_samples by blast
  show ?thesis
  proof (cases r)
    case (Some v)
    then show ?thesis using continue_reports_run [OF assms(1)] assms(2) False xs
      by (auto simp: continue_events_samples)
  qed (use False xs in auto)
qed

theorem continue_reports_only_stable_witness:
  "\<exists>r. fst (continue_get_debounce_val 7 (continue_events \<lparr>c_count = 2, c_stable_val = -1, c_unstable_val = -1,
        c_unstable_val_count = 0, c_is_valid = False\<rparr> [Sample 4, Clear_Samples])) = Inr r \<and> r = Some 7"
proof -
  let ?c = "\<lparr>c_count = 2, c_stable_val = -1, c_unstable_val = -1, c_unstable_val_count = 0, c_is_valid = False\<rparr>"
  have n: "new_continue 2 = Inr ?c" by (simp add: new_continue_def)
  obtain r where r: "fst (continue_get_debounce_val 7 (continue_events ?c [Sample 4, Clear_Samples])) = Inr r"
    by (auto simp: continue_get_cases continue_clear_debounce_val_def Let_def)
  from continue_reports_only_stable [OF n r] r show ?thesis by auto
qed

text \<open>
  A \<open>Continue\<close> debouncer settles: after any samples at all, \<open>n\<close> equal samples in a row
  make the last call report that value. The value \<open>-1\<close>, the code's mark for "no stable value
  yet", is the only one excluded.
\<close>

theorem continue_settles:
  assumes "new_continue n = Inr cinit" and "v \<noteq> -1"
  shows "last (fst (debounce_run continue_get_debounce_val cinit (xs @ replicate (nat n) v)))
         = Inr (Some v)"
proof -
  let ?run = "debounce_run continue_get_debounce_val"
  let ?c = "snd (?run cinit xs)"
  note new = continue_hist_new [OF assms(1)]
  then have h: "continue_hist xs ?c" using continue_hist_run [of "[]" cinit xs] by simp
  have cnt: "c_count ?c = n" using new by simp
  have "0 < n" using h cnt by (simp add: continue_hist_def)
  then obtain k where k: "nat n = Suc k" by (cases "nat n") auto
  let ?d = "snd (?run ?c (replicate k v))"
  have dh: "continue_hist (xs @ replicate k v) ?d" by (rule continue_hist_run [OF h])
  have "c_is_valid ?c \<or> v \<noteq> c_stable_val ?c" "0 \<le> c_unstable_val_count ?c"
    using h assms(2) by (auto simp: continue_hist_def)
  then have "(c_stable_val ?d = v \<and> c_is_valid ?d) \<or>
      (c_stable_val ?d \<noteq> v \<and> (k = 0 \<or> c_unstable_val ?d = v \<and> int k \<le> c_unstable_val_count ?d))"
    using continue_feed [of ?c v k] by (simp add: Let_def)
  moreover have "c_count ?d = n" "int k = n - 1" using cnt k by auto
  ultimately have "fst (continue_get_debounce_val v ?d) = Inr (Some v)"
    using dh by (auto simp: continue_get_cases Let_def continue_hist_def)
  moreover have "replicate (nat n) v = replicate k v @ [v]"
    using k by (simp add: replicate_append_same)
  ultimately show ?thesis by (simp add: debounce_run_append split_beta Let_def)
qed

theorem continue_settles_witness:
  "last (fst (debounce_run continue_get_debounce_val
      \<lparr>c_count = 2, c_stable_val = -1, c_unstable_val = -1, c_unstable_val_count = 0,
       c_is_valid = False\<rparr> ([4, 9] @ replicate (nat 2) 7))) = Inr (Some 7)"
  by (rule continue_settles) (simp_all add: new_continue_def)

section \<open>BinaryContinue\<close>

definition binary_continue_encl :: "int \<Rightarrow> int \<Rightarrow> binary_continue \<Rightarrow> bool" where
  "binary_continue_encl lo hi b \<longleftrightarrow>
     (bc_is_valid b \<longrightarrow> lo \<le> bc_stable_val b \<and> bc_stable_val b \<le> hi) \<and>
     (bc_stable_val b = -1 \<or> lo \<le> bc_unstable_val b \<and> bc_unstable_val b \<le> hi)"

interpretation bin: debouncer binary_continue_get_debounce_val binary_continue_clear_debounce_val
    binary_continue_encl "\<lambda>x. x = 0 \<or> x = 1"
  by unfold_locales
    (auto simp: binary_continue_get_debounce_val_def binary_continue_encl_def
      binary_continue_clear_debounce_val_def Let_def split: if_splits)

definition binary_threshold :: "binary_continue \<Rightarrow> int \<Rightarrow> int" where
  "binary_threshold b v = (if v = 0 then bc_low_level_count b else bc_high_level_count b)"

definition binary_continue_hist :: "int list \<Rightarrow> binary_continue \<Rightarrow> bool" where
  "binary_continue_hist xs b \<longleftrightarrow>
     0 < bc_low_level_count b \<and> 0 < bc_high_level_count b \<and> 0 \<le> bc_unstable_val_count b \<and>
     (bc_unstable_val b = 0 \<or> bc_unstable_val b = 1 \<longrightarrow>
        bc_unstable_val_count b < binary_threshold b (bc_unstable_val b)) \<and>
     (\<exists>ys. xs = ys @ replicate (nat (bc_unstable_val_count b)) (bc_unstable_val b)) \<and>
     (bc_is_valid b \<longrightarrow> bc_stable_val b \<in> {0, 1} \<and>
        (\<exists>ys zs. xs = ys @ replicate (nat (binary_threshold b (bc_stable_val b))) (bc_stable_val b) @ zs))"

text \<open>The counting part of a call, and the promotion that follows it.\<close>

definition binary_count :: "int \<Rightarrow> binary_continue \<Rightarrow> binary_continue" where
  "binary_count x b =
     (if bc_stable_val b \<noteq> x
      then (if bc_unstable_val b = x
            then b\<lparr>bc_unstable_val_count := bc_unstable_val_count b + 1\<rparr>
            else b\<lparr>bc_unstable_val := x, bc_unstable_val_count := 1\<rparr>)
      else b\<lparr>bc_unstable_val_count := 0\<rparr>)"

definition binary_promote :: "binary_continue \<Rightarrow> binary_continue" where
  "binary_promote b =
     (if bc_unstable_val b \<in> {0, 1} \<and> bc_unstable_val_count b \<ge> binary_threshold b (bc_unstable_val b)
      then b\<lparr>bc_stable_val := bc_unstable_val b, bc_unstable_val_count := 0, bc_is_valid := True\<rparr>
      else b)"

lemma binary_get_split:
  "binary_continue_get_debounce_val x b =
     (let b = binary_promote (binary_count x b)
      in (Inr (if bc_is_valid b then Some (bc_stable_val b) else None), b))"
  by (auto simp: binary_continue_get_debounce_val_def binary_promote_def binary_count_def
      binary_threshold_def Let_def)

lemma binary_count_run:
  assumes "binary_continue_hist xs b"
  shows "\<exists>ys. xs @ [x] = ys @
           replicate (nat (bc_unstable_val_count (binary_count x b))) (bc_unstable_val (binary_count x b))"
proof -
  obtain ys where ys: "xs = ys @ replicate (nat (bc_unstable_val_count b)) (bc_unstable_val b)"
    and "0 \<le> bc_unstable_val_count b"
    using assms by (auto simp: binary_continue_hist_def)
  then have "nat (bc_unstable_val_count b + 1) = Suc (nat (bc_unstable_val_count b))" by simp
  then have "bc_unstable_val b = x \<Longrightarrow>
      xs @ [x] = ys @ replicate (nat (bc_unstable_val_count b + 1)) (bc_unstable_val b)"
    using ys by (simp add: replicate_append_same)
  then show ?thesis by (auto simp: binary_count_def)
qed

lemma binary_count_fields [simp]:
  "bc_low_level_count (binary_count x b) = bc_low_level_count b"
  "bc_high_level_count (binary_count x b) = bc_high_level_count b"
  "bc_stable_val (binary_count x b) = bc_stable_val b"
  "bc_is_valid (binary_count x b) = bc_is_valid b"
  "binary_threshold (binary_count x b) = binary_threshold b"
  by (simp_all add: binary_count_def binary_threshold_def fun_eq_iff)

lemma binary_threshold_update [simp]:
  "binary_threshold (b\<lparr>bc_stable_val := u\<rparr>) = binary_threshold b"
  "binary_threshold (b\<lparr>bc_unstable_val_count := u\<rparr>) = binary_threshold b"
  "binary_threshold (b\<lparr>bc_is_valid := t\<rparr>) = binary_threshold b"
  by (simp_all add: binary_threshold_def fun_eq_iff)

lemma binary_threshold_pos:
  "0 < bc_low_level_count b \<Longrightarrow> 0 < bc_high_level_count b \<Longrightarrow> 0 < binary_threshold b v"
  by (simp add: binary_threshold_def)

lemma binary_hist_get:
  assumes h: "binary_continue_hist xs b"
  shows "binary_continue_hist (xs @ [x]) (snd (binary_continue_get_debounce_val x b))"
proof -
  let ?b = "binary_count x b"
  note h' = h [unfolded binary_continue_hist_def]
  obtain ys where ys: "xs @ [x] = ys @ replicate (nat (bc_unstable_val_count ?b)) (bc_unstable_val ?b)"
    using binary_count_run [OF h] by blast
  have pos: "0 \<le> bc_unstable_val_count ?b" "0 < binary_threshold b v" for v
    using h' by (auto simp: binary_count_def binary_threshold_def)
  have le: "bc_unstable_val_count ?b \<le> binary_threshold b (bc_unstable_val ?b)"
    if "bc_unstable_val ?b \<in> {0, 1}"
    using that h' pos(2) [of 0] pos(2) [of 1] by (auto simp: binary_count_def)
  have keep: "\<exists>ys zs. xs @ [x] = ys @ replicate (nat (binary_threshold b (bc_stable_val b))) (bc_stable_val b) @ zs"
    if "bc_is_valid b"
    using that h' by force
  show ?thesis
  proof (cases "bc_unstable_val ?b \<in> {0, 1} \<and>
      bc_unstable_val_count ?b \<ge> binary_threshold b (bc_unstable_val ?b)")
    case True
    with le have "bc_unstable_val_count ?b = binary_threshold b (bc_unstable_val ?b)" by simp
    then have "xs @ [x] = ys @ replicate (nat (binary_threshold b (bc_unstable_val ?b)))
        (bc_unstable_val ?b) @ []" using ys by simp
    then have "\<exists>ys zs. xs @ [x] = ys @ replicate (nat (binary_threshold b (bc_unstable_val ?b)))
        (bc_unstable_val ?b) @ zs" by blast
    with True h' show ?thesis
      by (simp add: binary_get_split binary_promote_def binary_continue_hist_def Let_def
          binary_threshold_pos)
  next
    case False
    with h' pos ys keep show ?thesis
      by (auto simp: binary_get_split binary_promote_def binary_continue_hist_def Let_def)
  qed
qed

lemma binary_hist_run:
  "binary_continue_hist ys b \<Longrightarrow>
     binary_continue_hist (ys @ xs) (snd (debounce_run binary_continue_get_debounce_val b xs))"
proof (induction xs arbitrary: ys b)
  case (Cons x xs)
  from Cons.IH [OF binary_hist_get [OF Cons.prems]]
  show ?case by (simp add: split_beta Let_def)
qed simp

lemma binary_get_threshold [simp]:
  "binary_threshold (snd (binary_continue_get_debounce_val x b)) = binary_threshold b"
  by (auto simp: binary_get_split binary_promote_def binary_threshold_def Let_def fun_eq_iff)

lemma binary_run_threshold [simp]:
  "binary_threshold (snd (debounce_run binary_continue_get_debounce_val b xs)) = binary_threshold b"
  by (induction xs arbitrary: b) (simp_all add: split_beta Let_def)

text \<open>
  A \<open>BinaryContinue\<close> debouncer only ever reports 0 or 1, and only a level that lasted for
  the number of samples configured for that level.
\<close>

theorem binary_continue_reports_only_stable:
  assumes "new_binary_continue h l = Inr b"
    and "fst (binary_continue_get_debounce_val x
           (snd (debounce_run binary_continue_get_debounce_val b xs))) = Inr (Some v)"
  shows "(v = 0 \<and> (\<exists>ys zs. xs @ [x] = ys @ replicate (nat l) 0 @ zs)) \<or>
         (v = 1 \<and> (\<exists>ys zs. xs @ [x] = ys @ replicate (nat h) 1 @ zs))"
proof -
  let ?b = "snd (debounce_run binary_continue_get_debounce_val b xs)"
  from assms(1) have "binary_continue_hist [] b"
    and thr: "binary_threshold b 0 = l" "binary_threshold b 1 = h"
    by (auto simp: new_binary_continue_def binary_continue_hist_def binary_threshold_def split: if_splits)
  from binary_hist_run [OF this(1), of xs]
  have "binary_continue_hist xs ?b" by simp
  from binary_hist_get [OF this, of x]
  have hist: "binary_continue_hist (xs @ [x]) (snd (binary_continue_get_debounce_val x ?b))" .
  have val: "bc_is_valid (snd (binary_continue_get_debounce_val x ?b))"
    "bc_stable_val (snd (binary_continue_get_debounce_val x ?b)) = v"
    using assms(2) by (auto simp: binary_get_split Let_def split: if_splits)
  have "v \<in> {0, 1} \<and> (\<exists>ys zs. xs @ [x] = ys @ replicate (nat (binary_threshold b v)) v @ zs)"
    using hist [unfolded binary_continue_hist_def] val by simp
  with thr show ?thesis by auto
qed

theorem binary_continue_reports_only_stable_witness:
  "(1 = (0::int) \<and> (\<exists>ys zs. [0, 1] @ [1] = ys @ replicate (nat 3) (0::int) @ zs)) \<or>
   (1 = (1::int) \<and> (\<exists>ys zs. [0, 1] @ [1] = ys @ replicate (nat 2) (1::int) @ zs))"
  by (rule binary_continue_reports_only_stable
        [where b = "\<lparr>bc_high_level_count = 2, bc_low_level_count = 3, bc_stable_val = -1,
           bc_unstable_val = 0, bc_unstable_val_count = 0, bc_is_valid = False\<rparr>"])
    (simp_all add: new_binary_continue_def binary_continue_get_debounce_val_def)

section \<open>The windows of Average and Median\<close>

lemma average_run_state:
  assumes "average_wf a"
  shows "snd (debounce_run average_get_debounce_val a xs) =
           a\<lparr>avg_data := last_n (nat (avg_size a)) (avg_data a @ map (average_norm a) xs)\<rparr>"
  using assms
proof (induction xs arbitrary: a)
  case Nil
  then show ?case by (simp add: average_wf_def last_n_all)
next
  case (Cons x xs)
  have "average_norm (a\<lparr>avg_data := d\<rparr>) = average_norm a" for d
    by (simp add: average_norm_def fun_eq_iff)
  with Cons.IH [OF average_get_wf [OF Cons.prems, of x]] Cons.prems
  show ?case
    by (simp add: split_beta Let_def average_get_closed average_window_def last_n_append_last_n)
qed

lemma average_new:
  "new_average n sg = Inr a \<Longrightarrow> average_wf a \<and> avg_size a = n \<and> avg_is_signed a = sg \<and> avg_data a = []"
  by (auto simp: new_average_def average_wf_def split: if_splits)

text \<open>
  \<open>Average\<close> reports nothing until \<open>n\<close> samples have come in and a value from then on, and
  its window always holds the last \<open>n\<close> samples, re-read as signed bytes when configured so.
\<close>

theorem average_window_contents:
  assumes "new_average n sg = Inr a"
  shows "avg_data (snd (debounce_run average_get_debounce_val a xs)) =
           last_n (nat n) (map (\<lambda>x. if sg \<and> x > 127 then x - 256 else x) xs) \<and>
         (fst (average_get_debounce_val x (snd (debounce_run average_get_debounce_val a xs))) = Inr None
            \<longleftrightarrow> Suc (length xs) < nat n) \<and>
         isl (fst (average_get_debounce_val x (snd (debounce_run average_get_debounce_val a xs)))) = False"
proof -
  note new = average_new [OF assms]
  define s where "s = snd (debounce_run average_get_debounce_val a xs)"
  have st: "s = a\<lparr>avg_data := last_n (nat n) (map (average_norm a) xs)\<rparr>"
    using average_run_state [of a xs] new by (simp add: s_def)
  then have fields: "avg_size s = n" "avg_data s = last_n (nat n) (map (average_norm a) xs)"
    using new by simp_all
  have wf: "average_wf s" using st new by (simp add: average_wf_def)
  have nrm: "average_norm a = (\<lambda>x. if sg \<and> x > 127 then x - 256 else x)"
    using new by (simp add: average_norm_def fun_eq_iff)
  have "length (average_window s x) = min (nat n) (Suc (length xs))"
    using fields new by (auto simp: average_window_def average_wf_def)
  with fields show ?thesis
    unfolding s_def [symmetric] by (simp add: average_get_closed [OF wf] nrm min_less_iff_disj)
qed

theorem average_window_contents_witness:
  "avg_data (snd (debounce_run average_get_debounce_val
      \<lparr>avg_size = 2, avg_is_signed = True, avg_data = []\<rparr> [1, 2, 255])) =
     last_n (nat 2) (map (\<lambda>x. if True \<and> x > 127 then x - 256 else x) [1, 2, 255]) \<and>
   (fst (average_get_debounce_val 5 (snd (debounce_run average_get_debounce_val
      \<lparr>avg_size = 2, avg_is_signed = True, avg_data = []\<rparr> [1, 2, 255]))) = Inr None
      \<longleftrightarrow> Suc (length [1, 2, 255::int]) < nat 2) \<and>
   isl (fst (average_get_debounce_val 5 (snd (debounce_run average_get_debounce_val
      \<lparr>avg_size = 2, avg_is_signed = True, avg_data = []\<rparr> [1, 2, 255])))) = False"
  by (rule average_window_contents) (simp add: new_average_def)

text \<open>
  \<open>Average\<close> over a window of three or more samples tolerates one outlier: when at most one
  sample of the window lies outside \<open>[lo, hi]\<close>, the reported value lies inside.
\<close>

theorem average_rejects_outlier:
  assumes "average_wf a" and "3 \<le> avg_size a" and "\<not> avg_is_signed a"
    and "average_get_debounce_val x a = (Inr (Some v), a')"
    and "length (filter (\<lambda>y. \<not> (lo \<le> y \<and> y \<le> hi)) (avg_data a')) \<le> 1"
  shows "lo \<le> v \<and> v \<le> hi"
proof -
  have full: "\<not> length (average_window a x) < nat (avg_size a)"
    and v: "v = average_adjust_signed a (average_value (avg_size a) (average_window a x))"
    and a': "avg_data a' = average_window a x"
    using assms(4) by (auto simp: average_get_closed [OF assms(1)] split: if_splits)
  have "lo \<le> average_value (avg_size a) (average_window a x) \<and>
      average_value (avg_size a) (average_window a x) \<le> hi"
    using assms(2,5) a' average_window_full [OF assms(1) full]
    by (intro average_value_bounds) simp_all
  with v assms(3) show ?thesis by (simp add: average_adjust_signed_def)
qed

theorem average_rejects_outlier_witness: "9 \<le> (10::int) \<and> (10::int) \<le> 11"
proof (rule average_rejects_outlier)
  show "average_get_debounce_val 11 \<lparr>avg_size = 4, avg_is_signed = False, avg_data = [9, 900, 10]\<rparr> =
      (Inr (Some 10), \<lparr>avg_size = 4, avg_is_signed = False, avg_data = [9, 900, 10, 11]\<rparr>)"
    by (simp add: average_get_debounce_val_def average_adjust_signed_def signed_divide_int_def)
qed (simp_all add: average_wf_def)

lemma median_run_state:
  assumes "median_wf m"
  shows "snd (debounce_run median_get_debounce_val m xs) =
           m\<lparr>med_data := last_n (nat (med_size m)) (med_data m @ map (median_norm m) xs)\<rparr>"
  using assms
proof (induction xs arbitrary: m)
  case Nil
  then show ?case by (simp add: median_wf_def last_n_all)
next
  case (Cons x xs)
  have "median_norm (m\<lparr>med_data := d\<rparr>) = median_norm m" for d
    by (simp add: median_norm_def fun_eq_iff)
  with Cons.IH [OF median_get_wf [OF Cons.prems, of x]] Cons.prems
  show ?case
    by (simp add: split_beta Let_def median_get_closed median_window_def last_n_append_last_n)
qed

text \<open>
  \<open>Median\<close> accepts every positive window, but the first call that fills a window of one
  or two samples has undefined behaviour; with three or more no call ever has.
\<close>

theorem median_small_window_undefined:
  assumes "new_median n sg = Inr m"
  shows "fst (median_get_debounce_val x (snd (debounce_run median_get_debounce_val m xs)))
           = Inl undefined_behaviour \<longleftrightarrow> n < 3 \<and> nat n \<le> Suc (length xs)"
proof -
  have new: "median_wf m" "med_size m = n" "med_data m = []"
    using assms by (auto simp: new_median_def median_wf_def split: if_splits)
  define s where "s = snd (debounce_run median_get_debounce_val m xs)"
  have st: "s = m\<lparr>med_data := last_n (nat n) (map (median_norm m) xs)\<rparr>"
    using median_run_state [of m xs] new by (simp add: s_def)
  then have fields: "med_size s = n" "med_data s = last_n (nat n) (map (median_norm m) xs)"
    using new by simp_all
  have wf: "median_wf s" using st new by (simp add: median_wf_def)
  have "length (median_window s x) = min (nat n) (Suc (length xs))"
    using fields new by (auto simp: median_window_def median_wf_def)
  with fields show ?thesis
    unfolding s_def [symmetric] by (auto simp: median_get_closed [OF wf])
qed

theorem median_small_window_undefined_witness:
  "fst (median_get_debounce_val 5 (snd (debounce_run median_get_debounce_val
      \<lparr>med_size = 2, med_is_signed = False, med_data = []\<rparr> [4]))) = Inl undefined_behaviour
   \<longleftrightarrow> (2::int) < 3 \<and> nat 2 \<le> Suc (length [4::int])"
  by (rule median_small_window_undefined [where sg = False]) (simp add: new_median_def)

end
