(* ===== verification/LruCache.thy ===== *)
theory LruCache
  imports Prelude "HOL-Library.AList" "HOL-Library.While_Combinator"
begin

text \<open>
  The least-recently-used cache of \<^verbatim>\<open>include/mc/algorithm/lru_cache.h\<close>. The list nodes carry
  an identity, since the hash map stores list iterators: \<open>m_lru_list\<close> is the list of nodes
  from the most to the least recently used, \<open>m_cache_map\<close> the hash map from keys to node
  identities (an association list: the order of an \<^verbatim>\<open>unordered_map\<close> is never observed),
  and \<open>next_node\<close> stands for the allocator that hands out fresh nodes. The eviction callback
  is observed through the log of its calls. A callback that re-enters the cache is outside
  the model.
\<close>

record ('k, 'v) lru_cache =
  m_max_size :: nat
  m_lru_list :: "(nat \<times> 'k \<times> 'v) list"
  m_cache_map :: "('k \<times> nat) list"
  m_on_evict :: bool
  evict_log :: "('k \<times> 'v) list"
  next_node :: nat

definition new_lru_cache :: "nat \<Rightarrow> bool \<Rightarrow> ('k, 'v) lru_cache" where
  "new_lru_cache max_size on_evict =
     \<lparr>m_max_size = max_size, m_lru_list = [], m_cache_map = [], m_on_evict = on_evict,
      evict_log = [], next_node = 0\<rparr>"

section \<open>The node list: dereferencing and moving an iterator\<close>

text \<open>\<open>splice(begin(), list, it)\<close> moves the node of \<open>it\<close> to the front.\<close>

definition node_value :: "(nat \<times> 'k \<times> 'v) list \<Rightarrow> nat \<Rightarrow> 'v option" where
  "node_value l i = map_option snd (map_of l i)"

definition splice_front :: "(nat \<times> 'k \<times> 'v) list \<Rightarrow> nat \<Rightarrow> (nat \<times> 'k \<times> 'v) list" where
  "splice_front l i = filter (\<lambda>n. fst n = i) l @ filter (\<lambda>n. fst n \<noteq> i) l"

definition erase_node :: "(nat \<times> 'k \<times> 'v) list \<Rightarrow> nat \<Rightarrow> (nat \<times> 'k \<times> 'v) list" where
  "erase_node l i = filter (\<lambda>n. fst n \<noteq> i) l"

definition set_node_value :: "(nat \<times> 'k \<times> 'v) list \<Rightarrow> nat \<Rightarrow> 'v \<Rightarrow> (nat \<times> 'k \<times> 'v) list" where
  "set_node_value l i v = map (\<lambda>(j, k, w). if j = i then (j, k, v) else (j, k, w)) l"

section \<open>The operations\<close>

definition lru_get :: "'k \<Rightarrow> ('k, 'v) lru_cache \<Rightarrow> 'v option \<times> ('k, 'v) lru_cache" where
  "lru_get key c =
     (case map_of (m_cache_map c) key of
        None \<Rightarrow> (None, c)
      | Some it \<Rightarrow>
          let c = c\<lparr>m_lru_list := splice_front (m_lru_list c) it\<rparr>
          in (node_value (m_lru_list c) it, c))"

definition evict_lru :: "('k, 'v) lru_cache \<Rightarrow> ('k, 'v) lru_cache" where
  "evict_lru c =
     (if m_lru_list c = [] then c
      else
        let (_, key, value) = last (m_lru_list c);
            c = (if m_on_evict c then c\<lparr>evict_log := evict_log c @ [(key, value)]\<rparr> else c);
            c = c\<lparr>m_cache_map := AList.delete key (m_cache_map c)\<rparr>
        in c\<lparr>m_lru_list := butlast (m_lru_list c)\<rparr>)"

definition lru_put :: "'k \<Rightarrow> 'v \<Rightarrow> ('k, 'v) lru_cache \<Rightarrow> ('k, 'v) lru_cache" where
  "lru_put key value c =
     (case map_of (m_cache_map c) key of
        Some it \<Rightarrow>
          c\<lparr>m_lru_list := splice_front (set_node_value (m_lru_list c) it value) it\<rparr>
      | None \<Rightarrow>
          let c = (if m_max_size c > 0 \<and> length (m_cache_map c) \<ge> m_max_size c
                   then evict_lru c else c);
              n = next_node c
          in c\<lparr>m_lru_list := (n, key, value) # m_lru_list c,
               m_cache_map := AList.update key n (m_cache_map c),
               next_node := Suc n\<rparr>)"

definition lru_erase :: "'k \<Rightarrow> ('k, 'v) lru_cache \<Rightarrow> bool \<times> ('k, 'v) lru_cache" where
  "lru_erase key c =
     (case map_of (m_cache_map c) key of
        None \<Rightarrow> (False, c)
      | Some it \<Rightarrow>
          (True, c\<lparr>m_lru_list := erase_node (m_lru_list c) it,
                   m_cache_map := AList.delete key (m_cache_map c)\<rparr>))"

definition lru_clear :: "('k, 'v) lru_cache \<Rightarrow> ('k, 'v) lru_cache" where
  "lru_clear c = c\<lparr>m_lru_list := [], m_cache_map := []\<rparr>"

definition lru_size :: "('k, 'v) lru_cache \<Rightarrow> nat" where
  "lru_size c = length (m_cache_map c)"

text \<open>
  \<^verbatim>\<open>set_max_size\<close> loops while the map is too large; \<open>None\<close> is a loop that never ends, as it
  would if the list were empty while the map is not.
\<close>

definition lru_set_max_size :: "nat \<Rightarrow> ('k, 'v) lru_cache \<Rightarrow> ('k, 'v) lru_cache option" where
  "lru_set_max_size max_size c =
     while_option (\<lambda>c. m_max_size c > 0 \<and> lru_size c > m_max_size c) evict_lru
       (c\<lparr>m_max_size := max_size\<rparr>)"

definition lru_contains :: "'k \<Rightarrow> ('k, 'v) lru_cache \<Rightarrow> bool" where
  "lru_contains key c \<longleftrightarrow> map_of (m_cache_map c) key \<noteq> None"

definition lru_empty :: "('k, 'v) lru_cache \<Rightarrow> bool" where
  "lru_empty c \<longleftrightarrow> m_cache_map c = []"

definition lru_set_eviction_callback :: "bool \<Rightarrow> ('k, 'v) lru_cache \<Rightarrow> ('k, 'v) lru_cache" where
  "lru_set_eviction_callback on_evict c = c\<lparr>m_on_evict := on_evict\<rparr>"

text \<open>\<^verbatim>\<open>for_each\<close> visits the entries from the newest to the oldest.\<close>

definition lru_for_each :: "('k \<Rightarrow> 'v \<Rightarrow> 's \<Rightarrow> 's) \<Rightarrow> ('k, 'v) lru_cache \<Rightarrow> 's \<Rightarrow> 's" where
  "lru_for_each f c = fold (\<lambda>(_, k, v). f k v) (m_lru_list c)"

section \<open>Invariant and abstraction\<close>

text \<open>
  The map and the list describe the same entries: node identities and keys are distinct, and
  the map sends a key to a node exactly when that node holds the key.
\<close>

definition lru_inv :: "('k, 'v) lru_cache \<Rightarrow> bool" where
  "lru_inv c \<longleftrightarrow>
     distinct (map fst (m_lru_list c)) \<and>
     distinct (map (fst \<circ> snd) (m_lru_list c)) \<and>
     distinct (map fst (m_cache_map c)) \<and>
     (\<forall>k i. (k, i) \<in> set (m_cache_map c) \<longleftrightarrow> (\<exists>v. (i, k, v) \<in> set (m_lru_list c))) \<and>
     (\<forall>n \<in> set (m_lru_list c). fst n < next_node c)"

text \<open>What a client sees: the entries in order of recency.\<close>

definition lru_entries :: "('k, 'v) lru_cache \<Rightarrow> ('k \<times> 'v) list" where
  "lru_entries c = map snd (m_lru_list c)"

text \<open>The specification, on the entries alone.\<close>

definition spec_get :: "'k \<Rightarrow> ('k \<times> 'v) list \<Rightarrow> 'v option \<times> ('k \<times> 'v) list" where
  "spec_get k es =
     (case map_of es k of None \<Rightarrow> (None, es) | Some v \<Rightarrow> (Some v, (k, v) # AList.delete k es))"

definition spec_put :: "nat \<Rightarrow> 'k \<Rightarrow> 'v \<Rightarrow> ('k \<times> 'v) list \<Rightarrow> ('k \<times> 'v) list" where
  "spec_put n k v es =
     (if map_of es k \<noteq> None then (k, v) # AList.delete k es
      else (k, v) # (if 0 < n \<and> n \<le> length es then butlast es else es))"

lemma distinct_entry_keys:
  "lru_inv c \<Longrightarrow> distinct (map fst (lru_entries c))"
  by (simp add: lru_inv_def lru_entries_def comp_def)

lemma lru_map_Some:
  assumes "lru_inv c"
  shows "map_of (m_cache_map c) k = Some i \<longleftrightarrow> (\<exists>v. (i, k, v) \<in> set (m_lru_list c))"
proof -
  have "map_of (m_cache_map c) k = Some i \<longleftrightarrow> (k, i) \<in> set (m_cache_map c)"
    using assms by (simp add: lru_inv_def)
  also have "\<dots> \<longleftrightarrow> (\<exists>v. (i, k, v) \<in> set (m_lru_list c))"
    using assms by (simp add: lru_inv_def)
  finally show ?thesis .
qed

lemma lru_map_None:
  assumes "lru_inv c"
  shows "map_of (m_cache_map c) k = None \<longleftrightarrow> k \<notin> fst ` set (lru_entries c)"
proof (cases "map_of (m_cache_map c) k")
  case None
  then have "(i, k, v) \<notin> set (m_lru_list c)" for i v
    using lru_map_Some [OF assms, of k] by auto
  with None show ?thesis by (auto simp: lru_entries_def)
next
  case (Some i)
  then show ?thesis
    using lru_map_Some [OF assms, of k i] by (force simp: lru_entries_def)
qed

lemma lru_length:
  assumes "lru_inv c"
  shows "length (m_cache_map c) = length (m_lru_list c)"
proof -
  have "set (m_cache_map c) = {(k, i). \<exists>v. (i, k, v) \<in> set (m_lru_list c)}"
    using assms by (auto simp only: lru_inv_def)
  also have "\<dots> = (\<lambda>(i, k, v). (k, i)) ` set (m_lru_list c)" by force
  finally have img: "set (m_cache_map c) = (\<lambda>(i, k, v). (k, i)) ` set (m_lru_list c)" .
  have inj: "inj_on (\<lambda>(i, k, v). (k, i)) (set (m_lru_list c))"
  proof -
    have "inj_on fst (set (m_lru_list c))" using assms by (simp add: lru_inv_def distinct_map)
    then show ?thesis by (fastforce simp: inj_on_def)
  qed
  have "length (m_cache_map c) = card (set (m_cache_map c))"
    using assms by (simp add: lru_inv_def distinct_card distinct_map)
  also have "\<dots> = card (set (m_lru_list c))"
    using card_image [OF inj] by (simp add: img)
  also have "\<dots> = length (m_lru_list c)"
    using assms by (simp add: lru_inv_def distinct_card distinct_map)
  finally show ?thesis .
qed

text \<open>The node a key maps to, and the nodes around it.\<close>

lemma lru_split:
  assumes "lru_inv c" and "map_of (m_cache_map c) k = Some i"
  obtains us v vs where "m_lru_list c = us @ (i, k, v) # vs"
    "\<forall>n \<in> set us \<union> set vs. fst n \<noteq> i \<and> fst (snd n) \<noteq> k"
proof -
  from assms obtain v where "(i, k, v) \<in> set (m_lru_list c)"
    by (auto simp: lru_map_Some)
  then obtain us vs where l: "m_lru_list c = us @ (i, k, v) # vs"
    by (meson split_list)
  moreover have "\<forall>n \<in> set us \<union> set vs. fst n \<noteq> i \<and> fst (snd n) \<noteq> k"
  proof -
    have "distinct (map fst (m_lru_list c))" "distinct (map (fst \<circ> snd) (m_lru_list c))"
      using assms(1) by (simp_all add: lru_inv_def)
    then show ?thesis unfolding l by auto
  qed
  ultimately show ?thesis by (rule that)
qed

lemma filter_other [simp]:
  "\<forall>n \<in> set us. fst n \<noteq> i \<Longrightarrow> filter (\<lambda>n. fst n = i) us = []"
  "\<forall>n \<in> set us. fst n \<noteq> i \<Longrightarrow> filter (\<lambda>n. fst n \<noteq> i) us = us"
  by (auto simp: filter_empty_conv filter_id_conv)

lemma delete_other:
  "\<forall>e \<in> set es. fst e \<noteq> k \<Longrightarrow> AList.delete k es = es"
  by (auto simp: AList.delete_eq filter_id_conv)

lemma delete_append: "AList.delete k (es @ fs) = AList.delete k es @ AList.delete k fs"
  by (simp add: AList.delete_eq)

text \<open>The list operations on a list split around the node of a key.\<close>

definition apart :: "nat \<Rightarrow> 'k \<Rightarrow> (nat \<times> 'k \<times> 'v) list \<Rightarrow> bool" where
  "apart i k l \<longleftrightarrow> (\<forall>n \<in> set l. fst n \<noteq> i \<and> fst (snd n) \<noteq> k)"

lemma apart_append [simp]: "apart i k (us @ vs) \<longleftrightarrow> apart i k us \<and> apart i k vs"
  by (auto simp: apart_def)

lemma apart_notin [simp]: "apart i k us \<Longrightarrow> (j, k, v) \<notin> set us"
  by (force simp: apart_def)

lemma splice_front_split:
  "apart i k (us @ vs) \<Longrightarrow> splice_front (us @ (i, k, v) # vs) i = (i, k, v) # us @ vs"
  by (simp add: splice_front_def apart_def)

lemma erase_node_split:
  "apart i k (us @ vs) \<Longrightarrow> erase_node (us @ (i, k, v) # vs) i = us @ vs"
  by (simp add: erase_node_def apart_def)

lemma set_node_value_other: "\<forall>n \<in> set us. fst n \<noteq> i \<Longrightarrow> set_node_value us i w = us"
  by (induction us) (auto simp: set_node_value_def)

lemma set_node_value_split:
  "apart i k (us @ vs) \<Longrightarrow> set_node_value (us @ (i, k, v) # vs) i w = us @ (i, k, w) # vs"
  using set_node_value_other [of us i w] set_node_value_other [of vs i w]
  by (simp add: set_node_value_def apart_def)

lemma delete_split:
  "apart i k (us @ vs) \<Longrightarrow> AList.delete k (map snd (us @ (i, k, v) # vs)) = map snd (us @ vs)"
  by (simp add: delete_append delete_other apart_def)

lemma map_of_split:
  "apart i k (us @ vs) \<Longrightarrow> map_of (map snd (us @ (i, k, v) # vs)) k = Some v"
  by (induction us) (auto simp: apart_def)

lemmas lru_list_simps =
  splice_front_split erase_node_split set_node_value_split delete_split map_of_split

lemma lru_splitE:
  assumes "lru_inv c" and "map_of (m_cache_map c) k = Some i"
  obtains us v vs where "m_lru_list c = us @ (i, k, v) # vs" "apart i k (us @ vs)"
  using lru_split [OF assms] by (auto simp: apart_def)

text \<open>The invariant only depends on the set of nodes and on the order of nothing.\<close>

lemma lru_inv_reorder:
  assumes "lru_inv c" and "m_lru_list c = us @ (i, k, v) # vs"
  shows "lru_inv (c\<lparr>m_lru_list := (i, k, w) # us @ vs\<rparr>)"
  using assms by (auto simp: lru_inv_def)

section \<open>Every operation keeps the invariant and implements its specification\<close>

lemma lru_get_refines:
  assumes "lru_inv c" and "lru_get k c = (r, c')"
  shows "lru_inv c' \<and> spec_get k (lru_entries c) = (r, lru_entries c') \<and>
    m_max_size c' = m_max_size c \<and> evict_log c' = evict_log c"
proof (cases "map_of (m_cache_map c) k")
  case None
  then have "map_of (lru_entries c) k = None"
    unfolding lru_map_None [OF assms(1)] by (simp only: map_of_eq_None_iff set_map not_False_eq_True)
  with None assms show ?thesis by (simp add: lru_get_def spec_get_def)
next
  case (Some i)
  from lru_splitE [OF assms(1) Some] obtain us v vs
    where l: "m_lru_list c = us @ (i, k, v) # vs" and ap: "apart i k (us @ vs)" .
  from assms(2) Some have "c' = c\<lparr>m_lru_list := (i, k, v) # us @ vs\<rparr>" "r = Some v"
    by (simp_all add: lru_get_def l splice_front_split [OF ap] node_value_def)
  with lru_inv_reorder [OF assms(1) l] show ?thesis
    using map_of_split [OF ap] delete_split [OF ap]
    by (simp add: spec_get_def lru_entries_def l)
qed

lemma lru_put_present_refines:
  assumes "lru_inv c" and "map_of (m_cache_map c) k = Some i"
  shows "lru_inv (lru_put k v c) \<and>
    lru_entries (lru_put k v c) = (k, v) # AList.delete k (lru_entries c) \<and>
    map_of (lru_entries c) k \<noteq> None \<and> evict_log (lru_put k v c) = evict_log c"
proof -
  from lru_splitE [OF assms] obtain us w vs
    where l: "m_lru_list c = us @ (i, k, w) # vs" and ap: "apart i k (us @ vs)" .
  have "lru_put k v c = c\<lparr>m_lru_list := (i, k, v) # us @ vs\<rparr>"
    by (simp add: lru_put_def assms(2) l set_node_value_split [OF ap] splice_front_split [OF ap])
  with lru_inv_reorder [OF assms(1) l] show ?thesis
    using map_of_split [OF ap] delete_split [OF ap] by (simp add: lru_entries_def l)
qed

lemma lru_erase_refines:
  assumes "lru_inv c" and "lru_erase k c = (r, c')"
  shows "lru_inv c' \<and> lru_entries c' = AList.delete k (lru_entries c) \<and>
    (r \<longleftrightarrow> k \<in> fst ` set (lru_entries c)) \<and> evict_log c' = evict_log c"
proof (cases "map_of (m_cache_map c) k")
  case None
  then have k: "k \<notin> fst ` set (lru_entries c)" unfolding lru_map_None [OF assms(1)] .
  then have "AList.delete k (lru_entries c) = lru_entries c" by (intro delete_other) auto
  with None k assms show ?thesis by (auto simp: lru_erase_def)
next
  case (Some i)
  from lru_splitE [OF assms(1) Some] obtain us v vs
    where l: "m_lru_list c = us @ (i, k, v) # vs" and ap: "apart i k (us @ vs)" .
  have c': "c' = c\<lparr>m_lru_list := us @ vs, m_cache_map := AList.delete k (m_cache_map c)\<rparr>" "r"
    using assms(2) Some by (auto simp: lru_erase_def l erase_node_split [OF ap])
  have "lru_inv c'"
    using assms(1) ap unfolding c' lru_inv_def l
    by (auto simp: AList.delete_eq distinct_map_filter)
  with c' show ?thesis
    using delete_split [OF ap] by (simp add: lru_entries_def l)
qed

lemma lru_evict_refines:
  assumes "lru_inv c" and "m_lru_list c \<noteq> []"
  shows "lru_inv (evict_lru c)" "lru_entries (evict_lru c) = butlast (lru_entries c)"
    "evict_log (evict_lru c) =
       evict_log c @ (if m_on_evict c then [last (lru_entries c)] else [])"
    "m_max_size (evict_lru c) = m_max_size c" "m_on_evict (evict_lru c) = m_on_evict c"
    "next_node (evict_lru c) = next_node c"
proof -
  obtain l i k v where l: "m_lru_list c = l @ [(i, k, v)]"
    using assms(2) by (metis append_butlast_last_id prod_cases3)
  have c': "evict_lru c = c\<lparr>m_lru_list := l, m_cache_map := AList.delete k (m_cache_map c),
      evict_log := evict_log c @ (if m_on_evict c then [(k, v)] else [])\<rparr>"
    by (simp add: evict_lru_def l)
  have "apart i k l"
    using assms(1) unfolding lru_inv_def l by (force simp: apart_def)
  then show "lru_inv (evict_lru c)"
    using assms(1) unfolding c' lru_inv_def l
    by (auto simp: AList.delete_eq distinct_map_filter)
  show "lru_entries (evict_lru c) = butlast (lru_entries c)"
    "evict_log (evict_lru c) = evict_log c @ (if m_on_evict c then [last (lru_entries c)] else [])"
    "m_max_size (evict_lru c) = m_max_size c" "m_on_evict (evict_lru c) = m_on_evict c"
    "next_node (evict_lru c) = next_node c"
    by (simp_all add: c' lru_entries_def l)
qed

lemma lru_size_entries: "lru_inv c \<Longrightarrow> lru_size c = length (lru_entries c)"
  by (simp add: lru_size_def lru_length lru_entries_def)

lemma update_absent: "k \<notin> fst ` set al \<Longrightarrow> AList.update k v al = al @ [(k, v)]"
  by (induction al) auto

lemma lru_insert_inv:
  assumes "lru_inv c" and "k \<notin> fst ` set (lru_entries c)"
  shows "lru_inv (c\<lparr>m_lru_list := (next_node c, k, v) # m_lru_list c,
             m_cache_map := AList.update k (next_node c) (m_cache_map c),
             next_node := Suc (next_node c)\<rparr>)"
proof -
  have "map_of (m_cache_map c) k = None" by (rule lru_map_None [THEN iffD2, OF assms])
  then have up: "AList.update k (next_node c) (m_cache_map c) = m_cache_map c @ [(k, next_node c)]"
    by (intro update_absent) (simp add: map_of_eq_None_iff)
  have "fst n \<noteq> next_node c \<and> fst (snd n) \<noteq> k" if "n \<in> set (m_lru_list c)" for n
    using assms that by (auto simp: lru_inv_def lru_entries_def)
  then show ?thesis
    using assms(1) unfolding lru_inv_def up by (force simp: less_Suc_eq)
qed

lemma lru_put_absent_refines:
  assumes "lru_inv c" and "map_of (m_cache_map c) k = None"
  shows "lru_inv (lru_put k v c) \<and>
    lru_entries (lru_put k v c) = spec_put (m_max_size c) k v (lru_entries c) \<and>
    evict_log (lru_put k v c) = evict_log c @
      (if m_on_evict c \<and> 0 < m_max_size c \<and> m_max_size c \<le> length (lru_entries c)
       then [last (lru_entries c)] else [])"
proof -
  have k: "k \<notin> fst ` set (lru_entries c)" by (rule lru_map_None [THEN iffD1, OF assms])
  define full where "full \<longleftrightarrow> 0 < m_max_size c \<and> m_max_size c \<le> length (lru_entries c)"
  define d where "d = (if full then evict_lru c else c)"
  have ne: "m_lru_list c \<noteq> []" if full
    using that by (auto simp: full_def lru_entries_def)
  have d: "lru_inv d" "lru_entries d = (if full then butlast (lru_entries c) else lru_entries c)"
    "evict_log d = evict_log c @ (if m_on_evict c \<and> full then [last (lru_entries c)] else [])"
    using lru_evict_refines [OF assms(1) ne] assms(1) by (auto simp: d_def)
  have kd: "k \<notin> fst ` set (lru_entries d)"
    using k d(2) by (auto dest: in_set_butlastD)
  have put: "lru_put k v c = d\<lparr>m_lru_list := (next_node d, k, v) # m_lru_list d,
      m_cache_map := AList.update k (next_node d) (m_cache_map d), next_node := Suc (next_node d)\<rparr>"
    using lru_size_entries [OF assms(1)] assms(2)
    by (simp add: lru_put_def d_def full_def lru_size_def Let_def)
  have "map_of (lru_entries c) k = None" using k by (simp add: map_of_eq_None_iff)
  with d put lru_insert_inv [OF d(1) kd] show ?thesis
    by (simp add: spec_put_def lru_entries_def full_def)
qed

lemma lru_put_max [simp]: "m_max_size (lru_put k v c) = m_max_size c"
  by (auto simp: lru_put_def evict_lru_def Let_def split: option.splits prod.splits)

lemma lru_put_refines:
  assumes "lru_inv c"
  shows "lru_inv (lru_put k v c) \<and>
    lru_entries (lru_put k v c) = spec_put (m_max_size c) k v (lru_entries c)"
proof (cases "map_of (m_cache_map c) k")
  case None
  from lru_put_absent_refines [OF assms None, of v] show ?thesis by blast
next
  case (Some i)
  from lru_put_present_refines [OF assms Some, of v] show ?thesis by (simp add: spec_put_def)
qed

lemma lru_shrink:
  assumes "lru_inv c"
  shows "\<exists>c'. while_option (\<lambda>c. m_max_size c > 0 \<and> lru_size c > m_max_size c) evict_lru c = Some c' \<and>
     lru_inv c' \<and> m_max_size c' = m_max_size c \<and>
     lru_entries c' = (if m_max_size c = 0 then lru_entries c
                       else take (m_max_size c) (lru_entries c)) \<and>
     evict_log c' = evict_log c @
       (if m_on_evict c \<and> 0 < m_max_size c then rev (drop (m_max_size c) (lru_entries c)) else [])"
  using assms
proof (induction "length (lru_entries c)" arbitrary: c rule: less_induct)
  case less
  let ?b = "\<lambda>c. m_max_size c > 0 \<and> lru_size c > m_max_size c"
  show ?case
  proof (cases "?b c")
    case False
    have "while_option ?b evict_lru c = Some c"
      by (subst while_option_unfold, rule if_not_P, rule False)
    with False less.prems show ?thesis by (auto simp: lru_size_entries)
  next
    case True
    then have more: "0 < m_max_size c" "m_max_size c < length (lru_entries c)"
      by (auto simp: lru_size_entries [OF less.prems])
    then have ne: "m_lru_list c \<noteq> []" by (auto simp: lru_entries_def)
    note ev = lru_evict_refines [OF less.prems ne]
    from more obtain es e where es: "lru_entries c = es @ [e]"
      by (metis append_butlast_last_id length_greater_0_conv less_trans)
    have "length (lru_entries (evict_lru c)) < length (lru_entries c)" by (simp add: ev es)
    from less.hyps [OF this ev(1)] more show ?thesis
      using True by (subst while_option_unfold) (auto simp: ev es)
  qed
qed

section \<open>The interface of a bounded cache\<close>

text \<open>A sequence of lookups and insertions.\<close>

datatype ('k, 'v) cache_op = CGet 'k | CPut 'k 'v

fun op_key :: "('k, 'v) cache_op \<Rightarrow> 'k" where
  "op_key (CGet k) = k"
| "op_key (CPut k _) = k"

fun cache_step ::
    "('k \<Rightarrow> 'c \<Rightarrow> 'v option \<times> 'c) \<Rightarrow> ('k \<Rightarrow> 'v \<Rightarrow> 'c \<Rightarrow> 'c) \<Rightarrow> ('k, 'v) cache_op \<Rightarrow> 'c \<Rightarrow> 'c" where
  "cache_step get put (CGet k) c = snd (get k c)"
| "cache_step get put (CPut k v) c = put k v c"

definition cache_run ::
    "('k \<Rightarrow> 'c \<Rightarrow> 'v option \<times> 'c) \<Rightarrow> ('k \<Rightarrow> 'v \<Rightarrow> 'c \<Rightarrow> 'c) \<Rightarrow> ('k, 'v) cache_op list \<Rightarrow> 'c \<Rightarrow> 'c" where
  "cache_run get put ops = fold (cache_step get put) ops"

text \<open>The entries that were used more recently than \<open>k\<close>.\<close>

definition ahead :: "'k \<Rightarrow> ('k \<times> 'v) list \<Rightarrow> 'k set" where
  "ahead k es = fst ` set (takeWhile (\<lambda>e. fst e \<noteq> k) es)"

lemma ahead_Nil [simp]: "ahead k [] = {}"
  by (simp add: ahead_def)

lemma ahead_Cons [simp]:
  "ahead k (e # es) = (if fst e = k then {} else insert (fst e) (ahead k es))"
  by (auto simp: ahead_def)

lemma ahead_delete: "k' \<noteq> k \<Longrightarrow> ahead k (AList.delete k' es) \<subseteq> ahead k es"
  by (induction es) auto

lemma ahead_butlast: "ahead k (butlast es) \<subseteq> ahead k es"
  by (induction es) auto

lemma map_of_butlast:
  assumes "map_of es k = Some v" and "fst (last es) \<noteq> k"
  shows "map_of (butlast es) k = Some v"
  using assms by (induction es) (auto split: if_splits)

lemma ahead_last:
  assumes "distinct (map fst es)" and "es \<noteq> []" and "fst (last es) = k"
  shows "ahead k es = fst ` set (butlast es)"
  using assms by (induction es) (auto split: if_splits)

lemma card_butlast_keys:
  "distinct (map fst es) \<Longrightarrow> card (fst ` set (butlast es)) = length es - 1"
  by (metis card_set distinct_butlast distinct_card length_butlast length_map list.set_map map_butlast)

text \<open>
  An entry survives a touch of another key \<open>k'\<close> as long as \<open>k'\<close> together with the keys used
  more recently than the entry are fewer than the capacity.
\<close>

lemma spec_put_survives:
  assumes dist: "distinct (map fst es)" and k: "map_of es k = Some v" and neq: "k' \<noteq> k"
    and room: "card (insert k' (ahead k es)) < n"
  shows "map_of (spec_put n k' w es) k = Some v \<and>
    ahead k (spec_put n k' w es) \<subseteq> insert k' (ahead k es)"
proof (cases "map_of es k' = None \<and> 0 < n \<and> n \<le> length es")
  case False
  then show ?thesis
    using k neq ahead_delete [OF neq, of es] by (auto simp: spec_put_def delete_conv')
next
  case True
  have "fst (last es) \<noteq> k"
  proof
    assume last: "fst (last es) = k"
    from True have "es \<noteq> []" by auto
    from ahead_last [OF dist this last] card_butlast_keys [OF dist]
    have "card (ahead k es) = length es - 1" by simp
    moreover have "k' \<notin> ahead k es"
      using True by (auto simp: map_of_eq_None_iff ahead_def dest: set_takeWhileD)
    moreover have "finite (ahead k es)" by (simp add: ahead_def)
    ultimately have "card (insert k' (ahead k es)) = Suc (length es - 1)" by simp
    with room True \<open>es \<noteq> []\<close> show False by (cases es) auto
  qed
  with True k neq map_of_butlast [OF k] ahead_butlast [of k es] show ?thesis
    by (auto simp: spec_put_def)
qed

locale bounded_cache =
  fixes get :: "'k \<Rightarrow> 'c \<Rightarrow> 'v option \<times> 'c"
    and put :: "'k \<Rightarrow> 'v \<Rightarrow> 'c \<Rightarrow> 'c"
    and entries :: "'c \<Rightarrow> ('k \<times> 'v) list"
    and capacity :: "'c \<Rightarrow> nat"
    and inv :: "'c \<Rightarrow> bool"
  assumes distinct_entries: "inv c \<Longrightarrow> distinct (map fst (entries c))"
    and inv_get: "inv c \<Longrightarrow> inv (snd (get k c))"
    and inv_put: "inv c \<Longrightarrow> inv (put k v c)"
    and get_spec: "inv c \<Longrightarrow> spec_get k (entries c) = (fst (get k c), entries (snd (get k c)))"
    and put_spec: "inv c \<Longrightarrow> entries (put k v c) = spec_put (capacity c) k v (entries c)"
    and capacity_get: "capacity (snd (get k c)) = capacity c"
    and capacity_put: "capacity (put k v c) = capacity c"
begin

lemma get_result: "inv c \<Longrightarrow> fst (get k c) = map_of (entries c) k"
  using get_spec [of c k] by (auto simp: spec_get_def split: option.splits)

lemma entries_get:
  "inv c \<Longrightarrow> entries (snd (get k c)) =
     (case map_of (entries c) k of None \<Rightarrow> entries c | Some v \<Rightarrow> (k, v) # AList.delete k (entries c))"
  using get_spec [of c k] by (auto simp: spec_get_def split: option.splits)

lemma put_get: "inv c \<Longrightarrow> fst (get k (put k v c)) = Some v"
  by (simp add: get_result inv_put put_spec spec_put_def)

lemma inv_step: "inv c \<Longrightarrow> inv (cache_step get put p c)"
  by (cases p) (simp_all add: inv_get inv_put)

lemma capacity_step: "capacity (cache_step get put p c) = capacity c"
  by (cases p) (simp_all add: capacity_get capacity_put)

lemma length_delete_present:
  "map_of es k = Some v \<Longrightarrow> length (AList.delete k es) < length es"
  by (induction es) (auto simp: le_imp_less_Suc length_delete_le split: if_splits)

lemma bound_step:
  assumes "inv c" and "0 < capacity c" and "length (entries c) \<le> capacity c"
  shows "length (entries (cache_step get put p c)) \<le> capacity c"
proof (cases p)
  case (CGet k)
  with assms length_delete_present [of "entries c" k] show ?thesis
    by (auto simp: entries_get split: option.splits)
next
  case (CPut k v)
  with assms length_delete_present [of "entries c" k] show ?thesis
    by (auto simp: put_spec spec_put_def)
qed

lemma run_bound:
  assumes "inv c" and "0 < capacity c" and "length (entries c) \<le> capacity c"
  shows "inv (cache_run get put ops c) \<and> capacity (cache_run get put ops c) = capacity c \<and>
    length (entries (cache_run get put ops c)) \<le> capacity c"
  using assms
proof (induction ops arbitrary: c)
  case (Cons p ops)
  with Cons.IH [of "cache_step get put p c"] show ?case
    by (simp add: cache_run_def inv_step capacity_step bound_step)
qed (simp add: cache_run_def)

lemma step_survives:
  assumes "inv c" and "map_of (entries c) k = Some v" and "op_key p \<noteq> k"
    and "card (insert (op_key p) (ahead k (entries c))) < capacity c"
  shows "map_of (entries (cache_step get put p c)) k = Some v \<and>
    ahead k (entries (cache_step get put p c)) \<subseteq> insert (op_key p) (ahead k (entries c))"
proof (cases p)
  case (CGet k')
  with assms(1-3) ahead_delete [of k' k "entries c"] show ?thesis
    by (auto simp: entries_get delete_conv' split: option.splits)
next
  case (CPut k' w)
  with assms(1,3,4) spec_put_survives [OF distinct_entries [OF assms(1)] assms(2)] show ?thesis
    by (simp add: put_spec)
qed

lemma run_survives:
  assumes "inv c" and "map_of (entries c) k = Some v" and "\<forall>p \<in> set ops. op_key p \<noteq> k"
    and "ahead k (entries c) \<union> op_key ` set ops \<subseteq> T" and "finite T" and "card T < capacity c"
  shows "map_of (entries (cache_run get put ops c)) k = Some v"
  using assms
proof (induction ops arbitrary: c)
  case (Cons p ops)
  let ?c = "cache_step get put p c"
  have "card (insert (op_key p) (ahead k (entries c))) \<le> card T"
    using Cons.prems(4,5) by (intro card_mono) auto
  then have st: "map_of (entries ?c) k = Some v \<and>
      ahead k (entries ?c) \<subseteq> insert (op_key p) (ahead k (entries c))"
    using Cons.prems by (intro step_survives) auto
  have "map_of (entries (cache_run get put ops ?c)) k = Some v"
    using Cons.prems st by (intro Cons.IH) (auto simp: inv_step capacity_step)
  then show ?case by (simp add: cache_run_def)
qed (simp add: cache_run_def)

lemma put_run_get:
  assumes "inv c" and "\<forall>p \<in> set ops. op_key p \<noteq> k"
    and "card (op_key ` set ops) < capacity c"
  shows "fst (get k (cache_run get put ops (put k v c))) = Some v"
proof -
  let ?d = "put k v c"
  have "map_of (entries ?d) k = Some v" "ahead k (entries ?d) = {}"
    using assms(1) by (simp_all add: put_spec spec_put_def)
  then have "map_of (entries (cache_run get put ops ?d)) k = Some v"
    using assms by (intro run_survives [where T = "op_key ` set ops"]) (auto simp: inv_put capacity_put)
  moreover have "inv (cache_run get put ops ?d)"
    using inv_put [OF assms(1), of k v] unfolding cache_run_def
    by (induction ops arbitrary: c rule: rev_induct) (auto simp: inv_step inv_put assms)
  ultimately show ?thesis by (simp add: get_result)
qed

end

section \<open>The cache implements the interface\<close>

lemma lru_get_facts:
  assumes "lru_inv c"
  shows "lru_inv (snd (lru_get k c))"
    "spec_get k (lru_entries c) = (fst (lru_get k c), lru_entries (snd (lru_get k c)))"
    "evict_log (snd (lru_get k c)) = evict_log c"
  using lru_get_refines [OF assms, of k "fst (lru_get k c)" "snd (lru_get k c)"] by simp_all

lemma lru_get_max: "m_max_size (snd (lru_get k c)) = m_max_size c"
  by (auto simp: lru_get_def Let_def split: option.splits)

interpretation lru: bounded_cache lru_get lru_put lru_entries m_max_size lru_inv
  by unfold_locales
    (simp_all add: distinct_entry_keys lru_get_facts lru_get_max lru_put_refines)

lemma new_lru_inv: "lru_inv (new_lru_cache n cb)"
  by (simp add: lru_inv_def new_lru_cache_def)

text \<open>
  Every operation of the cache keeps its hash map and its recency list in agreement: the
  same keys, each mapped to the node that holds it.
\<close>

theorem lru_operations_keep_invariant:
  assumes "lru_inv c"
  shows "lru_inv (lru_put k v c) \<and> lru_inv (snd (lru_get k c)) \<and> lru_inv (snd (lru_erase k c)) \<and>
    lru_inv (lru_clear c) \<and> lru_inv (evict_lru c) \<and> lru_inv (lru_set_eviction_callback cb c) \<and>
    (\<exists>c'. lru_set_max_size n c = Some c' \<and> lru_inv c')"
proof (intro conjI)
  show "lru_inv (evict_lru c)"
    using assms lru_evict_refines(1) [OF assms] by (cases "m_lru_list c = []") (simp_all add: evict_lru_def)
  show "lru_inv (snd (lru_erase k c))"
    using lru_erase_refines [OF assms, of k "fst (lru_erase k c)"] by simp
  have "lru_inv (c\<lparr>m_max_size := n\<rparr>)" using assms by (simp add: lru_inv_def)
  from lru_shrink [OF this] show "\<exists>c'. lru_set_max_size n c = Some c' \<and> lru_inv c'"
    by (auto simp: lru_set_max_size_def)
  show "lru_inv (lru_put k v c)" "lru_inv (snd (lru_get k c))"
    using assms by (simp_all add: lru_put_refines lru_get_facts)
qed (use assms in \<open>simp_all add: lru_inv_def lru_clear_def lru_set_eviction_callback_def\<close>)

theorem lru_operations_keep_invariant_witness:
  "\<exists>c'. lru_set_max_size 1 (lru_put ''b'' (2::nat) (lru_put ''a'' 1 (new_lru_cache 0 True))) = Some c'
     \<and> lru_inv c'"
proof -
  have "lru_inv (lru_put ''a'' (1::nat) (new_lru_cache 0 True))"
    using lru_operations_keep_invariant [OF new_lru_inv, of "''a''" "1::nat"] by blast
  from lru_operations_keep_invariant [OF this, of "''b''" 2]
  have "lru_inv (lru_put ''b'' (2::nat) (lru_put ''a'' 1 (new_lru_cache 0 True)))" by blast
  from lru_operations_keep_invariant [OF this, of _ _ _ 1] show ?thesis by blast
qed

text \<open>
  C35. \<open>lru_put\<close> refines its specification: an existing key is updated and becomes the most
  recent; a new key becomes the most recent, and a full cache drops exactly its least recently
  used entry, which is what the eviction callback is told, and only then.
\<close>

theorem lru_put_refines_spec:
  assumes "lru_inv c"
  shows "lru_entries (lru_put k v c) = spec_put (m_max_size c) k v (lru_entries c) \<and>
    evict_log (lru_put k v c) = evict_log c @
      (if m_on_evict c \<and> map_of (lru_entries c) k = None \<and>
          0 < m_max_size c \<and> m_max_size c \<le> length (lru_entries c)
       then [last (lru_entries c)] else [])"
proof (cases "map_of (m_cache_map c) k")
  case None
  have "k \<notin> fst ` set (lru_entries c)" by (rule lru_map_None [THEN iffD1, OF assms None])
  with lru_put_absent_refines [OF assms None, of v] show ?thesis
    by (simp add: map_of_eq_None_iff)
next
  case (Some i)
  from lru_put_present_refines [OF assms Some, of v] show ?thesis by (auto simp: spec_put_def)
qed

theorem lru_put_refines_spec_witness:
  "lru_entries (lru_put ''b'' (2::nat) (new_lru_cache 1 True)) =
     spec_put 1 ''b'' 2 (lru_entries (new_lru_cache 1 True :: (string, nat) lru_cache)) \<and>
   evict_log (lru_put ''b'' (2::nat) (new_lru_cache 1 True)) = []"
  using lru_put_refines_spec [OF new_lru_inv, of "''b''" "2::nat" 1 True]
  by (simp add: new_lru_cache_def lru_entries_def)

text \<open>
  The least-recently-used guarantee: an entry just put is still found, with its value,
  after any sequence of lookups and insertions that touches fewer distinct other keys than the
  capacity.
\<close>

theorem lru_recent_entry_survives:
  assumes "lru_inv c" and "\<forall>p \<in> set ops. op_key p \<noteq> k"
    and "card (op_key ` set ops) < m_max_size c"
  shows "fst (lru_get k (cache_run lru_get lru_put ops (lru_put k v c))) = Some v"
  using assms by (rule lru.put_run_get)

theorem lru_recent_entry_survives_witness:
  "fst (lru_get ''a'' (cache_run lru_get lru_put [CPut ''b'' 2, CGet ''b'', CPut ''b'' 3]
      (lru_put ''a'' (1::nat) (new_lru_cache 2 False)))) = Some 1"
  by (rule lru_recent_entry_survives [OF new_lru_inv]) (simp_all add: new_lru_cache_def)

text \<open>
  A bounded cache never exceeds its capacity, whatever is looked up or inserted.
\<close>

theorem lru_never_exceeds_capacity:
  fixes ops :: "('k, 'v) cache_op list"
  assumes "0 < n"
  shows "lru_size (cache_run lru_get lru_put ops (new_lru_cache n cb)) \<le> n"
proof -
  let ?c = "new_lru_cache n cb :: ('k, 'v) lru_cache"
  have "m_max_size ?c = n" "lru_entries ?c = []"
    by (simp_all add: new_lru_cache_def lru_entries_def)
  with assms lru.run_bound [OF new_lru_inv, of n cb ops] show ?thesis
    by (simp add: lru_size_entries)
qed

theorem lru_never_exceeds_capacity_witness:
  "lru_size (cache_run lru_get lru_put [CPut ''a'' (1::nat), CPut ''b'' 2]
      (new_lru_cache 1 False)) \<le> 1"
  by (rule lru_never_exceeds_capacity) simp

text \<open>
  Lowering the capacity terminates and keeps exactly the most recently used entries; the
  callback sees the dropped ones, oldest first. A capacity of 0 lifts the limit.
\<close>

theorem lru_set_max_size_keeps_recent:
  assumes "lru_inv c"
  shows "\<exists>c'. lru_set_max_size n c = Some c' \<and> m_max_size c' = n \<and>
    lru_entries c' = (if n = 0 then lru_entries c else take n (lru_entries c)) \<and>
    evict_log c' = evict_log c @ (if m_on_evict c \<and> 0 < n then rev (drop n (lru_entries c)) else [])"
proof -
  have "lru_inv (c\<lparr>m_max_size := n\<rparr>)" using assms by (simp add: lru_inv_def)
  from lru_shrink [OF this] show ?thesis by (auto simp: lru_set_max_size_def lru_entries_def)
qed

theorem lru_set_max_size_keeps_recent_witness:
  "\<exists>c'. lru_set_max_size 1 (lru_put ''b'' (2::nat) (lru_put ''a'' 1 (new_lru_cache 0 True))) = Some c' \<and>
    m_max_size c' = 1 \<and> lru_entries c' = [(''b'', 2)] \<and> evict_log c' = [(''a'', 1)]"
proof -
  let ?c = "lru_put ''b'' (2::nat) (lru_put ''a'' 1 (new_lru_cache 0 True))"
  have es: "lru_entries ?c = [(''b'', 2), (''a'', 1)]" "evict_log ?c = []" "m_on_evict ?c"
    by (simp_all add: lru_put_def new_lru_cache_def lru_entries_def Let_def)
  have "lru_inv ?c" by (simp add: lru_put_refines new_lru_inv)
  from lru_set_max_size_keeps_recent [OF this, of 1] show ?thesis
    by (simp only: es if_True zero_less_one simp_thms) simp
qed

end
