(* ===== verification/Signature.thy ===== *)
theory Signature
  imports Prelude
begin

text \<open>
  D-Bus type signatures: \<^verbatim>\<open>libraries/mcbase/src/reflect/signature.cpp\<close> and the type codes of
  \<^verbatim>\<open>type_code.h\<close>. A \<^verbatim>\<open>type_code\<close> is the character it is cast from, a signature its
  string; a \<^verbatim>\<open>signature_iterator\<close> is a record of the viewed string and the position. The
  second half states the D-Bus grammar as a datatype with its printer and relates the
  scanner to it.
\<close>

section \<open>Classification of type codes\<close>

definition is_basic_type :: "char \<Rightarrow> bool" where
  "is_basic_type c \<longleftrightarrow>
     c = CHR ''y'' \<or> c = CHR ''b'' \<or> c = CHR ''n'' \<or> c = CHR ''q'' \<or> c = CHR ''i'' \<or>
     c = CHR ''u'' \<or> c = CHR ''x'' \<or> c = CHR ''t'' \<or> c = CHR ''d'' \<or> c = CHR ''s'' \<or>
     c = CHR ''o'' \<or> c = CHR ''g'' \<or> c = CHR ''h''"

definition is_container_type :: "char \<Rightarrow> bool" where
  "is_container_type c \<longleftrightarrow>
     c = CHR ''a'' \<or> c = CHR ''r'' \<or> c = CHR ''('' \<or> c = CHR ''v'' \<or> c = CHR ''e'' \<or> c = CHR ''{''"

definition is_complete_type :: "char \<Rightarrow> bool" where
  "is_complete_type c \<longleftrightarrow> is_basic_type c \<or> is_container_type c"

section \<open>The scanner\<close>

text \<open>The loop that looks for the parenthesis closing a struct: final position and nesting.\<close>

function struct_scan :: "string \<Rightarrow> nat \<Rightarrow> int \<Rightarrow> nat \<times> int" where
  "struct_scan sig pos nesting =
     (if pos < length sig \<and> nesting > 0 then
        struct_scan sig (pos + 1)
          (if sig ! pos = CHR ''('' then nesting + 1
           else if sig ! pos = CHR '')'' then nesting - 1 else nesting)
      else (pos, nesting))"
  by pat_completeness auto
termination
  by (relation "measure (\<lambda>(sig, pos, n). length sig - pos)") auto

declare struct_scan.simps [simp del]

function get_complete_type_length :: "string \<Rightarrow> nat \<Rightarrow> nat" where
  "get_complete_type_length sig start_pos =
     (if start_pos \<ge> length sig then 0
      else
        let c = sig ! start_pos
        in if is_basic_type c then 1
           else if c = CHR ''v'' then 1
           else if c = CHR ''a'' then
             (if start_pos + 1 \<ge> length sig then 0
              else 1 + get_complete_type_length sig (start_pos + 1))
           else if c = CHR ''('' then
             (let (pos, nesting) = struct_scan sig (start_pos + 1) 1
              in if nesting > 0 then 0 else pos - start_pos)
           else if c = CHR ''{'' then
             (let pos = start_pos + 1
              in if pos \<ge> length sig \<or> \<not> is_basic_type (sig ! pos) then 0
                 else
                   let key_len = get_complete_type_length sig pos
                   in if key_len = 0 then 0
                      else
                        let pos = pos + key_len;
                            value_len = get_complete_type_length sig pos
                        in if value_len = 0 then 0
                           else
                             let pos = pos + value_len
                             in if pos \<ge> length sig \<or> sig ! pos \<noteq> CHR ''}'' then 0
                                else pos - start_pos + 1)
           else 0)"
  by pat_completeness auto
termination
  by (relation "measure (\<lambda>(sig, pos). length sig - pos)") auto

declare get_complete_type_length.simps [simp del]

definition is_single_complete_type :: "string \<Rightarrow> bool" where
  "is_single_complete_type sig \<longleftrightarrow> sig \<noteq> [] \<and> get_complete_type_length sig 0 = length sig"

definition max_signature_length :: nat where
  "max_signature_length = 255"

function signature_valid_from :: "string \<Rightarrow> nat \<Rightarrow> bool" where
  "signature_valid_from sig pos =
     (if pos < length sig then
        if \<not> is_complete_type (sig ! pos) then False
        else
          let type_len = get_complete_type_length sig pos
          in if type_len = 0 then False else signature_valid_from sig (pos + type_len)
      else True)"
  by pat_completeness auto
termination
  by (relation "measure (\<lambda>(sig, pos). length sig - pos)") auto

declare signature_valid_from.simps [simp del]

definition signature_is_valid :: "string \<Rightarrow> bool" where
  "signature_is_valid sig \<longleftrightarrow>
     (if length sig > max_signature_length then False else signature_valid_from sig 0)"

definition signature_validate :: "string \<Rightarrow> unit result" where
  "signature_validate sig = (if \<not> signature_is_valid sig then Inl invalid_arg_exception else Inr ())"

function complete_types_from :: "string \<Rightarrow> nat \<Rightarrow> string list" where
  "complete_types_from sig pos =
     (if pos < length sig then
        let type_len = get_complete_type_length sig pos
        in if type_len = 0 then []
           else substr sig pos type_len # complete_types_from sig (pos + type_len)
      else [])"
  by pat_completeness auto
termination
  by (relation "measure (\<lambda>(sig, pos). length sig - pos)") auto

declare complete_types_from.simps [simp del]

definition get_complete_types :: "string \<Rightarrow> string list" where
  "get_complete_types sig = complete_types_from sig 0"

text \<open>\<^verbatim>\<open>empty_signature\<close> and \<^verbatim>\<open>invalid_type\<close> are both the NUL character.\<close>

definition signature_first_type :: "string \<Rightarrow> char" where
  "signature_first_type sig = (if sig = [] then CHR 0x00 else sig ! 0)"

section \<open>The iterator\<close>

record signature_iterator =
  it_sig :: string
  it_pos :: nat

definition empty_iterator :: signature_iterator where
  "empty_iterator = \<lparr>it_sig = [], it_pos = 0\<rparr>"

definition new_signature_iterator :: "string \<Rightarrow> nat \<Rightarrow> signature_iterator result" where
  "new_signature_iterator sig pos =
     bind_result (signature_validate sig) (\<lambda>_. Inr \<lparr>it_sig = sig, it_pos = pos\<rparr>)"

definition iterator_is_valid :: "signature_iterator \<Rightarrow> bool" where
  "iterator_is_valid it \<longleftrightarrow> it_pos it < length (it_sig it)"

definition iterator_at_end :: "signature_iterator \<Rightarrow> bool" where
  "iterator_at_end it \<longleftrightarrow> \<not> iterator_is_valid it"

text \<open>\<^verbatim>\<open>string_view::substr\<close> throws \<^verbatim>\<open>std::out_of_range\<close> for a position past the end.\<close>

definition iterator_current_type :: "signature_iterator \<Rightarrow> string result" where
  "iterator_current_type it =
     (let type_len = get_complete_type_length (it_sig it) (it_pos it)
      in if it_pos it > length (it_sig it) then Inl out_of_range_exception
         else Inr (substr (it_sig it) (it_pos it) type_len))"

definition iterator_current_type_char :: "signature_iterator \<Rightarrow> char" where
  "iterator_current_type_char it =
     (if \<not> iterator_is_valid it then CHR 0x00 else it_sig it ! it_pos it)"

definition iterator_is_container :: "signature_iterator \<Rightarrow> bool" where
  "iterator_is_container it \<longleftrightarrow> is_container_type (iterator_current_type_char it)"

definition iterator_is_basic :: "signature_iterator \<Rightarrow> bool" where
  "iterator_is_basic it \<longleftrightarrow> is_basic_type (iterator_current_type_char it)"

definition iterator_next :: "signature_iterator \<Rightarrow> signature_iterator" where
  "iterator_next it =
     (if iterator_is_valid it
      then it\<lparr>it_pos := it_pos it + get_complete_type_length (it_sig it) (it_pos it)\<rparr>
      else it)"

definition get_content_iterator :: "signature_iterator \<Rightarrow> signature_iterator result" where
  "get_content_iterator it =
     (if iterator_current_type_char it = CHR ''a'' then
        let type_len = get_complete_type_length (it_sig it) (it_pos it)
        in if type_len = 0 then Inl invalid_arg_exception
           else new_signature_iterator (substr (it_sig it) (it_pos it + 1) (type_len - 1)) 0
      else if iterator_current_type_char it = CHR ''('' then
        let type_len = get_complete_type_length (it_sig it) (it_pos it)
        in if type_len = 0 then Inl invalid_arg_exception
           else new_signature_iterator (substr (it_sig it) (it_pos it + 1) (type_len - 2)) 0
      else Inr empty_iterator)"

definition get_dict_key_iterator :: "signature_iterator \<Rightarrow> signature_iterator result" where
  "get_dict_key_iterator it =
     (if iterator_current_type_char it \<noteq> CHR ''{'' then Inr empty_iterator
      else new_signature_iterator (it_sig it) (it_pos it + 1))"

definition get_dict_value_iterator :: "signature_iterator \<Rightarrow> signature_iterator result" where
  "get_dict_value_iterator it =
     (if iterator_current_type_char it \<noteq> CHR ''{'' then Inr empty_iterator
      else
        let key_pos = it_pos it + 1;
            key_len = get_complete_type_length (it_sig it) key_pos
        in new_signature_iterator (it_sig it) (key_pos + key_len))"

section \<open>Bounds\<close>

lemma struct_scan_bounds:
  "struct_scan sig pos n = (p, m) \<Longrightarrow> pos \<le> length sig \<Longrightarrow> pos \<le> p \<and> p \<le> length sig"
proof (induction sig pos n rule: struct_scan.induct)
  case (1 sig pos n)
  show ?case
  proof (cases "pos < length sig \<and> n > 0")
    case True
    with "1.prems"(1) show ?thesis
      using "1.IH" [OF True] by (auto simp: struct_scan.simps [of sig pos n])
  next
    case False
    with "1.prems" show ?thesis by (auto simp: struct_scan.simps [of sig pos n])
  qed
qed

lemma type_length_zero: "length sig \<le> pos \<Longrightarrow> get_complete_type_length sig pos = 0"
  by (simp add: get_complete_type_length.simps)

lemma type_length_bound:
  "pos \<le> length sig \<Longrightarrow> pos + get_complete_type_length sig pos \<le> length sig"
proof (induction sig pos rule: get_complete_type_length.induct)
  case (1 sig pos)
  show ?case
  proof (cases "pos < length sig")
    case False
    with "1.prems" show ?thesis by (simp add: type_length_zero)
  next
    case True
    have struct: "p \<le> length sig" if "struct_scan sig (Suc pos) 1 = (p, n)" for p n
      using struct_scan_bounds [OF that] True by simp
    have arr: "sig ! pos = CHR ''a'' \<Longrightarrow> Suc pos < length sig \<Longrightarrow>
        Suc pos + get_complete_type_length sig (Suc pos) \<le> length sig"
      using "1.IH"(1) [OF _ refl] True by (simp add: is_basic_type_def)
    show ?thesis
      using True arr
      by (subst get_complete_type_length.simps)
        (auto simp: Let_def split: prod.splits dest: struct)
  qed
qed

section \<open>The grammar\<close>

datatype sig_type =
    TBasic char
  | TVariant
  | TArray sig_type
  | TStruct "sig_type list"
  | TDictEntry char sig_type

fun sig_str :: "sig_type \<Rightarrow> string" where
  "sig_str (TBasic c) = [c]"
| "sig_str TVariant = ''v''"
| "sig_str (TArray t) = CHR ''a'' # sig_str t"
| "sig_str (TStruct ts) = CHR ''('' # concat (map sig_str ts) @ '')''"
| "sig_str (TDictEntry k t) = CHR ''{'' # k # sig_str t @ ''}''"

fun wf_sig :: "sig_type \<Rightarrow> bool" where
  "wf_sig (TBasic c) \<longleftrightarrow> is_basic_type c"
| "wf_sig TVariant \<longleftrightarrow> True"
| "wf_sig (TArray t) \<longleftrightarrow> wf_sig t"
| "wf_sig (TStruct ts) \<longleftrightarrow> ts \<noteq> [] \<and> (\<forall>t \<in> set ts. wf_sig t)"
| "wf_sig (TDictEntry k t) \<longleftrightarrow> is_basic_type k \<and> wf_sig t"

abbreviation sigs_str :: "sig_type list \<Rightarrow> string" where
  "sigs_str ts \<equiv> concat (map sig_str ts)"

lemma sig_str_nonempty [simp]: "sig_str t \<noteq> []"
  by (cases t) auto

text \<open>The scan for the closing parenthesis passes through a balanced string.\<close>

definition scan_through :: "string \<Rightarrow> bool" where
  "scan_through w \<longleftrightarrow> (\<forall>us vs n. 1 \<le> n \<longrightarrow>
     struct_scan (us @ w @ vs) (length us) n = struct_scan (us @ w @ vs) (length us + length w) n)"

lemma scan_throughI:
  "(\<And>us vs n. 1 \<le> n \<Longrightarrow>
     struct_scan (us @ w @ vs) (length us) n = struct_scan (us @ w @ vs) (length us + length w) n)
   \<Longrightarrow> scan_through w"
  by (simp add: scan_through_def)

lemma scan_throughD:
  "scan_through w \<Longrightarrow> 1 \<le> n \<Longrightarrow>
     struct_scan (us @ w @ vs) (length us) n = struct_scan (us @ w @ vs) (length us + length w) n"
  unfolding scan_through_def by blast

lemma scan_through_Nil [simp]: "scan_through []"
  by (simp add: scan_through_def)

lemma scan_through_append:
  assumes "scan_through v" and "scan_through w"
  shows "scan_through (v @ w)"
proof (rule scan_throughI)
  fix us vs :: string and n :: int
  assume n: "1 \<le> n"
  from scan_throughD [OF assms(1) n, of us "w @ vs"] scan_throughD [OF assms(2) n, of "us @ v" vs]
  show "struct_scan (us @ (v @ w) @ vs) (length us) n =
      struct_scan (us @ (v @ w) @ vs) (length us + length (v @ w)) n"
    by (simp add: add.assoc)
qed

lemma struct_scan_step:
  assumes "1 \<le> n"
  shows "struct_scan (us @ c # vs) (length us) n =
    struct_scan (us @ c # vs) (Suc (length us))
      (if c = CHR ''('' then n + 1 else if c = CHR '')'' then n - 1 else n)"
  using assms by (subst struct_scan.simps) simp

lemma scan_through_char: "c \<noteq> CHR ''('' \<Longrightarrow> c \<noteq> CHR '')'' \<Longrightarrow> scan_through [c]"
  by (rule scan_throughI) (simp add: struct_scan_step)

lemma scan_through_parens:
  assumes "scan_through w"
  shows "scan_through (CHR ''('' # w @ '')'')"
proof (rule scan_throughI)
  fix us vs :: string and n :: int
  assume n: "1 \<le> n"
  let ?s = "us @ CHR ''('' # w @ CHR '')'' # vs"
  have "struct_scan ?s (length us) n = struct_scan ?s (Suc (length us)) (n + 1)"
    using struct_scan_step [OF n] by simp
  also have "\<dots> = struct_scan ?s (Suc (length us) + length w) (n + 1)"
    using scan_throughD [OF assms, of "n + 1" "us @ ''(''" "CHR '')'' # vs"] n by simp
  also have "\<dots> = struct_scan ?s (Suc (Suc (length us) + length w)) n"
    using struct_scan_step [of "n + 1" "us @ CHR ''('' # w" "CHR '')''" vs] n by simp
  finally show "struct_scan (us @ (CHR ''('' # w @ '')'') @ vs) (length us) n =
      struct_scan (us @ (CHR ''('' # w @ '')'') @ vs) (length us + length (CHR ''('' # w @ '')'')) n"
    by simp
qed

lemma basic_not_paren: "is_basic_type c \<Longrightarrow> c \<noteq> CHR ''('' \<and> c \<noteq> CHR '')''"
  by (auto simp: is_basic_type_def)

lemma scan_through_concat: "\<forall>w \<in> set ws. scan_through w \<Longrightarrow> scan_through (concat ws)"
  by (induction ws) (auto intro: scan_through_append)

lemma scan_through_sig: "wf_sig t \<Longrightarrow> scan_through (sig_str t)"
proof (induction t)
  case (TArray t)
  then have "scan_through ([CHR ''a''] @ sig_str t)"
    by (intro scan_through_append scan_through_char) auto
  then show ?case by simp
next
  case (TStruct ts)
  then have "scan_through (sigs_str ts)" by (intro scan_through_concat) auto
  then show ?case by (simp add: scan_through_parens)
next
  case (TDictEntry k t)
  then have "scan_through ([CHR ''{''] @ [k] @ sig_str t @ [CHR ''}''])"
    by (intro scan_through_append scan_through_char) (auto dest: basic_not_paren)
  then show ?case by simp
qed (auto intro: scan_through_char dest: basic_not_paren)

lemma scan_through_sigs: "\<forall>t \<in> set ts. wf_sig t \<Longrightarrow> scan_through (sigs_str ts)"
  by (rule scan_through_concat) (auto intro: scan_through_sig)

section \<open>The scanner follows the grammar\<close>

lemma type_length_basic:
  "is_basic_type c \<or> c = CHR ''v'' \<Longrightarrow> get_complete_type_length (us @ c # vs) (length us) = 1"
  by (subst get_complete_type_length.simps) (auto simp: Let_def)

lemma type_length_array:
  "vs \<noteq> [] \<Longrightarrow> get_complete_type_length (us @ CHR ''a'' # vs) (length us) =
     1 + get_complete_type_length (us @ CHR ''a'' # vs) (Suc (length us))"
  by (subst get_complete_type_length.simps) (simp add: Let_def is_basic_type_def)

lemma type_length_struct:
  "get_complete_type_length (us @ CHR ''('' # vs) (length us) =
     (let (pos, nesting) = struct_scan (us @ CHR ''('' # vs) (Suc (length us)) 1
      in if nesting > 0 then 0 else pos - length us)"
  by (subst get_complete_type_length.simps) (simp add: Let_def is_basic_type_def)

lemma type_length_dict:
  assumes k: "is_basic_type k"
  shows "get_complete_type_length (us @ CHR ''{'' # k # vs) (length us) =
     (let s = us @ CHR ''{'' # k # vs;
          value_len = get_complete_type_length s (Suc (Suc (length us)));
          p = Suc (Suc (length us)) + value_len
      in if value_len = 0 \<or> p \<ge> length s \<or> s ! p \<noteq> CHR ''}'' then 0 else value_len + 3)"
proof -
  have "get_complete_type_length ((us @ ''{'') @ k # vs) (length (us @ ''{'')) = 1"
    using k by (intro type_length_basic) simp
  then have key: "get_complete_type_length (us @ CHR ''{'' # k # vs) (Suc (length us)) = 1"
    by simp
  have nth: "(us @ CHR ''{'' # k # vs) ! Suc (length us) = k"
    using nth_append_length [of "us @ ''{''" k vs] by simp
  have c: "\<not> is_basic_type (CHR ''{'')" by (simp add: is_basic_type_def)
  show ?thesis
    by (subst get_complete_type_length.simps)
      (simp add: Let_def key nth c k)
qed

lemma type_length_struct_closed:
  assumes "\<forall>t \<in> set ts. wf_sig t"
  shows "get_complete_type_length (us @ CHR ''('' # sigs_str ts @ CHR '')'' # vs) (length us) =
     length (sigs_str ts) + 2"
proof -
  let ?s = "us @ CHR ''('' # sigs_str ts @ CHR '')'' # vs"
  from scan_throughD [OF scan_through_sigs [OF assms], of 1 "us @ ''(''" "CHR '')'' # vs"]
  have "struct_scan ?s (Suc (length us)) 1 = struct_scan ?s (Suc (length us) + length (sigs_str ts)) 1"
    by simp
  also have "\<dots> = struct_scan ?s (Suc (Suc (length us) + length (sigs_str ts))) 0"
    using struct_scan_step [of 1 "us @ CHR ''('' # sigs_str ts" "CHR '')''" vs] by simp
  also have "\<dots> = (Suc (Suc (length us) + length (sigs_str ts)), 0)"
    by (subst struct_scan.simps) simp
  finally show ?thesis by (simp add: type_length_struct)
qed

lemma type_length_sig:
  assumes "wf_sig t"
  shows "get_complete_type_length (us @ sig_str t @ vs) (length us) = length (sig_str t)"
  using assms
proof (induction t arbitrary: us vs)
  case (TArray t)
  from TArray.IH [of "us @ ''a''" vs] TArray.prems show ?case
    by (simp add: type_length_array)
next
  case (TStruct ts)
  then show ?case
    using type_length_struct_closed [of ts us vs] by simp
next
  case (TDictEntry k t)
  let ?s = "us @ CHR ''{'' # k # sig_str t @ CHR ''}'' # vs"
  have "?s ! Suc (Suc (length us) + length (sig_str t)) = CHR ''}''"
    using nth_append_length [of "us @ CHR ''{'' # k # sig_str t" "CHR ''}''" vs] by simp
  with TDictEntry.IH [of "us @ [CHR ''{'', k]" "CHR ''}'' # vs"] TDictEntry.prems
  show ?case by (simp add: type_length_dict Let_def)
qed (simp_all add: type_length_basic)

text \<open>
  C36. The scanner measures exactly one complete type: at any position of a signature where the
  text of a well-formed type starts, the length it reports is the length of that text, whatever
  follows.
\<close>

theorem type_length_grammar:
  "wf_sig t \<Longrightarrow> get_complete_type_length (us @ sig_str t @ vs) (length us) = length (sig_str t)"
  by (rule type_length_sig)

theorem type_length_grammar_witness:
  "get_complete_type_length (''i'' @ sig_str (TArray (TDictEntry (CHR ''s'') TVariant)) @ ''u'') (length ''i'')
     = length (sig_str (TArray (TDictEntry (CHR ''s'') TVariant)))"
  by (rule type_length_grammar) (simp add: is_basic_type_def)

section \<open>Validation and splitting\<close>

lemma sig_first_complete:
  "wf_sig t \<Longrightarrow> is_complete_type ((us @ sig_str t @ vs) ! length us)"
  by (cases t) (auto simp: is_complete_type_def is_container_type_def)

lemma valid_from_sigs:
  "\<forall>t \<in> set ts. wf_sig t \<Longrightarrow> signature_valid_from (us @ sigs_str ts) (length us)"
proof (induction ts arbitrary: us)
  case Nil
  then show ?case by (subst signature_valid_from.simps) simp
next
  case (Cons t ts)
  then have wf: "wf_sig t" and "\<forall>t \<in> set ts. wf_sig t" by auto
  with Cons.IH [of "us @ sig_str t"]
  have "signature_valid_from (us @ sig_str t @ sigs_str ts) (length us + length (sig_str t))" by simp
  with type_length_sig [OF wf, of us "sigs_str ts"] sig_first_complete [OF wf, of us "sigs_str ts"]
  show ?case by (subst signature_valid_from.simps) (simp add: Let_def)
qed

lemma complete_types_from_sigs:
  "\<forall>t \<in> set ts. wf_sig t \<Longrightarrow> complete_types_from (us @ sigs_str ts) (length us) = map sig_str ts"
proof (induction ts arbitrary: us)
  case Nil
  then show ?case by (subst complete_types_from.simps) simp
next
  case (Cons t ts)
  then have wf: "wf_sig t" and "\<forall>t \<in> set ts. wf_sig t" by auto
  with Cons.IH [of "us @ sig_str t"]
  have "complete_types_from (us @ sig_str t @ sigs_str ts) (length us + length (sig_str t)) = map sig_str ts"
    by simp
  with type_length_sig [OF wf, of us "sigs_str ts"]
  show ?case by (subst complete_types_from.simps) (simp add: Let_def substr_append_middle)
qed

text \<open>
  A sequence of well-formed types is a valid signature exactly when it fits the 255 bytes
  D-Bus allows.
\<close>

theorem signature_valid_grammar:
  assumes "\<forall>t \<in> set ts. wf_sig t"
  shows "signature_is_valid (sigs_str ts) \<longleftrightarrow> length (sigs_str ts) \<le> 255"
  using valid_from_sigs [OF assms, of "[]"]
  by (simp add: signature_is_valid_def max_signature_length_def)

theorem signature_valid_grammar_witness:
  "signature_is_valid (sigs_str [TBasic (CHR ''i''), TStruct [TVariant]]) \<longleftrightarrow>
     length (sigs_str [TBasic (CHR ''i''), TStruct [TVariant]]) \<le> 255"
  by (rule signature_valid_grammar) (simp add: is_basic_type_def)

text \<open>
  Splitting a printed sequence of types gives back the texts of its types, one by one and
  in order.
\<close>

theorem get_complete_types_roundtrip:
  assumes "\<forall>t \<in> set ts. wf_sig t"
  shows "get_complete_types (sigs_str ts) = map sig_str ts"
  using complete_types_from_sigs [OF assms, of "[]"] by (simp add: get_complete_types_def)

theorem get_complete_types_roundtrip_witness:
  "get_complete_types (sigs_str [TArray (TBasic (CHR ''i'')), TVariant]) =
     map sig_str [TArray (TBasic (CHR ''i'')), TVariant]"
  by (rule get_complete_types_roundtrip) (simp add: is_basic_type_def)

lemma single_sigs_valid:
  "\<forall>t \<in> set ts. wf_sig t \<Longrightarrow> length (sigs_str ts) \<le> 255 \<Longrightarrow> signature_validate (sigs_str ts) = Inr ()"
  using valid_from_sigs [of ts "[]"]
  by (simp add: signature_validate_def signature_is_valid_def max_signature_length_def)

text \<open>
  Descending into a container at any position of a signature: the content iterator of an
  array views its element type and that of a struct its member types, both from the start.
\<close>

theorem content_iterator_views:
  assumes "wf_sig t" and "length (sig_str t) \<le> 255" and "t = TArray e \<or> t = TStruct ts"
  shows "get_content_iterator \<lparr>it_sig = us @ sig_str t @ vs, it_pos = length us\<rparr> =
     Inr \<lparr>it_sig = (if t = TArray e then sig_str e else sigs_str ts), it_pos = 0\<rparr>"
  using assms(3)
proof
  assume t: "t = TArray e"
  with assms(1,2) have "signature_validate (sigs_str [e]) = Inr ()"
    by (intro single_sigs_valid) auto
  moreover have "substr (us @ sig_str t @ vs) (length us + 1) (length (sig_str t) - 1) = sig_str e"
    using substr_append_middle [of "us @ ''a''" "sig_str e" vs] by (simp add: t)
  moreover have "(us @ sig_str t @ vs) ! length us = CHR ''a''" by (simp add: t)
  ultimately show ?thesis
    using type_length_sig [OF assms(1), of us vs]
    by (simp add: get_content_iterator_def new_signature_iterator_def iterator_current_type_char_def
        iterator_is_valid_def Let_def t)
next
  assume t: "t = TStruct ts"
  with assms(1,2) have "signature_validate (sigs_str ts) = Inr ()"
    by (intro single_sigs_valid) auto
  moreover have "substr (us @ sig_str t @ vs) (length us + 1) (length (sig_str t) - 2) = sigs_str ts"
    using substr_append_middle [of "us @ ''(''" "sigs_str ts" "'')'' @ vs"] by (simp add: t)
  moreover have "(us @ sig_str t @ vs) ! length us = CHR ''(''" by (simp add: t)
  ultimately show ?thesis
    using type_length_sig [OF assms(1), of us vs]
    by (simp add: get_content_iterator_def new_signature_iterator_def iterator_current_type_char_def
        iterator_is_valid_def Let_def t)
qed

theorem content_iterator_views_witness:
  "get_content_iterator \<lparr>it_sig = ''i'' @ sig_str (TStruct [TVariant]) @ ''u'', it_pos = length ''i''\<rparr> =
     Inr \<lparr>it_sig = (if TStruct [TVariant] = TArray TVariant then sig_str TVariant else sigs_str [TVariant]),
          it_pos = 0\<rparr>"
  by (rule content_iterator_views) simp_all

lemma valid_from_progress:
  "signature_valid_from sig pos \<Longrightarrow> pos < length sig \<Longrightarrow> 0 < get_complete_type_length sig pos"
  by (subst (asm) signature_valid_from.simps) (auto simp: Let_def split: if_splits)

lemma valid_from_next:
  "signature_valid_from sig pos \<Longrightarrow> pos < length sig \<Longrightarrow>
     signature_valid_from sig (pos + get_complete_type_length sig pos)"
  by (subst (asm) signature_valid_from.simps) (auto simp: Let_def split: if_splits)

text \<open>Positions the iterator of a valid signature reaches: the starts of its types.\<close>

definition iterator_wf :: "signature_iterator \<Rightarrow> bool" where
  "iterator_wf it \<longleftrightarrow> it_pos it \<le> length (it_sig it) \<and> signature_valid_from (it_sig it) (it_pos it)"

fun iterator_advance :: "nat \<Rightarrow> signature_iterator \<Rightarrow> signature_iterator" where
  "iterator_advance 0 it = it"
| "iterator_advance (Suc n) it = iterator_advance n (iterator_next it)"

lemma iterator_next_wf:
  assumes "iterator_wf it"
  shows "iterator_wf (iterator_next it)"
  using assms type_length_bound [of "it_pos it" "it_sig it"] valid_from_next [of "it_sig it" "it_pos it"]
  by (auto simp: iterator_wf_def iterator_next_def iterator_is_valid_def)

lemma iterator_advance_wf: "iterator_wf it \<Longrightarrow> iterator_wf (iterator_advance n it)"
  by (induction n arbitrary: it) (auto intro: iterator_next_wf)

lemma iterator_advance_snoc: "iterator_next (iterator_advance n it) = iterator_advance (Suc n) it"
  by (induction n arbitrary: it) auto

text \<open>
  An iterator built over an accepted signature never leaves it: after any number of steps
  the position is in range, and as long as it is not at the end the current type can be read,
  is not empty and ends within the signature, and the next step moves strictly forward.
\<close>

theorem iterator_stays_in_signature:
  assumes "new_signature_iterator sig 0 = Inr it" and "it' = iterator_advance n it"
  shows "it_pos it' \<le> length sig \<and>
         (\<not> iterator_at_end it' \<longrightarrow>
            (\<exists>w. iterator_current_type it' = Inr w \<and> w \<noteq> [] \<and>
                 it_pos (iterator_next it') = it_pos it' + length w \<and>
                 it_pos (iterator_next it') \<le> length sig))"
proof -
  have it: "it = \<lparr>it_sig = sig, it_pos = 0\<rparr>" and val: "signature_valid_from sig 0"
    using assms(1) by (auto simp: new_signature_iterator_def signature_validate_def
        signature_is_valid_def bind_result_eq_Inr split: if_splits)
  then have "iterator_wf it" by (simp add: iterator_wf_def)
  then have wf: "iterator_wf it'" using assms(2) by (simp add: iterator_advance_wf)
  have "it_sig (iterator_advance m i) = it_sig i" for m i
    by (induction m arbitrary: i) (simp_all add: iterator_next_def)
  with assms(2) it have sig: "it_sig it' = sig" by simp
  show ?thesis
  proof (intro conjI impI)
    show "it_pos it' \<le> length sig" using wf sig by (simp add: iterator_wf_def)
    assume ne: "\<not> iterator_at_end it'"
    then have pos: "it_pos it' < length sig" by (simp add: iterator_at_end_def iterator_is_valid_def sig)
    from wf sig pos have "0 < get_complete_type_length sig (it_pos it')"
      by (intro valid_from_progress) (simp_all add: iterator_wf_def)
    moreover have "it_pos it' + get_complete_type_length sig (it_pos it') \<le> length sig"
      using type_length_bound pos by simp
    ultimately show "\<exists>w. iterator_current_type it' = Inr w \<and> w \<noteq> [] \<and>
        it_pos (iterator_next it') = it_pos it' + length w \<and> it_pos (iterator_next it') \<le> length sig"
      using pos sig by (simp add: iterator_current_type_def iterator_next_def iterator_is_valid_def
          Let_def substr_def)
  qed
qed

theorem iterator_stays_in_signature_witness:
  "\<exists>w. iterator_current_type (iterator_advance 1 \<lparr>it_sig = ''vv'', it_pos = 0\<rparr>) = Inr w \<and> w \<noteq> [] \<and>
       it_pos (iterator_next (iterator_advance 1 \<lparr>it_sig = ''vv'', it_pos = 0\<rparr>)) \<le> length ''vv''"
proof -
  have "signature_is_valid (sigs_str [TVariant, TVariant])"
    using single_sigs_valid [of "[TVariant, TVariant]"] by (simp add: signature_validate_def split: if_splits)
  then have new: "new_signature_iterator ''vv'' 0 = Inr \<lparr>it_sig = ''vv'', it_pos = 0\<rparr>"
    by (simp add: new_signature_iterator_def signature_validate_def)
  have "get_complete_type_length ''vv'' 0 = 1"
    using type_length_basic [of "CHR ''v''" "[]" "''v''"] by simp
  then have "\<not> iterator_at_end (iterator_advance 1 \<lparr>it_sig = ''vv'', it_pos = 0\<rparr>)"
    by (simp add: iterator_next_def iterator_at_end_def iterator_is_valid_def)
  with iterator_stays_in_signature [OF new refl, of 1] show ?thesis by auto
qed

text \<open>
  The validation is weaker than the grammar inside structs, whose members it does not look
  at: \<open>(})\<close> is accepted, though no sequence of well-formed types is printed so.
\<close>

theorem signature_accepts_malformed_struct:
  "signature_is_valid ''(})'' \<and> \<not> (\<exists>ts. list_all wf_sig ts \<and> sigs_str ts = ''(})'')"
proof
  have "struct_scan ''(})'' 1 1 = (3, 0)"
    by (simp add: struct_scan.simps)
  then have len: "get_complete_type_length ''(})'' 0 = 3"
    using type_length_struct [of "[]" "''})''"] by simp
  show "signature_is_valid ''(})''"
    by (simp add: signature_is_valid_def max_signature_length_def signature_valid_from.simps len Let_def
        is_complete_type_def is_container_type_def)
  show "\<not> (\<exists>ts. list_all wf_sig ts \<and> sigs_str ts = ''(})'')"
  proof
    assume "\<exists>ts. list_all wf_sig ts \<and> sigs_str ts = ''(})''"
    then obtain ts where wf: "\<forall>t \<in> set ts. wf_sig t" and str: "sigs_str ts = ''(})''"
      by (auto simp: list_all_iff)
    have nob: "\<not> is_basic_type (CHR ''('')" "\<not> is_basic_type (CHR ''}'')" by (simp_all add: is_basic_type_def)
    from str obtain t rest where ts: "ts = t # rest" by (cases ts) auto
    with wf str nob obtain us where t: "t = TStruct us" by (cases t) (auto simp: Cons_eq_append_conv)
    with wf ts obtain u us' where us: "us = u # us'" by (cases us) auto
    with t ts str wf nob show False by (cases u) (auto simp: Cons_eq_append_conv)
  qed
qed

end
