(* ===== verification/ObjectPath.thy ===== *)
theory ObjectPath
  imports Prelude "HOL-Library.Char_ord" "HOL-Library.List_Lexorder"
begin

text \<open>
  Object paths: \<^verbatim>\<open>libraries/mcengine/src/path.cpp\<close> and \<^verbatim>\<open>path.h\<close>. The class is a datatype
  over its only member, the validating constructors and assignment return a result, and
  \<^verbatim>\<open>operator<\<close> (lexicographic on unsigned bytes) is the order of the type class \<open>linorder\<close>.
  The last section gives the list of segments of a path, the abstract value all the path
  components are related to.
\<close>

datatype path = Path (m_path: string)

definition is_valid_element :: "string \<Rightarrow> bool" where
  "is_valid_element element \<longleftrightarrow>
     (if element = [] then False else list_all (\<lambda>c. isalnum c \<or> c = CHR ''_'') element)"

text \<open>
  \<^verbatim>\<open>p.find('/', start)\<close>, with the length of the string in the place of \<^verbatim>\<open>npos\<close> as the next
  line of the code has it, is the forward scan for a separator.
\<close>

function elements_valid_from :: "string \<Rightarrow> nat \<Rightarrow> bool" where
  "elements_valid_from p start =
     (if start < length p then
        let end_pos = scan_while (\<lambda>c. c \<noteq> CHR ''/'') p start
        in if end_pos = start \<or> \<not> is_valid_element (substr p start (end_pos - start)) then False
           else elements_valid_from p (end_pos + 1)
      else True)"
  by pat_completeness auto
termination
proof (relation "measure (\<lambda>(p, start). length p - start)", goal_cases)
  case (2 p start end_pos)
  then show ?case using scan_while_ge [of start "\<lambda>c. c \<noteq> CHR ''/''" p] by simp
qed simp

declare elements_valid_from.simps [simp del]

definition path_is_valid :: "string \<Rightarrow> bool" where
  "path_is_valid p \<longleftrightarrow>
     (if p = [] \<or> hd p \<noteq> CHR ''/'' then False
      else if p = ''/'' then True
      else if last p = CHR ''/'' then False
      else elements_valid_from p 1)"

definition root_path :: path where
  "root_path = Path ''/''"

definition new_path :: "string \<Rightarrow> path result" where
  "new_path p = (if \<not> path_is_valid p then Inl invalid_arg_exception else Inr (Path p))"

text \<open>The assignment returns the new value of \<^verbatim>\<open>*this\<close>; a rejected string leaves it alone.\<close>

definition path_assign :: "string \<Rightarrow> path \<Rightarrow> unit result \<times> path" where
  "path_assign p this =
     (if \<not> path_is_valid p then (Inl invalid_arg_exception, this) else (Inr (), Path p))"

definition path_join :: "path \<Rightarrow> string \<Rightarrow> path result" where
  "path_join this element =
     (if \<not> is_valid_element element then Inl invalid_arg_exception
      else
        let new_path_str = (if m_path this = ''/'' then m_path this @ element
                            else m_path this @ ''/'' @ element)
        in new_path new_path_str)"

text \<open>
  \<^verbatim>\<open>find_last_of('/')\<close>: the position of the last separator, \<open>None\<close> for \<^verbatim>\<open>npos\<close>. A substring
  that starts at \<^verbatim>\<open>npos + 1 = 0\<close> is the whole string, and one of \<^verbatim>\<open>npos\<close> characters too.
\<close>

fun find_last_of :: "char \<Rightarrow> string \<Rightarrow> nat option" where
  "find_last_of c [] = None"
| "find_last_of c (x # xs) =
     (case find_last_of c xs of
        Some n \<Rightarrow> Some (Suc n)
      | None \<Rightarrow> if x = c then Some 0 else None)"

definition path_parent :: "path \<Rightarrow> path result" where
  "path_parent this =
     (if m_path this = ''/'' then Inr this
      else
        case find_last_of (CHR ''/'') (m_path this) of
          Some 0 \<Rightarrow> new_path ''/''
        | Some pos \<Rightarrow> new_path (substr (m_path this) 0 pos)
        | None \<Rightarrow> new_path (m_path this))"

definition path_basename :: "path \<Rightarrow> string" where
  "path_basename this =
     (if m_path this = ''/'' then []
      else
        case find_last_of (CHR ''/'') (m_path this) of
          Some pos \<Rightarrow> drop (pos + 1) (m_path this)
        | None \<Rightarrow> m_path this)"

definition path_less :: "path \<Rightarrow> path \<Rightarrow> bool" where
  "path_less p q \<longleftrightarrow> m_path p < m_path q"

instantiation path :: linorder
begin

definition less_path :: "path \<Rightarrow> path \<Rightarrow> bool" where
  "less_path p q \<longleftrightarrow> path_less p q"

definition less_eq_path :: "path \<Rightarrow> path \<Rightarrow> bool" where
  "less_eq_path p q \<longleftrightarrow> m_path p \<le> m_path q"

instance
  by standard (auto simp: less_path_def path_less_def less_eq_path_def path.expand)

end

section \<open>Segments\<close>

text \<open>The maximal runs of characters other than the separator, in order.\<close>

function segments_of :: "string \<Rightarrow> string list" where
  "segments_of s =
     (let t = dropWhile (\<lambda>c. c = CHR ''/'') s
      in if t = [] then []
         else takeWhile (\<lambda>c. c \<noteq> CHR ''/'') t # segments_of (dropWhile (\<lambda>c. c \<noteq> CHR ''/'') t))"
  by pat_completeness auto
termination
proof (relation "measure length", goal_cases)
  case (2 s t)
  obtain c cs where t: "t = c # cs" using 2(2) by (meson neq_Nil_conv)
  with 2(1) have "c \<noteq> CHR ''/''" using dropWhile_hd [of "\<lambda>c. c = CHR ''/''" s c cs] by simp
  with t have "length (dropWhile (\<lambda>c. c \<noteq> CHR ''/'') t) \<le> length cs"
    by (simp add: length_dropWhile_le)
  moreover have "length t \<le> length s" using 2 by (simp add: length_dropWhile_le)
  ultimately show ?case using t by simp
qed simp

declare segments_of.simps [simp del]

lemma segments_Nil [simp]: "segments_of [] = []"
  by (simp add: segments_of.simps)

lemma segments_sep [simp]: "segments_of (CHR ''/'' # s) = segments_of s"
  by (subst (1 2) segments_of.simps) simp

lemma segments_seps: "\<forall>c \<in> set us. c = CHR ''/'' \<Longrightarrow> segments_of (us @ s) = segments_of s"
  by (induction us) auto

lemma segments_dropWhile: "segments_of (dropWhile (\<lambda>c. c = CHR ''/'') s) = segments_of s"
  by (induction s) auto

lemma segments_element:
  assumes "e \<noteq> []" and "\<forall>c \<in> set e. c \<noteq> CHR ''/''"
  shows "segments_of (e @ CHR ''/'' # s) = e # segments_of s" "segments_of e = [e]"
proof -
  have drop: "dropWhile (\<lambda>c. c = CHR ''/'') (e @ t) = e @ t" for t
    using assms by (cases e) auto
  have "takeWhile (\<lambda>c. c \<noteq> CHR ''/'') (e @ CHR ''/'' # s) = e"
    "dropWhile (\<lambda>c. c \<noteq> CHR ''/'') (e @ CHR ''/'' # s) = CHR ''/'' # s"
    using assms by (simp_all add: takeWhile_append2 dropWhile_append2)
  then show "segments_of (e @ CHR ''/'' # s) = e # segments_of s"
    using drop [of "CHR ''/'' # s"] assms(1) by (subst segments_of.simps) (simp add: Let_def)
  have *: "takeWhile (\<lambda>c. c \<noteq> CHR ''/'') e = e" "dropWhile (\<lambda>c. c \<noteq> CHR ''/'') e = []"
    using assms by (simp_all add: takeWhile_eq_all_conv)
  have "dropWhile (\<lambda>c. c = CHR ''/'') e = e" using drop [of "[]"] by simp
  with * assms(1) show "segments_of e = [e]"
    by (subst segments_of.simps) (simp only: Let_def if_False segments_Nil)
qed

lemma segments_append_sep: "segments_of (xs @ CHR ''/'' # ys) = segments_of xs @ segments_of ys"
proof (induction xs rule: segments_of.induct)
  case (1 xs)
  let ?t = "dropWhile (\<lambda>c. c = CHR ''/'') xs"
  have pre: "segments_of (xs @ zs) = segments_of (?t @ zs)" for zs
    using segments_seps [of "takeWhile (\<lambda>c. c = CHR ''/'') xs" "?t @ zs"]
    by (metis append_assoc set_takeWhileD takeWhile_dropWhile_id)
  show ?case
  proof (cases "?t = []")
    case True
    then have "segments_of xs = []" by (subst segments_of.simps) simp
    with pre [of "CHR ''/'' # ys", unfolded True] show ?thesis by simp
  next
    case False
    let ?e = "takeWhile (\<lambda>c. c \<noteq> CHR ''/'') ?t" and ?r = "dropWhile (\<lambda>c. c \<noteq> CHR ''/'') ?t"
    obtain d ds where d: "?t = d # ds" using False by (meson neq_Nil_conv)
    from dropWhile_hd [OF d] have e: "?e \<noteq> []" by (simp add: d)
    have e': "\<forall>c \<in> set ?e. c \<noteq> CHR ''/''" by (auto dest: set_takeWhileD)
    note e = e e'
    have IH: "segments_of (?r @ CHR ''/'' # ys) = segments_of ?r @ segments_of ys"
      using "1.IH" [OF refl False] .
    have xs: "segments_of xs = ?e # segments_of ?r"
      using False by (subst segments_of.simps) (simp add: Let_def)
    have "segments_of (?t @ CHR ''/'' # ys) = segments_of (?e @ ?r @ CHR ''/'' # ys)"
      by (metis append_assoc takeWhile_dropWhile_id)
    also have "\<dots> = ?e # segments_of (?r @ CHR ''/'' # ys)"
    proof (cases ?r)
      case Nil
      show ?thesis
        by (simp only: Nil append_Nil segments_sep segments_element(1) [OF e])
    next
      case (Cons c cs)
      from dropWhile_hd [OF Cons] have c: "c = CHR ''/''" by simp
      show ?thesis
        by (simp only: Cons c append_Cons segments_sep segments_element(1) [OF e])
    qed
    finally show ?thesis using pre [of "CHR ''/'' # ys"] IH xs by simp
  qed
qed

section \<open>Paths as lists of elements\<close>

abbreviation slashed :: "string list \<Rightarrow> string" where
  "slashed es \<equiv> concat (map (Cons (CHR ''/'')) es)"

definition path_of :: "string list \<Rightarrow> string" where
  "path_of es = (if es = [] then ''/'' else slashed es)"

lemma element_facts:
  assumes "is_valid_element e"
  shows "e \<noteq> []" "\<forall>c \<in> set e. c \<noteq> CHR ''/''"
proof -
  have "\<not> isalnum (CHR ''/'')" by (simp add: isalnum_def isalpha_def isdigit_def)
  with assms show "e \<noteq> []" "\<forall>c \<in> set e. c \<noteq> CHR ''/''"
    by (auto simp: is_valid_element_def list_all_iff split: if_splits)
qed

lemma slashed_eq_Nil [simp]: "slashed es = [] \<longleftrightarrow> es = []"
  by (cases es) auto

lemma slashed_hd: "slashed es = [] \<or> (\<exists>t. slashed es = CHR ''/'' # t)"
  by (cases es) auto

lemma elements_valid_slashed:
  "es \<noteq> [] \<Longrightarrow> \<forall>e \<in> set es. is_valid_element e \<Longrightarrow>
     elements_valid_from (us @ slashed es) (Suc (length us))"
proof (induction es arbitrary: us)
  case (Cons e es)
  have e: "is_valid_element e" using Cons.prems by simp
  note ef = element_facts [OF e]
  let ?p = "us @ slashed (e # es)"
  have drop: "drop (Suc (length us)) ?p = e @ slashed es" by simp
  have "takeWhile (\<lambda>c. c \<noteq> CHR ''/'') (slashed es) = []"
    using slashed_hd [of es] by (elim disjE exE) (simp_all only: takeWhile.simps if_False not_True_eq_False simp_thms)
  then have "takeWhile (\<lambda>c. c \<noteq> CHR ''/'') (e @ slashed es) = e"
    using takeWhile_append2 [of e "\<lambda>c. c \<noteq> CHR ''/''" "slashed es"] ef(2) by simp
  then have scan: "scan_while (\<lambda>c. c \<noteq> CHR ''/'') ?p (Suc (length us)) = Suc (length us) + length e"
    unfolding scan_while_def drop by simp
  have sub: "substr ?p (Suc (length us)) (length e) = e"
    using substr_append_middle [of "us @ ''/''" e "slashed es"] by simp
  have rest: "elements_valid_from ?p (Suc (Suc (length us) + length e))"
  proof (cases "es = []")
    case True
    then show ?thesis by (subst elements_valid_from.simps) simp
  next
    case False
    with Cons.IH [of "us @ CHR ''/'' # e"] Cons.prems show ?thesis by simp
  qed
  show ?case
    by (subst elements_valid_from.simps, unfold scan) (use rest e ef sub in \<open>simp add: Let_def\<close>)
qed simp

lemma elements_valid_dest:
  "elements_valid_from p start \<Longrightarrow> start < length p \<Longrightarrow> last p \<noteq> CHR ''/'' \<Longrightarrow>
     \<exists>es. es \<noteq> [] \<and> (\<forall>e \<in> set es. is_valid_element e) \<and> CHR ''/'' # drop start p = slashed es"
proof (induction p start rule: elements_valid_from.induct)
  case (1 p start)
  define stop where "stop = scan_while (\<lambda>c. c \<noteq> CHR ''/'') p start"
  define e where "e = substr p start (stop - start)"
  have unf: "elements_valid_from p start = (\<not> (stop = start \<or> \<not> is_valid_element e) \<and>
      elements_valid_from p (stop + 1))"
    using "1.prems"(2) by (subst elements_valid_from.simps) (simp add: stop_def e_def Let_def)
  then have val: "is_valid_element e" and rest: "elements_valid_from p (stop + 1)" and ne: "stop \<noteq> start"
    using "1.prems"(1) by auto
  have stop: "start \<le> stop" "stop \<le> length p"
    using scan_while_ge [of start] scan_while_le [of start p] "1.prems"(2) by (simp_all add: stop_def)
  have split: "drop start p = e @ drop stop p"
    unfolding e_def substr_def using stop by (metis append_take_drop_id drop_drop le_add_diff_inverse2)
  show ?case
  proof (cases "stop = length p")
    case True
    with split val show ?thesis by (intro exI [of _ "[e]"]) simp
  next
    case False
    with stop have lt: "stop < length p" by simp
    then have cons: "drop stop p = p ! stop # drop (Suc stop) p" by (simp add: Cons_nth_drop_Suc)
    have "dropWhile (\<lambda>c. c \<noteq> CHR ''/'') (drop start p) = p ! stop # drop (Suc stop) p"
      using drop_scan_while [of "\<lambda>c. c \<noteq> CHR ''/''" p start] cons by (simp add: stop_def)
    from dropWhile_hd [OF this] have sep: "p ! stop = CHR ''/''" by simp
    have "stop + 1 \<noteq> length p"
    proof
      assume "stop + 1 = length p"
      then have "p \<noteq> []" and "length p - 1 = stop" by auto
      with sep "1.prems"(3) last_conv_nth [of p] show False by simp
    qed
    with lt have "stop + 1 < length p" by simp
    from "1.IH" [OF "1.prems"(2) stop_def _ rest this "1.prems"(3)] ne val
    obtain es where "es \<noteq> []" "\<forall>e \<in> set es. is_valid_element e" "CHR ''/'' # drop (stop + 1) p = slashed es"
      by (auto simp: e_def)
    with split cons sep val show ?thesis by (intro exI [of _ "e # es"]) simp
  qed
qed

lemma slashed_last:
  assumes "es \<noteq> []" and "\<forall>e \<in> set es. is_valid_element e"
  shows "last (slashed es) \<noteq> CHR ''/''"
proof -
  obtain es' e where es: "es = es' @ [e]" using assms(1) by (cases es rule: rev_cases) auto
  have "e \<noteq> []" "last e \<in> set e" "\<forall>c \<in> set e. c \<noteq> CHR ''/''"
    using element_facts [of e] assms(2) es by auto
  then show ?thesis by (simp add: es)
qed

lemma valid_iff_elements:
  "path_is_valid p \<longleftrightarrow> (\<exists>es. (\<forall>e \<in> set es. is_valid_element e) \<and> p = path_of es)"
proof
  assume valid: "path_is_valid p"
  show "\<exists>es. (\<forall>e \<in> set es. is_valid_element e) \<and> p = path_of es"
  proof (cases "p = ''/''")
    case True
    then show ?thesis by (intro exI [of _ "[]"]) (simp add: path_of_def)
  next
    case False
    with valid have p: "p \<noteq> []" "hd p = CHR ''/''" "last p \<noteq> CHR ''/''" "elements_valid_from p 1"
      by (auto simp: path_is_valid_def split: if_splits)
    then obtain q where q: "p = CHR ''/'' # q" by (cases p) auto
    with False have "1 < length p" by (cases q) auto
    from elements_valid_dest [OF p(4) this p(3)] q show ?thesis
      by (auto simp: path_of_def)
  qed
next
  assume "\<exists>es. (\<forall>e \<in> set es. is_valid_element e) \<and> p = path_of es"
  then obtain es where es: "\<forall>e \<in> set es. is_valid_element e" "p = path_of es" by blast
  show "path_is_valid p"
  proof (cases "es = []")
    case True
    with es show ?thesis by (simp add: path_is_valid_def path_of_def)
  next
    case False
    from elements_valid_slashed [OF False es(1), of "[]"] slashed_last [OF False es(1)] slashed_hd [of es] False
    show ?thesis by (auto simp: path_is_valid_def path_of_def es(2))
  qed
qed

lemma segments_path_of: "\<forall>e \<in> set es. is_valid_element e \<Longrightarrow> segments_of (path_of es) = es"
proof -
  have "\<forall>e \<in> set es. is_valid_element e \<Longrightarrow> segments_of (slashed es) = es"
  proof (induction es)
    case (Cons e es)
    then have ef: "e \<noteq> []" "\<forall>c \<in> set e. c \<noteq> CHR ''/''" using element_facts by auto
    from slashed_hd [of es] show ?case
    proof
      assume "slashed es = []"
      with segments_element(2) [OF ef] Cons show ?thesis by simp
    next
      assume "\<exists>t. slashed es = CHR ''/'' # t"
      then obtain t where t: "slashed es = CHR ''/'' # t" by blast
      with Cons have "segments_of t = es" by simp
      with segments_element(1) [OF ef, of t] t show ?thesis by simp
    qed
  qed simp
  then show "\<forall>e \<in> set es. is_valid_element e \<Longrightarrow> segments_of (path_of es) = es"
    by (cases "es = []") (simp_all add: path_of_def)
qed

section \<open>Validity, joining and splitting\<close>

lemma path_of_cases:
  assumes "Q []"
  shows "(\<exists>es. Q es \<and> p = path_of es) \<longleftrightarrow> p = ''/'' \<or> (\<exists>es. es \<noteq> [] \<and> p = slashed es \<and> Q es)"
    (is "?l \<longleftrightarrow> ?r")
proof
  assume ?l
  then obtain es where "Q es" "p = path_of es" by blast
  then show ?r by (cases "es = []") (auto simp: path_of_def)
next
  assume ?r
  then show ?l
  proof
    assume "p = ''/''"
    with assms show ?l by (intro exI [of _ "[]"]) (simp add: path_of_def)
  next
    assume "\<exists>es. es \<noteq> [] \<and> p = slashed es \<and> Q es"
    then obtain es where "es \<noteq> []" "p = slashed es" "Q es" by blast
    then show ?l by (intro exI [of _ es]) (simp add: path_of_def)
  qed
qed

text \<open>
  C37. A string is accepted as an object path exactly when it is the root or a sequence of
  slash-prefixed elements, each a non-empty string of letters, digits and underscores.
\<close>

theorem path_valid_grammar:
  "path_is_valid p \<longleftrightarrow>
     p = ''/'' \<or>
     (\<exists>es. es \<noteq> [] \<and> p = concat (map (\<lambda>e. CHR ''/'' # e) es) \<and>
           list_all (\<lambda>e. e \<noteq> [] \<and> list_all (\<lambda>c. isalnum c \<or> c = CHR ''_'') e) es)"
proof -
  have "is_valid_element = (\<lambda>e. e \<noteq> [] \<and> list_all (\<lambda>c. isalnum c \<or> c = CHR ''_'') e)"
    by (simp add: fun_eq_iff is_valid_element_def)
  then have "path_is_valid p \<longleftrightarrow> (\<exists>es. list_all (\<lambda>e. e \<noteq> [] \<and> list_all (\<lambda>c. isalnum c \<or> c = CHR ''_'') e) es \<and>
      p = path_of es)"
    by (simp add: valid_iff_elements list_all_iff)
  then show ?thesis
    by (subst (asm) path_of_cases) simp_all
qed

lemma find_last_of_None: "c \<notin> set s \<Longrightarrow> find_last_of c s = None"
  by (induction s) auto

lemma find_last_of_append: "c \<notin> set vs \<Longrightarrow> find_last_of c (us @ c # vs) = Some (length us)"
  by (induction us) (simp_all add: find_last_of_None)

lemma path_of_snoc: "path_of (es @ [e]) = (if es = [] then [] else path_of es) @ CHR ''/'' # e"
  by (simp add: path_of_def)

lemma path_of_root: "\<forall>e \<in> set es. is_valid_element e \<Longrightarrow> path_of es = ''/'' \<longleftrightarrow> es = []"
  using segments_path_of [of es] segments_path_of [of "[]"] by (auto simp: path_of_def)

lemma path_of_valid: "\<forall>e \<in> set es. is_valid_element e \<Longrightarrow> path_is_valid (path_of es)"
  unfolding valid_iff_elements by blast

lemma path_join_elements:
  assumes "\<forall>e \<in> set es. is_valid_element e" and "is_valid_element e"
  shows "path_join (Path (path_of es)) e = Inr (Path (path_of (es @ [e])))"
  using path_of_valid [of "es @ [e]"] path_of_root [OF assms(1)] assms
  by (simp add: path_join_def new_path_def path_of_snoc) (auto simp: path_of_def)

lemma find_last_path_of:
  "is_valid_element e \<Longrightarrow> find_last_of (CHR ''/'') (path_of (es @ [e])) = Some (length (if es = [] then [] else path_of es))"
  unfolding path_of_snoc by (rule find_last_of_append) (use element_facts [of e] in auto)

lemma path_parent_elements:
  assumes "\<forall>e \<in> set es. is_valid_element e" and "is_valid_element e"
  shows "path_parent (Path (path_of (es @ [e]))) = Inr (Path (path_of es))"
proof -
  have nroot: "path_of (es @ [e]) \<noteq> ''/''" using path_of_root [of "es @ [e]"] assms by simp
  show ?thesis
  proof (cases "es = []")
    case True
    with nroot find_last_path_of [OF assms(2), of es] show ?thesis
      by (simp add: path_parent_def new_path_def path_is_valid_def path_of_def)
  next
    case False
    then obtain n where n: "length (path_of es) = Suc n"
      using slashed_eq_Nil [of es] by (cases "path_of es") (auto simp: path_of_def)
    have "substr (path_of (es @ [e])) 0 (length (path_of es)) = path_of es"
      using False by (simp add: path_of_snoc substr_def)
    with nroot find_last_path_of [OF assms(2), of es] False n path_of_valid [OF assms(1)] show ?thesis
      by (simp add: path_parent_def new_path_def)
  qed
qed

lemma path_basename_elements:
  assumes "\<forall>e \<in> set es. is_valid_element e" and "is_valid_element e"
  shows "path_basename (Path (path_of (es @ [e]))) = e"
proof -
  have nroot: "path_of (es @ [e]) \<noteq> ''/''" using path_of_root [of "es @ [e]"] assms by simp
  have "drop (Suc (length (if es = [] then [] else path_of es))) (path_of (es @ [e])) = e"
    by (simp add: path_of_snoc)
  with nroot find_last_path_of [OF assms(2), of es] show ?thesis
    by (simp add: path_basename_def)
qed

text \<open>
  Appending a valid element to a valid path yields a valid path whose parent is the
  original path and whose base name is the element.
\<close>

theorem path_join_parent_basename:
  assumes "path_is_valid (m_path p)" and "is_valid_element e"
  shows "\<exists>q. path_join p e = Inr q \<and> path_is_valid (m_path q) \<and>
             path_parent q = Inr p \<and> path_basename q = e \<and> p < q"
proof -
  obtain es where es: "\<forall>e \<in> set es. is_valid_element e" and p: "p = Path (path_of es)"
    using assms(1) unfolding valid_iff_elements by (cases p) auto
  have "p < Path (path_of (es @ [e]))"
    using element_facts(1) [OF assms(2)]
    by (auto simp: less_path_def path_less_def p path_of_snoc path_of_def list_less_def neq_Nil_conv
        intro: lexord_append_rightI)
  with path_join_elements [OF es assms(2)] path_parent_elements [OF es assms(2)]
    path_basename_elements [OF es assms(2)] path_of_valid [of "es @ [e]"] es assms(2) p
  show ?thesis by auto
qed

theorem path_join_parent_basename_witness:
  "\<exists>q. path_join (Path ''/a'') ''b_1'' = Inr q \<and> path_is_valid (m_path q) \<and>
       path_parent q = Inr (Path ''/a'') \<and> path_basename q = ''b_1'' \<and> Path ''/a'' < q"
proof (rule path_join_parent_basename)
  show "path_is_valid (m_path (Path ''/a''))"
    using path_of_valid [of "[''a'']"]
    by (simp add: path_of_def is_valid_element_def isalnum_def isalpha_def isdigit_def)
qed (simp add: is_valid_element_def isalnum_def isalpha_def isdigit_def)

text \<open>
  Every valid path other than the root is rebuilt from its parent and its base name, both of
  them valid, and the root is its own parent.
\<close>

theorem path_split_join:
  assumes "path_is_valid (m_path p)"
  shows "\<exists>q. path_parent p = Inr q \<and> path_is_valid (m_path q) \<and>
             (if p = root_path then q = p else
                is_valid_element (path_basename p) \<and> path_join q (path_basename p) = Inr p)"
proof -
  obtain es where es: "\<forall>e \<in> set es. is_valid_element e" and p: "p = Path (path_of es)"
    using assms unfolding valid_iff_elements by (cases p) auto
  show ?thesis
  proof (cases es rule: rev_cases)
    case Nil
    then show ?thesis using assms by (simp add: p path_of_def path_parent_def root_path_def)
  next
    case (snoc fs e)
    with es have fs: "\<forall>e \<in> set fs. is_valid_element e" and e: "is_valid_element e" by auto
    have "p \<noteq> root_path" using path_of_root [OF es] snoc by (simp add: p root_path_def)
    with path_join_elements [OF fs e] path_parent_elements [OF fs e] path_basename_elements [OF fs e]
      path_of_valid [OF fs] e snoc p show ?thesis by auto
  qed
qed

theorem path_split_join_witness:
  "\<exists>q. path_parent root_path = Inr q \<and> path_is_valid (m_path q) \<and>
       (if root_path = root_path then q = root_path else
          is_valid_element (path_basename root_path) \<and> path_join q (path_basename root_path) = Inr root_path)"
  by (rule path_split_join) (simp add: root_path_def path_is_valid_def)

end
