(* ===== verification/PathIterator.thy ===== *)
theory PathIterator
  imports ObjectPath
begin

text \<open>
  The two-way iterator over the segments of a path, \<^verbatim>\<open>libraries/mcengine/src/path_iterator.cpp\<close>.
  The record holds the members of the class; the methods that update them return the new
  record. \<^verbatim>\<open>find_next_segment\<close> and \<^verbatim>\<open>find_prev_segment\<close> write through two reference
  parameters: here they return the result and the values left in the two, also when it is
  false. The locale \<open>segment_cursor\<close> states what a client that walks a path relies on.
\<close>

record path_iterator =
  pi_path :: string
  pi_start :: nat
  pi_end :: nat
  pi_is_initialized :: bool

definition new_path_iterator :: "string \<Rightarrow> path_iterator" where
  "new_path_iterator p =
     \<lparr>pi_path = (if p \<noteq> [] \<and> last p = CHR ''/'' then substr p 0 (length p - 1) else p),
      pi_start = 0, pi_end = 0, pi_is_initialized = False\<rparr>"

definition iterator_reset :: "path_iterator \<Rightarrow> path_iterator" where
  "iterator_reset it = it\<lparr>pi_start := 0, pi_end := 0, pi_is_initialized := False\<rparr>"

definition is_empty_or_root_path :: "path_iterator \<Rightarrow> bool" where
  "is_empty_or_root_path it \<longleftrightarrow> pi_path it = [] \<or> pi_path it = ''/''"

definition skip_separators_forward :: "path_iterator \<Rightarrow> nat \<Rightarrow> nat" where
  "skip_separators_forward it pos = scan_while (\<lambda>c. c = CHR ''/'') (pi_path it) pos"

fun scan_backward :: "(char \<Rightarrow> bool) \<Rightarrow> string \<Rightarrow> nat \<Rightarrow> nat" where
  "scan_backward P s 0 = 0"
| "scan_backward P s (Suc pos) = (if P (s ! pos) then scan_backward P s pos else Suc pos)"

definition skip_separators_backward :: "path_iterator \<Rightarrow> nat \<Rightarrow> nat" where
  "skip_separators_backward it pos = scan_backward (\<lambda>c. c = CHR ''/'') (pi_path it) pos"

definition find_segment_end :: "path_iterator \<Rightarrow> nat \<Rightarrow> nat" where
  "find_segment_end it start_pos = scan_while (\<lambda>c. c \<noteq> CHR ''/'') (pi_path it) start_pos"

definition find_prev_segment_start :: "path_iterator \<Rightarrow> nat \<Rightarrow> nat" where
  "find_prev_segment_start it pos = scan_backward (\<lambda>c. c \<noteq> CHR ''/'') (pi_path it) pos"

definition find_next_segment :: "path_iterator \<Rightarrow> nat \<Rightarrow> nat \<Rightarrow> bool \<times> nat \<times> nat" where
  "find_next_segment it start end_pos =
     (if is_empty_or_root_path it then (False, start, end_pos)
      else
        let start = end_pos;
            start = skip_separators_forward it start
        in if start \<ge> length (pi_path it) then (False, start, end_pos)
           else (True, start, find_segment_end it start))"

definition find_prev_segment :: "path_iterator \<Rightarrow> nat \<Rightarrow> nat \<Rightarrow> bool \<times> nat \<times> nat" where
  "find_prev_segment it start end_pos =
     (if is_empty_or_root_path it \<or> pi_start it = 0 then (False, start, end_pos)
      else
        let sep_pos = skip_separators_backward it (pi_start it)
        in if sep_pos = 0 then (False, start, end_pos)
           else (True, find_prev_segment_start it sep_pos, sep_pos))"

definition to_next :: "path_iterator \<Rightarrow> bool \<times> path_iterator" where
  "to_next it =
     (if \<not> pi_is_initialized it then
        let (has_segment, s, e) = find_next_segment it (pi_start it) (pi_end it)
        in (has_segment, it\<lparr>pi_start := s, pi_end := e, pi_is_initialized := True\<rparr>)
      else
        let (found, new_start, new_end) = find_next_segment it (pi_end it) (pi_end it)
        in if \<not> found then (False, it)
           else (True, it\<lparr>pi_start := new_start, pi_end := new_end\<rparr>))"

definition to_prev :: "path_iterator \<Rightarrow> bool \<times> path_iterator" where
  "to_prev it =
     (if \<not> pi_is_initialized it then
        let it = it\<lparr>pi_start := length (pi_path it)\<rparr>;
            (has_segment, s, e) = find_prev_segment it (pi_start it) (pi_end it)
        in (has_segment, it\<lparr>pi_start := s, pi_end := e, pi_is_initialized := True\<rparr>)
      else
        let (found, new_start, new_end) = find_prev_segment it 0 0
        in if \<not> found then (False, it)
           else (True, it\<lparr>pi_start := new_start, pi_end := new_end\<rparr>))"

definition current_segment :: "path_iterator \<Rightarrow> string" where
  "current_segment it =
     (if \<not> pi_is_initialized it \<or> pi_start it \<ge> length (pi_path it) then []
      else substr (pi_path it) (pi_start it) (pi_end it - pi_start it))"

definition parent_path :: "path_iterator \<Rightarrow> string" where
  "parent_path it =
     (if \<not> pi_is_initialized it \<or> pi_start it = 0 then []
      else if pi_start it = 1 then ''/''
      else substr (pi_path it) 0 (pi_start it - 1))"

section \<open>Segments ahead and behind\<close>

definition segments_ahead :: "path_iterator \<Rightarrow> string list" where
  "segments_ahead it = segments_of (drop (pi_end it) (pi_path it))"

definition segments_behind :: "path_iterator \<Rightarrow> string list" where
  "segments_behind it =
     segments_of (if pi_is_initialized it then take (pi_start it) (pi_path it) else pi_path it)"

lemma segments_seps_only: "\<forall>c \<in> set s. c = CHR ''/'' \<Longrightarrow> segments_of s = []"
  using segments_seps [of s "[]"] by simp

lemma segments_first:
  assumes "c \<noteq> CHR ''/''"
  shows "segments_of (c # s) =
    (c # takeWhile (\<lambda>c. c \<noteq> CHR ''/'') s) # segments_of (dropWhile (\<lambda>c. c \<noteq> CHR ''/'') s)"
  using assms by (subst segments_of.simps) simp

lemma segments_root: "segments_of ''/'' = []"
  by simp

lemma find_next_correct:
  "case find_next_segment it s (pi_end it) of (found, s', e') \<Rightarrow>
     (found \<longleftrightarrow> segments_ahead it \<noteq> []) \<and>
     (\<not> found \<longrightarrow> e' = pi_end it) \<and>
     (found \<longrightarrow> s' < length (pi_path it) \<and> s' \<le> e' \<and> e' \<le> length (pi_path it) \<and>
        segments_ahead it = substr (pi_path it) s' (e' - s') # segments_of (drop e' (pi_path it)))"
proof (cases "is_empty_or_root_path it")
  case True
  have "segments_of (drop n ''/'') = []" for n by (cases n) simp_all
  with True show ?thesis
    by (auto simp: find_next_segment_def segments_ahead_def is_empty_or_root_path_def)
next
  case False
  let ?p = "pi_path it"
  define s' where "s' = scan_while (\<lambda>c. c = CHR ''/'') ?p (pi_end it)"
  define e' where "e' = scan_while (\<lambda>c. c \<noteq> CHR ''/'') ?p s'"
  have skip: "drop s' ?p = dropWhile (\<lambda>c. c = CHR ''/'') (drop (pi_end it) ?p)"
    by (simp add: s'_def drop_scan_while)
  then have ahead: "segments_ahead it = segments_of (drop s' ?p)"
    by (simp add: segments_ahead_def segments_dropWhile)
  show ?thesis
  proof (cases "s' < length ?p")
    case True
    then obtain c cs where c: "drop s' ?p = c # cs" by (metis Cons_nth_drop_Suc)
    have nsep: "c \<noteq> CHR ''/''" using dropWhile_hd [of _ _ c cs] skip c by metis
    have e': "s' \<le> e'" "e' \<le> length ?p"
      using scan_while_ge [of s'] scan_while_le [of s' ?p] True by (simp_all add: e'_def)
    have "substr ?p s' (e' - s') = c # takeWhile (\<lambda>c. c \<noteq> CHR ''/'') cs"
      using substr_scan_while [of ?p s'] c nsep by (simp add: e'_def)
    moreover have "drop e' ?p = dropWhile (\<lambda>c. c \<noteq> CHR ''/'') cs"
      using drop_scan_while [of "\<lambda>c. c \<noteq> CHR ''/''" ?p s'] c nsep by (simp add: e'_def)
    ultimately have "segments_ahead it = substr ?p s' (e' - s') # segments_of (drop e' ?p)"
      using segments_first [OF nsep, of cs] ahead c by simp
    with False True e' show ?thesis
      by (simp add: find_next_segment_def skip_separators_forward_def find_segment_end_def Let_def
          flip: s'_def e'_def)
  next
    case 2: False
    with ahead False show ?thesis
      by (simp add: find_next_segment_def skip_separators_forward_def Let_def flip: s'_def)
  qed
qed

lemma scan_backward_le: "scan_backward P s n \<le> n"
  by (induction n) auto

lemma scan_backward_range:
  "n \<le> length s \<Longrightarrow> \<forall>c \<in> set (drop (scan_backward P s n) (take n s)). P c"
proof (induction n)
  case (Suc n)
  have split: "take (Suc n) s = take n s @ [s ! n]" using Suc.prems by (simp add: take_Suc_conv_app_nth)
  show ?case
  proof (cases "P (s ! n)")
    case True
    with Suc scan_backward_le [of P s n] show ?thesis by (simp add: split)
  next
    case False
    with Suc.prems show ?thesis by simp
  qed
qed simp

lemma scan_backward_stop: "0 < scan_backward P s n \<Longrightarrow> \<not> P (s ! (scan_backward P s n - 1))"
  by (induction n) (auto split: if_splits)

lemma segments_trailing:
  assumes "\<forall>c \<in> set vs. c = CHR ''/''"
  shows "segments_of (s @ vs) = segments_of s"
  using assms
proof (induction vs)
  case (Cons v vs)
  then have "segments_of (s @ v # vs) = segments_of s @ segments_of vs" by (simp add: segments_append_sep)
  with Cons.prems show ?case by (simp add: segments_seps_only)
qed simp

lemma find_prev_correct:
  assumes "pi_start it \<le> length (pi_path it)"
  shows "case find_prev_segment it s e of (found, s', e') \<Rightarrow>
     (found \<longleftrightarrow> segments_of (take (pi_start it) (pi_path it)) \<noteq> []) \<and>
     (\<not> found \<longrightarrow> s' = s \<and> e' = e) \<and>
     (found \<longrightarrow> s' < e' \<and> e' \<le> pi_start it \<and>
        segments_of (take (pi_start it) (pi_path it)) =
          segments_of (take s' (pi_path it)) @ [substr (pi_path it) s' (e' - s')])"
proof (cases "is_empty_or_root_path it")
  case True
  have "segments_of (take n ''/'') = []" for n by (cases n) simp_all
  with True show ?thesis
    by (auto simp: find_prev_segment_def is_empty_or_root_path_def)
next
  case False
  let ?p = "pi_path it" and ?n = "pi_start it"
  define e' where "e' = scan_backward (\<lambda>c. c = CHR ''/'') ?p ?n"
  define s' where "s' = scan_backward (\<lambda>c. c \<noteq> CHR ''/'') ?p e'"
  have e': "e' \<le> ?n" by (simp add: e'_def scan_backward_le)
  have "take ?n ?p = take e' ?p @ drop e' (take ?n ?p)"
    using e' by (metis append_take_drop_id min.absorb1 take_take)
  moreover have "\<forall>c \<in> set (drop e' (take ?n ?p)). c = CHR ''/''"
    using scan_backward_range [OF assms] by (simp add: e'_def)
  ultimately have behind: "segments_of (take ?n ?p) = segments_of (take e' ?p)"
    by (metis segments_trailing)
  show ?thesis
  proof (cases "e' = 0")
    case True
    with behind False show ?thesis
      by (simp add: find_prev_segment_def skip_separators_backward_def flip: e'_def)
  next
    case pos: False
    with e' have n0: "?n \<noteq> 0" by simp
    have last: "?p ! (e' - 1) \<noteq> CHR ''/''"
      using scan_backward_stop [of "\<lambda>c. c = CHR ''/''" ?p ?n] pos by (simp add: e'_def)
    have s'_le: "s' \<le> e'" by (simp add: s'_def scan_backward_le)
    have s'_lt: "s' < e'"
    proof (cases e')
      case (Suc k)
      with last scan_backward_le [of "\<lambda>c. c \<noteq> CHR ''/''" ?p k] show ?thesis by (simp add: s'_def)
    qed (use pos in simp)
    have split: "take e' ?p = take s' ?p @ substr ?p s' (e' - s')"
      using s'_le by (metis le_add_diff_inverse substr_def take_add)
    have seg: "\<forall>c \<in> set (substr ?p s' (e' - s')). c \<noteq> CHR ''/''"
    proof -
      have "substr ?p s' (e' - s') = drop s' (take e' ?p)" by (simp add: substr_def drop_take)
      moreover have "e' \<le> length ?p" using e' assms by simp
      from scan_backward_range [OF this, of "\<lambda>c. c \<noteq> CHR ''/''"]
      have "\<forall>c \<in> set (drop s' (take e' ?p)). c \<noteq> CHR ''/''" unfolding s'_def .
      ultimately show ?thesis by (simp only:)
    qed
    have ne: "substr ?p s' (e' - s') \<noteq> []"
      using s'_lt e' assms by (simp add: substr_def)
    have "segments_of (take e' ?p) = segments_of (take s' ?p) @ [substr ?p s' (e' - s')]"
    proof (cases s')
      case 0
      with split segments_element(2) [OF ne seg] show ?thesis by simp
    next
      case (Suc k)
      have "?p ! k = CHR ''/''"
        using scan_backward_stop [of "\<lambda>c. c \<noteq> CHR ''/''" ?p e'] Suc by (simp add: s'_def)
      moreover have "k < length ?p" using Suc s'_lt e' assms by simp
      ultimately have "take s' ?p = take k ?p @ ''/''"
        by (simp add: Suc take_Suc_conv_app_nth)
      note s' = this
      have "segments_of (take e' ?p) = segments_of (take k ?p @ CHR ''/'' # substr ?p s' (e' - s'))"
        by (subst split, subst s') simp
      also have "\<dots> = segments_of (take k ?p) @ [substr ?p s' (e' - s')]"
        by (subst segments_append_sep, subst segments_element(2) [OF ne seg]) (rule refl)
      also have "segments_of (take k ?p) = segments_of (take s' ?p)"
        by (subst s', subst segments_append_sep) simp
      finally show ?thesis .
    qed
    note behind = behind [unfolded this]
    have "find_prev_segment it s e = (True, s', e')"
      using False n0 pos
      by (simp add: find_prev_segment_def skip_separators_backward_def find_prev_segment_start_def
          e'_def s'_def Let_def)
    with behind s'_lt e' show ?thesis by (simp only: prod.case) simp
  qed
qed

section \<open>Cursors\<close>

text \<open>
  What a client of a path iterator relies on: moving succeeds exactly while segments are
  pending, and makes the first of them the current one. The client's loop
  \<^verbatim>\<open>while (it.to_next()) use(it.current());\<close> is \<open>walk\<close>, with fuel.
\<close>

fun walk :: "('s \<Rightarrow> bool \<times> 's) \<Rightarrow> ('s \<Rightarrow> string) \<Rightarrow> nat \<Rightarrow> 's \<Rightarrow> string list option" where
  "walk move cur 0 s = None"
| "walk move cur (Suc fuel) s =
     (let (found, s') = move s
      in if \<not> found then Some []
         else map_option (Cons (cur s')) (walk move cur fuel s'))"

locale segment_cursor =
  fixes move :: "'s \<Rightarrow> bool \<times> 's"
    and cur :: "'s \<Rightarrow> string"
    and pending :: "'s \<Rightarrow> string list"
    and inv :: "'s \<Rightarrow> bool"
  assumes move_found: "inv s \<Longrightarrow> fst (move s) \<longleftrightarrow> pending s \<noteq> []"
    and move_pending: "inv s \<Longrightarrow> fst (move s) \<Longrightarrow> pending s = cur (snd (move s)) # pending (snd (move s))"
    and move_inv: "inv s \<Longrightarrow> inv (snd (move s))"
begin

lemma walk_pending: "inv s \<Longrightarrow> length (pending s) < fuel \<Longrightarrow> walk move cur fuel s = Some (pending s)"
proof (induction fuel arbitrary: s)
  case (Suc fuel)
  obtain found s' where m: "move s = (found, s')" by fastforce
  show ?case
  proof (cases found)
    case True
    with m move_pending [OF Suc.prems(1)] have p: "pending s = cur s' # pending s'" by simp
    with Suc.prems have "length (pending s') < fuel" by simp
    with Suc.IH [of s'] move_inv [OF Suc.prems(1)] m p True show ?thesis by simp
  next
    case False
    with m move_found [OF Suc.prems(1)] show ?thesis by simp
  qed
qed simp

lemma walk_steps: "inv s \<Longrightarrow> walk move cur (Suc (length (pending s))) s = Some (pending s)"
  by (rule walk_pending) simp_all

end

definition path_iterator_inv :: "path_iterator \<Rightarrow> bool" where
  "path_iterator_inv it \<longleftrightarrow> pi_start it \<le> length (pi_path it)"

lemma current_segment_simp:
  "current_segment (it\<lparr>pi_start := s, pi_end := e, pi_is_initialized := True\<rparr>) =
     (if s \<ge> length (pi_path it) then [] else substr (pi_path it) s (e - s))"
  by (simp add: current_segment_def)

lemma to_next_split:
  "to_next it = (case find_next_segment it (if pi_is_initialized it then pi_end it else pi_start it) (pi_end it) of
     (found, s, e) \<Rightarrow>
       (found, if found \<or> \<not> pi_is_initialized it
               then it\<lparr>pi_start := s, pi_end := e, pi_is_initialized := True\<rparr> else it))"
  by (cases it) (auto simp: to_next_def Let_def split: prod.splits)

lemma to_next_facts:
  "fst (to_next it) \<longleftrightarrow> segments_ahead it \<noteq> []"
  "fst (to_next it) \<Longrightarrow>
     segments_ahead it = current_segment (snd (to_next it)) # segments_ahead (snd (to_next it))"
proof -
  obtain f s e where fn: "find_next_segment it (if pi_is_initialized it then pi_end it else pi_start it)
      (pi_end it) = (f, s, e)" by (rule prod_cases3)
  note facts = find_next_correct [of it "if pi_is_initialized it then pi_end it else pi_start it", unfolded fn prod.case]
  show "fst (to_next it) \<longleftrightarrow> segments_ahead it \<noteq> []"
    using facts by (simp add: to_next_split fn)
  assume "fst (to_next it)"
  then have f: f by (simp add: to_next_split fn)
  with facts show "segments_ahead it = current_segment (snd (to_next it)) # segments_ahead (snd (to_next it))"
    by (simp add: to_next_split fn current_segment_simp) (simp add: segments_ahead_def)
qed

interpretation forward: segment_cursor to_next current_segment segments_ahead "\<lambda>_. True"
  by unfold_locales (use to_next_facts in auto)

lemma to_prev_split:
  "to_prev it =
     (let it' = (if pi_is_initialized it then it else it\<lparr>pi_start := length (pi_path it)\<rparr>)
      in case find_prev_segment it' (if pi_is_initialized it then 0 else pi_start it')
             (if pi_is_initialized it then 0 else pi_end it) of
        (found, s, e) \<Rightarrow>
          (found, if found \<or> \<not> pi_is_initialized it
                  then it'\<lparr>pi_start := s, pi_end := e, pi_is_initialized := True\<rparr> else it'))"
  by (cases it) (auto simp: to_prev_def Let_def split: prod.splits)

lemma to_prev_facts:
  assumes "path_iterator_inv it"
  shows "fst (to_prev it) \<longleftrightarrow> segments_behind it \<noteq> []"
    "fst (to_prev it) \<Longrightarrow>
       segments_behind it = segments_behind (snd (to_prev it)) @ [current_segment (snd (to_prev it))]"
    "path_iterator_inv (snd (to_prev it))"
proof -
  define it' where "it' = (if pi_is_initialized it then it else it\<lparr>pi_start := length (pi_path it)\<rparr>)"
  have le: "pi_start it' \<le> length (pi_path it')" "pi_path it' = pi_path it"
    using assms by (simp_all add: it'_def path_iterator_inv_def)
  have behind: "segments_behind it = segments_of (take (pi_start it') (pi_path it'))"
    by (simp add: segments_behind_def it'_def)
  let ?a = "if pi_is_initialized it then 0 else pi_start it'"
  let ?b = "if pi_is_initialized it then 0 else pi_end it"
  obtain f s e where fp: "find_prev_segment it' ?a ?b = (f, s, e)" by (rule prod_cases3)
  note facts = find_prev_correct [OF le(1), of ?a ?b, unfolded fp prod.case, folded behind]
  have eq: "to_prev it = (f, if f \<or> \<not> pi_is_initialized it
      then it'\<lparr>pi_start := s, pi_end := e, pi_is_initialized := True\<rparr> else it')"
    unfolding to_prev_split Let_def it'_def [symmetric] fp by simp
  show "fst (to_prev it) \<longleftrightarrow> segments_behind it \<noteq> []"
    using facts by (simp add: eq)
  show "path_iterator_inv (snd (to_prev it))"
    using facts le by (cases f) (auto simp: eq path_iterator_inv_def)
  assume "fst (to_prev it)"
  then have f: f by (simp add: eq)
  with facts le show "segments_behind it =
      segments_behind (snd (to_prev it)) @ [current_segment (snd (to_prev it))]"
    by (simp add: eq current_segment_simp) (simp add: segments_behind_def)
qed

interpretation backward: segment_cursor to_prev current_segment "\<lambda>it. rev (segments_behind it)" path_iterator_inv
  by unfold_locales (use to_prev_facts in auto)

section \<open>Walking a path\<close>

lemma segments_butlast_sep: "p \<noteq> [] \<Longrightarrow> last p = CHR ''/'' \<Longrightarrow> segments_of (substr p 0 (length p - 1)) = segments_of p"
  using segments_append_sep [of "butlast p" "[]"] append_butlast_last_id [of p]
  by (simp add: substr_def butlast_conv_take)

lemma segments_new:
  "segments_of (pi_path (new_path_iterator p)) = segments_of p"
  using segments_butlast_sep [of p] by (simp add: new_path_iterator_def)

text \<open>
  C38. Walking a path of any shape forwards visits exactly its segments in order, and walking it
  backwards visits them in reverse; both walks end.
\<close>

theorem path_iterator_enumerates:
  "walk to_next current_segment (Suc (length (segments_of p))) (new_path_iterator p) = Some (segments_of p) \<and>
   walk to_prev current_segment (Suc (length (segments_of p))) (new_path_iterator p) = Some (rev (segments_of p))"
proof
  have "segments_ahead (new_path_iterator p) = segments_of p"
    using segments_new [of p] by (simp add: segments_ahead_def new_path_iterator_def)
  with forward.walk_steps [of "new_path_iterator p"]
  show "walk to_next current_segment (Suc (length (segments_of p))) (new_path_iterator p) = Some (segments_of p)"
    by simp
  have "segments_behind (new_path_iterator p) = segments_of p"
    using segments_new [of p] by (simp add: segments_behind_def new_path_iterator_def)
  moreover have "path_iterator_inv (new_path_iterator p)"
    by (simp add: path_iterator_inv_def new_path_iterator_def)
  ultimately show "walk to_prev current_segment (Suc (length (segments_of p))) (new_path_iterator p) = Some (rev (segments_of p))"
    using backward.walk_steps [of "new_path_iterator p"] by simp
qed

section \<open>Turning back\<close>

text \<open>The bounds of a maximal run of characters other than the separator.\<close>

definition segment_bounds :: "string \<Rightarrow> nat \<Rightarrow> nat \<Rightarrow> bool" where
  "segment_bounds p s e \<longleftrightarrow>
     s < e \<and> e \<le> length p \<and> (\<forall>i. s \<le> i \<and> i < e \<longrightarrow> p ! i \<noteq> CHR ''/'') \<and>
     (s = 0 \<or> p ! (s - 1) = CHR ''/'') \<and> (e = length p \<or> p ! e = CHR ''/'')"

definition at_segment :: "path_iterator \<Rightarrow> bool" where
  "at_segment it \<longleftrightarrow> pi_is_initialized it \<and> segment_bounds (pi_path it) (pi_start it) (pi_end it)"

lemma segments_at:
  assumes "segment_bounds p s e"
  shows "segments_of p = segments_of (take s p) @ substr p s (e - s) # segments_of (drop e p)"
proof -
  let ?x = "substr p s (e - s)"
  from assms have se: "s < e" "e \<le> length p" by (simp_all add: segment_bounds_def)
  have ne: "?x \<noteq> []" using se by (simp add: substr_def)
  have seg: "\<forall>c \<in> set ?x. c \<noteq> CHR ''/''"
    using assms by (auto simp: segment_bounds_def substr_def in_set_conv_nth)
  have rest: "drop s p = ?x @ drop e p"
    using se by (metis append_take_drop_id drop_drop le_add_diff_inverse2 less_imp_le substr_def)
  have "segments_of (drop s p) = ?x # segments_of (drop e p)"
  proof (cases "e = length p")
    case True
    then show ?thesis using rest segments_element(2) [OF ne seg] by simp
  next
    case False
    then have "drop e p = CHR ''/'' # drop (Suc e) p"
      using assms by (metis Cons_nth_drop_Suc le_neq_implies_less segment_bounds_def)
    with rest segments_element(1) [OF ne seg, of "drop (Suc e) p"] show ?thesis by simp
  qed
  moreover have "segments_of p = segments_of (take s p) @ segments_of (drop s p)"
  proof (cases s)
    case 0
    then show ?thesis by simp
  next
    case (Suc k)
    then have "take s p = take k p @ ''/''"
      using assms se by (simp add: segment_bounds_def take_Suc_conv_app_nth)
    with segments_append_sep [of "take k p" "drop s p"] segments_append_sep [of "take k p" "[]"]
    show ?thesis by (metis append_assoc append_Cons append_Nil append_Nil2 append_take_drop_id segments_Nil)
  qed
  ultimately show ?thesis by simp
qed

lemma at_segment_split:
  "at_segment it \<Longrightarrow> segments_of (pi_path it) = segments_behind it @ current_segment it # segments_ahead it"
  using segments_at [of "pi_path it" "pi_start it" "pi_end it"]
  by (simp add: at_segment_def segments_behind_def current_segment_def segments_ahead_def segment_bounds_def)

lemma find_next_bounds:
  assumes "find_next_segment it s (pi_end it) = (True, s', e')"
    and "pi_end it = 0 \<or> pi_end it = length (pi_path it) \<or> pi_path it ! pi_end it = CHR ''/''"
  shows "segment_bounds (pi_path it) s' e'"
proof -
  let ?p = "pi_path it"
  have s': "s' = scan_while (\<lambda>c. c = CHR ''/'') ?p (pi_end it)" and lt: "s' < length ?p"
    and e': "e' = scan_while (\<lambda>c. c \<noteq> CHR ''/'') ?p s'"
    using assms(1) by (auto simp: find_next_segment_def skip_separators_forward_def find_segment_end_def
        Let_def split: if_splits)
  have nsep: "?p ! s' \<noteq> CHR ''/''"
    using scan_while_stop [of "\<lambda>c. c = CHR ''/''" ?p "pi_end it"] lt s' by simp
  have "s' < e'"
    using scan_while_unfold [of "\<lambda>c. c \<noteq> CHR ''/''" ?p s'] scan_while_ge [of "Suc s'" _ ?p] lt nsep e'
    by (metis Suc_le_lessD)
  moreover have "e' \<le> length ?p" using scan_while_le [of s' ?p] lt e' by simp
  moreover have "\<forall>i. s' \<le> i \<and> i < e' \<longrightarrow> ?p ! i \<noteq> CHR ''/''"
    using scan_while_range [of s' _ "\<lambda>c. c \<noteq> CHR ''/''" ?p] e' by blast
  moreover have "e' = length ?p \<or> ?p ! e' = CHR ''/''"
    using scan_while_stop [of "\<lambda>c. c \<noteq> CHR ''/''" ?p s'] e' \<open>e' \<le> length ?p\<close>
    by (cases "e' = length ?p") simp_all
  moreover have "s' = 0 \<or> ?p ! (s' - 1) = CHR ''/''"
  proof (cases "s' = pi_end it")
    case True
    with assms(2) nsep lt show ?thesis by auto
  next
    case False
    with scan_while_ge [of "pi_end it" "\<lambda>c. c = CHR ''/''" ?p] s' have "pi_end it < s'" by simp
    with scan_while_range [of "pi_end it" "s' - 1" "\<lambda>c. c = CHR ''/''" ?p] s' show ?thesis by auto
  qed
  ultimately show ?thesis by (simp add: segment_bounds_def)
qed

lemma scan_backward_all:
  "scan_backward P s n \<le> i \<Longrightarrow> i < n \<Longrightarrow> P (s ! i)"
  by (induction n) (auto simp: less_Suc_eq split: if_splits)

lemma find_prev_bounds:
  assumes "find_prev_segment it s e = (True, s', e')"
    and "pi_start it \<le> length (pi_path it)"
    and "pi_start it = length (pi_path it) \<or> pi_path it ! (pi_start it - 1) = CHR ''/''"
  shows "segment_bounds (pi_path it) s' e'"
proof -
  let ?p = "pi_path it" and ?n = "pi_start it"
  have e': "e' = scan_backward (\<lambda>c. c = CHR ''/'') ?p ?n" and pos: "0 < e'" and n: "0 < ?n"
    and s': "s' = scan_backward (\<lambda>c. c \<noteq> CHR ''/'') ?p e'"
    using assms(1) by (auto simp: find_prev_segment_def skip_separators_backward_def
        find_prev_segment_start_def Let_def split: if_splits)
  have nsep: "?p ! (e' - 1) \<noteq> CHR ''/''"
    using scan_backward_stop [of "\<lambda>c. c = CHR ''/''" ?p ?n] pos e' by simp
  have le: "e' \<le> ?n" by (simp add: e' scan_backward_le)
  have "s' < e'"
  proof (cases e')
    case (Suc k)
    with nsep scan_backward_le [of "\<lambda>c. c \<noteq> CHR ''/''" ?p k] show ?thesis by (simp add: s')
  qed (use pos in simp)
  moreover have "\<forall>i. s' \<le> i \<and> i < e' \<longrightarrow> ?p ! i \<noteq> CHR ''/''"
    using scan_backward_all [of "\<lambda>c. c \<noteq> CHR ''/''" ?p e'] s' by blast
  moreover have "s' = 0 \<or> ?p ! (s' - 1) = CHR ''/''"
    using scan_backward_stop [of "\<lambda>c. c \<noteq> CHR ''/''" ?p e'] s' by auto
  moreover have "e' = length ?p \<or> ?p ! e' = CHR ''/''"
  proof (cases "e' = ?n")
    case True
    with assms(3) nsep show ?thesis by auto
  next
    case False
    with le scan_backward_all [of "\<lambda>c. c = CHR ''/''" ?p ?n e'] e' show ?thesis by simp
  qed
  ultimately show ?thesis using le assms(2) by (simp add: segment_bounds_def)
qed

lemma to_next_at_segment:
  assumes "at_segment it \<or> it = new_path_iterator p" and "fst (to_next it)"
  shows "at_segment (snd (to_next it))" "pi_path (snd (to_next it)) = pi_path it"
proof -
  obtain f s e where fn: "find_next_segment it (if pi_is_initialized it then pi_end it else pi_start it)
      (pi_end it) = (f, s, e)" by (rule prod_cases3)
  with assms(2) have f: f by (simp add: to_next_split)
  have "pi_end it = 0 \<or> pi_end it = length (pi_path it) \<or> pi_path it ! pi_end it = CHR ''/''"
    using assms(1) by (auto simp: at_segment_def segment_bounds_def new_path_iterator_def)
  then have "segment_bounds (pi_path it) s e"
    using fn f by (intro find_next_bounds [of it]) simp_all
  with fn f show "at_segment (snd (to_next it))" "pi_path (snd (to_next it)) = pi_path it"
    by (simp_all add: to_next_split at_segment_def)
qed

lemma to_prev_at_segment:
  assumes "at_segment it \<or> it = new_path_iterator p" and "fst (to_prev it)"
  shows "at_segment (snd (to_prev it))" "pi_path (snd (to_prev it)) = pi_path it"
proof -
  define it' where "it' = (if pi_is_initialized it then it else it\<lparr>pi_start := length (pi_path it)\<rparr>)"
  obtain f s e where fp: "find_prev_segment it' (if pi_is_initialized it then 0 else pi_start it')
      (if pi_is_initialized it then 0 else pi_end it) = (f, s, e)" by (rule prod_cases3)
  have eq: "to_prev it = (f, if f \<or> \<not> pi_is_initialized it
      then it'\<lparr>pi_start := s, pi_end := e, pi_is_initialized := True\<rparr> else it')"
    unfolding to_prev_split Let_def it'_def [symmetric] fp by simp
  with assms(2) have f: f by simp
  have path: "pi_path it' = pi_path it" by (simp add: it'_def)
  have "pi_start it' \<le> length (pi_path it')" and
    "pi_start it' = length (pi_path it') \<or> pi_path it' ! (pi_start it' - 1) = CHR ''/'' \<or> pi_start it' = 0"
    using assms(1) by (auto simp: it'_def at_segment_def segment_bounds_def new_path_iterator_def)
  moreover have "pi_start it' \<noteq> 0"
    using fp f by (cases "pi_start it' = 0") (simp_all add: find_prev_segment_def)
  ultimately have "segment_bounds (pi_path it') s e"
    using fp f by (intro find_prev_bounds [of it']) auto
  with f path show "at_segment (snd (to_prev it))" "pi_path (snd (to_prev it)) = pi_path it"
    by (simp_all add: eq at_segment_def)
qed

lemma at_segment_unique:
  assumes "at_segment i" and "at_segment j" and "pi_path i = pi_path j"
    and "length (segments_behind i) = length (segments_behind j)"
  shows "segments_behind i = segments_behind j \<and> current_segment i = current_segment j \<and>
    segments_ahead i = segments_ahead j"
  using at_segment_split [OF assms(1)] at_segment_split [OF assms(2)] assms(3,4) by simp

lemma to_prev_inv: "at_segment it \<Longrightarrow> path_iterator_inv it"
  by (simp add: at_segment_def segment_bounds_def path_iterator_inv_def)

text \<open>
  Moving forwards and back returns to the same segment: from any segment of a path, a
  successful \<open>to_next\<close> can be undone by \<open>to_prev\<close> and the other way round, with the same
  segments behind, under and ahead of the iterator.
\<close>

theorem path_iterator_turns_back:
  assumes "at_segment it"
  shows "(fst (to_next it) \<longrightarrow>
            (let back = to_prev (snd (to_next it))
             in fst back \<and> segments_behind (snd back) = segments_behind it \<and>
                current_segment (snd back) = current_segment it \<and>
                segments_ahead (snd back) = segments_ahead it)) \<and>
         (fst (to_prev it) \<longrightarrow>
            (let again = to_next (snd (to_prev it))
             in fst again \<and> segments_behind (snd again) = segments_behind it \<and>
                current_segment (snd again) = current_segment it \<and>
                segments_ahead (snd again) = segments_ahead it))"
proof (intro conjI impI)
  note split = at_segment_split [OF assms]
  assume found: "fst (to_next it)"
  define n where "n = snd (to_next it)"
  have n: "at_segment n" "pi_path n = pi_path it" using to_next_at_segment [of it] assms found n_def by auto
  note inv = to_prev_inv [OF n(1)]
  have ahead: "segments_ahead it = current_segment n # segments_ahead n"
    using to_next_facts(2) [OF found] by (simp add: n_def)
  with split at_segment_split [OF n(1)] n(2)
  have behind: "segments_behind n = segments_behind it @ [current_segment it]" by simp
  with to_prev_facts(1) [OF inv] have undo: "fst (to_prev n)" by simp
  have "at_segment (snd (to_prev n))" "pi_path (snd (to_prev n)) = pi_path it"
    using to_prev_at_segment [of n] n undo by auto
  with at_segment_unique [of "snd (to_prev n)" it] assms to_prev_facts(2) [OF inv undo] behind undo
  show "let back = to_prev (snd (to_next it))
        in fst back \<and> segments_behind (snd back) = segments_behind it \<and>
           current_segment (snd back) = current_segment it \<and>
           segments_ahead (snd back) = segments_ahead it"
    by (simp add: Let_def n_def)
next
  note split = at_segment_split [OF assms]
  assume found: "fst (to_prev it)"
  note inv = to_prev_inv [OF assms]
  define n where "n = snd (to_prev it)"
  have n: "at_segment n" "pi_path n = pi_path it" using to_prev_at_segment [of it] assms found n_def by auto
  have behind: "segments_behind it = segments_behind n @ [current_segment n]"
    using to_prev_facts(2) [OF inv found] by (simp add: n_def)
  with split at_segment_split [OF n(1)] n(2)
  have ahead: "segments_ahead n = current_segment it # segments_ahead it" by simp
  with to_next_facts(1) [of n] have again: "fst (to_next n)" by simp
  have m: "at_segment (snd (to_next n))" "pi_path (snd (to_next n)) = pi_path it"
    using to_next_at_segment [of n] n again by auto
  have "current_segment (snd (to_next n)) = current_segment it" "segments_ahead (snd (to_next n)) = segments_ahead it"
    using to_next_facts(2) [OF again] ahead by simp_all
  with at_segment_split [OF m(1)] m(2) split again
  show "let again = to_next (snd (to_prev it))
        in fst again \<and> segments_behind (snd again) = segments_behind it \<and>
           current_segment (snd again) = current_segment it \<and>
           segments_ahead (snd again) = segments_ahead it"
    by (simp add: Let_def n_def)
qed

theorem path_iterator_turns_back_witness:
  "\<exists>it. pi_path it = ''/a/b'' \<and> fst (to_next it) \<and> fst (to_prev (snd (to_next it))) \<and>
     current_segment (snd (to_prev (snd (to_next it)))) = current_segment it"
proof -
  let ?it = "\<lparr>pi_path = ''/a/b'', pi_start = 1, pi_end = 2, pi_is_initialized = True\<rparr>"
  have at: "at_segment ?it" by (auto simp: at_segment_def segment_bounds_def less_Suc_eq)
  have "segments_ahead ?it = [''b'']"
    using segments_element(2) [of "''b''"] by (simp add: segments_ahead_def)
  then have found: "fst (to_next ?it)" by (simp add: to_next_facts)
  have "pi_path ?it = ''/a/b''" by simp
  with found path_iterator_turns_back [OF at] show ?thesis
    unfolding Let_def by blast
qed

end
