(* ===== verification/PathPattern.thy ===== *)
theory PathPattern
  imports ObjectPath
begin

text \<open>
  Path patterns of the match rules, \<^verbatim>\<open>libraries/mcengine/src/match/path_pattern.cpp\<close>: splitting
  into segments, the well-formedness of a pattern, its compilation by the constructor and
  the matching of a target path. A malformed pattern degrades to one that matches
  everything, as the comment in \<^verbatim>\<open>path_pattern.h\<close> says.
\<close>

section \<open>Splitting\<close>

function split_from :: "string \<Rightarrow> nat \<Rightarrow> string list" where
  "split_from p pos =
     (if pos < length p then
        let pos = scan_while (\<lambda>c. c = CHR ''/'') p pos
        in if pos \<ge> length p then []
           else
             let start = pos;
                 pos = scan_while (\<lambda>c. c \<noteq> CHR ''/'') p pos
             in substr p start (pos - start) # split_from p pos
      else [])"
  by pat_completeness auto

lemma split_from_decreases:
  assumes "pos < length p" and "scan_while (\<lambda>c. c = CHR ''/'') p pos < length p"
  shows "pos < scan_while (\<lambda>c. c \<noteq> CHR ''/'') p (scan_while (\<lambda>c. c = CHR ''/'') p pos)"
proof -
  let ?s = "scan_while (\<lambda>c. c = CHR ''/'') p pos"
  have "p ! ?s \<noteq> CHR ''/''" using scan_while_stop [OF assms(2)] .
  with assms(2) have "scan_while (\<lambda>c. c \<noteq> CHR ''/'') p ?s = scan_while (\<lambda>c. c \<noteq> CHR ''/'') p (Suc ?s)"
    by (subst scan_while_unfold) (simp only: simp_thms if_True not_False_eq_True)
  with scan_while_ge [of "Suc ?s" "\<lambda>c. c \<noteq> CHR ''/''" p] scan_while_ge [of pos "\<lambda>c. c = CHR ''/''" p]
  show ?thesis by simp
qed

termination split_from
  by (relation "measure (\<lambda>(p, pos). length p - pos)")
    (simp_all add: split_from_decreases diff_less_mono2)

declare split_from.simps [simp del]

definition split_path_segments :: "string \<Rightarrow> string list" where
  "split_path_segments p = (if p = [] then [] else split_from p 0)"

section \<open>Patterns\<close>

definition segment_contains_intra_wildcard :: "string \<Rightarrow> bool" where
  "segment_contains_intra_wildcard seg \<longleftrightarrow>
     (if seg = ''*'' \<or> seg = ''**'' then False else CHR ''*'' \<in> set seg)"

definition segment_is_freeform_capture :: "string \<Rightarrow> bool" where
  "segment_is_freeform_capture seg \<longleftrightarrow>
     length seg \<ge> 2 \<and> hd seg = CHR ''{'' \<and> last seg = CHR ''}''"

definition segment_is_unsupported_capture :: "string \<Rightarrow> bool" where
  "segment_is_unsupported_capture seg \<longleftrightarrow>
     (if \<not> segment_is_freeform_capture seg then False
      else CHR '':'' \<in> set seg \<or> CHR ''='' \<in> set seg)"

definition pattern_segment_matches_literal :: "string \<Rightarrow> string \<Rightarrow> bool" where
  "pattern_segment_matches_literal pat actual \<longleftrightarrow> (if pat = ''*'' then True else pat = actual)"

fun segments_well_formed :: "string list \<Rightarrow> bool" where
  "segments_well_formed [] = True"
| "segments_well_formed (seg # segs) =
     (if seg = ''**'' then (if segs \<noteq> [] then False else segments_well_formed segs)
      else if seg = ''*'' then segments_well_formed segs
      else if segment_contains_intra_wildcard seg then False
      else if segment_is_unsupported_capture seg then False
      else segments_well_formed segs)"

definition pattern_is_well_formed :: "string \<Rightarrow> bool" where
  "pattern_is_well_formed raw \<longleftrightarrow>
     (if raw = [] then True else segments_well_formed (split_path_segments raw))"

datatype pattern_kind = full_wildcard | exact | prefix_doublestar

record path_pattern =
  pp_kind :: pattern_kind
  pp_segments :: "string list"

definition new_path_pattern :: "string \<Rightarrow> path_pattern" where
  "new_path_pattern raw =
     (if raw = [] \<or> \<not> pattern_is_well_formed raw then \<lparr>pp_kind = full_wildcard, pp_segments = []\<rparr>
      else
        let segs = split_path_segments raw
        in if segs = [] then \<lparr>pp_kind = full_wildcard, pp_segments = []\<rparr>
           else
             let trailing_slash = (last raw = CHR ''/'');
                 has_doublestar = (last segs = ''**'');
                 segs = (if has_doublestar then butlast segs else segs)
             in \<lparr>pp_kind = (if has_doublestar \<or> trailing_slash then prefix_doublestar else exact),
                 pp_segments = map (\<lambda>seg. if segment_is_freeform_capture seg then ''*'' else seg) segs\<rparr>)"

text \<open>The loop over the indices of the pattern's segments; the sizes have been compared before.\<close>

definition pattern_matches :: "path_pattern \<Rightarrow> string \<Rightarrow> bool" where
  "pattern_matches pat p \<longleftrightarrow>
     (if pp_kind pat = full_wildcard then True
      else
        let target_segs = split_path_segments p;
            pat_segs = pp_segments pat
        in if pp_kind pat = exact \<and> length target_segs \<noteq> length pat_segs then False
           else if pp_kind pat \<noteq> exact \<and> length target_segs < length pat_segs then False
           else \<forall>i < length pat_segs. pattern_segment_matches_literal (pat_segs ! i) (target_segs ! i))"

section \<open>Splitting computes the segments\<close>

lemma split_from_segments: "split_from p pos = segments_of (drop pos p)"
proof (induction p pos rule: split_from.induct)
  case (1 p pos)
  define s where "s = scan_while (\<lambda>c. c = CHR ''/'') p pos"
  define e where "e = scan_while (\<lambda>c. c \<noteq> CHR ''/'') p s"
  have ds: "dropWhile (\<lambda>c. c = CHR ''/'') (drop pos p) = drop s p"
    by (simp add: s_def drop_scan_while)
  show ?case
  proof (cases "s < length p")
    case True
    have pos: "pos < length p" using True scan_while_ge [of pos "\<lambda>c. c = CHR ''/''" p] by (simp add: s_def)
    from True have "\<not> length p \<le> s" by simp
    with "1.IH" [OF pos s_def _ refl e_def] have IH: "split_from p e = segments_of (drop e p)" by simp
    have "split_from p pos = substr p s (e - s) # split_from p e"
      using pos True by (subst split_from.simps) (simp add: Let_def flip: s_def e_def)
    moreover have "segments_of (drop pos p) = takeWhile (\<lambda>c. c \<noteq> CHR ''/'') (drop s p) #
        segments_of (dropWhile (\<lambda>c. c \<noteq> CHR ''/'') (drop s p))"
      using True ds by (subst segments_of.simps) (simp add: Let_def)
    ultimately show ?thesis
      using IH by (simp add: e_def substr_scan_while flip: drop_scan_while)
  next
    case False
    then have "split_from p pos = []"
      by (subst split_from.simps) (simp add: Let_def flip: s_def)
    moreover have "segments_of (drop pos p) = []"
      using False ds by (subst segments_of.simps) simp
    ultimately show ?thesis by simp
  qed
qed

text \<open>
  Splitting a path computes its segments: the maximal runs of characters other than the
  separator, whatever separators surround them.
\<close>

theorem split_path_segments_correct: "split_path_segments p = segments_of p"
  by (simp add: split_path_segments_def split_from_segments)

lemma split_segments: "split_path_segments p = segments_of p"
  by (simp add: split_path_segments_def split_from_segments)

section \<open>What a pattern matches\<close>

text \<open>
  The meaning of one segment of a pattern, and of a pattern, in terms of its text. A capture is a name in braces. A
  pattern is malformed when \<open>**\<close> stands before the end, a star stands inside a segment, or a capture
  has a type or a default.
\<close>

definition segment_accepts :: "string \<Rightarrow> string \<Rightarrow> bool" where
  "segment_accepts seg actual \<longleftrightarrow> seg = ''*'' \<or> (\<exists>name. seg = ''{'' @ name @ ''}'') \<or> seg = actual"

definition malformed_segments :: "string list \<Rightarrow> bool" where
  "malformed_segments segs \<longleftrightarrow>
     (\<exists>xs ys. segs = xs @ ''**'' # ys \<and> ys \<noteq> []) \<or>
     (\<exists>xs ys. xs @ ''*'' @ ys \<in> set segs \<and> xs @ ''*'' @ ys \<notin> {''*'', ''**''}) \<or>
     (\<exists>xs c ys. ''{'' @ xs @ [c] @ ys @ ''}'' \<in> set segs \<and> c \<in> {CHR '':'', CHR ''=''})"

definition pattern_spec :: "string \<Rightarrow> string \<Rightarrow> bool" where
  "pattern_spec raw p \<longleftrightarrow>
     (let segs = segments_of raw;
          doublestar = (segs \<noteq> [] \<and> last segs = ''**'');
          fixed = (if doublestar then butlast segs else segs)
      in segs = [] \<or> malformed_segments segs \<or>
         (\<exists>ms rest. segments_of p = ms @ rest \<and> list_all2 segment_accepts fixed ms \<and>
            (rest = [] \<or> doublestar \<or> last raw = CHR ''/'')))"

lemma freeform_capture_iff: "segment_is_freeform_capture seg \<longleftrightarrow> (\<exists>name. seg = ''{'' @ name @ ''}'')"
proof
  assume c: "segment_is_freeform_capture seg"
  then obtain c cs where seg: "seg = c # cs" "cs \<noteq> []" by (cases seg) (auto simp: segment_is_freeform_capture_def Suc_le_eq)
  have "cs = butlast cs @ [last cs]" using seg(2) by simp
  moreover have "c = CHR ''{''" "last cs = CHR ''}''" using c seg by (simp_all add: segment_is_freeform_capture_def)
  ultimately have "seg = ''{'' @ butlast cs @ ''}''" using seg(1) by simp
  then show "\<exists>name. seg = ''{'' @ name @ ''}''" by blast
qed (auto simp: segment_is_freeform_capture_def)

lemma unsupported_capture_iff:
  "segment_is_unsupported_capture seg \<longleftrightarrow>
     (\<exists>xs c ys. seg = ''{'' @ xs @ [c] @ ys @ ''}'' \<and> c \<in> {CHR '':'', CHR ''=''})" (is "_ \<longleftrightarrow> ?r")
proof
  assume u: "segment_is_unsupported_capture seg"
  then obtain name where seg: "seg = ''{'' @ name @ ''}''"
    by (auto simp: segment_is_unsupported_capture_def freeform_capture_iff split: if_splits)
  then have "CHR '':'' \<in> set name \<or> CHR ''='' \<in> set name"
    using u by (auto simp: segment_is_unsupported_capture_def split: if_splits)
  then obtain c where "c \<in> set name" "c \<in> {CHR '':'', CHR ''=''}" by blast
  then show ?r using seg by (auto dest!: split_list)
next
  assume ?r
  then obtain xs c ys where seg: "seg = ''{'' @ (xs @ [c] @ ys) @ ''}''" "c \<in> {CHR '':'', CHR ''=''}" by auto
  then have "segment_is_freeform_capture seg" unfolding freeform_capture_iff by blast
  then show "segment_is_unsupported_capture seg" using seg by (auto simp: segment_is_unsupported_capture_def)
qed

lemma intra_wildcard_iff:
  "segment_contains_intra_wildcard seg \<longleftrightarrow> (\<exists>xs ys. seg = xs @ ''*'' @ ys \<and> seg \<notin> {''*'', ''**''})"
  by (auto simp: segment_contains_intra_wildcard_def dest: split_list)

lemma star_segments: "\<not> segment_contains_intra_wildcard ''*''" "\<not> segment_contains_intra_wildcard ''**''"
    "\<not> segment_is_unsupported_capture ''*''" "\<not> segment_is_unsupported_capture ''**''"
  by (simp_all add: segment_contains_intra_wildcard_def segment_is_unsupported_capture_def segment_is_freeform_capture_def)

lemma segments_well_formed_iff:
  "segments_well_formed segs \<longleftrightarrow>
     \<not> (\<exists>xs ys. segs = xs @ ''**'' # ys \<and> ys \<noteq> []) \<and>
     (\<forall>seg \<in> set segs. \<not> segment_contains_intra_wildcard seg \<and> \<not> segment_is_unsupported_capture seg)"
proof (induction segs)
  case (Cons seg segs)
  have "(\<exists>xs ys. seg # segs = xs @ ''**'' # ys \<and> ys \<noteq> []) \<longleftrightarrow>
      (seg = ''**'' \<and> segs \<noteq> []) \<or> (\<exists>xs ys. segs = xs @ ''**'' # ys \<and> ys \<noteq> [])"
    by (auto simp: Cons_eq_append_conv)
  then show ?case using Cons.IH star_segments by auto
qed simp

lemma malformed_iff: "malformed_segments segs \<longleftrightarrow> \<not> segments_well_formed segs"
  unfolding malformed_segments_def segments_well_formed_iff unsupported_capture_iff intra_wildcard_iff by blast

lemma literal_accepts:
  "pattern_segment_matches_literal (if segment_is_freeform_capture seg then ''*'' else seg) actual \<longleftrightarrow>
     segment_accepts seg actual"
  by (auto simp: pattern_segment_matches_literal_def segment_accepts_def freeform_capture_iff)

lemma prefix_match:
  "(\<exists>ms rest. ts = ms @ rest \<and> list_all2 P fs ms \<and> (rest = [] \<or> open)) \<longleftrightarrow>
     (if open then length fs \<le> length ts else length ts = length fs) \<and> (\<forall>i < length fs. P (fs ! i) (ts ! i))"
  (is "?l \<longleftrightarrow> ?r")
proof
  assume ?l
  then obtain ms rest where *: "ts = ms @ rest" "list_all2 P fs ms" "rest = [] \<or> open" by blast
  then show ?r by (auto simp: list_all2_conv_all_nth nth_append)
next
  assume r: ?r
  have "ts = take (length fs) ts @ drop (length fs) ts" by simp
  moreover have "list_all2 P fs (take (length fs) ts)"
    using r by (auto simp: list_all2_conv_all_nth split: if_splits)
  moreover have "drop (length fs) ts = [] \<or> open" using r by (auto split: if_splits)
  ultimately show ?l by blast
qed

lemma pattern_matches_refines: "pattern_matches (new_path_pattern raw) p \<longleftrightarrow> pattern_spec raw p"
proof (cases "raw = [] \<or> segments_of raw = [] \<or> \<not> segments_well_formed (segments_of raw)")
  case True
  then show ?thesis
    by (auto simp: pattern_matches_def new_path_pattern_def pattern_is_well_formed_def pattern_spec_def
        malformed_iff split_segments Let_def)
next
  case False
  define segs where "segs = segments_of raw"
  define ds where "ds = (last segs = ''**'')"
  define fixed where "fixed = (if ds then butlast segs else segs)"
  define more where "more = (ds \<or> last raw = CHR ''/'')"
  from False have F: "raw \<noteq> []" "segs \<noteq> []" "segments_well_formed segs" by (auto simp: segs_def)
  have pat: "new_path_pattern raw = \<lparr>pp_kind = (if more then prefix_doublestar else exact),
      pp_segments = map (\<lambda>seg. if segment_is_freeform_capture seg then ''*'' else seg) fixed\<rparr>"
    using F by (simp add: new_path_pattern_def pattern_is_well_formed_def split_segments Let_def
        ds_def fixed_def more_def flip: segs_def)
  have "pattern_matches (new_path_pattern raw) p \<longleftrightarrow>
      (if more then length fixed \<le> length (segments_of p) else length (segments_of p) = length fixed) \<and>
      (\<forall>i < length fixed. segment_accepts (fixed ! i) (segments_of p ! i))"
    by (auto simp: pat pattern_matches_def split_segments Let_def literal_accepts)
  also have "\<dots> \<longleftrightarrow> (\<exists>ms rest. segments_of p = ms @ rest \<and> list_all2 segment_accepts fixed ms \<and>
      (rest = [] \<or> more))"
    by (rule prefix_match [symmetric])
  also have "\<dots> \<longleftrightarrow> pattern_spec raw p"
    using F by (simp add: pattern_spec_def malformed_iff Let_def more_def fixed_def ds_def flip: segs_def)
  finally show ?thesis .
qed

text \<open>
  C39. A compiled pattern matches a path exactly when the specification of the pattern says so:
  segment by segment, \<open>*\<close> and captures standing for any segment, a trailing slash or \<open>**\<close> for
  any continuation, and a malformed pattern for everything.
\<close>

theorem pattern_matches_spec: "pattern_matches (new_path_pattern raw) p \<longleftrightarrow> pattern_spec raw p"
  by (rule pattern_matches_refines)

section \<open>Object paths as patterns\<close>

lemma element_not_special:
  assumes "is_valid_element e"
  shows "CHR ''*'' \<notin> set e" "\<not> segment_is_freeform_capture e" "e \<noteq> ''*''" "e \<noteq> ''**''"
proof -
  have "\<not> isalnum (CHR ''*'')" "\<not> isalnum (CHR ''{'')"
    by (simp_all add: isalnum_def isalpha_def isdigit_def)
  then have ne: "e \<noteq> []" and "CHR ''*'' \<notin> set e" "CHR ''{'' \<notin> set e"
    using assms by (auto simp: is_valid_element_def list_all_iff split: if_splits)
  then show "CHR ''*'' \<notin> set e" "e \<noteq> ''*''" "e \<noteq> ''**''" by auto
  from ne have "hd e \<in> set e" by simp
  with \<open>CHR ''{'' \<notin> set e\<close> show "\<not> segment_is_freeform_capture e"
    by (auto simp: segment_is_freeform_capture_def)
qed

lemma elements_well_formed: "\<forall>e \<in> set es. is_valid_element e \<Longrightarrow> segments_well_formed es"
  by (induction es)
    (simp_all add: element_not_special segment_contains_intra_wildcard_def segment_is_unsupported_capture_def)

lemma elements_accept:
  "\<forall>e \<in> set es. is_valid_element e \<Longrightarrow> list_all2 segment_accepts es ms \<longleftrightarrow> ms = es"
proof (induction es arbitrary: ms)
  case (Cons e es)
  have "segment_accepts e m \<longleftrightarrow> e = m" for m
    using element_not_special [of e] Cons.prems unfolding segment_accepts_def freeform_capture_iff [symmetric] by simp
  then show ?case using Cons by (cases ms) auto
qed simp

text \<open>
  An object path used as a pattern matches, among the object paths, only itself; followed by
  a slash it matches itself and everything below it. The root matches everything.
\<close>

theorem pattern_of_object_path:
  assumes "path_is_valid p" and "path_is_valid q"
  shows "(pattern_matches (new_path_pattern p) q \<longleftrightarrow> p = ''/'' \<or> q = p) \<and>
         (p \<noteq> ''/'' \<longrightarrow>
           (pattern_matches (new_path_pattern (p @ ''/'')) q \<longleftrightarrow> q = p \<or> (\<exists>r. q = p @ ''/'' @ r)))"
proof -
  obtain es where es: "\<forall>e \<in> set es. is_valid_element e" "p = path_of es"
    using assms(1) unfolding valid_iff_elements by blast
  obtain fs where fs: "\<forall>e \<in> set fs. is_valid_element e" "q = path_of fs"
    using assms(2) unfolding valid_iff_elements by blast
  have seg: "segments_of p = es" "segments_of q = fs"
    using segments_path_of es fs by simp_all
  have seg': "segments_of (p @ ''/'') = es"
    using segments_append_sep [of p "[]"] seg by simp
  have wf: "segments_well_formed es" using es elements_well_formed by simp
  have nds: "es \<noteq> [] \<Longrightarrow> last es \<noteq> ''**''"
    using es(1) element_not_special(4) [of "last es"] by auto
  have nl: "es \<noteq> [] \<Longrightarrow> last p \<noteq> CHR ''/''"
    using slashed_last [OF _ es(1)] es(2) by (simp add: path_of_def)
  have root: "p = ''/'' \<longleftrightarrow> es = []" using path_of_root [OF es(1)] es(2) by simp
  have eq: "q = p \<longleftrightarrow> fs = es" using seg es(2) fs(2) by metis
  have below: "(\<exists>rest. fs = es @ rest) \<longleftrightarrow> q = p \<or> (\<exists>r. q = p @ ''/'' @ r)" if "es \<noteq> []"
  proof
    assume "\<exists>rest. fs = es @ rest"
    then obtain rest where rest: "fs = es @ rest" by blast
    show "q = p \<or> (\<exists>r. q = p @ ''/'' @ r)"
    proof (cases rest)
      case Nil
      with rest eq show ?thesis by simp
    next
      case (Cons x xs)
      with rest that show ?thesis by (simp add: es(2) fs(2) path_of_def)
    qed
  next
    assume "q = p \<or> (\<exists>r. q = p @ ''/'' @ r)"
    then show "\<exists>rest. fs = es @ rest"
    proof
      assume "q = p"
      with eq show ?thesis by simp
    next
      assume "\<exists>r. q = p @ ''/'' @ r"
      then obtain r where "q = p @ CHR ''/'' # r" by auto
      with segments_append_sep [of p r] seg have "fs = es @ segments_of r" by metis
      then show ?thesis ..
    qed
  qed
  show ?thesis
    unfolding pattern_matches_refines pattern_spec_def malformed_iff Let_def seg seg' root
    using wf nds nl elements_accept [OF es(1)] eq below by (cases "es = []") auto
qed

theorem pattern_of_object_path_witness:
  "pattern_matches (new_path_pattern ''/a/'') ''/a/b'' \<and> \<not> pattern_matches (new_path_pattern ''/a'') ''/a/b''"
proof -
  have "is_valid_element ''a''" "is_valid_element ''b''"
    by (simp_all add: is_valid_element_def isalnum_def isalpha_def isdigit_def)
  with path_of_valid [of "[''a'']"] path_of_valid [of "[''a'', ''b'']"]
  have "path_is_valid ''/a''" "path_is_valid ''/a/b''" by (simp_all add: path_of_def)
  from pattern_of_object_path [OF this] show ?thesis by simp
qed

end
