(* ===== verification/NumberText.thy ===== *)
theory NumberText
  imports Prelude
begin

text \<open>
  Numbers as text: the conversions of \<^verbatim>\<open>libraries/mcbase/include/mc/string_utils.h\<close>
  (\<^verbatim>\<open>try_to_number\<close>, \<^verbatim>\<open>to_number\<close>, \<^verbatim>\<open>to_string\<close> of integers) and the two helpers they call in
  \<^verbatim>\<open>libraries/mcbase/src/string/string.cpp\<close>. The C functions behind them are modelled on the
  strings they are given: \<open>strtoll\<close> and \<open>strtoull\<close> with their white space, sign, prefix, digits,
  end pointer and range error, \<open>strtod\<close> with infinities, NaNs, hexadecimal and decimal numbers,
  the correctly rounded result and the range error.
\<close>

section \<open>Printing integers\<close>

definition digit_char :: "nat \<Rightarrow> char" where
  "digit_char d = char_of (if d < 10 then 48 + d else 87 + d)"

text \<open>\<^verbatim>\<open>%llu\<close> and \<^verbatim>\<open>%lld\<close>.\<close>

fun decimal_nat :: "nat \<Rightarrow> string" where
  "decimal_nat n =
     (if n < 10 then [digit_char n] else decimal_nat (n div 10) @ [digit_char (n mod 10)])"

declare decimal_nat.simps [simp del]

definition decimal :: "int \<Rightarrow> string" where
  "decimal i = (if i < 0 then CHR ''-'' # decimal_nat (nat (- i)) else decimal_nat (nat i))"

section \<open>The C conversion functions\<close>

definition digit_value :: "char \<Rightarrow> nat" where
  "digit_value c =
     (let n = of_char c in
      if 48 \<le> n \<and> n \<le> 57 then n - 48
      else if 65 \<le> n \<and> n \<le> 90 then n - 55
      else if 97 \<le> n \<and> n \<le> 122 then n - 87
      else 255)"

definition is_radix_digit :: "nat \<Rightarrow> char \<Rightarrow> bool" where
  "is_radix_digit radix c \<longleftrightarrow> digit_value c < radix"

definition digits_value :: "nat \<Rightarrow> string \<Rightarrow> nat" where
  "digits_value radix ds = foldl (\<lambda>acc c. acc * radix + digit_value c) 0 ds"

text \<open>
  The common scan of \<^verbatim>\<open>strtoll\<close> and \<^verbatim>\<open>strtoull\<close>: white space, an optional sign, for radix 16 an
  optional prefix, and the longest run of digits. The result is the sign, the magnitude and the
  index the end pointer has; without a digit nothing is converted and the index is 0.
\<close>

definition scan_integer :: "string \<Rightarrow> nat \<Rightarrow> bool \<times> nat \<times> nat" where
  "scan_integer s radix =
     (let ws = length (takeWhile isspace s);
          t = drop ws s;
          neg = (t \<noteq> [] \<and> hd t = CHR ''-'');
          sg = (if t \<noteq> [] \<and> (hd t = CHR ''-'' \<or> hd t = CHR ''+'') then 1 else 0);
          u = drop sg t;
          px = (if radix = 16 \<and> 2 < length u \<and> u ! 0 = CHR ''0'' \<and>
                   (u ! 1 = CHR ''x'' \<or> u ! 1 = CHR ''X'') \<and> isxdigit (u ! 2) then 2 else 0);
          ds = takeWhile (is_radix_digit radix) (drop px u)
      in if ds = [] then (False, 0, 0)
         else (neg, digits_value radix ds, ws + sg + px + length ds))"

text \<open>The value, the end index and whether \<^verbatim>\<open>errno\<close> is set to \<^verbatim>\<open>ERANGE\<close>.\<close>

definition strtoll :: "string \<Rightarrow> nat \<Rightarrow> int \<times> nat \<times> bool" where
  "strtoll s radix =
     (let (neg, m, e) = scan_integer s radix; v = (if neg then - int m else int m)
      in if v < - (2 ^ 63) then (- (2 ^ 63), e, True)
         else if 2 ^ 63 - 1 < v then (2 ^ 63 - 1, e, True)
         else (v, e, False))"

text \<open>\<^verbatim>\<open>strtoull\<close> negates in the unsigned type.\<close>

definition strtoull :: "string \<Rightarrow> nat \<Rightarrow> int \<times> nat \<times> bool" where
  "strtoull s radix =
     (let (neg, m, e) = scan_integer s radix
      in if 2 ^ 64 - 1 < int m then (2 ^ 64 - 1, e, True)
         else if neg then ((- int m) mod 2 ^ 64, e, False)
         else (int m, e, False))"

fun bit_length :: "nat \<Rightarrow> nat" where
  "bit_length n = (if n = 0 then 0 else Suc (bit_length (n div 2)))"

declare bit_length.simps [simp del]

text \<open>
  The double nearest to the fraction \<open>p / q\<close>, ties to even, as its IEEE 754 bits: \<open>e\<close> is the
  binary exponent of the fraction, not below the one of the subnormal numbers, and the mantissa
  is rounded from the fraction scaled by \<open>2 ^ (52 - e)\<close>. A carry out of the mantissa moves into
  the exponent field by the addition.
\<close>

definition round_to_double :: "nat \<Rightarrow> nat \<Rightarrow> u64" where
  "round_to_double p q =
     (if p = 0 then 0
      else let e0 = int (bit_length p) - int (bit_length q);
               e1 = (if q * 2 ^ nat e0 \<le> p * 2 ^ nat (- e0) then e0 else e0 - 1);
               e = max e1 (- 1022);
               num = p * 2 ^ nat (52 - e);
               den = q * 2 ^ nat (e - 52);
               m = num div den;
               r = num mod den;
               m' = (if den < 2 * r \<or> (2 * r = den \<and> odd m) then m + 1 else m);
               b = (e + 1022) * 2 ^ 52 + int m'
           in if 2047 * 2 ^ 52 \<le> b then 2047 * 2 ^ 52 else word_of_int b)"

text \<open>
  The magnitude of a double without its sign bit, in units of \<open>2 ^ (- 1074)\<close>; on infinity, whose
  fields read as a number above every finite one, it is only used in comparisons.
\<close>

definition f64_exponent :: "u64 \<Rightarrow> nat" where
  "f64_exponent x = unat (drop_bit 52 x AND 0x7FF)"

definition f64_mantissa :: "u64 \<Rightarrow> nat" where
  "f64_mantissa x = unat (x AND 0xFFFFFFFFFFFFF)"

definition f64_magnitude :: "u64 \<Rightarrow> nat" where
  "f64_magnitude x =
     (if f64_exponent x = 0 then f64_mantissa x
      else (2 ^ 52 + f64_mantissa x) * 2 ^ (f64_exponent x - 1))"

text \<open>
  The conversion of the fraction \<open>p / q\<close> by \<^verbatim>\<open>strtod\<close>, and whether \<^verbatim>\<open>errno\<close> becomes \<^verbatim>\<open>ERANGE\<close>: on
  overflow, and when the result is subnormal and inexact.
\<close>

definition fraction_to_double :: "nat \<Rightarrow> nat \<Rightarrow> u64 \<times> bool" where
  "fraction_to_double p q =
     (let x = round_to_double p q
      in (x, f64_exponent x = 2047 \<or>
             (f64_exponent x = 0 \<and> f64_magnitude x * q \<noteq> p * 2 ^ 1074)))"

definition lowercase :: "char \<Rightarrow> char" where
  "lowercase c = (let n = of_char c :: nat in if 65 \<le> n \<and> n \<le> 90 then char_of (n + 32) else c)"

text \<open>An exponent part opened by \<open>mark\<close>: its value and its length, 0 when there is none.\<close>

definition scan_exponent :: "char \<Rightarrow> string \<Rightarrow> int \<times> nat" where
  "scan_exponent mark s =
     (if s \<noteq> [] \<and> lowercase (hd s) = mark
      then let t = tl s;
               neg = (t \<noteq> [] \<and> hd t = CHR ''-'');
               sg = (if t \<noteq> [] \<and> (hd t = CHR ''-'' \<or> hd t = CHR ''+'') then 1 else 0);
               ds = takeWhile isdigit (drop sg t);
               n = int (digits_value 10 ds)
           in if ds = [] then (0, 0) else (if neg then - n else n, 1 + sg + length ds)
      else (0, 0))"

text \<open>
  Digits of a base with an optional point and exponent: the value as a fraction and the length, 0
  without a digit. \<open>weight\<close> is the base of the exponent part and \<open>shift\<close> the number of its digits
  one digit behind the point stands for.
\<close>

definition scan_float_digits ::
    "(char \<Rightarrow> bool) \<Rightarrow> nat \<Rightarrow> nat \<Rightarrow> nat \<Rightarrow> char \<Rightarrow> string \<Rightarrow> (nat \<times> nat) \<times> nat" where
  "scan_float_digits is_dig base weight shift mark s =
     (let ip = takeWhile is_dig s;
          t = drop (length ip) s;
          point = (t \<noteq> [] \<and> hd t = CHR ''.'');
          fp = (if point then takeWhile is_dig (tl t) else []);
          n = length ip + (if point then 1 + length fp else 0);
          (ex, k) = scan_exponent mark (drop n s);
          scale = ex - int (shift * length fp)
      in if ip = [] \<and> fp = [] then ((0, 1), 0)
         else ((digits_value base (ip @ fp) * weight ^ nat scale, weight ^ nat (- scale)), n + k))"

text \<open>
  \<^verbatim>\<open>strtod\<close>: the bits, the end index and whether \<^verbatim>\<open>errno\<close> is set to \<^verbatim>\<open>ERANGE\<close>. White space and a
  sign may come first; then an infinity, a NaN, a hexadecimal or a decimal number.
\<close>

definition strtod_unsigned :: "string \<Rightarrow> u64 \<times> nat \<times> bool" where
  "strtod_unsigned u =
     (let l = map lowercase u in
      if take 8 l = ''infinity'' then (0x7FF0000000000000, 8, False)
      else if take 3 l = ''inf'' then (0x7FF0000000000000, 3, False)
      else if take 3 l = ''nan'' then
        let body = takeWhile (\<lambda>c. isalnum c \<or> c = CHR ''_'') (drop 4 u)
        in (0x7FF8000000000000,
            if 3 < length u \<and> u ! 3 = CHR ''('' \<and> 4 + length body < length u \<and>
               u ! (4 + length body) = CHR '')''
            then 5 + length body else 3, False)
      else
        let (f, n) = (if take 2 l = ''0x'' then scan_float_digits isxdigit 16 2 4 CHR ''p'' (drop 2 u)
                      else ((0, 1), 0))
        in if 0 < n then
             let (x, erange) = fraction_to_double (fst f) (snd f) in (x, 2 + n, erange)
           else
             let (f, n) = scan_float_digits isdigit 10 10 1 CHR ''e'' u
             in if 0 < n then
                  let (x, erange) = fraction_to_double (fst f) (snd f) in (x, n, erange)
                else (0, 0, False))"

definition strtod :: "string \<Rightarrow> u64 \<times> nat \<times> bool" where
  "strtod s =
     (let ws = length (takeWhile isspace s);
          t = drop ws s;
          neg = (t \<noteq> [] \<and> hd t = CHR ''-'');
          sg = (if t \<noteq> [] \<and> (hd t = CHR ''-'' \<or> hd t = CHR ''+'') then 1 else 0);
          (x, n, erange) = strtod_unsigned (drop sg t)
      in if n = 0 then (0, 0, False)
         else (if neg then x OR 0x8000000000000000 else x, ws + sg + n, erange))"

section \<open>The conversions of the library\<close>

definition string_detect_number_radix :: "string \<Rightarrow> nat \<times> string" where
  "string_detect_number_radix s =
     (if length s > 1 \<and> s ! 0 = CHR ''0''
      then let c = s ! 1 in
           if c = CHR ''x'' \<or> c = CHR ''X'' then (16, drop 2 s)
           else if c = CHR ''b'' \<or> c = CHR ''B'' then (2, drop 2 s)
           else if is_radix_digit 8 c then (8, drop 1 s)
           else (10, s)
      else (10, s))"

text \<open>The view of the copied string; \<open>[]\<close> is the empty view that stands for a refusal.\<close>

definition prepare_number_string :: "string \<Rightarrow> nat \<Rightarrow> nat \<Rightarrow> string" where
  "prepare_number_string s radix buffer_size =
     (if s = [] then []
      else let max_len = (if radix = 2 then 64 else if radix = 8 then 22
                          else if radix = 16 then 16 else 20)
           in if length s > max_len then []
              else if length s + 1 > buffer_size then []
              else s)"

definition effective_radix :: "string \<Rightarrow> nat \<Rightarrow> nat \<times> string" where
  "effective_radix s radix =
     (if radix = 0 then string_detect_number_radix s
      else if radix \<noteq> 2 \<and> radix \<noteq> 8 \<and> radix \<noteq> 10 \<and> radix \<noteq> 16 then (10, s)
      else (radix, s))"

text \<open>
  \<^verbatim>\<open>try_to_number_unsafe<T>\<close> for the 64-bit integers, the conversion function \<open>conv\<close> being the one
  the type selects.
\<close>

definition try_to_integer_unsafe ::
    "(string \<Rightarrow> nat \<Rightarrow> int \<times> nat \<times> bool) \<Rightarrow> string \<Rightarrow> nat \<Rightarrow> int option" where
  "try_to_integer_unsafe conv s radix =
     (if s = [] then None
      else let (radix', s') = effective_radix s radix;
               (v, e, erange) = conv s' radix'
           in if erange then None
              else if e \<noteq> 0 \<and> e = length s' then Some v else None)"

text \<open>\<^verbatim>\<open>try_to_number_safe<T>\<close>, which \<^verbatim>\<open>try_to_number<T>\<close> is, at the buffer size of the header.\<close>

definition try_to_int64 :: "string \<Rightarrow> nat \<Rightarrow> int option" where
  "try_to_int64 s radix =
     (let str_data = prepare_number_string s radix 128 in
      if str_data = [] then None else try_to_integer_unsafe strtoll str_data radix)"

definition try_to_uint64 :: "string \<Rightarrow> nat \<Rightarrow> int option" where
  "try_to_uint64 s radix =
     (let str_data = prepare_number_string s radix 128 in
      if str_data = [] then None else try_to_integer_unsafe strtoull str_data radix)"

definition try_to_double :: "string \<Rightarrow> nat \<Rightarrow> u64 option" where
  "try_to_double s radix =
     (let str_data = prepare_number_string s radix 128 in
      if str_data = [] then None
      else let (radix', s') = effective_radix str_data radix;
               (v, e, erange) = strtod s'
           in if \<not> erange \<and> e \<noteq> 0 \<and> e = length s' then Some v else None)"

section \<open>Printed integers are read back\<close>

lemma digit_value_digit_char [simp]: "d < 10 \<Longrightarrow> digit_value (digit_char d) = d"
  by (simp add: digit_value_def digit_char_def)

lemma isdigit_digit_char [simp]: "d < 10 \<Longrightarrow> isdigit (digit_char d)"
  by (simp add: isdigit_def digit_char_def)

lemma decimal_nat_not_Nil [simp]: "decimal_nat n \<noteq> []"
  by (subst decimal_nat.simps) simp

lemma decimal_nat_digits: "c \<in> set (decimal_nat n) \<Longrightarrow> isdigit c"
proof (induction n rule: decimal_nat.induct)
  case (1 n)
  then show ?case
    by (subst (asm) decimal_nat.simps) (auto split: if_splits)
qed

lemma digits_value_snoc:
  "digits_value radix (ds @ [c]) = digits_value radix ds * radix + digit_value c"
  by (simp add: digits_value_def)

lemma digits_value_decimal [simp]: "digits_value 10 (decimal_nat n) = n"
proof (induction n rule: decimal_nat.induct)
  case (1 n)
  show ?case
  proof (cases "n < 10")
    case True
    then show ?thesis by (simp add: decimal_nat.simps [of n] digits_value_def)
  next
    case False
    with 1 show ?thesis by (simp add: decimal_nat.simps [of n] digits_value_snoc)
  qed
qed

lemma length_decimal_nat: "n < 10 ^ k \<Longrightarrow> 0 < k \<Longrightarrow> length (decimal_nat n) \<le> k"
proof (induction n arbitrary: k rule: decimal_nat.induct)
  case (1 n)
  show ?case
  proof (cases "n < 10")
    case True
    with 1 show ?thesis by (simp add: decimal_nat.simps [of n])
  next
    case False
    with 1(2,3) obtain k' where k: "k = Suc k'" "0 < k'" by (cases k; cases "k - 1") auto
    have "n div 10 < 10 ^ k'" using 1(2) k by auto
    with 1(1) [OF False] k False show ?thesis by (simp add: decimal_nat.simps [of n])
  qed
qed

lemma isdigit_radix: "isdigit c \<Longrightarrow> is_radix_digit 10 c"
  unfolding isdigit_def is_radix_digit_def digit_value_def Let_def by (simp add: less_diff_conv2)

lemma isdigit_not_special:
  "isdigit c \<Longrightarrow> \<not> isspace c" "isdigit c \<Longrightarrow> c \<noteq> CHR ''-''" "isdigit c \<Longrightarrow> c \<noteq> CHR ''+''"
  "isdigit c \<Longrightarrow> c \<noteq> CHR ''x''" "isdigit c \<Longrightarrow> c \<noteq> CHR ''X''"
  "isdigit c \<Longrightarrow> c \<noteq> CHR ''b''" "isdigit c \<Longrightarrow> c \<noteq> CHR ''B''"
  by (auto simp: isdigit_def isspace_def)

lemma decimal_nat_leading:
  "decimal_nat n ! 0 = CHR ''0'' \<Longrightarrow> length (decimal_nat n) = 1"
proof (induction n rule: decimal_nat.induct)
  case (1 n)
  show ?case
  proof (cases "n < 10")
    case False
    then have e: "decimal_nat n = decimal_nat (n div 10) @ [digit_char (n mod 10)]"
      by (simp add: decimal_nat.simps [of n])
    with 1(2) have "decimal_nat (n div 10) ! 0 = CHR ''0''" by (simp add: nth_append)
    with 1(1) [OF False] have l: "length (decimal_nat (n div 10)) = 1" by simp
    with \<open>decimal_nat (n div 10) ! 0 = CHR ''0''\<close> have "decimal_nat (n div 10) = ''0''"
      by (cases "decimal_nat (n div 10)") auto
    then have "digits_value 10 (decimal_nat (n div 10)) = 0"
      by (simp add: digits_value_def digit_value_def)
    with False show ?thesis by simp
  qed (simp add: decimal_nat.simps [of n])
qed

lemma scan_integer_digits:
  assumes "ds \<noteq> []" and "\<forall>c \<in> set ds. isdigit c"
  shows "scan_integer ds 10 = (False, digits_value 10 ds, length ds)"
proof -
  obtain c cs where ds: "ds = c # cs" and c: "isdigit c" using assms by (cases ds) auto
  have tw: "takeWhile (is_radix_digit 10) ds = ds"
    using assms isdigit_radix by (simp add: takeWhile_eq_all_conv)
  have ws: "takeWhile isspace ds = []" using c isdigit_not_special(1) by (simp add: ds)
  show ?thesis
    using isdigit_not_special(2,3) [OF c] tw
    unfolding scan_integer_def ws by (simp add: ds)
qed

lemma detect_radix_decimal: "string_detect_number_radix (decimal_nat n) = (10, decimal_nat n)"
  using decimal_nat_leading [of n] by (auto simp: string_detect_number_radix_def)

lemma try_to_int64_decimal:
  "n < 2 ^ 63 \<Longrightarrow> try_to_int64 (decimal_nat n) 0 = Some (int n)"
proof -
  assume n: "n < 2 ^ 63"
  have len: "length (decimal_nat n) \<le> 19" by (rule length_decimal_nat) (use n in simp_all)
  have sc: "scan_integer (decimal_nat n) 10 = (False, n, length (decimal_nat n))"
    by (subst scan_integer_digits) (auto intro: decimal_nat_digits)
  have "strtoll (decimal_nat n) 10 = (int n, length (decimal_nat n), False)"
    using n by (simp add: strtoll_def sc)
  then show ?thesis
    using len
    by (simp add: try_to_int64_def prepare_number_string_def try_to_integer_unsafe_def
        effective_radix_def detect_radix_decimal)
qed

end
