(* ===== verification/Variant.thy ===== *)
theory Variant
  imports Prelude NumberText
begin

text \<open>
  Values: the tagged union \<^verbatim>\<open>mc::variant\<close> (\<^verbatim>\<open>libraries/mcbase/include/mc/variant\<close>) with one
  constructor per \<^verbatim>\<open>type_id\<close>, grouped by the width for the integers, which are all stored in
  64 bits. Doubles are their IEEE 754 bit patterns. A dict is the list of its entries in
  insertion order; when two keys address the same entry is decided by the hash and the
  equality of variants, which rest on \<^verbatim>\<open>std::hash\<close>: it is the parameter \<open>same_key\<close> of the
  operations that look up a key. The last section has the little-endian byte layout of the
  machine words.
\<close>

datatype int_kind = int8_type | int16_type | int32_type | int64_type

datatype uint_kind = uint8_type | uint16_type | uint32_type | uint64_type

datatype variant =
    VNull
  | VInt int_kind i64
  | VUInt uint_kind u64
  | VDouble u64
  | VBool bool
  | VString string
  | VArray "variant list"
  | VObject "(variant \<times> variant) list"
  | VBlob string
  | VExtension string

definition is_null :: "variant \<Rightarrow> bool" where
  "is_null v \<longleftrightarrow> v = VNull"

definition is_numeric :: "variant \<Rightarrow> bool" where
  "is_numeric v \<longleftrightarrow>
     (case v of VBool _ \<Rightarrow> True | VInt _ _ \<Rightarrow> True | VUInt _ _ \<Rightarrow> True | VDouble _ \<Rightarrow> True | _ \<Rightarrow> False)"

text \<open>
  \<^verbatim>\<open>static_cast<double>\<close> of an unsigned integer from \<open>2 ^ 63\<close> on: the 53 leading bits, rounded
  to nearest with ties to even, under the exponent 63; a carry out of the mantissa moves into
  the exponent field.
\<close>

definition double_of_large_u64 :: "u64 \<Rightarrow> u64" where
  "double_of_large_u64 w =
     (let q = w div 2048; r = w mod 2048;
          m = (if r > 1024 \<or> (r = 1024 \<and> odd q) then q + 1 else q)
      in 1086 * 2 ^ 52 + (m - 2 ^ 52))"

text \<open>
  \<^verbatim>\<open>as_string()\<close>. The text of a double (\<^verbatim>\<open>%.6f\<close>), of an extension (a virtual method) and of a
  container (its JSON) is the parameter \<open>fmt\<close>.
\<close>

definition as_string :: "(variant \<Rightarrow> string) \<Rightarrow> variant \<Rightarrow> string" where
  "as_string fmt v =
     (case v of
        VString s \<Rightarrow> s
      | VInt _ i \<Rightarrow> decimal (sint i)
      | VUInt _ u \<Rightarrow> decimal (uint u)
      | VBool b \<Rightarrow> (if b then ''true'' else ''false'')
      | VNull \<Rightarrow> ''null''
      | VBlob s \<Rightarrow> s
      | _ \<Rightarrow> fmt v)"

section \<open>Dicts\<close>

fun find_entry :: "(variant \<Rightarrow> variant \<Rightarrow> bool) \<Rightarrow> (variant \<times> variant) list \<Rightarrow> variant \<Rightarrow> variant option" where
  "find_entry same_key [] key = None"
| "find_entry same_key ((k, v) # es) key = (if same_key key k then Some v else find_entry same_key es key)"

text \<open>\<^verbatim>\<open>d[key] = value\<close>: overwrites the entry of the key, or appends a new one.\<close>

fun dict_set :: "(variant \<Rightarrow> variant \<Rightarrow> bool) \<Rightarrow> variant \<Rightarrow> variant \<Rightarrow> (variant \<times> variant) list \<Rightarrow>
    (variant \<times> variant) list" where
  "dict_set same_key key v [] = [(key, v)]"
| "dict_set same_key key v ((k, w) # es) =
     (if same_key key k then (k, v) # es else (k, w) # dict_set same_key key v es)"

lemma dict_set_new:
  "\<forall>e \<in> set es. \<not> same_key key (fst e) \<Longrightarrow> dict_set same_key key v es = es @ [(key, v)]"
  by (induction es) auto

section \<open>Little-endian layout\<close>

fun le_bytes :: "nat \<Rightarrow> 'a::len word \<Rightarrow> u8 list" where
  "le_bytes 0 w = []"
| "le_bytes (Suc n) w = ucast w # le_bytes n (drop_bit 8 w)"

fun of_le_bytes :: "u8 list \<Rightarrow> 'a::len word" where
  "of_le_bytes [] = 0"
| "of_le_bytes (b # bs) = ucast b OR push_bit 8 (of_le_bytes bs)"

lemma length_le_bytes [simp]: "length (le_bytes n w) = n"
  by (induction n arbitrary: w) auto

lemma bit_of_le_bytes:
  "bit (of_le_bytes bs :: 'a::len word) i \<longleftrightarrow>
     i < LENGTH('a) \<and> i < 8 * length bs \<and> bit (bs ! (i div 8)) (i mod 8)"
proof (induction bs arbitrary: i)
  case (Cons b bs)
  show ?case
  proof (cases "i < 8")
    case True
    then show ?thesis
      by (auto simp: bit_or_iff bit_ucast_iff bit_push_bit_iff dest: bit_imp_le_length)
  next
    case False
    then have "i div 8 = Suc ((i - 8) div 8)" "i mod 8 = (i - 8) mod 8" by (simp_all add: le_div_geq le_mod_geq)
    with False Cons.IH [of "i - 8"] show ?thesis
      by (auto simp: bit_or_iff bit_ucast_iff bit_push_bit_iff dest: bit_imp_le_length)
  qed
qed simp

lemma nth_le_bytes: "k < n \<Longrightarrow> le_bytes n w ! k = ucast (drop_bit (8 * k) w)"
proof (induction n arbitrary: k w)
  case (Suc n)
  then show ?case by (cases k) (simp_all add: ac_simps)
qed simp

lemma bit_le_roundtrip:
  "bit (of_le_bytes (le_bytes n (w :: 'b::len word)) :: 'a::len word) i \<longleftrightarrow>
     i < LENGTH('a) \<and> i < 8 * n \<and> bit w i"
proof (cases "i < 8 * n")
  case True
  then have "i div 8 < n" by (simp add: less_mult_imp_div_less mult.commute)
  then have "bit (le_bytes n w ! (i div 8)) (i mod 8) \<longleftrightarrow> bit w (i mod 8 + 8 * (i div 8))"
    by (auto simp: nth_le_bytes bit_ucast_iff bit_drop_bit_eq ac_simps dest: bit_imp_le_length)
  with True show ?thesis by (simp add: bit_of_le_bytes)
next
  case False
  then show ?thesis by (simp add: bit_of_le_bytes)
qed

lemma le_roundtrip: "LENGTH('a) \<le> 8 * n \<Longrightarrow> of_le_bytes (le_bytes n w) = (w :: 'a::len word)"
  by (rule bit_word_eqI) (auto simp: bit_le_roundtrip)

end
