(* ===== verification/Serialize.thy ===== *)
theory Serialize
  imports Variant
begin

text \<open>
  The message format of the shared-memory bus, \<^verbatim>\<open>libraries/mcdbus/src/shm/serialize.cpp\<close>: the
  block-chained write buffer with its operations, the read buffer with its operations, and
  \<^verbatim>\<open>pack\<close>, \<^verbatim>\<open>unpack\<close>, \<^verbatim>\<open>serialize\<close> and \<^verbatim>\<open>deserialize\<close>. The chain of blocks is the list
  of their contents (the current block is the last). Machine words are laid out
  little-endian, as on the platforms of the repository. Reading a GVariant goes through the
  GLib conversion, the parameter \<open>to_mc_variant\<close>; the signature-directed writer, which needs
  it too, is left out.

  The recursion of \<^verbatim>\<open>read_inner\<close> runs on fuel, one unit for each level of nesting, its inner
  loops on one unit for each byte left; \<open>unpack_never_out_of_fuel\<close> shows that the length of the
  message is enough for both.
\<close>

section \<open>Constants\<close>

definition max_cookie :: nat where "max_cookie = 32"

definition block_size :: nat where "block_size = 128"

definition max_depth :: nat where "max_depth = 32"

definition cookie_number_zero :: u8 where "cookie_number_zero = 0"
definition cookie_number_byte :: u8 where "cookie_number_byte = 1"
definition cookie_number_word :: u8 where "cookie_number_word = 2"
definition cookie_number_dword :: u8 where "cookie_number_dword = 4"
definition cookie_number_qword :: u8 where "cookie_number_qword = 6"
definition cookie_number_real :: u8 where "cookie_number_real = 8"

datatype data_type =
  nil_type | boolean_type | number_type | userdata_type | short_string_type | long_string_type
  | table_type | gvariant_type

fun data_type_code :: "data_type \<Rightarrow> u8" where
  "data_type_code nil_type = 0"
| "data_type_code boolean_type = 1"
| "data_type_code number_type = 2"
| "data_type_code userdata_type = 3"
| "data_type_code short_string_type = 4"
| "data_type_code long_string_type = 5"
| "data_type_code table_type = 6"
| "data_type_code gvariant_type = 7"

definition pack_value :: "data_type \<Rightarrow> u8 \<Rightarrow> u8" where
  "pack_value t value = data_type_code t OR push_bit 3 value"

section \<open>The write buffer\<close>

record write_buffer =
  wb_blocks :: "u8 list list"
  wb_len :: nat
  wb_offset :: nat

definition new_data_block :: "u8 list" where
  "new_data_block = replicate block_size 0"

definition new_write_buffer :: write_buffer where
  "new_write_buffer = \<lparr>wb_blocks = [new_data_block], wb_len = 0, wb_offset = 0\<rparr>"

text \<open>\<^verbatim>\<open>memcpy_s(m_current->buf.data() + m_offset, ...)\<close>.\<close>

definition store_current :: "u8 list \<Rightarrow> write_buffer \<Rightarrow> write_buffer" where
  "store_current xs wb =
     wb\<lparr>wb_blocks := butlast (wb_blocks wb) @
          [take (wb_offset wb) (last (wb_blocks wb)) @ xs @
           drop (wb_offset wb + length xs) (last (wb_blocks wb))]\<rparr>"

definition next_block :: "write_buffer \<Rightarrow> write_buffer" where
  "next_block wb = wb\<lparr>wb_blocks := wb_blocks wb @ [new_data_block], wb_offset := 0\<rparr>"

lemma next_block_offset [simp]: "wb_offset (next_block wb) = 0"
  by (simp add: next_block_def)

function write_loop :: "u8 list \<Rightarrow> write_buffer \<Rightarrow> write_buffer" where
  "write_loop input wb =
     (if input = [] then wb
      else if length input \<le> block_size - wb_offset wb then
        (store_current input wb)\<lparr>wb_offset := wb_offset wb + length input, wb_len := wb_len wb + length input\<rparr>
      else
        let copy_size = block_size - wb_offset wb
        in write_loop (drop copy_size input)
             (next_block ((store_current (take copy_size input) wb)\<lparr>wb_len := wb_len wb + copy_size\<rparr>)))"
  by pat_completeness auto
termination
proof (relation "inv_image (measure id <*lex*> measure id)
    (\<lambda>(input, wb). (length input, if wb_offset wb \<ge> block_size then 1 else 0))", goal_cases)
  case 1
  then show ?case by auto
next
  case (2 input wb copy_size)
  then show ?case by (cases "wb_offset wb \<ge> block_size") (auto simp: block_size_def)
qed

declare write_loop.simps [simp del]

definition write_inner :: "u8 list \<Rightarrow> write_buffer \<Rightarrow> write_buffer" where
  "write_inner input wb =
     (let wb = (if wb_offset wb = block_size then next_block wb else wb)
      in write_loop input wb)"

fun to_string_loop :: "u8 list list \<Rightarrow> nat \<Rightarrow> u8 list" where
  "to_string_loop [] remaining = []"
| "to_string_loop (node # nodes) remaining =
     (if remaining = 0 then []
      else if remaining < block_size then take remaining node
      else node @ to_string_loop nodes (remaining - block_size))"

definition wb_to_string :: "write_buffer \<Rightarrow> u8 list" where
  "wb_to_string wb = to_string_loop (wb_blocks wb) (wb_len wb)"

section \<open>Writing values\<close>

definition write_nil :: "write_buffer \<Rightarrow> write_buffer" where
  "write_nil wb = write_inner [data_type_code nil_type] wb"

definition write_boolean :: "bool \<Rightarrow> write_buffer \<Rightarrow> write_buffer" where
  "write_boolean value wb = write_inner [pack_value boolean_type (if value then 1 else 0)] wb"

definition write_double :: "u64 \<Rightarrow> write_buffer \<Rightarrow> write_buffer" where
  "write_double value wb =
     write_inner (le_bytes 8 value) (write_inner [pack_value number_type cookie_number_real] wb)"

definition write_integer :: "i64 \<Rightarrow> write_buffer \<Rightarrow> write_buffer" where
  "write_integer value wb =
     (if value = 0 then write_inner [pack_value number_type cookie_number_zero] wb
      else if value \<noteq> scast (ucast value :: 32 word) then
        write_inner (le_bytes 8 value) (write_inner [pack_value number_type cookie_number_qword] wb)
      else if value <s 0 then
        write_inner (le_bytes 4 (ucast value :: 32 word))
          (write_inner [pack_value number_type cookie_number_dword] wb)
      else if value <s 0x100 then
        write_inner (le_bytes 1 (ucast value :: 8 word))
          (write_inner [pack_value number_type cookie_number_byte] wb)
      else if value <s 0x10000 then
        write_inner (le_bytes 2 (ucast value :: 16 word))
          (write_inner [pack_value number_type cookie_number_word] wb)
      else
        write_inner (le_bytes 4 (ucast value :: 32 word))
          (write_inner [pack_value number_type cookie_number_dword] wb))"

text \<open>Only numbers reach \<^verbatim>\<open>write_number\<close>; \<^verbatim>\<open>int64_t\<close> max is \<open>2 ^ 63 - 1\<close>.\<close>

definition write_number :: "variant \<Rightarrow> write_buffer \<Rightarrow> write_buffer" where
  "write_number arg wb =
     (case arg of
        VDouble d \<Rightarrow> write_double d wb
      | VUInt k w \<Rightarrow>
          if k = uint64_type \<and> w > 0x7FFFFFFFFFFFFFFF then write_double (double_of_large_u64 w) wb
          else write_integer w wb
      | VInt k w \<Rightarrow> write_integer w wb
      | _ \<Rightarrow> wb)"

definition bytes_of_string :: "string \<Rightarrow> u8 list" where
  "bytes_of_string s = map of_char s"

definition string_of_bytes :: "u8 list \<Rightarrow> string" where
  "string_of_bytes bs = map (\<lambda>b. char_of (unat b)) bs"

definition write_string :: "string \<Rightarrow> write_buffer \<Rightarrow> write_buffer" where
  "write_string value wb =
     (let len = length value
      in if len < max_cookie then
           let wb = write_inner [pack_value short_string_type (of_nat len)] wb
           in if len > 0 then write_inner (bytes_of_string value) wb else wb
         else if len < 0x10000 then
           write_inner (bytes_of_string value)
             (write_inner (le_bytes 2 (of_nat len :: 16 word))
               (write_inner [pack_value long_string_type 2] wb))
         else
           write_inner (bytes_of_string value)
             (write_inner (le_bytes 4 (of_nat len :: 32 word))
               (write_inner [pack_value long_string_type 4] wb)))"

definition write_table_head :: "nat \<Rightarrow> write_buffer \<Rightarrow> write_buffer" where
  "write_table_head array_size wb =
     (if array_size \<ge> max_cookie - 1 then
        write_integer (of_nat array_size)
          (write_inner [pack_value table_type (of_nat (max_cookie - 1))] wb)
      else write_inner [pack_value table_type (of_nat array_size)] wb)"

text \<open>
  \<^verbatim>\<open>write_arg\<close> with the loops of \<^verbatim>\<open>write_array\<close> and \<^verbatim>\<open>write_dict\<close>. The assertion on the
  depth comes first; a failing write throws away the buffer.
\<close>

function (sequential) write_arg :: "variant \<Rightarrow> nat \<Rightarrow> write_buffer \<Rightarrow> write_buffer result"
  and write_items :: "variant list \<Rightarrow> nat \<Rightarrow> write_buffer \<Rightarrow> write_buffer result"
  and write_entries :: "(variant \<times> variant) list \<Rightarrow> nat \<Rightarrow> write_buffer \<Rightarrow> write_buffer result" where
  "write_arg arg depth wb =
     (if \<not> depth \<le> max_depth then Inl assert_exception
      else case arg of
        VNull \<Rightarrow> Inr (write_nil wb)
      | VBool b \<Rightarrow> Inr (write_boolean b wb)
      | VInt k w \<Rightarrow> Inr (write_number (VInt k w) wb)
      | VUInt k w \<Rightarrow> Inr (write_number (VUInt k w) wb)
      | VDouble d \<Rightarrow> Inr (write_number (VDouble d) wb)
      | VString s \<Rightarrow> Inr (write_string s wb)
      | VBlob s \<Rightarrow> Inr (write_string s wb)
      | VArray vs \<Rightarrow>
          bind_result (write_items vs (depth + 1) (write_table_head (length vs) wb))
            (\<lambda>wb. Inr (write_nil wb))
      | VObject es \<Rightarrow>
          bind_result (write_entries es (depth + 1) (write_inner [pack_value table_type 0] wb))
            (\<lambda>wb. Inr (write_nil wb))
      | VExtension _ \<Rightarrow> Inl invalid_arg_exception)"
| "write_items [] depth wb = Inr wb"
| "write_items (v # vs) depth wb = bind_result (write_arg v depth wb) (write_items vs depth)"
| "write_entries [] depth wb = Inr wb"
| "write_entries ((k, v) # es) depth wb =
     bind_result (write_arg k depth wb)
       (\<lambda>wb. bind_result (write_arg v depth wb) (write_entries es depth))"
  by pat_completeness auto
termination
  by (relation "measure (case_sum (\<lambda>(v, _, _). size v)
        (case_sum (\<lambda>(vs, _, _). size_list size vs) (\<lambda>(es, _, _). size_list (size_prod size size) es)))")
    auto

declare write_arg.simps [simp del]

definition pack :: "variant list \<Rightarrow> u8 list result" where
  "pack args = bind_result (write_items args 0 new_write_buffer) (\<lambda>wb. Inr (wb_to_string wb))"

text \<open>
  \<^verbatim>\<open>memcpy_s\<close> as C11 Annex K documents it: it copies when the source fits, and otherwise
  clears the destination. The length field is 32 bits wide.
\<close>

definition serialize :: "variant list \<Rightarrow> u8 list result" where
  "serialize args =
     bind_result (pack args) (\<lambda>bs.
       let sz = of_nat (4 + length bs) :: u32;
           room = unat sz - 4
       in if unat sz < 4 then Inl undefined_behaviour
          else Inr (le_bytes 4 sz @ (if length bs \<le> room then bs @ replicate (room - length bs) 0
                                     else replicate room 0)))"

section \<open>The read buffer\<close>

record read_buffer =
  rb_buf :: "u8 list"
  rb_offset :: nat

type_synonym 'a reader = "read_buffer \<Rightarrow> ('a \<times> read_buffer) result"

definition rb_read :: "nat \<Rightarrow> read_buffer \<Rightarrow> u8 list option \<times> read_buffer" where
  "rb_read n rb =
     (if n > length (rb_buf rb) - rb_offset rb then (None, rb)
      else (Some (substr (rb_buf rb) (rb_offset rb) n), rb\<lparr>rb_offset := rb_offset rb + n\<rparr>))"

text \<open>A read whose result is asserted not to be null.\<close>

definition read_checked :: "nat \<Rightarrow> u8 list reader" where
  "read_checked n rb =
     (case rb_read n rb of (None, _) \<Rightarrow> Inl assert_exception | (Some bs, rb) \<Rightarrow> Inr (bs, rb))"

definition read_integer :: "u8 \<Rightarrow> i64 reader" where
  "read_integer cookie rb =
     (if cookie = cookie_number_zero then Inr (0, rb)
      else if cookie = cookie_number_byte then
        bind_result (read_checked 1 rb) (\<lambda>(bs, rb). Inr (ucast (of_le_bytes bs :: 8 word), rb))
      else if cookie = cookie_number_word then
        bind_result (read_checked 2 rb) (\<lambda>(bs, rb). Inr (ucast (of_le_bytes bs :: 16 word), rb))
      else if cookie = cookie_number_dword then
        bind_result (read_checked 4 rb) (\<lambda>(bs, rb). Inr (scast (of_le_bytes bs :: 32 word), rb))
      else if cookie = cookie_number_qword then
        bind_result (read_checked 8 rb) (\<lambda>(bs, rb). Inr (of_le_bytes bs, rb))
      else Inr (0, rb))"

definition read_double :: "u64 reader" where
  "read_double rb = bind_result (read_checked 8 rb) (\<lambda>(bs, rb). Inr (of_le_bytes bs, rb))"

definition read_pointer :: "u64 reader" where
  "read_pointer rb = bind_result (read_checked 8 rb) (\<lambda>(bs, rb). Inr (of_le_bytes bs, rb))"

definition read_string :: "nat \<Rightarrow> string reader" where
  "read_string len rb = bind_result (read_checked len rb) (\<lambda>(bs, rb). Inr (string_of_bytes bs, rb))"

text \<open>
  The size field is dereferenced without a test for null. A negative size converts to a huge
  one, which the buffer never holds; a positive size without its data leaves the zeroed
  allocation.
\<close>

definition read_gvariant :: "(u8 list \<Rightarrow> u8 list \<Rightarrow> variant option) \<Rightarrow> nat \<Rightarrow> variant reader" where
  "read_gvariant to_mc_variant len rb =
     bind_result (read_checked (len + 1) rb) (\<lambda>(t, rb).
       case rb_read 4 rb of
         (None, _) \<Rightarrow> Inl undefined_behaviour
       | (Some bs, rb) \<Rightarrow>
           let n = sint (of_le_bytes bs :: 32 word);
               (data, rb) = (if n < 0 then (None, rb) else rb_read (nat n) rb);
               p_data = (if n > 0 then
                           (case data of Some ds \<Rightarrow> ds | None \<Rightarrow> replicate (nat n) 0)
                         else [])
           in if 0 \<notin> set t then Inl undefined_behaviour
              else case to_mc_variant t p_data of
                None \<Rightarrow> Inl runtime_exception
              | Some v \<Rightarrow> Inr (v, rb))"

section \<open>Reading values\<close>

text \<open>
  \<open>rd\<close> is the recursive call of \<^verbatim>\<open>read_inner\<close>.
\<close>

fun read_items :: "variant reader \<Rightarrow> nat \<Rightarrow> variant list reader" where
  "read_items rd 0 rb = Inr ([], rb)"
| "read_items rd (Suc n) rb =
     bind_result (rd rb) (\<lambda>(v, rb). bind_result (read_items rd n rb) (\<lambda>(vs, rb). Inr (v # vs, rb)))"

fun set_indices :: "(variant \<Rightarrow> variant \<Rightarrow> bool) \<Rightarrow> nat \<Rightarrow> variant list \<Rightarrow> (variant \<times> variant) list \<Rightarrow>
    (variant \<times> variant) list" where
  "set_indices same_key i [] d = d"
| "set_indices same_key i (v # vs) d =
     set_indices same_key (Suc i) vs (dict_set same_key (VInt int64_type (of_nat i)) v d)"

fun read_pairs :: "(variant \<Rightarrow> variant \<Rightarrow> bool) \<Rightarrow> variant reader \<Rightarrow> nat \<Rightarrow> variant \<Rightarrow>
    (variant \<times> variant) list \<Rightarrow> (variant \<times> variant) list reader" where
  "read_pairs same_key rd 0 key d rb = Inl out_of_fuel"
| "read_pairs same_key rd (Suc fuel) key d rb =
     bind_result (rd rb) (\<lambda>(value, rb).
       let d = dict_set same_key key value d
       in bind_result (rd rb) (\<lambda>(key, rb).
            if is_null key then Inr (d, rb) else read_pairs same_key rd fuel key d rb))"

definition bytes_left :: "read_buffer \<Rightarrow> nat" where
  "bytes_left rb = length (rb_buf rb) - rb_offset rb"

definition read_table_size :: "u8 \<Rightarrow> i64 reader" where
  "read_table_size cookie rb =
     (if cookie = of_nat (max_cookie - 1) then
        bind_result (read_checked 1 rb) (\<lambda>(bs, rb).
          let type = hd bs; cookie = drop_bit 3 type
          in if type AND 7 = data_type_code number_type \<and> cookie \<noteq> cookie_number_real
             then read_integer cookie rb else Inl assert_exception)
      else Inr (ucast cookie, rb))"

definition read_table :: "(variant \<Rightarrow> variant \<Rightarrow> bool) \<Rightarrow> variant reader \<Rightarrow> u8 \<Rightarrow> variant reader" where
  "read_table same_key rd cookie rb =
     bind_result (read_table_size cookie rb) (\<lambda>(array_size, rb).
       bind_result (read_items rd (nat (sint array_size)) rb) (\<lambda>(arr, rb).
         bind_result (rd rb) (\<lambda>(key, rb).
           if is_null key then Inr (VArray arr, rb)
           else
             let d = set_indices same_key 1 arr []
             in bind_result (read_pairs same_key rd (Suc (bytes_left rb)) key d rb)
                  (\<lambda>(d, rb). Inr (VObject d, rb)))))"

definition read_value :: "(u8 list \<Rightarrow> u8 list \<Rightarrow> variant option) \<Rightarrow> (variant \<Rightarrow> variant \<Rightarrow> bool) \<Rightarrow>
    variant reader \<Rightarrow> u8 \<Rightarrow> u8 \<Rightarrow> variant reader" where
  "read_value to_mc_variant same_key rd type cookie rb =
     (if type \<ge> 8 then Inl invalid_arg_exception
      else if type = data_type_code nil_type then Inr (VNull, rb)
      else if type = data_type_code boolean_type then Inr (VBool (cookie \<noteq> 0), rb)
      else if type = data_type_code number_type then
        (if cookie = cookie_number_real
         then bind_result (read_double rb) (\<lambda>(d, rb). Inr (VDouble d, rb))
         else bind_result (read_integer cookie rb) (\<lambda>(n, rb). Inr (VInt int64_type n, rb)))
      else if type = data_type_code userdata_type then
        bind_result (read_pointer rb) (\<lambda>(p, rb). Inr (VUInt uint64_type p, rb))
      else if type = data_type_code short_string_type then
        bind_result (read_string (unat cookie) rb) (\<lambda>(s, rb). Inr (VString s, rb))
      else if type = data_type_code long_string_type then
        (if cookie = 2 then
           bind_result (read_checked 2 rb) (\<lambda>(bs, rb).
             bind_result (read_string (unat (of_le_bytes bs :: 16 word)) rb) (\<lambda>(s, rb). Inr (VString s, rb)))
         else if cookie \<noteq> 4 then Inl invalid_arg_exception
         else
           bind_result (read_checked 4 rb) (\<lambda>(bs, rb).
             bind_result (read_string (unat (of_le_bytes bs :: 32 word)) rb) (\<lambda>(s, rb). Inr (VString s, rb))))
      else if type = data_type_code table_type then read_table same_key rd cookie rb
      else if type = data_type_code gvariant_type then read_gvariant to_mc_variant (unat cookie) rb
      else Inl invalid_arg_exception)"

fun read_inner :: "(u8 list \<Rightarrow> u8 list \<Rightarrow> variant option) \<Rightarrow> (variant \<Rightarrow> variant \<Rightarrow> bool) \<Rightarrow>
    nat \<Rightarrow> variant reader" where
  "read_inner to_mc_variant same_key 0 rb = Inl out_of_fuel"
| "read_inner to_mc_variant same_key (Suc fuel) rb =
     bind_result (read_checked 1 rb) (\<lambda>(bs, rb).
       read_value to_mc_variant same_key (read_inner to_mc_variant same_key fuel)
         (hd bs AND 7) (drop_bit 3 (hd bs)) rb)"

fun unpack_loop :: "(u8 list \<Rightarrow> u8 list \<Rightarrow> variant option) \<Rightarrow> (variant \<Rightarrow> variant \<Rightarrow> bool) \<Rightarrow>
    nat \<Rightarrow> read_buffer \<Rightarrow> variant list result" where
  "unpack_loop to_mc_variant same_key 0 rb = Inl out_of_fuel"
| "unpack_loop to_mc_variant same_key (Suc fuel) rb =
     (case rb_read 1 rb of
        (None, _) \<Rightarrow> Inr []
      | (Some bs, rb) \<Rightarrow>
          bind_result
            (read_value to_mc_variant same_key
               (read_inner to_mc_variant same_key (length (rb_buf rb)))
               (hd bs AND 7) (drop_bit 3 (hd bs)) rb)
            (\<lambda>(v, rb). bind_result (unpack_loop to_mc_variant same_key fuel rb) (\<lambda>vs. Inr (v # vs))))"

definition unpack :: "(u8 list \<Rightarrow> u8 list \<Rightarrow> variant option) \<Rightarrow> (variant \<Rightarrow> variant \<Rightarrow> bool) \<Rightarrow>
    u8 list \<Rightarrow> variant list result" where
  "unpack to_mc_variant same_key msg =
     unpack_loop to_mc_variant same_key (Suc (length msg)) \<lparr>rb_buf = msg, rb_offset = 0\<rparr>"

definition deserialize :: "(u8 list \<Rightarrow> u8 list \<Rightarrow> variant option) \<Rightarrow> (variant \<Rightarrow> variant \<Rightarrow> bool) \<Rightarrow>
    u8 list \<Rightarrow> variant list result" where
  "deserialize to_mc_variant same_key msg =
     (if length msg < 4 then Inl invalid_arg_exception
      else unpack to_mc_variant same_key (drop 4 msg))"

section \<open>The write buffer appends\<close>

text \<open>What the writers rely on: a sink whose content grows by what is written to it.\<close>

locale byte_sink =
  fixes put :: "u8 list \<Rightarrow> 'b \<Rightarrow> 'b"
    and content :: "'b \<Rightarrow> u8 list"
    and ok :: "'b \<Rightarrow> bool"
  assumes put_ok: "ok b \<Longrightarrow> ok (put xs b)"
    and put_content: "ok b \<Longrightarrow> content (put xs b) = content b @ xs"
begin

lemma put_two:
  "ok b \<Longrightarrow> ok (put ys (put xs b)) \<and> content (put ys (put xs b)) = content b @ xs @ ys"
  by (simp add: put_ok put_content)

lemma put_three:
  "ok b \<Longrightarrow> ok (put zs (put ys (put xs b))) \<and>
     content (put zs (put ys (put xs b))) = content b @ xs @ ys @ zs"
  by (simp add: put_ok put_content)

end

definition wb_ok :: "write_buffer \<Rightarrow> bool" where
  "wb_ok wb \<longleftrightarrow> wb_blocks wb \<noteq> [] \<and> (\<forall>b \<in> set (wb_blocks wb). length b = block_size) \<and>
     wb_offset wb \<le> block_size \<and> wb_len wb = block_size * (length (wb_blocks wb) - 1) + wb_offset wb"

definition wb_content :: "write_buffer \<Rightarrow> u8 list" where
  "wb_content wb = concat (butlast (wb_blocks wb)) @ take (wb_offset wb) (last (wb_blocks wb))"

lemma wb_cases:
  assumes "wb_ok wb"
  obtains bs b where "wb_blocks wb = bs @ [b]" "\<forall>x \<in> set bs. length x = block_size" "length b = block_size"
    "wb_offset wb \<le> block_size" "wb_len wb = block_size * length bs + wb_offset wb"
proof -
  from assms have ne: "wb_blocks wb \<noteq> []" by (simp add: wb_ok_def)
  then obtain bs b where b: "wb_blocks wb = bs @ [b]" by (metis append_butlast_last_id)
  with assms show thesis by (intro that [of bs b]) (auto simp: wb_ok_def)
qed

lemma wb_ok_len: "wb_ok wb \<Longrightarrow> length (wb_content wb) = wb_len wb"
proof -
  assume "wb_ok wb"
  then obtain bs b where *: "wb_blocks wb = bs @ [b]" "\<forall>x \<in> set bs. length x = block_size" "length b = block_size"
    "wb_offset wb \<le> block_size" "wb_len wb = block_size * length bs + wb_offset wb" by (rule wb_cases)
  have "length (concat bs) = block_size * length bs"
    using *(2) by (induction bs) (auto simp: algebra_simps)
  with * show ?thesis by (simp add: wb_content_def)
qed

lemma store_current_append:
  assumes "wb_ok wb" and "wb_offset wb + length xs \<le> block_size"
  defines "wb' \<equiv> (store_current xs wb)\<lparr>wb_offset := wb_offset wb + length xs, wb_len := wb_len wb + length xs\<rparr>"
  shows "wb_ok wb' \<and> wb_content wb' = wb_content wb @ xs"
proof -
  from assms(1) obtain bs b where *: "wb_blocks wb = bs @ [b]" "\<forall>x \<in> set bs. length x = block_size"
    "length b = block_size" "wb_offset wb \<le> block_size" "wb_len wb = block_size * length bs + wb_offset wb"
    by (rule wb_cases)
  with assms(2) show ?thesis
    by (simp add: wb'_def store_current_def wb_ok_def wb_content_def)
qed

lemma next_block_content:
  assumes "wb_ok wb" and "wb_offset wb = block_size"
  shows "wb_ok (next_block wb) \<and> wb_content (next_block wb) = wb_content wb"
proof -
  from assms(1) obtain bs b where *: "wb_blocks wb = bs @ [b]" "\<forall>x \<in> set bs. length x = block_size"
    "length b = block_size" "wb_offset wb \<le> block_size" "wb_len wb = block_size * length bs + wb_offset wb"
    by (rule wb_cases)
  with assms(2) show ?thesis
    by (simp add: next_block_def wb_ok_def wb_content_def new_data_block_def butlast_append)
qed

lemma next_block_swap:
  "next_block (wb\<lparr>wb_offset := k, wb_len := n\<rparr>) = next_block (wb\<lparr>wb_len := n\<rparr>)"
  by (simp add: next_block_def)

lemma write_loop_append:
  "wb_ok wb \<Longrightarrow> wb_ok (write_loop input wb) \<and> wb_content (write_loop input wb) = wb_content wb @ input"
proof (induction input wb rule: write_loop.induct)
  case (1 input wb)
  show ?case
  proof (cases "input = [] \<or> length input \<le> block_size - wb_offset wb")
    case True
    have "wb_offset wb \<le> block_size" using "1.prems" by (simp add: wb_ok_def)
    with True store_current_append [OF "1.prems", of input] "1.prems" show ?thesis
      by (subst (1 2) write_loop.simps) auto
  next
    case False
    let ?k = "block_size - wb_offset wb"
    let ?full = "(store_current (take ?k input) wb)\<lparr>wb_offset := block_size, wb_len := wb_len wb + ?k\<rparr>"
    let ?next = "next_block ((store_current (take ?k input) wb)\<lparr>wb_len := wb_len wb + ?k\<rparr>)"
    have off: "wb_offset wb \<le> block_size" using "1.prems" by (simp add: wb_ok_def)
    from False off have "wb_ok ?full \<and> wb_content ?full = wb_content wb @ take ?k input"
      using store_current_append [OF "1.prems", of "take ?k input"] by simp
    then have "wb_ok ?next \<and> wb_content ?next = wb_content wb @ take ?k input"
      using next_block_content [of ?full] by (simp add: next_block_swap)
    moreover have "write_loop input wb = write_loop (drop ?k input) ?next"
      using False by (subst write_loop.simps) (simp add: Let_def)
    ultimately show ?thesis using "1.IH" [of ?k] False by simp
  qed
qed

lemma write_inner_append:
  "wb_ok wb \<Longrightarrow> wb_ok (write_inner xs wb) \<and> wb_content (write_inner xs wb) = wb_content wb @ xs"
  using write_loop_append [of wb xs] write_loop_append [of "next_block wb" xs] next_block_content [of wb]
  by (auto simp: write_inner_def Let_def)

interpretation wb: byte_sink write_inner wb_content wb_ok
  by unfold_locales (simp_all add: write_inner_append)

lemma new_write_buffer_ok: "wb_ok new_write_buffer \<and> wb_content new_write_buffer = []"
  by (simp add: new_write_buffer_def wb_ok_def wb_content_def new_data_block_def)

lemma to_string_loop_blocks:
  "\<forall>x \<in> set bs. length x = block_size \<Longrightarrow> length b = block_size \<Longrightarrow> off \<le> block_size \<Longrightarrow>
     to_string_loop (bs @ [b]) (block_size * length bs + off) = concat bs @ take off b"
  by (induction bs) (auto simp: block_size_def)

lemma wb_to_string_content: "wb_ok wb \<Longrightarrow> wb_to_string wb = wb_content wb"
  by (erule wb_cases) (simp add: wb_to_string_def wb_content_def to_string_loop_blocks)

text \<open>
  C3. The chained write buffer is a byte sink: whatever sequence of chunks is written to a fresh
  buffer, over however many blocks, the resulting string is their concatenation.
\<close>

theorem write_buffer_refines_append:
  "wb_to_string (fold write_inner chunks new_write_buffer) = concat chunks"
proof -
  have "wb_ok wb \<Longrightarrow> wb_ok (fold write_inner chunks wb) \<and>
      wb_content (fold write_inner chunks wb) = wb_content wb @ concat chunks" for wb
    by (induction chunks arbitrary: wb) (simp_all add: write_inner_append)
  from this [of new_write_buffer] new_write_buffer_ok wb_to_string_content show ?thesis by simp
qed

section \<open>The bytes of a value\<close>

definition integer_bytes :: "i64 \<Rightarrow> u8 list" where
  "integer_bytes v =
     (if v = 0 then [pack_value number_type cookie_number_zero]
      else if v \<noteq> scast (ucast v :: 32 word) then pack_value number_type cookie_number_qword # le_bytes 8 v
      else if v <s 0 then pack_value number_type cookie_number_dword # le_bytes 4 (ucast v :: 32 word)
      else if v <s 0x100 then pack_value number_type cookie_number_byte # le_bytes 1 (ucast v :: 8 word)
      else if v <s 0x10000 then pack_value number_type cookie_number_word # le_bytes 2 (ucast v :: 16 word)
      else pack_value number_type cookie_number_dword # le_bytes 4 (ucast v :: 32 word))"

definition double_bytes :: "u64 \<Rightarrow> u8 list" where
  "double_bytes d = pack_value number_type cookie_number_real # le_bytes 8 d"

definition string_bytes :: "string \<Rightarrow> u8 list" where
  "string_bytes s =
     (if length s < max_cookie then pack_value short_string_type (of_nat (length s)) # bytes_of_string s
      else if length s < 0x10000 then
        pack_value long_string_type 2 # le_bytes 2 (of_nat (length s) :: 16 word) @ bytes_of_string s
      else
        pack_value long_string_type 4 # le_bytes 4 (of_nat (length s) :: 32 word) @ bytes_of_string s)"

definition table_head_bytes :: "nat \<Rightarrow> u8 list" where
  "table_head_bytes n =
     (if n \<ge> max_cookie - 1 then pack_value table_type (of_nat (max_cookie - 1)) # integer_bytes (of_nat n)
      else [pack_value table_type (of_nat n)])"

primrec value_bytes :: "variant \<Rightarrow> u8 list" where
  "value_bytes VNull = [data_type_code nil_type]"
| "value_bytes (VInt k w) = integer_bytes w"
| "value_bytes (VUInt k w) =
     (if k = uint64_type \<and> w > 0x7FFFFFFFFFFFFFFF then double_bytes (double_of_large_u64 w) else integer_bytes w)"
| "value_bytes (VDouble d) = double_bytes d"
| "value_bytes (VBool b) = [pack_value boolean_type (if b then 1 else 0)]"
| "value_bytes (VString s) = string_bytes s"
| "value_bytes (VArray vs) =
     table_head_bytes (length vs) @ concat (map value_bytes vs) @ [data_type_code nil_type]"
| "value_bytes (VObject es) =
     pack_value table_type 0 #
       concat (map (\<lambda>(k, v). k @ v) (map (map_prod value_bytes value_bytes) es)) @ [data_type_code nil_type]"
| "value_bytes (VBlob s) = string_bytes s"
| "value_bytes (VExtension s) = []"

definition entries_bytes :: "(variant \<times> variant) list \<Rightarrow> u8 list" where
  "entries_bytes es = concat (map (\<lambda>e. value_bytes (fst e) @ value_bytes (snd e)) es)"

lemma value_bytes_object:
  "value_bytes (VObject es) = pack_value table_type 0 # entries_bytes es @ [data_type_code nil_type]"
  by (simp add: entries_bytes_def map_prod_def split_beta comp_def)

text \<open>The nesting of a value, and the values without extensions.\<close>

primrec nesting :: "variant \<Rightarrow> nat" where
  "nesting VNull = 0"
| "nesting (VInt k w) = 0"
| "nesting (VUInt k w) = 0"
| "nesting (VDouble d) = 0"
| "nesting (VBool b) = 0"
| "nesting (VString s) = 0"
| "nesting (VArray vs) = foldr (\<lambda>n m. max (Suc n) m) (map nesting vs) 0"
| "nesting (VObject es) =
     foldr (\<lambda>(m, n) l. max (max (Suc m) (Suc n)) l) (map (map_prod nesting nesting) es) 0"
| "nesting (VBlob s) = 0"
| "nesting (VExtension s) = 0"

primrec extension_free :: "variant \<Rightarrow> bool" where
  "extension_free VNull = True"
| "extension_free (VInt k w) = True"
| "extension_free (VUInt k w) = True"
| "extension_free (VDouble d) = True"
| "extension_free (VBool b) = True"
| "extension_free (VString s) = True"
| "extension_free (VArray vs) = list_all id (map extension_free vs)"
| "extension_free (VObject es) = list_all (\<lambda>(p, q). p \<and> q) (map (map_prod extension_free extension_free) es)"
| "extension_free (VBlob s) = True"
| "extension_free (VExtension s) = False"

lemma foldr_max_le: "foldr (\<lambda>n m. max (Suc n) m) ns 0 \<le> (k::nat) \<longleftrightarrow> (\<forall>n \<in> set ns. Suc n \<le> k)"
  by (induction ns) auto

lemma nesting_array: "nesting (VArray vs) \<le> k \<longleftrightarrow> (\<forall>v \<in> set vs. Suc (nesting v) \<le> k)"
  by (simp add: foldr_max_le)

lemma nesting_object:
  "nesting (VObject es) \<le> k \<longleftrightarrow>
     (\<forall>e \<in> set es. Suc (nesting (fst e)) \<le> k \<and> Suc (nesting (snd e)) \<le> k)"
  by (induction es) auto

lemma extension_free_simps:
  "extension_free (VArray vs) \<longleftrightarrow> (\<forall>v \<in> set vs. extension_free v)"
  "extension_free (VObject es) \<longleftrightarrow> (\<forall>e \<in> set es. extension_free (fst e) \<and> extension_free (snd e))"
  by (auto simp: list_all_iff)

section \<open>Writing produces the bytes of the value\<close>

text \<open>An operation that appends \<open>xs\<close> to a well-formed buffer.\<close>

definition appends :: "(write_buffer \<Rightarrow> write_buffer) \<Rightarrow> u8 list \<Rightarrow> bool" where
  "appends f xs \<longleftrightarrow> (\<forall>wb. wb_ok wb \<longrightarrow> wb_ok (f wb) \<and> wb_content (f wb) = wb_content wb @ xs)"

lemma appendsD: "appends f xs \<Longrightarrow> wb_ok wb \<Longrightarrow> wb_ok (f wb) \<and> wb_content (f wb) = wb_content wb @ xs"
  by (simp add: appends_def)

lemma write_append_facts:
  "appends write_nil [data_type_code nil_type]"
  "appends (write_boolean b) [pack_value boolean_type (if b then 1 else 0)]"
  "appends (write_double d) (double_bytes d)"
  "appends (write_integer v) (integer_bytes v)"
  "appends (write_string s) (string_bytes s)"
  by (simp_all add: appends_def write_nil_def write_boolean_def write_double_def double_bytes_def
      write_integer_def integer_bytes_def write_string_def string_bytes_def bytes_of_string_def
      wb.put_ok wb.put_content Let_def)

lemma write_table_head_append: "appends (write_table_head n) (table_head_bytes n)"
  using write_append_facts(4) [of "of_nat n"]
  by (auto simp: appends_def write_table_head_def table_head_bytes_def wb.put_ok wb.put_content)

text \<open>
  Every outcome of the writers: on success the buffer has grown by the bytes of the value, and
  success means that the nesting stays within the limit and no extension occurs.
\<close>

definition write_outcome :: "write_buffer \<Rightarrow> u8 list \<Rightarrow> bool \<Rightarrow> write_buffer result \<Rightarrow> bool" where
  "write_outcome wb xs good r \<longleftrightarrow>
     (if good then \<exists>wb'. r = Inr wb' \<and> wb_ok wb' \<and> wb_content wb' = wb_content wb @ xs else isl r)"

lemma write_outcome_simple:
  "appends f xs \<Longrightarrow> wb_ok wb \<Longrightarrow> write_outcome wb xs True (Inr (f wb))"
  by (simp add: write_outcome_def appends_def)

lemma write_outcome_bind:
  assumes "write_outcome wb xs p r"
    and "\<And>wb'. wb_ok wb' \<Longrightarrow> write_outcome wb' ys q (f wb')"
  shows "write_outcome wb (xs @ ys) (p \<and> q) (bind_result r f)"
proof (cases p)
  case True
  with assms(1) obtain wb' where r: "r = Inr wb'" "wb_ok wb'" "wb_content wb' = wb_content wb @ xs"
    by (auto simp: write_outcome_def)
  from assms(2) [OF r(2)] True r show ?thesis by (auto simp: write_outcome_def)
next
  case False
  with assms(1) show ?thesis by (cases r) (simp_all add: write_outcome_def)
qed

lemma write_outcome_after:
  assumes "appends f xs" and "wb_ok wb" and "write_outcome (f wb) ys q r"
  shows "write_outcome wb (xs @ ys) q r"
  using appendsD [OF assms(1,2)] assms(3) by (auto simp: write_outcome_def)

lemma write_outcome_nil:
  assumes "write_outcome wb xs p r"
  shows "write_outcome wb (xs @ [data_type_code nil_type]) p (bind_result r (\<lambda>wb. Inr (write_nil wb)))"
  using write_outcome_bind [OF assms write_outcome_simple [OF write_append_facts(1)]] by simp

lemma write_arg_outcomes:
  "wb_ok wb \<Longrightarrow> write_outcome wb (value_bytes v) (d + nesting v \<le> max_depth \<and> extension_free v) (write_arg v d wb)"
  "wb_ok wb \<Longrightarrow> write_outcome wb (concat (map value_bytes vs))
     (\<forall>v \<in> set vs. d + nesting v \<le> max_depth \<and> extension_free v) (write_items vs d wb)"
  "wb_ok wb \<Longrightarrow> write_outcome wb (entries_bytes es)
     (\<forall>e \<in> set es. (d + nesting (fst e) \<le> max_depth \<and> extension_free (fst e)) \<and>
                     d + nesting (snd e) \<le> max_depth \<and> extension_free (snd e)) (write_entries es d wb)"
proof (induction v d wb and vs d wb and es d wb rule: write_arg_write_items_write_entries.induct)
  case (1 v d wb)
  show ?case
  proof (cases "d \<le> max_depth")
    case False
    then show ?thesis by (simp add: write_arg.simps write_outcome_def)
  next
    case depth: True
    show ?thesis
    proof (cases v)
      case (VArray vs)
      have "write_outcome (write_table_head (length vs) wb) (concat (map value_bytes vs))
          (\<forall>v \<in> set vs. Suc d + nesting v \<le> max_depth \<and> extension_free v)
          (write_items vs (d + 1) (write_table_head (length vs) wb))"
        using "1.IH"(1) [OF _ VArray] depth appendsD [OF write_table_head_append "1.prems"] by simp
      note out = write_outcome_after [OF write_table_head_append "1.prems" write_outcome_nil [OF this]]
      have "(\<forall>v \<in> set vs. Suc d + nesting v \<le> max_depth \<and> extension_free v) \<longleftrightarrow>
          d + nesting (VArray vs) \<le> max_depth \<and> extension_free (VArray vs)"
        using nesting_array [of vs "max_depth - d"] depth extension_free_simps(1) [of vs]
        by (auto simp: le_diff_conv2 simp del: nesting.simps)
      with out depth show ?thesis by (simp add: VArray write_arg.simps)
    next
      case (VObject es)
      let ?wb = "write_inner [pack_value table_type 0] wb"
      have "write_outcome ?wb (entries_bytes es)
          (\<forall>e \<in> set es. (Suc d + nesting (fst e) \<le> max_depth \<and> extension_free (fst e)) \<and>
                          Suc d + nesting (snd e) \<le> max_depth \<and> extension_free (snd e))
          (write_entries es (d + 1) ?wb)"
        using "1.IH"(2) [OF _ VObject] depth "1.prems" by (simp add: wb.put_ok)
      moreover have "appends (write_inner [pack_value table_type 0]) [pack_value table_type 0]"
        by (simp add: appends_def wb.put_ok wb.put_content)
      ultimately have out: "write_outcome wb (value_bytes (VObject es))
          (\<forall>e \<in> set es. (Suc d + nesting (fst e) \<le> max_depth \<and> extension_free (fst e)) \<and>
                          Suc d + nesting (snd e) \<le> max_depth \<and> extension_free (snd e))
          (bind_result (write_entries es (d + 1) ?wb) (\<lambda>wb. Inr (write_nil wb)))"
        using write_outcome_after [OF _ "1.prems" write_outcome_nil] value_bytes_object by fastforce
      have "(\<forall>e \<in> set es. (Suc d + nesting (fst e) \<le> max_depth \<and> extension_free (fst e)) \<and>
                          Suc d + nesting (snd e) \<le> max_depth \<and> extension_free (snd e)) \<longleftrightarrow>
          d + nesting (VObject es) \<le> max_depth \<and> extension_free (VObject es)"
        using nesting_object [of es "max_depth - d"] depth extension_free_simps(2) [of es]
        by (auto simp: le_diff_conv2 simp del: nesting.simps)
      with out depth show ?thesis by (simp add: VObject write_arg.simps del: value_bytes.simps)
    qed (use depth "1.prems" write_append_facts in
        \<open>auto simp: write_arg.simps write_number_def write_outcome_def appends_def\<close>)
  qed
next
  case (3 v vs d wb)
  from write_outcome_bind [OF "3.IH"(1) [OF "3.prems"] "3.IH"(2)] show ?case by simp
next
  case (5 k v es d wb)
  from write_outcome_bind [OF "5.IH"(1) [OF "5.prems"] write_outcome_bind [OF "5.IH"(2) "5.IH"(3)]]
  show ?case by (simp add: entries_bytes_def conj_assoc)
qed (simp_all add: write_outcome_def entries_bytes_def)

lemma pack_bytes:
  "pack args = Inr bs \<longleftrightarrow>
     (\<forall>v \<in> set args. nesting v \<le> max_depth \<and> extension_free v) \<and> bs = concat (map value_bytes args)"
proof -
  from new_write_buffer_ok have "wb_ok new_write_buffer" "wb_content new_write_buffer = []" by auto
  with write_arg_outcomes(2) [of new_write_buffer args 0]
  have "if \<forall>v \<in> set args. nesting v \<le> max_depth \<and> extension_free v
        then \<exists>wb'. write_items args 0 new_write_buffer = Inr wb' \<and> wb_ok wb' \<and> wb_content wb' = concat (map value_bytes args)
        else isl (write_items args 0 new_write_buffer)"
    by (auto simp: write_outcome_def)
  then show ?thesis
    by (cases "write_items args 0 new_write_buffer") (auto simp: pack_def wb_to_string_content split: if_splits)
qed

section \<open>Reading bytes\<close>

text \<open>The reader stands before the bytes \<open>xs\<close>, which run to the end of the message.\<close>

definition at_bytes :: "read_buffer \<Rightarrow> u8 list \<Rightarrow> bool" where
  "at_bytes rb xs \<longleftrightarrow> rb_offset rb \<le> length (rb_buf rb) \<and> drop (rb_offset rb) (rb_buf rb) = xs"

definition advance :: "nat \<Rightarrow> read_buffer \<Rightarrow> read_buffer" where
  "advance n rb = rb\<lparr>rb_offset := rb_offset rb + n\<rparr>"

lemma advance_advance [simp]: "advance m (advance n rb) = advance (n + m) rb"
  by (simp add: advance_def add.assoc)

lemma advance_zero [simp]: "advance 0 rb = rb"
  by (simp add: advance_def)

lemma at_bytes_advance: "at_bytes rb (xs @ ys) \<Longrightarrow> length xs = n \<Longrightarrow> at_bytes (advance n rb) ys"
proof -
  assume at: "at_bytes rb (xs @ ys)" and n: "length xs = n"
  then have d: "drop (rb_offset rb) (rb_buf rb) = xs @ ys" and o: "rb_offset rb \<le> length (rb_buf rb)"
    by (simp_all add: at_bytes_def)
  from arg_cong [OF d, of length] o n have "rb_offset rb + n \<le> length (rb_buf rb)" by simp
  moreover from arg_cong [OF d, of "drop n"] n have "drop (rb_offset rb + n) (rb_buf rb) = ys"
    by (simp add: add.commute)
  ultimately show ?thesis by (simp add: at_bytes_def advance_def)
qed

lemma at_bytes_left: "at_bytes rb xs \<Longrightarrow> bytes_left rb = length xs"
  by (auto simp: at_bytes_def bytes_left_def)

lemma rb_read_at: "at_bytes rb (xs @ ys) \<Longrightarrow> length xs = n \<Longrightarrow> rb_read n rb = (Some xs, advance n rb)"
  using at_bytes_left [of rb "xs @ ys"]
  by (auto simp: rb_read_def bytes_left_def substr_def at_bytes_def advance_def)

lemma read_checked_at: "at_bytes rb (xs @ ys) \<Longrightarrow> length xs = n \<Longrightarrow> read_checked n rb = Inr (xs, advance n rb)"
  by (simp add: read_checked_def rb_read_at)

lemma read_byte_at: "at_bytes rb (x # ys) \<Longrightarrow> read_checked (Suc 0) rb = Inr ([x], advance (Suc 0) rb)"
  using read_checked_at [of rb "[x]" ys] by simp

lemma at_bytes_tail: "at_bytes rb (x # ys) \<Longrightarrow> at_bytes (advance (Suc 0) rb) ys"
  using at_bytes_advance [of rb "[x]" ys] by simp

lemma pack_value_cookie:
  assumes "c < 32"
  shows "pack_value t c AND 7 = data_type_code t" "drop_bit 3 (pack_value t c) = c"
proof -
  have all: "list_all (\<lambda>n. list_all (\<lambda>t. pack_value t (of_nat n) AND 7 = data_type_code t \<and>
      drop_bit 3 (pack_value t (of_nat n)) = (of_nat n :: u8))
      [nil_type, boolean_type, number_type, userdata_type, short_string_type, long_string_type,
       table_type, gvariant_type]) [0..<32]"
    by code_simp
  have "unat c \<in> set [0..<32]" using assms by (simp add: word_less_nat_alt)
  with all have "list_all (\<lambda>t. pack_value t (of_nat (unat c)) AND 7 = data_type_code t \<and>
      drop_bit 3 (pack_value t (of_nat (unat c))) = (of_nat (unat c) :: u8))
      [nil_type, boolean_type, number_type, userdata_type, short_string_type, long_string_type,
       table_type, gvariant_type]"
    unfolding list_all_iff by blast
  then show "pack_value t c AND 7 = data_type_code t" "drop_bit 3 (pack_value t c) = c"
    by (cases t; simp)+
qed

lemma bytes_string_roundtrip [simp]: "string_of_bytes (bytes_of_string s) = s"
proof -
  have "char_of (unat (of_char c :: u8)) = c" for c
  proof -
    have "unat (of_nat (of_char c) :: u8) = take_bit 8 (of_char c)" by (simp add: unsigned_of_nat)
    also have "\<dots> = of_char c" by (simp add: take_bit_nat_eq_self)
    finally show ?thesis by (simp only: of_nat_of_char char_of_char)
  qed
  then show ?thesis by (simp add: string_of_bytes_def bytes_of_string_def comp_def map_idI)
qed

lemma length_bytes_of_string [simp]: "length (bytes_of_string s) = length s"
  by (simp add: bytes_of_string_def)

text \<open>Integers: one head byte with the cookie, then the payload the cookie announces.\<close>

definition integer_cookie :: "i64 \<Rightarrow> u8" where
  "integer_cookie v = drop_bit 3 (hd (integer_bytes v))"

lemma uint_of_small:
  fixes v :: i64
  assumes "\<not> v <s 0" and "v <s b" and "sint b = n"
  shows "uint v < n"
proof -
  have "0 \<le> sint v" "sint v < n" using assms by (simp_all add: word_sless_alt not_less)
  moreover have "uint v = take_bit 64 (sint v)" by (simp add: uint_sint)
  moreover have "sint v < 2 ^ 64" using sint_lt [of v] by simp
  ultimately show ?thesis by (simp add: take_bit_int_eq_self)
qed

lemma ucast_ucast_small:
  fixes v :: i64
  assumes "uint v < 2 ^ LENGTH('b)" and "LENGTH('b) \<le> 64"
  shows "ucast (ucast v :: 'b::len word) = v"
proof -
  have "take_bit LENGTH('b) (uint v) = uint v" using assms by (simp add: take_bit_int_eq_self)
  then show ?thesis
    using assms(2) by (simp add: word_uint_eq_iff unsigned_ucast_eq unsigned_take_bit_eq)
qed

lemma read_integer_bytes:
  assumes "at_bytes rb (integer_bytes v @ ys)"
  shows "read_integer (integer_cookie v) (advance (Suc 0) rb) =
      Inr (v, advance (length (integer_bytes v)) rb)" (is ?read)
    and "integer_cookie v < 32" "integer_cookie v \<noteq> cookie_number_real"
    and "hd (integer_bytes v) = pack_value number_type (integer_cookie v)"
proof -
  have head: "integer_cookie v = c" if "integer_bytes v = pack_value number_type c # xs" "c < 32" for c xs
    using that by (simp add: integer_cookie_def pack_value_cookie)
  have rest: "read_checked n (advance (Suc 0) rb) = Inr (xs, advance (Suc n) rb)"
    if "integer_bytes v = pack_value number_type c # xs" "length xs = n" for c xs n
    using read_checked_at [of "advance (Suc 0) rb" xs ys n] at_bytes_tail [of rb _ "xs @ ys"] assms that by simp
  have scast_dw: "scast (ucast v :: 32 word) = v" if "\<not> v \<noteq> scast (ucast v :: 32 word)" using that by simp
  consider (zero) "v = 0"
    | (qword) "v \<noteq> 0" "v \<noteq> scast (ucast v :: 32 word)"
    | (neg) "v \<noteq> 0" "v = scast (ucast v :: 32 word)" "v <s 0"
    | (byte) "v \<noteq> 0" "v = scast (ucast v :: 32 word)" "\<not> v <s 0" "v <s 0x100"
    | (word) "v \<noteq> 0" "v = scast (ucast v :: 32 word)" "\<not> v <s 0" "\<not> v <s 0x100" "v <s 0x10000"
    | (dword) "v \<noteq> 0" "v = scast (ucast v :: 32 word)" "\<not> v <s 0" "\<not> v <s 0x100" "\<not> v <s 0x10000"
    by blast
  then have "?read \<and> integer_cookie v < 32 \<and> integer_cookie v \<noteq> cookie_number_real \<and>
    hd (integer_bytes v) = pack_value number_type (integer_cookie v)"
  proof cases
    case zero
    then have b: "integer_bytes v = [pack_value number_type cookie_number_zero]" by (simp add: integer_bytes_def)
    from head [OF b] have "integer_cookie v = cookie_number_zero" by (simp add: cookie_number_zero_def)
    with b zero show ?thesis by (simp add: read_integer_def cookie_number_zero_def cookie_number_real_def)
  next
    case qword
    then have b: "integer_bytes v = pack_value number_type cookie_number_qword # le_bytes 8 v"
      by (simp add: integer_bytes_def)
    from head [OF b] have "integer_cookie v = 6" by (simp add: cookie_number_qword_def)
    with b rest [OF b] show ?thesis
      by (simp add: read_integer_def cookie_number_zero_def cookie_number_byte_def cookie_number_word_def
          cookie_number_dword_def cookie_number_qword_def cookie_number_real_def le_roundtrip)
  next
    case neg
    then have b: "integer_bytes v = pack_value number_type cookie_number_dword # le_bytes 4 (ucast v :: 32 word)"
      by (simp add: integer_bytes_def)
    from head [OF b] have "integer_cookie v = 4" by (simp add: cookie_number_dword_def)
    with b rest [OF b] neg(2) [symmetric] show ?thesis
      by (simp add: read_integer_def cookie_number_zero_def cookie_number_byte_def cookie_number_word_def
          cookie_number_dword_def cookie_number_qword_def cookie_number_real_def le_roundtrip)
  next
    case byte
    then have b: "integer_bytes v = pack_value number_type cookie_number_byte # le_bytes 1 (ucast v :: 8 word)"
      by (simp add: integer_bytes_def)
    from head [OF b] have "integer_cookie v = 1" by (simp add: cookie_number_byte_def)
    moreover have "uint v < 2 ^ LENGTH(8)" using uint_of_small [OF byte(3,4)] by simp
    ultimately show ?thesis using b rest [OF b]
      by (simp add: read_integer_def cookie_number_zero_def cookie_number_byte_def cookie_number_word_def
          cookie_number_dword_def cookie_number_qword_def cookie_number_real_def le_roundtrip ucast_ucast_small
          del: le_bytes.simps of_le_bytes.simps One_nat_def)
  next
    case word
    then have b: "integer_bytes v = pack_value number_type cookie_number_word # le_bytes 2 (ucast v :: 16 word)"
      by (simp add: integer_bytes_def)
    from head [OF b] have "integer_cookie v = 2" by (simp add: cookie_number_word_def)
    moreover have "uint v < 2 ^ LENGTH(16)" using uint_of_small [OF word(3,5)] by simp
    ultimately show ?thesis using b rest [OF b]
      by (simp add: read_integer_def cookie_number_zero_def cookie_number_byte_def cookie_number_word_def
          cookie_number_dword_def cookie_number_qword_def cookie_number_real_def le_roundtrip ucast_ucast_small)
  next
    case dword
    then have b: "integer_bytes v = pack_value number_type cookie_number_dword # le_bytes 4 (ucast v :: 32 word)"
      by (simp add: integer_bytes_def)
    from head [OF b] have "integer_cookie v = 4" by (simp add: cookie_number_dword_def)
    with b rest [OF b] dword(2) [symmetric] show ?thesis
      by (simp add: read_integer_def cookie_number_zero_def cookie_number_byte_def cookie_number_word_def
          cookie_number_dword_def cookie_number_qword_def cookie_number_real_def le_roundtrip)
  qed
  then show ?read "integer_cookie v < 32" "integer_cookie v \<noteq> cookie_number_real"
    "hd (integer_bytes v) = pack_value number_type (integer_cookie v)" by auto
qed

lemma read_string_at:
  "at_bytes rb (bytes_of_string s @ ys) \<Longrightarrow> length s = n \<Longrightarrow> read_string n rb = Inr (s, advance n rb)"
  by (simp add: read_string_def read_checked_at)

section \<open>What arrives\<close>

text \<open>
  The value a transported value arrives as: integers as 64-bit signed ones, or doubles where
  they do not fit, binary data as a string, an empty dict as an empty array.
\<close>

primrec norm :: "variant \<Rightarrow> variant" where
  "norm VNull = VNull"
| "norm (VInt k w) = VInt int64_type w"
| "norm (VUInt k w) =
     (if k = uint64_type \<and> w > 0x7FFFFFFFFFFFFFFF then VDouble (double_of_large_u64 w) else VInt int64_type w)"
| "norm (VDouble d) = VDouble d"
| "norm (VBool b) = VBool b"
| "norm (VString s) = VString s"
| "norm (VArray vs) = VArray (map norm vs)"
| "norm (VObject es) = (if es = [] then VArray [] else VObject (map (map_prod norm norm) es))"
| "norm (VBlob s) = VString s"
| "norm (VExtension s) = VExtension s"

text \<open>
  The values that can be transported: lengths within the format, and dicts whose keys are not
  null and remain different from each other on arrival.
\<close>

primrec transportable :: "(variant \<Rightarrow> variant \<Rightarrow> bool) \<Rightarrow> variant \<Rightarrow> bool" where
  "transportable sk VNull = True"
| "transportable sk (VInt k w) = True"
| "transportable sk (VUInt k w) = True"
| "transportable sk (VDouble d) = True"
| "transportable sk (VBool b) = True"
| "transportable sk (VString s) \<longleftrightarrow> length s < 2 ^ 32"
| "transportable sk (VArray vs) \<longleftrightarrow> length vs < 2 ^ 63 \<and> list_all id (map (transportable sk) vs)"
| "transportable sk (VObject es) \<longleftrightarrow>
     list_all (\<lambda>(p, q). p \<and> q) (map (map_prod (transportable sk) (transportable sk)) es) \<and>
     list_all (\<lambda>e. fst e \<noteq> VNull) es \<and>
     sorted_wrt (\<lambda>k k'. \<not> sk k' k) (map (\<lambda>e. norm (fst e)) es)"
| "transportable sk (VBlob s) \<longleftrightarrow> length s < 2 ^ 32"
| "transportable sk (VExtension s) \<longleftrightarrow> False"

text \<open>The levels of recursion that reading a value takes.\<close>

primrec levels :: "variant \<Rightarrow> nat" where
  "levels VNull = 0"
| "levels (VInt k w) = 0"
| "levels (VUInt k w) = 0"
| "levels (VDouble d) = 0"
| "levels (VBool b) = 0"
| "levels (VString s) = 0"
| "levels (VArray vs) = foldr (\<lambda>n m. max (Suc n) m) (map levels vs) 1"
| "levels (VObject es) = foldr (\<lambda>(m, n) l. max (max (Suc m) (Suc n)) l) (map (map_prod levels levels) es) 1"
| "levels (VBlob s) = 0"
| "levels (VExtension s) = 0"

lemma levels_array: "levels (VArray vs) \<le> k \<longleftrightarrow> 1 \<le> k \<and> (\<forall>v \<in> set vs. Suc (levels v) \<le> k)"
  by (induction vs) auto

lemma levels_object:
  "levels (VObject es) \<le> k \<longleftrightarrow> 1 \<le> k \<and> (\<forall>e \<in> set es. Suc (levels (fst e)) \<le> k \<and> Suc (levels (snd e)) \<le> k)"
  by (induction es) auto

lemma transportable_simps:
  "transportable sk (VArray vs) \<longleftrightarrow> length vs < 2 ^ 63 \<and> (\<forall>v \<in> set vs. transportable sk v)"
  "transportable sk (VObject es) \<longleftrightarrow>
     (\<forall>e \<in> set es. transportable sk (fst e) \<and> transportable sk (snd e) \<and> fst e \<noteq> VNull) \<and>
     sorted_wrt (\<lambda>k k'. \<not> sk k' k) (map (\<lambda>e. norm (fst e)) es)"
  by (auto simp: list_all_iff)

lemma value_bytes_nonempty: "transportable sk v \<Longrightarrow> value_bytes v \<noteq> []"
  by (cases v) (auto simp: integer_bytes_def double_bytes_def string_bytes_def table_head_bytes_def)

lemma norm_not_null: "transportable sk v \<Longrightarrow> v \<noteq> VNull \<Longrightarrow> norm v \<noteq> VNull"
  by (cases v) auto

section \<open>Reading gives the value back\<close>

text \<open>A reader that recognises the bytes of a value.\<close>

definition recognises :: "variant reader \<Rightarrow> variant \<Rightarrow> bool" where
  "recognises rd v \<longleftrightarrow> (\<forall>rb ys. at_bytes rb (value_bytes v @ ys) \<longrightarrow>
     rd rb = Inr (norm v, advance (length (value_bytes v)) rb))"

lemma recognisesD:
  "recognises rd v \<Longrightarrow> at_bytes rb (value_bytes v @ ys) \<Longrightarrow> rd rb = Inr (norm v, advance (length (value_bytes v)) rb)"
  unfolding recognises_def by blast

lemma read_items_recognises:
  "\<forall>v \<in> set vs. recognises rd v \<Longrightarrow> at_bytes rb (concat (map value_bytes vs) @ ys) \<Longrightarrow>
     read_items rd (length vs) rb = Inr (map norm vs, advance (length (concat (map value_bytes vs))) rb)"
proof (induction vs arbitrary: rb)
  case (Cons v vs)
  then have at: "at_bytes rb (value_bytes v @ concat (map value_bytes vs) @ ys)" by simp
  have "recognises rd v" using Cons.prems by simp
  from recognisesD [OF this at] Cons.IH [OF _ at_bytes_advance [OF at refl]] Cons.prems(1)
  show ?case by simp
qed simp

lemma read_pairs_recognises:
  assumes "\<forall>e \<in> set ((k, v) # es). recognises rd (fst e) \<and> recognises rd (snd e)"
    and "recognises rd VNull"
    and "\<forall>e \<in> set es. norm (fst e) \<noteq> VNull"
    and "at_bytes rb (value_bytes v @ entries_bytes es @ data_type_code nil_type # ys)"
    and "sorted_wrt (\<lambda>k k'. \<not> sk k' k) (map fst d @ norm k # map (\<lambda>e. norm (fst e)) es)"
    and "length es < fuel"
  shows "read_pairs sk rd fuel (norm k) d rb =
    Inr (d @ map (map_prod norm norm) ((k, v) # es), advance (length (value_bytes v @ entries_bytes es) + 1) rb)"
  using assms
proof (induction es arbitrary: k v d rb fuel)
  case Nil
  then obtain f where f: "fuel = Suc f" by (cases fuel) auto
  have rv: "rd rb = Inr (norm v, advance (length (value_bytes v)) rb)"
    using Nil.prems(1,4) by (auto intro: recognisesD)
  have "at_bytes (advance (length (value_bytes v)) rb) (value_bytes VNull @ ys)"
    using at_bytes_advance [OF Nil.prems(4)] by (simp add: entries_bytes_def)
  from recognisesD [OF Nil.prems(2) this] have rn:
    "rd (advance (length (value_bytes v)) rb) = Inr (VNull, advance (length (value_bytes v) + 1) rb)" by simp
  have "dict_set sk (norm k) (norm v) d = d @ [(norm k, norm v)]"
    using Nil.prems(5) by (intro dict_set_new) (auto simp: sorted_wrt_append)
  then show ?case by (simp add: f rv rn is_null_def entries_bytes_def)
next
  case (Cons e es)
  obtain k' v' where e: "e = (k', v')" by (cases e)
  obtain f where f: "fuel = Suc f" using Cons.prems(6) by (cases fuel) auto
  have rv: "rd rb = Inr (norm v, advance (length (value_bytes v)) rb)"
    using Cons.prems(1,4) by (auto intro: recognisesD)
  have at: "at_bytes (advance (length (value_bytes v)) rb)
      (value_bytes k' @ value_bytes v' @ entries_bytes es @ data_type_code nil_type # ys)"
    using at_bytes_advance [OF Cons.prems(4) refl] by (simp add: entries_bytes_def e)
  have rk: "rd (advance (length (value_bytes v)) rb) =
      Inr (norm k', advance (length (value_bytes v) + length (value_bytes k')) rb)"
    using recognisesD [OF _ at] Cons.prems(1) by (simp add: e)
  have d: "dict_set sk (norm k) (norm v) d = d @ [(norm k, norm v)]"
    using Cons.prems(5) by (intro dict_set_new) (auto simp: sorted_wrt_append)
  have nn: "norm k' \<noteq> VNull" using Cons.prems(3) by (simp add: e)
  have "read_pairs sk rd f (norm k') (d @ [(norm k, norm v)])
      (advance (length (value_bytes v) + length (value_bytes k')) rb) =
    Inr ((d @ [(norm k, norm v)]) @ map (map_prod norm norm) ((k', v') # es),
      advance (length (value_bytes v' @ entries_bytes es) + 1)
        (advance (length (value_bytes v) + length (value_bytes k')) rb))"
  proof (rule Cons.IH)
    show "at_bytes (advance (length (value_bytes v) + length (value_bytes k')) rb)
        (value_bytes v' @ entries_bytes es @ data_type_code nil_type # ys)"
      using at_bytes_advance [OF at refl] by simp
    show "sorted_wrt (\<lambda>k k'. \<not> sk k' k)
        (map fst (d @ [(norm k, norm v)]) @ norm k' # map (\<lambda>e. norm (fst e)) es)"
      using Cons.prems(5) by (simp add: e)
  qed (use Cons.prems in \<open>auto simp: e f\<close>)
  then show ?case by (simp add: f rv rk d is_null_def nn e entries_bytes_def add.assoc)
qed

lemma read_table_head:
  assumes "at_bytes rb (table_head_bytes n @ ys)" and "n < 2 ^ 63"
  shows "read_table_size (drop_bit 3 (hd (table_head_bytes n))) (advance (Suc 0) rb) =
      Inr (of_nat n, advance (length (table_head_bytes n)) rb)" (is ?size)
    and "hd (table_head_bytes n) AND 7 = data_type_code table_type"
proof -
  have "?size \<and> hd (table_head_bytes n) AND 7 = data_type_code table_type"
  proof (cases "n \<ge> max_cookie - 1")
    case True
    let ?v = "of_nat n :: i64"
    have at: "at_bytes (advance (Suc 0) rb) (integer_bytes ?v @ ys)"
      using assms(1) True at_bytes_tail by (simp add: table_head_bytes_def)
    obtain x xs where x: "integer_bytes ?v = x # xs" by (cases "integer_bytes ?v") (auto simp: integer_bytes_def split: if_splits)
    have byte: "read_checked (Suc 0) (advance (Suc 0) rb) = Inr ([hd (integer_bytes ?v)], advance (Suc (Suc 0)) rb)"
      using read_byte_at [of "advance (Suc 0) rb" x "xs @ ys"] at x by simp
    note int = read_integer_bytes [OF at]
    have c: "drop_bit 3 (hd (integer_bytes ?v)) = integer_cookie ?v" by (simp add: integer_cookie_def)
    have t: "hd (integer_bytes ?v) AND 7 = data_type_code number_type"
      using int(2,4) by (simp add: pack_value_cookie)
    have "drop_bit 3 (pack_value table_type 31) = (31 :: u8)" "pack_value table_type 31 AND 7 = data_type_code table_type"
      using pack_value_cookie [of 31 table_type] by simp_all
    with True byte int c t show ?thesis
      by (simp add: read_table_size_def table_head_bytes_def max_cookie_def Let_def)
  next
    case False
    then have n: "n < 31" by (simp add: max_cookie_def)
    then have u: "unat (of_nat n :: u8) = n" by (simp add: unat_of_nat_small)
    then have lt: "(of_nat n :: u8) < 32" using n by (simp add: word_less_nat_alt)
    have "(of_nat n :: u8) \<noteq> 31"
    proof
      assume "(of_nat n :: u8) = 31"
      from arg_cong [OF this, of unat] u n show False by simp
    qed
    moreover have "(ucast (of_nat n :: u8) :: i64) = of_nat n"
      using u n by (simp add: word_unat_eq_iff unat_of_nat_small unsigned_ucast_eq unsigned_of_nat take_bit_nat_eq_self)
    ultimately show ?thesis
      using False pack_value_cookie [OF lt, of table_type]
      by (simp add: read_table_size_def table_head_bytes_def max_cookie_def)
  qed
  then show ?size "hd (table_head_bytes n) AND 7 = data_type_code table_type" by auto
qed

text \<open>\<open>read_value\<close> after the head byte, as both of its callers use it.\<close>

definition value_read :: "(u8 list \<Rightarrow> u8 list \<Rightarrow> variant option) \<Rightarrow> (variant \<Rightarrow> variant \<Rightarrow> bool) \<Rightarrow>
    variant reader \<Rightarrow> variant \<Rightarrow> bool" where
  "value_read g sk rd v \<longleftrightarrow> (\<forall>rb ys. at_bytes rb (value_bytes v @ ys) \<longrightarrow>
     read_value g sk rd (hd (value_bytes v) AND 7) (drop_bit 3 (hd (value_bytes v))) (advance (Suc 0) rb) =
       Inr (norm v, advance (length (value_bytes v)) rb))"

lemma value_readI:
  "(\<And>rb ys. at_bytes rb (value_bytes v @ ys) \<Longrightarrow>
     read_value g sk rd (hd (value_bytes v) AND 7) (drop_bit 3 (hd (value_bytes v))) (advance (Suc 0) rb) =
       Inr (norm v, advance (length (value_bytes v)) rb)) \<Longrightarrow> value_read g sk rd v"
  by (simp add: value_read_def)

lemma value_readD:
  "value_read g sk rd v \<Longrightarrow> at_bytes rb (value_bytes v @ ys) \<Longrightarrow>
     read_value g sk rd (hd (value_bytes v) AND 7) (drop_bit 3 (hd (value_bytes v))) (advance (Suc 0) rb) =
       Inr (norm v, advance (length (value_bytes v)) rb)"
  unfolding value_read_def by blast

lemma read_inner_recognises:
  assumes "value_read g sk (read_inner g sk fuel) v" and "value_bytes v \<noteq> []"
  shows "recognises (read_inner g sk (Suc fuel)) v"
  unfolding recognises_def
proof (intro allI impI)
  fix rb ys
  assume at: "at_bytes rb (value_bytes v @ ys)"
  obtain x xs where x: "value_bytes v = x # xs" using assms(2) by (cases "value_bytes v") auto
  from read_byte_at [of rb x "xs @ ys"] at x have "read_checked (Suc 0) rb = Inr ([x], advance (Suc 0) rb)" by simp
  with value_readD [OF assms(1) at] x
  show "read_inner g sk (Suc fuel) rb = Inr (norm v, advance (length (value_bytes v)) rb)" by simp
qed

lemma read_value_number:
  assumes "at_bytes rb (integer_bytes w @ ys)"
  shows "read_value g sk rd (hd (integer_bytes w) AND 7) (drop_bit 3 (hd (integer_bytes w))) (advance (Suc 0) rb) =
    Inr (VInt int64_type w, advance (length (integer_bytes w)) rb)"
  using read_integer_bytes [OF assms] by (simp add: read_value_def pack_value_cookie)

lemma read_value_real:
  assumes "at_bytes rb (double_bytes d @ ys)"
  shows "read_value g sk rd (hd (double_bytes d) AND 7) (drop_bit 3 (hd (double_bytes d))) (advance (Suc 0) rb) =
    Inr (VDouble d, advance (length (double_bytes d)) rb)"
proof -
  have "at_bytes (advance (Suc 0) rb) (le_bytes 8 d @ ys)"
    using assms at_bytes_tail by (simp add: double_bytes_def del: le_bytes.simps)
  from read_checked_at [OF this, of 8] have "read_double (advance (Suc 0) rb) = Inr (d, advance 9 rb)"
    by (simp add: read_double_def le_roundtrip del: le_bytes.simps of_le_bytes.simps)
  moreover have "cookie_number_real < 32" by (simp add: cookie_number_real_def)
  ultimately show ?thesis
    by (simp add: read_value_def double_bytes_def pack_value_cookie del: le_bytes.simps)
qed

lemma read_value_string:
  assumes "at_bytes rb (string_bytes s @ ys)" and "length s < 2 ^ 32"
  shows "read_value g sk rd (hd (string_bytes s) AND 7) (drop_bit 3 (hd (string_bytes s))) (advance (Suc 0) rb) =
    Inr (VString s, advance (length (string_bytes s)) rb)"
proof (cases "length s < max_cookie")
  case True
  then have n: "length s < 32" by (simp add: max_cookie_def)
  then have u: "unat (of_nat (length s) :: u8) = length s" by (simp add: unat_of_nat_small)
  then have lt: "(of_nat (length s) :: u8) < 32" using n by (simp add: word_less_nat_alt)
  have "at_bytes (advance (Suc 0) rb) (bytes_of_string s @ ys)"
    using assms(1) True at_bytes_tail by (simp add: string_bytes_def)
  from read_string_at [OF this] True u pack_value_cookie [OF lt, of short_string_type] show ?thesis
    by (simp add: read_value_def string_bytes_def)
next
  case large: False
  have two: "(2 :: u8) < 32" "(4 :: u8) < 32" by simp_all
  show ?thesis
  proof (cases "length s < 0x10000")
    case True
    let ?n = "of_nat (length s) :: 16 word"
    have u: "unat ?n = length s" using True by (simp add: unat_of_nat_small)
    have at: "at_bytes (advance (Suc 0) rb) (le_bytes 2 ?n @ bytes_of_string s @ ys)"
      using assms(1) True large at_bytes_tail by (simp add: string_bytes_def del: le_bytes.simps)
    have at': "at_bytes (advance (Suc (Suc (Suc 0))) rb) (bytes_of_string s @ ys)"
      using at_bytes_advance [OF at, of 2] by simp
    from read_checked_at [OF at, of 2] read_string_at [OF at'] large True u pack_value_cookie [OF two(1), of long_string_type]
    show ?thesis
      by (simp add: read_value_def string_bytes_def le_roundtrip del: le_bytes.simps of_le_bytes.simps)
  next
    case False
    let ?n = "of_nat (length s) :: 32 word"
    have u: "unat ?n = length s" using assms(2) by (simp add: unat_of_nat_small)
    have at: "at_bytes (advance (Suc 0) rb) (le_bytes 4 ?n @ bytes_of_string s @ ys)"
      using assms(1) False large at_bytes_tail by (simp add: string_bytes_def del: le_bytes.simps)
    have at': "at_bytes (advance 5 rb) (bytes_of_string s @ ys)"
      using at_bytes_advance [OF at, of 4] by simp
    from read_checked_at [OF at, of 4] read_string_at [OF at'] large False u pack_value_cookie [OF two(2), of long_string_type]
    show ?thesis
      by (simp add: read_value_def string_bytes_def le_roundtrip del: le_bytes.simps of_le_bytes.simps)
  qed
qed

lemma read_value_array:
  assumes "\<forall>v \<in> set vs. recognises rd v" and "recognises rd VNull" and "length vs < 2 ^ 63"
  shows "value_read g sk rd (VArray vs)"
proof (rule value_readI)
  fix rb ys
  let ?items = "concat (map value_bytes vs)" and ?h = "length (table_head_bytes (length vs))"
  assume "at_bytes rb (value_bytes (VArray vs) @ ys)"
  then have at: "at_bytes rb (table_head_bytes (length vs) @ ?items @ data_type_code nil_type # ys)" by simp
  note at1 = at_bytes_advance [OF at refl]
  have at2: "at_bytes (advance (?h + length ?items) rb) (value_bytes VNull @ ys)"
    using at_bytes_advance [OF at1 refl] by simp
  have n: "nat (sint (of_nat (length vs) :: i64)) = length vs"
    using assms(3) by (simp add: signed_of_nat signed_take_bit_int_eq_self)
  have hd: "hd (value_bytes (VArray vs)) = hd (table_head_bytes (length vs))"
    by (simp add: table_head_bytes_def)
  from read_table_head [OF at assms(3)] n read_items_recognises [OF assms(1) at1]
    recognisesD [OF assms(2) at2]
  show "read_value g sk rd (hd (value_bytes (VArray vs)) AND 7) (drop_bit 3 (hd (value_bytes (VArray vs))))
      (advance (Suc 0) rb) = Inr (norm (VArray vs), advance (length (value_bytes (VArray vs))) rb)"
    by (simp only: hd) (simp add: read_value_def read_table_def is_null_def)
qed

lemma entries_bytes_length:
  "\<forall>e \<in> set es. value_bytes (fst e) \<noteq> [] \<Longrightarrow> length es \<le> length (entries_bytes es)"
  by (induction es) (auto simp: entries_bytes_def Suc_le_eq length_greater_0_conv [symmetric]
      simp del: length_greater_0_conv)

lemma read_value_empty_object:
  assumes "recognises rd VNull"
  shows "value_read g sk rd (VObject [])"
proof (rule value_readI)
  fix rb ys
  assume "at_bytes rb (value_bytes (VObject []) @ ys)"
  then have "at_bytes (advance (Suc 0) rb) (value_bytes VNull @ ys)"
    using at_bytes_tail by simp
  from recognisesD [OF assms this] pack_value_cookie [of 0 table_type]
  show "read_value g sk rd (hd (value_bytes (VObject [])) AND 7) (drop_bit 3 (hd (value_bytes (VObject []))))
      (advance (Suc 0) rb) = Inr (norm (VObject []), advance (length (value_bytes (VObject []))) rb)"
    by (simp add: read_value_def read_table_def read_table_size_def max_cookie_def is_null_def)
qed

lemma read_value_object:
  assumes "\<forall>e \<in> set ((k, v) # es). recognises rd (fst e) \<and> recognises rd (snd e)"
    and "recognises rd VNull" and "transportable sk (VObject ((k, v) # es))"
  shows "value_read g sk rd (VObject ((k, v) # es))"
proof (rule value_readI)
  fix rb ys
  assume a: "at_bytes rb (value_bytes (VObject ((k, v) # es)) @ ys)"
  note tr = assms(3) [unfolded transportable_simps]
  have at: "at_bytes (advance (Suc 0) rb)
      (value_bytes k @ value_bytes v @ entries_bytes es @ data_type_code nil_type # ys)"
    using at_bytes_tail a by (simp add: value_bytes_object entries_bytes_def del: value_bytes.simps)
  note at1 = at_bytes_advance [OF at refl]
  have rk: "rd (advance (Suc 0) rb) = Inr (norm k, advance (Suc (length (value_bytes k))) rb)"
    using recognisesD [OF _ at] assms(1) by simp
  have nn: "norm k \<noteq> VNull" "\<forall>e \<in> set es. norm (fst e) \<noteq> VNull"
    using tr norm_not_null by auto
  have "\<forall>e \<in> set es. value_bytes (fst e) \<noteq> []" using tr value_bytes_nonempty by auto
  then have "length es < Suc (bytes_left (advance (Suc (length (value_bytes k))) rb))"
    using entries_bytes_length [of es] at_bytes_left [OF at1] by simp
  from read_pairs_recognises [OF assms(1,2) nn(2) at1 _ this, of sk "[]"] tr
  have "read_pairs sk rd (Suc (bytes_left (advance (Suc (length (value_bytes k))) rb))) (norm k) []
      (advance (Suc (length (value_bytes k))) rb) =
    Inr (map (map_prod norm norm) ((k, v) # es),
      advance (length (value_bytes (VObject ((k, v) # es)))) rb)"
    by (simp add: value_bytes_object entries_bytes_def del: value_bytes.simps)
  with rk nn(1) pack_value_cookie [of 0 table_type]
  show "read_value g sk rd (hd (value_bytes (VObject ((k, v) # es))) AND 7)
      (drop_bit 3 (hd (value_bytes (VObject ((k, v) # es))))) (advance (Suc 0) rb) =
    Inr (norm (VObject ((k, v) # es)), advance (length (value_bytes (VObject ((k, v) # es)))) rb)"
    by (simp add: value_bytes_object read_value_def read_table_def read_table_size_def max_cookie_def is_null_def
        del: value_bytes.simps(8) read_pairs.simps)
qed

lemma recognises_null: "recognises (read_inner g sk (Suc fuel)) VNull"
proof (rule read_inner_recognises)
  show "value_read g sk (read_inner g sk fuel) VNull"
    by (rule value_readI) (simp add: read_value_def)
qed simp

lemma value_read_leaf:
  "transportable sk VNull \<Longrightarrow> value_read g sk rd VNull"
  "transportable sk (VInt ik i) \<Longrightarrow> value_read g sk rd (VInt ik i)"
  "transportable sk (VUInt uk w) \<Longrightarrow> value_read g sk rd (VUInt uk w)"
  "transportable sk (VDouble d) \<Longrightarrow> value_read g sk rd (VDouble d)"
  "transportable sk (VBool b) \<Longrightarrow> value_read g sk rd (VBool b)"
  "transportable sk (VString s) \<Longrightarrow> value_read g sk rd (VString s)"
  "transportable sk (VBlob s) \<Longrightarrow> value_read g sk rd (VBlob s)"
  "transportable sk (VExtension s) \<Longrightarrow> value_read g sk rd (VExtension s)"
proof -
  show "value_read g sk rd VNull" by (rule value_readI) (simp add: read_value_def)
  show "value_read g sk rd (VInt ik i)" by (rule value_readI) (simp add: read_value_number)
  have "value_bytes (VUInt uk w) = double_bytes (double_of_large_u64 w) \<and> norm (VUInt uk w) = VDouble (double_of_large_u64 w)
      \<or> value_bytes (VUInt uk w) = integer_bytes w \<and> norm (VUInt uk w) = VInt int64_type w"
    by simp
  then show "value_read g sk rd (VUInt uk w)"
    by (elim disjE conjE; intro value_readI) (simp_all only: read_value_number read_value_real)
  show "value_read g sk rd (VDouble d)" by (rule value_readI) (simp add: read_value_real)
  show "value_read g sk rd (VBool b)"
    by (rule value_readI) (cases b; simp add: read_value_def pack_value_cookie word_le_nat_alt)
  show "transportable sk (VString s) \<Longrightarrow> value_read g sk rd (VString s)"
    by (rule value_readI) (simp add: read_value_string)
  show "transportable sk (VBlob s) \<Longrightarrow> value_read g sk rd (VBlob s)"
    by (rule value_readI) (simp add: read_value_string)
  show "transportable sk (VExtension s) \<Longrightarrow> value_read g sk rd (VExtension s)" by simp
qed

lemma value_read_main: "transportable sk v \<Longrightarrow> levels v \<le> fuel \<Longrightarrow> value_read g sk (read_inner g sk fuel) v"
proof (induction v arbitrary: fuel)
  case (VArray vs)
  note lv = VArray.prems(2) [unfolded levels_array]
  then obtain f where f: "fuel = Suc f" by (cases fuel) auto
  have "recognises (read_inner g sk fuel) v" if "v \<in> set vs" for v
    unfolding f using VArray lv that f value_bytes_nonempty transportable_simps(1)
    by (intro read_inner_recognises VArray.IH) auto
  with VArray.prems(1) show ?case
    unfolding transportable_simps f by (intro read_value_array recognises_null) (auto simp del: read_inner.simps)
next
  case (VObject es)
  note lv = VObject.prems(2) [unfolded levels_object]
  note tr = VObject.prems(1) [unfolded transportable_simps]
  obtain f where f: "fuel = Suc f" using lv by (cases fuel) auto
  have rec: "recognises (read_inner g sk fuel) (fst e) \<and> recognises (read_inner g sk fuel) (snd e)"
    if e: "e \<in> set es" for e
  proof -
    have "levels (fst e) \<le> f" "levels (snd e) \<le> f" using lv e f by auto
    moreover have "transportable sk (fst e)" "transportable sk (snd e)" using tr e by auto
    moreover have "fst e \<in> Basic_BNFs.fsts e" "snd e \<in> Basic_BNFs.snds e" by (cases e; simp)+
    ultimately show ?thesis
      unfolding f using VObject.IH [OF e] value_bytes_nonempty
      by (intro conjI read_inner_recognises) (auto simp del: read_inner.simps)
  qed
  show ?case
  proof (cases es)
    case Nil
    then show ?thesis unfolding f Nil by (intro read_value_empty_object recognises_null)
  next
    case (Cons e es')
    obtain k v where e: "e = (k, v)" by (cases e)
    show ?thesis
      using rec VObject.prems(1) recognises_null [of g sk f] unfolding Cons e f
        by (intro read_value_object) (auto simp del: read_inner.simps)
  qed
qed (simp_all only: value_read_leaf variant.distinct)

section \<open>Messages\<close>

lemma value_bytes_pos: "transportable sk v \<Longrightarrow> 1 \<le> length (value_bytes v)"
  using value_bytes_nonempty by (simp add: Suc_le_eq)

lemma concat_length_ge: "v \<in> set vs \<Longrightarrow> length (f v) \<le> length (concat (map f vs))"
  by (induction vs) auto

lemma levels_length: "transportable sk v \<Longrightarrow> levels v \<le> length (value_bytes v)"
proof (induction v)
  case (VArray vs)
  have "Suc (levels v) \<le> length (value_bytes (VArray vs))" if v: "v \<in> set vs" for v
  proof -
    have "levels v \<le> length (value_bytes v)" using VArray.IH VArray.prems v transportable_simps(1) by blast
    with concat_length_ge [OF v, of value_bytes] show ?thesis by simp
  qed
  then show ?case unfolding levels_array by simp
next
  case (VObject es)
  have "Suc (levels (fst e)) \<le> length (value_bytes (VObject es)) \<and> Suc (levels (snd e)) \<le> length (value_bytes (VObject es))"
    if e: "e \<in> set es" for e
  proof -
    have "transportable sk (fst e)" "transportable sk (snd e)" using VObject.prems e transportable_simps(2) by blast+
    moreover have "fst e \<in> Basic_BNFs.fsts e" "snd e \<in> Basic_BNFs.snds e" by (cases e; simp)+
    ultimately have "levels (fst e) \<le> length (value_bytes (fst e))" "levels (snd e) \<le> length (value_bytes (snd e))"
      using VObject.IH [OF e] by auto
    with concat_length_ge [OF e, of "\<lambda>e. value_bytes (fst e) @ value_bytes (snd e)"] show ?thesis
      unfolding value_bytes_object entries_bytes_def by simp
  qed
  then show ?case unfolding levels_object value_bytes_object by simp
qed simp_all

lemma length_concat_ge: "\<forall>v \<in> set vs. transportable sk v \<Longrightarrow> length vs \<le> length (concat (map value_bytes vs))"
proof (induction vs)
  case (Cons v vs)
  with value_bytes_pos [of sk v] show ?case by simp
qed simp

lemma unpack_loop_bytes:
  "at_bytes rb (concat (map value_bytes vs)) \<Longrightarrow> \<forall>v \<in> set vs. transportable sk v \<Longrightarrow>
     \<forall>v \<in> set vs. levels v \<le> length (rb_buf rb) \<Longrightarrow> length vs < fuel \<Longrightarrow>
     unpack_loop g sk fuel rb = Inr (map norm vs)"
proof (induction vs arbitrary: rb fuel)
  case Nil
  then obtain f where "fuel = Suc f" by (cases fuel) auto
  moreover have "rb_read 1 rb = (None, rb)"
    using at_bytes_left [OF Nil.prems(1)] by (simp add: rb_read_def bytes_left_def)
  ultimately show ?case by simp
next
  case (Cons v vs)
  obtain f where f: "fuel = Suc f" using Cons.prems(4) by (cases fuel) auto
  have tr: "transportable sk v" using Cons.prems(2) by simp
  obtain x xs where x: "value_bytes v = x # xs" using value_bytes_nonempty [OF tr] by (cases "value_bytes v") auto
  have at: "at_bytes rb (value_bytes v @ concat (map value_bytes vs))" using Cons.prems(1) by simp
  have byte: "rb_read 1 rb = (Some [x], advance (Suc 0) rb)"
    using rb_read_at [of rb "[x]" _ 1] at x by simp
  have buf: "rb_buf (advance n rb) = rb_buf rb" for n by (simp add: advance_def)
  have val: "value_read g sk (read_inner g sk (length (rb_buf rb))) v"
    using value_read_main [OF tr] Cons.prems(3) by simp
  have "unpack_loop g sk f (advance (length (value_bytes v)) rb) = Inr (map norm vs)"
    using Cons.prems by (intro Cons.IH at_bytes_advance [OF at refl]) (simp_all add: f buf)
  with value_readD [OF val at] byte x show ?case
    by (simp add: f buf)
qed

lemma unpack_packed:
  assumes "\<forall>v \<in> set args. transportable sk v" and "pack args = Inr msg"
  shows "unpack g sk msg = Inr (map norm args)"
proof -
  from assms(2) have msg: "msg = concat (map value_bytes args)" by (simp add: pack_bytes)
  have "levels v \<le> length msg" if v: "v \<in> set args" for v
    using levels_length [of sk v] assms(1) concat_length_ge [OF v, of value_bytes] v by (simp add: msg)
  moreover have "length args < Suc (length msg)"
    using length_concat_ge [OF assms(1)] by (simp add: msg)
  ultimately show ?thesis
    unfolding unpack_def using assms(1) by (intro unpack_loop_bytes) (simp_all add: at_bytes_def msg)
qed

text \<open>
  C1. The transport round trip: unpacking a packed message gives back every argument in the
  form it arrives in, integers with their value, strings and dicts with their content in
  order, over any nesting the writer accepts.
\<close>

theorem unpack_pack_roundtrip:
  assumes "\<forall>v \<in> set args. transportable sk v" and "pack args = Inr msg"
  shows "unpack g sk msg = Inr (map norm args)"
  using assms by (rule unpack_packed)

theorem unpack_pack_roundtrip_witness:
  "\<exists>msg. pack [VArray [VInt int32_type 300, VObject [(VString ''k'', VBool True)]]] = Inr msg \<and>
     unpack (\<lambda>_ _. None) (=) msg = Inr [VArray [VInt int64_type 300, VObject [(VString ''k'', VBool True)]]]"
proof -
  let ?args = "[VArray [VInt int32_type 300, VObject [(VString ''k'', VBool True)]]]"
  have "pack ?args = Inr (concat (map value_bytes ?args))"
    unfolding pack_bytes by (simp add: max_depth_def)
  with unpack_pack_roundtrip [OF _ this, of "(=)" "\<lambda>_ _. None"] show ?thesis by simp
qed

text \<open>
  C4. The length-prefixed form: \<open>serialize\<close> puts the total length, four bytes little-endian,
  before the packed arguments, and \<open>deserialize\<close> gives the arguments back, for messages below
  four gigabytes.
\<close>

theorem deserialize_serialize_roundtrip:
  assumes "\<forall>v \<in> set args. transportable sk v" and "pack args = Inr bs" and "length bs + 4 < 2 ^ 32"
  shows "\<exists>msg. serialize args = Inr msg \<and> length msg = length bs + 4 \<and>
    of_le_bytes (take 4 msg) = (of_nat (length msg) :: u32) \<and>
    deserialize g sk msg = Inr (map norm args)"
proof -
  let ?sz = "of_nat (4 + length bs) :: u32"
  have sz: "unat ?sz = 4 + length bs" by (intro unat_of_nat_small) (use assms(3) in simp)
  then have "serialize args = Inr (le_bytes 4 ?sz @ bs)"
    by (simp add: serialize_def assms(2) Let_def del: le_bytes.simps of_nat_add)
  moreover have "of_le_bytes (take 4 (le_bytes 4 ?sz @ bs)) = (of_nat (length (le_bytes 4 ?sz @ bs)) :: u32)"
    using le_roundtrip [of 4 ?sz] by (simp del: le_bytes.simps of_le_bytes.simps of_nat_add)
  moreover have "deserialize g sk (le_bytes 4 ?sz @ bs) = Inr (map norm args)"
    using unpack_packed [OF assms(1,2)] by (simp add: deserialize_def del: le_bytes.simps)
  ultimately show ?thesis by (intro exI [of _ "le_bytes 4 ?sz @ bs"]) (simp del: le_bytes.simps of_le_bytes.simps)
qed

theorem deserialize_serialize_roundtrip_witness:
  "\<exists>msg. serialize [VNull] = Inr msg \<and> length msg = 5 \<and>
     of_le_bytes (take 4 msg) = (of_nat (length msg) :: u32) \<and>
     deserialize (\<lambda>_ _. None) (=) msg = Inr [VNull]"
proof -
  have "pack [VNull] = Inr [0]" by (simp add: pack_bytes)
  from deserialize_serialize_roundtrip [OF _ this, of "(=)" "\<lambda>_ _. None"] show ?thesis by simp
qed

text \<open>
  C5. Packing succeeds exactly when no argument nests deeper than 32 levels and none contains an
  extension value; the message is then the concatenation of the bytes of the arguments.
\<close>

theorem pack_succeeds_iff:
  "pack args = Inr bs \<longleftrightarrow>
     list_all (\<lambda>v. nesting v \<le> 32 \<and> extension_free v) args \<and> bs = concat (map value_bytes args)"
  using pack_bytes [of args bs] by (simp add: max_depth_def list_all_iff)

section \<open>Reading any message ends\<close>

text \<open>A step from \<open>rb\<close> that needs no more fuel and consumes at least \<open>n\<close> bytes, all of them there.\<close>

definition rb_wf :: "read_buffer \<Rightarrow> bool" where
  "rb_wf rb \<longleftrightarrow> rb_offset rb \<le> length (rb_buf rb)"

definition ok_step :: "nat \<Rightarrow> read_buffer \<Rightarrow> ('a \<times> read_buffer) result \<Rightarrow> bool" where
  "ok_step n rb r \<longleftrightarrow> r \<noteq> Inl out_of_fuel \<and>
     (\<forall>x rb'. r = Inr (x, rb') \<longrightarrow> rb_buf rb' = rb_buf rb \<and> rb_wf rb' \<and> rb_offset rb + n \<le> rb_offset rb')"

definition reads_below :: "nat \<Rightarrow> variant reader \<Rightarrow> bool" where
  "reads_below k rd \<longleftrightarrow> (\<forall>rb. rb_wf rb \<longrightarrow> bytes_left rb < k \<longrightarrow> ok_step 1 rb (rd rb))"

lemma ok_step_Inr_iff:
  "ok_step n rb (Inr (x, rb')) \<longleftrightarrow> rb_buf rb' = rb_buf rb \<and> rb_wf rb' \<and> rb_offset rb + n \<le> rb_offset rb'"
  by (simp add: ok_step_def)

lemma ok_step_Inl [simp]: "ok_step n rb (Inl e) \<longleftrightarrow> e \<noteq> out_of_fuel"
  by (simp add: ok_step_def)

lemma ok_step_Inr [simp]: "ok_step 0 rb (Inr (x, rb)) \<longleftrightarrow> rb_wf rb"
  by (simp add: ok_step_Inr_iff)

lemma ok_step_left:
  assumes "ok_step n rb (Inr (x, rb'))"
  shows "rb_wf rb'" "bytes_left rb' + n \<le> bytes_left rb"
proof -
  from assms have e: "rb_buf rb' = rb_buf rb" "rb_offset rb + n \<le> rb_offset rb'" and "rb_wf rb'"
    by (simp_all add: ok_step_Inr_iff)
  then show "rb_wf rb'" "bytes_left rb' + n \<le> bytes_left rb"
    unfolding bytes_left_def rb_wf_def e(1) by simp_all
qed

lemma ok_step_bind:
  assumes "ok_step m rb r"
    and "\<And>x rb'. r = Inr (x, rb') \<Longrightarrow> rb_wf rb' \<Longrightarrow> bytes_left rb' + m \<le> bytes_left rb \<Longrightarrow> ok_step n rb' (f (x, rb'))"
  shows "ok_step (m + n) rb (bind_result r f)"
proof (cases r)
  case (Inl e)
  with assms(1) show ?thesis by simp
next
  case (Inr y)
  then obtain x rb' where r: "r = Inr (x, rb')" by (cases y) auto
  note first = assms(1) [unfolded r]
  have second: "ok_step n rb' (f (x, rb'))" by (rule assms(2) [OF r ok_step_left [OF first]])
  show ?thesis
  proof (cases "f (x, rb')")
    case (Inl e)
    with second r show ?thesis by simp
  next
    case (Inr z)
    then obtain u rb'' where "f (x, rb') = Inr (u, rb'')" by (cases z) auto
    with first second r show ?thesis by (simp add: ok_step_Inr_iff)
  qed
qed

lemma ok_step_weaken: "ok_step n rb r \<Longrightarrow> m \<le> n \<Longrightarrow> ok_step m rb r"
  unfolding ok_step_def by (blast intro: order_trans add_left_mono)

lemma ok_step_bind0:
  assumes "ok_step m rb r"
    and "\<And>x rb'. r = Inr (x, rb') \<Longrightarrow> rb_wf rb' \<Longrightarrow> bytes_left rb' + m \<le> bytes_left rb \<Longrightarrow> ok_step 0 rb' (f (x, rb'))"
  shows "ok_step 0 rb (bind_result r f)"
  by (rule ok_step_weaken [OF ok_step_bind [OF assms]]) simp_all

lemma ok_step_if: "(P \<Longrightarrow> ok_step n rb r) \<Longrightarrow> (\<not> P \<Longrightarrow> ok_step n rb q) \<Longrightarrow> ok_step n rb (if P then r else q)"
  by simp

lemma ok_step_read_checked: "rb_wf rb \<Longrightarrow> ok_step n rb (read_checked n rb)"
  by (cases "n > length (rb_buf rb) - rb_offset rb") (auto simp: read_checked_def rb_read_def ok_step_Inr_iff rb_wf_def)

lemma ok_step_map:
  "ok_step m rb r \<Longrightarrow> ok_step 0 rb (bind_result r (\<lambda>(x, rb). Inr (f x, rb)))"
  by (erule ok_step_bind0) simp

lemma ok_step_read_integer: "rb_wf rb \<Longrightarrow> ok_step 0 rb (read_integer c rb)"
  unfolding read_integer_def by (intro ok_step_if ok_step_map [OF ok_step_read_checked]) simp_all

lemma ok_step_read_misc:
  "rb_wf rb \<Longrightarrow> ok_step 0 rb (read_double rb)"
  "rb_wf rb \<Longrightarrow> ok_step 0 rb (read_pointer rb)"
  "rb_wf rb \<Longrightarrow> ok_step 0 rb (read_string n rb)"
  unfolding read_double_def read_pointer_def read_string_def by (intro ok_step_map [OF ok_step_read_checked]; assumption)+

lemma ok_step_read_table_size: "rb_wf rb \<Longrightarrow> ok_step 0 rb (read_table_size c rb)"
  unfolding read_table_size_def Let_def
  by (intro ok_step_if ok_step_bind0 [OF ok_step_read_checked])
    (auto intro: ok_step_read_integer)

lemma rb_read_wf: "rb_wf rb \<Longrightarrow> rb_wf (snd (rb_read n rb)) \<and> rb_buf (snd (rb_read n rb)) = rb_buf rb \<and>
    rb_offset rb \<le> rb_offset (snd (rb_read n rb))"
  by (auto simp: rb_read_def rb_wf_def)

lemma ok_step_read_gvariant:
  assumes "rb_wf rb"
  shows "ok_step 0 rb (read_gvariant g n rb)"
  unfolding read_gvariant_def
proof (rule ok_step_bind0 [OF ok_step_read_checked [OF assms]], clarsimp)
  fix t rb'
  assume wf: "rb_wf rb'"
  obtain b rb4 where b: "rb_read 4 rb' = (b, rb4)" by fastforce
  have w4: "rb_wf rb4 \<and> rb_buf rb4 = rb_buf rb' \<and> rb_offset rb' \<le> rb_offset rb4"
    using rb_read_wf [OF wf, of 4] b by simp
  have wn: "rb_wf rbn \<and> rb_buf rbn = rb_buf rb' \<and> rb_offset rb' \<le> rb_offset rbn"
    if "(if s < 0 then (None, rb4) else rb_read (nat s) rb4) = (ds, rbn)" for s :: int and ds rbn
    using rb_read_wf [of rb4 "nat s"] w4 that by (cases "s < 0") auto
  let ?load = "\<lambda>bs. if sint (of_le_bytes bs :: 32 word) < 0 then (None, rb4)
    else rb_read (nat (sint (of_le_bytes bs :: 32 word))) rb4"
  show "ok_step 0 rb' (case rb_read 4 rb' of
        (None, _) \<Rightarrow> Inl undefined_behaviour
      | (Some bs, rb) \<Rightarrow>
          let n = sint (of_le_bytes bs :: 32 word);
              (data, rb) = (if n < 0 then (None, rb) else rb_read (nat n) rb);
              p_data = (if n > 0 then (case data of Some ds \<Rightarrow> ds | None \<Rightarrow> replicate (nat n) 0) else [])
          in if 0 \<notin> set t then Inl undefined_behaviour
             else case g t p_data of None \<Rightarrow> Inl runtime_exception | Some v \<Rightarrow> Inr (v, rb))"
  proof (cases b)
    case None
    with b show ?thesis by simp
  next
    case (Some bs)
    obtain ds rbn where ds: "?load bs = (ds, rbn)" by fastforce
    note w = wn [OF ds]
    show ?thesis
      unfolding b Some prod.case option.case Let_def ds
      using w by (simp add: ok_step_Inr_iff split: option.split)
  qed
qed

lemma reads_belowD: "reads_below k rd \<Longrightarrow> rb_wf rb \<Longrightarrow> bytes_left rb < k \<Longrightarrow> ok_step 1 rb (rd rb)"
  unfolding reads_below_def by blast

lemma ok_step_read_items:
  "reads_below k rd \<Longrightarrow> rb_wf rb \<Longrightarrow> bytes_left rb < k \<Longrightarrow> ok_step 0 rb (read_items rd n rb)"
proof (induction n arbitrary: rb)
  case (Suc n)
  note step = reads_belowD [OF Suc.prems]
  show ?case
    unfolding read_items.simps
  proof (rule ok_step_bind0 [OF step], clarify)
    fix v rb'
    assume "rb_wf rb'" "bytes_left rb' + 1 \<le> bytes_left rb"
    with Suc.prems have "ok_step 0 rb' (read_items rd n rb')" by (intro Suc.IH) simp_all
    then show "ok_step 0 rb' (bind_result (read_items rd n rb') (\<lambda>(vs, rb). Inr (v # vs, rb)))"
      by (rule ok_step_bind0) simp
  qed
qed simp

lemma ok_step_read_pairs:
  "reads_below k rd \<Longrightarrow> rb_wf rb \<Longrightarrow> bytes_left rb < k \<Longrightarrow> bytes_left rb < fuel \<Longrightarrow>
     ok_step 0 rb (read_pairs sk rd fuel key d rb)"
proof (induction fuel arbitrary: key d rb)
  case (Suc fuel)
  show ?case
    unfolding read_pairs.simps Let_def
  proof (rule ok_step_bind0 [OF reads_belowD [OF Suc.prems(1-3)]], clarify)
    fix v rb1
    assume 1: "rb_wf rb1" "bytes_left rb1 + 1 \<le> bytes_left rb"
    with Suc.prems have "bytes_left rb1 < k" by simp
    from reads_belowD [OF Suc.prems(1) 1(1) this]
    show "ok_step 0 rb1 (bind_result (rd rb1) (\<lambda>(key', rb).
        if is_null key' then Inr (dict_set sk key v d, rb)
        else read_pairs sk rd fuel key' (dict_set sk key v d) rb))"
    proof (rule ok_step_bind0, clarify)
      fix key' rb2
      assume 2: "rb_wf rb2" "bytes_left rb2 + 1 \<le> bytes_left rb1"
      with 1 Suc.prems show "ok_step 0 rb2 (if is_null key' then Inr (dict_set sk key v d, rb2)
          else read_pairs sk rd fuel key' (dict_set sk key v d) rb2)"
        by (auto intro!: Suc.IH)
    qed
  qed
qed simp

lemma ok_step_read_table:
  assumes rd: "reads_below k rd" and wf: "rb_wf rb" and k: "bytes_left rb < k"
  shows "ok_step 0 rb (read_table sk rd c rb)"
  unfolding read_table_def Let_def
proof (rule ok_step_bind0 [OF ok_step_read_table_size [OF wf]], clarify)
  fix n rb1
  assume 1: "rb_wf rb1" "bytes_left rb1 + 0 \<le> bytes_left rb"
  with k have "bytes_left rb1 < k" by simp
  note items = ok_step_read_items [OF rd 1(1) this]
  show "ok_step 0 rb1 (bind_result (read_items rd (nat (sint n)) rb1) (\<lambda>(arr, rb).
         bind_result (rd rb) (\<lambda>(key, rb).
           if is_null key then Inr (VArray arr, rb)
           else bind_result (read_pairs sk rd (Suc (bytes_left rb)) key (set_indices sk 1 arr []) rb)
                  (\<lambda>(d, rb). Inr (VObject d, rb)))))"
  proof (rule ok_step_bind0 [OF items], clarify)
    fix arr rb2
    assume 2: "rb_wf rb2" "bytes_left rb2 + 0 \<le> bytes_left rb1"
    with 1 k have "bytes_left rb2 < k" by simp
    from reads_belowD [OF rd 2(1) this]
    show "ok_step 0 rb2 (bind_result (rd rb2) (\<lambda>(key, rb).
           if is_null key then Inr (VArray arr, rb)
           else bind_result (read_pairs sk rd (Suc (bytes_left rb)) key (set_indices sk 1 arr []) rb)
                  (\<lambda>(d, rb). Inr (VObject d, rb))))"
    proof (rule ok_step_bind0, clarify)
      fix key rb3
      assume 3: "rb_wf rb3" "bytes_left rb3 + 1 \<le> bytes_left rb2"
      with 1 2 k have "bytes_left rb3 < k" by simp
      note pairs = ok_step_read_pairs [OF rd 3(1) this, of "Suc (bytes_left rb3)" sk key "set_indices sk 1 arr []"]
      show "ok_step 0 rb3 (if is_null key then Inr (VArray arr, rb3)
           else bind_result (read_pairs sk rd (Suc (bytes_left rb3)) key (set_indices sk 1 arr []) rb3)
                  (\<lambda>(d, rb). Inr (VObject d, rb)))"
        using pairs 3 by (auto intro!: ok_step_bind0 simp del: read_pairs.simps)
    qed
  qed
qed

lemma ok_step_long_string:
  "rb_wf rb \<Longrightarrow> ok_step 0 rb (bind_result (read_checked n rb) (\<lambda>(bs, rb).
     bind_result (read_string (f bs) rb) (\<lambda>(s, rb). Inr (VString s, rb))))"
  by (rule ok_step_bind0 [OF ok_step_read_checked]) (auto intro: ok_step_map ok_step_read_misc)

lemma ok_step_read_value:
  assumes "reads_below k rd" and "rb_wf rb" and "bytes_left rb < k"
  shows "ok_step 0 rb (read_value g sk rd t c rb)"
  unfolding read_value_def
  by (intro ok_step_if ok_step_long_string ok_step_map [OF ok_step_read_misc(1)] ok_step_map [OF ok_step_read_misc(2)]
      ok_step_map [OF ok_step_read_misc(3)] ok_step_map [OF ok_step_read_integer]
      ok_step_read_table [OF assms] ok_step_read_gvariant assms(2)) (use assms(2) in simp_all)

lemma read_inner_below: "reads_below fuel (read_inner g sk fuel)"
proof (induction fuel)
  case (Suc fuel)
  show ?case
    unfolding reads_below_def
  proof (intro allI impI)
    fix rb
    assume wf: "rb_wf rb" and left: "bytes_left rb < Suc fuel"
    have "ok_step (1 + 0) rb (read_inner g sk (Suc fuel) rb)"
      unfolding read_inner.simps
    proof (rule ok_step_bind [OF ok_step_read_checked [OF wf]], clarify)
      fix bs rb'
      assume "rb_wf rb'" "bytes_left rb' + 1 \<le> bytes_left rb"
      with left show "ok_step 0 rb' (read_value g sk (read_inner g sk fuel) (hd bs AND 7) (drop_bit 3 (hd bs)) rb')"
        by (intro ok_step_read_value [OF Suc.IH]) simp_all
    qed
    then show "ok_step 1 rb (read_inner g sk (Suc fuel) rb)" by simp
  qed
qed (simp add: reads_below_def)

text \<open>
  C2. Unpacking ends on every message, well-formed or not: nesting and loops never need more
  steps than the message has bytes, because each of them consumes at least one.
\<close>

theorem unpack_never_out_of_fuel: "unpack g sk msg \<noteq> Inl out_of_fuel"
proof -
  have "rb_wf rb \<Longrightarrow> bytes_left rb < fuel \<Longrightarrow> unpack_loop g sk fuel rb \<noteq> Inl out_of_fuel" for fuel rb
  proof (induction fuel arbitrary: rb)
    case (Suc fuel)
    obtain b rb' where rd: "rb_read 1 rb = (b, rb')" by fastforce
    show ?case
    proof (cases b)
      case None
      with rd show ?thesis by simp
    next
      case (Some bs)
      with rd have "rb' = rb\<lparr>rb_offset := rb_offset rb + 1\<rparr>" "rb_offset rb + 1 \<le> length (rb_buf rb)"
        using Suc.prems(1) by (auto simp: rb_read_def rb_wf_def split: if_splits)
      then have wf: "rb_wf rb'" and left: "bytes_left rb' < length (rb_buf rb')" "bytes_left rb' < fuel"
        using Suc.prems(2) by (auto simp: rb_wf_def bytes_left_def)
      let ?r = "read_value g sk (read_inner g sk (length (rb_buf rb'))) (hd bs AND 7) (drop_bit 3 (hd bs)) rb'"
      have step: "ok_step 0 rb' ?r" by (rule ok_step_read_value [OF read_inner_below wf left(1)])
      show ?thesis
      proof (cases ?r)
        case (Inl e)
        with rd Some step show ?thesis by simp
      next
        case (Inr y)
        then obtain v rb'' where y: "?r = Inr (v, rb'')" by (cases y) auto
        from ok_step_left [OF step [unfolded y]] have "rb_wf rb''" "bytes_left rb'' \<le> bytes_left rb'" by simp_all
        with Suc.IH [of rb''] left(2) have "unpack_loop g sk fuel rb'' \<noteq> Inl out_of_fuel" by simp
        with rd Some y show ?thesis by (auto simp: bind_result_eq_Inl)
      qed
    qed
  qed simp
  from this [of "\<lparr>rb_buf = msg, rb_offset = 0\<rparr>" "Suc (length msg)"] show ?thesis
    unfolding unpack_def by (simp add: rb_wf_def bytes_left_def del: unpack_loop.simps)
qed

text \<open>
  A GVariant in a message is not checked against the end of the message: without its size
  field the reader dereferences a null pointer, and without its data it hands zero bytes to the
  conversion as if they had been sent.
\<close>

theorem gvariant_truncated:
  "unpack g sk [7, 0] = Inl undefined_behaviour \<and>
   unpack g sk [7, 0, 2, 0, 0, 0] =
     (case g [0] [0, 0] of None \<Rightarrow> Inl runtime_exception | Some v \<Rightarrow> Inr [v])"
proof
  show "unpack g sk [7, 0] = Inl undefined_behaviour" by code_simp
  show "unpack g sk [7, 0, 2, 0, 0, 0] =
     (case g [0] [0, 0] of None \<Rightarrow> Inl runtime_exception | Some v \<Rightarrow> Inr [v])"
    by code_simp (cases "g [0] [0, 0]"; simp; code_simp)
qed

end
