(* ===== verification/Parser.thy ===== *)
theory Parser
  imports Lexer
begin

text \<open>
  The parser of the expression language (\<^verbatim>\<open>libraries/mcexpr/src/parser.cpp\<close>, with the nodes of
  \<^verbatim>\<open>include/mc/expr/node.h\<close>) and the compiler on top of it (\<^verbatim>\<open>engine::compile\<close>). The record
  \<open>parser\<close> has the members of the class. Every parsing method is a function of the parser state;
  the call of \<^verbatim>\<open>expression()\<close> that closes the recursion of the methods is their argument \<open>ex\<close>, and
  the parser of an embedded template expression is their argument \<open>tp\<close>: \<open>expression\<close> and
  \<open>engine_compile\<close> tie the knots, the former on a fuel that is proved to suffice. A loop repeats only while the
  tokens left decrease; the failure of this test is the exception \<open>out_of_fuel\<close>, which is proved
  never to occur. The second half states the grammar and proves that the parser implements it.
\<close>

section \<open>Nodes\<close>

datatype operator_type =
    add_op | sub_op | mul_op | div_op | mod_op | neg_op
  | eq_op | ne_op | lt_op | le_op | gt_op | ge_op
  | and_op | or_op | not_op
  | bit_and_op | bit_or_op | bit_xor_op | bit_not_op | lshift_op | rshift_op

datatype node =
    literal_node variant
  | variable_node string
  | unary_op_node operator_type node
  | binary_op_node operator_type node node
  | function_call_node string "node list"
  | conditional_node node node node
  | property_access_node node string
  | object_method_call_node node string "node list"
  | template_string_node "string list" "node list"

section \<open>The state and its elementary operations\<close>

record parser =
  ps_tokens :: "token list"
  ps_current :: nat

definition new_parser :: "token list \<Rightarrow> parser" where
  "new_parser tokens = \<lparr>ps_tokens = tokens, ps_current = 0\<rparr>"

definition parser_peek :: "parser \<Rightarrow> token result" where
  "parser_peek p =
     (if ps_current p \<ge> length (ps_tokens p) then Inl parse_error_exception
      else Inr (ps_tokens p ! ps_current p))"

definition parser_previous :: "parser \<Rightarrow> token result" where
  "parser_previous p =
     (if ps_current p \<le> 0 \<or> ps_current p > length (ps_tokens p) then Inl parse_error_exception
      else Inr (ps_tokens p ! (ps_current p - 1)))"

definition parser_is_at_end :: "parser \<Rightarrow> bool result" where
  "parser_is_at_end p =
     bind_result (parser_peek p) (\<lambda>t. Inr (tok_type t = end_of_file_token))"

definition parser_check :: "token_type \<Rightarrow> parser \<Rightarrow> bool result" where
  "parser_check type p =
     bind_result (parser_is_at_end p) (\<lambda>e.
       if e then Inr False
       else bind_result (parser_peek p) (\<lambda>t. Inr (tok_type t = type)))"

definition parser_advance :: "parser \<Rightarrow> (token \<times> parser) result" where
  "parser_advance p =
     bind_result (parser_is_at_end p) (\<lambda>e.
       let p' = (if \<not> e then p\<lparr>ps_current := ps_current p + 1\<rparr> else p)
       in bind_result (parser_previous p') (\<lambda>t. Inr (t, p')))"

primrec parser_match :: "token_type list \<Rightarrow> parser \<Rightarrow> (bool \<times> parser) result" where
  "parser_match [] p = Inr (False, p)"
| "parser_match (type # types) p =
     bind_result (parser_check type p) (\<lambda>c.
       if c then bind_result (parser_advance p) (\<lambda>(_, p'). Inr (True, p'))
       else parser_match types p)"

text \<open>The tokens left.\<close>

definition parser_remaining :: "parser \<Rightarrow> nat" where
  "parser_remaining p = length (ps_tokens p) - ps_current p"

section \<open>The levels of binary operators\<close>

type_synonym 'a parse = "parser \<Rightarrow> ('a \<times> parser) result"

text \<open>
  The loop shared by the methods \<^verbatim>\<open>logical_or\<close> to \<^verbatim>\<open>factor\<close>: the operator is chosen by the type of
  the token just matched.
\<close>

function binary_loop ::
    "token_type list \<Rightarrow> (token_type \<Rightarrow> operator_type) \<Rightarrow> node parse \<Rightarrow> node \<Rightarrow> node parse" where
  "binary_loop types op sub expr p =
     bind_result (parser_match types p) (\<lambda>(m, p1).
       if m then
         bind_result (parser_previous p1) (\<lambda>t.
           bind_result (sub p1) (\<lambda>(right, p2).
             if parser_remaining p2 < parser_remaining p
             then binary_loop types op sub (binary_op_node (op (tok_type t)) expr right) p2
             else Inl out_of_fuel))
       else Inr (expr, p1))"
  by pat_completeness auto
termination by (relation "measure (\<lambda>(types, op, sub, expr, p). parser_remaining p)") auto

declare binary_loop.simps [simp del]

definition binary_level ::
    "token_type list \<Rightarrow> (token_type \<Rightarrow> operator_type) \<Rightarrow> node parse \<Rightarrow> node parse" where
  "binary_level types op sub p =
     bind_result (sub p) (\<lambda>(expr, p1). binary_loop types op sub expr p1)"

section \<open>Primary expressions\<close>

text \<open>The \<^verbatim>\<open>do ... while\<close> loop over the arguments.\<close>

function argument_loop :: "node parse \<Rightarrow> node list \<Rightarrow> node list parse" where
  "argument_loop ex arguments p =
     bind_result (ex p) (\<lambda>(a, p1).
       bind_result (parser_match [comma_token] p1) (\<lambda>(m, p2).
         if m then
           if parser_remaining p2 < parser_remaining p
           then argument_loop ex (arguments @ [a]) p2 else Inl out_of_fuel
         else Inr (arguments @ [a], p2)))"
  by pat_completeness auto
termination by (relation "measure (\<lambda>(ex, arguments, p). parser_remaining p)") auto

declare argument_loop.simps [simp del]

definition parse_argument_list :: "node parse \<Rightarrow> node list parse" where
  "parse_argument_list ex p =
     bind_result (parser_check right_paren_token p) (\<lambda>c.
       if \<not> c then argument_loop ex [] p else Inr ([], p))"

definition expect :: "token_type \<Rightarrow> parser \<Rightarrow> parser result" where
  "expect type p =
     bind_result (parser_match [type] p) (\<lambda>(m, p').
       if \<not> m then Inl parse_error_exception else Inr p')"

definition function_call :: "node parse \<Rightarrow> node parse" where
  "function_call ex p =
     bind_result (parser_previous p) (\<lambda>t.
       let function_name = tok_lexeme t in
       bind_result (expect left_paren_token p) (\<lambda>p1.
         bind_result (parse_argument_list ex p1) (\<lambda>(arguments, p2).
           bind_result (expect right_paren_token p2) (\<lambda>p3.
             Inr (function_call_node function_name arguments, p3)))))"

definition parse_method_call :: "node parse \<Rightarrow> node \<Rightarrow> string \<Rightarrow> node parse" where
  "parse_method_call ex object method_name p =
     bind_result (parser_match [left_paren_token] p) (\<lambda>(_, p1).
       bind_result (parse_argument_list ex p1) (\<lambda>(arguments, p2).
         bind_result (expect right_paren_token p2) (\<lambda>p3.
           Inr (object_method_call_node object method_name arguments, p3))))"

function parse_property_access :: "node parse \<Rightarrow> node \<Rightarrow> node parse" where
  "parse_property_access ex expr p =
     bind_result (parser_match [dot_token] p) (\<lambda>(m, p1).
       if m then
         bind_result (expect identifier_token p1) (\<lambda>p2.
           bind_result (parser_previous p2) (\<lambda>t.
             let property = tok_lexeme t in
             bind_result (parser_check left_paren_token p2) (\<lambda>c.
               bind_result (if c then parse_method_call ex expr property p2
                            else Inr (property_access_node expr property, p2)) (\<lambda>(expr', p3).
                 bind_result (parser_check dot_token p3) (\<lambda>d.
                   if \<not> d then Inr (expr', p3)
                   else if parser_remaining p3 < parser_remaining p
                   then parse_property_access ex expr' p3 else Inl out_of_fuel)))))
       else Inr (expr, p1))"
  by pat_completeness auto
termination by (relation "measure (\<lambda>(ex, expr, p). parser_remaining p)") auto

declare parse_property_access.simps [simp del]

definition parse_identifier :: "node parse \<Rightarrow> node parse" where
  "parse_identifier ex p =
     bind_result (parser_previous p) (\<lambda>t.
       let identifier = tok_lexeme t in
       bind_result (parser_check left_paren_token p) (\<lambda>c.
         if c then function_call ex p
         else bind_result (parser_check dot_token p) (\<lambda>d.
           if d then parse_property_access ex (variable_node identifier) p
           else Inr (variable_node identifier, p))))"

text \<open>
  \<^verbatim>\<open>parse_template_string\<close>: the loop with the texts and expressions so far. \<open>tp\<close> runs a lexer and
  a parser of its own on the text of an expression.
\<close>

function template_loop ::
    "(variant \<Rightarrow> string) \<Rightarrow> (string \<Rightarrow> node result) \<Rightarrow> string list \<Rightarrow> node list \<Rightarrow> node parse" where
  "template_loop fmt tp text_parts expressions p =
     bind_result (expect template_expr_token p) (\<lambda>p1.
       bind_result (parser_previous p1) (\<lambda>t.
         bind_result (tp (tok_lexeme t)) (\<lambda>e.
           let expressions' = expressions @ [e] in
           bind_result (parser_match [template_middle_token] p1) (\<lambda>(middle, p2).
             if middle then
               bind_result (parser_previous p2) (\<lambda>t.
                 if parser_remaining p2 < parser_remaining p
                 then template_loop fmt tp (text_parts @ [as_string fmt (tok_literal t)]) expressions' p2
                 else Inl out_of_fuel)
             else
               bind_result (parser_match [template_end_token] p2) (\<lambda>(last, p3).
                 if last then
                   bind_result (parser_previous p3) (\<lambda>t.
                     Inr (template_string_node (text_parts @ [as_string fmt (tok_literal t)])
                            expressions', p3))
                 else Inl parse_error_exception)))))"
  by pat_completeness auto
termination
  by (relation "measure (\<lambda>(fmt, tp, texts, expressions, p). parser_remaining p)") auto

declare template_loop.simps [simp del]

definition parse_template_string ::
    "(variant \<Rightarrow> string) \<Rightarrow> (string \<Rightarrow> node result) \<Rightarrow> node parse" where
  "parse_template_string fmt tp p =
     bind_result (parser_previous p) (\<lambda>t.
       template_loop fmt tp [as_string fmt (tok_literal t)] [] p)"

definition primary ::
    "(variant \<Rightarrow> string) \<Rightarrow> (string \<Rightarrow> node result) \<Rightarrow> node parse \<Rightarrow> node parse" where
  "primary fmt tp ex p =
     bind_result (parser_match [number_token] p) (\<lambda>(m, p1).
     if m then bind_result (parser_previous p1) (\<lambda>t. Inr (literal_node (tok_literal t), p1))
     else bind_result (parser_match [string_token] p) (\<lambda>(m, p1).
     if m then bind_result (parser_previous p1) (\<lambda>t. Inr (literal_node (tok_literal t), p1))
     else bind_result (parser_match [template_start_token] p) (\<lambda>(m, p1).
     if m then parse_template_string fmt tp p1
     else bind_result (parser_match [identifier_token] p) (\<lambda>(m, p1).
     if m then parse_identifier ex p1
     else bind_result (parser_match [left_paren_token] p) (\<lambda>(m, p1).
     if m then
       bind_result (ex p1) (\<lambda>(expr, p2).
         bind_result (expect right_paren_token p2) (\<lambda>p3. Inr (expr, p3)))
     else Inl parse_error_exception)))))"

section \<open>The levels of the expression\<close>

function unary ::
    "(variant \<Rightarrow> string) \<Rightarrow> (string \<Rightarrow> node result) \<Rightarrow> node parse \<Rightarrow> node parse" where
  "unary fmt tp ex p =
     bind_result (parser_match [minus_token, logical_not_token, bit_not_token] p) (\<lambda>(m, p1).
       if m then
         bind_result (parser_previous p1) (\<lambda>t.
           let op = (if tok_type t = minus_token then neg_op
                     else if tok_type t = logical_not_token then not_op
                     else if tok_type t = bit_not_token then bit_not_op else neg_op)
           in if parser_remaining p1 < parser_remaining p
              then bind_result (unary fmt tp ex p1) (\<lambda>(right, p2). Inr (unary_op_node op right, p2))
              else Inl out_of_fuel)
       else primary fmt tp ex p)"
  by pat_completeness auto
termination by (relation "measure (\<lambda>(fmt, tp, ex, p). parser_remaining p)") auto

declare unary.simps [simp del]

definition factor where
  "factor fmt tp ex =
     binary_level [asterisk_token, slash_token, percent_token]
       (\<lambda>t. if t = asterisk_token then mul_op else if t = slash_token then div_op
            else if t = percent_token then mod_op else mul_op)
       (unary fmt tp ex)"

definition term_expr where
  "term_expr fmt tp ex =
     binary_level [plus_token, minus_token] (\<lambda>t. if t = plus_token then add_op else sub_op)
       (factor fmt tp ex)"

definition comparison where
  "comparison fmt tp ex =
     binary_level [less_token, less_equals_token, greater_token, greater_equals_token]
       (\<lambda>t. if t = less_token then lt_op else if t = less_equals_token then le_op
            else if t = greater_token then gt_op else if t = greater_equals_token then ge_op
            else eq_op)
       (term_expr fmt tp ex)"

definition equality where
  "equality fmt tp ex =
     binary_level [equals_token, not_equals_token] (\<lambda>t. if t = equals_token then eq_op else ne_op)
       (comparison fmt tp ex)"

definition shift where
  "shift fmt tp ex =
     binary_level [lshift_token, rshift_token] (\<lambda>t. if t = lshift_token then lshift_op else rshift_op)
       (equality fmt tp ex)"

definition bit_and where
  "bit_and fmt tp ex = binary_level [bit_and_token] (\<lambda>t. bit_and_op) (shift fmt tp ex)"

definition bit_xor where
  "bit_xor fmt tp ex = binary_level [bit_xor_token] (\<lambda>t. bit_xor_op) (bit_and fmt tp ex)"

definition bit_or where
  "bit_or fmt tp ex = binary_level [bit_or_token] (\<lambda>t. bit_or_op) (bit_xor fmt tp ex)"

definition logical_and where
  "logical_and fmt tp ex = binary_level [logical_and_token] (\<lambda>t. and_op) (bit_or fmt tp ex)"

definition logical_or where
  "logical_or fmt tp ex = binary_level [logical_or_token] (\<lambda>t. or_op) (logical_and fmt tp ex)"

text \<open>
  \<^verbatim>\<open>expression()\<close> is nothing but \<^verbatim>\<open>conditional()\<close>, so that the false branch is parsed by \<open>ex\<close>.
\<close>

definition conditional ::
    "(variant \<Rightarrow> string) \<Rightarrow> (string \<Rightarrow> node result) \<Rightarrow> node parse \<Rightarrow> node parse" where
  "conditional fmt tp ex p =
     bind_result (logical_or fmt tp ex p) (\<lambda>(expr, p1).
       bind_result (parser_match [question_token] p1) (\<lambda>(m, p2).
         if m then
           bind_result (logical_or fmt tp ex p2) (\<lambda>(true_branch, p3).
             bind_result (expect colon_token p3) (\<lambda>p4.
               bind_result (ex p4) (\<lambda>(false_branch, p5).
                 Inr (conditional_node expr true_branch false_branch, p5))))
         else Inr (expr, p2)))"

primrec expression ::
    "(variant \<Rightarrow> string) \<Rightarrow> (string \<Rightarrow> node result) \<Rightarrow> nat \<Rightarrow> node parse" where
  "expression fmt tp 0 p = Inl out_of_fuel"
| "expression fmt tp (Suc fuel) p = conditional fmt tp (expression fmt tp fuel) p"

text \<open>\<^verbatim>\<open>parse()\<close> turns every other exception into a \<^verbatim>\<open>parse_error_exception\<close>.\<close>

definition parse :: "(variant \<Rightarrow> string) \<Rightarrow> (string \<Rightarrow> node result) \<Rightarrow> parser \<Rightarrow> node result" where
  "parse fmt tp p =
     (case expression fmt tp (parser_remaining p) p of
        Inr (n, _) \<Rightarrow> Inr n
      | Inl e \<Rightarrow> Inl (if e = out_of_fuel then out_of_fuel else parse_error_exception))"

section \<open>The compiler\<close>

text \<open>
  The lexer and the parser on the text of an embedded expression are those of \<^verbatim>\<open>compile\<close> again; the
  text is shorter than the source (\<open>template_expr_shorter\<close>).
\<close>

function engine_compile :: "(variant \<Rightarrow> string) \<Rightarrow> string \<Rightarrow> node result" where
  "engine_compile fmt expr =
     bind_result (scan_tokens (new_lexer expr)) (\<lambda>tokens.
       parse fmt
         (\<lambda>expr_text. if length expr_text < length expr then engine_compile fmt expr_text
                      else Inl out_of_fuel)
         (new_parser tokens))"
  by pat_completeness auto
termination by (relation "measure (\<lambda>(fmt, expr). length expr)") auto

declare engine_compile.simps [simp del]

section \<open>The grammar\<close>

text \<open>
  The binary operators by precedence, 1 binding loosest. Level 0 is the conditional expression,
  level 11 the unary operators, level 12 the primary expressions.
\<close>

definition level_operators :: "nat \<Rightarrow> (token_type \<times> operator_type) list" where
  "level_operators l =
     (if l = 1 then [(logical_or_token, or_op)]
      else if l = 2 then [(logical_and_token, and_op)]
      else if l = 3 then [(bit_or_token, bit_or_op)]
      else if l = 4 then [(bit_xor_token, bit_xor_op)]
      else if l = 5 then [(bit_and_token, bit_and_op)]
      else if l = 6 then [(lshift_token, lshift_op), (rshift_token, rshift_op)]
      else if l = 7 then [(equals_token, eq_op), (not_equals_token, ne_op)]
      else if l = 8 then [(less_token, lt_op), (less_equals_token, le_op),
                          (greater_token, gt_op), (greater_equals_token, ge_op)]
      else if l = 9 then [(plus_token, add_op), (minus_token, sub_op)]
      else if l = 10 then [(asterisk_token, mul_op), (slash_token, div_op), (percent_token, mod_op)]
      else [])"

definition unary_operators :: "(token_type \<times> operator_type) list" where
  "unary_operators = [(minus_token, neg_op), (logical_not_token, not_op), (bit_not_token, bit_not_op)]"

text \<open>
  \<open>gram l ts n\<close>: the tokens \<open>ts\<close> are an expression of level \<open>l\<close> with the node \<open>n\<close>; binary
  operators associate to the left, the conditional to the right. Chains are a variable with member
  accesses and method calls behind it; parts are what follows the opening text of a template.
\<close>

inductive
  gram :: "(variant \<Rightarrow> string) \<Rightarrow> (string \<Rightarrow> node result) \<Rightarrow> nat \<Rightarrow> token list \<Rightarrow> node \<Rightarrow> bool" and
  gram_args :: "(variant \<Rightarrow> string) \<Rightarrow> (string \<Rightarrow> node result) \<Rightarrow> token list \<Rightarrow> node list \<Rightarrow> bool" and
  gram_call :: "(variant \<Rightarrow> string) \<Rightarrow> (string \<Rightarrow> node result) \<Rightarrow> token list \<Rightarrow> node list \<Rightarrow> bool" and
  gram_chain :: "(variant \<Rightarrow> string) \<Rightarrow> (string \<Rightarrow> node result) \<Rightarrow> token list \<Rightarrow> node \<Rightarrow> bool" and
  gram_parts :: "(variant \<Rightarrow> string) \<Rightarrow> (string \<Rightarrow> node result) \<Rightarrow> token list \<Rightarrow> string list \<Rightarrow>
    node list \<Rightarrow> bool"
  for fmt :: "variant \<Rightarrow> string" and tp :: "string \<Rightarrow> node result"
where
  gram_cond: "gram fmt tp 1 cs c \<Longrightarrow> tok_type q = question_token \<Longrightarrow> gram fmt tp 1 ts t \<Longrightarrow>
     tok_type k = colon_token \<Longrightarrow> gram fmt tp 0 fs f \<Longrightarrow>
     gram fmt tp 0 (cs @ [q] @ ts @ [k] @ fs) (conditional_node c t f)"
| gram_up: "l < 12 \<Longrightarrow> gram fmt tp (Suc l) ts n \<Longrightarrow> gram fmt tp l ts n"
| gram_binary: "map_of (level_operators l) (tok_type k) = Some op \<Longrightarrow> gram fmt tp l xs x \<Longrightarrow>
     gram fmt tp (Suc l) ys y \<Longrightarrow> gram fmt tp l (xs @ [k] @ ys) (binary_op_node op x y)"
| gram_unary: "map_of unary_operators (tok_type k) = Some op \<Longrightarrow> gram fmt tp 11 xs x \<Longrightarrow>
     gram fmt tp 11 (k # xs) (unary_op_node op x)"
| gram_literal: "tok_type t = number_token \<or> tok_type t = string_token \<Longrightarrow>
     gram fmt tp 12 [t] (literal_node (tok_literal t))"
| gram_paren: "tok_type a = left_paren_token \<Longrightarrow> gram fmt tp 0 ts n \<Longrightarrow>
     tok_type b = right_paren_token \<Longrightarrow> gram fmt tp 12 ([a] @ ts @ [b]) n"
| gram_function: "tok_type i = identifier_token \<Longrightarrow> gram_call fmt tp ts ns \<Longrightarrow>
     gram fmt tp 12 (i # ts) (function_call_node (tok_lexeme i) ns)"
| gram_member: "gram_chain fmt tp ts n \<Longrightarrow> gram fmt tp 12 ts n"
| gram_template: "tok_type s = template_start_token \<Longrightarrow> gram_parts fmt tp ts texts ns \<Longrightarrow>
     gram fmt tp 12 (s # ts) (template_string_node (as_string fmt (tok_literal s) # texts) ns)"
| args_one: "gram fmt tp 0 ts n \<Longrightarrow> gram_args fmt tp ts [n]"
| args_more: "gram_args fmt tp ts ns \<Longrightarrow> tok_type c = comma_token \<Longrightarrow> gram fmt tp 0 us n \<Longrightarrow>
     gram_args fmt tp (ts @ [c] @ us) (ns @ [n])"
| call_empty: "tok_type a = left_paren_token \<Longrightarrow> tok_type b = right_paren_token \<Longrightarrow>
     gram_call fmt tp [a, b] []"
| call_args: "tok_type a = left_paren_token \<Longrightarrow> gram_args fmt tp ts ns \<Longrightarrow>
     tok_type b = right_paren_token \<Longrightarrow> gram_call fmt tp ([a] @ ts @ [b]) ns"
| chain_variable: "tok_type i = identifier_token \<Longrightarrow> gram_chain fmt tp [i] (variable_node (tok_lexeme i))"
| chain_property: "gram_chain fmt tp ts n \<Longrightarrow> tok_type d = dot_token \<Longrightarrow>
     tok_type i = identifier_token \<Longrightarrow>
     gram_chain fmt tp (ts @ [d, i]) (property_access_node n (tok_lexeme i))"
| chain_method: "gram_chain fmt tp ts n \<Longrightarrow> tok_type d = dot_token \<Longrightarrow>
     tok_type i = identifier_token \<Longrightarrow> gram_call fmt tp us ns \<Longrightarrow>
     gram_chain fmt tp (ts @ [d, i] @ us) (object_method_call_node n (tok_lexeme i) ns)"
| parts_last: "tok_type e = template_expr_token \<Longrightarrow> tp (tok_lexeme e) = Inr n \<Longrightarrow>
     tok_type m = template_end_token \<Longrightarrow>
     gram_parts fmt tp [e, m] [as_string fmt (tok_literal m)] [n]"
| parts_more: "tok_type e = template_expr_token \<Longrightarrow> tp (tok_lexeme e) = Inr n \<Longrightarrow>
     tok_type m = template_middle_token \<Longrightarrow> gram_parts fmt tp ts texts ns \<Longrightarrow>
     gram_parts fmt tp (e # m # ts) (as_string fmt (tok_literal m) # texts) (n # ns)"

section \<open>Reading runs of tokens\<close>

text \<open>
  A parser over tokens that end with the end of file, the texts of the embedded expressions being
  parsed within the fuel, and the reading of a run of tokens.
\<close>

definition parser_ok :: "(string \<Rightarrow> node result) \<Rightarrow> parser \<Rightarrow> bool" where
  "parser_ok tp p \<longleftrightarrow>
     ps_current p < length (ps_tokens p) \<and> tok_type (last (ps_tokens p)) = end_of_file_token \<and>
     (\<forall>t \<in> set (ps_tokens p). tok_type t = template_expr_token \<longrightarrow> tp (tok_lexeme t) \<noteq> Inl out_of_fuel)"

definition tokens_left :: "parser \<Rightarrow> token list" where
  "tokens_left p = drop (ps_current p) (ps_tokens p)"

definition reads :: "(string \<Rightarrow> node result) \<Rightarrow> parser \<Rightarrow> token list \<Rightarrow> parser \<Rightarrow> bool" where
  "reads tp p ts q \<longleftrightarrow>
     q = p\<lparr>ps_current := ps_current p + length ts\<rparr> \<and> parser_ok tp q \<and>
     tokens_left p = ts @ tokens_left q"

definition head_token :: "parser \<Rightarrow> token" where
  "head_token p = ps_tokens p ! ps_current p"

lemma length_tokens_left: "length (tokens_left p) = parser_remaining p"
  by (simp add: tokens_left_def parser_remaining_def)

lemma reads_refl [simp]: "reads tp p [] q \<longleftrightarrow> q = p \<and> parser_ok tp p"
  by (auto simp: reads_def)

lemma reads_trans: "reads tp p ts q \<Longrightarrow> reads tp q us r \<Longrightarrow> reads tp p (ts @ us) r"
  unfolding reads_def by (elim conjE, intro conjI) (simp_all add: add.assoc)

lemma reads_ok: "reads tp p ts q \<Longrightarrow> parser_ok tp q"
  unfolding reads_def by blast

lemma reads_remaining: "reads tp p ts q \<Longrightarrow> parser_remaining p = length ts + parser_remaining q"
  by (metis reads_def length_append length_tokens_left)

lemma tokens_left_ok: "parser_ok tp p \<Longrightarrow> tokens_left p = head_token p # tl (tokens_left p)"
  by (simp add: parser_ok_def tokens_left_def head_token_def Cons_nth_drop_Suc [symmetric])

lemma reads_head:
  assumes "parser_ok tp p" and "tok_type (head_token p) \<noteq> end_of_file_token"
  shows "reads tp p [head_token p] (p\<lparr>ps_current := ps_current p + 1\<rparr>)"
proof -
  have "ps_current p \<noteq> length (ps_tokens p) - 1"
    using assms by (cases "ps_tokens p = []") (auto simp: parser_ok_def head_token_def last_conv_nth)
  with assms(1) show ?thesis
    by (auto simp: reads_def parser_ok_def tokens_left_def head_token_def Cons_nth_drop_Suc [symmetric])
qed

lemma parser_check_ok:
  "parser_ok tp p \<Longrightarrow> parser_check type p =
     Inr (tok_type (head_token p) \<noteq> end_of_file_token \<and> tok_type (head_token p) = type)"
  by (simp add: parser_check_def parser_is_at_end_def parser_peek_def parser_ok_def head_token_def)

lemma parser_match_ok:
  "parser_ok tp p \<Longrightarrow> parser_match types p =
     (if tok_type (head_token p) \<noteq> end_of_file_token \<and> tok_type (head_token p) \<in> set types
      then Inr (True, p\<lparr>ps_current := ps_current p + 1\<rparr>) else Inr (False, p))"
proof (induction types)
  case (Cons type types)
  then show ?case
    by (auto simp: parser_check_ok)
       (auto simp: parser_advance_def parser_is_at_end_def parser_peek_def parser_previous_def
         parser_ok_def head_token_def)
qed simp

declare parser_match.simps [simp del]

lemma parser_previous_reads:
  assumes "reads tp p (ts @ [t]) q"
  shows "parser_previous q = Inr t"
proof -
  have q: "ps_tokens q = ps_tokens p" "ps_current q = Suc (ps_current p + length ts)"
      "ps_current q < length (ps_tokens q)" and l: "tokens_left p = (ts @ [t]) @ tokens_left q"
    using assms unfolding reads_def parser_ok_def by auto
  have "drop (ps_current p + length ts) (ps_tokens p) = drop (length ts) (tokens_left p)"
    by (simp add: tokens_left_def add.commute)
  also have "\<dots> = t # tokens_left q" by (simp add: l)
  finally have "ps_tokens p ! (ps_current p + length ts) = t" by (rule nth_via_drop)
  with q show ?thesis by (simp add: parser_previous_def)
qed

lemmas parser_previous_read1 = parser_previous_reads [where ts = "[]", simplified]

section \<open>The parser reads what the grammar derives\<close>

text \<open>
  \<open>parses tp k f G\<close>: on at most \<open>k\<close> tokens the method \<open>f\<close> stays within the fuel, and what it
  returns derives from the tokens it has read.
\<close>

definition read_as :: "(string \<Rightarrow> node result) \<Rightarrow> (token list \<Rightarrow> 'a \<Rightarrow> bool) \<Rightarrow> parser \<Rightarrow> token list \<Rightarrow>
    'a \<times> parser \<Rightarrow> bool" where
  "read_as tp G p us xq \<longleftrightarrow> (\<exists>ts. reads tp p ts (snd xq) \<and> G (us @ ts) (fst xq))"

definition parses :: "(string \<Rightarrow> node result) \<Rightarrow> nat \<Rightarrow> 'a parse \<Rightarrow> (token list \<Rightarrow> 'a \<Rightarrow> bool) \<Rightarrow> bool" where
  "parses tp k f G \<longleftrightarrow>
     (\<forall>p. parser_ok tp p \<and> parser_remaining p \<le> k \<longrightarrow> yields (f p) (read_as tp G p []))"

lemma parsesD: "parses tp k f G \<Longrightarrow> parser_ok tp p \<Longrightarrow> parser_remaining p \<le> k \<Longrightarrow>
    yields (f p) (\<lambda>(x, q). \<exists>ts. reads tp p ts q \<and> G ts x)"
  unfolding parses_def by (auto simp: read_as_def intro: yields_mono)

lemma parsesI:
  "(\<And>p. parser_ok tp p \<Longrightarrow> parser_remaining p \<le> k \<Longrightarrow>
      yields (f p) (\<lambda>(x, q). \<exists>ts. reads tp p ts q \<and> G ts x)) \<Longrightarrow> parses tp k f G"
  unfolding parses_def read_as_def
  by (intro allI impI, elim conjE) (simp add: case_prod_unfold)

lemma yields_match:
  "parser_ok tp p \<Longrightarrow>
   yields (parser_match types p)
     (\<lambda>(m, q). if m then \<exists>t. tok_type t \<in> set types \<and> reads tp p [t] q else q = p)"
  using reads_head [of tp p] by (auto simp: parser_match_ok)

lemma yields_expect:
  "parser_ok tp p \<Longrightarrow> yields (expect type p) (\<lambda>q. \<exists>t. tok_type t = type \<and> reads tp p [t] q)"
  unfolding expect_def by (rule yields_bind [OF yields_match]) (auto split: if_splits)

lemma gram_not_Nil:
  "gram fmt tp l ts n \<Longrightarrow> ts \<noteq> []"
  "gram_args fmt tp ts ns \<Longrightarrow> ts \<noteq> []"
  "gram_call fmt tp ts ns \<Longrightarrow> ts \<noteq> []"
  "gram_chain fmt tp ts n \<Longrightarrow> ts \<noteq> []"
  "gram_parts fmt tp ts texts ns \<Longrightarrow> ts \<noteq> []"
  by (induction rule: gram_gram_args_gram_call_gram_chain_gram_parts.inducts) auto

text \<open>The loop of a level of binary operators, after the tokens \<open>us\<close> of its left operand.\<close>

lemma binary_loop_parses:
  assumes sub: "parses tp k sub (gram fmt tp (Suc l))"
    and ops: "\<And>ty. ty \<in> set types \<Longrightarrow> map_of (level_operators l) ty = Some (op ty)"
  shows "parser_ok tp p \<Longrightarrow> parser_remaining p \<le> k \<Longrightarrow> gram fmt tp l us expr \<Longrightarrow>
    yields (binary_loop types op sub expr p) (\<lambda>(x, q). \<exists>ts. reads tp p ts q \<and> gram fmt tp l (us @ ts) x)"
proof (induction "parser_remaining p" arbitrary: p us expr rule: less_induct)
  case less
  show ?case
  proof (subst binary_loop.simps, rule yields_bind [OF yields_match], rule less.prems, clarify)
    fix m p1
    assume "if m then \<exists>t. tok_type t \<in> set types \<and> reads tp p [t] p1 else p1 = p"
    then show "yields (if m then bind_result (parser_previous p1) (\<lambda>t. bind_result (sub p1) (\<lambda>(right, p2).
          if parser_remaining p2 < parser_remaining p
          then binary_loop types op sub (binary_op_node (op (tok_type t)) expr right) p2
          else Inl out_of_fuel)) else Inr (expr, p1))
        (\<lambda>(x, q). \<exists>ts. reads tp p ts q \<and> gram fmt tp l (us @ ts) x)"
    proof (cases m)
      case True
      with \<open>if m then _ else _\<close> obtain t where t: "tok_type t \<in> set types" "reads tp p [t] p1" by auto
      have rem: "parser_remaining p = Suc (parser_remaining p1)" using reads_remaining [OF t(2)] by simp
      have "yields (bind_result (sub p1) (\<lambda>(right, p2).
          if parser_remaining p2 < parser_remaining p
          then binary_loop types op sub (binary_op_node (op (tok_type t)) expr right) p2
          else Inl out_of_fuel)) (\<lambda>(x, q). \<exists>ts. reads tp p ts q \<and> gram fmt tp l (us @ ts) x)"
      proof (rule yields_bind [OF parsesD [OF sub reads_ok [OF t(2)]]], use rem less.prems in simp, clarify)
        fix right p2 ts
        assume r: "reads tp p1 ts p2" "gram fmt tp (Suc l) ts right"
        have rp: "reads tp p ([t] @ ts) p2" using t(2) r(1) by (rule reads_trans)
        have lt: "parser_remaining p2 < parser_remaining p" using reads_remaining [OF rp] by simp
        have "gram fmt tp l (us @ [t] @ ts) (binary_op_node (op (tok_type t)) expr right)"
          using ops [OF t(1)] less.prems(3) r(2) by (rule gram_binary)
        from less.hyps [OF lt reads_ok [OF rp] _ this]
        show "yields (if parser_remaining p2 < parser_remaining p
            then binary_loop types op sub (binary_op_node (op (tok_type t)) expr right) p2
            else Inl out_of_fuel) (\<lambda>(x, q). \<exists>ts. reads tp p ts q \<and> gram fmt tp l (us @ ts) x)"
          using lt less.prems(2) reads_trans [OF rp] by (fastforce intro: yields_mono)
      qed
      with True t(2) show ?thesis by (simp add: parser_previous_read1)
    next
      case False
      with \<open>if m then _ else _\<close> less.prems show ?thesis by (auto intro!: exI [of _ "[]"])
    qed
  qed
qed

lemma binary_level_parses:
  assumes sub: "parses tp k sub (gram fmt tp (Suc l))" and "l < 12"
    and ops: "\<And>ty. ty \<in> set types \<Longrightarrow> map_of (level_operators l) ty = Some (op ty)"
  shows "parses tp k (binary_level types op sub) (gram fmt tp l)"
  unfolding parses_def binary_level_def
proof (intro allI impI, elim conjE, rule yields_bind [OF parsesD [OF sub]], assumption, assumption, clarify)
  fix p expr p1 ts
  assume p: "parser_ok tp p" "parser_remaining p \<le> k" and r: "reads tp p ts p1" "gram fmt tp (Suc l) ts expr"
  have "parser_remaining p1 \<le> k" using reads_remaining [OF r(1)] p(2) by simp
  from binary_loop_parses [OF sub ops reads_ok [OF r(1)] this gram_up [OF \<open>l < 12\<close> r(2)]]
  show "yields (binary_loop types op sub expr p1) (read_as tp (gram fmt tp l) p [])"
    using reads_trans [OF r(1)] by (fastforce simp: read_as_def intro: yields_mono)
qed

lemma argument_loop_parses:
  assumes ex: "parses tp k ex (gram fmt tp 0)"
  shows "parser_ok tp p \<Longrightarrow> parser_remaining p \<le> k \<Longrightarrow>
    us = [] \<and> arguments = [] \<or>
      (\<exists>vs c. us = vs @ [c] \<and> tok_type c = comma_token \<and> gram_args fmt tp vs arguments) \<Longrightarrow>
    yields (argument_loop ex arguments p) (\<lambda>(x, q). \<exists>ts. reads tp p ts q \<and> gram_args fmt tp (us @ ts) x)"
proof (induction "parser_remaining p" arbitrary: p us arguments rule: less_induct)
  case less
  show ?case
  proof (subst argument_loop.simps,
      rule yields_bind [OF parsesD [OF ex less.prems(1,2)]], clarify,
      rule yields_bind [OF yields_match], erule reads_ok, clarify)
    fix a p1 ts m p2
    assume r: "reads tp p ts p1" "gram fmt tp 0 ts a"
      and m: "if m then \<exists>t. tok_type t \<in> set [comma_token] \<and> reads tp p1 [t] p2 else p2 = p1"
    have args: "gram_args fmt tp (us @ ts) (arguments @ [a])"
      using less.prems(3) r(2) args_more [of fmt tp] args_one by force
    show "yields (if m then if parser_remaining p2 < parser_remaining p
            then argument_loop ex (arguments @ [a]) p2 else Inl out_of_fuel
          else Inr (arguments @ [a], p2))
        (\<lambda>(x, q). \<exists>ts. reads tp p ts q \<and> gram_args fmt tp (us @ ts) x)"
    proof (cases m)
      case True
      with m obtain c where c: "tok_type c = comma_token" "reads tp p1 [c] p2" by auto
      have rp: "reads tp p (ts @ [c]) p2" using r(1) c(2) by (rule reads_trans)
      have lt: "parser_remaining p2 < parser_remaining p" using reads_remaining [OF rp] by simp
      have "yields (argument_loop ex (arguments @ [a]) p2)
          (\<lambda>(x, q). \<exists>ts'. reads tp p2 ts' q \<and> gram_args fmt tp ((us @ ts @ [c]) @ ts') x)"
        using less.hyps [OF lt reads_ok [OF rp], of "us @ ts @ [c]" "arguments @ [a]"] lt less.prems(2) args c(1)
        by force
      with True lt reads_trans [OF rp] show ?thesis by (fastforce intro: yields_mono)
    next
      case False
      with m r args show ?thesis by auto
    qed
  qed
qed

text \<open>The argument list between its parentheses, as both kinds of call read it.\<close>

lemma call_parses:
  assumes ex: "parses tp k ex (gram fmt tp 0)" and p: "parser_ok tp p" "parser_remaining p \<le> Suc k"
    and a: "tok_type a = left_paren_token" "reads tp p [a] p1"
  shows "yields (bind_result (parse_argument_list ex p1) (\<lambda>(arguments, p2).
           bind_result (expect right_paren_token p2) (\<lambda>p3. Inr (f arguments, p3))))
         (\<lambda>(x, q). \<exists>ts ns. reads tp p ts q \<and> gram_call fmt tp ts ns \<and> x = f ns)"
proof -
  note ok1 = reads_ok [OF a(2)]
  have rem: "parser_remaining p1 \<le> k" using reads_remaining [OF a(2)] p(2) by simp
  have "yields (parse_argument_list ex p1)
      (\<lambda>(ns, p2). \<exists>ts. reads tp p1 ts p2 \<and> (ts = [] \<and> ns = [] \<or> gram_args fmt tp ts ns))"
  proof (cases "tok_type (head_token p1) = right_paren_token")
    case True
    with ok1 show ?thesis
      by (auto simp: parse_argument_list_def parser_check_ok [OF ok1] intro!: exI [of _ "[]"])
  next
    case False
    then have "parse_argument_list ex p1 = argument_loop ex [] p1"
      by (simp add: parse_argument_list_def parser_check_ok [OF ok1])
    moreover have "yields (argument_loop ex [] p1)
        (\<lambda>(ns, p2). \<exists>ts. reads tp p1 ts p2 \<and> gram_args fmt tp ts ns)"
      using argument_loop_parses [OF ex ok1 rem, of "[]" "[]"] by simp
    ultimately show ?thesis by (auto intro: yields_mono)
  qed
  then show ?thesis
  proof (rule yields_bind, clarify)
    fix ns p2 ts
    assume r: "reads tp p1 ts p2" and ns: "ts = [] \<and> ns = [] \<or> gram_args fmt tp ts ns"
    show "yields (bind_result (expect right_paren_token p2) (\<lambda>p3. Inr (f ns, p3)))
       (\<lambda>(x, q). \<exists>ts ns. reads tp p ts q \<and> gram_call fmt tp ts ns \<and> x = f ns)"
    proof (rule yields_bind [OF yields_expect [OF reads_ok [OF r]]], clarsimp)
      fix p3 b
      assume b: "tok_type b = right_paren_token" "reads tp p2 [b] p3"
      have "reads tp p ([a] @ ts @ [b]) p3" using reads_trans [OF a(2) reads_trans [OF r b(2)]] .
      moreover have "gram_call fmt tp ([a] @ ts @ [b]) ns"
        using ns call_empty [OF a(1) b(1), of fmt tp] call_args [OF a(1) _ b(1), of fmt tp] by auto
      ultimately show "\<exists>ts'. reads tp p ts' p3 \<and> (\<exists>ns'. gram_call fmt tp ts' ns' \<and> f ns = f ns')"
        by blast
    qed
  qed
qed

lemma function_call_parses:
  assumes ex: "parses tp k ex (gram fmt tp 0)" and p: "parser_ok tp p" "parser_remaining p \<le> Suc k"
    and prev: "parser_previous p = Inr i"
  shows "yields (function_call ex p)
    (\<lambda>(x, q). \<exists>ts ns. reads tp p ts q \<and> gram_call fmt tp ts ns \<and> x = function_call_node (tok_lexeme i) ns)"
  unfolding function_call_def prev bind_result_simps Let_def
  by (rule yields_bind [OF yields_expect [OF p(1)]], clarify)
     (rule call_parses [OF ex p], auto)

lemma parse_method_call_parses:
  assumes ex: "parses tp k ex (gram fmt tp 0)" and p: "parser_ok tp p" "parser_remaining p \<le> Suc k"
    and c: "parser_check left_paren_token p = Inr True"
  shows "yields (parse_method_call ex obj name p)
    (\<lambda>(x, q). \<exists>ts ns. reads tp p ts q \<and> gram_call fmt tp ts ns \<and> x = object_method_call_node obj name ns)"
proof -
  have h: "tok_type (head_token p) = left_paren_token" using c p(1) by (simp add: parser_check_ok)
  then have "reads tp p [head_token p] (p\<lparr>ps_current := ps_current p + 1\<rparr>)"
    by (intro reads_head [OF p(1)]) simp
  from call_parses [OF ex p h this, of "object_method_call_node obj name"] show ?thesis
    using h by (simp add: parse_method_call_def parser_match_ok [OF p(1)])
qed

lemma parse_property_access_parses:
  assumes ex: "parses tp k ex (gram fmt tp 0)"
  shows "parser_ok tp p \<Longrightarrow> parser_remaining p \<le> Suc k \<Longrightarrow> gram_chain fmt tp us expr \<Longrightarrow>
    yields (parse_property_access ex expr p)
      (\<lambda>(x, q). \<exists>ts. reads tp p ts q \<and> gram_chain fmt tp (us @ ts) x)"
proof (induction "parser_remaining p" arbitrary: p us expr rule: less_induct)
  case less
  note p = less.prems(1)
  let ?Q = "\<lambda>(x, q). \<exists>ts. reads tp p ts q \<and> gram_chain fmt tp (us @ ts) x"
  show ?case
  proof (cases "tok_type (head_token p) = dot_token")
    case False
    with p less.prems(3) show ?thesis
      by (subst parse_property_access.simps)
         (auto simp: parser_match_ok [OF p] intro!: exI [of _ "[]"])
  next
    case True
    define p1 where "p1 = p\<lparr>ps_current := ps_current p + 1\<rparr>"
    have d: "reads tp p [head_token p] p1" unfolding p1_def by (rule reads_head [OF p]) (simp add: True)
    have m: "parser_match [dot_token] p = Inr (True, p1)"
      by (simp add: parser_match_ok [OF p] True p1_def)
    show ?thesis
    proof (subst parse_property_access.simps, unfold m bind_result_simps prod.case if_True,
        rule yields_bind [OF yields_expect [OF reads_ok [OF d]]], clarify)
      fix p2 i
      assume i: "reads tp p1 [i] p2" and ident: "tok_type i = identifier_token"
      have di: "reads tp p [head_token p, i] p2" using reads_trans [OF d i] by simp
      note prev = parser_previous_read1 [OF i] and ok2 = reads_ok [OF di]
      have rem2: "parser_remaining p2 \<le> Suc k" using reads_remaining [OF di] less.prems(2) by simp
      have member: "yields (if c then parse_method_call ex expr (tok_lexeme i) p2
            else Inr (property_access_node expr (tok_lexeme i), p2))
          (\<lambda>(x, q). \<exists>ts. reads tp p2 ts q \<and> gram_chain fmt tp (us @ [head_token p, i] @ ts) x)"
        if c: "parser_check left_paren_token p2 = Inr c" for c
      proof (cases c)
        case True
        with c have "yields (parse_method_call ex expr (tok_lexeme i) p2)
            (\<lambda>(x, q). \<exists>ts ns. reads tp p2 ts q \<and> gram_call fmt tp ts ns \<and>
               x = object_method_call_node expr (tok_lexeme i) ns)"
          using parse_method_call_parses [OF ex ok2 rem2] by simp
        then show ?thesis
          using True chain_method [OF less.prems(3) \<open>tok_type (head_token p) = dot_token\<close> ident]
          by (auto elim!: yields_mono)
      next
        case False
        then show ?thesis
          using chain_property [OF less.prems(3) \<open>tok_type (head_token p) = dot_token\<close> ident] ok2
          by (auto intro!: exI [of _ "[]"])
      qed
      show "yields (bind_result (parser_previous p2) (\<lambda>t. let property = tok_lexeme t in
              bind_result (parser_check left_paren_token p2) (\<lambda>c.
                bind_result (if c then parse_method_call ex expr property p2
                   else Inr (property_access_node expr property, p2)) (\<lambda>(expr', p3).
                  bind_result (parser_check dot_token p3) (\<lambda>d. if \<not> d then Inr (expr', p3)
                    else if parser_remaining p3 < parser_remaining p
                    then parse_property_access ex expr' p3 else Inl out_of_fuel))))) ?Q"
      proof (unfold prev bind_result_simps Let_def, subst parser_check_ok [OF ok2],
          unfold bind_result_simps, rule yields_bind [OF member], rule parser_check_ok [OF ok2], clarify)
        fix expr' p3 ts
        assume r: "reads tp p2 ts p3" and ch: "gram_chain fmt tp (us @ [head_token p, i] @ ts) expr'"
        have rp: "reads tp p ([head_token p, i] @ ts) p3" using di r by (rule reads_trans)
        have lt: "parser_remaining p3 < parser_remaining p" using reads_remaining [OF rp] by simp
        from less.hyps [OF lt reads_ok [OF rp] _ ch] lt less.prems(2)
        have "yields (parse_property_access ex expr' p3)
            (\<lambda>(x, q). \<exists>ts'. reads tp p3 ts' q \<and> gram_chain fmt tp ((us @ [head_token p, i] @ ts) @ ts') x)"
          by simp
        then have "yields (parse_property_access ex expr' p3) ?Q"
          using reads_trans [OF rp] by (fastforce elim!: yields_mono)
        then show "yields (bind_result (parser_check dot_token p3) (\<lambda>d. if \<not> d then Inr (expr', p3)
             else if parser_remaining p3 < parser_remaining p
             then parse_property_access ex expr' p3 else Inl out_of_fuel)) ?Q"
          using rp ch lt by (auto simp: parser_check_ok [OF reads_ok [OF rp]])
      qed
    qed
  qed
qed

lemma parse_identifier_parses:
  assumes ex: "parses tp k ex (gram fmt tp 0)" and p: "parser_ok tp p" "parser_remaining p \<le> Suc k"
    and prev: "parser_previous p = Inr i" and i: "tok_type i = identifier_token"
  shows "yields (parse_identifier ex p) (\<lambda>(x, q). \<exists>ts. reads tp p ts q \<and> gram fmt tp 12 ([i] @ ts) x)"
proof -
  have "yields (function_call ex p) (\<lambda>(x, q). \<exists>ts. reads tp p ts q \<and> gram fmt tp 12 ([i] @ ts) x)"
    using function_call_parses [OF ex p prev] gram_function [OF i] by (auto elim!: yields_mono)
  moreover have "yields (parse_property_access ex (variable_node (tok_lexeme i)) p)
      (\<lambda>(x, q). \<exists>ts. reads tp p ts q \<and> gram fmt tp 12 ([i] @ ts) x)"
    using parse_property_access_parses [OF ex p chain_variable [OF i]] gram_member
    by (auto elim!: yields_mono)
  moreover have "yields (Inr (variable_node (tok_lexeme i), p))
      (\<lambda>(x, q). \<exists>ts. reads tp p ts q \<and> gram fmt tp 12 ([i] @ ts) x)"
    using p(1) gram_member [OF chain_variable [OF i]] by (auto intro!: exI [of _ "[]"])
  ultimately show ?thesis
    by (simp add: parse_identifier_def prev Let_def parser_check_ok [OF p(1)])
qed

lemma head_template_expr:
  "reads tp p [t] q \<Longrightarrow> parser_ok tp p \<Longrightarrow> tok_type t = template_expr_token \<Longrightarrow>
     tp (tok_lexeme t) \<noteq> Inl out_of_fuel"
proof -
  assume "reads tp p [t] q" "parser_ok tp p" "tok_type t = template_expr_token"
  moreover from this(1) have "t \<in> set (ps_tokens p)"
    by (metis append_Cons in_set_dropD list.set_intros(1) reads_def tokens_left_def)
  ultimately show ?thesis by (simp add: parser_ok_def)
qed

lemma template_loop_parses:
  "parser_ok tp p \<Longrightarrow> yields (template_loop fmt tp texts es p)
     (\<lambda>(x, q). \<exists>ts us ns. reads tp p ts q \<and> gram_parts fmt tp ts us ns \<and>
        x = template_string_node (texts @ us) (es @ ns))"
proof (induction "parser_remaining p" arbitrary: p texts es rule: less_induct)
  case less
  let ?Q = "\<lambda>(x, q). \<exists>ts us ns. reads tp p ts q \<and> gram_parts fmt tp ts us ns \<and>
        x = template_string_node (texts @ us) (es @ ns)"
  show ?case
  proof (subst template_loop.simps, rule yields_bind [OF yields_expect [OF less.prems]], clarify)
    fix p1 e
    assume e: "reads tp p [e] p1" and te: "tok_type e = template_expr_token"
    note ok1 = reads_ok [OF e]
    have fuel: "tp (tok_lexeme e) \<noteq> Inl out_of_fuel" using e less.prems te by (rule head_template_expr)
    let ?text = "\<lambda>m. as_string fmt (tok_literal m)"
    have "yields (bind_result (parser_match [template_middle_token] p1) (\<lambda>(middle, p2).
             if middle then bind_result (parser_previous p2) (\<lambda>t.
                 if parser_remaining p2 < parser_remaining p
                 then template_loop fmt tp (texts @ [?text t]) (es @ [n]) p2 else Inl out_of_fuel)
             else bind_result (parser_match [template_end_token] p2) (\<lambda>(last, p3).
                 if last then bind_result (parser_previous p3) (\<lambda>t.
                     Inr (template_string_node (texts @ [?text t]) (es @ [n]), p3))
                 else Inl parse_error_exception))) ?Q"
      if n: "tp (tok_lexeme e) = Inr n" for n
    proof (rule yields_bind [OF yields_match [OF ok1]], clarify)
      fix middle p2
      assume m: "if middle then \<exists>t. tok_type t \<in> set [template_middle_token] \<and> reads tp p1 [t] p2
                 else p2 = p1"
      show "yields (if middle then bind_result (parser_previous p2) (\<lambda>t.
                 if parser_remaining p2 < parser_remaining p
                 then template_loop fmt tp (texts @ [?text t]) (es @ [n]) p2 else Inl out_of_fuel)
             else bind_result (parser_match [template_end_token] p2) (\<lambda>(last, p3).
                 if last then bind_result (parser_previous p3) (\<lambda>t.
                     Inr (template_string_node (texts @ [?text t]) (es @ [n]), p3))
                 else Inl parse_error_exception)) ?Q"
      proof (cases middle)
        case True
        with m obtain t where t: "tok_type t = template_middle_token" "reads tp p1 [t] p2" by auto
        have rp: "reads tp p [e, t] p2" using reads_trans [OF e t(2)] by simp
        have lt: "parser_remaining p2 < parser_remaining p" using reads_remaining [OF rp] by simp
        have "yields (template_loop fmt tp (texts @ [?text t]) (es @ [n]) p2) ?Q"
        proof (rule yields_mono [OF less.hyps [OF lt reads_ok [OF rp]]], elim case_prodE exE conjE)
          fix xq x q ts us ns
          assume r: "reads tp p2 ts q" and g: "gram_parts fmt tp ts us ns"
            and x: "xq = (x, q)" "x = template_string_node ((texts @ [?text t]) @ us) ((es @ [n]) @ ns)"
          have "gram_parts fmt tp ([e, t] @ ts) (?text t # us) (n # ns)"
            using parts_more [of e tp n t fmt, OF te n t(1) g] by simp
          with reads_trans [OF rp r] x show "?Q xq" by auto
        qed
        with True lt t(2) show ?thesis by (simp add: parser_previous_read1)
      next
        case False
        with m have "p2 = p1" by simp
        have "yields (bind_result (parser_match [template_end_token] p1) (\<lambda>(last, p3).
                 if last then bind_result (parser_previous p3) (\<lambda>t.
                     Inr (template_string_node (texts @ [?text t]) (es @ [n]), p3))
                 else Inl parse_error_exception)) ?Q"
        proof (rule yields_bind [OF yields_match [OF ok1]], clarify)
          fix last p3
          assume l: "if last then \<exists>t. tok_type t \<in> set [template_end_token] \<and> reads tp p1 [t] p3
                     else p3 = p1"
          show "yields (if last then bind_result (parser_previous p3) (\<lambda>t.
                     Inr (template_string_node (texts @ [?text t]) (es @ [n]), p3))
                 else Inl parse_error_exception) ?Q"
          proof (cases last)
            case True
            with l obtain t where t: "tok_type t = template_end_token" "reads tp p1 [t] p3" by auto
            with True reads_trans [OF e t(2)] parts_last [of e tp n t fmt, OF te n t(1)]
            show ?thesis by (simp add: parser_previous_read1) blast
          qed simp
        qed
        with False \<open>p2 = p1\<close> show ?thesis by simp
      qed
    qed
    with fuel show "yields (bind_result (parser_previous p1) (\<lambda>t.
         bind_result (tp (tok_lexeme t)) (\<lambda>e. let expressions' = es @ [e] in
           bind_result (parser_match [template_middle_token] p1) (\<lambda>(middle, p2).
             if middle then bind_result (parser_previous p2) (\<lambda>t.
                 if parser_remaining p2 < parser_remaining p
                 then template_loop fmt tp (texts @ [?text t]) expressions' p2 else Inl out_of_fuel)
             else bind_result (parser_match [template_end_token] p2) (\<lambda>(last, p3).
                 if last then bind_result (parser_previous p3) (\<lambda>t.
                     Inr (template_string_node (texts @ [?text t]) expressions', p3))
                 else Inl parse_error_exception))))) ?Q"
      unfolding parser_previous_read1 [OF e] bind_result_simps Let_def
      by (cases "tp (tok_lexeme e)") auto
  qed
qed

text \<open>A primary expression by its first token.\<close>

lemma primary_eval:
  assumes p: "parser_ok tp p" and r: "reads tp p [t] p1"
  shows "tok_type t = number_token \<or> tok_type t = string_token \<Longrightarrow>
      primary fmt tp ex p = Inr (literal_node (tok_literal t), p1)"
    and "tok_type t = template_start_token \<Longrightarrow>
      primary fmt tp ex p = template_loop fmt tp [as_string fmt (tok_literal t)] [] p1"
    and "tok_type t = identifier_token \<Longrightarrow> primary fmt tp ex p = parse_identifier ex p1"
    and "tok_type t = left_paren_token \<Longrightarrow> primary fmt tp ex p =
      bind_result (ex p1) (\<lambda>(expr, p2). bind_result (expect right_paren_token p2) (\<lambda>p3. Inr (expr, p3)))"
proof -
  have h: "head_token p = t" and p1: "p1 = p\<lparr>ps_current := ps_current p + 1\<rparr>"
    using tokens_left_ok [OF p] r by (simp_all add: reads_def)
  have m: "parser_match [ty] p = Inr (if tok_type t = ty then (True, p1) else (False, p))"
    if "ty \<noteq> end_of_file_token" for ty
    using that by (simp add: parser_match_ok [OF p] h p1)
  note prev = parser_previous_read1 [OF r]
  show "primary fmt tp ex p = Inr (literal_node (tok_literal t), p1)"
    if "tok_type t = number_token \<or> tok_type t = string_token"
    using that prev by (auto simp: primary_def m)
  show "primary fmt tp ex p = template_loop fmt tp [as_string fmt (tok_literal t)] [] p1"
    if "tok_type t = template_start_token"
    using that prev by (simp add: primary_def m parse_template_string_def)
  show "primary fmt tp ex p = parse_identifier ex p1" if "tok_type t = identifier_token"
    using that by (simp add: primary_def m)
  show "primary fmt tp ex p =
      bind_result (ex p1) (\<lambda>(expr, p2). bind_result (expect right_paren_token p2) (\<lambda>p3. Inr (expr, p3)))"
    if "tok_type t = left_paren_token"
    using that by (simp add: primary_def m)
qed

lemma primary_parses:
  assumes ex: "parses tp k ex (gram fmt tp 0)"
  shows "parses tp (Suc k) (primary fmt tp ex) (gram fmt tp 12)"
  unfolding parses_def
proof (intro allI impI, elim conjE)
  fix p
  assume p: "parser_ok tp p" "parser_remaining p \<le> Suc k"
  let ?t = "head_token p" and ?p1 = "p\<lparr>ps_current := ps_current p + 1\<rparr>"
  let ?goal = "yields (primary fmt tp ex p) (read_as tp (gram fmt tp 12) p [])"
  have rd: "reads tp p [?t] ?p1" if "tok_type ?t \<noteq> end_of_file_token" using p(1) that by (rule reads_head)
  consider (lit) "tok_type ?t = number_token \<or> tok_type ?t = string_token"
    | (tmpl) "tok_type ?t = template_start_token" | (ident) "tok_type ?t = identifier_token"
    | (paren) "tok_type ?t = left_paren_token"
    | (other) "tok_type ?t \<notin> {number_token, string_token, template_start_token, identifier_token,
        left_paren_token}"
    by auto
  then show ?goal
  proof cases
    case lit
    then have r: "reads tp p [?t] ?p1" by (intro rd) auto
    show ?thesis using r primary_eval(1) [OF p(1) r lit] gram_literal [OF lit] by (auto simp: read_as_def)
  next
    case tmpl
    then have r: "reads tp p [?t] ?p1" by (intro rd) auto
    have "yields (template_loop fmt tp [as_string fmt (tok_literal ?t)] [] ?p1)
        (read_as tp (gram fmt tp 12) p [])"
      using reads_trans [OF r] gram_template [OF tmpl]
      by (intro yields_mono [OF template_loop_parses [OF reads_ok [OF r]]]) (fastforce simp: read_as_def)
    then show ?thesis using primary_eval(2) [OF p(1) r tmpl] by simp
  next
    case ident
    then have r: "reads tp p [?t] ?p1" by (intro rd) auto
    have "parser_remaining ?p1 \<le> Suc k" using reads_remaining [OF r] p(2) by simp
    then have "yields (parse_identifier ex ?p1) (read_as tp (gram fmt tp 12) p [])"
      using reads_trans [OF r] parser_previous_read1 [OF r]
      by (intro yields_mono [OF parse_identifier_parses [OF ex reads_ok [OF r] _ _ ident]])
         (fastforce simp: read_as_def)+
    then show ?thesis using primary_eval(3) [OF p(1) r ident] by simp
  next
    case paren
    then have r: "reads tp p [?t] ?p1" by (intro rd) auto
    have rem: "parser_remaining ?p1 \<le> k" using reads_remaining [OF r] p(2) by simp
    have "yields (bind_result (ex ?p1) (\<lambda>(expr, p2).
        bind_result (expect right_paren_token p2) (\<lambda>p3. Inr (expr, p3)))) (read_as tp (gram fmt tp 12) p [])"
    proof (rule yields_bind [OF parsesD [OF ex reads_ok [OF r] rem]], clarify)
      fix expr p2 ts
      assume e: "reads tp ?p1 ts p2" "gram fmt tp 0 ts expr"
      show "yields (bind_result (expect right_paren_token p2) (\<lambda>p3. Inr (expr, p3)))
          (read_as tp (gram fmt tp 12) p [])"
      proof (rule yields_bind [OF yields_expect [OF reads_ok [OF e(1)]]], clarify)
        fix p3 b
        assume b: "reads tp p2 [b] p3" "tok_type b = right_paren_token"
        show "yields (Inr (expr, p3)) (read_as tp (gram fmt tp 12) p [])"
          using reads_trans [OF r reads_trans [OF e(1) b(1)]] gram_paren [OF paren e(2) b(2)]
          by (auto simp: read_as_def)
      qed
    qed
    then show ?thesis using primary_eval(4) [OF p(1) r paren] by simp
  next
    case other
    then have "primary fmt tp ex p = Inl parse_error_exception"
      by (simp add: primary_def parser_match_ok [OF p(1)])
    then show ?thesis by simp
  qed
qed

lemma unary_parses:
  assumes ex: "parses tp k ex (gram fmt tp 0)"
  shows "parses tp (Suc k) (unary fmt tp ex) (gram fmt tp 11)"
proof -
  have "yields (unary fmt tp ex p) (\<lambda>(x, q). \<exists>ts. reads tp p ts q \<and> gram fmt tp 11 ts x)"
    if "parser_ok tp p" "parser_remaining p \<le> Suc k" for p
    using that
  proof (induction "parser_remaining p" arbitrary: p rule: less_induct)
    case less
    note p = less.prems(1)
    let ?t = "head_token p" and ?p1 = "p\<lparr>ps_current := ps_current p + 1\<rparr>"
    show ?case
    proof (cases "map_of unary_operators (tok_type ?t)")
      case None
      then have "parser_match [minus_token, logical_not_token, bit_not_token] p = Inr (False, p)"
        by (auto simp: parser_match_ok [OF p] unary_operators_def split: if_splits)
      then have "unary fmt tp ex p = primary fmt tp ex p" by (subst unary.simps) simp
      moreover have "11 < (12::nat)" by simp
      ultimately show ?thesis
        using parsesD [OF primary_parses [OF ex] less.prems] gram_up [of 11 fmt tp]
        by (auto elim!: yields_mono)
    next
      case (Some op)
      then have ty: "tok_type ?t \<in> {minus_token, logical_not_token, bit_not_token}"
        by (auto simp: unary_operators_def split: if_splits)
      have r: "reads tp p [?t] ?p1" using ty by (intro reads_head [OF p]) auto
      have lt: "parser_remaining ?p1 < parser_remaining p" using reads_remaining [OF r] by simp
      have m: "parser_match [minus_token, logical_not_token, bit_not_token] p = Inr (True, ?p1)"
        using ty by (auto simp: parser_match_ok [OF p])
      have op: "(if tok_type ?t = minus_token then neg_op else if tok_type ?t = logical_not_token
          then not_op else if tok_type ?t = bit_not_token then bit_not_op else neg_op) = op"
        using Some ty by (auto simp: unary_operators_def)
      have "unary fmt tp ex p = bind_result (unary fmt tp ex ?p1) (\<lambda>(right, p2). Inr (unary_op_node op right, p2))"
        unfolding unary.simps [of fmt tp ex p] m bind_result_simps prod.case if_True
          parser_previous_read1 [OF r] Let_def op using lt by simp
      moreover have "yields (bind_result (unary fmt tp ex ?p1) (\<lambda>(right, p2). Inr (unary_op_node op right, p2)))
          (\<lambda>(x, q). \<exists>ts. reads tp p ts q \<and> gram fmt tp 11 ts x)"
        using reads_trans [OF r] gram_unary [OF Some]
        by (intro yields_bind [OF less.hyps [OF lt reads_ok [OF r]]]) (use lt less.prems(2) in \<open>fastforce+\<close>)
      ultimately show ?thesis by simp
    qed
  qed
  then show ?thesis by (rule parsesI)
qed

lemma levels_parse:
  assumes ex: "parses tp k ex (gram fmt tp 0)"
  shows factor_parses: "parses tp (Suc k) (factor fmt tp ex) (gram fmt tp 10)"
    and term_parses: "parses tp (Suc k) (term_expr fmt tp ex) (gram fmt tp 9)"
    and comparison_parses: "parses tp (Suc k) (comparison fmt tp ex) (gram fmt tp 8)"
    and equality_parses: "parses tp (Suc k) (equality fmt tp ex) (gram fmt tp 7)"
    and shift_parses: "parses tp (Suc k) (shift fmt tp ex) (gram fmt tp 6)"
    and bit_and_parses: "parses tp (Suc k) (bit_and fmt tp ex) (gram fmt tp 5)"
    and bit_xor_parses: "parses tp (Suc k) (bit_xor fmt tp ex) (gram fmt tp 4)"
    and bit_or_parses: "parses tp (Suc k) (bit_or fmt tp ex) (gram fmt tp 3)"
    and logical_and_parses: "parses tp (Suc k) (logical_and fmt tp ex) (gram fmt tp 2)"
    and logical_or_parses: "parses tp (Suc k) (logical_or fmt tp ex) (gram fmt tp 1)"
proof -
  show 10: "parses tp (Suc k) (factor fmt tp ex) (gram fmt tp 10)"
    unfolding factor_def
    by (rule binary_level_parses) (use unary_parses [OF ex] in \<open>auto simp: level_operators_def\<close>)
  show 9: "parses tp (Suc k) (term_expr fmt tp ex) (gram fmt tp 9)"
    unfolding term_expr_def by (rule binary_level_parses) (use 10 in \<open>auto simp: level_operators_def\<close>)
  show 8: "parses tp (Suc k) (comparison fmt tp ex) (gram fmt tp 8)"
    unfolding comparison_def by (rule binary_level_parses) (use 9 in \<open>auto simp: level_operators_def\<close>)
  show 7: "parses tp (Suc k) (equality fmt tp ex) (gram fmt tp 7)"
    unfolding equality_def by (rule binary_level_parses) (use 8 in \<open>auto simp: level_operators_def\<close>)
  show 6: "parses tp (Suc k) (shift fmt tp ex) (gram fmt tp 6)"
    unfolding shift_def by (rule binary_level_parses) (use 7 in \<open>auto simp: level_operators_def\<close>)
  show 5: "parses tp (Suc k) (bit_and fmt tp ex) (gram fmt tp 5)"
    unfolding bit_and_def by (rule binary_level_parses) (use 6 in \<open>auto simp: level_operators_def\<close>)
  show 4: "parses tp (Suc k) (bit_xor fmt tp ex) (gram fmt tp 4)"
    unfolding bit_xor_def by (rule binary_level_parses) (use 5 in \<open>auto simp: level_operators_def\<close>)
  show 3: "parses tp (Suc k) (bit_or fmt tp ex) (gram fmt tp 3)"
    unfolding bit_or_def by (rule binary_level_parses) (use 4 in \<open>auto simp: level_operators_def\<close>)
  show 2: "parses tp (Suc k) (logical_and fmt tp ex) (gram fmt tp 2)"
    unfolding logical_and_def
    by (rule binary_level_parses) (use 3 in \<open>auto simp: level_operators_def numeral_3_eq_3\<close>)
  show "parses tp (Suc k) (logical_or fmt tp ex) (gram fmt tp 1)"
    unfolding logical_or_def
    by (rule binary_level_parses) (use 2 in \<open>auto simp: level_operators_def numeral_2_eq_2\<close>)
qed

lemma conditional_parses:
  assumes ex: "parses tp k ex (gram fmt tp 0)"
  shows "parses tp (Suc k) (conditional fmt tp ex) (gram fmt tp 0)"
  unfolding parses_def
proof (intro allI impI, elim conjE)
  fix p
  assume p: "parser_ok tp p" "parser_remaining p \<le> Suc k"
  note or = parsesD [OF logical_or_parses [OF ex]]
  let ?Q = "read_as tp (gram fmt tp 0) p []"
  show "yields (conditional fmt tp ex p) ?Q"
    unfolding conditional_def
  proof (rule yields_bind [OF or [OF p]], clarify, rule yields_bind [OF yields_match], erule reads_ok, clarify)
    fix expr p1 ts m p2
    assume c: "reads tp p ts p1" "gram fmt tp 1 ts expr"
      and m: "if m then \<exists>t. tok_type t \<in> set [question_token] \<and> reads tp p1 [t] p2 else p2 = p1"
    show "yields (if m then bind_result (logical_or fmt tp ex p2) (\<lambda>(true_branch, p3).
            bind_result (expect colon_token p3) (\<lambda>p4. bind_result (ex p4) (\<lambda>(false_branch, p5).
              Inr (conditional_node expr true_branch false_branch, p5))))
          else Inr (expr, p2)) ?Q"
    proof (cases m)
      case False
      with m c gram_up [of 0 fmt tp ts expr] show ?thesis by (auto simp: read_as_def)
    next
      case True
      with m obtain t where q: "tok_type t = question_token" "reads tp p1 [t] p2" by auto
      have r2: "reads tp p (ts @ [t]) p2" using reads_trans [OF c(1) q(2)] .
      have rem2: "parser_remaining p2 \<le> Suc k" using reads_remaining [OF r2] p(2) by simp
      have "yields (bind_result (logical_or fmt tp ex p2) (\<lambda>(true_branch, p3).
            bind_result (expect colon_token p3) (\<lambda>p4. bind_result (ex p4) (\<lambda>(false_branch, p5).
              Inr (conditional_node expr true_branch false_branch, p5))))) ?Q"
      proof (rule yields_bind [OF or [OF reads_ok [OF r2] rem2]], clarify,
          rule yields_bind [OF yields_expect], erule reads_ok, clarify)
        fix yes p3 us p4 col
        assume y: "reads tp p2 us p3" "gram fmt tp 1 us yes"
          and col: "reads tp p3 [col] p4" "tok_type col = colon_token"
        have r4: "reads tp p (ts @ [t] @ us @ [col]) p4"
          using reads_trans [OF r2 reads_trans [OF y(1) col(1)]] by simp
        have rem4: "parser_remaining p4 \<le> k" using reads_remaining [OF r4] p(2) by simp
        show "yields (bind_result (ex p4) (\<lambda>(false_branch, p5).
              Inr (conditional_node expr yes false_branch, p5))) ?Q"
        proof (rule yields_bind [OF parsesD [OF ex reads_ok [OF r4] rem4]], clarify)
          fix no p5 vs
          assume n: "reads tp p4 vs p5" "gram fmt tp 0 vs no"
          show "yields (Inr (conditional_node expr yes no, p5)) ?Q"
            using reads_trans [OF r4 n(1)] gram_cond [OF c(2) q(1) y(2) col(2) n(2)]
            by (auto simp: read_as_def)
        qed
      qed
      with True show ?thesis by simp
    qed
  qed
qed

lemma expression_parses: "parses tp k (expression fmt tp k) (gram fmt tp 0)"
proof (induction k)
  case 0
  then show ?case by (auto simp: parses_def parser_ok_def parser_remaining_def)
next
  case (Suc k)
  have "expression fmt tp (Suc k) = conditional fmt tp (expression fmt tp k)" by (rule ext) simp
  with conditional_parses [OF Suc] show ?case by simp
qed

section \<open>The parser accepts what the grammar derives\<close>

definition token_level :: "token_type \<Rightarrow> nat" where
  "token_level ty =
     (case ty of logical_or_token \<Rightarrow> 1 | logical_and_token \<Rightarrow> 2 | bit_or_token \<Rightarrow> 3
      | bit_xor_token \<Rightarrow> 4 | bit_and_token \<Rightarrow> 5 | lshift_token \<Rightarrow> 6 | rshift_token \<Rightarrow> 6
      | equals_token \<Rightarrow> 7 | not_equals_token \<Rightarrow> 7 | less_token \<Rightarrow> 8 | less_equals_token \<Rightarrow> 8
      | greater_token \<Rightarrow> 8 | greater_equals_token \<Rightarrow> 8 | plus_token \<Rightarrow> 9 | minus_token \<Rightarrow> 9
      | asterisk_token \<Rightarrow> 10 | slash_token \<Rightarrow> 10 | percent_token \<Rightarrow> 10 | _ \<Rightarrow> 0)"

text \<open>A token at which an expression of level \<open>l\<close> ends.\<close>

definition stops :: "nat \<Rightarrow> token_type \<Rightarrow> bool" where
  "stops l ty \<longleftrightarrow> ty \<noteq> left_paren_token \<and> ty \<noteq> dot_token \<and> token_level ty \<le> l \<and>
     (l = 0 \<longrightarrow> ty \<noteq> question_token)"

definition level_op :: "nat \<Rightarrow> token_type \<Rightarrow> operator_type" where
  "level_op l =
     (if l = 1 then (\<lambda>t. or_op) else if l = 2 then (\<lambda>t. and_op) else if l = 3 then (\<lambda>t. bit_or_op)
      else if l = 4 then (\<lambda>t. bit_xor_op) else if l = 5 then (\<lambda>t. bit_and_op)
      else if l = 6 then (\<lambda>t. if t = lshift_token then lshift_op else rshift_op)
      else if l = 7 then (\<lambda>t. if t = equals_token then eq_op else ne_op)
      else if l = 8 then
        (\<lambda>t. if t = less_token then lt_op else if t = less_equals_token then le_op
             else if t = greater_token then gt_op else if t = greater_equals_token then ge_op
             else eq_op)
      else if l = 9 then (\<lambda>t. if t = plus_token then add_op else sub_op)
      else (\<lambda>t. if t = asterisk_token then mul_op else if t = slash_token then div_op
                else if t = percent_token then mod_op else mul_op))"

definition level_parser ::
    "(variant \<Rightarrow> string) \<Rightarrow> (string \<Rightarrow> node result) \<Rightarrow> node parse \<Rightarrow> nat \<Rightarrow> node parse" where
  "level_parser fmt tp ex l =
     (if l = 0 then conditional fmt tp ex else if l = 1 then logical_or fmt tp ex
      else if l = 2 then logical_and fmt tp ex else if l = 3 then bit_or fmt tp ex
      else if l = 4 then bit_xor fmt tp ex else if l = 5 then bit_and fmt tp ex
      else if l = 6 then shift fmt tp ex else if l = 7 then equality fmt tp ex
      else if l = 8 then comparison fmt tp ex else if l = 9 then term_expr fmt tp ex
      else if l = 10 then factor fmt tp ex else if l = 11 then unary fmt tp ex
      else primary fmt tp ex)"

text \<open>What the parser of a level does when its first operand is \<open>n\<close> and the state is \<open>q\<close>.\<close>

definition continue_level ::
    "(variant \<Rightarrow> string) \<Rightarrow> (string \<Rightarrow> node result) \<Rightarrow> node parse \<Rightarrow> nat \<Rightarrow> node \<Rightarrow> node parse" where
  "continue_level fmt tp ex l n q =
     (if 1 \<le> l \<and> l \<le> 10
      then binary_loop (map fst (level_operators l)) (level_op l) (level_parser fmt tp ex (Suc l)) n q
      else Inr (n, q))"

lemma level_cases:
  fixes l :: nat
  assumes "1 \<le> l" "l \<le> 10"
  shows "l = 1 \<or> l = 2 \<or> l = 3 \<or> l = 4 \<or> l = 5 \<or> l = 6 \<or> l = 7 \<or> l = 8 \<or> l = 9 \<or> l = 10"
  using assms by arith

lemma level_parser_binary:
  assumes "1 \<le> l" "l \<le> 10"
  shows "level_parser fmt tp ex l p =
    bind_result (level_parser fmt tp ex (Suc l) p) (\<lambda>(n, q). continue_level fmt tp ex l n q)"
  using level_cases [OF assms]
  by (elim disjE)
     (simp_all add: level_parser_def continue_level_def level_operators_def level_op_def
       binary_level_def logical_or_def logical_and_def bit_or_def bit_xor_def bit_and_def shift_def
       equality_def comparison_def term_expr_def factor_def numeral_2_eq_2 [symmetric])

lemma level_operators_iff:
  "ty \<in> fst ` set (level_operators l) \<longleftrightarrow> token_level ty = l \<and> l \<noteq> 0"
  by (cases ty) (auto simp: level_operators_def token_level_def image_iff)

lemma map_of_level_operators:
  assumes "map_of (level_operators l) ty = Some op"
  shows "1 \<le> l" "l \<le> 10" "token_level ty = l" "level_op l ty = op" "ty \<noteq> end_of_file_token"
    "stops l ty"
proof -
  have "l = token_level ty" "l \<noteq> 0"
    using assms level_operators_iff [of ty l] by (force dest: map_of_SomeD)+
  with assms show "1 \<le> l" "l \<le> 10" "token_level ty = l" "level_op l ty = op" "ty \<noteq> end_of_file_token"
    "stops l ty"
    by (cases ty; simp add: token_level_def level_operators_def level_op_def stops_def)+
qed

lemma reads_split:
  assumes "reads tp p (xs @ ys) q"
  obtains m where "reads tp p xs m" "reads tp m ys q"
proof
  let ?m = "p\<lparr>ps_current := ps_current p + length xs\<rparr>"
  have q: "q = p\<lparr>ps_current := ps_current p + (length xs + length ys)\<rparr>" "parser_ok tp q"
    and left: "tokens_left p = xs @ ys @ tokens_left q"
    using assms unfolding reads_def by auto
  have m: "tokens_left ?m = drop (length xs) (tokens_left p)"
    by (simp add: tokens_left_def add.commute)
  have ok: "parser_ok tp ?m" using q unfolding parser_ok_def by auto
  show "reads tp p xs ?m" using left m ok by (simp add: reads_def)
  show "reads tp ?m ys q" using left m q by (simp add: reads_def add.assoc)
qed

lemma reads_head_token: "reads tp p (t # ts) q \<Longrightarrow> parser_ok tp p \<Longrightarrow> head_token p = t"
  using tokens_left_ok by (fastforce simp: reads_def)

lemma reads_one:
  "reads tp p [t] q \<Longrightarrow> q = p\<lparr>ps_current := ps_current p + 1\<rparr>"
  by (simp add: reads_def)

text \<open>Elementary operations on a read token.\<close>

lemma match_read:
  assumes "reads tp p [t] q" "parser_ok tp p" "tok_type t \<in> set types" "tok_type t \<noteq> end_of_file_token"
  shows "parser_match types p = Inr (True, q)"
  using assms reads_head_token [OF assms(1,2)] reads_one [OF assms(1)] by (simp add: parser_match_ok)

lemma match_other:
  "parser_ok tp p \<Longrightarrow> tok_type (head_token p) \<notin> set types \<Longrightarrow> parser_match types p = Inr (False, p)"
  by (simp add: parser_match_ok)

lemma expect_read:
  assumes "reads tp p [t] q" "parser_ok tp p" "tok_type t = type" "type \<noteq> end_of_file_token"
  shows "expect type p = Inr q"
  using match_read [OF assms(1,2), of "[type]"] assms(3,4) by (simp add: expect_def)

text \<open>
  What completeness means for each kind of derivation; \<open>expression fmt tp k\<close> has enough fuel for
  what it is called on.
\<close>

definition level_complete where
  "level_complete fmt tp l ts n \<longleftrightarrow>
     (\<forall>k p q. parser_ok tp p \<longrightarrow> reads tp p ts q \<longrightarrow> parser_remaining p \<le> Suc k \<longrightarrow>
        stops l (tok_type (head_token q)) \<longrightarrow>
        level_parser fmt tp (expression fmt tp k) l p =
          continue_level fmt tp (expression fmt tp k) l n q)"

definition args_complete where
  "args_complete fmt tp ts ns \<longleftrightarrow>
     (\<forall>k p q acc. parser_ok tp p \<longrightarrow> reads tp p ts q \<longrightarrow> parser_remaining p \<le> k \<longrightarrow>
        tok_type (head_token q) \<in> {comma_token, right_paren_token} \<longrightarrow>
        argument_loop (expression fmt tp k) acc p =
          (if tok_type (head_token q) = comma_token
           then argument_loop (expression fmt tp k) (acc @ ns) (q\<lparr>ps_current := ps_current q + 1\<rparr>)
           else Inr (acc @ ns, q)))"

definition call_complete where
  "call_complete fmt tp ts ns \<longleftrightarrow>
     (\<forall>k p q (f :: node list \<Rightarrow> node). parser_ok tp p \<longrightarrow> reads tp p ts q \<longrightarrow> parser_remaining p \<le> Suc k \<longrightarrow>
        (\<exists>a p1. tok_type a = left_paren_token \<and> reads tp p [a] p1 \<and>
           bind_result (parse_argument_list (expression fmt tp k) p1) (\<lambda>(arguments, p2).
             bind_result (expect right_paren_token p2) (\<lambda>p3. Inr (f arguments, p3))) = Inr (f ns, q)))"

definition chain_complete where
  "chain_complete fmt tp ts n \<longleftrightarrow>
     (\<exists>i us. ts = i # us \<and> tok_type i = identifier_token \<and>
        (if us = [] then n = variable_node (tok_lexeme i)
         else \<forall>k p q. parser_ok tp p \<longrightarrow> reads tp p us q \<longrightarrow> parser_remaining p \<le> Suc k \<longrightarrow>
           tok_type (head_token q) \<noteq> left_paren_token \<longrightarrow>
           tok_type (head_token p) = dot_token \<and>
           parse_property_access (expression fmt tp k) (variable_node (tok_lexeme i)) p =
             (if tok_type (head_token q) = dot_token
              then parse_property_access (expression fmt tp k) n q else Inr (n, q))))"

definition parts_complete where
  "parts_complete fmt tp ts texts ns \<longleftrightarrow>
     (\<forall>p q acc es. parser_ok tp p \<longrightarrow> reads tp p ts q \<longrightarrow>
        template_loop fmt tp acc es p = Inr (template_string_node (acc @ texts) (es @ ns), q))"

lemma level_completeD:
  "level_complete fmt tp l ts n \<Longrightarrow> parser_ok tp p \<Longrightarrow> reads tp p ts q \<Longrightarrow> parser_remaining p \<le> Suc k \<Longrightarrow>
     stops l (tok_type (head_token q)) \<Longrightarrow>
     level_parser fmt tp (expression fmt tp k) l p = continue_level fmt tp (expression fmt tp k) l n q"
  by (simp add: level_complete_def)

text \<open>At a token that ends the level, the level is finished.\<close>

lemma continue_level_stop:
  assumes "stops l' (tok_type (head_token q))" "l' < l \<or> l' = 0" "parser_ok tp q"
  shows "continue_level fmt tp ex l n q = Inr (n, q)"
proof (cases "1 \<le> l \<and> l \<le> 10")
  case True
  have "tok_type (head_token q) \<notin> set (map fst (level_operators l))"
    using level_operators_iff [of "tok_type (head_token q)" l] assms(1,2) True by (auto simp: stops_def)
  with True show ?thesis
    by (simp add: continue_level_def, subst binary_loop.simps) (simp add: match_other [OF assms(3)])
qed (auto simp: continue_level_def)

text \<open>An expression in parentheses, among arguments, or in a branch: with fuel for its tokens.\<close>

lemma expression_complete:
  assumes "level_complete fmt tp 0 ts n" "parser_ok tp p" "reads tp p ts q" "parser_remaining p \<le> k"
    "stops 0 (tok_type (head_token q))"
  shows "expression fmt tp k p = Inr (n, q)"
proof -
  have "0 < parser_remaining p" using assms(2) by (simp add: parser_ok_def parser_remaining_def)
  then obtain k' where k: "k = Suc k'" using assms(4) by (cases k) auto
  have "level_parser fmt tp (expression fmt tp k') 0 p = continue_level fmt tp (expression fmt tp k') 0 n q"
    using assms k by (intro level_completeD) auto
  then show ?thesis by (simp add: k level_parser_def continue_level_def)
qed

lemma complete_up:
  assumes "l < 12" "level_complete fmt tp (Suc l) ts n" "ts \<noteq> []"
    and prim: "l = 11 \<Longrightarrow> tok_type (hd ts) \<notin> {minus_token, logical_not_token, bit_not_token}"
  shows "level_complete fmt tp l ts n"
  unfolding level_complete_def
proof (intro allI impI)
  fix k p q
  assume p: "parser_ok tp p" "reads tp p ts q" "parser_remaining p \<le> Suc k"
    and stop: "stops l (tok_type (head_token q))"
  let ?ex = "expression fmt tp k"
  have "stops (Suc l) (tok_type (head_token q))" using stop by (auto simp: stops_def)
  then have sub: "level_parser fmt tp ?ex (Suc l) p = continue_level fmt tp ?ex (Suc l) n q"
    using assms(2) p by (intro level_completeD)
  also have "\<dots> = Inr (n, q)" using stop reads_ok [OF p(2)] by (intro continue_level_stop) auto
  finally have sub: "level_parser fmt tp ?ex (Suc l) p = Inr (n, q)" .
  consider "l = 0" | "1 \<le> l \<and> l \<le> 10" | "l = 11" using assms(1) by linarith
  then show "level_parser fmt tp ?ex l p = continue_level fmt tp ?ex l n q"
  proof cases
    case 1
    with sub stop match_other [OF reads_ok [OF p(2)], of "[question_token]"]
    show ?thesis by (simp add: level_parser_def continue_level_def conditional_def stops_def)
  next
    case 2
    with sub show ?thesis by (simp add: level_parser_binary)
  next
    case 3
    have "head_token p = hd ts" using reads_head_token [of tp p "hd ts" "tl ts" q] p assms(3) by simp
    with prim 3 have "parser_match [minus_token, logical_not_token, bit_not_token] p = Inr (False, p)"
      by (intro match_other [OF p(1)]) simp
    with sub 3 show ?thesis
      by (simp add: level_parser_def continue_level_def, subst unary.simps) simp
  qed
qed

lemma complete_binary:
  assumes op: "map_of (level_operators l) (tok_type o') = Some op"
    and x: "level_complete fmt tp l xs x" and y: "level_complete fmt tp (Suc l) ys y"
  shows "level_complete fmt tp l (xs @ [o'] @ ys) (binary_op_node op x y)"
  unfolding level_complete_def
proof (intro allI impI)
  fix k p q
  assume p: "parser_ok tp p" "reads tp p (xs @ [o'] @ ys) q" "parser_remaining p \<le> Suc k"
    and stop: "stops l (tok_type (head_token q))"
  let ?ex = "expression fmt tp k"
  note l = map_of_level_operators [OF op]
  obtain m where m: "reads tp p xs m" "reads tp m ([o'] @ ys) q" using p(2) by (rule reads_split)
  obtain m' where m': "reads tp m [o'] m'" "reads tp m' ys q" using m(2) by (rule reads_split)
  note okm = reads_ok [OF m(1)] and okm' = reads_ok [OF m'(1)] and okq = reads_ok [OF p(2)]
  have head: "head_token m = o'" using reads_head_token [OF m'(1) okm] .
  have mem: "tok_type o' \<in> set (map fst (level_operators l))"
    using op by (force dest: map_of_SomeD)
  have "level_parser fmt tp ?ex l p = continue_level fmt tp ?ex l x m"
    using x p(1) m(1) p(3) l(6) head by (intro level_completeD) simp_all
  also have "\<dots> = bind_result (level_parser fmt tp ?ex (Suc l) m') (\<lambda>(right, p2).
        if parser_remaining p2 < parser_remaining m
        then continue_level fmt tp ?ex l (binary_op_node op x right) p2 else Inl out_of_fuel)"
    using l match_read [OF m'(1) okm mem l(5)]
    by (simp add: continue_level_def, subst binary_loop.simps)
       (simp add: parser_previous_read1 [OF m'(1)] continue_level_def cong: if_cong)
  also have "level_parser fmt tp ?ex (Suc l) m' = Inr (y, q)"
  proof -
    have "parser_remaining m' \<le> Suc k"
      using p(3) reads_remaining [OF m(1)] reads_remaining [OF m'(1)] by simp
    moreover have "stops (Suc l) (tok_type (head_token q))" using stop by (auto simp: stops_def)
    ultimately have "level_parser fmt tp ?ex (Suc l) m' = continue_level fmt tp ?ex (Suc l) y q"
      using y okm' m'(2) by (intro level_completeD)
    also have "\<dots> = Inr (y, q)" using stop okq by (intro continue_level_stop) auto
    finally show ?thesis .
  qed
  finally show "level_parser fmt tp ?ex l p = continue_level fmt tp ?ex l (binary_op_node op x y) q"
    using reads_remaining [OF m(2)] by simp
qed

lemma complete_unary:
  assumes op: "map_of unary_operators (tok_type o') = Some op" and x: "level_complete fmt tp 11 xs x"
  shows "level_complete fmt tp 11 (o' # xs) (unary_op_node op x)"
  unfolding level_complete_def
proof (intro allI impI)
  fix k p q
  assume p: "parser_ok tp p" "reads tp p (o' # xs) q" "parser_remaining p \<le> Suc k"
    and stop: "stops 11 (tok_type (head_token q))"
  let ?ex = "expression fmt tp k"
  obtain m where m: "reads tp p [o'] m" "reads tp m xs q"
    using p(2) reads_split [of tp p "[o']" xs q] by auto
  have ty: "tok_type o' \<in> {minus_token, logical_not_token, bit_not_token}"
    using op by (auto simp: unary_operators_def split: if_splits)
  then have match: "parser_match [minus_token, logical_not_token, bit_not_token] p = Inr (True, m)"
    by (intro match_read [OF m(1) p(1)]) auto
  have "parser_remaining m \<le> Suc k" using p(3) reads_remaining [OF m(1)] by simp
  then have "unary fmt tp ?ex m = Inr (x, q)"
    using level_completeD [OF x reads_ok [OF m(1)] m(2)] stop
    by (simp add: level_parser_def continue_level_def)
  moreover have "(if tok_type o' = minus_token then neg_op else if tok_type o' = logical_not_token
          then not_op else if tok_type o' = bit_not_token then bit_not_op else neg_op) = op"
    using op ty by (auto simp: unary_operators_def)
  ultimately show "level_parser fmt tp ?ex 11 p = continue_level fmt tp ?ex 11 (unary_op_node op x) q"
    using match parser_previous_read1 [OF m(1)] reads_remaining [OF m(1)]
    by (simp add: level_parser_def continue_level_def, subst unary.simps) simp
qed

lemma complete_conditional:
  assumes c: "level_complete fmt tp 1 cs c" "tok_type qt = question_token"
    and t: "level_complete fmt tp 1 ts t" "tok_type col = colon_token"
    and f: "level_complete fmt tp 0 fs f"
  shows "level_complete fmt tp 0 (cs @ [qt] @ ts @ [col] @ fs) (conditional_node c t f)"
  unfolding level_complete_def
proof (intro allI impI)
  fix k p q
  assume p: "parser_ok tp p" "reads tp p (cs @ [qt] @ ts @ [col] @ fs) q" "parser_remaining p \<le> Suc k"
    and stop: "stops 0 (tok_type (head_token q))"
  let ?ex = "expression fmt tp k"
  obtain p1 where p1: "reads tp p cs p1" "reads tp p1 ([qt] @ ts @ [col] @ fs) q"
    using p(2) by (rule reads_split)
  obtain p2 where p2: "reads tp p1 [qt] p2" "reads tp p2 (ts @ [col] @ fs) q" using p1(2) by (rule reads_split)
  obtain p3 where p3: "reads tp p2 ts p3" "reads tp p3 ([col] @ fs) q" using p2(2) by (rule reads_split)
  obtain p4 where p4: "reads tp p3 [col] p4" "reads tp p4 fs q" using p3(2) by (rule reads_split)
  note ok = reads_ok [OF p1(1)] reads_ok [OF p2(1)] reads_ok [OF p3(1)] reads_ok [OF p4(1)]
  note rem = reads_remaining [OF p1(1)] reads_remaining [OF p2(1)] reads_remaining [OF p3(1)]
    reads_remaining [OF p4(1)]
  have h1: "head_token p1 = qt" using reads_head_token [OF p2(1) ok(1)] .
  have h3: "head_token p3 = col" using reads_head_token [OF p4(1) ok(3)] .
  have or: "logical_or fmt tp ?ex p' = Inr (n, q')"
    if "level_complete fmt tp 1 us n" "parser_ok tp p'" "reads tp p' us q'" "parser_remaining p' \<le> Suc k"
      "tok_type (head_token q') = question_token \<or> tok_type (head_token q') = colon_token" for us n p' q'
  proof -
    have s: "stops 1 (tok_type (head_token q'))" using that(5) by (auto simp: stops_def token_level_def)
    have nm: "parser_match [logical_or_token] q' = Inr (False, q')"
      using that(5) by (intro match_other [OF reads_ok [OF that(3)]]) auto
    have "level_parser fmt tp ?ex 1 p' = continue_level fmt tp ?ex 1 n q'"
      using that s by (intro level_completeD)
    also have "\<dots> = Inr (n, q')"
      by (simp add: continue_level_def level_operators_def, subst binary_loop.simps) (simp add: nm)
    finally show ?thesis by (simp add: level_parser_def)
  qed
  have "logical_or fmt tp ?ex p = Inr (c, p1)" using p h1 c by (intro or [OF _ _ p1(1)]) simp_all
  moreover have "logical_or fmt tp ?ex p2 = Inr (t, p3)"
    using p(3) rem h3 t ok by (intro or [OF _ _ p3(1)]) simp_all
  moreover have "?ex p4 = Inr (f, q)"
    using p(3) rem ok stop by (intro expression_complete [OF f _ p4(2)]) simp_all
  moreover have "parser_match [question_token] p1 = Inr (True, p2)"
    using c(2) by (intro match_read [OF p2(1) ok(1)]) simp_all
  moreover have "expect colon_token p3 = Inr p4" using t(2) by (intro expect_read [OF p4(1) ok(3)]) simp_all
  ultimately show "level_parser fmt tp ?ex 0 p = continue_level fmt tp ?ex 0 (conditional_node c t f) q"
    by (simp add: level_parser_def continue_level_def conditional_def)
qed

lemma complete_literal:
  assumes "tok_type t = number_token \<or> tok_type t = string_token"
  shows "level_complete fmt tp 12 [t] (literal_node (tok_literal t))"
  unfolding level_complete_def
  by (simp add: level_parser_def continue_level_def primary_eval(1) [OF _ _ assms])

lemma complete_paren:
  assumes a: "tok_type a = left_paren_token" and n: "level_complete fmt tp 0 ts n"
    and b: "tok_type b = right_paren_token"
  shows "level_complete fmt tp 12 ([a] @ ts @ [b]) n"
  unfolding level_complete_def
proof (intro allI impI)
  fix k p q
  assume p: "parser_ok tp p" "reads tp p ([a] @ ts @ [b]) q" "parser_remaining p \<le> Suc k"
  obtain p1 where p1: "reads tp p [a] p1" "reads tp p1 (ts @ [b]) q" using p(2) by (rule reads_split)
  obtain p2 where p2: "reads tp p1 ts p2" "reads tp p2 [b] q" using p1(2) by (rule reads_split)
  note ok = reads_ok [OF p1(1)] reads_ok [OF p2(1)]
  have "expression fmt tp k p1 = Inr (n, p2)"
    using p(3) reads_remaining [OF p1(1)] reads_head_token [OF p2(2) ok(2)] b
    by (intro expression_complete [OF n ok(1) p2(1)]) (simp_all add: stops_def token_level_def)
  moreover have "expect right_paren_token p2 = Inr q" using b by (intro expect_read [OF p2(2) ok(2)]) simp_all
  ultimately show "level_parser fmt tp (expression fmt tp k) 12 p =
      continue_level fmt tp (expression fmt tp k) 12 n q"
    using primary_eval(4) [OF p(1) p1(1) a] by (simp add: level_parser_def continue_level_def)
qed

lemma complete_args_one:
  assumes n: "level_complete fmt tp 0 ts n"
  shows "args_complete fmt tp ts [n]"
  unfolding args_complete_def
proof (intro allI impI)
  fix k p q acc
  assume p: "parser_ok tp p" "reads tp p ts q" "parser_remaining p \<le> k"
    and e: "tok_type (head_token q) \<in> {comma_token, right_paren_token}"
  note okq = reads_ok [OF p(2)]
  have "expression fmt tp k p = Inr (n, q)"
    using e by (intro expression_complete [OF n p(1,2,3)]) (auto simp: stops_def token_level_def)
  moreover have "parser_match [comma_token] q =
      (if tok_type (head_token q) = comma_token then Inr (True, q\<lparr>ps_current := ps_current q + 1\<rparr>)
       else Inr (False, q))"
    using e by (auto simp: parser_match_ok [OF okq])
  moreover have "parser_remaining (q\<lparr>ps_current := ps_current q + 1\<rparr>) < parser_remaining p"
    using okq p(2) reads_remaining [OF p(2)] unfolding parser_ok_def parser_remaining_def by auto
  ultimately show "argument_loop (expression fmt tp k) acc p =
      (if tok_type (head_token q) = comma_token
       then argument_loop (expression fmt tp k) (acc @ [n]) (q\<lparr>ps_current := ps_current q + 1\<rparr>)
       else Inr (acc @ [n], q))"
    by (subst argument_loop.simps) simp
qed

lemma args_completeD:
  "args_complete fmt tp ts ns \<Longrightarrow> parser_ok tp p \<Longrightarrow> reads tp p ts q \<Longrightarrow> parser_remaining p \<le> k \<Longrightarrow>
     tok_type (head_token q) \<in> {comma_token, right_paren_token} \<Longrightarrow>
     argument_loop (expression fmt tp k) acc p =
       (if tok_type (head_token q) = comma_token
        then argument_loop (expression fmt tp k) (acc @ ns) (q\<lparr>ps_current := ps_current q + 1\<rparr>)
        else Inr (acc @ ns, q))"
  unfolding args_complete_def by blast

lemma complete_args_more:
  assumes ts: "args_complete fmt tp ts ns" and c: "tok_type c = comma_token"
    and n: "level_complete fmt tp 0 us n"
  shows "args_complete fmt tp (ts @ [c] @ us) (ns @ [n])"
  unfolding args_complete_def
proof (intro allI impI)
  fix k p q acc
  assume p: "parser_ok tp p" "reads tp p (ts @ [c] @ us) q" "parser_remaining p \<le> k"
    and e: "tok_type (head_token q) \<in> {comma_token, right_paren_token}"
  obtain p1 where p1: "reads tp p ts p1" "reads tp p1 ([c] @ us) q" using p(2) by (rule reads_split)
  obtain p2 where p2: "reads tp p1 [c] p2" "reads tp p2 us q" using p1(2) by (rule reads_split)
  note ok = reads_ok [OF p1(1)] reads_ok [OF p2(1)]
  have h: "head_token p1 = c" using reads_head_token [OF p2(1) ok(1)] .
  have "argument_loop (expression fmt tp k) acc p = argument_loop (expression fmt tp k) (acc @ ns) p2"
    using ts p(1,3) p1(1) c h reads_one [OF p2(1)] by (simp add: args_complete_def)
  also have "\<dots> = (if tok_type (head_token q) = comma_token
       then argument_loop (expression fmt tp k) ((acc @ ns) @ [n]) (q\<lparr>ps_current := ps_current q + 1\<rparr>)
       else Inr ((acc @ ns) @ [n], q))"
    using p(3) reads_remaining [OF p1(1)] reads_remaining [OF p2(1)]
    by (intro args_completeD [OF complete_args_one [OF n] ok(2) p2(2) _ e]) simp
  finally show "argument_loop (expression fmt tp k) acc p =
      (if tok_type (head_token q) = comma_token
       then argument_loop (expression fmt tp k) (acc @ ns @ [n]) (q\<lparr>ps_current := ps_current q + 1\<rparr>)
       else Inr (acc @ ns @ [n], q))" by simp
qed

lemma complete_call_empty:
  assumes "tok_type a = left_paren_token" "tok_type b = right_paren_token"
  shows "call_complete fmt tp [a, b] []"
  unfolding call_complete_def
proof (intro allI impI)
  fix k p q and f :: "node list \<Rightarrow> node"
  assume p: "parser_ok tp p" "reads tp p [a, b] q"
  obtain p1 where p1: "reads tp p [a] p1" "reads tp p1 [b] q"
    using p(2) reads_split [of tp p "[a]" "[b]" q] by auto
  note ok = reads_ok [OF p1(1)]
  have "parse_argument_list (expression fmt tp k) p1 = Inr ([], p1)"
    using reads_head_token [OF p1(2) ok] assms(2)
    by (simp add: parse_argument_list_def parser_check_ok [OF ok])
  moreover have "expect right_paren_token p1 = Inr q"
    using assms(2) by (intro expect_read [OF p1(2) ok]) simp_all
  ultimately show "\<exists>a p1. tok_type a = left_paren_token \<and> reads tp p [a] p1 \<and>
       bind_result (parse_argument_list (expression fmt tp k) p1) (\<lambda>(arguments, p2).
         bind_result (expect right_paren_token p2) (\<lambda>p3. Inr (f arguments, p3))) = Inr (f [], q)"
    using assms(1) p1(1) by (intro exI [of _ a] exI [of _ p1]) simp
qed

lemma complete_call_args:
  assumes a: "tok_type a = left_paren_token" and ns: "args_complete fmt tp ts ns"
    and b: "tok_type b = right_paren_token"
    and first: "ts \<noteq> []" "tok_type (hd ts) \<noteq> right_paren_token"
  shows "call_complete fmt tp ([a] @ ts @ [b]) ns"
  unfolding call_complete_def
proof (intro allI impI)
  fix k p q and f :: "node list \<Rightarrow> node"
  assume p: "parser_ok tp p" "reads tp p ([a] @ ts @ [b]) q" "parser_remaining p \<le> Suc k"
  obtain p1 where p1: "reads tp p [a] p1" "reads tp p1 (ts @ [b]) q" using p(2) by (rule reads_split)
  obtain p2 where p2: "reads tp p1 ts p2" "reads tp p2 [b] q" using p1(2) by (rule reads_split)
  note ok = reads_ok [OF p1(1)] reads_ok [OF p2(1)]
  have "head_token p1 = hd ts"
    using reads_head_token [of tp p1 "hd ts" "tl ts" p2] p2(1) ok(1) first(1) by simp
  with first(2) have "parse_argument_list (expression fmt tp k) p1 =
      argument_loop (expression fmt tp k) [] p1"
    by (simp add: parse_argument_list_def parser_check_ok [OF ok(1)])
  also have "\<dots> = Inr (ns, p2)"
    using ns ok(1) p2(1) p(3) reads_remaining [OF p1(1)] reads_head_token [OF p2(2) ok(2)] b
    by (simp add: args_complete_def)
  finally have args: "parse_argument_list (expression fmt tp k) p1 = Inr (ns, p2)" .
  have "expect right_paren_token p2 = Inr q" using b by (intro expect_read [OF p2(2) ok(2)]) simp_all
  with args a p1(1) show "\<exists>a p1. tok_type a = left_paren_token \<and> reads tp p [a] p1 \<and>
       bind_result (parse_argument_list (expression fmt tp k) p1) (\<lambda>(arguments, p2).
         bind_result (expect right_paren_token p2) (\<lambda>p3. Inr (f arguments, p3))) = Inr (f ns, q)"
    by (intro exI [of _ a] exI [of _ p1]) simp
qed

lemma call_completeD:
  fixes f :: "node list \<Rightarrow> node"
  assumes "call_complete fmt tp ts ns" "parser_ok tp p" "reads tp p ts q" "parser_remaining p \<le> Suc k"
  obtains a p1 where "tok_type a = left_paren_token" "reads tp p [a] p1"
    "bind_result (parse_argument_list (expression fmt tp k) p1) (\<lambda>(arguments, p2).
       bind_result (expect right_paren_token p2) (\<lambda>p3. Inr (f arguments, p3))) = Inr (f ns, q)"
proof -
  from assms(1) [unfolded call_complete_def, rule_format, OF assms(2-4), of f]
  show thesis using that by blast
qed

lemma function_call_complete:
  assumes "call_complete fmt tp ts ns" "parser_ok tp p" "reads tp p ts q" "parser_remaining p \<le> Suc k"
    and prev: "parser_previous p = Inr i"
  shows "tok_type (head_token p) = left_paren_token \<and>
    function_call (expression fmt tp k) p = Inr (function_call_node (tok_lexeme i) ns, q)"
proof -
  obtain a p1 where a: "tok_type a = left_paren_token" "reads tp p [a] p1"
    "bind_result (parse_argument_list (expression fmt tp k) p1) (\<lambda>(arguments, p2).
       bind_result (expect right_paren_token p2) (\<lambda>p3.
         Inr (function_call_node (tok_lexeme i) arguments, p3))) =
     Inr (function_call_node (tok_lexeme i) ns, q)"
    using assms(1-4) by (rule call_completeD)
  moreover have "expect left_paren_token p = Inr p1"
    using a(1) by (intro expect_read [OF a(2) assms(2)]) simp_all
  ultimately show ?thesis
    using reads_head_token [OF a(2) assms(2)] by (simp add: function_call_def prev Let_def)
qed

lemma method_call_complete:
  assumes "call_complete fmt tp ts ns" "parser_ok tp p" "reads tp p ts q" "parser_remaining p \<le> Suc k"
  shows "tok_type (head_token p) = left_paren_token \<and>
    parse_method_call (expression fmt tp k) obj name p = Inr (object_method_call_node obj name ns, q)"
proof -
  obtain a p1 where a: "tok_type a = left_paren_token" "reads tp p [a] p1"
    "bind_result (parse_argument_list (expression fmt tp k) p1) (\<lambda>(arguments, p2).
       bind_result (expect right_paren_token p2) (\<lambda>p3.
         Inr (object_method_call_node obj name arguments, p3))) =
     Inr (object_method_call_node obj name ns, q)"
    using assms(1-4) by (rule call_completeD)
  moreover have "parser_match [left_paren_token] p = Inr (True, p1)"
    using a(1) by (intro match_read [OF a(2) assms(2)]) simp_all
  ultimately show ?thesis
    using reads_head_token [OF a(2) assms(2)] by (simp add: parse_method_call_def)
qed

text \<open>One step of the loop over a chain: the member \<open>d\<close>, \<open>i\<close> and what it makes of the object.\<close>

lemma property_access_step:
  assumes p: "parser_ok tp p" and di: "reads tp p ([d, i] @ us) q"
    and d: "tok_type d = dot_token" and i: "tok_type i = identifier_token"
    and member: "\<And>p2. reads tp p [d, i] p2 \<Longrightarrow> reads tp p2 us q \<Longrightarrow>
      (if tok_type (head_token p2) = left_paren_token then parse_method_call ex obj (tok_lexeme i) p2
       else Inr (property_access_node obj (tok_lexeme i), p2)) = Inr (n, q)"
  shows "parse_property_access ex obj p =
    (if tok_type (head_token q) = dot_token then parse_property_access ex n q else Inr (n, q))"
proof -
  obtain p1 where p1: "reads tp p [d] p1" "reads tp p1 ([i] @ us) q"
    using di reads_split [of tp p "[d]" "[i] @ us" q] by auto
  obtain p2 where p2: "reads tp p1 [i] p2" "reads tp p2 us q" using p1(2) by (rule reads_split)
  note ok = reads_ok [OF p1(1)] reads_ok [OF p2(1)] reads_ok [OF p2(2)]
  have r2: "reads tp p [d, i] p2" using reads_trans [OF p1(1) p2(1)] by simp
  have "parser_match [dot_token] p = Inr (True, p1)" using d by (intro match_read [OF p1(1) p]) simp_all
  moreover have "expect identifier_token p1 = Inr p2"
    using i by (intro expect_read [OF p2(1) ok(1)]) simp_all
  moreover have "parser_remaining q < parser_remaining p" using reads_remaining [OF di] by simp
  moreover have "parser_check left_paren_token p2 = Inr (tok_type (head_token p2) = left_paren_token)"
    using parser_check_ok [OF ok(2)] by auto
  moreover have "parser_check dot_token q = Inr (tok_type (head_token q) = dot_token)"
    using parser_check_ok [OF ok(3)] by auto
  ultimately show ?thesis
    using member [OF r2 p2(2)] parser_previous_read1 [OF p2(1)]
    by (subst parse_property_access.simps) (simp add: Let_def)
qed

lemma complete_chain_variable:
  "tok_type i = identifier_token \<Longrightarrow> chain_complete fmt tp [i] (variable_node (tok_lexeme i))"
  by (simp add: chain_complete_def)

text \<open>Both kinds of members extend a chain by this rule.\<close>

lemma complete_chain_member:
  assumes ts: "chain_complete fmt tp ts n" and d: "tok_type d = dot_token"
    and i: "tok_type i = identifier_token"
    and member: "\<And>k p q p2. parser_remaining p \<le> Suc k \<Longrightarrow> reads tp p [d, i] p2 \<Longrightarrow> reads tp p2 us q \<Longrightarrow>
      tok_type (head_token q) \<noteq> left_paren_token \<Longrightarrow>
      (if tok_type (head_token p2) = left_paren_token
       then parse_method_call (expression fmt tp k) n (tok_lexeme i) p2
       else Inr (property_access_node n (tok_lexeme i), p2)) = Inr (m, q)"
  shows "chain_complete fmt tp (ts @ [d, i] @ us) m"
proof -
  obtain j vs where j: "ts = j # vs" "tok_type j = identifier_token"
    and vs: "if vs = [] then n = variable_node (tok_lexeme j)
         else \<forall>k p q. parser_ok tp p \<longrightarrow> reads tp p vs q \<longrightarrow> parser_remaining p \<le> Suc k \<longrightarrow>
           tok_type (head_token q) \<noteq> left_paren_token \<longrightarrow>
           tok_type (head_token p) = dot_token \<and>
           parse_property_access (expression fmt tp k) (variable_node (tok_lexeme j)) p =
             (if tok_type (head_token q) = dot_token
              then parse_property_access (expression fmt tp k) n q else Inr (n, q))"
    using ts unfolding chain_complete_def by blast
  have "tok_type (head_token p) = dot_token \<and>
      parse_property_access (expression fmt tp k) (variable_node (tok_lexeme j)) p =
        (if tok_type (head_token q) = dot_token
         then parse_property_access (expression fmt tp k) m q else Inr (m, q))"
    if p: "parser_ok tp p" "reads tp p (vs @ [d, i] @ us) q" "parser_remaining p \<le> Suc k"
      and nq: "tok_type (head_token q) \<noteq> left_paren_token" for k p q
  proof -
    obtain p1 where p1: "reads tp p vs p1" "reads tp p1 ([d, i] @ us) q" using p(2) by (rule reads_split)
    note ok1 = reads_ok [OF p1(1)]
    have h1: "head_token p1 = d" using reads_head_token [of tp p1 d "[i] @ us" q] p1(2) ok1 by simp
    have rem: "parser_remaining p1 \<le> Suc k" using reads_remaining [OF p1(1)] p(3) by simp
    have step: "parse_property_access (expression fmt tp k) n p1 =
        (if tok_type (head_token q) = dot_token
         then parse_property_access (expression fmt tp k) m q else Inr (m, q))"
      using member [OF rem _ _ nq] by (intro property_access_step [OF ok1 p1(2) d i])
    show ?thesis
    proof (cases "vs = []")
      case True
      with vs p1(1) step h1 d show ?thesis by simp
    next
      case False
      then have "tok_type (head_token p) = dot_token \<and>
          parse_property_access (expression fmt tp k) (variable_node (tok_lexeme j)) p =
            parse_property_access (expression fmt tp k) n p1"
        using vs p(1,3) p1(1) h1 d by simp
      with step show ?thesis by simp
    qed
  qed
  with j show ?thesis
    unfolding chain_complete_def by (intro exI [of _ j] exI [of _ "vs @ [d, i] @ us"]) simp
qed

lemma complete_chain_property:
  "chain_complete fmt tp ts n \<Longrightarrow> tok_type d = dot_token \<Longrightarrow> tok_type i = identifier_token \<Longrightarrow>
   chain_complete fmt tp (ts @ [d, i]) (property_access_node n (tok_lexeme i))"
  using complete_chain_member [of fmt tp ts n d i "[]" "property_access_node n (tok_lexeme i)"] by simp

lemma complete_chain_method:
  assumes "chain_complete fmt tp ts n" "tok_type d = dot_token" "tok_type i = identifier_token"
    and us: "call_complete fmt tp us ns"
  shows "chain_complete fmt tp (ts @ [d, i] @ us) (object_method_call_node n (tok_lexeme i) ns)"
proof (rule complete_chain_member [OF assms(1-3)])
  fix k p q p2
  assume "parser_remaining p \<le> Suc k" and r: "reads tp p [d, i] p2" "reads tp p2 us q"
  then have "parser_remaining p2 \<le> Suc k" using reads_remaining [OF r(1)] by simp
  from method_call_complete [OF us reads_ok [OF r(1)] r(2) this]
  show "(if tok_type (head_token p2) = left_paren_token
       then parse_method_call (expression fmt tp k) n (tok_lexeme i) p2
       else Inr (property_access_node n (tok_lexeme i), p2)) =
      Inr (object_method_call_node n (tok_lexeme i) ns, q)" by simp
qed

lemma complete_function:
  assumes i: "tok_type i = identifier_token" and ts: "call_complete fmt tp ts ns"
  shows "level_complete fmt tp 12 (i # ts) (function_call_node (tok_lexeme i) ns)"
  unfolding level_complete_def
proof (intro allI impI)
  fix k p q
  assume p: "parser_ok tp p" "reads tp p (i # ts) q" "parser_remaining p \<le> Suc k"
  obtain p1 where p1: "reads tp p [i] p1" "reads tp p1 ts q"
    using p(2) reads_split [of tp p "[i]" ts q] by auto
  note ok = reads_ok [OF p1(1)] and prev = parser_previous_read1 [OF p1(1)]
  have rem: "parser_remaining p1 \<le> Suc k" using p(3) reads_remaining [OF p1(1)] by simp
  from function_call_complete [OF ts ok p1(2) rem prev]
  show "level_parser fmt tp (expression fmt tp k) 12 p =
      continue_level fmt tp (expression fmt tp k) 12 (function_call_node (tok_lexeme i) ns) q"
    using primary_eval(3) [OF p(1) p1(1) i]
    by (simp add: level_parser_def continue_level_def parse_identifier_def prev Let_def
        parser_check_ok [OF ok])
qed

lemma complete_member:
  assumes "chain_complete fmt tp ts n"
  shows "level_complete fmt tp 12 ts n"
  unfolding level_complete_def
proof (intro allI impI)
  fix k p q
  assume p: "parser_ok tp p" "reads tp p ts q" "parser_remaining p \<le> Suc k"
    and stop: "stops 12 (tok_type (head_token q))"
  have nq: "tok_type (head_token q) \<noteq> left_paren_token" "tok_type (head_token q) \<noteq> dot_token"
    using stop by (simp_all add: stops_def)
  obtain i us where i: "ts = i # us" "tok_type i = identifier_token"
    and us: "if us = [] then n = variable_node (tok_lexeme i)
         else \<forall>k p q. parser_ok tp p \<longrightarrow> reads tp p us q \<longrightarrow> parser_remaining p \<le> Suc k \<longrightarrow>
           tok_type (head_token q) \<noteq> left_paren_token \<longrightarrow>
           tok_type (head_token p) = dot_token \<and>
           parse_property_access (expression fmt tp k) (variable_node (tok_lexeme i)) p =
             (if tok_type (head_token q) = dot_token
              then parse_property_access (expression fmt tp k) n q else Inr (n, q))"
    using assms unfolding chain_complete_def by blast
  obtain p1 where p1: "reads tp p [i] p1" "reads tp p1 us q"
    using p(2) i(1) reads_split [of tp p "[i]" us q] by auto
  note ok = reads_ok [OF p1(1)] and prev = parser_previous_read1 [OF p1(1)]
  have "parse_identifier (expression fmt tp k) p1 = Inr (n, q)"
  proof (cases "us = []")
    case True
    with us p1(2) nq show ?thesis
      by (simp add: parse_identifier_def prev Let_def parser_check_ok [OF ok])
  next
    case False
    have "parser_remaining p1 \<le> Suc k" using p(3) reads_remaining [OF p1(1)] by simp
    with us False ok p1(2) nq have "tok_type (head_token p1) = dot_token"
        "parse_property_access (expression fmt tp k) (variable_node (tok_lexeme i)) p1 = Inr (n, q)"
      by simp_all
    then show ?thesis by (simp add: parse_identifier_def prev Let_def parser_check_ok [OF ok])
  qed
  then show "level_parser fmt tp (expression fmt tp k) 12 p =
      continue_level fmt tp (expression fmt tp k) 12 n q"
    using primary_eval(3) [OF p(1) p1(1) i(2)] by (simp add: level_parser_def continue_level_def)
qed

lemma complete_template:
  assumes s: "tok_type s = template_start_token" and ts: "parts_complete fmt tp ts texts ns"
  shows "level_complete fmt tp 12 (s # ts)
    (template_string_node (as_string fmt (tok_literal s) # texts) ns)"
  unfolding level_complete_def
proof (intro allI impI)
  fix k p q
  assume p: "parser_ok tp p" "reads tp p (s # ts) q" "parser_remaining p \<le> Suc k"
  obtain p1 where p1: "reads tp p [s] p1" "reads tp p1 ts q"
    using p(2) reads_split [of tp p "[s]" ts q] by auto
  have "template_loop fmt tp [as_string fmt (tok_literal s)] [] p1 =
      Inr (template_string_node ([as_string fmt (tok_literal s)] @ texts) ([] @ ns), q)"
    using ts reads_ok [OF p1(1)] p1(2) unfolding parts_complete_def by blast
  then show "level_parser fmt tp (expression fmt tp k) 12 p =
      continue_level fmt tp (expression fmt tp k) 12
        (template_string_node (as_string fmt (tok_literal s) # texts) ns) q"
    using primary_eval(2) [OF p(1) p1(1) s] by (simp add: level_parser_def continue_level_def)
qed

text \<open>One turn of the loop over the parts of a template.\<close>

lemma template_loop_step:
  assumes p: "parser_ok tp p" and r: "reads tp p [e] p1" "reads tp p1 [m] p2"
    and e: "tok_type e = template_expr_token" "tp (tok_lexeme e) = Inr n"
  shows "tok_type m = template_middle_token \<Longrightarrow> template_loop fmt tp acc es p =
      template_loop fmt tp (acc @ [as_string fmt (tok_literal m)]) (es @ [n]) p2"
    and "tok_type m = template_end_token \<Longrightarrow> template_loop fmt tp acc es p =
      Inr (template_string_node (acc @ [as_string fmt (tok_literal m)]) (es @ [n]), p2)"
proof -
  note ok = reads_ok [OF r(1)] and prev = parser_previous_read1 [OF r(1)] parser_previous_read1 [OF r(2)]
  have ex: "expect template_expr_token p = Inr p1" using e(1) by (intro expect_read [OF r(1) p]) simp_all
  have m: "parser_match [ty] p1 = (if tok_type m = ty then Inr (True, p2) else Inr (False, p1))"
    if "ty \<noteq> end_of_file_token" for ty
    using that reads_head_token [OF r(2) ok] reads_one [OF r(2)] by (simp add: parser_match_ok [OF ok])
  have lt: "parser_remaining p2 < parser_remaining p"
    using reads_remaining [OF r(1)] reads_remaining [OF r(2)] by simp
  show "template_loop fmt tp acc es p =
      template_loop fmt tp (acc @ [as_string fmt (tok_literal m)]) (es @ [n]) p2"
    if "tok_type m = template_middle_token"
    using that lt ex prev e(2) by (subst template_loop.simps) (simp add: m Let_def)
  show "template_loop fmt tp acc es p =
      Inr (template_string_node (acc @ [as_string fmt (tok_literal m)]) (es @ [n]), p2)"
    if "tok_type m = template_end_token"
    using that ex prev e(2) by (subst template_loop.simps) (simp add: m Let_def)
qed

lemma complete_parts_last:
  assumes e: "tok_type e = template_expr_token" "tp (tok_lexeme e) = Inr n"
    and m: "tok_type m = template_end_token"
  shows "parts_complete fmt tp [e, m] [as_string fmt (tok_literal m)] [n]"
  unfolding parts_complete_def
proof (intro allI impI)
  fix p q acc es
  assume p: "parser_ok tp p" "reads tp p [e, m] q"
  obtain p1 where "reads tp p [e] p1" "reads tp p1 [m] q"
    using p(2) reads_split [of tp p "[e]" "[m]" q] by auto
  from template_loop_step(2) [OF p(1) this e m]
  show "template_loop fmt tp acc es p =
      Inr (template_string_node (acc @ [as_string fmt (tok_literal m)]) (es @ [n]), q)" .
qed

lemma complete_parts_more:
  assumes e: "tok_type e = template_expr_token" "tp (tok_lexeme e) = Inr n"
    and m: "tok_type m = template_middle_token" and ts: "parts_complete fmt tp ts texts ns"
  shows "parts_complete fmt tp (e # m # ts) (as_string fmt (tok_literal m) # texts) (n # ns)"
  unfolding parts_complete_def
proof (intro allI impI)
  fix p q acc es
  assume p: "parser_ok tp p" "reads tp p (e # m # ts) q"
  obtain p1 where p1: "reads tp p [e] p1" "reads tp p1 ([m] @ ts) q"
    using p(2) reads_split [of tp p "[e]" "[m] @ ts" q] by auto
  obtain p2 where p2: "reads tp p1 [m] p2" "reads tp p2 ts q" using p1(2) by (rule reads_split)
  from template_loop_step(1) [OF p(1) p1(1) p2(1) e m] ts p2(2) reads_ok [OF p2(1)]
  show "template_loop fmt tp acc es p =
      Inr (template_string_node (acc @ as_string fmt (tok_literal m) # texts) (es @ n # ns), q)"
    unfolding parts_complete_def by simp
qed

text \<open>The first token of a derivation.\<close>

lemma first_token:
  "gram fmt tp l ts n \<Longrightarrow>
     (l = 12 \<longrightarrow> tok_type (hd ts) \<notin> {minus_token, logical_not_token, bit_not_token}) \<and>
     tok_type (hd ts) \<noteq> right_paren_token"
  "gram_args fmt tp ts ns \<Longrightarrow> tok_type (hd ts) \<noteq> right_paren_token"
  "gram_call fmt tp ts ns \<Longrightarrow> True"
  "gram_chain fmt tp ts n \<Longrightarrow> tok_type (hd ts) = identifier_token"
  "gram_parts fmt tp ts texts ns \<Longrightarrow> True"
proof (induction rule: gram_gram_args_gram_call_gram_chain_gram_parts.inducts)
  case (gram_unary k op xs x)
  then show ?case by (auto simp: unary_operators_def split: if_splits)
qed (auto simp: hd_append gram_not_Nil dest: map_of_level_operators(2))

lemma gram_complete:
  "gram fmt tp l ts n \<Longrightarrow> level_complete fmt tp l ts n"
  "gram_args fmt tp ts ns \<Longrightarrow> args_complete fmt tp ts ns"
  "gram_call fmt tp ts ns \<Longrightarrow> call_complete fmt tp ts ns"
  "gram_chain fmt tp ts n \<Longrightarrow> chain_complete fmt tp ts n"
  "gram_parts fmt tp ts texts ns \<Longrightarrow> parts_complete fmt tp ts texts ns"
proof (induction rule: gram_gram_args_gram_call_gram_chain_gram_parts.inducts)
  case (gram_up l ts n)
  from first_token(1) [OF gram_up(2)] gram_not_Nil(1) [OF gram_up(2)]
  show ?case by (intro complete_up [OF gram_up(1,3)]) auto
next
  case (call_args a ts ns b)
  then show ?case
    using first_token(2) gram_not_Nil(2) by (intro complete_call_args) auto
qed (intro complete_conditional complete_binary complete_unary complete_literal complete_paren
  complete_function complete_member complete_template complete_args_one complete_args_more
  complete_call_empty complete_chain_variable complete_chain_property complete_chain_method
  complete_parts_last complete_parts_more; assumption)+

end
