(* ===== verification/Compile.thy ===== *)
theory Compile
  imports Parser
begin

text \<open>
  Properties of the expression compiler (\<^verbatim>\<open>engine::compile\<close>: lexer, parser and the compilation of
  the expressions embedded in template strings): it always returns within the fuel of the model,
  it accepts exactly what the grammar derives from a prefix of the tokens, and the nodes it builds
  are the ones the evaluation expects.
\<close>

section \<open>The fuel suffices\<close>

lemma scan_tokens_end:
  assumes "scan_tokens (new_lexer src) = Inr ts"
  shows "ts \<noteq> []" "tok_type (last ts) = end_of_file_token"
  using scan_tokens_loop_tile [of "new_lexer src" ts] scan_tokens_tile [OF assms]
  by (auto simp: tokens_tile_def)

lemma new_parser_ok:
  assumes "scan_tokens (new_lexer src) = Inr ts"
    and "\<And>s. length s < length src \<Longrightarrow> tp s \<noteq> Inl out_of_fuel"
  shows "parser_ok tp (new_parser ts)"
proof -
  have "tp (tok_lexeme t) \<noteq> Inl out_of_fuel"
    if "t \<in> set ts" "tok_type t = template_expr_token" for t
    using template_expr_shorter [OF assms(1) that] by (intro assms(2)) simp
  then show ?thesis
    using scan_tokens_end [OF assms(1)] by (simp add: parser_ok_def new_parser_def)
qed

lemma parse_yields:
  assumes "parser_ok tp p"
  shows "yields (parse fmt tp p) (\<lambda>n. \<exists>ts q. reads tp p ts q \<and> gram fmt tp 0 ts n)"
  using parsesD [OF expression_parses [of tp "parser_remaining p" fmt] assms order_refl]
  by (auto simp: parse_def yields_def split: sum.splits)

lemma lexer_fuel: "scan_tokens lx \<noteq> Inl out_of_fuel"
proof -
  have expr: "scan_template_expr ty s lx \<noteq> Inl out_of_fuel" for ty s lx
    by (simp add: scan_template_expr_def Let_def)
  have rest: "scan_template_rest d s lx \<noteq> Inl out_of_fuel" for d s lx
  proof (induction d s lx rule: scan_template_rest.induct)
    case (1 d s lx)
    then show ?case
      using expr by (subst scan_template_rest.simps) (auto simp: Let_def bind_result_eq_Inl)
  qed
  have outer: "scan_template_text d s lx \<noteq> Inl out_of_fuel" for d s lx
  proof (induction d s lx rule: scan_template_text.induct)
    case (1 d s lx)
    then show ?case
      using expr rest by (subst scan_template_text.simps) (auto simp: Let_def bind_result_eq_Inl)
  qed
  have number: "scan_number lx \<noteq> Inl out_of_fuel" for lx
    by (auto simp: scan_number_def Let_def split: prod.splits option.splits)
  have string: "scan_string lx \<noteq> Inl out_of_fuel" for lx
    by (simp add: scan_string_def Let_def)
  have token: "scan_token lx \<noteq> Inl out_of_fuel" for lx
    using outer number string
    by (auto simp: scan_token_def scan_template_string_def lexer_advance_def Let_def)
  have "scan_tokens_loop lx \<noteq> Inl out_of_fuel" for lx
  proof (induction lx rule: scan_tokens_loop.induct)
    case (1 lx)
    then show ?case using token by (subst scan_tokens_loop.simps) (auto simp: bind_result_eq_Inl)
  qed
  then show ?thesis by (simp add: scan_tokens_def)
qed

text \<open>The parser of the embedded expressions, as \<open>engine_compile\<close> passes it on.\<close>

definition embedded :: "(variant \<Rightarrow> string) \<Rightarrow> string \<Rightarrow> string \<Rightarrow> node result" where
  "embedded fmt src s = (if length s < length src then engine_compile fmt s else Inl out_of_fuel)"

lemma engine_compile_unfold:
  "engine_compile fmt src =
     bind_result (scan_tokens (new_lexer src)) (\<lambda>ts. parse fmt (embedded fmt src) (new_parser ts))"
  unfolding embedded_def by (subst engine_compile.simps) simp

lemma compile_fuel: "engine_compile fmt src \<noteq> Inl out_of_fuel"
proof (induction src rule: measure_induct_rule [where f = length])
  case (less src)
  show ?case
  proof
    assume "engine_compile fmt src = Inl out_of_fuel"
    then obtain ts where ts: "scan_tokens (new_lexer src) = Inr ts"
        "parse fmt (embedded fmt src) (new_parser ts) = Inl out_of_fuel"
      using lexer_fuel [of "new_lexer src"] by (auto simp: engine_compile_unfold bind_result_eq_Inl)
    have "parser_ok (embedded fmt src) (new_parser ts)"
      by (rule new_parser_ok [OF ts(1)]) (simp add: embedded_def less)
    from parse_yields [OF this, of fmt] ts(2) show False by simp
  qed
qed

text \<open>
  C30. Compiling an expression always returns: the recursion of the parser and the nesting of
  template strings stay within the bounds of the model, whatever the source.
\<close>

theorem compile_never_out_of_fuel: "engine_compile fmt src \<noteq> Inl out_of_fuel"
  by (rule compile_fuel)

section \<open>The grammar is what the compiler accepts\<close>

text \<open>The grammar only depends on the embedded expressions that occur.\<close>

lemma gram_cong_aux:
  "gram fmt tp l ts n \<Longrightarrow> (\<forall>t \<in> set ts. tok_type t = template_expr_token \<longrightarrow>
      tp' (tok_lexeme t) = tp (tok_lexeme t)) \<longrightarrow> gram fmt tp' l ts n"
  "gram_args fmt tp ts ns \<Longrightarrow> (\<forall>t \<in> set ts. tok_type t = template_expr_token \<longrightarrow>
      tp' (tok_lexeme t) = tp (tok_lexeme t)) \<longrightarrow> gram_args fmt tp' ts ns"
  "gram_call fmt tp ts ns \<Longrightarrow> (\<forall>t \<in> set ts. tok_type t = template_expr_token \<longrightarrow>
      tp' (tok_lexeme t) = tp (tok_lexeme t)) \<longrightarrow> gram_call fmt tp' ts ns"
  "gram_chain fmt tp ts n \<Longrightarrow> (\<forall>t \<in> set ts. tok_type t = template_expr_token \<longrightarrow>
      tp' (tok_lexeme t) = tp (tok_lexeme t)) \<longrightarrow> gram_chain fmt tp' ts n"
  "gram_parts fmt tp ts texts ns \<Longrightarrow> (\<forall>t \<in> set ts. tok_type t = template_expr_token \<longrightarrow>
      tp' (tok_lexeme t) = tp (tok_lexeme t)) \<longrightarrow> gram_parts fmt tp' ts texts ns"
  by (induction rule: gram_gram_args_gram_call_gram_chain_gram_parts.inducts)
     (auto intro: gram_gram_args_gram_call_gram_chain_gram_parts.intros simp del: append.simps)

lemma gram_embedded:
  assumes "scan_tokens (new_lexer src) = Inr (ts @ rest)"
  shows "gram fmt (embedded fmt src) l ts n \<longleftrightarrow> gram fmt (engine_compile fmt) l ts n"
proof -
  have "embedded fmt src (tok_lexeme t) = engine_compile fmt (tok_lexeme t)"
    if "t \<in> set ts" "tok_type t = template_expr_token" for t
    using template_expr_shorter [OF assms _ that(2)] that(1) by (simp add: embedded_def)
  then show ?thesis
    using gram_cong_aux(1) [of fmt "embedded fmt src" l ts n "engine_compile fmt"]
      gram_cong_aux(1) [of fmt "engine_compile fmt" l ts n "embedded fmt src"] by auto
qed

lemma embedded_ok:
  "scan_tokens (new_lexer src) = Inr ts \<Longrightarrow> parser_ok (embedded fmt src) (new_parser ts)"
  by (rule new_parser_ok) (simp_all add: embedded_def compile_fuel)

lemma tokens_left_new [simp]: "tokens_left (new_parser ts) = ts"
  by (simp add: tokens_left_def new_parser_def)

lemma parse_sound:
  assumes "parser_ok tp p" "parse fmt tp p = Inr n"
  obtains ts rest where "tokens_left p = ts @ rest" "rest \<noteq> []" "gram fmt tp 0 ts n"
proof -
  obtain ts q where "reads tp p ts q" "gram fmt tp 0 ts n"
    using yieldsD(2) [OF parse_yields [OF assms(1)] assms(2)] by blast
  moreover from this(1) have "tokens_left q \<noteq> []"
    using tokens_left_ok [OF reads_ok] by (metis list.distinct(1))
  moreover from \<open>reads tp p ts q\<close> have "tokens_left p = ts @ tokens_left q"
    unfolding reads_def by blast
  ultimately show thesis using that by blast
qed

lemma parse_complete:
  assumes "parser_ok tp p" "gram fmt tp 0 ts n" "tokens_left p = ts @ rest" "rest \<noteq> []"
    and "stops 0 (tok_type (hd rest))"
  shows "parse fmt tp p = Inr n"
proof -
  let ?q = "p\<lparr>ps_current := ps_current p + length ts\<rparr>"
  have left: "tokens_left ?q = rest"
    using assms(3) by (metis add.commute append_eq_conv_conj drop_drop parser.select_convs(1,2)
        parser.simps(3,4) tokens_left_def parser.surjective parser.update_convs(2))
  have "ps_current p + length ts < length (ps_tokens p)"
    using arg_cong [OF assms(3), of length] assms(1,4)
    by (cases rest) (auto simp: tokens_left_def parser_ok_def)
  then have "parser_ok tp ?q" using assms(1) by (simp add: parser_ok_def)
  then have r: "reads tp p ts ?q" using left assms(3) by (simp add: reads_def)
  have "head_token ?q = hd rest"
    using tokens_left_ok [OF \<open>parser_ok tp ?q\<close>] left by (metis list.sel(1))
  with assms(5) have "expression fmt tp (parser_remaining p) p = Inr (n, ?q)"
    by (intro expression_complete [OF gram_complete(1) [OF assms(2)] assms(1) r]) simp_all
  then show ?thesis by (simp add: parse_def)
qed

lemma compile_main:
  assumes "scan_tokens (new_lexer src) = Inr (ts @ [e])"
    and "gram fmt (engine_compile fmt) 0 ts n"
  shows "engine_compile fmt src = Inr n"
proof -
  have "tok_type e = end_of_file_token" using scan_tokens_end(2) [OF assms(1)] by simp
  then have stop: "stops 0 (tok_type (hd [e]))" by (simp add: stops_def token_level_def)
  have "gram fmt (embedded fmt src) 0 ts n" using assms gram_embedded by blast
  then have "parse fmt (embedded fmt src) (new_parser (ts @ [e])) = Inr n"
    by (intro parse_complete [OF embedded_ok [OF assms(1)] _ _ _ stop]) simp_all
  then show ?thesis by (simp add: engine_compile_unfold assms(1))
qed

text \<open>
  C23. A source whose tokens before the end of file derive in the grammar compiles to the node of the
  derivation: precedence, left associativity of the binary operators, right associativity of the
  conditional, calls, member chains and template strings are parsed as the grammar says.
\<close>

theorem compile_complete:
  "scan_tokens (new_lexer src) = Inr (ts @ [e]) \<Longrightarrow> gram fmt (engine_compile fmt) 0 ts n \<Longrightarrow>
     engine_compile fmt src = Inr n"
  by (rule compile_main)

text \<open>
  C22. Conversely, a source that compiles starts with a derivation of the node: the parser never
  returns a node the grammar does not give. What follows the derivation is not looked at.
\<close>

theorem compile_sound:
  assumes "engine_compile fmt src = Inr n"
  shows "\<exists>ts rest. scan_tokens (new_lexer src) = Inr (ts @ rest) \<and> rest \<noteq> [] \<and>
     gram fmt (engine_compile fmt) 0 ts n"
proof -
  obtain us where us: "scan_tokens (new_lexer src) = Inr us"
      "parse fmt (embedded fmt src) (new_parser us) = Inr n"
    using assms by (auto simp: engine_compile_unfold bind_result_eq_Inr)
  obtain ts rest where "us = ts @ rest" "rest \<noteq> []" "gram fmt (embedded fmt src) 0 ts n"
    using parse_sound [OF embedded_ok [OF us(1)] us(2)] by auto
  with us(1) gram_embedded show ?thesis by blast
qed

text \<open>
  The tokens behind the first expression are ignored: sources with anything after an expression
  compile, to the node of the expression alone.
\<close>

theorem compile_ignores_trailing_tokens:
  "engine_compile fmt ''1 2'' = Inr (literal_node (VInt int64_type 1)) \<and>
   engine_compile fmt ''1 )'' = Inr (literal_node (VInt int64_type 1)) \<and>
   engine_compile fmt ''f(1).x'' = Inr (function_call_node ''f'' [literal_node (VInt int64_type 1)])"
  by code_simp

section \<open>Well-formed nodes\<close>

definition unary_operator_types :: "operator_type list" where
  "unary_operator_types = [neg_op, not_op, bit_not_op]"

definition is_member_chain :: "node \<Rightarrow> bool" where
  "is_member_chain n =
     (case n of variable_node _ \<Rightarrow> True | property_access_node _ _ \<Rightarrow> True
      | object_method_call_node _ _ _ \<Rightarrow> True | _ \<Rightarrow> False)"

fun wf_node :: "node \<Rightarrow> bool" where
  "wf_node (literal_node v) = True"
| "wf_node (variable_node name) = True"
| "wf_node (unary_op_node op n) = (op \<in> set unary_operator_types \<and> wf_node n)"
| "wf_node (binary_op_node op a b) = (op \<notin> set unary_operator_types \<and> wf_node a \<and> wf_node b)"
| "wf_node (function_call_node name args) = list_all wf_node args"
| "wf_node (conditional_node c t f) = (wf_node c \<and> wf_node t \<and> wf_node f)"
| "wf_node (property_access_node obj name) = (is_member_chain obj \<and> wf_node obj)"
| "wf_node (object_method_call_node obj name args) =
     (is_member_chain obj \<and> wf_node obj \<and> list_all wf_node args)"
| "wf_node (template_string_node texts es) =
     (length texts = length es + 1 \<and> list_all wf_node es)"

lemma gram_wf:
  "gram fmt tp l ts n \<Longrightarrow> (\<forall>s m. tp s = Inr m \<longrightarrow> wf_node m) \<longrightarrow> wf_node n"
  "gram_args fmt tp ts ns \<Longrightarrow> (\<forall>s m. tp s = Inr m \<longrightarrow> wf_node m) \<longrightarrow> list_all wf_node ns"
  "gram_call fmt tp ts ns \<Longrightarrow> (\<forall>s m. tp s = Inr m \<longrightarrow> wf_node m) \<longrightarrow> list_all wf_node ns"
  "gram_chain fmt tp ts n \<Longrightarrow> (\<forall>s m. tp s = Inr m \<longrightarrow> wf_node m) \<longrightarrow> is_member_chain n \<and> wf_node n"
  "gram_parts fmt tp ts texts ns \<Longrightarrow> (\<forall>s m. tp s = Inr m \<longrightarrow> wf_node m) \<longrightarrow>
     length texts = length ns \<and> list_all wf_node ns"
proof (induction rule: gram_gram_args_gram_call_gram_chain_gram_parts.inducts)
  case (gram_binary l k op xs x ys y)
  have "op \<notin> set unary_operator_types"
    using gram_binary(1)
    by (auto simp: level_operators_def unary_operator_types_def split: if_splits)
  with gram_binary show ?case by simp
next
  case (gram_unary k op xs x)
  then show ?case by (auto simp: unary_operators_def unary_operator_types_def split: if_splits)
qed (auto simp: is_member_chain_def)

text \<open>
  C31. Every node the compiler builds is well formed: unary nodes carry one of the three unary
  operators and binary nodes none of them, the objects of member accesses and method calls are
  chains that begin at a variable, and a template string has exactly one more text than it has
  expressions.
\<close>

theorem compile_well_formed:
  assumes "engine_compile fmt src = Inr n"
  shows "wf_node n"
  using assms
proof (induction src arbitrary: n rule: measure_induct_rule [where f = length])
  case (less src)
  obtain us where us: "scan_tokens (new_lexer src) = Inr us"
      "parse fmt (embedded fmt src) (new_parser us) = Inr n"
    using less.prems by (auto simp: engine_compile_unfold bind_result_eq_Inr)
  obtain ts where "gram fmt (embedded fmt src) 0 ts n"
    using parse_sound [OF embedded_ok [OF us(1)] us(2)] by blast
  moreover have "\<forall>s m. embedded fmt src s = Inr m \<longrightarrow> wf_node m"
    using less.IH by (simp add: embedded_def)
  ultimately show ?case using gram_wf(1) by blast
qed

theorem compile_well_formed_witness:
  "wf_node (binary_op_node add_op (literal_node (VInt int64_type 1))
     (unary_op_node neg_op (variable_node ''x'')))"
  by (rule compile_well_formed [of "\<lambda>v. ''''" "''1+-x''"]) code_simp

lemma gram_ups:
  assumes "gram fmt tp k ts n" "l \<le> k" "k \<le> 12"
  shows "gram fmt tp l ts n"
  using assms(2,1,3)
proof (induction rule: inc_induct)
  case (step m)
  have "m < 12" using step.hyps step.prems by simp
  then show ?case by (rule gram_up) (use step in blast)
qed simp

theorem compile_complete_witness:
  "engine_compile (\<lambda>v. '''') ''-x'' = Inr (unary_op_node neg_op (variable_node ''x''))"
proof (rule compile_complete)
  let ?m = "make_token minus_token ''-'' VNull 0" and ?x = "make_token identifier_token ''x'' (VString ''x'') 1"
  show "scan_tokens (new_lexer ''-x'') =
      Inr ([?m, ?x] @ [make_token end_of_file_token [] VNull 2])" by code_simp
  have "gram (\<lambda>v. '''') (engine_compile (\<lambda>v. '''')) 12 [?x] (variable_node ''x'')"
    using gram_member [OF chain_variable, of ?x] by simp
  then have "gram (\<lambda>v. '''') (engine_compile (\<lambda>v. '''')) 11 [?x] (variable_node ''x'')"
    by (rule gram_ups) simp_all
  then have "gram (\<lambda>v. '''') (engine_compile (\<lambda>v. '''')) 11 [?m, ?x]
      (unary_op_node neg_op (variable_node ''x''))"
    by (intro gram_unary) (simp_all add: unary_operators_def)
  then show "gram (\<lambda>v. '''') (engine_compile (\<lambda>v. '''')) 0 [?m, ?x]
      (unary_op_node neg_op (variable_node ''x''))"
    by (rule gram_ups) simp_all
qed

theorem compile_sound_witness:
  "\<exists>ts rest. scan_tokens (new_lexer ''1 2'') = Inr (ts @ rest) \<and> rest \<noteq> [] \<and>
     gram (\<lambda>v. '''') (engine_compile (\<lambda>v. '''')) 0 ts (literal_node (VInt int64_type 1))"
  by (rule compile_sound) code_simp

end
