(* ===== verification/Float64.thy ===== *)
theory Float64
  imports Prelude NumberText
begin

text \<open>
  The arithmetic of \<^verbatim>\<open>double\<close> that the values use: IEEE 754 binary64 on bit patterns, rounded to
  nearest with ties to even. A finite double is a multiple of \<open>2 ^ (- 1074)\<close> (\<open>f64_magnitude\<close>), so
  that every operation is exact on integers and then rounded once (\<open>round_to_double\<close>). The bits of
  a NaN result are those of the quiet NaN without sign; the payload is not modelled. The second part
  has the conversions between doubles and 64-bit integers, in which a value out of range is
  undefined behaviour.
\<close>

section \<open>Classes of doubles\<close>

definition f64_sign :: "u64 \<Rightarrow> bool" where
  "f64_sign x \<longleftrightarrow> bit x 63"

definition f64_is_nan :: "u64 \<Rightarrow> bool" where
  "f64_is_nan x \<longleftrightarrow> f64_exponent x = 2047 \<and> f64_mantissa x \<noteq> 0"

definition f64_is_inf :: "u64 \<Rightarrow> bool" where
  "f64_is_inf x \<longleftrightarrow> f64_exponent x = 2047 \<and> f64_mantissa x = 0"

definition f64_is_finite :: "u64 \<Rightarrow> bool" where
  "f64_is_finite x \<longleftrightarrow> f64_exponent x \<noteq> 2047"

definition f64_nan :: u64 where
  "f64_nan = 0x7FF8000000000000"

definition f64_inf :: u64 where
  "f64_inf = 0x7FF0000000000000"

text \<open>The value in units of \<open>2 ^ (- 1074)\<close>; an infinity lies beyond every finite double.\<close>

definition f64_value :: "u64 \<Rightarrow> int" where
  "f64_value x = (if f64_sign x then - int (f64_magnitude x) else int (f64_magnitude x))"

definition f64_is_zero :: "u64 \<Rightarrow> bool" where
  "f64_is_zero x \<longleftrightarrow> f64_value x = 0"

definition f64_with_sign :: "bool \<Rightarrow> u64 \<Rightarrow> u64" where
  "f64_with_sign s x = (if s then x OR 0x8000000000000000 else x)"

text \<open>The double nearest to the fraction \<open>v / q\<close> in units of \<open>2 ^ (- 1074)\<close>.\<close>

definition f64_round :: "int \<Rightarrow> nat \<Rightarrow> u64" where
  "f64_round v q = f64_with_sign (v < 0) (round_to_double (nat \<bar>v\<bar>) (q * 2 ^ 1074))"

section \<open>Arithmetic\<close>

definition f64_neg :: "u64 \<Rightarrow> u64" where
  "f64_neg x = x XOR 0x8000000000000000"

definition f64_abs :: "u64 \<Rightarrow> u64" where
  "f64_abs x = x AND 0x7FFFFFFFFFFFFFFF"

definition f64_add :: "u64 \<Rightarrow> u64 \<Rightarrow> u64" where
  "f64_add x y =
     (if f64_is_nan x \<or> f64_is_nan y then f64_nan
      else if f64_is_inf x then (if f64_is_inf y \<and> f64_sign x \<noteq> f64_sign y then f64_nan else x)
      else if f64_is_inf y then y
      else let v = f64_value x + f64_value y
           in if v = 0 then f64_with_sign (f64_sign x \<and> f64_sign y) 0 else f64_round v 1)"

definition f64_sub :: "u64 \<Rightarrow> u64 \<Rightarrow> u64" where
  "f64_sub x y = f64_add x (f64_neg y)"

definition f64_mul :: "u64 \<Rightarrow> u64 \<Rightarrow> u64" where
  "f64_mul x y =
     (let s = (f64_sign x \<noteq> f64_sign y) in
      if f64_is_nan x \<or> f64_is_nan y then f64_nan
      else if f64_is_inf x \<or> f64_is_inf y then
        (if f64_is_zero x \<or> f64_is_zero y then f64_nan else f64_with_sign s f64_inf)
      else f64_with_sign s (round_to_double (f64_magnitude x * f64_magnitude y) (2 ^ 2148)))"

definition f64_div :: "u64 \<Rightarrow> u64 \<Rightarrow> u64" where
  "f64_div x y =
     (let s = (f64_sign x \<noteq> f64_sign y) in
      if f64_is_nan x \<or> f64_is_nan y then f64_nan
      else if f64_is_inf x then (if f64_is_inf y then f64_nan else f64_with_sign s f64_inf)
      else if f64_is_inf y then f64_with_sign s 0
      else if f64_is_zero y then (if f64_is_zero x then f64_nan else f64_with_sign s f64_inf)
      else f64_with_sign s (round_to_double (f64_magnitude x) (f64_magnitude y)))"

section \<open>Comparisons\<close>

definition f64_less :: "u64 \<Rightarrow> u64 \<Rightarrow> bool" where
  "f64_less x y \<longleftrightarrow> \<not> f64_is_nan x \<and> \<not> f64_is_nan y \<and> f64_value x < f64_value y"

definition f64_less_eq :: "u64 \<Rightarrow> u64 \<Rightarrow> bool" where
  "f64_less_eq x y \<longleftrightarrow> \<not> f64_is_nan x \<and> \<not> f64_is_nan y \<and> f64_value x \<le> f64_value y"

definition f64_eq :: "u64 \<Rightarrow> u64 \<Rightarrow> bool" where
  "f64_eq x y \<longleftrightarrow> \<not> f64_is_nan x \<and> \<not> f64_is_nan y \<and> f64_value x = f64_value y"

text \<open>\<^verbatim>\<open>MC_FLOAT_EQUAL(a, b, 1e-6)\<close>; the literal is the double nearest to a millionth.\<close>

definition float_epsilon :: u64 where
  "float_epsilon = 0x3EB0C6F7A0B5ED8D"

definition float_equal :: "u64 \<Rightarrow> u64 \<Rightarrow> bool" where
  "float_equal a b \<longleftrightarrow> f64_less_eq (f64_abs (f64_sub a b)) float_epsilon"

section \<open>Conversions\<close>

definition f64_of_int :: "int \<Rightarrow> u64" where
  "f64_of_int i = f64_with_sign (i < 0) (round_to_double (nat \<bar>i\<bar>) 1)"

text \<open>\<^verbatim>\<open>static_cast\<close> truncates towards zero.\<close>

definition f64_truncate :: "u64 \<Rightarrow> int" where
  "f64_truncate x =
     (let n = int (f64_magnitude x div 2 ^ 1074) in if f64_sign x then - n else n)"

definition f64_to_int64 :: "u64 \<Rightarrow> i64 result" where
  "f64_to_int64 x =
     (if f64_is_finite x \<and> - (2 ^ 63) \<le> f64_truncate x \<and> f64_truncate x < 2 ^ 63
      then Inr (word_of_int (f64_truncate x)) else Inl undefined_behaviour)"

definition f64_to_uint64 :: "u64 \<Rightarrow> u64 result" where
  "f64_to_uint64 x =
     (if f64_is_finite x \<and> 0 \<le> f64_truncate x \<and> f64_truncate x < 2 ^ 64
      then Inr (word_of_int (f64_truncate x)) else Inl undefined_behaviour)"

section \<open>Printing\<close>

text \<open>The integer nearest to \<open>p / q\<close>, ties to even.\<close>

definition round_half_even :: "nat \<Rightarrow> nat \<Rightarrow> nat" where
  "round_half_even p q =
     (let m = p div q; r = p mod q
      in if q < 2 * r \<or> (2 * r = q \<and> odd m) then m + 1 else m)"

definition pad_zeros :: "nat \<Rightarrow> string \<Rightarrow> string" where
  "pad_zeros n ds = replicate (n - length ds) CHR ''0'' @ ds"

definition strip_zeros :: "string \<Rightarrow> string" where
  "strip_zeros ds = rev (dropWhile (\<lambda>c. c = CHR ''0'') (rev ds))"

definition with_fraction :: "string \<Rightarrow> string \<Rightarrow> string" where
  "with_fraction ip fp = (if fp = [] then ip else ip @ ''.'' @ fp)"

text \<open>\<^verbatim>\<open>%.*f\<close> of a magnitude.\<close>

definition fixed_text :: "nat \<Rightarrow> nat \<Rightarrow> string" where
  "fixed_text prec m =
     (let ds = pad_zeros (prec + 1) (decimal_nat (round_half_even (m * 10 ^ prec) (2 ^ 1074)));
          k = length ds - prec
      in with_fraction (take k ds) (drop k ds))"

text \<open>
  The \<open>prec\<close> significant digits and the decimal exponent of \<open>p / q\<close>; rounding up to the next power
  of ten moves the exponent.
\<close>

definition significant_digits :: "nat \<Rightarrow> nat \<Rightarrow> nat \<Rightarrow> string \<times> int" where
  "significant_digits prec p q =
     (let x0 = int (length (decimal_nat p)) - int (length (decimal_nat q));
          x = (if q * 10 ^ nat x0 \<le> p * 10 ^ nat (- x0) then x0 else x0 - 1);
          s = int prec - 1 - x;
          n = round_half_even (p * 10 ^ nat s) (q * 10 ^ nat (- s))
      in if n = 10 ^ prec then (decimal_nat (10 ^ (prec - 1)), x + 1) else (decimal_nat n, x))"

text \<open>\<^verbatim>\<open>%.*g\<close> of a magnitude, for a positive precision.\<close>

definition general_text :: "nat \<Rightarrow> nat \<Rightarrow> string" where
  "general_text prec m =
     (if m = 0 then ''0''
      else let (ds, x) = significant_digits prec m (2 ^ 1074) in
        if - 4 \<le> x \<and> x < int prec then
          (if 0 \<le> x then with_fraction (take (nat x + 1) ds) (strip_zeros (drop (nat x + 1) ds))
           else with_fraction ''0'' (replicate (nat (- x) - 1) CHR ''0'' @ strip_zeros ds))
        else with_fraction (take 1 ds) (strip_zeros (drop 1 ds)) @ ''e'' @
             (if x < 0 then ''-'' else ''+'') @ pad_zeros 2 (decimal_nat (nat \<bar>x\<bar>)))"

definition with_minus :: "u64 \<Rightarrow> string \<Rightarrow> string" where
  "with_minus x s = (if f64_sign x then ''-'' @ s else s)"

definition double_fixed :: "nat \<Rightarrow> u64 \<Rightarrow> string" where
  "double_fixed prec x = with_minus x (fixed_text prec (f64_magnitude x))"

definition double_general :: "nat \<Rightarrow> u64 \<Rightarrow> string" where
  "double_general prec x = with_minus x (general_text prec (f64_magnitude x))"

section \<open>Facts on the bits\<close>

lemma neg_bits:
  "take_bit 63 (f64_neg x) = take_bit 63 (x :: u64)"
proof -
  have "take_bit 63 (0x8000000000000000 :: u64) = 0" by simp
  then show ?thesis by (simp only: f64_neg_def take_bit_xor xor.right_neutral)
qed

lemma f64_abs_take_bit: "f64_abs x = take_bit 63 x"
  by (simp add: f64_abs_def take_bit_eq_mask mask_eq_exp_minus_1)

lemma f64_abs_neg [simp]: "f64_abs (f64_neg x) = f64_abs x"
  by (simp add: f64_abs_take_bit neg_bits)

lemma f64_exponent_take_bit: "f64_exponent x = unat (take_bit 11 (drop_bit 52 x))"
  by (simp add: f64_exponent_def take_bit_eq_mask mask_eq_exp_minus_1)

lemma f64_mantissa_take_bit: "f64_mantissa x = unat (take_bit 52 x)"
  by (simp add: f64_mantissa_def take_bit_eq_mask mask_eq_exp_minus_1)

lemma f64_fields_neg [simp]:
  "f64_exponent (f64_neg x) = f64_exponent x"
  "f64_mantissa (f64_neg x) = f64_mantissa x"
  "f64_sign (f64_neg x) \<longleftrightarrow> \<not> f64_sign x"
proof -
  have "take_bit 11 (drop_bit 52 y) = drop_bit 52 (take_bit 63 y)" for y :: u64
    by (simp add: drop_bit_take_bit)
  then show "f64_exponent (f64_neg x) = f64_exponent x"
    by (simp add: f64_exponent_take_bit neg_bits)
  have "take_bit 52 y = take_bit 52 (take_bit 63 y)" for y :: u64 by simp
  then show "f64_mantissa (f64_neg x) = f64_mantissa x"
    by (metis f64_mantissa_take_bit neg_bits)
  show "f64_sign (f64_neg x) \<longleftrightarrow> \<not> f64_sign x"
    by (simp add: f64_sign_def f64_neg_def bit_xor_iff)
qed

lemma f64_classes_neg [simp]:
  "f64_is_nan (f64_neg x) = f64_is_nan x" "f64_is_inf (f64_neg x) = f64_is_inf x"
  "f64_value (f64_neg x) = - f64_value x"
  by (simp_all add: f64_is_nan_def f64_is_inf_def f64_value_def f64_magnitude_def)

lemma f64_abs_with_sign [simp]: "f64_abs (f64_with_sign s x) = f64_abs x"
proof -
  have "take_bit 63 (0x8000000000000000 :: u64) = 0" by simp
  then show ?thesis
    by (simp add: f64_abs_take_bit f64_with_sign_def take_bit_or)
qed

lemma f64_abs_inf: "f64_is_inf x \<Longrightarrow> f64_is_inf y \<Longrightarrow> f64_abs x = f64_abs y"
proof -
  have "take_bit 63 x = take_bit 63 y" if "f64_is_inf x" "f64_is_inf y"
  proof (rule bit_eqI)
    fix n
    have e: "take_bit 11 (drop_bit 52 x) = take_bit 11 (drop_bit 52 y)" "take_bit 52 x = take_bit 52 y"
      using that unfolding f64_is_inf_def f64_exponent_take_bit f64_mantissa_take_bit
      by (metis unsigned_word_eqI)+
    show "bit (take_bit 63 x) n \<longleftrightarrow> bit (take_bit 63 y) n"
    proof (cases "n < 52")
      case True
      with e(2) have "bit (take_bit 52 x) n = bit (take_bit 52 y) n" by simp
      with True show ?thesis by (simp add: bit_take_bit_iff)
    next
      case False
      from e(1) have "bit (take_bit 11 (drop_bit 52 x)) (n - 52) = bit (take_bit 11 (drop_bit 52 y)) (n - 52)"
        by simp
      with False show ?thesis by (auto simp: bit_take_bit_iff bit_drop_bit_eq)
    qed
  qed
  then show "f64_is_inf x \<Longrightarrow> f64_is_inf y \<Longrightarrow> f64_abs x = f64_abs y"
    by (simp add: f64_abs_take_bit)
qed

lemma f64_abs_sub: "f64_abs (f64_sub x y) = f64_abs (f64_sub y x)"
proof -
  have "f64_abs (f64_round (- v) q) = f64_abs (f64_round v q)" for v q
    by (simp add: f64_round_def)
  moreover have "f64_value y - f64_value x = - (f64_value x - f64_value y)" by simp
  ultimately have "f64_abs (f64_round (f64_value y - f64_value x) 1) =
      f64_abs (f64_round (f64_value x - f64_value y) 1)" by metis
  then show ?thesis
    using f64_abs_inf [of x y] by (simp add: f64_sub_def f64_add_def Let_def)
qed

lemma float_equal_sym: "float_equal x y = float_equal y x"
  by (simp add: float_equal_def f64_abs_sub [of x y])

lemma f64_truncate_fraction: "f64_exponent x < 1023 \<Longrightarrow> f64_truncate x = 0"
proof -
  assume e: "f64_exponent x < 1023"
  have m: "f64_mantissa x < 2 ^ 52"
    unfolding f64_mantissa_take_bit unsigned_take_bit_eq by (rule take_bit_nat_less_exp)
  have "f64_magnitude x < 2 ^ 53 * 2 ^ 1021"
  proof (cases "f64_exponent x = 0")
    case True
    with m show ?thesis by (simp add: f64_magnitude_def)
  next
    case False
    have "(2 ^ 52 + f64_mantissa x) * 2 ^ (f64_exponent x - 1) < 2 ^ 53 * 2 ^ (f64_exponent x - 1)"
      using m by simp
    also have "\<dots> \<le> 2 ^ 53 * 2 ^ 1021"
      using e by (intro mult_le_mono power_increasing) simp_all
    finally show ?thesis using False by (simp only: f64_magnitude_def if_False)
  qed
  then have "f64_magnitude x < 2 ^ 1074" by (simp only: power_add [symmetric]) simp
  then show ?thesis by (simp only: f64_truncate_def div_less) simp
qed

end
