(* ===== verification/Json.thy ===== *)
theory Json
  imports Prelude NumberText Float64 Variant "HOL-Library.List_Lexorder" "HOL-Library.Char_ord"
begin

text \<open>
  The JSON codec (\<^verbatim>\<open>libraries/mcbase/src/json.cpp\<close>, options in \<^verbatim>\<open>include/mc/json.h\<close>). The encoder
  is a function on the state of its class: the text in the stream, the base flag of the stream
  (\<^verbatim>\<open>std::hex\<close> stays set once it is inserted) and the depth. The decoder keeps the rest of the
  input instead of a position, and the depth. \<open>ext\<close> is the virtual method \<^verbatim>\<open>as_string\<close> of
  extensions. The first property is the round trip; the others are the limits the decoder enforces
  and the damage done by the base flag.
\<close>

section \<open>Options\<close>

record json_encode_options =
  jo_pretty_print :: bool
  jo_indent_size :: int
  jo_escape_non_ascii :: bool
  jo_sort_keys :: bool
  jo_float_precision :: int
  jo_max_depth :: int

definition default_encode_options :: json_encode_options where
  "default_encode_options =
     \<lparr>jo_pretty_print = False, jo_indent_size = 4, jo_escape_non_ascii = False, jo_sort_keys = False,
      jo_float_precision = - 1, jo_max_depth = 32\<rparr>"

definition normalize_encode_options :: "json_encode_options \<Rightarrow> json_encode_options" where
  "normalize_encode_options opts =
     opts\<lparr>jo_indent_size := (if jo_indent_size opts < 0 then 0
                              else if jo_indent_size opts > 8 then 8 else jo_indent_size opts),
          jo_float_precision := (if jo_float_precision opts < - 1 then - 1
                                 else if jo_float_precision opts > 17 then 17
                                 else jo_float_precision opts),
          jo_max_depth := (if jo_max_depth opts < 1 then 1
                           else if jo_max_depth opts > 512 then 512 else jo_max_depth opts)\<rparr>"

record json_decode_options =
  jd_max_depth :: int
  jd_max_input_length :: nat
  jd_max_string_length :: nat
  jd_max_array_size :: nat
  jd_max_object_size :: nat

definition default_decode_options :: json_decode_options where
  "default_decode_options =
     \<lparr>jd_max_depth = 32, jd_max_input_length = 16 * 1024 * 1024, jd_max_string_length = 65536,
      jd_max_array_size = 65536, jd_max_object_size = 65536\<rparr>"

definition normalize_decode_options :: "json_decode_options \<Rightarrow> json_decode_options" where
  "normalize_decode_options opts =
     opts\<lparr>jd_max_depth := max 1 (jd_max_depth opts),
          jd_max_input_length := max 1 (jd_max_input_length opts),
          jd_max_string_length := max 1 (jd_max_string_length opts),
          jd_max_array_size := max 1 (jd_max_array_size opts),
          jd_max_object_size := max 1 (jd_max_object_size opts)\<rparr>"

section \<open>The encoder\<close>

record json_encoder =
  je_out :: string
  je_hex :: bool
  je_depth :: int

definition new_encoder :: json_encoder where
  "new_encoder = \<lparr>je_out = [], je_hex = False, je_depth = 0\<rparr>"

definition put :: "string \<Rightarrow> json_encoder \<Rightarrow> json_encoder" where
  "put s e = e\<lparr>je_out := je_out e @ s\<rparr>"

definition encoder_enter_scope :: "json_encode_options \<Rightarrow> json_encoder \<Rightarrow> json_encoder result" where
  "encoder_enter_scope opts e =
     (let e = e\<lparr>je_depth := je_depth e + 1\<rparr>
      in if je_depth e \<ge> jo_max_depth opts then Inl parse_error_exception else Inr e)"

definition encoder_leave_scope :: "json_encoder \<Rightarrow> json_encoder" where
  "encoder_leave_scope e = e\<lparr>je_depth := je_depth e - 1\<rparr>"

definition add_indent :: "json_encode_options \<Rightarrow> json_encoder \<Rightarrow> json_encoder" where
  "add_indent opts e =
     (if jo_pretty_print opts
      then put (CHR 0x0A # replicate (nat (je_depth e * jo_indent_size opts)) CHR '' '') e else e)"

definition add_separator :: "json_encode_options \<Rightarrow> json_encoder \<Rightarrow> json_encoder" where
  "add_separator opts e = (if jo_pretty_print opts then put '' '' e else e)"

text \<open>Integers under \<^verbatim>\<open>std::hex\<close>, and \<^verbatim>\<open>std::setw(4) << std::setfill('0')\<close>.\<close>

fun hex_nat :: "nat \<Rightarrow> string" where
  "hex_nat n =
     (if n < 16 then [digit_char n] else hex_nat (n div 16) @ [digit_char (n mod 16)])"

declare hex_nat.simps [simp del]

definition encode_escape :: "json_encode_options \<Rightarrow> char \<Rightarrow> json_encoder \<Rightarrow> json_encoder" where
  "encode_escape opts c e =
     (let n = of_char c :: nat in
      if c = CHR 0x22 then put [CHR 0x5C, CHR 0x22] e
      else if c = CHR 0x5C then put [CHR 0x5C, CHR 0x5C] e
      else if c = CHR 0x08 then put [CHR 0x5C, CHR ''b''] e
      else if c = CHR 0x0C then put [CHR 0x5C, CHR ''f''] e
      else if c = CHR 0x0A then put [CHR 0x5C, CHR ''n''] e
      else if c = CHR 0x0D then put [CHR 0x5C, CHR ''r''] e
      else if c = CHR 0x09 then put [CHR 0x5C, CHR ''t''] e
      else if n < 0x20 \<or> (jo_escape_non_ascii opts \<and> n \<ge> 0x80)
      then (put (CHR 0x5C # ''u'' @ pad_zeros 4 (hex_nat n)) e)\<lparr>je_hex := True\<rparr>
      else put [c] e)"

definition encode_string :: "json_encode_options \<Rightarrow> string \<Rightarrow> json_encoder \<Rightarrow> json_encoder" where
  "encode_string opts s e = put [CHR 0x22] (fold (encode_escape opts) s (put [CHR 0x22] e))"

definition encode_int :: "i64 \<Rightarrow> json_encoder \<Rightarrow> json_encoder" where
  "encode_int i e = put (if je_hex e then hex_nat (unat i) else decimal (sint i)) e"

definition encode_uint :: "u64 \<Rightarrow> json_encoder \<Rightarrow> json_encoder" where
  "encode_uint u e = put (if je_hex e then hex_nat (unat u) else decimal (uint u)) e"

definition encode_number :: "json_encode_options \<Rightarrow> u64 \<Rightarrow> json_encoder \<Rightarrow> json_encoder result" where
  "encode_number opts x e =
     (if f64_is_finite x
      then Inr (put (if jo_float_precision opts \<ge> 0 then double_fixed (nat (jo_float_precision opts)) x
                     else double_general 17 x) e)
      else Inl parse_error_exception)"

text \<open>The keys in the order in which they are written; a key that is not a string is refused.\<close>

fun string_keys :: "(variant \<times> variant) list \<Rightarrow> string list result" where
  "string_keys [] = Inr []"
| "string_keys ((k, v) # es) =
     (case k of
        VString s \<Rightarrow> bind_result (string_keys es) (\<lambda>ks. Inr (s # ks))
      | _ \<Rightarrow> Inl invalid_arg_exception)"

definition object_keys :: "json_encode_options \<Rightarrow> (variant \<times> variant) list \<Rightarrow> string list result" where
  "object_keys opts es =
     bind_result (string_keys es) (\<lambda>ks. Inr (if jo_sort_keys opts then sort ks else ks))"

lemma find_entry_size:
  "find_entry eq es k = Some v \<Longrightarrow> size v < size_list (size_prod size size) es"
  by (induction es) (auto split: if_splits)

function (sequential) encode_value ::
    "(string \<Rightarrow> string) \<Rightarrow> json_encode_options \<Rightarrow> variant \<Rightarrow> json_encoder \<Rightarrow> json_encoder result"
  and encode_items ::
    "(string \<Rightarrow> string) \<Rightarrow> json_encode_options \<Rightarrow> variant list \<Rightarrow> bool \<Rightarrow> json_encoder \<Rightarrow>
     json_encoder result"
  and encode_entries ::
    "(string \<Rightarrow> string) \<Rightarrow> json_encode_options \<Rightarrow> (variant \<times> variant) list \<Rightarrow> string list \<Rightarrow> bool \<Rightarrow>
     json_encoder \<Rightarrow> json_encoder result" where
  "encode_value ext opts v e =
     (case v of
        VNull \<Rightarrow> Inr (put ''null'' e)
      | VBool b \<Rightarrow> Inr (put (if b then ''true'' else ''false'') e)
      | VInt _ i \<Rightarrow> Inr (encode_int i e)
      | VUInt _ u \<Rightarrow> Inr (encode_uint u e)
      | VDouble x \<Rightarrow> encode_number opts x e
      | VString s \<Rightarrow> Inr (encode_string opts s e)
      | VBlob s \<Rightarrow> Inr (encode_string opts s e)
      | VArray vs \<Rightarrow>
          bind_result (encoder_enter_scope opts e) (\<lambda>e.
            bind_result (encode_items ext opts vs True (put ''['' e)) (\<lambda>e.
              Inr (encoder_leave_scope
                     (put '']'' (if vs \<noteq> [] then add_indent opts e else e)))))
      | VObject es \<Rightarrow>
          bind_result (encoder_enter_scope opts e) (\<lambda>e.
            bind_result (object_keys opts es) (\<lambda>ks.
              bind_result (encode_entries ext opts es ks True (put ''{'' e)) (\<lambda>e.
                Inr (encoder_leave_scope
                       (put ''}'' (if ks \<noteq> [] then add_indent opts e else e))))))
      | VExtension x \<Rightarrow> Inr (encode_string opts (ext x) e))"
| "encode_items ext opts [] first e = Inr e"
| "encode_items ext opts (v # vs) first e =
     bind_result
       (encode_value ext opts v
          (if first then e else add_indent opts (add_separator opts (put '','' e))))
       (encode_items ext opts vs False)"
| "encode_entries ext opts es [] first e = Inr e"
| "encode_entries ext opts es (k # ks) first e =
     (let e = (if first then e else add_indent opts (add_separator opts (put '','' e)));
          e = add_separator opts (put '':'' (encode_string opts k e))
      in case find_entry (=) es (VString k) of
           None \<Rightarrow> Inl out_of_range_exception
         | Some v \<Rightarrow> bind_result (encode_value ext opts v e) (encode_entries ext opts es ks False))"
  by pat_completeness auto
termination
  by (relation "measures
        [\<lambda>x. case x of Inl (ext, opts, v, e) \<Rightarrow> size v
              | Inr (Inl (ext, opts, vs, first, e)) \<Rightarrow> size_list size vs
              | Inr (Inr (ext, opts, es, ks, first, e)) \<Rightarrow> size_list (size_prod size size) es,
         \<lambda>x. case x of Inl _ \<Rightarrow> 0 | Inr (Inl _) \<Rightarrow> 0
              | Inr (Inr (ext, opts, es, ks, first, e)) \<Rightarrow> Suc (length ks)]")
     (auto dest: find_entry_size)


declare encode_value.simps [simp del]

text \<open>
  The entry points; an exception that is not a \<^verbatim>\<open>parse_error_exception\<close> becomes one.
\<close>

definition as_parse_error :: "'a result \<Rightarrow> 'a result" where
  "as_parse_error r =
     (case r of
        Inr x \<Rightarrow> Inr x
      | Inl e \<Rightarrow> Inl (if e = out_of_fuel \<or> e = undefined_behaviour then e else parse_error_exception))"

definition json_encode ::
    "(string \<Rightarrow> string) \<Rightarrow> json_encode_options \<Rightarrow> variant \<Rightarrow> string result" where
  "json_encode ext opts v =
     as_parse_error (bind_result
       (encode_value ext (normalize_encode_options opts) v new_encoder) (\<lambda>e. Inr (je_out e)))"

section \<open>The decoder\<close>

record json_decoder =
  jd_rest :: string
  jd_depth :: int

definition decoder_is_eof :: "json_decoder \<Rightarrow> bool" where
  "decoder_is_eof d \<longleftrightarrow> jd_rest d = []"

definition current :: "json_decoder \<Rightarrow> char" where
  "current d = (if decoder_is_eof d then CHR 0x00 else hd (jd_rest d))"

definition decoder_advance :: "json_decoder \<Rightarrow> json_decoder" where
  "decoder_advance d = (if \<not> decoder_is_eof d then d\<lparr>jd_rest := tl (jd_rest d)\<rparr> else d)"

definition skip_whitespace :: "json_decoder \<Rightarrow> json_decoder" where
  "skip_whitespace d = d\<lparr>jd_rest := dropWhile isspace (jd_rest d)\<rparr>"

definition decoder_enter_scope :: "json_decode_options \<Rightarrow> json_decoder \<Rightarrow> json_decoder result" where
  "decoder_enter_scope opts d =
     (let d = d\<lparr>jd_depth := jd_depth d + 1\<rparr>
      in if jd_depth d \<ge> jd_max_depth opts then Inl parse_error_exception else Inr d)"

definition decoder_leave_scope :: "json_decoder \<Rightarrow> json_decoder" where
  "decoder_leave_scope d = d\<lparr>jd_depth := jd_depth d - 1\<rparr>"

type_synonym 'a decode = "json_decoder \<Rightarrow> ('a \<times> json_decoder) result"

text \<open>\<^verbatim>\<open>parse_null\<close>, \<^verbatim>\<open>parse_true\<close> and \<^verbatim>\<open>parse_false\<close>.\<close>

definition parse_word :: "string \<Rightarrow> variant \<Rightarrow> variant decode" where
  "parse_word word v d =
     (if take (length word) (jd_rest d) = word
      then Inr (v, d\<lparr>jd_rest := drop (length word) (jd_rest d)\<rparr>)
      else Inl parse_error_exception)"

subsection \<open>Strings\<close>

definition parse_uint32_hex4 :: "string \<Rightarrow> u32 option" where
  "parse_uint32_hex4 hex =
     (if length hex \<noteq> 4 then None
      else if \<not> list_all isxdigit hex then None
      else Some (of_nat (digits_value 16 hex)))"

definition utf8_bmp :: "u32 \<Rightarrow> string" where
  "utf8_bmp cp =
     (let b = (\<lambda>w. char_of (unat (w :: u32)))
      in if cp \<le> 0x7F then [b cp]
         else if cp \<le> 0x7FF then [b (0xC0 OR drop_bit 6 cp), b (0x80 OR (cp AND 0x3F))]
         else [b (0xE0 OR drop_bit 12 cp), b (0x80 OR (drop_bit 6 cp AND 0x3F)),
               b (0x80 OR (cp AND 0x3F))])"

text \<open>The cursor is on the \<^verbatim>\<open>u\<close>; it is left on the last hexadecimal digit.\<close>

definition handle_unicode_escape :: "string \<Rightarrow> string decode" where
  "handle_unicode_escape acc d =
     (if length (jd_rest d) \<le> 4 then Inl parse_error_exception
      else case parse_uint32_hex4 (take 4 (drop 1 (jd_rest d))) of
             None \<Rightarrow> Inl parse_error_exception
           | Some code_point \<Rightarrow>
               if code_point > 0xFFFF then Inl parse_error_exception
               else Inr (acc @ utf8_bmp code_point, d\<lparr>jd_rest := drop 4 (jd_rest d)\<rparr>))"

definition handle_normal_char :: "char \<Rightarrow> string \<Rightarrow> string result" where
  "handle_normal_char c acc =
     (if of_char c < (0x20 :: nat) then Inl parse_error_exception else Inr (acc @ [c]))"

definition handle_escape_sequence :: "string \<Rightarrow> string decode" where
  "handle_escape_sequence acc d =
     (if decoder_is_eof d then Inl parse_error_exception
      else let c = current d in
        if c = CHR 0x22 then Inr (acc @ [CHR 0x22], d)
        else if c = CHR 0x5C then Inr (acc @ [CHR 0x5C], d)
        else if c = CHR ''/'' then Inr (acc @ ''/'', d)
        else if c = CHR ''b'' then Inr (acc @ [CHR 0x08], d)
        else if c = CHR ''f'' then Inr (acc @ [CHR 0x0C], d)
        else if c = CHR ''n'' then Inr (acc @ [CHR 0x0A], d)
        else if c = CHR ''r'' then Inr (acc @ [CHR 0x0D], d)
        else if c = CHR ''t'' then Inr (acc @ [CHR 0x09], d)
        else if c = CHR ''u'' then handle_unicode_escape acc d
        else Inl parse_error_exception)"

lemma handle_escape_sequence_length:
  "handle_escape_sequence acc d = Inr (acc', d') \<Longrightarrow> length (jd_rest d') \<le> length (jd_rest d)"
  by (auto simp: handle_escape_sequence_def handle_unicode_escape_def Let_def
      split: if_splits option.splits)

lemma length_shrinks:
  "length xs \<le> length ys - Suc 0 \<Longrightarrow> ys \<noteq> [] \<Longrightarrow> xs \<noteq> [] \<Longrightarrow> length xs - Suc 0 < length ys"
  by (cases xs; cases ys) auto

function string_loop :: "json_decode_options \<Rightarrow> string \<Rightarrow> string decode" where
  "string_loop opts acc d =
     (if decoder_is_eof d then Inl parse_error_exception
      else let c = current d in
        if c = CHR 0x22 then
          let d = decoder_advance d in
          if length acc > jd_max_string_length opts then Inl parse_error_exception else Inr (acc, d)
        else if c = CHR 0x5C then
          (case handle_escape_sequence acc (decoder_advance d) of
             Inl e \<Rightarrow> Inl e
           | Inr (acc', d') \<Rightarrow> string_loop opts acc' (decoder_advance d'))
        else
          (case handle_normal_char c acc of
             Inl e \<Rightarrow> Inl e
           | Inr acc' \<Rightarrow> string_loop opts acc' (decoder_advance d)))"
  by pat_completeness auto
termination
  by (relation "measure (\<lambda>(opts, acc, d). length (jd_rest d))")
     (auto simp: decoder_advance_def decoder_is_eof_def less_diff_conv2 Suc_le_eq
       dest!: handle_escape_sequence_length intro: length_shrinks split: if_splits)

declare string_loop.simps [simp del]

definition parse_string :: "json_decode_options \<Rightarrow> string decode" where
  "parse_string opts d = string_loop opts [] (decoder_advance d)"

subsection \<open>Numbers\<close>

text \<open>The longest run of digits.\<close>

definition skip_digits :: "json_decoder \<Rightarrow> json_decoder" where
  "skip_digits d = d\<lparr>jd_rest := dropWhile isdigit (jd_rest d)\<rparr>"

definition parse_json_number_token :: "string \<Rightarrow> bool \<Rightarrow> bool \<Rightarrow> variant option" where
  "parse_json_number_token sv is_float is_negative =
     (if sv = [] \<or> length sv + 1 > 512 then None
      else if is_float then
        (let (x, e, erange) = strtod sv
         in if erange \<or> e \<noteq> length sv then None else Some (VDouble x))
      else if is_negative then
        (let (v, e, erange) = strtoll sv 10
         in if erange \<or> e \<noteq> length sv then None else Some (VInt int64_type (word_of_int v)))
      else
        (let (v, e, erange) = strtoull sv 10
         in if erange \<or> e \<noteq> length sv then None else Some (VUInt uint64_type (word_of_int v))))"

text \<open>The parts of \<^verbatim>\<open>parse_number\<close>: each moves the cursor and may set \<^verbatim>\<open>is_float\<close>.\<close>

definition parse_integer_part :: "json_decoder \<Rightarrow> json_decoder result" where
  "parse_integer_part d =
     (if current d = CHR ''0'' then Inr (decoder_advance d)
      else if isdigit (current d) then Inr (skip_digits d)
      else Inl parse_error_exception)"

definition parse_fraction_part :: "json_decoder \<Rightarrow> (bool \<times> json_decoder) result" where
  "parse_fraction_part d =
     (if current d = CHR ''.'' then
        let d = decoder_advance d in
        if \<not> isdigit (current d) then Inl parse_error_exception else Inr (True, skip_digits d)
      else Inr (False, d))"

definition parse_exponent_part :: "bool \<Rightarrow> json_decoder \<Rightarrow> (bool \<times> json_decoder) result" where
  "parse_exponent_part is_float d =
     (if current d = CHR ''e'' \<or> current d = CHR ''E'' then
        let d = decoder_advance d;
            d = (if current d = CHR ''+'' \<or> current d = CHR ''-'' then decoder_advance d else d)
        in if \<not> isdigit (current d) then Inl parse_error_exception else Inr (True, skip_digits d)
      else Inr (is_float, d))"

definition parse_number :: "variant decode" where
  "parse_number d0 =
     (let is_negative = (current d0 = CHR ''-'');
          d = (if is_negative then decoder_advance d0 else d0)
      in bind_result (parse_integer_part d) (\<lambda>d.
           bind_result (parse_fraction_part d) (\<lambda>(is_float, d).
             bind_result (parse_exponent_part is_float d) (\<lambda>(is_float, d).
               case parse_json_number_token
                      (take (length (jd_rest d0) - length (jd_rest d)) (jd_rest d0))
                      is_float is_negative of
                 None \<Rightarrow> Inl parse_error_exception
               | Some parsed \<Rightarrow> Inr (parsed, d)))))"

subsection \<open>Arrays, objects and values\<close>

text \<open>
  The loops over the elements and the members. \<open>pv\<close> is \<^verbatim>\<open>parse_value\<close>; every round consumes input,
  and the failure of this test is the exception \<open>out_of_fuel\<close>, which is proved never to occur.
\<close>

function array_loop :: "json_decode_options \<Rightarrow> variant decode \<Rightarrow> variant list \<Rightarrow> variant decode" where
  "array_loop opts pv acc d =
     (if length acc \<ge> jd_max_array_size opts then Inl parse_error_exception
      else bind_result (pv d) (\<lambda>(v, d1).
        let acc' = acc @ [v]; d2 = skip_whitespace d1 in
        if current d2 = CHR '']'' then
          Inr (VArray acc', decoder_leave_scope (decoder_advance d2))
        else if current d2 \<noteq> CHR '','' then Inl parse_error_exception
        else let d3 = skip_whitespace (decoder_advance d2) in
          if length (jd_rest d3) < length (jd_rest d) then array_loop opts pv acc' d3
          else Inl out_of_fuel))"
  by pat_completeness auto
termination
  by (relation "measure (\<lambda>(opts, pv, acc, d). length (jd_rest d))") auto

declare array_loop.simps [simp del]

definition parse_array :: "json_decode_options \<Rightarrow> variant decode \<Rightarrow> variant decode" where
  "parse_array opts pv d =
     bind_result (decoder_enter_scope opts d) (\<lambda>d.
       let d = skip_whitespace (decoder_advance d) in
       if current d = CHR '']'' then Inr (VArray [], decoder_leave_scope (decoder_advance d))
       else array_loop opts pv [] d)"

function object_loop ::
    "json_decode_options \<Rightarrow> variant decode \<Rightarrow> (variant \<times> variant) list \<Rightarrow> nat \<Rightarrow> variant decode" where
  "object_loop opts pv acc count d =
     (if count \<ge> jd_max_object_size opts then Inl parse_error_exception
      else if current d \<noteq> CHR 0x22 then Inl parse_error_exception
      else bind_result (parse_string opts d) (\<lambda>(key, d1).
        let d2 = skip_whitespace d1 in
        if current d2 \<noteq> CHR '':'' then Inl parse_error_exception
        else bind_result (pv (decoder_advance d2)) (\<lambda>(v, d3).
          let acc' = dict_set (=) (VString key) v acc; d4 = skip_whitespace d3 in
          if current d4 = CHR ''}'' then
            Inr (VObject acc', decoder_leave_scope (decoder_advance d4))
          else if current d4 \<noteq> CHR '','' then Inl parse_error_exception
          else let d5 = skip_whitespace (decoder_advance d4) in
            if length (jd_rest d5) < length (jd_rest d)
            then object_loop opts pv acc' (count + 1) d5
            else Inl out_of_fuel)))"
  by pat_completeness auto
termination
  by (relation "measure (\<lambda>(opts, pv, acc, count, d). length (jd_rest d))") auto

declare object_loop.simps [simp del]

definition parse_object :: "json_decode_options \<Rightarrow> variant decode \<Rightarrow> variant decode" where
  "parse_object opts pv d =
     bind_result (decoder_enter_scope opts d) (\<lambda>d.
       let d = skip_whitespace (decoder_advance d) in
       if current d = CHR ''}'' then Inr (VObject [], decoder_leave_scope (decoder_advance d))
       else object_loop opts pv [] 0 d)"

text \<open>
  \<^verbatim>\<open>parse_value\<close>, with the nesting bounded by the depth limit: \<open>fuel\<close> starts above it.
\<close>

primrec parse_value :: "json_decode_options \<Rightarrow> nat \<Rightarrow> variant decode" where
  "parse_value opts 0 d = Inl out_of_fuel"
| "parse_value opts (Suc fuel) d =
     (let d = skip_whitespace d; c = current d in
      if c = CHR ''n'' then parse_word ''null'' VNull d
      else if c = CHR ''t'' then parse_word ''true'' (VBool True) d
      else if c = CHR ''f'' then parse_word ''false'' (VBool False) d
      else if c = CHR 0x22 then
        bind_result (parse_string opts d) (\<lambda>(s, d). Inr (VString s, d))
      else if c = CHR ''['' then parse_array opts (parse_value opts fuel) d
      else if c = CHR ''{'' then parse_object opts (parse_value opts fuel) d
      else if c = CHR ''-'' \<or> isdigit c then parse_number d
      else Inl parse_error_exception)"

declare parse_value.simps(2) [simp del]

definition decoder_decode :: "json_decode_options \<Rightarrow> string \<Rightarrow> variant result" where
  "decoder_decode opts json =
     (if length json > jd_max_input_length opts then Inl parse_error_exception
      else bind_result
        (parse_value opts (Suc (nat (jd_max_depth opts)))
           (skip_whitespace \<lparr>jd_rest = json, jd_depth = 0\<rparr>)) (\<lambda>(v, d).
          if jd_rest (skip_whitespace d) \<noteq> [] then Inl parse_error_exception else Inr v))"

definition json_decode :: "json_decode_options \<Rightarrow> string \<Rightarrow> variant result" where
  "json_decode opts json = as_parse_error (decoder_decode (normalize_decode_options opts) json)"

section \<open>Decoding ends, and its results keep the limits\<close>

text \<open>
  The values the decoder produces with \<open>k\<close> levels of brackets left: numbers of the two 64-bit types
  and finite doubles, strings, arrays and objects within their limits, distinct string keys.
\<close>

definition string_within :: "nat \<Rightarrow> variant \<Rightarrow> bool" where
  "string_within n v = (case v of VString s \<Rightarrow> length s \<le> n | _ \<Rightarrow> False)"

fun decoded_value :: "json_decode_options \<Rightarrow> nat \<Rightarrow> variant \<Rightarrow> bool" where
  "decoded_value opts k VNull \<longleftrightarrow> True"
| "decoded_value opts k (VBool b) \<longleftrightarrow> True"
| "decoded_value opts k (VInt ty i) \<longleftrightarrow> ty = int64_type"
| "decoded_value opts k (VUInt ty u) \<longleftrightarrow> ty = uint64_type"
| "decoded_value opts k (VDouble x) \<longleftrightarrow> True"
| "decoded_value opts k (VString s) \<longleftrightarrow> length s \<le> jd_max_string_length opts"
| "decoded_value opts k (VArray vs) \<longleftrightarrow>
     0 < k \<and> length vs \<le> jd_max_array_size opts \<and> (\<forall>v \<in> set vs. decoded_value opts (k - 1) v)"
| "decoded_value opts k (VObject es) \<longleftrightarrow>
     0 < k \<and> length es \<le> jd_max_object_size opts \<and> distinct (map fst es) \<and>
     (\<forall>e \<in> set es. string_within (jd_max_string_length opts) (fst e) \<and>
                     decoded_value opts (k - 1) (snd e))"
| "decoded_value opts k (VBlob s) \<longleftrightarrow> False"
| "decoded_value opts k (VExtension x) \<longleftrightarrow> False"

text \<open>A decoding step that consumes input, keeps the depth and gives a value with a property.\<close>

definition consumes :: "json_decoder \<Rightarrow> int \<Rightarrow> ('a \<Rightarrow> bool) \<Rightarrow> 'a \<times> json_decoder \<Rightarrow> bool" where
  "consumes d depth P r \<longleftrightarrow>
     length (jd_rest (snd r)) < length (jd_rest d) \<and> jd_depth (snd r) = depth \<and> P (fst r)"

lemma decoder_sel [simp]:
  "jd_depth (decoder_advance d) = jd_depth d" "jd_depth (skip_whitespace d) = jd_depth d"
  "jd_depth (skip_digits d) = jd_depth d" "jd_depth (decoder_leave_scope d) = jd_depth d - 1"
  "jd_rest (decoder_leave_scope d) = jd_rest d" "jd_rest (decoder_advance d) = tl (jd_rest d)"
  by (auto simp: decoder_advance_def decoder_is_eof_def skip_whitespace_def skip_digits_def
      decoder_leave_scope_def)

lemma skip_length:
  "length (jd_rest (skip_whitespace d)) \<le> length (jd_rest d)"
  "length (jd_rest (skip_digits d)) \<le> length (jd_rest d)"
  by (simp_all add: skip_whitespace_def skip_digits_def length_dropWhile_le)

lemma skip_over:
  "length (jd_rest d) < n \<Longrightarrow>
     length (jd_rest (skip_whitespace (decoder_advance (skip_whitespace d)))) < n"
  using skip_length(1) [of "decoder_advance (skip_whitespace d)"] skip_length(1) [of d] by simp

lemma current_nonempty: "current d \<noteq> CHR 0x00 \<Longrightarrow> jd_rest d \<noteq> []"
  by (auto simp: current_def decoder_is_eof_def)

lemma advance_shorter:
  "current d \<noteq> CHR 0x00 \<Longrightarrow> length (tl (jd_rest d)) < length (jd_rest d)"
  using current_nonempty [of d] by (cases "jd_rest d") auto

lemma handle_escape_sequence_depth:
  "handle_escape_sequence acc d = Inr (acc', d') \<Longrightarrow> jd_depth d' = jd_depth d"
  by (auto simp: handle_escape_sequence_def handle_unicode_escape_def Let_def
      split: if_splits option.splits)

lemma handle_escape_sequence_fuel: "handle_escape_sequence acc d \<noteq> Inl out_of_fuel"
  by (auto simp: handle_escape_sequence_def handle_unicode_escape_def Let_def split: option.splits)

lemma string_loop_yields:
  "jd_rest d \<noteq> [] \<Longrightarrow>
   yields (string_loop opts acc d) (consumes d (jd_depth d) (\<lambda>s. length s \<le> jd_max_string_length opts))"
proof (induction opts acc d rule: string_loop.induct)
  case (1 opts acc d)
  show ?case
  proof (cases "current d = CHR 0x22")
    case True
    then show ?thesis
      using 1(3) by (subst string_loop.simps) (auto simp: decoder_is_eof_def consumes_def)
  next
    case noq: False
    have eof: "\<not> decoder_is_eof d" using 1(3) by (simp add: decoder_is_eof_def)
    have go: "yields (string_loop opts acc' d') (consumes d (jd_depth d) (\<lambda>s. length s \<le> jd_max_string_length opts))"
      if "length (jd_rest d') < length (jd_rest d)" "jd_depth d' = jd_depth d"
        "jd_rest d' \<noteq> [] \<Longrightarrow> yields (string_loop opts acc' d')
           (consumes d' (jd_depth d') (\<lambda>s. length s \<le> jd_max_string_length opts))" for acc' d'
    proof (cases "jd_rest d' = []")
      case True
      then show ?thesis by (subst string_loop.simps) (simp add: decoder_is_eof_def)
    next
      case False
      from yields_mono [OF that(3) [OF this]] that(1,2) show ?thesis
        by (auto simp: consumes_def)
    qed
    show ?thesis
    proof (cases "current d = CHR 0x5C")
      case True
      show ?thesis
      proof (cases "handle_escape_sequence acc (decoder_advance d)")
        case (Inl e)
        with handle_escape_sequence_fuel [of acc "decoder_advance d"] True noq eof show ?thesis
          by (subst string_loop.simps) auto
      next
        case (Inr r)
        obtain acc' d' where r: "r = (acc', d')" by (cases r)
        have "yields (string_loop opts acc' (decoder_advance d'))
            (consumes d (jd_depth d) (\<lambda>s. length s \<le> jd_max_string_length opts))"
        proof (rule go)
          show "length (jd_rest (decoder_advance d')) < length (jd_rest d)"
            using handle_escape_sequence_length [OF Inr [unfolded r]] 1(3)
            by (cases "jd_rest d"; cases "jd_rest d'") auto
          show "jd_depth (decoder_advance d') = jd_depth d"
            using handle_escape_sequence_depth [OF Inr [unfolded r]] by simp
        qed (rule 1(1) [OF eof refl noq True Inr r [symmetric]])
        with Inr r True noq eof show ?thesis by (subst string_loop.simps) simp
      qed
    next
      case False
      show ?thesis
      proof (cases "handle_normal_char (current d) acc")
        case (Inl e)
        then have "e \<noteq> out_of_fuel" by (auto simp: handle_normal_char_def split: if_splits)
        with Inl False noq eof show ?thesis by (subst string_loop.simps) auto
      next
        case (Inr acc')
        have "yields (string_loop opts acc' (decoder_advance d))
            (consumes d (jd_depth d) (\<lambda>s. length s \<le> jd_max_string_length opts))"
          by (rule go) (use 1(3) 1(2) [OF eof refl noq False Inr] in \<open>cases "jd_rest d", auto\<close>)
        with Inr False noq eof show ?thesis by (subst string_loop.simps) simp
      qed
    qed
  qed
qed

lemma parse_string_yields:
  assumes "current d = CHR 0x22"
  shows "yields (parse_string opts d) (consumes d (jd_depth d) (\<lambda>s. length s \<le> jd_max_string_length opts))"
proof (cases "jd_rest (decoder_advance d) = []")
  case True
  then show ?thesis
    by (simp add: parse_string_def string_loop.simps [of opts "[]"] decoder_is_eof_def)
next
  case False
  have "yields (string_loop opts [] (decoder_advance d))
      (consumes (decoder_advance d) (jd_depth (decoder_advance d)) (\<lambda>s. length s \<le> jd_max_string_length opts))"
    using False by (rule string_loop_yields)
  then show ?thesis
    unfolding parse_string_def
    by (rule yields_mono) (use advance_shorter [of d] assms in \<open>auto simp: consumes_def\<close>)
qed

text \<open>The parts of a number only move forward, and the first one consumes a character.\<close>

lemma dropWhile_shorter: "P (hd xs) \<Longrightarrow> xs \<noteq> [] \<Longrightarrow> length (dropWhile P xs) < length xs"
  by (cases xs) (simp_all add: le_imp_less_Suc length_dropWhile_le)

lemma isdigit_current:
  "isdigit (current d) \<Longrightarrow> length (jd_rest (skip_digits d)) < length (jd_rest d)"
proof -
  assume c: "isdigit (current d)"
  then have "jd_rest d \<noteq> []" by (intro current_nonempty) (auto simp: isdigit_def)
  with c show ?thesis
    by (simp add: skip_digits_def current_def decoder_is_eof_def dropWhile_shorter)
qed

lemma parse_integer_part_yields:
  "yields (parse_integer_part d) (\<lambda>d'. length (jd_rest d') < length (jd_rest d) \<and> jd_depth d' = jd_depth d)"
  using isdigit_current [of d] advance_shorter [of d] by (auto simp: parse_integer_part_def)

lemma parse_fraction_part_yields:
  "yields (parse_fraction_part d) (\<lambda>(f, d'). length (jd_rest d') \<le> length (jd_rest d) \<and> jd_depth d' = jd_depth d)"
  using le_trans [OF skip_length(2) [of "decoder_advance d"], of "length (jd_rest d)"]
  by (auto simp: parse_fraction_part_def Let_def)

lemma parse_exponent_part_yields:
  "yields (parse_exponent_part f d) (\<lambda>(f, d'). length (jd_rest d') \<le> length (jd_rest d) \<and> jd_depth d' = jd_depth d)"
  using le_trans [OF skip_length(2) [of "decoder_advance d"], of "length (jd_rest d)"]
    le_trans [OF skip_length(2) [of "decoder_advance (decoder_advance d)"], of "length (jd_rest d)"]
  by (auto simp: parse_exponent_part_def Let_def)

lemma number_token_value:
  "parse_json_number_token sv f n = Some v \<Longrightarrow> decoded_value opts k v"
  unfolding parse_json_number_token_def
  by (cases "strtod sv"; cases "strtoll sv 10"; cases "strtoull sv 10") (simp split: if_split_asm; clarify?; fastforce)

lemma parse_number_yields:
  "yields (parse_number d) (consumes d (jd_depth d) (decoded_value opts k))"
proof -
  define d1 where "d1 = (if current d = CHR ''-'' then decoder_advance d else d)"
  have d1: "length (jd_rest d1) \<le> length (jd_rest d)" "jd_depth d1 = jd_depth d"
    by (simp_all add: d1_def)
  have fin: "yields (case parse_json_number_token (take (length (jd_rest d) - length (jd_rest d4)) (jd_rest d)) f
          (current d = CHR ''-'') of
        None \<Rightarrow> Inl parse_error_exception | Some parsed \<Rightarrow> Inr (parsed, d4))
      (consumes d (jd_depth d) (decoded_value opts k))"
    if "length (jd_rest d4) < length (jd_rest d)" "jd_depth d4 = jd_depth d" for f d4
    using that by (auto simp: consumes_def intro: number_token_value split: option.split)
  have "yields (bind_result (parse_exponent_part f d3) (\<lambda>(f, d4).
      case parse_json_number_token (take (length (jd_rest d) - length (jd_rest d4)) (jd_rest d)) f
          (current d = CHR ''-'') of
        None \<Rightarrow> Inl parse_error_exception | Some parsed \<Rightarrow> Inr (parsed, d4)))
      (consumes d (jd_depth d) (decoded_value opts k))"
    if "length (jd_rest d3) < length (jd_rest d)" "jd_depth d3 = jd_depth d" for f d3
    by (rule yields_bind [OF parse_exponent_part_yields])
       (clarsimp, rule fin, insert that, linarith, simp)
  note fin2 = this
  have "yields (bind_result (parse_fraction_part d2) (\<lambda>(f, d3).
      bind_result (parse_exponent_part f d3) (\<lambda>(f, d4).
      case parse_json_number_token (take (length (jd_rest d) - length (jd_rest d4)) (jd_rest d)) f
          (current d = CHR ''-'') of
        None \<Rightarrow> Inl parse_error_exception | Some parsed \<Rightarrow> Inr (parsed, d4))))
      (consumes d (jd_depth d) (decoded_value opts k))"
    if "length (jd_rest d2) < length (jd_rest d)" "jd_depth d2 = jd_depth d" for d2
    by (rule yields_bind [OF parse_fraction_part_yields])
       (clarsimp, rule fin2, insert that, linarith, simp)
  note fin3 = this
  show ?thesis
    unfolding parse_number_def Let_def d1_def [symmetric]
    by (rule yields_bind [OF parse_integer_part_yields])
       (rule fin3, insert d1, linarith, simp)
qed

lemma decoder_enter_scope_yields:
  "yields (decoder_enter_scope opts d)
     (\<lambda>d'. d' = d\<lparr>jd_depth := jd_depth d + 1\<rparr> \<and> jd_depth d + 1 < jd_max_depth opts)"
  by (simp add: decoder_enter_scope_def Let_def)

text \<open>What a loop needs of \<^verbatim>\<open>parse_value\<close>: it behaves on every input at the depth of the loop.\<close>

definition value_parser :: "json_decode_options \<Rightarrow> int \<Rightarrow> nat \<Rightarrow> variant decode \<Rightarrow> bool" where
  "value_parser opts depth k pv \<longleftrightarrow>
     (\<forall>d. jd_depth d = depth \<longrightarrow> yields (pv d) (consumes d depth (decoded_value opts k)))"

lemma value_parserD:
  "value_parser opts depth k pv \<Longrightarrow> jd_depth d = depth \<Longrightarrow>
     yields (pv d) (consumes d depth (decoded_value opts k))"
  by (simp add: value_parser_def)

lemma array_loop_yields:
  assumes pv: "value_parser opts depth k pv"
  shows "jd_depth d = depth \<Longrightarrow> \<forall>v \<in> set acc. decoded_value opts k v \<Longrightarrow>
    yields (array_loop opts pv acc d) (consumes d (depth - 1) (decoded_value opts (Suc k)))"
proof (induction "length (jd_rest d)" arbitrary: acc d rule: less_induct)
  case less
  show ?case
  proof (cases "length acc \<ge> jd_max_array_size opts")
    case True
    then show ?thesis by (simp add: array_loop.simps [of _ _ _ d])
  next
    case False
    let ?P = "consumes d (depth - 1) (decoded_value opts (Suc k))"
    have "yields (let acc' = acc @ [v]; d2 = skip_whitespace d1 in
        if current d2 = CHR '']'' then
          Inr (VArray acc', decoder_leave_scope (decoder_advance d2))
        else if current d2 \<noteq> CHR '','' then Inl parse_error_exception
        else let d3 = skip_whitespace (decoder_advance d2) in
          if length (jd_rest d3) < length (jd_rest d) then array_loop opts pv acc' d3
          else Inl out_of_fuel) ?P"
      if v: "consumes d depth (decoded_value opts k) (v, d1)" for v d1
    proof -
      let ?d2 = "skip_whitespace d1" and ?acc = "acc @ [v]"
      let ?d3 = "skip_whitespace (decoder_advance ?d2)"
      have d1: "length (jd_rest d1) < length (jd_rest d)" "jd_depth d1 = depth" "decoded_value opts k v"
        using v by (auto simp: consumes_def)
      have acc: "\<forall>v \<in> set ?acc. decoded_value opts k v" using less.prems(2) d1(3) by auto
      have sh: "length (jd_rest ?d3) < length (jd_rest d)"
        using d1(1) by (rule skip_over)
      have "yields (array_loop opts pv ?acc ?d3) ?P"
        by (rule yields_mono [OF less.hyps [OF sh _ acc]]) (use sh d1(2) in \<open>auto simp: consumes_def\<close>)
      moreover have "?P (VArray ?acc, decoder_leave_scope (decoder_advance ?d2))"
        using acc False d1 skip_length(1) [of d1] by (simp add: consumes_def)
      ultimately show ?thesis using sh by (simp add: Let_def)
    qed
    with False value_parserD [OF pv less.prems(1)] show ?thesis
      by (subst array_loop.simps) (auto intro: yields_bind)
  qed
qed

lemma parse_array_yields:
  assumes "jd_depth d + 1 < jd_max_depth opts \<Longrightarrow> value_parser opts (jd_depth d + 1) k pv"
    and "current d = CHR ''[''"
  shows "yields (parse_array opts pv d) (consumes d (jd_depth d) (decoded_value opts (Suc k)))"
proof -
  have ne: "jd_rest d \<noteq> []" using assms(2) current_nonempty [of d] by auto
  let ?d = "skip_whitespace (decoder_advance (d\<lparr>jd_depth := jd_depth d + 1\<rparr>))"
  have sh: "length (jd_rest ?d) < length (jd_rest d)"
    using skip_length(1) [of "decoder_advance (d\<lparr>jd_depth := jd_depth d + 1\<rparr>)"] ne
    by (cases "jd_rest d") auto
  have "yields (array_loop opts pv [] ?d) (consumes d (jd_depth d) (decoded_value opts (Suc k)))"
    if "jd_depth d + 1 < jd_max_depth opts"
    by (rule yields_mono [OF array_loop_yields [OF assms(1) [OF that]]]) (use sh in \<open>auto simp: consumes_def\<close>)
  then show ?thesis
    unfolding parse_array_def
    by (intro yields_bind [OF decoder_enter_scope_yields])
       (use sh in \<open>auto simp: Let_def consumes_def\<close>)
qed

text \<open>The entry of an object replaces the one of the same key, or is new.\<close>

lemma map_fst_dict_set:
  "map fst (dict_set (=) key v es) =
     (if key \<in> set (map fst es) then map fst es else map fst es @ [key])"
proof (induction es)
  case (Cons e es)
  obtain k w where "e = (k, w)" by (cases e)
  with Cons show ?case by (cases "key = k") (simp_all, blast?)
qed simp

lemma dict_set_keys:
  "distinct (map fst es) \<Longrightarrow> distinct (map fst (dict_set (=) key v es))"
  "length (dict_set (=) key v es) \<le> Suc (length es)"
proof -
  show "distinct (map fst es) \<Longrightarrow> distinct (map fst (dict_set (=) key v es))"
    by (simp only: map_fst_dict_set) simp
  have "length (map fst (dict_set (=) key v es)) \<le> Suc (length (map fst es))"
    by (simp only: map_fst_dict_set) simp
  then show "length (dict_set (=) key v es) \<le> Suc (length es)" by simp
qed

lemma dict_set_entries:
  "e \<in> set (dict_set (=) key v es) \<Longrightarrow> e = (key, v) \<or> e \<in> set es"
  by (induction es) (auto split: if_splits)

definition decoded_entries :: "json_decode_options \<Rightarrow> nat \<Rightarrow> (variant \<times> variant) list \<Rightarrow> bool" where
  "decoded_entries opts k es \<longleftrightarrow>
     distinct (map fst es) \<and>
     (\<forall>e \<in> set es. string_within (jd_max_string_length opts) (fst e) \<and>
                     decoded_value opts k (snd e))"

lemma decoded_entries_set:
  "decoded_entries opts k es \<Longrightarrow> length s \<le> jd_max_string_length opts \<Longrightarrow> decoded_value opts k v \<Longrightarrow>
     decoded_entries opts k (dict_set (=) (VString s) v es)"
  unfolding decoded_entries_def
  by (auto simp: string_within_def dest!: dict_set_entries intro: dict_set_keys(1))

lemma object_loop_yields:
  assumes pv: "value_parser opts depth k pv"
  shows "jd_depth d = depth \<Longrightarrow> decoded_entries opts k acc \<Longrightarrow> length acc \<le> count \<Longrightarrow>
    yields (object_loop opts pv acc count d) (consumes d (depth - 1) (decoded_value opts (Suc k)))"
proof (induction "length (jd_rest d)" arbitrary: acc count d rule: less_induct)
  case less
  let ?P = "consumes d (depth - 1) (decoded_value opts (Suc k))"
  show ?case
  proof (cases "count \<ge> jd_max_object_size opts \<or> current d \<noteq> CHR 0x22")
    case True
    then show ?thesis by (auto simp: object_loop.simps [of _ _ _ _ d])
  next
    case False
    let ?after = "\<lambda>key v d3.
          let acc' = dict_set (=) (VString key) v acc; d4 = skip_whitespace d3 in
          if current d4 = CHR ''}'' then
            Inr (VObject acc', decoder_leave_scope (decoder_advance d4))
          else if current d4 \<noteq> CHR '','' then Inl parse_error_exception
          else let d5 = skip_whitespace (decoder_advance d4) in
            if length (jd_rest d5) < length (jd_rest d)
            then object_loop opts pv acc' (count + 1) d5
            else Inl out_of_fuel"
    have rest: "yields (?after key v d3) ?P"
      if key: "length key \<le> jd_max_string_length opts"
        and v: "length (jd_rest d3) < length (jd_rest d)" "jd_depth d3 = depth" "decoded_value opts k v"
      for key v d3
    proof -
      let ?d4 = "skip_whitespace d3" and ?acc = "dict_set (=) (VString key) v acc"
      let ?d5 = "skip_whitespace (decoder_advance ?d4)"
      have acc: "decoded_entries opts k ?acc" using less.prems(2) key v(3) by (rule decoded_entries_set)
      have len: "length ?acc \<le> count + 1" using dict_set_keys(2) [of "VString key" v acc] less.prems(3) by simp
      have sh: "length (jd_rest ?d5) < length (jd_rest d)"
        using v(1) by (rule skip_over)
      have "yields (object_loop opts pv ?acc (count + 1) ?d5) ?P"
        by (rule yields_mono [OF less.hyps [OF sh _ acc len]]) (use sh v(2) in \<open>auto simp: consumes_def\<close>)
      moreover have "?P (VObject ?acc, decoder_leave_scope (decoder_advance ?d4))"
        using acc len False v skip_length(1) [of d3] by (auto simp: consumes_def decoded_entries_def)
      ultimately show ?thesis using sh by (simp add: Let_def)
    qed
    have "yields (let d2 = skip_whitespace d1 in
        if current d2 \<noteq> CHR '':'' then Inl parse_error_exception
        else bind_result (pv (decoder_advance d2)) (\<lambda>(v, d3). ?after key v d3)) ?P"
      if key: "consumes d depth (\<lambda>s. length s \<le> jd_max_string_length opts) (key, d1)" for key d1
    proof -
      let ?d2 = "decoder_advance (skip_whitespace d1)"
      have sh: "length (jd_rest ?d2) < length (jd_rest d)" and dp: "jd_depth ?d2 = depth"
        using key skip_length(1) [of d1] by (auto simp: consumes_def)
      have "yields (bind_result (pv ?d2) (\<lambda>(v, d3). ?after key v d3)) ?P"
      proof (rule yields_bind [OF value_parserD [OF pv dp]])
        fix r
        assume r: "consumes ?d2 depth (decoded_value opts k) r"
        obtain v d3 where vd: "r = (v, d3)" by (cases r)
        have "yields (?after key v d3) ?P"
          by (rule rest) (use key r vd sh in \<open>auto simp: consumes_def\<close>)
        then show "yields (case r of (v, d3) \<Rightarrow> ?after key v d3) ?P" by (simp add: vd)
      qed
      then show ?thesis by (simp add: Let_def [of "skip_whitespace d1"])
    qed
    with parse_string_yields [of d opts] False less.prems(1) show ?thesis
      by (subst object_loop.simps) (auto intro: yields_bind)
  qed
qed

lemma parse_object_yields:
  assumes "jd_depth d + 1 < jd_max_depth opts \<Longrightarrow> value_parser opts (jd_depth d + 1) k pv"
    and "current d = CHR ''{''"
  shows "yields (parse_object opts pv d) (consumes d (jd_depth d) (decoded_value opts (Suc k)))"
proof -
  have ne: "jd_rest d \<noteq> []" using assms(2) current_nonempty [of d] by auto
  let ?d = "skip_whitespace (decoder_advance (d\<lparr>jd_depth := jd_depth d + 1\<rparr>))"
  have sh: "length (jd_rest ?d) < length (jd_rest d)"
    using skip_length(1) [of "decoder_advance (d\<lparr>jd_depth := jd_depth d + 1\<rparr>)"] ne
    by (cases "jd_rest d") auto
  have "yields (object_loop opts pv [] 0 ?d) (consumes d (jd_depth d) (decoded_value opts (Suc k)))"
    if "jd_depth d + 1 < jd_max_depth opts"
    by (rule yields_mono [OF object_loop_yields [OF assms(1) [OF that]]])
       (use sh in \<open>auto simp: consumes_def decoded_entries_def\<close>)
  then show ?thesis
    unfolding parse_object_def
    by (intro yields_bind [OF decoder_enter_scope_yields])
       (use sh in \<open>auto simp: Let_def consumes_def\<close>)
qed

lemma parse_word_yields:
  "word \<noteq> [] \<Longrightarrow> P v \<Longrightarrow> yields (parse_word word v d) (consumes d (jd_depth d) P)"
  by (cases "jd_rest d") (auto simp: parse_word_def consumes_def)

lemma consumes_skip:
  "yields m (consumes (skip_whitespace d) n P) \<Longrightarrow> yields m (consumes d n P)"
  by (erule yields_mono) (use skip_length(1) [of d] in \<open>auto simp: consumes_def\<close>)

lemma yields_if:
  "(c \<Longrightarrow> yields x P) \<Longrightarrow> (\<not> c \<Longrightarrow> yields y P) \<Longrightarrow> yields (if c then x else y) P"
  by simp

lemma parse_leaf_yields:
  assumes "jd_depth d = n"
  shows "current d = CHR 0x22 \<Longrightarrow>
      yields (bind_result (parse_string opts d) (\<lambda>(s, d). Inr (VString s, d)))
        (consumes d n (decoded_value opts k))"
    "yields (parse_number d) (consumes d n (decoded_value opts k))"
    "yields (parse_word ''null'' VNull d) (consumes d n (decoded_value opts k))"
    "yields (parse_word ''true'' (VBool True) d) (consumes d n (decoded_value opts k))"
    "yields (parse_word ''false'' (VBool False) d) (consumes d n (decoded_value opts k))"
proof -
  show "yields (bind_result (parse_string opts d) (\<lambda>(s, d). Inr (VString s, d)))
        (consumes d n (decoded_value opts k))" if "current d = CHR 0x22"
    by (rule yields_bind [OF parse_string_yields [OF that]]) (auto simp: consumes_def assms)
qed (use assms parse_number_yields [of d] parse_word_yields [of _ _ _ d] in simp_all)

text \<open>
  The fuel is enough as soon as it reaches the depth limit, and the levels left are those below it.
\<close>

lemma parse_value_yields:
  "jd_max_depth opts \<le> jd_depth d + int fuel \<Longrightarrow>
     yields (parse_value opts (Suc fuel) d)
       (consumes d (jd_depth d) (decoded_value opts (nat (jd_max_depth opts - 1 - jd_depth d))))"
proof (induction fuel arbitrary: d)
  case 0
  then have no: "parse_array opts pv (skip_whitespace d) = Inl parse_error_exception"
      "parse_object opts pv (skip_whitespace d) = Inl parse_error_exception" for pv
    by (simp_all add: parse_array_def parse_object_def decoder_enter_scope_def)
  show ?case
    unfolding parse_value.simps(2) [of opts 0] Let_def no
    by (rule consumes_skip, intro yields_if parse_leaf_yields) simp_all
next
  case (Suc fuel)
  let ?d = "skip_whitespace d" and ?pv = "parse_value opts (Suc fuel)"
  let ?k = "nat (jd_max_depth opts - 1 - (jd_depth ?d + 1))"
  have pv: "value_parser opts (jd_depth ?d + 1) ?k ?pv" if "jd_depth ?d + 1 < jd_max_depth opts"
    unfolding value_parser_def
  proof (intro allI impI)
    fix d' :: json_decoder
    assume d': "jd_depth d' = jd_depth ?d + 1"
    have "jd_max_depth opts \<le> jd_depth d' + int fuel" using Suc.prems d' by simp
    from Suc.IH [OF this] show "yields (?pv d') (consumes d' (jd_depth ?d + 1) (decoded_value opts ?k))"
      by (simp only: d')
  qed
  have k: "nat (jd_max_depth opts - 1 - jd_depth d) = Suc ?k"
    if "jd_depth ?d + 1 < jd_max_depth opts" using that by simp
  have arr: "yields (parse_array opts ?pv ?d)
      (consumes ?d (jd_depth d) (decoded_value opts (nat (jd_max_depth opts - 1 - jd_depth d))))"
    if "current ?d = CHR ''[''"
    using parse_array_yields [OF pv that] k
    by (cases "jd_depth ?d + 1 < jd_max_depth opts") (auto simp: parse_array_def decoder_enter_scope_def)
  have obj: "yields (parse_object opts ?pv ?d)
      (consumes ?d (jd_depth d) (decoded_value opts (nat (jd_max_depth opts - 1 - jd_depth d))))"
    if "current ?d = CHR ''{''"
    using parse_object_yields [OF pv that] k
    by (cases "jd_depth ?d + 1 < jd_max_depth opts") (auto simp: parse_object_def decoder_enter_scope_def)
  show ?case
    unfolding parse_value.simps(2) [of opts "Suc fuel"] Let_def
    by (rule consumes_skip, intro yields_if parse_leaf_yields arr obj) simp_all
qed

lemma decoder_decode_yields:
  "yields (decoder_decode opts json) (decoded_value opts (nat (jd_max_depth opts - 1)))"
proof -
  let ?d = "skip_whitespace \<lparr>jd_rest = json, jd_depth = 0\<rparr>"
  have "yields (parse_value opts (Suc (nat (jd_max_depth opts))) ?d)
      (consumes ?d (jd_depth ?d) (decoded_value opts (nat (jd_max_depth opts - 1 - jd_depth ?d))))"
    by (rule parse_value_yields) simp
  then show ?thesis
    by (auto simp: decoder_decode_def consumes_def elim!: yields_bind)
qed

lemma as_parse_error_yields: "yields m P \<Longrightarrow> yields (as_parse_error m) P"
  by (cases m) (auto simp: as_parse_error_def)

text \<open>
  Decoding always ends with a value or an exception, on every input and under every options: the
  nesting is bounded by the depth limit and every loop consumes input.
\<close>

theorem json_decode_ends: "json_decode opts json \<noteq> Inl out_of_fuel"
  unfolding json_decode_def
  using as_parse_error_yields [OF decoder_decode_yields] by (rule yieldsD(1))

text \<open>
  C26. A decoded value keeps every limit of the (normalised) options: strings, arrays and objects are no
  longer than allowed, the nesting stays below the depth limit, numbers have one of the three 64-bit
  types, and the keys of every object are distinct strings.
\<close>

theorem json_decode_keeps_limits:
  assumes "json_decode opts json = Inr v"
  shows "decoded_value (normalize_decode_options opts)
     (nat (jd_max_depth (normalize_decode_options opts) - 1)) v"
  using assms as_parse_error_yields [OF decoder_decode_yields]
  unfolding json_decode_def by (rule yieldsD(2) [rotated])

theorem json_decode_keeps_limits_witness:
  "decoded_value
     (normalize_decode_options \<lparr>jd_max_depth = 3, jd_max_input_length = 20, jd_max_string_length = 2,
        jd_max_array_size = 2, jd_max_object_size = 2\<rparr>) 2
     (VArray [VObject [(VString ''a'', VNull)], VBool True])"
  using json_decode_keeps_limits
    [of "\<lparr>jd_max_depth = 3, jd_max_input_length = 20, jd_max_string_length = 2,
        jd_max_array_size = 2, jd_max_object_size = 2\<rparr>"
        "''[{'' @ [CHR 0x22, CHR ''a'', CHR 0x22] @ '':null}, true]''"
        "VArray [VObject [(VString ''a'', VNull)], VBool True]"]
  by code_simp

section \<open>The round trip\<close>

text \<open>What a value becomes: integers take one of the two 64-bit types by their sign, bytes and
  extensions become strings, and sorted keys reorder the entries.\<close>

definition key_string :: "variant \<Rightarrow> string" where
  "key_string k = (case k of VString s \<Rightarrow> s | _ \<Rightarrow> [])"

definition reorder_entries :: "json_encode_options \<Rightarrow> (variant \<times> variant) list \<Rightarrow> (variant \<times> variant) list" where
  "reorder_entries opts es =
     (if jo_sort_keys opts
      then map (\<lambda>k. (VString k, the (find_entry (=) es (VString k)))) (sort (map (key_string \<circ> fst) es))
      else es)"

primrec json_norm :: "(string \<Rightarrow> string) \<Rightarrow> json_encode_options \<Rightarrow> variant \<Rightarrow> variant" where
  "json_norm ext opts VNull = VNull"
| "json_norm ext opts (VBool b) = VBool b"
| "json_norm ext opts (VInt k i) = (if i <s 0 then VInt int64_type i else VUInt uint64_type i)"
| "json_norm ext opts (VUInt k u) = VUInt uint64_type u"
| "json_norm ext opts (VDouble x) = VDouble x"
| "json_norm ext opts (VString s) = VString s"
| "json_norm ext opts (VBlob s) = VString s"
| "json_norm ext opts (VExtension x) = VString (ext x)"
| "json_norm ext opts (VArray vs) = VArray (map (json_norm ext opts) vs)"
| "json_norm ext opts (VObject es) =
     VObject (reorder_entries opts (map (map_prod id (json_norm ext opts)) es))"

text \<open>
  The characters that are written without \<^verbatim>\<open>\\u\<close>, and the values that survive: no doubles, strings of
  such characters within the limit, string keys, and \<open>k\<close> levels of brackets at most.
\<close>

definition plain_json_char :: "json_encode_options \<Rightarrow> char \<Rightarrow> bool" where
  "plain_json_char opts c \<longleftrightarrow>
     c \<in> {CHR 0x08, CHR 0x09, CHR 0x0A, CHR 0x0C, CHR 0x0D} \<or>
     (0x20 \<le> (of_char c :: nat) \<and> (jo_escape_non_ascii opts \<longrightarrow> (of_char c :: nat) < 0x80))"

definition json_string :: "json_encode_options \<Rightarrow> json_decode_options \<Rightarrow> string \<Rightarrow> bool" where
  "json_string eo dc s \<longleftrightarrow> list_all (plain_json_char eo) s \<and> length s \<le> jd_max_string_length dc"

fun encodable ::
    "(string \<Rightarrow> string) \<Rightarrow> json_encode_options \<Rightarrow> json_decode_options \<Rightarrow> nat \<Rightarrow> variant \<Rightarrow> bool" where
  "encodable ext eo dc k (VDouble x) \<longleftrightarrow> False"
| "encodable ext eo dc k (VString s) \<longleftrightarrow> json_string eo dc s"
| "encodable ext eo dc k (VBlob s) \<longleftrightarrow> json_string eo dc s"
| "encodable ext eo dc k (VExtension x) \<longleftrightarrow> json_string eo dc (ext x)"
| "encodable ext eo dc k (VArray vs) \<longleftrightarrow>
     0 < k \<and> length vs \<le> jd_max_array_size dc \<and> (\<forall>v \<in> set vs. encodable ext eo dc (k - 1) v)"
| "encodable ext eo dc k (VObject es) \<longleftrightarrow>
     0 < k \<and> length es \<le> jd_max_object_size dc \<and> distinct (map fst es) \<and>
     (\<forall>e \<in> set es. fst e = VString (key_string (fst e)) \<and> json_string eo dc (key_string (fst e)) \<and>
                     encodable ext eo dc (k - 1) (snd e))"
| "encodable ext eo dc k v \<longleftrightarrow> True"

subsection \<open>Strings\<close>

definition json_char_text :: "char \<Rightarrow> string" where
  "json_char_text c =
     (if c = CHR 0x22 then [CHR 0x5C, CHR 0x22]
      else if c = CHR 0x5C then [CHR 0x5C, CHR 0x5C]
      else if c = CHR 0x08 then [CHR 0x5C, CHR ''b'']
      else if c = CHR 0x0C then [CHR 0x5C, CHR ''f'']
      else if c = CHR 0x0A then [CHR 0x5C, CHR ''n'']
      else if c = CHR 0x0D then [CHR 0x5C, CHR ''r'']
      else if c = CHR 0x09 then [CHR 0x5C, CHR ''t'']
      else [c])"

definition json_text :: "string \<Rightarrow> string" where
  "json_text s = [CHR 0x22] @ concat (map json_char_text s) @ [CHR 0x22]"

lemma put_put [simp]: "put b (put a e) = put (a @ b) e"
  by (simp add: put_def)

lemma put_Nil [simp]: "put [] e = e"
  by (simp add: put_def)

lemma put_sel [simp]:
  "je_out (put s e) = je_out e @ s" "je_hex (put s e) = je_hex e" "je_depth (put s e) = je_depth e"
  by (simp_all add: put_def)

lemma encode_escape_plain:
  assumes "plain_json_char opts c"
  shows "encode_escape opts c e = put (json_char_text c) e"
proof -
  have "\<not> ((of_char c :: nat) < 0x20 \<or> (jo_escape_non_ascii opts \<and> (of_char c :: nat) \<ge> 0x80))"
    if "c \<notin> {CHR 0x08, CHR 0x09, CHR 0x0A, CHR 0x0C, CHR 0x0D}"
    using assms that by (auto simp: plain_json_char_def)
  then show ?thesis by (auto simp: encode_escape_def json_char_text_def Let_def)
qed

lemma fold_encode_escape:
  "list_all (plain_json_char opts) s \<Longrightarrow>
     fold (encode_escape opts) s e = put (concat (map json_char_text s)) e"
  by (induction s arbitrary: e) (simp_all add: encode_escape_plain)

lemma encode_string_text:
  "json_string eo dc s \<Longrightarrow> encode_string eo s e = put (json_text s) e"
  by (simp add: encode_string_def json_string_def fold_encode_escape json_text_def)

lemma string_loop_char:
  assumes "plain_json_char opts c"
  shows "string_loop dc acc (d\<lparr>jd_rest := json_char_text c @ rest\<rparr>) =
     string_loop dc (acc @ [c]) (d\<lparr>jd_rest := rest\<rparr>)"
proof -
  have n: "\<not> (of_char c :: nat) < 0x20" if "json_char_text c = [c]"
    using assms that by (auto simp: plain_json_char_def json_char_text_def split: if_splits)
  show ?thesis
  proof (cases "json_char_text c = [c]")
    case True
    then have "c \<noteq> CHR 0x22" "c \<noteq> CHR 0x5C" by (auto simp: json_char_text_def)
    with n [OF True] True show ?thesis
      by (subst string_loop.simps)
         (simp add: current_def decoder_is_eof_def decoder_advance_def handle_normal_char_def)
  next
    case False
    then show ?thesis
      by (subst string_loop.simps)
         (auto simp: json_char_text_def current_def decoder_is_eof_def decoder_advance_def
           handle_escape_sequence_def Let_def split: if_splits)
  qed
qed

lemma string_loop_text:
  "list_all (plain_json_char opts) s \<Longrightarrow> length (acc @ s) \<le> jd_max_string_length dc \<Longrightarrow>
     string_loop dc acc (d\<lparr>jd_rest := concat (map json_char_text s) @ CHR 0x22 # rest\<rparr>) =
       Inr (acc @ s, d\<lparr>jd_rest := rest\<rparr>)"
proof (induction s arbitrary: acc)
  case Nil
  then show ?case
    by (subst string_loop.simps) (simp add: current_def decoder_is_eof_def decoder_advance_def)
next
  case (Cons c s)
  then show ?case by (simp add: string_loop_char [of opts])
qed

lemma parse_string_text:
  "json_string eo dc s \<Longrightarrow> jd_rest d = json_text s @ rest \<Longrightarrow>
     parse_string dc d = Inr (s, d\<lparr>jd_rest := rest\<rparr>)"
  using string_loop_text [of eo s "[]" dc rest d]
  by (simp add: parse_string_def json_string_def json_text_def decoder_advance_def decoder_is_eof_def)

subsection \<open>Numbers\<close>

text \<open>What may follow a number: anything that does not continue it.\<close>

definition number_stop :: "string \<Rightarrow> bool" where
  "number_stop r \<longleftrightarrow>
     r = [] \<or> (\<not> isdigit (hd r) \<and> hd r \<noteq> CHR ''.'' \<and> hd r \<noteq> CHR ''e'' \<and> hd r \<noteq> CHR ''E'')"

lemma number_stop_simps:
  "number_stop []" "number_stop (CHR '','' # r)" "number_stop (CHR '']'' # r)"
  "number_stop (CHR ''}'' # r)" "number_stop (CHR 0x0A # r)"
  by (simp_all add: number_stop_def isdigit_def)

lemma current_cons: "jd_rest d = c # cs \<Longrightarrow> current d = c"
  by (simp add: current_def decoder_is_eof_def)

lemma current_stop:
  "number_stop (jd_rest d) \<Longrightarrow> \<not> isdigit (current d)"
  "number_stop (jd_rest d) \<Longrightarrow> current d \<noteq> CHR ''.''"
  "number_stop (jd_rest d) \<Longrightarrow> current d \<noteq> CHR ''e''"
  "number_stop (jd_rest d) \<Longrightarrow> current d \<noteq> CHR ''E''"
  by (auto simp: number_stop_def current_def decoder_is_eof_def isdigit_def)

lemma decimal_nat_hd: "isdigit (hd (decimal_nat n))"
  using decimal_nat_digits [of "hd (decimal_nat n)" n] by (simp add: hd_in_set)

lemma parse_integer_part_decimal:
  assumes d: "jd_rest d = decimal_nat n @ rest" and stop: "number_stop rest"
  shows "parse_integer_part d = Inr (d\<lparr>jd_rest := rest\<rparr>)"
proof -
  obtain c cs where w: "decimal_nat n = c # cs" by (cases "decimal_nat n") auto
  have cur: "current d = c" using d w by (simp add: current_cons)
  have c: "isdigit c" using decimal_nat_hd [of n] w by simp
  show ?thesis
  proof (cases "c = CHR ''0''")
    case True
    then have "cs = []" using decimal_nat_leading [of n] w by simp
    with True cur d w show ?thesis
      by (simp add: parse_integer_part_def decoder_advance_def decoder_is_eof_def)
  next
    case False
    have "dropWhile isdigit (decimal_nat n @ rest) = rest"
      using stop decimal_nat_digits [of _ n]
      by (cases rest) (auto simp: dropWhile_append3 dropWhile_append1 dropWhile_append2 number_stop_def)
    with False cur c d show ?thesis by (simp add: parse_integer_part_def skip_digits_def)
  qed
qed

lemma parse_number_decimal:
  assumes d: "jd_rest d = sg @ decimal_nat n @ rest" and stop: "number_stop rest"
    and sg: "sg = [] \<or> sg = ''-''"
    and v: "parse_json_number_token (sg @ decimal_nat n) False (sg \<noteq> []) = Some v"
  shows "parse_number d = Inr (v, d\<lparr>jd_rest := rest\<rparr>)"
proof -
  obtain c cs where w: "decimal_nat n = c # cs" by (cases "decimal_nat n") auto
  have "c \<noteq> CHR ''-''" using decimal_nat_hd [of n] w by (auto simp: isdigit_def)
  then have neg: "(current d = CHR ''-'') = (sg \<noteq> [])"
    using sg d w current_cons [of d] by auto
  define d1 where "d1 = (if sg \<noteq> [] then decoder_advance d else d)"
  have d1: "d1 = d\<lparr>jd_rest := decimal_nat n @ rest\<rparr>"
    using sg d by (auto simp: d1_def decoder_advance_def decoder_is_eof_def)
  let ?e = "d\<lparr>jd_rest := rest\<rparr>"
  have i: "parse_integer_part d1 = Inr ?e"
    using parse_integer_part_decimal [of d1 n rest] stop by (simp add: d1)
  have f: "parse_fraction_part ?e = Inr (False, ?e)"
    using current_stop [of ?e] stop by (simp add: parse_fraction_part_def)
  have e: "parse_exponent_part False ?e = Inr (False, ?e)"
    using current_stop [of ?e] stop by (simp add: parse_exponent_part_def)
  have tok: "take (length (jd_rest d) - length rest) (jd_rest d) = sg @ decimal_nat n"
    by (simp add: d)
  show ?thesis
    unfolding parse_number_def Let_def neg d1_def [symmetric]
    by (simp add: i f e tok v)
qed

lemma scan_integer_minus:
  assumes "ds \<noteq> []" and "\<forall>c \<in> set ds. isdigit c"
  shows "scan_integer (CHR ''-'' # ds) 10 = (True, digits_value 10 ds, Suc (length ds))"
proof -
  have tw: "takeWhile (is_radix_digit 10) ds = ds"
    using assms isdigit_radix by (simp add: takeWhile_eq_all_conv)
  show ?thesis
    using assms(1) by (simp add: scan_integer_def tw isspace_def)
qed

lemma number_token_unsigned:
  assumes "n < 2 ^ 64"
  shows "parse_json_number_token (decimal_nat n) False False = Some (VUInt uint64_type (of_nat n))"
proof -
  have len: "length (decimal_nat n) \<le> 20"
    by (rule length_decimal_nat) (use assms in simp_all)
  have sc: "scan_integer (decimal_nat n) 10 = (False, n, length (decimal_nat n))"
    by (subst scan_integer_digits) (auto intro: decimal_nat_digits)
  show ?thesis
    using assms len by (simp add: parse_json_number_token_def strtoull_def sc)
qed

lemma number_token_negative:
  assumes "n \<le> 2 ^ 63"
  shows "parse_json_number_token (''-'' @ decimal_nat n) False True =
    Some (VInt int64_type (word_of_int (- int n)))"
proof -
  have len: "length (decimal_nat n) \<le> 20"
    by (rule length_decimal_nat) (use assms in simp_all)
  have sc: "scan_integer (CHR ''-'' # decimal_nat n) 10 = (True, n, Suc (length (decimal_nat n)))"
    by (subst scan_integer_minus) (auto intro: decimal_nat_digits)
  show ?thesis
    using assms len by (simp add: parse_json_number_token_def strtoll_def sc)
qed

subsection \<open>What a piece of text is read as\<close>

text \<open>
  \<open>reads_as dc k w x\<close>: wherever \<open>w\<close> stands, before anything that does not continue a number, and with
  \<open>k\<close> levels of brackets left, \<^verbatim>\<open>parse_value\<close> reads it as \<open>x\<close>. \<open>coded\<close>: the encoder appends such a text.
\<close>

definition reads_as :: "json_decode_options \<Rightarrow> nat \<Rightarrow> string \<Rightarrow> variant \<Rightarrow> bool" where
  "reads_as dc k w x \<longleftrightarrow>
     w \<noteq> [] \<and> \<not> isspace (hd w) \<and> hd w \<noteq> CHR '']'' \<and>
     (\<forall>d fuel rest. jd_rest d = w @ rest \<longrightarrow> number_stop rest \<longrightarrow>
        jd_depth d + int k < jd_max_depth dc \<longrightarrow> k \<le> fuel \<longrightarrow>
        parse_value dc (Suc fuel) d = Inr (x, d\<lparr>jd_rest := rest\<rparr>))"

definition coded ::
    "(string \<Rightarrow> string) \<Rightarrow> json_encode_options \<Rightarrow> json_decode_options \<Rightarrow> nat \<Rightarrow> variant \<Rightarrow> bool" where
  "coded ext eo dc k v \<longleftrightarrow>
     (\<forall>e. \<not> je_hex e \<longrightarrow> je_depth e + int k < jo_max_depth eo \<longrightarrow>
        (\<exists>w. encode_value ext eo v e = Inr (put w e) \<and> reads_as dc k w (json_norm ext eo v)))"

lemma codedI:
  "(\<And>e. \<not> je_hex e \<Longrightarrow> je_depth e + int k < jo_max_depth eo \<Longrightarrow> encode_value ext eo v e = Inr (put (w e) e)) \<Longrightarrow>
   (\<And>e. reads_as dc k (w e) (json_norm ext eo v)) \<Longrightarrow> coded ext eo dc k v"
  by (fastforce simp: coded_def)

lemma codedD:
  "coded ext eo dc k v \<Longrightarrow> \<not> je_hex e \<Longrightarrow> je_depth e + int k < jo_max_depth eo \<Longrightarrow>
     \<exists>w. encode_value ext eo v e = Inr (put w e) \<and> reads_as dc k w (json_norm ext eo v)"
  by (simp add: coded_def)

lemma skip_nonspace: "jd_rest d = c # cs \<Longrightarrow> \<not> isspace c \<Longrightarrow> skip_whitespace d = d"
  by (cases d) (simp add: skip_whitespace_def)

text \<open>The cursor stands on the first character of the text.\<close>

lemma reads_asI:
  assumes w: "w = c # cs" "\<not> isspace c" "c \<noteq> CHR '']''"
    and p: "\<And>d fuel rest. jd_rest d = w @ rest \<Longrightarrow> current d = c \<Longrightarrow> skip_whitespace d = d \<Longrightarrow>
      number_stop rest \<Longrightarrow> jd_depth d + int k < jd_max_depth dc \<Longrightarrow> k \<le> fuel \<Longrightarrow>
      parse_value dc (Suc fuel) d = Inr (x, d\<lparr>jd_rest := rest\<rparr>)"
  shows "reads_as dc k w x"
  unfolding reads_as_def
  using w p current_cons skip_nonspace by (auto simp: w)

lemma reads_as_word:
  "reads_as dc k ''null'' VNull" "reads_as dc k ''true'' (VBool True)"
  "reads_as dc k ''false'' (VBool False)"
  by (rule reads_asI, rule refl, simp add: isspace_def, simp,
      simp add: parse_value.simps(2) Let_def parse_word_def)+

lemma reads_as_string:
  assumes "json_string eo dc s"
  shows "reads_as dc k (json_text s) (VString s)"
proof (rule reads_asI)
  show "json_text s = CHR 0x22 # concat (map json_char_text s) @ [CHR 0x22]"
    by (simp add: json_text_def)
qed (use assms in \<open>simp_all add: parse_value.simps(2) Let_def isspace_def parse_string_text\<close>)

lemma reads_as_number:
  assumes sg: "sg = [] \<or> sg = ''-''"
    and v: "parse_json_number_token (sg @ decimal_nat n) False (sg \<noteq> []) = Some v"
  shows "reads_as dc k (sg @ decimal_nat n) v"
proof -
  obtain c cs where w: "sg @ decimal_nat n = c # cs" by (cases "sg @ decimal_nat n") auto
  have c: "c = CHR ''-'' \<or> isdigit c"
    using sg w decimal_nat_hd [of n] by (cases "decimal_nat n") auto
  show ?thesis
  proof (rule reads_asI [OF w])
    show "\<not> isspace c" using c isdigit_not_special(1) by (auto simp: isspace_def)
    show "c \<noteq> CHR '']''" using c by (auto simp: isdigit_def)
    fix d :: json_decoder and fuel rest
    assume d: "jd_rest d = (sg @ decimal_nat n) @ rest" "current d = c" "skip_whitespace d = d"
      and stop: "number_stop rest"
    have "parse_number d = Inr (v, d\<lparr>jd_rest := rest\<rparr>)"
      by (rule parse_number_decimal [OF _ stop sg v]) (simp add: d)
    then show "parse_value dc (Suc fuel) d = Inr (v, d\<lparr>jd_rest := rest\<rparr>)"
      using c d by (auto simp: parse_value.simps(2) Let_def isdigit_def)
  qed
qed

lemma reads_as_uint:
  "reads_as dc k (decimal (uint u)) (VUInt uint64_type u)"
proof -
  have "parse_json_number_token ([] @ decimal_nat (unat u)) False ([] \<noteq> ([] :: string)) =
      Some (VUInt uint64_type u)"
    using number_token_unsigned [of "unat u"] unsigned_less [of u] by simp
  from reads_as_number [OF _ this] show ?thesis by (simp add: decimal_def)
qed

lemma reads_as_int:
  "reads_as dc k (decimal (sint i)) (json_norm ext eo (VInt ty i))"
proof (cases "sint i < 0")
  case True
  let ?n = "nat (- sint i)"
  have "?n \<le> 2 ^ 63" using sint_ge [of i] by simp
  then have "parse_json_number_token (''-'' @ decimal_nat ?n) False True = Some (VInt int64_type i)"
    using number_token_negative [of ?n] True by simp
  then have "reads_as dc k (''-'' @ decimal_nat ?n) (VInt int64_type i)"
    by (intro reads_as_number) simp_all
  then show ?thesis using True by (simp add: decimal_def word_sless_alt)
next
  case False
  have "uint i = take_bit 64 (sint i)" by (simp add: uint_sint)
  also have "\<dots> = sint i" using False sint_lt [of i] by (intro take_bit_int_eq_self) simp_all
  finally have "uint i = sint i" .
  with reads_as_uint [of dc k i] False show ?thesis by (simp add: word_sless_alt)
qed

subsection \<open>Arrays\<close>

text \<open>The rounds of the loops from behind a value on.\<close>

definition array_next ::
    "json_decode_options \<Rightarrow> variant decode \<Rightarrow> json_decoder \<Rightarrow> variant list \<Rightarrow> variant decode" where
  "array_next opts pv d acc d1 =
     (let d2 = skip_whitespace d1 in
      if current d2 = CHR '']'' then Inr (VArray acc, decoder_leave_scope (decoder_advance d2))
      else if current d2 \<noteq> CHR '','' then Inl parse_error_exception
      else let d3 = skip_whitespace (decoder_advance d2) in
        if length (jd_rest d3) < length (jd_rest d) then array_loop opts pv acc d3
        else Inl out_of_fuel)"

lemma array_loop_next:
  "length acc < jd_max_array_size opts \<Longrightarrow>
     array_loop opts pv acc d = bind_result (pv d) (\<lambda>(v, d1). array_next opts pv d (acc @ [v]) d1)"
  by (subst array_loop.simps) (simp add: array_next_def [abs_def] Let_def)

text \<open>The white space between elements, and the separator the encoder writes.\<close>

definition blank :: "string \<Rightarrow> bool" where
  "blank s \<longleftrightarrow> list_all isspace s \<and> (s \<noteq> [] \<longrightarrow> \<not> isdigit (hd s) \<and> hd s = CHR 0x0A)"

definition gap :: "json_encode_options \<Rightarrow> json_encoder \<Rightarrow> string" where
  "gap eo e =
     (if jo_pretty_print eo
      then CHR 0x0A # replicate (nat (je_depth e * jo_indent_size eo)) CHR '' '' else [])"

lemma add_indent_gap: "add_indent eo e = put (gap eo e) e"
  by (simp add: add_indent_def gap_def)

lemma gap_put [simp]: "gap eo (put w e) = gap eo e"
  by (simp add: gap_def)

lemma blank_gap: "blank (gap eo e)"
  by (auto simp: blank_def gap_def isspace_def isdigit_def list_all_iff)

definition separator :: "json_encode_options \<Rightarrow> json_encoder \<Rightarrow> string" where
  "separator eo e = (if jo_pretty_print eo then '' '' else []) @ gap eo e"

lemma add_separator_gap:
  "add_indent eo (add_separator eo (put '','' e)) = put ('','' @ separator eo e) e"
  by (simp add: add_indent_gap add_separator_def separator_def)

lemma spaces_separator: "list_all isspace (separator eo e)"
  using blank_gap [of eo e] by (simp add: separator_def blank_def isspace_def)

lemma dropWhile_spaces:
  "list_all isspace s \<Longrightarrow> c # cs = t \<Longrightarrow> \<not> isspace c \<Longrightarrow> dropWhile isspace (s @ t) = t"
  by (induction s) auto

lemma skip_spaces:
  "jd_rest d = s @ c # cs \<Longrightarrow> list_all isspace s \<Longrightarrow> \<not> isspace c \<Longrightarrow>
     skip_whitespace d = d\<lparr>jd_rest := c # cs\<rparr>"
  by (simp add: skip_whitespace_def dropWhile_spaces)

lemma number_stop_close:
  "blank g \<Longrightarrow> c = CHR '']'' \<or> c = CHR ''}'' \<Longrightarrow> number_stop (g @ c # rest)"
  by (cases g) (auto simp: blank_def number_stop_def isdigit_def)

text \<open>The elements behind the first: what is written is read by the loop up to the bracket.\<close>

definition reads_items ::
    "json_decode_options \<Rightarrow> nat \<Rightarrow> string \<Rightarrow> variant list \<Rightarrow> bool" where
  "reads_items dc k w xs \<longleftrightarrow>
     (w = [] \<or> hd w = CHR '','') \<and>
     (\<forall>d0 d1 acc g rest fuel. jd_rest d1 = w @ g @ CHR '']'' # rest \<longrightarrow> blank g \<longrightarrow>
        length (jd_rest d1) < length (jd_rest d0) \<longrightarrow>
        jd_depth d1 + int k < jd_max_depth dc \<longrightarrow> k \<le> fuel \<longrightarrow>
        length acc + length xs \<le> jd_max_array_size dc \<longrightarrow>
        array_next dc (parse_value dc (Suc fuel)) d0 acc d1 =
          Inr (VArray (acc @ xs), decoder_leave_scope (d1\<lparr>jd_rest := rest\<rparr>)))"

lemma reads_items_Nil: "reads_items dc k [] []"
proof -
  have "array_next dc pv d0 acc d1 = Inr (VArray acc, decoder_leave_scope (d1\<lparr>jd_rest := rest\<rparr>))"
    if "jd_rest d1 = g @ CHR '']'' # rest" "blank g" for pv d0 acc d1 g rest
  proof -
    have "skip_whitespace d1 = d1\<lparr>jd_rest := CHR '']'' # rest\<rparr>"
      using that by (intro skip_spaces) (auto simp: blank_def isspace_def)
    then show ?thesis
      by (simp add: array_next_def Let_def current_def decoder_is_eof_def decoder_advance_def)
  qed
  then show ?thesis by (auto simp: reads_items_def)
qed

lemma reads_items_Cons:
  assumes s: "list_all isspace s" and v: "reads_as dc k w x" and vs: "reads_items dc k w' xs"
  shows "reads_items dc k ('','' @ s @ w @ w') (x # xs)"
  unfolding reads_items_def
proof (intro conjI allI impI)
  fix d0 d1 :: json_decoder and acc :: "variant list" and g rest fuel
  assume d1: "jd_rest d1 = ('','' @ s @ w @ w') @ g @ CHR '']'' # rest" and g: "blank g"
    and shorter: "length (jd_rest d1) < length (jd_rest d0)"
    and depth: "jd_depth d1 + int k < jd_max_depth dc" and fuel: "k \<le> fuel"
    and len: "length acc + length (x # xs) \<le> jd_max_array_size dc"
  let ?pv = "parse_value dc (Suc fuel)"
  obtain c cs where w: "w = c # cs" "\<not> isspace c" using v by (cases w) (auto simp: reads_as_def)
  let ?t = "w' @ g @ CHR '']'' # rest"
  define d3 where "d3 = d1\<lparr>jd_rest := w @ ?t\<rparr>"
  have cur: "skip_whitespace d1 = d1" "current d1 = CHR '',''"
    using d1 by (auto intro: skip_nonspace current_cons simp: isspace_def)
  have d3: "skip_whitespace (decoder_advance d1) = d3"
    using skip_spaces [of "decoder_advance d1" s c "cs @ ?t"] s w d1
    by (simp add: d3_def decoder_advance_def decoder_is_eof_def)
  have stop: "number_stop ?t"
    using vs number_stop_close [OF g] by (cases w') (auto simp: reads_items_def number_stop_def isdigit_def)
  have "array_next dc ?pv d0 acc d1 = array_loop dc ?pv acc d3"
    using shorter d1 by (simp add: array_next_def Let_def cur d3) (simp add: d3_def)
  also have "\<dots> = bind_result (?pv d3) (\<lambda>(v, d). array_next dc ?pv d3 (acc @ [v]) d)"
    using len by (intro array_loop_next) simp
  also have "?pv d3 = Inr (x, d3\<lparr>jd_rest := ?t\<rparr>)"
    using v stop depth fuel by (simp add: reads_as_def d3_def)
  also have "bind_result (Inr (x, d3\<lparr>jd_rest := ?t\<rparr>)) (\<lambda>(v, d). array_next dc ?pv d3 (acc @ [v]) d) =
      array_next dc ?pv d3 (acc @ [x]) (d3\<lparr>jd_rest := ?t\<rparr>)" by simp
  also have "\<dots> = Inr (VArray ((acc @ [x]) @ xs), decoder_leave_scope (d3\<lparr>jd_rest := rest\<rparr>))"
    using vs g depth fuel len w unfolding reads_items_def by (auto simp: d3_def)
  finally show "array_next dc ?pv d0 acc d1 =
      Inr (VArray (acc @ x # xs), decoder_leave_scope (d1\<lparr>jd_rest := rest\<rparr>))"
    by (simp add: d3_def)
qed simp

lemma encode_items_coded:
  assumes "\<forall>v \<in> set vs. coded ext eo dc k v"
  shows "\<not> je_hex e \<Longrightarrow> je_depth e + int k < jo_max_depth eo \<Longrightarrow>
    \<exists>w. encode_items ext eo vs False e = Inr (put w e) \<and>
        reads_items dc k w (map (json_norm ext eo) vs)"
  using assms
proof (induction vs arbitrary: e)
  case Nil
  then show ?case using reads_items_Nil by (intro exI [of _ "[]"]) simp
next
  case (Cons v vs)
  let ?s = "'','' @ separator eo e"
  obtain w where w: "encode_value ext eo v (put ?s e) = Inr (put w (put ?s e))"
      "reads_as dc k w (json_norm ext eo v)"
    using codedD [of ext eo dc k v "put ?s e"] Cons.prems by auto
  obtain w' where w': "encode_items ext eo vs False (put (?s @ w) e) = Inr (put w' (put (?s @ w) e))"
      "reads_items dc k w' (map (json_norm ext eo) vs)"
    using Cons.IH [of "put (?s @ w) e"] Cons.prems by auto
  have "encode_items ext eo (v # vs) False e = Inr (put ('','' @ separator eo e @ w @ w') e)"
    using w(1) w'(1) by (simp add: add_separator_gap)
  with reads_items_Cons [OF spaces_separator w(2) w'(2)] show ?case by fastforce
qed

lemma coded_array:
  assumes vs: "\<forall>v \<in> set vs. coded ext eo dc k v" and len: "length vs \<le> jd_max_array_size dc"
  shows "coded ext eo dc (Suc k) (VArray vs)"
  unfolding coded_def
proof (intro allI impI)
  fix e :: json_encoder
  assume hex: "\<not> je_hex e" and depth: "je_depth e + int (Suc k) < jo_max_depth eo"
  let ?e = "e\<lparr>je_depth := je_depth e + 1\<rparr>"
  have enter: "encoder_enter_scope eo e = Inr ?e" using depth by (simp add: encoder_enter_scope_def)
  have leave: "encoder_leave_scope (put w ?e) = put w e" for w
    by (simp add: encoder_leave_scope_def put_def)
  have enter': "decoder_enter_scope dc d = Inr (d\<lparr>jd_depth := jd_depth d + 1\<rparr>)"
    if "jd_depth d + int (Suc k) < jd_max_depth dc" for d :: json_decoder
    using that by (simp add: decoder_enter_scope_def)
  show "\<exists>w. encode_value ext eo (VArray vs) e = Inr (put w e) \<and>
      reads_as dc (Suc k) w (json_norm ext eo (VArray vs))"
  proof (cases vs)
    case Nil
    have "reads_as dc (Suc k) ''[]'' (VArray [])"
      by (rule reads_asI, rule refl, simp add: isspace_def, simp)
         (simp add: parse_value.simps(2) Let_def parse_array_def enter' decoder_advance_def decoder_is_eof_def
           skip_whitespace_def current_def decoder_leave_scope_def isspace_def)
    moreover have "encode_value ext eo (VArray vs) e = Inr (put ''[]'' e)"
      by (simp add: encode_value.simps Nil enter leave)
    ultimately show ?thesis using Nil by auto
  next
    case (Cons v us)
    have d1: "je_depth ?e + int k < jo_max_depth eo" using depth by simp
    obtain w where w: "encode_value ext eo v (put ''['' ?e) = Inr (put w (put ''['' ?e))"
        "reads_as dc k w (json_norm ext eo v)"
      using codedD [of ext eo dc k v "put ''['' ?e"] vs Cons hex d1 by auto
    obtain w' where w': "encode_items ext eo us False (put (''['' @ w) ?e) =
          Inr (put w' (put (''['' @ w) ?e))"
        "reads_items dc k w' (map (json_norm ext eo) us)"
      using encode_items_coded [of us ext eo dc k "put (''['' @ w) ?e"] vs Cons hex d1 by auto
    define g where "g = gap eo ?e"
    let ?t = "''['' @ w @ w' @ g @ '']''"
    have enc: "encode_value ext eo (VArray vs) e = Inr (put ?t e)"
      using w(1) w'(1) by (simp add: encode_value.simps Cons enter leave add_indent_gap g_def)
    have g: "blank g" by (simp add: g_def blank_gap)
    obtain c cs where wc: "w = c # cs" "\<not> isspace c" "c \<noteq> CHR '']''"
      using w(2) by (cases w) (auto simp: reads_as_def)
    have "reads_as dc (Suc k) ?t (VArray (map (json_norm ext eo) vs))"
    proof (rule reads_asI)
      show "?t = CHR ''['' # (w @ w' @ g @ '']'')" by simp
      fix d :: json_decoder and fuel rest
      assume d: "jd_rest d = ?t @ rest" "current d = CHR ''[''" "skip_whitespace d = d"
        and dep: "jd_depth d + int (Suc k) < jd_max_depth dc" and "Suc k \<le> fuel"
      then obtain fuel' where fuel: "fuel = Suc fuel'" "k \<le> fuel'" by (cases fuel) auto
      let ?pv = "parse_value dc (Suc fuel')" and ?r = "w' @ g @ CHR '']'' # rest"
      define d1 where "d1 = d\<lparr>jd_depth := jd_depth d + 1, jd_rest := w @ ?r\<rparr>"
      have d1: "skip_whitespace (decoder_advance (d\<lparr>jd_depth := jd_depth d + 1\<rparr>)) = d1"
        using skip_nonspace [of d1 c "cs @ ?r"] wc d(1)
        by (simp add: d1_def decoder_advance_def decoder_is_eof_def)
      have stop: "number_stop ?r"
        using w'(2) number_stop_close [OF g]
        by (cases w') (auto simp: reads_items_def number_stop_def isdigit_def)
      have cur: "current d1 \<noteq> CHR '']''" using wc by (simp add: d1_def current_def decoder_is_eof_def)
      have "parse_value dc (Suc fuel) d = array_loop dc ?pv [] d1"
        using d cur by (simp add: parse_value.simps(2) [of dc "Suc fuel'"] Let_def fuel parse_array_def enter' [OF dep] d1)
      also have "\<dots> = bind_result (?pv d1) (\<lambda>(v, d). array_next dc ?pv d1 ([] @ [v]) d)"
        using len Cons by (intro array_loop_next) simp
      also have "?pv d1 = Inr (json_norm ext eo v, d1\<lparr>jd_rest := ?r\<rparr>)"
        using w(2) stop dep fuel by (simp add: reads_as_def d1_def)
      also have "bind_result (Inr (json_norm ext eo v, d1\<lparr>jd_rest := ?r\<rparr>))
            (\<lambda>(v, d). array_next dc ?pv d1 ([] @ [v]) d) =
          array_next dc ?pv d1 [json_norm ext eo v] (d1\<lparr>jd_rest := ?r\<rparr>)" by simp
      also have "\<dots> = Inr (VArray ([json_norm ext eo v] @ map (json_norm ext eo) us),
          decoder_leave_scope (d1\<lparr>jd_rest := rest\<rparr>))"
        using w'(2) g dep fuel len Cons wc unfolding reads_items_def by (auto simp: d1_def)
      finally show "parse_value dc (Suc fuel) d =
          Inr (VArray (map (json_norm ext eo) vs), d\<lparr>jd_rest := rest\<rparr>)"
        by (simp add: d1_def Cons decoder_leave_scope_def)
    qed (simp_all add: isspace_def)
    with enc show ?thesis by auto
  qed
qed

subsection \<open>Objects\<close>

definition object_next ::
    "json_decode_options \<Rightarrow> variant decode \<Rightarrow> json_decoder \<Rightarrow> (variant \<times> variant) list \<Rightarrow> nat \<Rightarrow>
     variant decode" where
  "object_next opts pv d acc count d3 =
     (let d4 = skip_whitespace d3 in
      if current d4 = CHR ''}'' then Inr (VObject acc, decoder_leave_scope (decoder_advance d4))
      else if current d4 \<noteq> CHR '','' then Inl parse_error_exception
      else let d5 = skip_whitespace (decoder_advance d4) in
        if length (jd_rest d5) < length (jd_rest d)
        then object_loop opts pv acc (count + 1) d5
        else Inl out_of_fuel)"

lemma parse_value_skip: "parse_value dc (Suc fuel) (skip_whitespace d) = parse_value dc (Suc fuel) d"
proof -
  have "dropWhile isspace (dropWhile isspace xs) = dropWhile isspace xs" for xs
    by (induction xs) auto
  then have "skip_whitespace (skip_whitespace d) = skip_whitespace d" by (simp add: skip_whitespace_def)
  then show ?thesis by (simp add: parse_value.simps(2))
qed

text \<open>One member: the key, the colon and the value.\<close>

definition member_text :: "string \<Rightarrow> string \<Rightarrow> string \<Rightarrow> string" where
  "member_text key s w = json_text key @ '':'' @ s @ w"

lemma object_loop_member:
  assumes count: "count < jd_max_object_size dc" and key: "json_string eo dc key"
    and new: "VString key \<notin> set (map fst acc)" and s: "list_all isspace s"
    and v: "reads_as dc k w x" and t: "number_stop t"
    and d: "jd_rest d = member_text key s w @ t"
    and depth: "jd_depth d + int k < jd_max_depth dc" and fuel: "k \<le> fuel"
  shows "object_loop dc (parse_value dc (Suc fuel)) acc count d =
    object_next dc (parse_value dc (Suc fuel)) d (acc @ [(VString key, x)]) count (d\<lparr>jd_rest := t\<rparr>)"
proof -
  let ?pv = "parse_value dc (Suc fuel)" and ?d1 = "d\<lparr>jd_rest := CHR '':'' # s @ w @ t\<rparr>"
  obtain c cs where w: "w = c # cs" "\<not> isspace c" using v by (cases w) (auto simp: reads_as_def)
  have cur: "current d = CHR 0x22"
    using d by (simp add: member_text_def json_text_def current_def decoder_is_eof_def)
  have str: "parse_string dc d = Inr (key, ?d1)"
    using parse_string_text [OF key] d by (simp add: member_text_def)
  have d1: "skip_whitespace ?d1 = ?d1" "current ?d1 = CHR '':''"
    by (auto intro: skip_nonspace current_cons simp: isspace_def)
  have "?pv (decoder_advance ?d1) = ?pv (skip_whitespace (decoder_advance ?d1))"
    by (simp only: parse_value_skip)
  also have "skip_whitespace (decoder_advance ?d1) = d\<lparr>jd_rest := w @ t\<rparr>"
    using skip_spaces [of "decoder_advance ?d1" s c "cs @ t"] s w
    by (simp add: decoder_advance_def decoder_is_eof_def)
  also have "?pv (d\<lparr>jd_rest := w @ t\<rparr>) = Inr (x, d\<lparr>jd_rest := t\<rparr>)"
    using v t depth fuel by (simp add: reads_as_def)
  finally have pv: "?pv (decoder_advance ?d1) = Inr (x, d\<lparr>jd_rest := t\<rparr>)" .
  have set: "dict_set (=) (VString key) x acc = acc @ [(VString key, x)]"
    using new by (intro dict_set_new) force
  show ?thesis
    using count cur
    by (subst object_loop.simps)
       (simp add: str d1 pv set object_next_def [abs_def] Let_def del: parse_value.simps)
qed

definition members :: "(string \<times> variant) list \<Rightarrow> (variant \<times> variant) list" where
  "members xs = map (\<lambda>(k, x). (VString k, x)) xs"

definition reads_entries ::
    "json_decode_options \<Rightarrow> nat \<Rightarrow> string \<Rightarrow> (string \<times> variant) list \<Rightarrow> bool" where
  "reads_entries dc k w xs \<longleftrightarrow>
     (w = [] \<or> hd w = CHR '','') \<and>
     (\<forall>d0 d1 acc count g rest fuel. jd_rest d1 = w @ g @ CHR ''}'' # rest \<longrightarrow> blank g \<longrightarrow>
        length (jd_rest d1) < length (jd_rest d0) \<longrightarrow>
        jd_depth d1 + int k < jd_max_depth dc \<longrightarrow> k \<le> fuel \<longrightarrow>
        count + length xs < jd_max_object_size dc \<longrightarrow> distinct (map fst (acc @ members xs)) \<longrightarrow>
        object_next dc (parse_value dc (Suc fuel)) d0 acc count d1 =
          Inr (VObject (acc @ members xs), decoder_leave_scope (d1\<lparr>jd_rest := rest\<rparr>)))"

lemma reads_entries_Nil: "reads_entries dc k [] []"
proof -
  have "object_next dc pv d0 acc count d1 = Inr (VObject acc, decoder_leave_scope (d1\<lparr>jd_rest := rest\<rparr>))"
    if "jd_rest d1 = g @ CHR ''}'' # rest" "blank g" for pv d0 acc count d1 g rest
  proof -
    have "skip_whitespace d1 = d1\<lparr>jd_rest := CHR ''}'' # rest\<rparr>"
      using that by (intro skip_spaces) (auto simp: blank_def isspace_def)
    then show ?thesis
      by (simp add: object_next_def Let_def current_def decoder_is_eof_def decoder_advance_def)
  qed
  then show ?thesis by (auto simp: reads_entries_def members_def)
qed

lemma reads_entries_Cons:
  assumes s: "list_all isspace s" and s': "list_all isspace s'"
    and key: "json_string eo dc key" and v: "reads_as dc k w x" and vs: "reads_entries dc k w' xs"
  shows "reads_entries dc k ('','' @ s @ member_text key s' w @ w') ((key, x) # xs)"
  unfolding reads_entries_def
proof (intro conjI allI impI)
  fix d0 d1 :: json_decoder and acc :: "(variant \<times> variant) list" and count g rest fuel
  assume d1: "jd_rest d1 = ('','' @ s @ member_text key s' w @ w') @ g @ CHR ''}'' # rest" and g: "blank g"
    and shorter: "length (jd_rest d1) < length (jd_rest d0)"
    and depth: "jd_depth d1 + int k < jd_max_depth dc" and fuel: "k \<le> fuel"
    and len: "count + length ((key, x) # xs) < jd_max_object_size dc"
    and dist: "distinct (map fst (acc @ members ((key, x) # xs)))"
  let ?pv = "parse_value dc (Suc fuel)" and ?t = "w' @ g @ CHR ''}'' # rest"
  define d3 where "d3 = d1\<lparr>jd_rest := member_text key s' w @ ?t\<rparr>"
  have cur: "skip_whitespace d1 = d1" "current d1 = CHR '',''"
    using d1 by (auto intro: skip_nonspace current_cons simp: isspace_def)
  have d3: "skip_whitespace (decoder_advance d1) = d3"
    using s d1
    by (subst skip_spaces [of _ s "CHR 0x22"])
       (auto simp: d3_def decoder_advance_def decoder_is_eof_def isspace_def member_text_def json_text_def)
  have stop: "number_stop ?t"
    using vs number_stop_close [OF g] by (cases w') (auto simp: reads_entries_def number_stop_def isdigit_def)
  have ne: "member_text key s' w \<noteq> []" by (simp add: member_text_def json_text_def)
  have "object_next dc ?pv d0 acc count d1 = object_loop dc ?pv acc (count + 1) d3"
    using shorter d1 by (simp add: object_next_def Let_def cur d3) (simp add: d3_def)
  also have "\<dots> = object_next dc ?pv d3 (acc @ [(VString key, x)]) (count + 1) (d3\<lparr>jd_rest := ?t\<rparr>)"
    by (rule object_loop_member [OF _ key _ s' v stop])
       (use len dist depth fuel in \<open>auto simp: d3_def members_def\<close>)
  also have "\<dots> = Inr (VObject ((acc @ [(VString key, x)]) @ members xs), decoder_leave_scope (d3\<lparr>jd_rest := rest\<rparr>))"
    using vs g depth fuel len dist ne unfolding reads_entries_def by (auto simp: d3_def members_def)
  finally show "object_next dc ?pv d0 acc count d1 =
      Inr (VObject (acc @ members ((key, x) # xs)), decoder_leave_scope (d1\<lparr>jd_rest := rest\<rparr>))"
    by (simp add: d3_def members_def)
qed simp

lemma find_entry_map_of: "find_entry (=) es k = map_of es k"
  by (induction es) auto

text \<open>The members in the order of the keys \<open>ks\<close>, normalised.\<close>

definition normed ::
    "(string \<Rightarrow> string) \<Rightarrow> json_encode_options \<Rightarrow> (variant \<times> variant) list \<Rightarrow> string list \<Rightarrow>
     (string \<times> variant) list" where
  "normed ext eo es ks = map (\<lambda>k. (k, json_norm ext eo (the (map_of es (VString k))))) ks"

definition keys_coded ::
    "(string \<Rightarrow> string) \<Rightarrow> json_encode_options \<Rightarrow> json_decode_options \<Rightarrow> nat \<Rightarrow>
     (variant \<times> variant) list \<Rightarrow> string list \<Rightarrow> bool" where
  "keys_coded ext eo dc k es ks \<longleftrightarrow>
     (\<forall>x \<in> set ks. json_string eo dc x \<and> (\<exists>v. map_of es (VString x) = Some v \<and> coded ext eo dc k v))"

lemma encode_member:
  fixes first
  assumes "keys_coded ext eo dc k es (x # ks)"
    and hex: "\<not> je_hex e" and depth: "je_depth e + int k < jo_max_depth eo"
  defines "pre \<equiv> if first then [] else '','' @ separator eo e"
  shows "\<exists>s w. list_all isspace s \<and> reads_as dc k w (json_norm ext eo (the (map_of es (VString x)))) \<and>
    encode_entries ext eo es (x # ks) first e =
      encode_entries ext eo es ks False (put (pre @ member_text x s w) e)"
proof -
  define s where "s = (if jo_pretty_print eo then '' '' else [])"
  from assms(1) obtain v where v: "map_of es (VString x) = Some v" "coded ext eo dc k v"
      and x: "json_string eo dc x"
    by (auto simp: keys_coded_def)
  have sep: "add_separator eo e' = put s e'" for e' by (simp add: add_separator_def s_def)
  let ?e = "put (pre @ json_text x @ '':'' @ s) e"
  obtain w where w: "encode_value ext eo v ?e = Inr (put w ?e)" "reads_as dc k w (json_norm ext eo v)"
    using codedD [OF v(2), of ?e] hex depth by auto
  have "(if first then e else add_indent eo (add_separator eo (put '','' e))) = put pre e"
    by (simp add: pre_def add_separator_gap)
  with w(1) have "encode_entries ext eo es (x # ks) first e =
      encode_entries ext eo es ks False (put (pre @ member_text x s w) e)"
    by (simp add: encode_string_text [OF x] sep find_entry_map_of v(1) Let_def member_text_def)
  moreover have "list_all isspace s" by (simp add: s_def isspace_def)
  ultimately show ?thesis using w(2) v(1) by auto
qed

lemma encode_entries_coded:
  "keys_coded ext eo dc k es ks \<Longrightarrow> \<not> je_hex e \<Longrightarrow> je_depth e + int k < jo_max_depth eo \<Longrightarrow>
    \<exists>w. encode_entries ext eo es ks False e = Inr (put w e) \<and> reads_entries dc k w (normed ext eo es ks)"
proof (induction ks arbitrary: e)
  case Nil
  then show ?case using reads_entries_Nil by (intro exI [of _ "[]"]) (simp add: normed_def)
next
  case (Cons x ks)
  obtain s w where s: "list_all isspace s"
      and w: "reads_as dc k w (json_norm ext eo (the (map_of es (VString x))))"
      and enc: "encode_entries ext eo es (x # ks) False e =
        encode_entries ext eo es ks False (put (('','' @ separator eo e) @ member_text x s w) e)"
    using encode_member [OF Cons.prems, of False] by auto
  let ?e = "put (('','' @ separator eo e) @ member_text x s w) e"
  obtain w' where w': "encode_entries ext eo es ks False ?e = Inr (put w' ?e)"
      "reads_entries dc k w' (normed ext eo es ks)"
    using Cons.IH [of ?e] Cons.prems by (auto simp: keys_coded_def)
  have "json_string eo dc x" using Cons.prems(1) by (simp add: keys_coded_def)
  from reads_entries_Cons [OF spaces_separator s this w w'(2)] w'(1) enc
  show ?case by (auto simp: normed_def)
qed

lemma coded_object:
  assumes ks: "object_keys eo es = Inr ks" and coded: "keys_coded ext eo dc k es ks"
    and len: "length ks \<le> jd_max_object_size dc" and dist: "distinct ks"
    and norm: "json_norm ext eo (VObject es) = VObject (members (normed ext eo es ks))"
  shows "coded ext eo dc (Suc k) (VObject es)"
  unfolding coded_def
proof (intro allI impI)
  fix e :: json_encoder
  assume hex: "\<not> je_hex e" and depth: "je_depth e + int (Suc k) < jo_max_depth eo"
  let ?e = "e\<lparr>je_depth := je_depth e + 1\<rparr>"
  have enter: "encoder_enter_scope eo e = Inr ?e" using depth by (simp add: encoder_enter_scope_def)
  have leave: "encoder_leave_scope (put w ?e) = put w e" for w
    by (simp add: encoder_leave_scope_def put_def)
  have enter': "decoder_enter_scope dc d = Inr (d\<lparr>jd_depth := jd_depth d + 1\<rparr>)"
    if "jd_depth d + int (Suc k) < jd_max_depth dc" for d :: json_decoder
    using that by (simp add: decoder_enter_scope_def)
  have dist': "distinct (map fst (members (normed ext eo es ks)))"
    using dist by (simp add: members_def normed_def distinct_map inj_on_def comp_def split_def)
  show "\<exists>w. encode_value ext eo (VObject es) e = Inr (put w e) \<and>
      reads_as dc (Suc k) w (json_norm ext eo (VObject es))"
  proof (cases ks)
    case Nil
    have "reads_as dc (Suc k) ''{}'' (VObject [])"
      by (rule reads_asI, rule refl, simp add: isspace_def, simp)
         (simp add: parse_value.simps(2) Let_def parse_object_def enter' decoder_advance_def decoder_is_eof_def
           skip_whitespace_def current_def decoder_leave_scope_def isspace_def)
    moreover have "encode_value ext eo (VObject es) e = Inr (put ''{}'' e)"
      using ks by (simp add: encode_value.simps Nil enter leave)
    ultimately show ?thesis using Nil norm by (auto simp: normed_def members_def)
  next
    case (Cons x us)
    have d1: "je_depth (put ''{'' ?e) + int k < jo_max_depth eo" using depth by simp
    have hex1: "\<not> je_hex (put ''{'' ?e)" using hex by simp
    let ?x = "json_norm ext eo (the (map_of es (VString x)))"
    obtain s w where s: "list_all isspace s" and w: "reads_as dc k w ?x"
        and enc: "encode_entries ext eo es (x # us) True (put ''{'' ?e) =
          encode_entries ext eo es us False (put (''{'' @ member_text x s w) ?e)"
      using encode_member [OF coded [unfolded Cons] hex1 d1, of True] by auto
    obtain w' where w': "encode_entries ext eo es us False (put (''{'' @ member_text x s w) ?e) =
          Inr (put w' (put (''{'' @ member_text x s w) ?e))"
        "reads_entries dc k w' (normed ext eo es us)"
      using encode_entries_coded [of ext eo dc k es us "put (''{'' @ member_text x s w) ?e"] coded Cons hex d1
      by (auto simp: keys_coded_def)
    have key: "json_string eo dc x" using coded Cons by (simp add: keys_coded_def)
    define g where "g = gap eo ?e"
    have g: "blank g" by (simp add: g_def blank_gap)
    let ?t = "''{'' @ member_text x s w @ w' @ g @ ''}''"
    have en: "encode_value ext eo (VObject es) e = Inr (put ?t e)"
      using enc w'(1) ks by (simp add: encode_value.simps Cons enter leave add_indent_gap g_def)
    have "reads_as dc (Suc k) ?t (VObject (members (normed ext eo es ks)))"
    proof (rule reads_asI)
      show "?t = CHR ''{'' # (member_text x s w @ w' @ g @ ''}'')" by simp
      fix d :: json_decoder and fuel rest
      assume d: "jd_rest d = ?t @ rest" "current d = CHR ''{''" "skip_whitespace d = d"
        and dep: "jd_depth d + int (Suc k) < jd_max_depth dc" and "Suc k \<le> fuel"
      then obtain fuel' where fuel: "fuel = Suc fuel'" "k \<le> fuel'" by (cases fuel) auto
      let ?pv = "parse_value dc (Suc fuel')" and ?r = "w' @ g @ CHR ''}'' # rest"
      define d1 where "d1 = d\<lparr>jd_depth := jd_depth d + 1, jd_rest := member_text x s w @ ?r\<rparr>"
      have cur: "current d1 = CHR 0x22"
        by (simp add: d1_def member_text_def json_text_def current_def decoder_is_eof_def)
      have d1: "skip_whitespace (decoder_advance (d\<lparr>jd_depth := jd_depth d + 1\<rparr>)) = d1"
        using d(1) by (simp add: d1_def decoder_advance_def decoder_is_eof_def skip_whitespace_def
            member_text_def json_text_def isspace_def)
      have stop: "number_stop ?r"
        using w'(2) number_stop_close [OF g]
        by (cases w') (auto simp: reads_entries_def number_stop_def isdigit_def)
      have "parse_value dc (Suc fuel) d = object_loop dc ?pv [] 0 d1"
        using d cur by (simp add: parse_value.simps(2) [of dc "Suc fuel'"] Let_def fuel parse_object_def enter' [OF dep] d1)
      also have "\<dots> = object_next dc ?pv d1 ([] @ [(VString x, ?x)]) 0 (d1\<lparr>jd_rest := ?r\<rparr>)"
        by (rule object_loop_member [OF _ key _ s w stop])
           (use len Cons dep fuel in \<open>auto simp: d1_def\<close>)
      also have "\<dots> = Inr (VObject ([(VString x, ?x)] @ members (normed ext eo es us)),
          decoder_leave_scope (d1\<lparr>jd_rest := rest\<rparr>))"
        using w'(2) g dep fuel len Cons dist' unfolding reads_entries_def
        by (auto simp: d1_def members_def normed_def member_text_def json_text_def)
      finally show "parse_value dc (Suc fuel) d =
          Inr (VObject (members (normed ext eo es ks)), d\<lparr>jd_rest := rest\<rparr>)"
        by (simp add: d1_def Cons decoder_leave_scope_def members_def normed_def)
    qed (simp_all add: isspace_def)
    with en norm show ?thesis by auto
  qed
qed

subsection \<open>Every encodable value\<close>

lemma string_keys_plain:
  "\<forall>e \<in> set es. fst e = VString (key_string (fst e)) \<Longrightarrow>
     string_keys es = Inr (map (key_string \<circ> fst) es)"
proof (induction es)
  case (Cons e es)
  then show ?case by (cases e; cases "fst e") (auto simp: key_string_def)
qed simp

lemma encodable_entry:
  assumes "encodable ext eo dc k (VObject es)" and "e \<in> set es"
  shows "fst e = VString (key_string (fst e))" and "map_of es (VString (key_string (fst e))) = Some (snd e)"
proof -
  show k: "fst e = VString (key_string (fst e))" using assms by auto
  have "map_of es (fst e) = Some (snd e)" using assms by (cases e) auto
  with k show "map_of es (VString (key_string (fst e))) = Some (snd e)" by simp
qed

lemma map_of_map_prod: "map_of (map (map_prod id f) es) k = map_option f (map_of es k)"
  by (induction es) auto

lemma json_norm_object:
  assumes enc: "encodable ext eo dc k (VObject es)"
    and ks: "ks = (if jo_sort_keys eo then sort (map (key_string \<circ> fst) es) else map (key_string \<circ> fst) es)"
  shows "json_norm ext eo (VObject es) = VObject (members (normed ext eo es ks))"
proof -
  let ?n = "json_norm ext eo"
  have mapped: "find_entry (=) (map (map_prod id ?n) es) (VString (key_string (fst e))) =
      Some (?n (the (map_of es (VString (key_string (fst e))))))" if "e \<in> set es" for e
    using encodable_entry [OF enc that] by (simp add: find_entry_map_of map_of_map_prod)
  show ?thesis
  proof (cases "jo_sort_keys eo")
    case True
    then show ?thesis
      using mapped by (auto simp: reorder_entries_def ks members_def normed_def comp_def)
  next
    case False
    have "map_prod id ?n e = (VString (key_string (fst e)), ?n (the (map_of es (VString (key_string (fst e))))))"
      if "e \<in> set es" for e
      using encodable_entry [OF enc that] by (cases e) auto
    with False show ?thesis
      by (auto simp: reorder_entries_def ks members_def normed_def)
  qed
qed

lemma encodable_coded: "encodable ext eo dc k v \<Longrightarrow> coded ext eo dc k v"
proof (induction v arbitrary: k rule: measure_induct_rule [where f = size])
  case (less v)
  show ?case
  proof (cases v)
    case VNull
    then show ?thesis by (auto intro!: codedI [where w = "\<lambda>_. ''null''"] reads_as_word simp: encode_value.simps)
  next
    case (VBool b)
    then show ?thesis
      using reads_as_word(2,3) [of dc k]
      by (intro codedI [where w = "\<lambda>_. if b then ''true'' else ''false''"])
         (simp_all add: encode_value.simps)
  next
    case (VInt ty i)
    have "reads_as dc k (decimal (sint i)) (json_norm ext eo (VInt ty i))" by (rule reads_as_int)
    with VInt show ?thesis
      by (intro codedI [where w = "\<lambda>_. decimal (sint i)"]) (simp_all add: encode_value.simps encode_int_def)
  next
    case (VUInt ty u)
    have "reads_as dc k (decimal (uint u)) (VUInt uint64_type u)" by (rule reads_as_uint)
    with VUInt show ?thesis
      by (intro codedI [where w = "\<lambda>_. decimal (uint u)"]) (simp_all add: encode_value.simps encode_uint_def)
  next
    case (VArray vs)
    then obtain k' where k: "k = Suc k'" using less.prems by (cases k) auto
    have "\<forall>u \<in> set vs. coded ext eo dc k' u"
      using less VArray k by (auto simp: size_list_estimation' less_Suc_eq_le)
    with less.prems VArray k coded_array show ?thesis by auto
  next
    case (VObject es)
    then obtain k' where k: "k = Suc k'" using less.prems by (cases k) auto
    define ks where "ks = (if jo_sort_keys eo then sort (map (key_string \<circ> fst) es) else map (key_string \<circ> fst) es)"
    have enc: "encodable ext eo dc k (VObject es)" using less.prems VObject by simp
    have set: "set ks = key_string ` fst ` set es" by (auto simp: ks_def)
    have sz: "size (snd e) < size v" if "e \<in> set es" for e
      using find_entry_size [of "(=)" es "VString (key_string (fst e))" "snd e"]
        encodable_entry(2) [OF enc that] VObject by (simp add: find_entry_map_of)
    have "keys_coded ext eo dc k' es ks"
      unfolding keys_coded_def
    proof
      fix x
      assume "x \<in> set ks"
      then obtain e where e: "e \<in> set es" "x = key_string (fst e)" using set by auto
      have "coded ext eo dc k' (snd e)" using less.IH [OF sz [OF e(1)]] enc e(1) k by auto
      have "map_of es (VString x) = Some (snd e)" using encodable_entry(2) [OF enc e(1)] e(2) by simp
      moreover have "json_string eo dc x" using enc e by auto
      ultimately show "json_string eo dc x \<and> (\<exists>v. map_of es (VString x) = Some v \<and> coded ext eo dc k' v)"
        using \<open>coded ext eo dc k' (snd e)\<close> by blast
    qed
    moreover have "object_keys eo es = Inr ks"
      using encodable_entry(1) [OF enc] by (simp add: object_keys_def ks_def string_keys_plain)
    moreover have "distinct ks"
    proof -
      have "inj_on (key_string \<circ> fst) (set es)"
      proof (rule inj_onI)
        fix a b
        assume ab: "a \<in> set es" "b \<in> set es" "(key_string \<circ> fst) a = (key_string \<circ> fst) b"
        with encodable_entry [OF enc] have "fst a = fst b" "snd a = snd b" by (metis comp_apply option.inject)+
        then show "a = b" by (simp add: prod_eq_iff)
      qed
      moreover have "distinct es" using enc by (auto simp: distinct_map)
      ultimately show ?thesis by (simp add: ks_def distinct_map)
    qed
    moreover have "length ks \<le> jd_max_object_size dc" using enc by (auto simp: ks_def)
    ultimately show ?thesis
      using coded_object json_norm_object [OF enc ks_def] VObject k by blast
  qed (use less.prems in \<open>auto intro!: codedI [where w = "\<lambda>_. json_text _"] reads_as_string
         simp: encode_value.simps encode_string_text\<close>)
qed

text \<open>
  C25. The text that the encoder writes for an encodable value decodes to the value itself, up to the type of
  its numbers (\<open>json_norm\<close>); only a text beyond the input limit is refused. Encodable values are built without doubles;
  their texts and keys have no control characters but backspace, form feed, line feed, carriage return and tab, and with
  \<open>escape_non_ascii\<close> are ASCII, since the code breaks the others (\<open>json_hex_after_control_char\<close>,
  \<open>json_escaped_bytes_change\<close>); their keys are distinct strings; and they keep the size limits of the decoder
  and nest as deep as the smaller of the two depth limits allows. The layout options are arbitrary.
\<close>

theorem json_roundtrip:
  fixes eo dc ext v
  defines "eo' \<equiv> normalize_encode_options eo" and "dc' \<equiv> normalize_decode_options dc"
  assumes "encodable ext eo' dc' (nat (min (jo_max_depth eo') (jd_max_depth dc') - 1)) v"
  shows "\<exists>s. json_encode ext eo v = Inr s \<and>
     json_decode dc s = (if length s \<le> jd_max_input_length dc' then Inr (json_norm ext eo' v)
       else Inl parse_error_exception)"
proof -
  let ?k = "nat (min (jo_max_depth eo') (jd_max_depth dc') - 1)"
  have pos: "1 \<le> jo_max_depth eo'" "1 \<le> jd_max_depth dc'"
    by (simp_all add: eo'_def dc'_def normalize_encode_options_def normalize_decode_options_def)
  have "je_depth new_encoder + int ?k < jo_max_depth eo'" using pos by (simp add: new_encoder_def)
  then obtain w where w: "encode_value ext eo' v new_encoder = Inr (put w new_encoder)"
      and r: "reads_as dc' ?k w (json_norm ext eo' v)"
    using codedD [OF encodable_coded [OF assms(3)], of new_encoder] by (auto simp: new_encoder_def)
  let ?d = "\<lparr>jd_rest = w, jd_depth = 0\<rparr> :: json_decoder"
  have skip: "skip_whitespace ?d = ?d" using r by (cases w) (auto simp: reads_as_def skip_whitespace_def)
  have skip_end: "jd_rest (skip_whitespace (\<lparr>jd_rest = [], jd_depth = 0\<rparr> :: json_decoder)) = []"
    by (simp add: skip_whitespace_def)
  have "parse_value dc' (Suc (nat (jd_max_depth dc'))) ?d = Inr (json_norm ext eo' v, ?d\<lparr>jd_rest := []\<rparr>)"
    using r pos by (auto simp: reads_as_def number_stop_def)
  then have "json_decode dc w = (if length w \<le> jd_max_input_length dc' then Inr (json_norm ext eo' v)
      else Inl parse_error_exception)"
    using skip_end
    by (simp add: json_decode_def dc'_def [symmetric] decoder_decode_def skip as_parse_error_def)
  moreover have "json_encode ext eo v = Inr w"
    by (simp add: json_encode_def eo'_def [symmetric] w as_parse_error_def) (simp add: new_encoder_def)
  ultimately show ?thesis by auto
qed

theorem json_roundtrip_witness:
  "\<exists>s. json_encode id default_encode_options
       (VObject [(VString ''a'', VArray [VInt int8_type (- 1), VBool True, VString [CHR 0x0A]])]) = Inr s \<and>
     json_decode default_decode_options s = (if length s \<le> 16777216
       then Inr (VObject [(VString ''a'', VArray [VInt int64_type (- 1), VBool True, VString [CHR 0x0A]])])
       else Inl parse_error_exception)"
proof -
  let ?v = "VObject [(VString ''a'', VArray [VInt int8_type (- 1), VBool True, VString [CHR 0x0A]])]"
  have n: "normalize_encode_options default_encode_options = default_encode_options"
      "normalize_decode_options default_decode_options = default_decode_options"
      "jo_max_depth default_encode_options = 32" "jd_max_depth default_decode_options = 32"
      "jd_max_input_length default_decode_options = 16777216"
    by (simp_all add: normalize_encode_options_def default_encode_options_def
        normalize_decode_options_def default_decode_options_def)
  have k: "nat (min 32 32 - 1) = 31" by simp
  have enc: "encodable id default_encode_options default_decode_options 31 ?v"
    by (simp add: json_string_def plain_json_char_def key_string_def default_decode_options_def
        default_encode_options_def)
  have norm: "json_norm id default_encode_options ?v =
      VObject [(VString ''a'', VArray [VInt int64_type (- 1), VBool True, VString [CHR 0x0A]])]"
    by (simp add: reorder_entries_def default_encode_options_def word_sless_alt)
  show ?thesis
    by (rule json_roundtrip [of id default_encode_options default_decode_options ?v,
          unfolded n k, OF enc, unfolded norm])
qed

text \<open>
  The base flag of the stream is never reset: behind a string with a control character that is
  written as \<^verbatim>\<open>\\u001f\<close>, integers are written in hexadecimal, and the decoder refuses the text the
  encoder wrote.
\<close>

theorem json_hex_after_control_char:
  "bind_result (json_encode id default_encode_options (VArray [VString [CHR 0x1F], VUInt uint64_type 10]))
     (json_decode default_decode_options) = Inl parse_error_exception"
proof -
  have "json_encode id default_encode_options (VArray [VString [CHR 0x1F], VUInt uint64_type 10]) =
      Inr (''['' @ [CHR 0x22, CHR 0x5C] @ ''u001f'' @ [CHR 0x22] @ '',a]'')"
    by code_simp
  moreover have "json_decode default_decode_options
      (''['' @ [CHR 0x22, CHR 0x5C] @ ''u001f'' @ [CHR 0x22] @ '',a]'') = Inl parse_error_exception"
    by (simp add: json_decode_def decoder_decode_def normalize_decode_options_def default_decode_options_def
        skip_whitespace_def isspace_def parse_value.simps(2) [of _ 32, simplified Suc_numeral add_num_simps]
        parse_value.simps(2) [of _ 31, simplified Suc_numeral add_num_simps] current_def decoder_is_eof_def parse_array_def
        decoder_enter_scope_def decoder_advance_def array_loop.simps parse_string_def string_loop.simps
        handle_escape_sequence_def handle_unicode_escape_def parse_uint32_hex4_def isxdigit_def isdigit_def
        digits_value_def digit_value_def utf8_bmp_def Let_def as_parse_error_def)
  ultimately show ?thesis by simp
qed

text \<open>
  Two more ways in which the codec departs from its documentation: the depth limit counts one level
  less than the options say, so that a limit of one refuses the empty array, and with
  \<^verbatim>\<open>escape_non_ascii\<close> every byte of a UTF-8 sequence is written as a code point of its own and read
  back as a longer sequence.
\<close>

lemma json_depth_limit_off_by_one:
  "json_decode \<lparr>jd_max_depth = 1, jd_max_input_length = 9, jd_max_string_length = 9,
     jd_max_array_size = 9, jd_max_object_size = 9\<rparr> ''[]'' = Inl parse_error_exception"
  by code_simp

lemma json_escaped_bytes_change:
  "bind_result (json_encode id (default_encode_options\<lparr>jo_escape_non_ascii := True\<rparr>)
       (VString [CHR 0xC3, CHR 0xA4]))
     (json_decode \<lparr>jd_max_depth = 1, jd_max_input_length = 19, jd_max_string_length = 9,
        jd_max_array_size = 9, jd_max_object_size = 9\<rparr>) =
   Inr (VString [CHR 0xC3, CHR 0x83, CHR 0xC2, CHR 0xA4])"
  by code_simp

end
