(* ===== verification/NodeText.thy ===== *)
theory NodeText
  imports Compile Json
begin

text \<open>
  The text of expression nodes (\<^verbatim>\<open>to_string\<close> of the classes under \<^verbatim>\<open>libraries/mcexpr/src/node\<close>) and
  its round trip through the compiler: compiling the text of a node gives the node back. The proof
  reads the text piece by piece: \<open>lexes ok w ts\<close> says what the lexer makes of the piece \<open>w\<close>
  wherever it stands in a source, when the rest of the source satisfies \<open>ok\<close>.
\<close>

section \<open>The text of a node\<close>

definition unary_operator_text :: "operator_type \<Rightarrow> string" where
  "unary_operator_text op =
     (case op of neg_op \<Rightarrow> ''-'' | not_op \<Rightarrow> ''!'' | bit_not_op \<Rightarrow> ''~'' | _ \<Rightarrow> ''?'')"

definition binary_operator_text :: "operator_type \<Rightarrow> string" where
  "binary_operator_text op =
     (case op of add_op \<Rightarrow> ''+'' | sub_op \<Rightarrow> ''-'' | mul_op \<Rightarrow> ''*'' | div_op \<Rightarrow> ''/'' | mod_op \<Rightarrow> ''%''
      | eq_op \<Rightarrow> ''=='' | ne_op \<Rightarrow> ''!='' | lt_op \<Rightarrow> ''<'' | le_op \<Rightarrow> ''<='' | gt_op \<Rightarrow> ''>''
      | ge_op \<Rightarrow> ''>='' | and_op \<Rightarrow> ''&&'' | or_op \<Rightarrow> ''||'' | bit_and_op \<Rightarrow> ''&'' | bit_or_op \<Rightarrow> ''|''
      | bit_xor_op \<Rightarrow> ''^'' | lshift_op \<Rightarrow> ''<<'' | rshift_op \<Rightarrow> ''>>'' | _ \<Rightarrow> ''?'')"

text \<open>
  A literal that is not a string is printed by \<^verbatim>\<open>variant::to_string\<close>, the argument \<open>enc\<close>: \<open>variant_text\<close>
  below, the JSON encoder.
\<close>

definition literal_to_string :: "(variant \<Rightarrow> string) \<Rightarrow> variant \<Rightarrow> string" where
  "literal_to_string enc v =
     (case v of VString s \<Rightarrow> [CHR 0x22] @ s @ [CHR 0x22] | _ \<Rightarrow> enc v)"

text \<open>The separator \<open>sep\<close> between the elements; the loops over the arguments.\<close>

fun join :: "string \<Rightarrow> string list \<Rightarrow> string" where
  "join sep [] = []"
| "join sep [x] = x"
| "join sep (x # y # xs) = x @ sep @ join sep (y # xs)"

text \<open>The loop of \<open>template_string_node::to_string\<close> over the expressions and the later texts.\<close>

fun template_parts_to_string :: "string list \<Rightarrow> string list \<Rightarrow> string" where
  "template_parts_to_string texts [] = []"
| "template_parts_to_string texts (e # es) =
     ''${'' @ e @ ''}'' @ hd texts @ template_parts_to_string (tl texts) es"

primrec node_to_string :: "(variant \<Rightarrow> string) \<Rightarrow> node \<Rightarrow> string" where
  "node_to_string enc (literal_node v) = literal_to_string enc v"
| "node_to_string enc (variable_node name) = name"
| "node_to_string enc (unary_op_node op n) = unary_operator_text op @ node_to_string enc n"
| "node_to_string enc (binary_op_node op l r) =
     ''('' @ node_to_string enc l @ '' '' @ binary_operator_text op @ '' '' @ node_to_string enc r @ '')''"
| "node_to_string enc (function_call_node name args) =
     name @ ''('' @ join '', '' (map (node_to_string enc) args) @ '')''"
| "node_to_string enc (conditional_node c t f) =
     ''('' @ node_to_string enc c @ '' ? '' @ node_to_string enc t @ '' : '' @ node_to_string enc f @ '')''"
| "node_to_string enc (property_access_node obj name) = node_to_string enc obj @ ''.'' @ name"
| "node_to_string enc (object_method_call_node obj name args) =
     node_to_string enc obj @ ''.'' @ name @ ''('' @ join '', '' (map (node_to_string enc) args) @ '')''"
| "node_to_string enc (template_string_node texts es) =
     [CHR 0x22] @ hd texts @ template_parts_to_string (tl texts) (map (node_to_string enc) es) @ [CHR 0x22]"

section \<open>Lexing a piece of text\<close>

lemma scan_tokens_loop_start:
  "scan_tokens_loop (lx\<lparr>lx_start := s\<rparr>) = scan_tokens_loop lx"
  by (subst (1 2) scan_tokens_loop.simps)
     (simp add: lexer_is_at_end_def end_token_def)

definition lexer_at :: "string \<Rightarrow> nat \<Rightarrow> token list \<Rightarrow> lexer" where
  "lexer_at src pos ts = \<lparr>lx_source = src, lx_current = pos, lx_start = pos, lx_tokens = ts\<rparr>"

lemma lexer_at_sel [simp]:
  "lx_source (lexer_at src pos ts) = src" "lx_current (lexer_at src pos ts) = pos"
  "lx_start (lexer_at src pos ts) = pos" "lx_tokens (lexer_at src pos ts) = ts"
  by (simp_all add: lexer_at_def)

lemma lexer_at_start [simp]: "(lexer_at src pos ts)\<lparr>lx_start := pos\<rparr> = lexer_at src pos ts"
  by (simp add: lexer_at_def)

definition lexes :: "(string \<Rightarrow> bool) \<Rightarrow> string \<Rightarrow> (nat \<Rightarrow> token list) \<Rightarrow> bool" where
  "lexes ok w ts \<longleftrightarrow>
     (\<forall>pre rest acc. ok rest \<longrightarrow>
        scan_tokens_loop (lexer_at (pre @ w @ rest) (length pre) acc) =
        scan_tokens_loop (lexer_at (pre @ w @ rest) (length (pre @ w)) (acc @ ts (length pre))))"

lemma lexes_append:
  assumes "lexes ok1 v ts" "lexes ok2 w us" "\<And>rest. ok2 rest \<Longrightarrow> ok1 (w @ rest)"
  shows "lexes ok2 (v @ w) (\<lambda>p. ts p @ us (p + length v))"
  unfolding lexes_def
proof (intro allI impI)
  fix pre rest acc
  assume ok: "ok2 rest"
  have "scan_tokens_loop (lexer_at (pre @ v @ w @ rest) (length pre) acc) =
      scan_tokens_loop (lexer_at (pre @ v @ w @ rest) (length (pre @ v)) (acc @ ts (length pre)))"
    using assms(1,3) ok unfolding lexes_def by blast
  also have "\<dots> = scan_tokens_loop (lexer_at ((pre @ v) @ w @ rest) (length (pre @ v)) (acc @ ts (length pre)))"
    by simp
  also have "\<dots> = scan_tokens_loop (lexer_at ((pre @ v) @ w @ rest) (length ((pre @ v) @ w))
      ((acc @ ts (length pre)) @ us (length (pre @ v))))"
    using assms(2) ok unfolding lexes_def by blast
  finally show "scan_tokens_loop (lexer_at (pre @ (v @ w) @ rest) (length pre) acc) =
      scan_tokens_loop (lexer_at (pre @ (v @ w) @ rest) (length (pre @ v @ w))
        (acc @ ts (length pre) @ us (length pre + length v)))"
    by simp
qed

lemma lexes_weaken: "lexes ok w ts \<Longrightarrow> (\<And>rest. ok' rest \<Longrightarrow> ok rest) \<Longrightarrow> lexes ok' w ts"
  by (auto simp: lexes_def)

text \<open>A piece that is read by one call of \<open>scan_token\<close>.\<close>

lemma lexes_token:
  assumes "w \<noteq> []"
    and "\<And>pre rest acc. ok rest \<Longrightarrow> \<exists>s. scan_token (lexer_at (pre @ w @ rest) (length pre) acc) =
       Inr ((lexer_at (pre @ w @ rest) (length pre + length w) (acc @ ts (length pre)))\<lparr>lx_start := s\<rparr>)"
  shows "lexes ok w ts"
  unfolding lexes_def
proof (intro allI impI)
  fix pre rest acc
  assume "ok rest"
  then obtain s where s: "scan_token (lexer_at (pre @ w @ rest) (length pre) acc) =
      Inr ((lexer_at (pre @ w @ rest) (length pre + length w) (acc @ ts (length pre)))\<lparr>lx_start := s\<rparr>)"
    using assms(2) by blast
  then show "scan_tokens_loop (lexer_at (pre @ w @ rest) (length pre) acc) =
      scan_tokens_loop (lexer_at (pre @ w @ rest) (length (pre @ w)) (acc @ ts (length pre)))"
    using assms(1)
    by (subst scan_tokens_loop.simps)
       (simp add: lexer_is_at_end_def scan_tokens_loop_start lexer_at_start [simplified])
qed

text \<open>The whole source.\<close>

lemma lexes_source:
  assumes "lexes ok src ts" "ok []"
  shows "scan_tokens (new_lexer src) = Inr (ts 0 @ [make_token end_of_file_token [] VNull (length src)])"
proof -
  have "scan_tokens_loop (lexer_at src 0 []) = scan_tokens_loop (lexer_at src (length src) (ts 0))"
    using assms(1) [unfolded lexes_def, rule_format, OF assms(2), of "[]" "[]"] by simp
  moreover have "(new_lexer src)\<lparr>lx_tokens := []\<rparr> = lexer_at src 0 []"
    by (simp add: new_lexer_def lexer_at_def)
  moreover have "scan_tokens_loop (lexer_at src (length src) us) =
      Inr (us @ [make_token end_of_file_token [] VNull (length src)])" for us
    by (subst scan_tokens_loop.simps) (simp add: lexer_is_at_end_def end_token_def)
  ultimately show ?thesis by (simp add: scan_tokens_def)
qed

section \<open>Operators and punctuation\<close>

definition symbol_char :: "char \<Rightarrow> bool" where
  "symbol_char c \<longleftrightarrow> c \<in> set ''(),.-+?:*%^~!=<>&|/''"

lemma symbol_char_class:
  "symbol_char c \<Longrightarrow> c \<noteq> CHR 0x22 \<and> c \<noteq> CHR 0x27 \<and> \<not> is_digit c \<and> \<not> is_alpha c \<and> \<not> is_whitespace c"
  by (auto simp: symbol_char_def is_digit_def is_alpha_def is_whitespace_def isdigit_def isalpha_def)

lemma scan_token_symbol:
  "symbol_char c \<Longrightarrow> scan_token (lexer_at (pre @ (c # cs) @ rest) (length pre) acc) =
     Inr (handle_operator c ((lexer_at (pre @ (c # cs) @ rest) (length pre) acc)\<lparr>lx_current := length pre + 1\<rparr>))"
  using symbol_char_class [of c] by (simp add: scan_token_def lexer_advance_def)

text \<open>The token a text of one or two characters makes, when \<open>ok\<close> holds of the rest.\<close>

lemma lexes_symbol:
  assumes "w \<noteq> []" "symbol_char (hd w)"
    and "\<And>pre rest acc. ok rest \<Longrightarrow>
      handle_operator (hd w) ((lexer_at (pre @ w @ rest) (length pre) acc)\<lparr>lx_current := length pre + 1\<rparr>) =
      add_token ty VNull ((lexer_at (pre @ w @ rest) (length pre) acc)\<lparr>lx_current := length pre + length w\<rparr>)"
  shows "lexes ok w (\<lambda>p. [make_token ty w VNull p])"
proof (rule lexes_token [OF assms(1)])
  fix pre rest acc
  assume ok: "ok rest"
  have w: "hd w # tl w = w" using assms(1) by simp
  have "scan_token (lexer_at (pre @ w @ rest) (length pre) acc) =
      Inr (add_token ty VNull ((lexer_at (pre @ w @ rest) (length pre) acc)\<lparr>lx_current := length pre + length w\<rparr>))"
    using scan_token_symbol [OF assms(2), of pre "tl w" rest acc] assms(3) [OF ok] unfolding w by simp
  also have "add_token ty VNull ((lexer_at (pre @ w @ rest) (length pre) acc)\<lparr>lx_current := length pre + length w\<rparr>) =
      (lexer_at (pre @ w @ rest) (length pre + length w) (acc @ [make_token ty w VNull (length pre)]))
        \<lparr>lx_start := length pre\<rparr>"
    by (simp add: add_token_def lexer_at_def lexeme_def substr_append_middle)
  finally show "\<exists>s. scan_token (lexer_at (pre @ w @ rest) (length pre) acc) =
      Inr ((lexer_at (pre @ w @ rest) (length pre + length w) (acc @ [make_token ty w VNull (length pre)]))
        \<lparr>lx_start := s\<rparr>)" by blast
qed

definition anything :: "string \<Rightarrow> bool" where
  "anything rest \<longleftrightarrow> True"

definition not_before_equals :: "string \<Rightarrow> bool" where
  "not_before_equals rest \<longleftrightarrow> rest = [] \<or> hd rest \<noteq> CHR ''=''"

definition before_space :: "string \<Rightarrow> bool" where
  "before_space rest \<longleftrightarrow> (\<exists>r. rest = CHR '' '' # r)"

lemma lexes_punctuation:
  "lexes anything ''('' (\<lambda>p. [make_token left_paren_token ''('' VNull p])"
  "lexes anything '')'' (\<lambda>p. [make_token right_paren_token '')'' VNull p])"
  "lexes anything '','' (\<lambda>p. [make_token comma_token '','' VNull p])"
  "lexes anything ''.'' (\<lambda>p. [make_token dot_token ''.'' VNull p])"
  "lexes anything ''?'' (\<lambda>p. [make_token question_token ''?'' VNull p])"
  "lexes anything '':'' (\<lambda>p. [make_token colon_token '':'' VNull p])"
  by (rule lexes_symbol; simp add: symbol_char_def handle_operator_def)+

definition unary_token_type :: "operator_type \<Rightarrow> token_type" where
  "unary_token_type op =
     (case op of neg_op \<Rightarrow> minus_token | not_op \<Rightarrow> logical_not_token | _ \<Rightarrow> bit_not_token)"

definition binary_token_type :: "operator_type \<Rightarrow> token_type" where
  "binary_token_type op =
     (case op of add_op \<Rightarrow> plus_token | sub_op \<Rightarrow> minus_token | mul_op \<Rightarrow> asterisk_token
      | div_op \<Rightarrow> slash_token | mod_op \<Rightarrow> percent_token | eq_op \<Rightarrow> equals_token
      | ne_op \<Rightarrow> not_equals_token | lt_op \<Rightarrow> less_token | le_op \<Rightarrow> less_equals_token
      | gt_op \<Rightarrow> greater_token | ge_op \<Rightarrow> greater_equals_token | and_op \<Rightarrow> logical_and_token
      | or_op \<Rightarrow> logical_or_token | bit_and_op \<Rightarrow> bit_and_token | bit_or_op \<Rightarrow> bit_or_token
      | bit_xor_op \<Rightarrow> bit_xor_token | lshift_op \<Rightarrow> lshift_token | _ \<Rightarrow> rshift_token)"

lemma match_next:
  "lexer_match ((lexer_at (pre @ c # r) (length pre) acc)\<lparr>lx_current := Suc (length pre)\<rparr>) d =
     (if r = [] \<or> hd r \<noteq> d
      then (False, (lexer_at (pre @ c # r) (length pre) acc)\<lparr>lx_current := Suc (length pre)\<rparr>)
      else (True, (lexer_at (pre @ c # r) (length pre) acc)\<lparr>lx_current := Suc (Suc (length pre))\<rparr>))"
  by (cases r) (auto simp: lexer_match_def lexer_is_at_end_def nth_append)

lemma lexes_unary_operator:
  "op \<in> set unary_operator_types \<Longrightarrow>
     lexes not_before_equals (unary_operator_text op)
       (\<lambda>p. [make_token (unary_token_type op) (unary_operator_text op) VNull p])"
  unfolding unary_operator_types_def
  by (simp, elim disjE;
      rule lexes_symbol;
      simp add: unary_operator_text_def unary_token_type_def symbol_char_def handle_operator_def
        add_token_if_match_def match_next not_before_equals_def)

lemma lexes_binary_operator:
  "op \<notin> set unary_operator_types \<Longrightarrow>
     lexes before_space (binary_operator_text op)
       (\<lambda>p. [make_token (binary_token_type op) (binary_operator_text op) VNull p])"
  unfolding unary_operator_types_def
  by (cases op; simp only: list.set insert_iff simp_thms operator_type.distinct;
      rule lexes_symbol;
      auto simp: binary_operator_text_def binary_token_type_def symbol_char_def handle_operator_def
        add_token_if_match_def match_next before_space_def)

section \<open>Names, numbers and strings\<close>

lemma lexes_space: "lexes anything '' '' (\<lambda>p. [])"
proof (rule lexes_token)
  fix pre rest acc
  show "\<exists>s. scan_token (lexer_at (pre @ '' '' @ rest) (length pre) acc) =
      Inr ((lexer_at (pre @ '' '' @ rest) (length pre + length '' '') (acc @ []))\<lparr>lx_start := s\<rparr>)"
    by (intro exI [of _ "length pre"])
       (simp add: scan_token_def lexer_advance_def is_digit_def is_alpha_def is_whitespace_def
         isdigit_def isalpha_def lexer_at_def)
qed simp

definition word_end :: "string \<Rightarrow> bool" where
  "word_end rest \<longleftrightarrow> rest = [] \<or> \<not> is_alnum (hd rest)"

definition number_end :: "string \<Rightarrow> bool" where
  "number_end rest \<longleftrightarrow> rest = [] \<or> \<not> is_alnum (hd rest) \<and> hd rest \<noteq> CHR ''.''"

definition is_name :: "string \<Rightarrow> bool" where
  "is_name w \<longleftrightarrow> w \<noteq> [] \<and> is_alpha (hd w) \<and> list_all is_alnum w \<and> w \<noteq> ''true'' \<and> w \<noteq> ''false''"

lemma scan_while_piece:
  assumes "list_all P cs" "rest = [] \<or> \<not> P (hd rest)"
  shows "scan_while P (pre @ cs @ rest) (length pre) = length pre + length cs"
proof -
  have "takeWhile P (cs @ rest) = cs"
    using assms by (cases rest) (auto simp: list_all_iff takeWhile_append2)
  then show ?thesis by (simp add: scan_while_def)
qed

lemma scan_while_piece_Suc:
  assumes "list_all P cs" "rest = [] \<or> \<not> P (hd rest)"
  shows "scan_while P (pre @ c # cs @ rest) (Suc (length pre)) = Suc (length pre + length cs)"
  using scan_while_piece [OF assms, of "pre @ [c]"] by simp

lemma is_alpha_not_quote: "is_alpha c \<Longrightarrow> c \<noteq> CHR 0x22 \<and> c \<noteq> CHR 0x27"
  by (auto simp: is_alpha_def isalpha_def)

lemma is_alpha_not_digit: "is_alpha c \<Longrightarrow> \<not> is_digit c"
  by (auto simp: is_alpha_def isalpha_def is_digit_def isdigit_def)

text \<open>A word: the lexer runs to its end, whichever token it makes of it.\<close>

lemma scan_token_word:
  assumes "is_alpha c" "list_all is_alnum cs" "word_end rest"
  shows "scan_token (lexer_at (pre @ (c # cs) @ rest) (length pre) acc) =
    Inr (let w = c # cs;
             lx = (lexer_at (pre @ w @ rest) (length pre) acc)\<lparr>lx_current := length pre + length w\<rparr>
         in if w = ''true'' then add_token number_token (VBool True) lx
            else if w = ''false'' then add_token number_token (VBool False) lx
            else add_token identifier_token (VString w) lx)"
proof -
  let ?src = "pre @ c # cs @ rest"
  define lx2 where
    "lx2 = (lexer_at ?src (length pre) acc)\<lparr>lx_current := Suc (length pre + length cs)\<rparr>"
  have sw: "scan_while is_alnum ?src (Suc (length pre)) = Suc (length pre + length cs)"
    using assms(2,3) by (intro scan_while_piece_Suc) (auto simp: word_end_def)
  have sub: "substr ?src (length pre) (Suc (length cs)) = c # cs"
    using substr_append_middle [of pre "c # cs" rest] by simp
  have "scan_token (lexer_at ?src (length pre) acc) =
      Inr (scan_identifier ((lexer_at ?src (length pre) acc)\<lparr>lx_current := Suc (length pre)\<rparr>))"
    using is_alpha_not_quote [OF assms(1)] is_alpha_not_digit [OF assms(1)] assms(1)
    by (simp add: scan_token_def lexer_advance_def)
  moreover have "skip_while is_alnum ((lexer_at ?src (length pre) acc)\<lparr>lx_current := Suc (length pre)\<rparr>) = lx2"
    by (simp add: skip_while_def sw lx2_def)
  moreover have "lexeme lx2 = c # cs" by (simp add: lexeme_def lx2_def sub)
  ultimately show ?thesis by (simp add: scan_identifier_def lx2_def [symmetric])
qed

lemma lexes_word:
  assumes "w \<noteq> []" "is_alpha (hd w)" "list_all is_alnum w"
    and "(ty, v) = (if w = ''true'' then (number_token, VBool True)
      else if w = ''false'' then (number_token, VBool False) else (identifier_token, VString w))"
  shows "lexes word_end w (\<lambda>p. [make_token ty w v p])"
proof (rule lexes_token [OF assms(1)])
  fix pre rest acc
  assume "word_end rest"
  moreover have w: "hd w # tl w = w" using assms(1) by simp
  moreover have "list_all is_alnum (tl w)" using assms(1,3) by (cases w) simp_all
  ultimately have "scan_token (lexer_at (pre @ w @ rest) (length pre) acc) =
      Inr (add_token ty v ((lexer_at (pre @ w @ rest) (length pre) acc)\<lparr>lx_current := length pre + length w\<rparr>))"
    using scan_token_word [OF assms(2), of "tl w" rest pre acc] assms(4) unfolding w
    by (auto simp: Let_def split: if_splits)
  also have "add_token ty v ((lexer_at (pre @ w @ rest) (length pre) acc)\<lparr>lx_current := length pre + length w\<rparr>) =
      (lexer_at (pre @ w @ rest) (length pre + length w) (acc @ [make_token ty w v (length pre)]))
        \<lparr>lx_start := length pre\<rparr>"
    by (simp add: add_token_def lexer_at_def lexeme_def substr_append_middle)
  finally show "\<exists>s. scan_token (lexer_at (pre @ w @ rest) (length pre) acc) =
      Inr ((lexer_at (pre @ w @ rest) (length pre + length w) (acc @ [make_token ty w v (length pre)]))
        \<lparr>lx_start := s\<rparr>)" by blast
qed

lemma lexes_name:
  "is_name w \<Longrightarrow> lexes word_end w (\<lambda>p. [make_token identifier_token w (VString w) p])"
  by (rule lexes_word) (auto simp: is_name_def)

lemma lexes_bool:
  "lexes word_end (if b then ''true'' else ''false'')
     (\<lambda>p. [make_token number_token (if b then ''true'' else ''false'') (VBool b) p])"
  by (rule lexes_word)
     (cases b; simp add: is_alpha_def is_alnum_def isalpha_def)+

lemma isdigit_is_alnum: "isdigit c \<Longrightarrow> is_alnum c"
  by (simp add: is_alnum_def is_digit_def)

lemma lexes_number:
  assumes "n < 2 ^ 63"
  shows "lexes number_end (decimal_nat n)
    (\<lambda>p. [make_token number_token (decimal_nat n) (VInt int64_type (word_of_int (int n))) p])"
proof (rule lexes_token)
  fix pre rest acc
  assume ok: "number_end rest"
  obtain c cs where w: "decimal_nat n = c # cs" by (cases "decimal_nat n") auto
  have digits: "isdigit c" "list_all isdigit cs"
    using decimal_nat_digits [of _ n] by (auto simp: w list_all_iff)
  let ?src = "pre @ c # cs @ rest"
  let ?lx = "(lexer_at ?src (length pre) acc)\<lparr>lx_current := Suc (length pre)\<rparr>"
  let ?lx' = "(lexer_at ?src (length pre) acc)\<lparr>lx_current := Suc (length pre + length cs)\<rparr>"
  have stop: "rest = [] \<or> \<not> is_digit (hd rest)"
    using ok isdigit_is_alnum by (auto simp: number_end_def is_digit_def)
  have sw: "scan_while is_digit ?src (Suc (length pre)) = Suc (length pre + length cs)"
    using digits(2) stop by (intro scan_while_piece_Suc) (simp_all add: is_digit_def [abs_def])
  have dot: "\<not> (\<not> lexer_is_at_end ?lx' \<and> lexer_peek ?lx' = CHR ''.'')"
    using ok by (cases rest) (auto simp: lexer_is_at_end_def lexer_peek_def nth_append number_end_def)
  have skip: "skip_while is_digit ?lx = ?lx'" by (simp add: skip_while_def sw)
  then have dec: "detect_decimal ?lx = (0, ?lx')"
    using dot by (auto simp: detect_decimal_def Let_def)
  have radix: "lexer_detect_number_radix ?lx = (0, ?lx')"
  proof (cases "c = CHR ''0''")
    case False
    then show ?thesis by (simp add: lexer_detect_number_radix_def dec)
  next
    case True
    then have "cs = []" using decimal_nat_leading [of n] by (simp add: w)
    show ?thesis
    proof (cases rest)
      case Nil
      then show ?thesis using dec \<open>cs = []\<close> by (simp add: lexer_detect_number_radix_def)
    next
      case (Cons r rs)
      have "\<not> is_alnum r" using ok Cons by (simp add: number_end_def)
      then have "r \<noteq> CHR ''x''" "r \<noteq> CHR ''X''" "r \<noteq> CHR ''b''" "r \<noteq> CHR ''B''" "\<not> is_octal_digit r"
        by (auto simp: is_alnum_def is_alpha_def isalpha_def is_digit_def isdigit_def is_octal_digit_def)
      moreover have "lexer_peek ?lx = r"
        by (simp add: lexer_peek_def lexer_is_at_end_def \<open>cs = []\<close> Cons nth_append)
      ultimately show ?thesis
        using dec True Cons by (simp add: lexer_detect_number_radix_def Let_def)
    qed
  qed
  have sub: "substr ?src (length pre) (Suc (length cs)) = decimal_nat n"
    using substr_append_middle [of pre "c # cs" rest] by (simp add: w)
  have next': "lexer_is_at_end ?lx' \<or> \<not> is_alnum (lexer_peek ?lx')"
    using ok by (cases rest) (auto simp: lexer_is_at_end_def lexer_peek_def nth_append number_end_def)
  have "scan_token (lexer_at ?src (length pre) acc) = scan_number ?lx"
  proof -
    have "c \<noteq> CHR 0x22 \<and> c \<noteq> CHR 0x27" using digits(1) by (auto simp: isdigit_def)
    then show ?thesis
      using digits(1) by (simp add: scan_token_def lexer_advance_def is_digit_def)
  qed
  also have "\<dots> = Inr (add_token number_token (VInt int64_type (word_of_int (int n))) ?lx')"
    using next' try_to_int64_decimal [OF assms] sub
    by (auto simp: scan_number_def radix lexeme_def)
  also have "add_token number_token (VInt int64_type (word_of_int (int n))) ?lx' =
      (lexer_at ?src (length pre + length (decimal_nat n))
        (acc @ [make_token number_token (decimal_nat n) (VInt int64_type (word_of_int (int n))) (length pre)]))
        \<lparr>lx_start := length pre\<rparr>"
    using sub by (simp add: add_token_def lexer_at_def lexeme_def w)
  finally show "\<exists>s. scan_token (lexer_at (pre @ decimal_nat n @ rest) (length pre) acc) =
      Inr ((lexer_at (pre @ decimal_nat n @ rest) (length pre + length (decimal_nat n))
        (acc @ [make_token number_token (decimal_nat n) (VInt int64_type (word_of_int (int n))) (length pre)]))
        \<lparr>lx_start := s\<rparr>)" unfolding w by auto
qed simp

text \<open>Characters that stand for themselves in strings and in the texts of templates.\<close>

definition plain_char :: "char \<Rightarrow> bool" where
  "plain_char c \<longleftrightarrow> c \<notin> {CHR 0x22, CHR 0x27, CHR 0x5C, CHR ''$'', CHR ''{'', CHR ''}'', CHR 0x00}"

definition plain_text :: "string \<Rightarrow> bool" where
  "plain_text s \<longleftrightarrow> list_all plain_char s"

lemma template_lookahead_plain:
  "plain_text s \<Longrightarrow>
     template_lookahead (pre @ s @ rest) (length pre) = template_lookahead (pre @ s @ rest) (length pre + length s)"
proof (induction s arbitrary: pre)
  case (Cons c cs)
  then have c: "plain_char c" and cs: "plain_text cs" by (simp_all add: plain_text_def)
  have "template_lookahead (pre @ (c # cs) @ rest) (length pre) =
      template_lookahead ((pre @ [c]) @ cs @ rest) (length (pre @ [c]))"
    using c by (subst template_lookahead.simps) (simp add: plain_char_def nth_append)
  also have "\<dots> = template_lookahead ((pre @ [c]) @ cs @ rest) (length (pre @ [c]) + length cs)"
    using cs by (rule Cons.IH)
  finally show ?case by simp
qed simp

lemma template_lookahead_shift:
  "template_lookahead (drop k src) n = template_lookahead src (k + n)" if "k \<le> length src"
proof (induction "drop k src" n rule: template_lookahead.induct)
  case (1 n)
  with that show ?case
    by (subst (1 2) template_lookahead.simps) (auto simp: Let_def ac_simps)
qed

lemma skip_until_delimiter_plain:
  "plain_text s \<Longrightarrow>
     skip_until_delimiter CHR 0x22 \<lparr>lx_source = pre @ s @ CHR 0x22 # rest, lx_current = length pre,
       lx_start = st, lx_tokens = acc\<rparr> =
     \<lparr>lx_source = pre @ s @ CHR 0x22 # rest, lx_current = length pre + length s,
       lx_start = st, lx_tokens = acc\<rparr>"
proof (induction s arbitrary: pre)
  case Nil
  show ?case
    by (subst skip_until_delimiter.simps) (simp add: lexer_is_at_end_def lexer_peek_def nth_append)
next
  case (Cons c cs)
  then have c: "plain_char c" and cs: "plain_text cs" by (simp_all add: plain_text_def)
  have "skip_until_delimiter CHR 0x22 \<lparr>lx_source = pre @ (c # cs) @ CHR 0x22 # rest, lx_current = length pre,
       lx_start = st, lx_tokens = acc\<rparr> =
      skip_until_delimiter CHR 0x22 \<lparr>lx_source = (pre @ [c]) @ cs @ CHR 0x22 # rest,
        lx_current = length (pre @ [c]), lx_start = st, lx_tokens = acc\<rparr>"
    using c
    by (subst skip_until_delimiter.simps)
       (simp add: lexer_is_at_end_def lexer_peek_def nth_append plain_char_def)
  also have "\<dots> = \<lparr>lx_source = (pre @ [c]) @ cs @ CHR 0x22 # rest,
        lx_current = length (pre @ [c]) + length cs, lx_start = st, lx_tokens = acc\<rparr>"
    using cs by (rule Cons.IH)
  finally show ?case by simp
qed

lemma unescape_plain: "plain_text s \<Longrightarrow> unescape d s = s"
  by (induction s) (simp_all add: plain_text_def plain_char_def)

lemma lexes_string:
  assumes s: "plain_text s"
  defines "w \<equiv> [CHR 0x22] @ s @ [CHR 0x22]"
  shows "lexes anything w (\<lambda>p. [make_token string_token w (VString s) p])"
proof (rule lexes_token)
  fix pre rest acc
  let ?src = "pre @ w @ rest"
  have src: "?src = (pre @ [CHR 0x22]) @ s @ CHR 0x22 # rest" by (simp add: w_def)
  define lx1 where "lx1 = (lexer_at ?src (length pre) acc)\<lparr>lx_current := Suc (length pre)\<rparr>"
  have "template_lookahead (drop (Suc (length pre)) ?src) 0 =
      template_lookahead ?src (length (pre @ [CHR 0x22]))"
    by (subst template_lookahead_shift) (simp_all add: w_def)
  also have "\<dots> = template_lookahead ?src (length (pre @ [CHR 0x22]) + length s)"
    unfolding src by (rule template_lookahead_plain [OF s])
  also have "\<dots> = False"
    by (subst template_lookahead.simps) (simp add: src nth_append)
  finally have "\<not> lexer_is_template_string lx1"
    by (simp add: lexer_is_template_string_def lx1_def is_template_string_def)
  then have "scan_token (lexer_at ?src (length pre) acc) = scan_string lx1"
    by (simp add: scan_token_def lexer_advance_def lx1_def [symmetric]) (simp add: w_def)
  also have "skip_until_delimiter CHR 0x22 lx1 =
      lx1\<lparr>lx_current := length pre + 1 + length s\<rparr>"
    using skip_until_delimiter_plain [OF s, of "pre @ [CHR 0x22]" rest "length pre" acc]
    by (simp add: lx1_def lexer_at_def src)
  then have "scan_string lx1 =
      Inr (process_string_literal CHR 0x22 (lx1\<lparr>lx_current := length pre + length w\<rparr>))"
    by (simp add: scan_string_def lexer_is_at_end_def lexer_advance_def lx1_def w_def nth_append Let_def)
  also have "process_string_literal CHR 0x22 (lx1\<lparr>lx_current := length pre + length w\<rparr>) =
      add_token string_token (VString s) (lx1\<lparr>lx_current := length pre + length w\<rparr>)"
  proof -
    have "substr ?src (Suc (length pre)) (length s) = s"
      using substr_append_middle [of "pre @ [CHR 0x22]" s "CHR 0x22 # rest"] by (simp add: w_def)
    then show ?thesis
      by (simp add: process_string_literal_def lexeme_range_def lx1_def w_def unescape_plain [OF s])
  qed
  also have "\<dots> = (lexer_at ?src (length pre + length w) (acc @ [make_token string_token w (VString s) (length pre)]))
      \<lparr>lx_start := length pre\<rparr>"
    by (simp add: add_token_def lexer_at_def lexeme_def substr_append_middle lx1_def)
  finally show "\<exists>st. scan_token (lexer_at ?src (length pre) acc) =
      Inr ((lexer_at ?src (length pre + length w) (acc @ [make_token string_token w (VString s) (length pre)]))
        \<lparr>lx_start := st\<rparr>)" by blast
qed (simp add: w_def)

section \<open>Template strings\<close>

text \<open>A text whose braces are balanced, and never closes the brace opened before it.\<close>

definition balanced :: "string \<Rightarrow> bool" where
  "balanced e \<longleftrightarrow>
     (\<forall>pre rest n. 1 \<le> n \<longrightarrow> find_closing_brace (pre @ e @ rest) (length pre) n =
        find_closing_brace (pre @ e @ rest) (length pre + length e) n)"

lemma balanced_append: "balanced v \<Longrightarrow> balanced w \<Longrightarrow> balanced (v @ w)"
  unfolding balanced_def
proof (intro allI impI)
  fix pre rest and n :: int
  assume v: "\<forall>pre rest n. 1 \<le> n \<longrightarrow> find_closing_brace (pre @ v @ rest) (length pre) n =
        find_closing_brace (pre @ v @ rest) (length pre + length v) n"
    and w: "\<forall>pre rest n. 1 \<le> n \<longrightarrow> find_closing_brace (pre @ w @ rest) (length pre) n =
        find_closing_brace (pre @ w @ rest) (length pre + length w) n" and n: "1 \<le> n"
  show "find_closing_brace (pre @ (v @ w) @ rest) (length pre) n =
        find_closing_brace (pre @ (v @ w) @ rest) (length pre + length (v @ w)) n"
    using v [rule_format, OF n, of pre "w @ rest"] w [rule_format, OF n, of "pre @ v" rest]
    by (simp add: ac_simps)
qed

lemma balanced_char: "c \<noteq> CHR ''{'' \<Longrightarrow> c \<noteq> CHR ''}'' \<Longrightarrow> balanced [c]"
  unfolding balanced_def
  by (intro allI impI, subst find_closing_brace.simps) (simp add: nth_append)

lemma balanced_Nil: "balanced []"
  by (simp add: balanced_def)

lemma balanced_no_braces: "list_all (\<lambda>c. c \<noteq> CHR ''{'' \<and> c \<noteq> CHR ''}'') s \<Longrightarrow> balanced s"
proof (induction s)
  case (Cons c cs)
  then show ?case using balanced_append [OF balanced_char [of c], of cs] by simp
qed (simp add: balanced_Nil)

lemma balanced_braces:
  assumes "balanced e"
  shows "balanced (''{'' @ e @ ''}'')"
  unfolding balanced_def
proof (intro allI impI)
  fix pre rest and n :: int
  assume n: "1 \<le> n"
  let ?src = "pre @ CHR ''{'' # e @ CHR ''}'' # rest"
  have "find_closing_brace ?src (length pre) n = find_closing_brace ?src (Suc (length pre)) (n + 1)"
    by (subst find_closing_brace.simps) simp
  also have "\<dots> = find_closing_brace ?src (Suc (length pre) + length e) (n + 1)"
    using assms [unfolded balanced_def, rule_format, of "n + 1" "pre @ ''{''" "''}'' @ rest"] n by simp
  also have "\<dots> = find_closing_brace ?src (Suc (Suc (length pre + length e))) n"
    using n by (subst find_closing_brace.simps) (simp add: nth_append)
  finally show "find_closing_brace (pre @ (''{'' @ e @ ''}'') @ rest) (length pre) n =
      find_closing_brace (pre @ (''{'' @ e @ ''}'') @ rest) (length pre + length (''{'' @ e @ ''}'')) n"
    by simp
qed

lemma find_closing_brace_balanced:
  assumes "balanced e"
  shows "find_closing_brace (pre @ ''${'' @ e @ ''}'' @ rest) (length pre + 2) 1 = length pre + 2 + length e"
proof -
  have "find_closing_brace (pre @ ''${'' @ e @ ''}'' @ rest) (length pre + 2) 1 =
      find_closing_brace (pre @ ''${'' @ e @ ''}'' @ rest) (length pre + 2 + length e) 1"
    using assms [unfolded balanced_def, rule_format, of 1 "pre @ ''${''" "''}'' @ rest"] by simp
  then show ?thesis by (subst (asm) (2) find_closing_brace.simps) (simp add: nth_append)
qed

definition lexer_state :: "string \<Rightarrow> nat \<Rightarrow> nat \<Rightarrow> token list \<Rightarrow> lexer" where
  "lexer_state src st pos ts = \<lparr>lx_source = src, lx_current = pos, lx_start = st, lx_tokens = ts\<rparr>"

lemma lexer_state_sel [simp]:
  "lx_source (lexer_state src st pos ts) = src" "lx_current (lexer_state src st pos ts) = pos"
  "lx_start (lexer_state src st pos ts) = st" "lx_tokens (lexer_state src st pos ts) = ts"
  "(lexer_state src st pos ts)\<lparr>lx_current := pos'\<rparr> = lexer_state src st pos' ts"
  "(lexer_state src st pos ts)\<lparr>lx_start := st'\<rparr> = lexer_state src st' pos ts"
  "(lexer_state src st pos ts)\<lparr>lx_tokens := us\<rparr> = lexer_state src st pos us"
  by (simp_all add: lexer_state_def)

lemma scan_template_expr_at:
  assumes "balanced e"
  shows "scan_template_expr ty s (lexer_state (pre @ ''${'' @ e @ ''}'' @ rest) st (length pre) acc) =
    Inr (lexer_state (pre @ ''${'' @ e @ ''}'' @ rest) (length pre + 3 + length e) (length pre + 3 + length e)
      (acc @ [make_token ty (drop st pre) (VString (drop s pre)) st,
              make_token template_expr_token e (VString e) (length pre + 2)]))"
proof -
  have "substr (pre @ ''${'' @ e @ ''}'' @ rest) (length pre + 2) (length e) = e"
    using substr_append_middle [of "pre @ ''${''" e "''}'' @ rest"] by simp
  moreover have "substr (pre @ ''${'' @ e @ ''}'' @ rest) k (length pre - k) = drop k pre" for k
    by (cases "k \<le> length pre") (simp_all add: substr_def)
  ultimately show ?thesis
    using find_closing_brace_balanced [OF assms, of pre rest]
    by (simp add: scan_template_expr_def Let_def lexeme_range_def add_token_def lexeme_def nth_append)
qed

text \<open>The tokens of a template behind its first expression, \<open>p\<close> being the position of the text \<open>t\<close>.\<close>

fun later_tokens :: "nat \<Rightarrow> string \<Rightarrow> string list \<Rightarrow> string list \<Rightarrow> token list" where
  "later_tokens p t ts [] = [make_token template_end_token (t @ [CHR 0x22]) (VString t) p]"
| "later_tokens p t ts (e # es) =
     make_token template_middle_token t (VString t) p #
     make_token template_expr_token e (VString e) (p + length t + 2) #
     later_tokens (p + length t + 3 + length e) (hd ts) (tl ts) es"

lemma scan_template_rest_plain:
  "plain_text t \<Longrightarrow>
     scan_template_rest CHR 0x22 s (lexer_state (pre @ t @ rest) st (length pre) acc) =
     scan_template_rest CHR 0x22 s (lexer_state (pre @ t @ rest) st (length pre + length t) acc)"
proof (induction t arbitrary: pre)
  case (Cons c cs)
  then have c: "plain_char c" and cs: "plain_text cs" by (simp_all add: plain_text_def)
  have "scan_template_rest CHR 0x22 s (lexer_state (pre @ (c # cs) @ rest) st (length pre) acc) =
      scan_template_rest CHR 0x22 s (lexer_state ((pre @ [c]) @ cs @ rest) st (length (pre @ [c])) acc)"
    using c by (subst scan_template_rest.simps) (simp add: plain_char_def nth_append)
  also have "\<dots> = scan_template_rest CHR 0x22 s
      (lexer_state ((pre @ [c]) @ cs @ rest) st (length (pre @ [c]) + length cs) acc)"
    using cs by (rule Cons.IH)
  finally show ?case by simp
qed simp

lemma scan_template_rest_parts:
  assumes "plain_text t" "list_all plain_text ts" "list_all balanced es" "length ts = length es"
  shows "\<exists>st. scan_template_rest CHR 0x22 (length pre)
      (lexer_state (pre @ t @ template_parts_to_string ts es @ [CHR 0x22] @ rest) (length pre) (length pre) acc) =
    Inr (lexer_state (pre @ t @ template_parts_to_string ts es @ [CHR 0x22] @ rest) st
      (length pre + length t + length (template_parts_to_string ts es) + 1)
      (acc @ later_tokens (length pre) t ts es))"
  using assms
proof (induction es arbitrary: pre t ts acc)
  case Nil
  then have "scan_template_rest CHR 0x22 (length pre)
      (lexer_state (pre @ t @ [CHR 0x22] @ rest) (length pre) (length pre) acc) =
      scan_template_rest CHR 0x22 (length pre)
      (lexer_state (pre @ t @ [CHR 0x22] @ rest) (length pre) (length pre + length t) acc)"
    by (intro scan_template_rest_plain)
  also have "\<dots> = Inr (lexer_state (pre @ t @ [CHR 0x22] @ rest) (length pre) (length pre + length t + 1)
      (acc @ [make_token template_end_token (t @ [CHR 0x22]) (VString t) (length pre)]))"
    by (subst scan_template_rest.simps)
       (simp add: nth_append add_token_def lexeme_def lexeme_range_def substr_def Let_def)
  finally show ?case by auto
next
  case (Cons e es)
  obtain t' ts' where ts: "ts = t' # ts'" using Cons.prems(4) by (cases ts) auto
  let ?tail = "t' @ template_parts_to_string ts' es @ [CHR 0x22] @ rest"
  let ?src = "pre @ t @ ''${'' @ e @ ''}'' @ ?tail"
  have src: "pre @ t @ template_parts_to_string ts (e # es) @ [CHR 0x22] @ rest = ?src" by (simp add: ts)
  let ?pre' = "(pre @ t) @ ''${'' @ e @ ''}''"
  have "scan_template_rest CHR 0x22 (length pre) (lexer_state ?src (length pre) (length pre) acc) =
      scan_template_rest CHR 0x22 (length pre) (lexer_state ?src (length pre) (length pre + length t) acc)"
    using Cons.prems(1) by (rule scan_template_rest_plain)
  also have "\<dots> = bind_result (scan_template_expr template_middle_token (length pre)
        (lexer_state ((pre @ t) @ ''${'' @ e @ ''}'' @ ?tail) (length pre) (length (pre @ t)) acc))
      (\<lambda>lx'. scan_template_rest CHR 0x22 (lx_current lx') lx')"
    by (subst scan_template_rest.simps) (simp add: nth_append)
  also have "\<dots> = scan_template_rest CHR 0x22 (length ?pre')
      (lexer_state (?pre' @ ?tail) (length ?pre') (length ?pre')
        (acc @ [make_token template_middle_token t (VString t) (length pre),
                make_token template_expr_token e (VString e) (length pre + length t + 2)]))"
    using Cons.prems(3) by (subst scan_template_expr_at) (simp_all add: ac_simps eval_nat_numeral)
  finally have *: "scan_template_rest CHR 0x22 (length pre) (lexer_state ?src (length pre) (length pre) acc) =
      scan_template_rest CHR 0x22 (length ?pre')
      (lexer_state (?pre' @ ?tail) (length ?pre') (length ?pre')
        (acc @ [make_token template_middle_token t (VString t) (length pre),
                make_token template_expr_token e (VString e) (length pre + length t + 2)]))" .
  have "\<exists>st. scan_template_rest CHR 0x22 (length ?pre')
      (lexer_state (?pre' @ ?tail) (length ?pre') (length ?pre')
        (acc @ [make_token template_middle_token t (VString t) (length pre),
                make_token template_expr_token e (VString e) (length pre + length t + 2)])) =
    Inr (lexer_state (?pre' @ ?tail) st
      (length ?pre' + length t' + length (template_parts_to_string ts' es) + 1)
      ((acc @ [make_token template_middle_token t (VString t) (length pre),
                make_token template_expr_token e (VString e) (length pre + length t + 2)]) @
        later_tokens (length ?pre') t' ts' es))"
    using Cons.prems ts by (intro Cons.IH) simp_all
  then show ?case unfolding src * by (simp add: ts ac_simps eval_nat_numeral)
qed

lemma scan_template_text_plain:
  "plain_text t \<Longrightarrow>
     scan_template_text CHR 0x22 s (lexer_state (pre @ t @ rest) st (length pre) acc) =
     scan_template_text CHR 0x22 s (lexer_state (pre @ t @ rest) st (length pre + length t) acc)"
proof (induction t arbitrary: pre)
  case (Cons c cs)
  then have c: "plain_char c" and cs: "plain_text cs" by (simp_all add: plain_text_def)
  have "scan_template_text CHR 0x22 s (lexer_state (pre @ (c # cs) @ rest) st (length pre) acc) =
      scan_template_text CHR 0x22 s (lexer_state ((pre @ [c]) @ cs @ rest) st (length (pre @ [c])) acc)"
    using c by (subst scan_template_text.simps) (simp add: plain_char_def nth_append)
  also have "\<dots> = scan_template_text CHR 0x22 s
      (lexer_state ((pre @ [c]) @ cs @ rest) st (length (pre @ [c]) + length cs) acc)"
    using cs by (rule Cons.IH)
  finally show ?case by simp
qed simp

definition template_tokens :: "nat \<Rightarrow> string \<Rightarrow> string list \<Rightarrow> string list \<Rightarrow> token list" where
  "template_tokens p t ts es =
     make_token template_start_token (CHR 0x22 # t) (VString t) p #
     make_token template_expr_token (hd es) (VString (hd es)) (p + length t + 3) #
     later_tokens (p + length t + 4 + length (hd es)) (hd ts) (tl ts) (tl es)"

lemma lexes_template:
  assumes t: "plain_text t" and ts: "list_all plain_text ts" and es: "list_all balanced es"
    and len: "length ts = length es" "es \<noteq> []"
  shows "lexes anything ([CHR 0x22] @ t @ template_parts_to_string ts es @ [CHR 0x22])
    (\<lambda>p. template_tokens p t ts es)"
proof (rule lexes_token)
  fix pre rest acc
  obtain e es' where e: "es = e # es'" using len(2) by (cases es) auto
  obtain t' ts' where t': "ts = t' # ts'" using len e by (cases ts) auto
  let ?w = "[CHR 0x22] @ t @ template_parts_to_string ts es @ [CHR 0x22]"
  let ?src = "pre @ ?w @ rest"
  let ?tail = "t' @ template_parts_to_string ts' es' @ [CHR 0x22] @ rest"
  let ?p = "(pre @ [CHR 0x22]) @ t"
  let ?p' = "?p @ ''${'' @ e @ ''}''"
  have src: "?src = (pre @ [CHR 0x22]) @ t @ ''${'' @ e @ ''}'' @ ?tail" by (simp add: e t')
  let ?lx1 = "lexer_state ?src (length pre) (length (pre @ [CHR 0x22])) acc"
  have "template_lookahead (drop (length (pre @ [CHR 0x22])) ?src) 0 =
      template_lookahead ?src (length (pre @ [CHR 0x22]))"
    by (subst template_lookahead_shift) simp_all
  also have "\<dots> = template_lookahead ?src (length (pre @ [CHR 0x22]) + length t)"
    unfolding src by (rule template_lookahead_plain [OF t])
  also have "\<dots> = True" unfolding src by (subst template_lookahead.simps) (simp add: nth_append)
  finally have look: "lexer_is_template_string ?lx1"
    by (simp add: lexer_is_template_string_def is_template_string_def)
  have "scan_token (lexer_at ?src (length pre) acc) = scan_template_string CHR 0x22 ?lx1"
    using look by (simp add: scan_token_def lexer_advance_def lexer_at_def lexer_state_def)
  also have "\<dots> = scan_template_text CHR 0x22 (length (pre @ [CHR 0x22]))
      (lexer_state ?src (length pre) (length (pre @ [CHR 0x22]) + length t) acc)"
    unfolding scan_template_string_def lexer_state_sel src by (rule scan_template_text_plain [OF t])
  also have "\<dots> = bind_result (scan_template_expr template_start_token (length (pre @ [CHR 0x22]))
        (lexer_state (?p @ ''${'' @ e @ ''}'' @ ?tail) (length pre) (length ?p) acc))
      (\<lambda>lx'. scan_template_rest CHR 0x22 (lx_current lx') lx')"
    unfolding src by (subst scan_template_text.simps) (simp add: nth_append)
  also have "\<dots> = scan_template_rest CHR 0x22 (length ?p')
      (lexer_state (?p' @ ?tail) (length ?p') (length ?p')
        (acc @ [make_token template_start_token (CHR 0x22 # t) (VString t) (length pre),
                make_token template_expr_token e (VString e) (length pre + length t + 3)]))"
    using es e by (subst scan_template_expr_at) (simp_all add: ac_simps eval_nat_numeral)
  finally have eq: "scan_token (lexer_at ?src (length pre) acc) = scan_template_rest CHR 0x22 (length ?p')
      (lexer_state (?p' @ ?tail) (length ?p') (length ?p')
        (acc @ [make_token template_start_token (CHR 0x22 # t) (VString t) (length pre),
                make_token template_expr_token e (VString e) (length pre + length t + 3)]))" .
  have "\<exists>st. scan_template_rest CHR 0x22 (length ?p')
      (lexer_state (?p' @ ?tail) (length ?p') (length ?p')
        (acc @ [make_token template_start_token (CHR 0x22 # t) (VString t) (length pre),
                make_token template_expr_token e (VString e) (length pre + length t + 3)])) =
     Inr (lexer_state (?p' @ ?tail) st
      (length ?p' + length t' + length (template_parts_to_string ts' es') + 1)
      ((acc @ [make_token template_start_token (CHR 0x22 # t) (VString t) (length pre),
               make_token template_expr_token e (VString e) (length pre + length t + 3)]) @
       later_tokens (length ?p') t' ts' es'))"
    using assms e t' by (intro scan_template_rest_parts) simp_all
  then obtain st where "scan_token (lexer_at ?src (length pre) acc) =
      Inr (lexer_state (?p' @ ?tail) st
      (length ?p' + length t' + length (template_parts_to_string ts' es') + 1)
      ((acc @ [make_token template_start_token (CHR 0x22 # t) (VString t) (length pre),
               make_token template_expr_token e (VString e) (length pre + length t + 3)]) @
       later_tokens (length ?p') t' ts' es'))" unfolding eq by (elim exE)
  moreover have "lexer_state (?p' @ ?tail) st
      (length ?p' + length t' + length (template_parts_to_string ts' es') + 1)
      ((acc @ [make_token template_start_token (CHR 0x22 # t) (VString t) (length pre),
               make_token template_expr_token e (VString e) (length pre + length t + 3)]) @
       later_tokens (length ?p') t' ts' es') =
     (lexer_at ?src (length pre + length ?w) (acc @ template_tokens (length pre) t ts es))\<lparr>lx_start := st\<rparr>"
    by (simp add: e t' lexer_at_def lexer_state_def template_tokens_def ac_simps eval_nat_numeral)
  ultimately show "\<exists>s. scan_token (lexer_at ?src (length pre) acc) =
      Inr ((lexer_at ?src (length pre + length ?w) (acc @ template_tokens (length pre) t ts es))\<lparr>lx_start := s\<rparr>)"
    by auto
qed simp

section \<open>The round trip\<close>

text \<open>
  The nodes whose text the lexer reads back: names that are identifiers, non-negative integer,
  boolean and string literals and template texts of plain characters, and operators the parser
  knows.
\<close>

fun printable :: "node \<Rightarrow> bool" where
  "printable (literal_node v) =
     (case v of VInt k i \<Rightarrow> k = int64_type \<and> 0 \<le> sint i | VBool b \<Rightarrow> True
      | VString s \<Rightarrow> plain_text s | _ \<Rightarrow> False)"
| "printable (variable_node name) = is_name name"
| "printable (unary_op_node op n) = (op \<in> set unary_operator_types \<and> printable n)"
| "printable (binary_op_node op a b) = (op \<notin> set unary_operator_types \<and> printable a \<and> printable b)"
| "printable (function_call_node name args) = (is_name name \<and> list_all printable args)"
| "printable (conditional_node c t f) = (printable c \<and> printable t \<and> printable f)"
| "printable (property_access_node obj name) = (is_member_chain obj \<and> printable obj \<and> is_name name)"
| "printable (object_method_call_node obj name args) =
     (is_member_chain obj \<and> printable obj \<and> is_name name \<and> list_all printable args)"
| "printable (template_string_node texts es) =
     (list_all plain_text texts \<and> length texts = length es + 1 \<and> es \<noteq> [] \<and> list_all printable es)"

text \<open>Variant's \<^verbatim>\<open>to_string\<close> prints integers in decimal and booleans by name.\<close>

definition prints_scalars :: "(variant \<Rightarrow> string) \<Rightarrow> bool" where
  "prints_scalars enc \<longleftrightarrow>
     (\<forall>i. enc (VInt int64_type i) = decimal (sint i)) \<and>
     (\<forall>b. enc (VBool b) = (if b then ''true'' else ''false''))"

text \<open>
  That is what \<^verbatim>\<open>variant::to_string\<close>, the JSON encoder with its default options, does. The literals of
  compiled nodes are numbers, booleans and strings, which it never refuses.
\<close>

definition variant_text :: "(string \<Rightarrow> string) \<Rightarrow> variant \<Rightarrow> string" where
  "variant_text ext v = (case json_encode ext default_encode_options v of Inr s \<Rightarrow> s | Inl e \<Rightarrow> [])"

lemma variant_text_prints_scalars: "prints_scalars (variant_text ext)"
  by (simp add: prints_scalars_def variant_text_def json_encode_def encode_value.simps put_def new_encoder_def
      as_parse_error_def encode_int_def)

text \<open>A piece whose tokens satisfy \<open>G\<close>.\<close>

definition lexes_as :: "(string \<Rightarrow> bool) \<Rightarrow> string \<Rightarrow> (token list \<Rightarrow> bool) \<Rightarrow> bool" where
  "lexes_as ok w G \<longleftrightarrow> (\<exists>ts. lexes ok w ts \<and> (\<forall>p. G (ts p)))"

lemma lexes_as_append:
  assumes "lexes_as ok1 v G" "lexes_as ok2 w H" "\<And>rest. ok2 rest \<Longrightarrow> ok1 (w @ rest)"
  shows "lexes_as ok2 (v @ w) (\<lambda>ts. \<exists>a b. ts = a @ b \<and> G a \<and> H b)"
proof -
  obtain ts us where "lexes ok1 v ts" "\<forall>p. G (ts p)" "lexes ok2 w us" "\<forall>p. H (us p)"
    using assms unfolding lexes_as_def by blast
  with lexes_append [OF this(1,3) assms(3)] show ?thesis
    unfolding lexes_as_def by (intro exI [of _ "\<lambda>p. ts p @ us (p + length v)"]) blast
qed

lemma lexes_as_mono:
  "lexes_as ok w G \<Longrightarrow> (\<And>rest. ok' rest \<Longrightarrow> ok rest) \<Longrightarrow> (\<And>ts. G ts \<Longrightarrow> H ts) \<Longrightarrow> lexes_as ok' w H"
  unfolding lexes_as_def using lexes_weaken by blast

definition one_token :: "token_type \<Rightarrow> string \<Rightarrow> variant \<Rightarrow> token list \<Rightarrow> bool" where
  "one_token ty w v ts \<longleftrightarrow> (\<exists>p. ts = [make_token ty w v p])"

lemma lexes_as_token:
  "lexes ok w (\<lambda>p. [make_token ty w v p]) \<Longrightarrow> lexes_as ok w (one_token ty w v)"
  unfolding lexes_as_def one_token_def by (intro exI conjI) auto

lemmas lexes_as_punctuation = lexes_punctuation [THEN lexes_as_token]

lemma lexes_as_space: "lexes_as anything '' '' (\<lambda>ts. ts = [])"
  using lexes_space unfolding lexes_as_def by blast

lemma gram_args_cons_aux:
  "gram fmt tp l us m \<Longrightarrow> True"
  "gram_args fmt tp us ns \<Longrightarrow> gram fmt tp 0 ts n \<and> tok_type c = comma_token \<longrightarrow>
     gram_args fmt tp (ts @ [c] @ us) (n # ns)"
  "gram_call fmt tp us ns \<Longrightarrow> True"
  "gram_chain fmt tp us m \<Longrightarrow> True"
  "gram_parts fmt tp us texts ns \<Longrightarrow> True"
proof (induction rule: gram_gram_args_gram_call_gram_chain_gram_parts.inducts)
  case (args_one us m)
  then show ?case using gram_gram_args_gram_call_gram_chain_gram_parts.args_more
      [OF gram_gram_args_gram_call_gram_chain_gram_parts.args_one] by fastforce
next
  case (args_more us ms d vs m)
  then show ?case
    using gram_gram_args_gram_call_gram_chain_gram_parts.args_more [of fmt tp "ts @ [c] @ us" "n # ms" d vs m]
    by simp
qed simp_all

lemma gram_args_cons:
  "gram_args fmt tp us ns \<Longrightarrow> gram fmt tp 0 ts n \<Longrightarrow> tok_type c = comma_token \<Longrightarrow>
     gram_args fmt tp (ts @ [c] @ us) (n # ns)"
  using gram_args_cons_aux(2) by blast

lemma gram_literal_token:
  "ty = number_token \<or> ty = string_token \<Longrightarrow> gram fmt tp 12 [make_token ty w v p] (literal_node v)"
  using gram_literal [of "make_token ty w v p" fmt tp] by simp

text \<open>What the induction proves of every node.\<close>

definition node_reads_back :: "(variant \<Rightarrow> string) \<Rightarrow> (variant \<Rightarrow> string) \<Rightarrow> node \<Rightarrow> bool" where
  "node_reads_back fmt enc n \<longleftrightarrow>
     node_to_string enc n \<noteq> [] \<and> hd (node_to_string enc n) \<noteq> CHR ''='' \<and>
     balanced (node_to_string enc n) \<and>
     lexes_as number_end (node_to_string enc n) (\<lambda>ts. gram fmt (engine_compile fmt) 11 ts n) \<and>
     (is_member_chain n \<longrightarrow>
        lexes_as word_end (node_to_string enc n) (\<lambda>ts. gram_chain fmt (engine_compile fmt) ts n))"

lemma number_end_word_end: "number_end rest \<Longrightarrow> word_end rest"
  by (auto simp: number_end_def word_end_def)

lemma punctuation_ends:
  "number_end ('' '' @ r)" "number_end ('')'' @ r)" "number_end ('','' @ r)"
  "word_end (''('' @ r)" "word_end (''.'' @ r)"
  by (auto simp: number_end_def word_end_def is_alnum_def is_alpha_def isalpha_def is_digit_def isdigit_def)

lemma name_facts:
  assumes "is_name w"
  shows "w \<noteq> []" "hd w \<noteq> CHR ''=''" "balanced w"
    "lexes_as word_end w (one_token identifier_token w (VString w))"
proof -
  show "w \<noteq> []" "lexes_as word_end w (one_token identifier_token w (VString w))"
    using assms lexes_as_token [OF lexes_name [OF assms]] by (simp_all add: is_name_def)
  show "hd w \<noteq> CHR ''=''" using assms by (auto simp: is_name_def is_alpha_def isalpha_def)
  have "list_all is_alnum w" using assms by (simp add: is_name_def)
  then show "balanced w"
    by (intro balanced_no_braces, elim list.pred_mono_strong)
       (auto simp: is_alnum_def is_alpha_def isalpha_def is_digit_def isdigit_def)
qed

lemma chain_reads_back:
  assumes "node_to_string enc n \<noteq> []" "hd (node_to_string enc n) \<noteq> CHR ''=''"
    "balanced (node_to_string enc n)" "is_member_chain n"
    and chain: "lexes_as word_end (node_to_string enc n) (\<lambda>ts. gram_chain fmt (engine_compile fmt) ts n)"
  shows "node_reads_back fmt enc n"
proof -
  have "lexes_as number_end (node_to_string enc n) (\<lambda>ts. gram fmt (engine_compile fmt) 11 ts n)"
    by (rule lexes_as_mono [OF chain number_end_word_end]) (auto intro: gram_ups [OF gram_member])
  with assms show ?thesis by (simp add: node_reads_back_def)
qed

text \<open>The nodes whose text ends with a delimiter of its own.\<close>

lemma closed_reads_back:
  assumes "node_to_string enc n \<noteq> []" "hd (node_to_string enc n) \<noteq> CHR ''=''"
    "balanced (node_to_string enc n)" "\<not> is_member_chain n" "11 \<le> l" "l \<le> 12"
    and prim: "lexes_as ok (node_to_string enc n) (\<lambda>ts. gram fmt (engine_compile fmt) l ts n)"
      "\<And>rest. number_end rest \<Longrightarrow> ok rest"
  shows "node_reads_back fmt enc n"
proof -
  have "lexes_as number_end (node_to_string enc n) (\<lambda>ts. gram fmt (engine_compile fmt) 11 ts n)"
    by (rule lexes_as_mono [OF prim]) (auto intro: gram_ups simp: assms(5,6))
  with assms show ?thesis by (simp add: node_reads_back_def)
qed

lemma anythingI: "anything rest"
  by (simp add: anything_def)

lemma literal_reads_back:
  assumes "prints_scalars enc" "printable (literal_node v)"
  shows "node_reads_back fmt enc (literal_node v)"
proof (cases v)
  case (VInt k i)
  then have k: "k = int64_type" "0 \<le> sint i" using assms(2) by auto
  let ?n = "nat (sint i)"
  have text': "literal_to_string enc v = decimal_nat ?n"
    using assms(1) k VInt by (simp add: literal_to_string_def prints_scalars_def decimal_def)
  have n: "?n < 2 ^ 63" using k(2) sint_lt [of i] by (simp add: nat_less_iff)
  have v: "VInt int64_type (word_of_int (int ?n)) = v" using k VInt by simp
  have "lexes_as number_end (decimal_nat ?n) (one_token number_token (decimal_nat ?n) v)"
    using lexes_as_token [OF lexes_number [OF n]] unfolding v .
  then have l: "lexes_as number_end (decimal_nat ?n) (\<lambda>ts. gram fmt (engine_compile fmt) 12 ts (literal_node v))"
    by (rule lexes_as_mono) (auto simp: one_token_def intro: gram_literal_token)
  have digit: "isdigit (hd (decimal_nat ?n))" by (rule decimal_nat_digits [of _ ?n]) simp
  have "balanced (decimal_nat ?n)"
    using decimal_nat_digits [of _ ?n] by (intro balanced_no_braces) (force simp: list_all_iff isdigit_def)
  with l digit show ?thesis
    by (intro closed_reads_back [where l = 12 and ok = number_end])
       (auto simp: text' is_member_chain_def isdigit_def)
next
  case (VBool b)
  let ?w = "if b then ''true'' else ''false''"
  have text': "literal_to_string enc v = ?w"
    using assms(1) VBool by (simp add: literal_to_string_def prints_scalars_def)
  have "lexes_as word_end ?w (one_token number_token ?w v)"
    using lexes_as_token [OF lexes_bool [of b]] VBool by simp
  then have l: "lexes_as word_end ?w (\<lambda>ts. gram fmt (engine_compile fmt) 12 ts (literal_node v))"
    by (rule lexes_as_mono) (auto simp: one_token_def intro: gram_literal_token)
  have "balanced ?w" by (rule balanced_no_braces) simp
  with l show ?thesis
    by (intro closed_reads_back [where l = 12 and ok = word_end])
       (auto simp: text' is_member_chain_def number_end_word_end)
next
  case (VString s)
  then have s: "plain_text s" using assms(2) by simp
  let ?w = "[CHR 0x22] @ s @ [CHR 0x22]"
  have text': "literal_to_string enc v = ?w" using VString by (simp add: literal_to_string_def)
  have "lexes_as anything ?w (one_token string_token ?w v)"
    using lexes_as_token [OF lexes_string [OF s]] VString by simp
  then have l: "lexes_as anything ?w (\<lambda>ts. gram fmt (engine_compile fmt) 12 ts (literal_node v))"
    by (rule lexes_as_mono) (auto simp: one_token_def intro: gram_literal_token)
  have "balanced ?w"
    using s by (intro balanced_no_braces) (auto simp: plain_text_def plain_char_def list_all_iff)
  with l show ?thesis
    by (intro closed_reads_back [where l = 12 and ok = anything])
       (auto simp: text' is_member_chain_def anythingI)
qed (use assms(2) in simp_all)

lemma reads_backD:
  assumes "node_reads_back fmt enc n"
  shows "node_to_string enc n \<noteq> []" "hd (node_to_string enc n) \<noteq> CHR ''=''"
    "balanced (node_to_string enc n)"
    "lexes_as number_end (node_to_string enc n) (\<lambda>ts. gram fmt (engine_compile fmt) 11 ts n)"
    "is_member_chain n \<Longrightarrow>
        lexes_as word_end (node_to_string enc n) (\<lambda>ts. gram_chain fmt (engine_compile fmt) ts n)"
  using assms by (simp_all add: node_reads_back_def)

lemma reads_back_at:
  assumes "node_reads_back fmt enc n" "l \<le> 11"
  shows "lexes_as number_end (node_to_string enc n) (\<lambda>ts. gram fmt (engine_compile fmt) l ts n)"
  by (rule lexes_as_mono [OF reads_backD(4) [OF assms(1)]]) (auto intro: gram_ups simp: assms(2))

lemma balanced_chars: "balanced ''('' \<and> balanced '')'' \<and> balanced '','' \<and> balanced ''.'' \<and> balanced '' '' \<and>
    balanced ''?'' \<and> balanced '':'' \<and> balanced ''$'' \<and> balanced [CHR 0x22]"
  by (simp add: balanced_char)

lemma balanced_operators: "balanced (unary_operator_text op)" "balanced (binary_operator_text op)"
  by (cases op; simp add: unary_operator_text_def binary_operator_text_def balanced_no_braces)+

lemma variable_reads_back:
  assumes "is_name name"
  shows "node_reads_back fmt enc (variable_node name)"
proof (rule chain_reads_back)
  show "lexes_as word_end (node_to_string enc (variable_node name))
      (\<lambda>ts. gram_chain fmt (engine_compile fmt) ts (variable_node name))"
    unfolding node_to_string.simps
    by (rule lexes_as_mono [OF name_facts(4) [OF assms]])
       (auto simp: one_token_def intro: chain_variable [of "make_token identifier_token name v p" for v p, simplified])
qed (use name_facts [OF assms] in \<open>simp_all add: is_member_chain_def\<close>)

lemma unary_reads_back:
  assumes op: "op \<in> set unary_operator_types" and n: "node_reads_back fmt enc n"
  shows "node_reads_back fmt enc (unary_op_node op n)"
proof (rule closed_reads_back [where l = 11 and ok = number_end])
  let ?o = "unary_operator_text op" and ?n = "node_to_string enc n"
  have "lexes_as number_end (?o @ ?n) (\<lambda>ts. \<exists>a b. ts = a @ b \<and>
      one_token (unary_token_type op) ?o VNull a \<and> gram fmt (engine_compile fmt) 11 b n)"
    by (rule lexes_as_append [OF lexes_as_token [OF lexes_unary_operator [OF op]] reads_backD(4) [OF n]])
       (use reads_backD(1,2) [OF n] in \<open>simp add: not_before_equals_def\<close>)
  moreover have "map_of unary_operators (unary_token_type op) = Some op"
    using op by (auto simp: unary_operator_types_def unary_operators_def unary_token_type_def)
  ultimately show "lexes_as number_end (node_to_string enc (unary_op_node op n))
      (\<lambda>ts. gram fmt (engine_compile fmt) 11 ts (unary_op_node op n))"
    unfolding node_to_string.simps
    by (elim lexes_as_mono)
       (auto simp: one_token_def intro!: gram_unary)
  show "node_to_string enc (unary_op_node op n) \<noteq> []"
    "hd (node_to_string enc (unary_op_node op n)) \<noteq> CHR ''=''"
    using op reads_backD(1) [OF n] by (auto simp: unary_operator_types_def unary_operator_text_def)
  show "balanced (node_to_string enc (unary_op_node op n))"
    using balanced_append balanced_operators(1) reads_backD(3) [OF n] by simp
qed (simp_all add: is_member_chain_def)

text \<open>A piece between parentheses, with the fixed texts of the node between its parts.\<close>

lemma lexes_as_then:
  assumes "lexes_as ok1 v G" "lexes_as anything w H" "\<And>rest. ok1 (w @ rest)"
  shows "lexes_as anything (v @ w) (\<lambda>ts. \<exists>a b. ts = a @ b \<and> G a \<and> H b)"
  by (rule lexes_as_append [OF assms(1,2)]) (rule assms(3))

lemma binary_reads_back:
  assumes op: "op \<notin> set unary_operator_types" and a: "node_reads_back fmt enc a" and b: "node_reads_back fmt enc b"
  shows "node_reads_back fmt enc (binary_op_node op a b)"
proof (rule closed_reads_back [where l = 12 and ok = anything])
  let ?o = "binary_operator_text op" and ?t = "binary_token_type op"
  let ?l = "token_level ?t" and ?G = "gram fmt (engine_compile fmt)"
  have lop: "map_of (level_operators ?l) ?t = Some op" "?l \<le> 10"
    using op by (cases op; simp add: unary_operator_types_def binary_token_type_def token_level_def
        level_operators_def)+
  have "lexes_as anything (''('' @ node_to_string enc a @ '' '' @ ?o @ '' '' @ node_to_string enc b @ '')'')
      (\<lambda>ts. \<exists>p us. ts = p @ us \<and> one_token left_paren_token ''('' VNull p \<and> (\<exists>as vs. us = as @ vs \<and>
        ?G ?l as a \<and> (\<exists>s ws. vs = s @ ws \<and> s = [] \<and> (\<exists>os xs. ws = os @ xs \<and> one_token ?t ?o VNull os \<and>
        (\<exists>s' ys. xs = s' @ ys \<and> s' = [] \<and> (\<exists>bs q. ys = bs @ q \<and> ?G (Suc ?l) bs b \<and>
        one_token right_paren_token '')'' VNull q))))))"
    by (rule lexes_as_then [OF lexes_as_punctuation(1)
          lexes_as_then [OF reads_back_at [OF a]
          lexes_as_then [OF lexes_as_space
          lexes_as_then [OF lexes_as_token [OF lexes_binary_operator [OF op]]
          lexes_as_then [OF lexes_as_space
          lexes_as_then [OF reads_back_at [OF b] lexes_as_punctuation(2)]]]]]])
       (use lop(2) punctuation_ends in \<open>simp_all add: anything_def before_space_def\<close>)
  then show "lexes_as anything (node_to_string enc (binary_op_node op a b))
      (\<lambda>ts. ?G 12 ts (binary_op_node op a b))"
  proof (simp only: node_to_string.simps, elim lexes_as_mono)
    fix ts
    assume "\<exists>p us. ts = p @ us \<and> one_token left_paren_token ''('' VNull p \<and> (\<exists>as vs. us = as @ vs \<and>
        ?G ?l as a \<and> (\<exists>s ws. vs = s @ ws \<and> s = [] \<and> (\<exists>os xs. ws = os @ xs \<and> one_token ?t ?o VNull os \<and>
        (\<exists>s' ys. xs = s' @ ys \<and> s' = [] \<and> (\<exists>bs q. ys = bs @ q \<and> ?G (Suc ?l) bs b \<and>
        one_token right_paren_token '')'' VNull q)))))"
    then obtain p as o' bs q where ts: "ts = [p] @ (as @ [o'] @ bs) @ [q]"
      and t: "tok_type p = left_paren_token" "tok_type o' = ?t" "tok_type q = right_paren_token"
      and g: "?G ?l as a" "?G (Suc ?l) bs b"
      by (auto simp: one_token_def)
    have "?G ?l (as @ [o'] @ bs) (binary_op_node op a b)" using lop(1) g t(2) by (intro gram_binary) simp_all
    then have "?G 0 (as @ [o'] @ bs) (binary_op_node op a b)" by (rule gram_ups) (use lop(2) in simp_all)
    then show "?G 12 ts (binary_op_node op a b)" unfolding ts using t by (intro gram_paren)
  qed
  show "balanced (node_to_string enc (binary_op_node op a b))"
    using balanced_chars balanced_operators(2) [of op] reads_backD(3) [OF a] reads_backD(3) [OF b]
    unfolding node_to_string.simps by (intro balanced_append) simp_all
qed (simp_all add: is_member_chain_def anythingI)

lemma conditional_reads_back:
  assumes c: "node_reads_back fmt enc c" and t: "node_reads_back fmt enc t" and f: "node_reads_back fmt enc f"
  shows "node_reads_back fmt enc (conditional_node c t f)"
proof (rule closed_reads_back [where l = 12 and ok = anything])
  let ?G = "gram fmt (engine_compile fmt)"
  have "lexes_as anything (''('' @ node_to_string enc c @ '' '' @ ''?'' @ '' '' @ node_to_string enc t @ '' '' @
        '':'' @ '' '' @ node_to_string enc f @ '')'')
      (\<lambda>ts. \<exists>p us. ts = p @ us \<and> one_token left_paren_token ''('' VNull p \<and> (\<exists>cs u1. us = cs @ u1 \<and>
        ?G 1 cs c \<and> (\<exists>s u2. u1 = s @ u2 \<and> s = [] \<and> (\<exists>qs u3. u2 = qs @ u3 \<and>
        one_token question_token ''?'' VNull qs \<and> (\<exists>s u4. u3 = s @ u4 \<and> s = [] \<and> (\<exists>tts u5. u4 = tts @ u5 \<and>
        ?G 1 tts t \<and> (\<exists>s u6. u5 = s @ u6 \<and> s = [] \<and> (\<exists>ks u7. u6 = ks @ u7 \<and>
        one_token colon_token '':'' VNull ks \<and> (\<exists>s u8. u7 = s @ u8 \<and> s = [] \<and> (\<exists>fs q. u8 = fs @ q \<and>
        ?G 0 fs f \<and> one_token right_paren_token '')'' VNull q))))))))))"
    by (rule lexes_as_then [OF lexes_as_punctuation(1)
          lexes_as_then [OF reads_back_at [OF c]
          lexes_as_then [OF lexes_as_space lexes_as_then [OF lexes_as_punctuation(5)
          lexes_as_then [OF lexes_as_space lexes_as_then [OF reads_back_at [OF t]
          lexes_as_then [OF lexes_as_space lexes_as_then [OF lexes_as_punctuation(6)
          lexes_as_then [OF lexes_as_space
          lexes_as_then [OF reads_back_at [OF f] lexes_as_punctuation(2)]]]]]]]]]])
       (use punctuation_ends in \<open>simp_all add: anything_def\<close>)
  then show "lexes_as anything (node_to_string enc (conditional_node c t f))
      (\<lambda>ts. ?G 12 ts (conditional_node c t f))"
  proof (simp, elim lexes_as_mono)
    fix ts
    assume "\<exists>p us. ts = p @ us \<and> one_token left_paren_token ''('' VNull p \<and> (\<exists>cs u1. us = cs @ u1 \<and>
        ?G (Suc 0) cs c \<and> (\<exists>qs u3. u1 = qs @ u3 \<and>
        one_token question_token ''?'' VNull qs \<and> (\<exists>tts u5. u3 = tts @ u5 \<and>
        ?G (Suc 0) tts t \<and> (\<exists>ks u7. u5 = ks @ u7 \<and>
        one_token colon_token '':'' VNull ks \<and> (\<exists>fs q. u7 = fs @ q \<and>
        ?G 0 fs f \<and> one_token right_paren_token '')'' VNull q)))))"
    then obtain p cs qt tts k fs q where ts: "ts = [p] @ (cs @ [qt] @ tts @ [k] @ fs) @ [q]"
      and t: "tok_type p = left_paren_token" "tok_type qt = question_token" "tok_type k = colon_token"
        "tok_type q = right_paren_token"
      and g: "?G 1 cs c" "?G 1 tts t" "?G 0 fs f"
      by (auto simp: one_token_def)
    show "?G 12 ts (conditional_node c t f)"
      unfolding ts using gram_cond [OF g(1) t(2) g(2) t(3) g(3)] t(1,4) by (intro gram_paren)
  qed simp
  show "balanced (node_to_string enc (conditional_node c t f))"
  proof -
    have "balanced '' ? ''" "balanced '' : ''" by (simp_all add: balanced_no_braces)
    then show ?thesis
      using balanced_chars reads_backD(3) [OF c] reads_backD(3) [OF t] reads_backD(3) [OF f]
      unfolding node_to_string.simps by (intro balanced_append) simp_all
  qed
qed (simp_all add: is_member_chain_def anythingI)

text \<open>The argument list of a call, from its opening parenthesis on.\<close>

lemma arguments_read_back:
  assumes "list_all (node_reads_back fmt enc) ns" "ns \<noteq> []"
  shows "lexes_as number_end (join '', '' (map (node_to_string enc) ns))
    (\<lambda>ts. gram_args fmt (engine_compile fmt) ts ns)"
  using assms
proof (induction ns)
  case (Cons n ns)
  have n: "lexes_as number_end (node_to_string enc n) (\<lambda>ts. gram fmt (engine_compile fmt) 0 ts n)"
    using Cons.prems(1) by (intro reads_back_at) simp_all
  show ?case
  proof (cases ns)
    case Nil
    with n show ?thesis by (simp, elim lexes_as_mono) (auto intro: args_one)
  next
    case (Cons m ms)
    then have IH: "lexes_as number_end (join '', '' (map (node_to_string enc) ns))
        (\<lambda>ts. gram_args fmt (engine_compile fmt) ts ns)"
      using Cons.IH Cons.prems(1) by simp
    have "lexes_as number_end (node_to_string enc n @ '','' @ '' '' @ join '', '' (map (node_to_string enc) ns))
      (\<lambda>ts. \<exists>a b. ts = a @ b \<and> gram fmt (engine_compile fmt) 0 a n \<and> (\<exists>c d. b = c @ d \<and>
        one_token comma_token '','' VNull c \<and> (\<exists>s e. d = s @ e \<and> s = [] \<and> gram_args fmt (engine_compile fmt) e ns)))"
      by (rule lexes_as_append [OF n lexes_as_append [OF lexes_as_punctuation(3)
            lexes_as_append [OF lexes_as_space IH]]])
         (use punctuation_ends in \<open>simp_all add: anything_def\<close>)
    then show ?thesis
    proof (simp add: Cons, elim lexes_as_mono)
      fix ts
      assume "\<exists>a b. ts = a @ b \<and> gram fmt (engine_compile fmt) 0 a n \<and> (\<exists>c d. b = c @ d \<and>
        one_token comma_token '','' VNull c \<and> gram_args fmt (engine_compile fmt) d (m # ms))"
      then obtain a c d where "ts = a @ [c] @ d" "gram fmt (engine_compile fmt) 0 a n"
          "tok_type c = comma_token" "gram_args fmt (engine_compile fmt) d (m # ms)"
        by (auto simp: one_token_def)
      then show "gram_args fmt (engine_compile fmt) ts (n # m # ms)" by (simp only: gram_args_cons)
    qed simp
  qed
qed simp

lemma call_reads_back:
  assumes "list_all (node_reads_back fmt enc) ns"
  shows "lexes_as anything (''('' @ join '', '' (map (node_to_string enc) ns) @ '')'')
    (\<lambda>ts. gram_call fmt (engine_compile fmt) ts ns)"
proof (cases "ns = []")
  case True
  have "lexes_as anything (''('' @ '')'') (\<lambda>ts. \<exists>a b. ts = a @ b \<and>
      one_token left_paren_token ''('' VNull a \<and> one_token right_paren_token '')'' VNull b)"
    by (rule lexes_as_then [OF lexes_as_punctuation(1,2) anythingI])
  with True show ?thesis
    by (simp, elim lexes_as_mono) (auto simp: one_token_def intro!: call_empty)
next
  case False
  have "lexes_as anything (''('' @ join '', '' (map (node_to_string enc) ns) @ '')'')
      (\<lambda>ts. \<exists>a b. ts = a @ b \<and> one_token left_paren_token ''('' VNull a \<and> (\<exists>c d. b = c @ d \<and>
        gram_args fmt (engine_compile fmt) c ns \<and> one_token right_paren_token '')'' VNull d))"
    by (rule lexes_as_then [OF lexes_as_punctuation(1)
          lexes_as_then [OF arguments_read_back [OF assms False] lexes_as_punctuation(2)]])
       (use punctuation_ends in \<open>simp_all add: anything_def\<close>)
  then show ?thesis
  proof (elim lexes_as_mono)
    fix ts
    assume "\<exists>a b. ts = a @ b \<and> one_token left_paren_token ''('' VNull a \<and> (\<exists>c d. b = c @ d \<and>
        gram_args fmt (engine_compile fmt) c ns \<and> one_token right_paren_token '')'' VNull d)"
    then obtain a c d where "ts = [a] @ c @ [d]" "tok_type a = left_paren_token"
        "gram_args fmt (engine_compile fmt) c ns" "tok_type d = right_paren_token"
      by (auto simp: one_token_def)
    then show "gram_call fmt (engine_compile fmt) ts ns" by (simp only: call_args)
  qed
qed

lemma balanced_join: "list_all balanced xs \<Longrightarrow> balanced (join '', '' xs)"
proof (induction "'', ''" xs rule: join.induct)
  case (3 x y xs)
  have "balanced '', ''" by (simp add: balanced_no_braces)
  with 3 show ?case unfolding join.simps by (intro balanced_append) simp_all
qed (simp_all add: balanced_Nil)

lemma balanced_call:
  "list_all (node_reads_back fmt enc) ns \<Longrightarrow>
     balanced (''('' @ join '', '' (map (node_to_string enc) ns) @ '')'')"
  using balanced_chars
  by (intro balanced_append balanced_join) (auto simp: list_all_iff dest: reads_backD(3))

lemma function_reads_back:
  assumes name: "is_name name" and ns: "list_all (node_reads_back fmt enc) ns"
  shows "node_reads_back fmt enc (function_call_node name ns)"
proof (rule closed_reads_back [where l = 12 and ok = anything])
  let ?G = "gram fmt (engine_compile fmt)"
  have "lexes_as anything (name @ ''('' @ join '', '' (map (node_to_string enc) ns) @ '')'')
      (\<lambda>ts. \<exists>a b. ts = a @ b \<and> one_token identifier_token name (VString name) a \<and>
        gram_call fmt (engine_compile fmt) b ns)"
    by (rule lexes_as_then [OF name_facts(4) [OF name] call_reads_back [OF ns]])
       (use punctuation_ends in simp)
  then show "lexes_as anything (node_to_string enc (function_call_node name ns))
      (\<lambda>ts. ?G 12 ts (function_call_node name ns))"
  proof (simp only: node_to_string.simps, elim lexes_as_mono)
    fix ts
    assume "\<exists>a b. ts = a @ b \<and> one_token identifier_token name (VString name) a \<and>
        gram_call fmt (engine_compile fmt) b ns"
    then obtain i b where "ts = i # b" "tok_type i = identifier_token" "tok_lexeme i = name"
        "gram_call fmt (engine_compile fmt) b ns"
      by (auto simp: one_token_def)
    then show "?G 12 ts (function_call_node name ns)" using gram_function [of i fmt] by auto
  qed
  show "balanced (node_to_string enc (function_call_node name ns))"
    unfolding node_to_string.simps by (intro balanced_append name_facts(3) [OF name] balanced_call [OF ns])
qed (use name_facts(1,2) [OF name] in \<open>simp_all add: is_member_chain_def anythingI\<close>)

lemma property_reads_back:
  assumes obj: "node_reads_back fmt enc obj" "is_member_chain obj" and name: "is_name name"
  shows "node_reads_back fmt enc (property_access_node obj name)"
proof (rule chain_reads_back)
  have "lexes_as word_end (node_to_string enc obj @ ''.'' @ name)
      (\<lambda>ts. \<exists>a b. ts = a @ b \<and> gram_chain fmt (engine_compile fmt) a obj \<and> (\<exists>c d. b = c @ d \<and>
        one_token dot_token ''.'' VNull c \<and> one_token identifier_token name (VString name) d))"
    by (rule lexes_as_append [OF reads_backD(5) [OF obj] lexes_as_append [OF lexes_as_punctuation(4)
          name_facts(4) [OF name]]])
       (use punctuation_ends in \<open>simp_all add: anything_def\<close>)
  then show "lexes_as word_end (node_to_string enc (property_access_node obj name))
      (\<lambda>ts. gram_chain fmt (engine_compile fmt) ts (property_access_node obj name))"
  proof (simp only: node_to_string.simps, elim lexes_as_mono)
    fix ts
    assume "\<exists>a b. ts = a @ b \<and> gram_chain fmt (engine_compile fmt) a obj \<and> (\<exists>c d. b = c @ d \<and>
        one_token dot_token ''.'' VNull c \<and> one_token identifier_token name (VString name) d)"
    then obtain a d i where "ts = a @ [d, i]" "gram_chain fmt (engine_compile fmt) a obj"
        "tok_type d = dot_token" "tok_type i = identifier_token" "tok_lexeme i = name"
      by (auto simp: one_token_def)
    then show "gram_chain fmt (engine_compile fmt) ts (property_access_node obj name)"
      using chain_property [of fmt "engine_compile fmt" a obj d i] by simp
  qed
  show "balanced (node_to_string enc (property_access_node obj name))"
    using balanced_chars unfolding node_to_string.simps
    by (intro balanced_append reads_backD(3) [OF obj(1)] name_facts(3) [OF name]) simp
qed (use reads_backD(1,2) [OF obj(1)] in \<open>simp_all add: is_member_chain_def\<close>)

lemma method_reads_back:
  assumes obj: "node_reads_back fmt enc obj" "is_member_chain obj" and name: "is_name name"
    and ns: "list_all (node_reads_back fmt enc) ns"
  shows "node_reads_back fmt enc (object_method_call_node obj name ns)"
proof (rule chain_reads_back)
  let ?C = "gram_call fmt (engine_compile fmt)"
  have "lexes_as anything (node_to_string enc obj @ ''.'' @ name @ ''('' @
        join '', '' (map (node_to_string enc) ns) @ '')'')
      (\<lambda>ts. \<exists>a b. ts = a @ b \<and> gram_chain fmt (engine_compile fmt) a obj \<and> (\<exists>c d. b = c @ d \<and>
        one_token dot_token ''.'' VNull c \<and> (\<exists>e f. d = e @ f \<and>
        one_token identifier_token name (VString name) e \<and> ?C f ns)))"
    by (rule lexes_as_then [OF reads_backD(5) [OF obj] lexes_as_then [OF lexes_as_punctuation(4)
          lexes_as_then [OF name_facts(4) [OF name] call_reads_back [OF ns]]]])
       (use punctuation_ends in \<open>simp_all add: anything_def\<close>)
  then show "lexes_as word_end (node_to_string enc (object_method_call_node obj name ns))
      (\<lambda>ts. gram_chain fmt (engine_compile fmt) ts (object_method_call_node obj name ns))"
  proof (simp only: node_to_string.simps, elim lexes_as_mono)
    fix ts
    assume "\<exists>a b. ts = a @ b \<and> gram_chain fmt (engine_compile fmt) a obj \<and> (\<exists>c d. b = c @ d \<and>
        one_token dot_token ''.'' VNull c \<and> (\<exists>e f. d = e @ f \<and>
        one_token identifier_token name (VString name) e \<and> ?C f ns))"
    then obtain a d i f where "ts = a @ [d, i] @ f" "gram_chain fmt (engine_compile fmt) a obj"
        "tok_type d = dot_token" "tok_type i = identifier_token" "tok_lexeme i = name" "?C f ns"
      by (auto simp: one_token_def)
    then show "gram_chain fmt (engine_compile fmt) ts (object_method_call_node obj name ns)"
      using chain_method [of fmt "engine_compile fmt" a obj d i f ns] by simp
  qed (rule anythingI)
  show "balanced (node_to_string enc (object_method_call_node obj name ns))"
    using balanced_chars unfolding node_to_string.simps
    by (intro balanced_append reads_backD(3) [OF obj(1)] name_facts(3) [OF name] balanced_call [OF ns]) simp
qed (use reads_backD(1,2) [OF obj(1)] in \<open>simp_all add: is_member_chain_def\<close>)

text \<open>An expression of a template is compiled by itself.\<close>

lemma reads_back_compiles:
  assumes "node_reads_back fmt enc n"
  shows "engine_compile fmt (node_to_string enc n) = Inr n"
proof -
  obtain ts where ts: "lexes number_end (node_to_string enc n) ts"
      "gram fmt (engine_compile fmt) 11 (ts 0) n"
    using reads_backD(4) [OF assms] unfolding lexes_as_def by blast
  have "scan_tokens (new_lexer (node_to_string enc n)) =
      Inr (ts 0 @ [make_token end_of_file_token [] VNull (length (node_to_string enc n))])"
    by (rule lexes_source [OF ts(1)]) (simp add: number_end_def)
  moreover have "gram fmt (engine_compile fmt) 0 (ts 0) n" by (rule gram_ups [OF ts(2)]) simp_all
  ultimately show ?thesis by (rule compile_main)
qed

lemma later_tokens_parts:
  assumes "tp e = Inr n" "list_all2 (\<lambda>s m. tp s = Inr m) es ns" "length ts = length es"
  shows "gram_parts fmt tp (make_token template_expr_token e v q # later_tokens p t ts es) (t # ts) (n # ns)"
  using assms
proof (induction es arbitrary: e n ns t ts p q v)
  case Nil
  then show ?case
    using parts_last [of "make_token template_expr_token e v q" tp n
        "make_token template_end_token (t @ [CHR 0x22]) (VString t) p" fmt]
    by (simp add: as_string_def)
next
  case (Cons e' es)
  obtain m ms where ns: "ns = m # ms" using Cons.prems(2) by (cases ns) auto
  obtain t' ts' where ts: "ts = t' # ts'" using Cons.prems(3) by (cases ts) auto
  have "gram_parts fmt tp (make_token template_expr_token e' (VString e') (p + length t + 2) #
      later_tokens (p + length t + 3 + length e') t' ts' es) (t' # ts') (m # ms)"
    using Cons.prems ns ts by (intro Cons.IH) simp_all
  from parts_more [OF _ _ _ this, of "make_token template_expr_token e v q" n
      "make_token template_middle_token t (VString t) p"] Cons.prems(1)
  show ?case by (simp add: ns ts as_string_def)
qed

lemma template_reads_back:
  assumes texts: "list_all plain_text texts" "length texts = length es + 1" and "es \<noteq> []"
    and es: "list_all (node_reads_back fmt enc) es"
  shows "node_reads_back fmt enc (template_string_node texts es)"
proof (rule closed_reads_back [where l = 12 and ok = anything])
  let ?EC = "engine_compile fmt" and ?ss = "map (node_to_string enc) es"
  obtain t ts where t: "texts = t # ts" "length ts = length es" using texts(2) by (cases texts) auto
  obtain n ns where n: "es = n # ns" using assms(3) by (cases es) auto
  obtain t' ts' where t': "ts = t' # ts'" "length ts' = length ns" using t(2) n by (cases ts) auto
  have comp: "list_all2 (\<lambda>s m. ?EC s = Inr m) ?ss es"
    using es by (auto simp: list_all2_conv_all_nth list_all_length reads_back_compiles)
  have bal: "list_all balanced ?ss"
    using es by (auto simp: list_all_iff reads_backD(3))
  have text': "node_to_string enc (template_string_node texts es) =
      [CHR 0x22] @ t @ template_parts_to_string ts ?ss @ [CHR 0x22]" by (simp add: t)
  have lex': "lexes_as anything ([CHR 0x22] @ t @ template_parts_to_string ts ?ss @ [CHR 0x22])
      (\<lambda>us. \<exists>p. us = template_tokens p t ts ?ss)"
    using lexes_template [of t ts ?ss] texts t bal assms(3) unfolding lexes_as_def by auto
  show "lexes_as anything (node_to_string enc (template_string_node texts es))
      (\<lambda>us. gram fmt ?EC 12 us (template_string_node texts es))"
    unfolding text'
  proof (rule lexes_as_mono [OF lex'], assumption)
    fix us
    assume "\<exists>p. us = template_tokens p t ts ?ss"
    then obtain p where us: "us = template_tokens p t ts ?ss" ..
    have "gram_parts fmt ?EC (make_token template_expr_token (node_to_string enc n)
          (VString (node_to_string enc n)) (p + length t + 3) #
        later_tokens (p + length t + 4 + length (node_to_string enc n)) t' ts' (map (node_to_string enc) ns))
        (t' # ts') (n # ns)"
      using comp n t' by (intro later_tokens_parts) simp_all
    from gram_template [OF _ this, of "make_token template_start_token (CHR 0x22 # t) (VString t) p"]
    show "gram fmt ?EC 12 us (template_string_node texts es)"
      by (simp add: us template_tokens_def t(1) n t' as_string_def)
  qed
  have parts: "balanced (template_parts_to_string xs ys)"
    if "list_all plain_text xs" "list_all balanced ys" "length xs = length ys" for xs ys
    using that
  proof (induction xs ys rule: template_parts_to_string.induct)
    case (2 xs y ys)
    then obtain x xs' where xs: "xs = x # xs'" by (cases xs) auto
    have "balanced x"
      using 2 by (intro balanced_no_braces) (auto simp: xs plain_text_def plain_char_def list_all_iff)
    moreover have "balanced (template_parts_to_string xs' ys)" using 2 xs by simp
    moreover have "balanced y" using 2 by simp
    ultimately have "balanced (''$'' @ (''{'' @ y @ ''}'') @ x @ template_parts_to_string xs' ys)"
      using balanced_chars by (intro balanced_append balanced_braces) simp_all
    then show ?case by (simp add: xs)
  qed (simp add: balanced_Nil)
  have "balanced t"
    using texts t by (intro balanced_no_braces) (auto simp: plain_text_def plain_char_def list_all_iff)
  then have "balanced ([CHR 0x22] @ t @ template_parts_to_string ts ?ss @ [CHR 0x22])"
    using balanced_chars texts t bal by (intro balanced_append parts) simp_all
  then show "balanced (node_to_string enc (template_string_node texts es))" by (simp add: t)
qed (simp_all add: is_member_chain_def anythingI)

lemma printable_reads_back:
  assumes "prints_scalars enc" "printable n"
  shows "node_reads_back fmt enc n"
  using assms(2)
proof (induction n)
  case (literal_node v)
  then show ?case using assms(1) by (intro literal_reads_back)
qed (auto simp: list_all_iff intro!: variable_reads_back unary_reads_back binary_reads_back
  conditional_reads_back function_reads_back property_reads_back method_reads_back template_reads_back)

text \<open>
  C21. Compiling the text of a printable node gives the node back: for every expression built from
  identifiers, non-negative integers, booleans, plain strings, all operators, conditionals, calls,
  member chains and template strings, the printer, the lexer and the parser agree on operators,
  parentheses, precedence and the embedded expressions. A plain string has no quotes, backslashes, braces, dollar
  signs or zero bytes; doubles and negative literals are not printable nodes.
\<close>

theorem compile_node_to_string:
  "prints_scalars enc \<Longrightarrow> printable n \<Longrightarrow> engine_compile fmt (node_to_string enc n) = Inr n"
  by (intro reads_back_compiles printable_reads_back)

theorem compile_node_to_string_witness:
  "engine_compile (\<lambda>v. '''') ''(a.b(1, true) + -f(x))'' =
     Inr (binary_op_node add_op
       (object_method_call_node (variable_node ''a'') ''b''
          [literal_node (VInt int64_type 1), literal_node (VBool True)])
       (unary_op_node neg_op (function_call_node ''f'' [variable_node ''x''])))"
proof -
  let ?enc = "variant_text id"
  let ?n = "binary_op_node add_op
       (object_method_call_node (variable_node ''a'') ''b''
          [literal_node (VInt int64_type 1), literal_node (VBool True)])
       (unary_op_node neg_op (function_call_node ''f'' [variable_node ''x'']))"
  have p: "prints_scalars ?enc" by (rule variant_text_prints_scalars)
  moreover have "printable ?n" by code_simp
  ultimately have "engine_compile (\<lambda>v. '''') (node_to_string ?enc ?n) = Inr ?n"
    by (rule compile_node_to_string)
  moreover have "node_to_string ?enc ?n = ''(a.b(1, true) + -f(x))''" by code_simp
  ultimately show ?thesis by (simp only:)
qed

end
