(* ===== verification/VariantOps.thy ===== *)
theory VariantOps
  imports Prelude NumberText Float64 Variant Json
begin

text \<open>
  Conversions and operators of values: \<^verbatim>\<open>libraries/mcbase/src/variant/variant_base.cpp\<close>
  (\<^verbatim>\<open>as_int64\<close> to \<^verbatim>\<open>as_string\<close>, \<^verbatim>\<open>set_value\<close>), \<^verbatim>\<open>variant_base_op.cpp\<close> and
  \<^verbatim>\<open>variant_base_cmp_op.cpp\<close>. A value is what an operand holds: that containers share their
  data between copies is not modelled, and a dict is only compared with another dict object.
  An extension is its opaque payload, its virtual methods are the record \<open>extension_methods\<close>.
  Signed overflow, the division of the least integer by \<open>- 1\<close> and the conversion of a double out
  of range are the outcome \<open>undefined_behaviour\<close>; a left shift of a signed integer is the shift
  of its bits, as the compilers document.
\<close>

section \<open>Kinds of values\<close>

record extension_methods =
  ext_as_int64 :: "string \<Rightarrow> i64 result"
  ext_as_uint64 :: "string \<Rightarrow> u64 result"
  ext_as_bool :: "string \<Rightarrow> bool result"
  ext_as_double :: "string \<Rightarrow> u64 result"
  ext_as_string :: "string \<Rightarrow> string"
  ext_equals :: "string \<Rightarrow> string \<Rightarrow> bool"

datatype type_id = null_type | int_type int_kind | uint_type uint_kind | double_type | bool_type
  | string_type | array_type | object_type | blob_type | extension_type

fun type_of :: "variant \<Rightarrow> type_id" where
  "type_of VNull = null_type"
| "type_of (VInt k _) = int_type k"
| "type_of (VUInt k _) = uint_type k"
| "type_of (VDouble _) = double_type"
| "type_of (VBool _) = bool_type"
| "type_of (VString _) = string_type"
| "type_of (VArray _) = array_type"
| "type_of (VObject _) = object_type"
| "type_of (VBlob _) = blob_type"
| "type_of (VExtension _) = extension_type"

definition is_signed_integer :: "variant \<Rightarrow> bool" where
  "is_signed_integer v \<longleftrightarrow> (case type_of v of int_type _ \<Rightarrow> True | _ \<Rightarrow> False)"

definition is_unsigned_integer :: "variant \<Rightarrow> bool" where
  "is_unsigned_integer v \<longleftrightarrow> (case type_of v of uint_type _ \<Rightarrow> True | _ \<Rightarrow> False)"

definition is_integer :: "variant \<Rightarrow> bool" where
  "is_integer v \<longleftrightarrow>
     (case type_of v of int_type _ \<Rightarrow> True | uint_type _ \<Rightarrow> True | bool_type \<Rightarrow> True | _ \<Rightarrow> False)"

definition is_double :: "variant \<Rightarrow> bool" where
  "is_double v \<longleftrightarrow> type_of v = double_type"

definition is_bool :: "variant \<Rightarrow> bool" where
  "is_bool v \<longleftrightarrow> type_of v = bool_type"

definition is_text :: "variant \<Rightarrow> bool" where
  "is_text v \<longleftrightarrow> type_of v = string_type \<or> type_of v = blob_type"

section \<open>Conversions\<close>

text \<open>\<^verbatim>\<open>to_number<T>\<close> around \<^verbatim>\<open>try_to_number<T>\<close>.\<close>

definition to_number :: "'a option \<Rightarrow> 'a result" where
  "to_number r = (case r of None \<Rightarrow> Inl bad_cast_exception | Some x \<Rightarrow> Inr x)"

definition text_to_int64 :: "string \<Rightarrow> i64 result" where
  "text_to_int64 s = to_number (map_option word_of_int (try_to_int64 s 0))"

definition text_to_uint64 :: "string \<Rightarrow> u64 result" where
  "text_to_uint64 s = to_number (map_option word_of_int (try_to_uint64 s 0))"

definition text_to_double :: "string \<Rightarrow> u64 result" where
  "text_to_double s = to_number (try_to_double s 0)"

definition iequals :: "string \<Rightarrow> string \<Rightarrow> bool" where
  "iequals a b \<longleftrightarrow> map lowercase a = map lowercase b"

definition try_to_bool :: "string \<Rightarrow> bool option" where
  "try_to_bool s =
     (if s = [] then Some False
      else if iequals s ''true'' \<or> s = ''1'' then Some True
      else if iequals s ''false'' \<or> s = ''0'' then Some False
      else None)"

definition to_bool_with_default :: "string \<Rightarrow> bool \<Rightarrow> bool" where
  "to_bool_with_default s dflt =
     (if s = [] then False else case try_to_bool s of Some b \<Rightarrow> b | None \<Rightarrow> dflt)"

fun as_int64 :: "extension_methods \<Rightarrow> variant \<Rightarrow> i64 result" where
  "as_int64 m (VInt _ i) = Inr i"
| "as_int64 m (VUInt _ u) = Inr u"
| "as_int64 m (VDouble x) = f64_to_int64 x"
| "as_int64 m (VBool b) = Inr (if b then 1 else 0)"
| "as_int64 m (VString s) = text_to_int64 s"
| "as_int64 m (VBlob s) = text_to_int64 s"
| "as_int64 m (VExtension x) = ext_as_int64 m x"
| "as_int64 m _ = Inl invalid_arg_exception"

fun as_uint64 :: "extension_methods \<Rightarrow> variant \<Rightarrow> u64 result" where
  "as_uint64 m (VUInt _ u) = Inr u"
| "as_uint64 m (VInt _ i) = Inr i"
| "as_uint64 m (VDouble x) = f64_to_uint64 x"
| "as_uint64 m (VBool b) = Inr (if b then 1 else 0)"
| "as_uint64 m (VString s) = text_to_uint64 s"
| "as_uint64 m (VBlob s) = text_to_uint64 s"
| "as_uint64 m (VExtension x) = ext_as_uint64 m x"
| "as_uint64 m _ = Inl invalid_arg_exception"

fun as_bool :: "extension_methods \<Rightarrow> bool \<Rightarrow> variant \<Rightarrow> bool result" where
  "as_bool m strict (VBool b) = Inr b"
| "as_bool m strict (VInt _ i) = Inr (i \<noteq> 0)"
| "as_bool m strict (VUInt _ u) = Inr (u \<noteq> 0)"
| "as_bool m strict (VDouble x) = Inr (\<not> f64_eq x 0)"
| "as_bool m strict (VString s) = Inr (to_bool_with_default s (\<not> strict))"
| "as_bool m strict (VBlob s) = Inr (to_bool_with_default s (\<not> strict))"
| "as_bool m strict (VExtension x) = ext_as_bool m x"
| "as_bool m strict VNull = Inr False"
| "as_bool m strict (VArray vs) = Inr (vs \<noteq> [])"
| "as_bool m strict (VObject es) = Inr (es \<noteq> [])"

fun as_double :: "extension_methods \<Rightarrow> variant \<Rightarrow> u64 result" where
  "as_double m (VDouble x) = Inr x"
| "as_double m (VInt _ i) = Inr (f64_of_int (sint i))"
| "as_double m (VUInt _ u) = Inr (f64_of_int (uint u))"
| "as_double m (VBool b) = Inr (if b then f64_of_int 1 else 0)"
| "as_double m (VString s) = text_to_double s"
| "as_double m (VBlob s) = text_to_double s"
| "as_double m (VExtension x) = ext_as_double m x"
| "as_double m _ = Inl invalid_arg_exception"

fun as_blob :: "extension_methods \<Rightarrow> variant \<Rightarrow> string result" where
  "as_blob m (VBlob s) = Inr s"
| "as_blob m (VString s) = Inr s"
| "as_blob m (VExtension x) = Inr (ext_as_string m x)"
| "as_blob m _ = Inl invalid_arg_exception"

text \<open>
  \<^verbatim>\<open>mc::to_string(double)\<close>: without a fraction when the value is integral or infinite, else at
  most six places. The text is printed into a buffer of 64 bytes; \<^verbatim>\<open>snprintf_s\<close> (\<^verbatim>\<open>securec.cpp\<close>) cuts it
  after 63 characters, and what it returns is not looked at.
\<close>

definition print_to_buffer :: "string \<Rightarrow> string" where
  "print_to_buffer s = take 63 s"

definition double_to_string :: "u64 \<Rightarrow> string" where
  "double_to_string x =
     (if f64_is_nan x then with_minus x ''nan''
      else if f64_is_inf x then with_minus x ''inf''
      else if 2 ^ 1074 dvd f64_magnitude x then print_to_buffer (double_fixed 0 x)
      else let s = strip_zeros (print_to_buffer (double_fixed 6 x))
           in if last s = CHR ''.'' then butlast s else s)"

fun variant_as_string :: "extension_methods \<Rightarrow> variant \<Rightarrow> string result" where
  "variant_as_string m (VString s) = Inr s"
| "variant_as_string m (VInt _ i) = Inr (decimal (sint i))"
| "variant_as_string m (VUInt _ u) = Inr (decimal (uint u))"
| "variant_as_string m (VDouble x) = Inr (double_to_string x)"
| "variant_as_string m (VBool b) = Inr (if b then ''true'' else ''false'')"
| "variant_as_string m VNull = Inr ''null''"
| "variant_as_string m (VBlob s) = Inr s"
| "variant_as_string m (VExtension x) = Inr (ext_as_string m x)"
| "variant_as_string m v = json_encode (ext_as_string m) default_encode_options v"

section \<open>Equality\<close>

text \<open>
  \<^verbatim>\<open>try_as<T>\<close> catches every exception. It is used at \<^verbatim>\<open>int64_t\<close> and \<^verbatim>\<open>uint64_t\<close> only where neither
  operand is a double, so that no conversion out of range is among the caught results
  (\<open>as_int64_defined\<close> below).
\<close>

definition try_as :: "'a result \<Rightarrow> 'a option" where
  "try_as r = (case r of Inl e \<Rightarrow> None | Inr x \<Rightarrow> Some x)"

text \<open>
  The comparisons of two operands of different types convert one operand to the type of the other:
  to a double if either is one, else to the type of the first numeric operand. \<open>numeric_compare\<close> is
  the scheme that \<^verbatim>\<open>other_type_equal\<close> and \<^verbatim>\<open>other_type_less\<close> share; \<open>None\<close> when neither block of
  the code returns.
\<close>

definition convert_compare ::
    "extension_methods \<Rightarrow> (u64 \<Rightarrow> u64 \<Rightarrow> bool) \<Rightarrow> (i64 \<Rightarrow> i64 \<Rightarrow> bool) \<Rightarrow> (u64 \<Rightarrow> u64 \<Rightarrow> bool) \<Rightarrow>
     (bool \<Rightarrow> bool \<Rightarrow> bool) \<Rightarrow> variant \<Rightarrow> variant \<Rightarrow> bool option" where
  "convert_compare m on_double on_int on_uint on_bool a b =
     (let left = (if is_numeric a \<and> (is_numeric b \<or> is_text b)
                  then case a of
                         VDouble x \<Rightarrow> map_option (on_double x) (try_as (as_double m b))
                       | _ \<Rightarrow> (case b of
                           VDouble y \<Rightarrow> map_option (\<lambda>x. on_double x y) (try_as (as_double m a))
                         | _ \<Rightarrow> (case a of
                             VInt _ i \<Rightarrow> map_option (on_int i) (try_as (as_int64 m b))
                           | VUInt _ u \<Rightarrow> map_option (on_uint u) (try_as (as_uint64 m b))
                           | VBool p \<Rightarrow> map_option (on_bool p) (try_as (as_bool m False b))
                           | _ \<Rightarrow> None))
                  else None);
          right = (if is_numeric b \<and> (is_numeric a \<or> is_text a)
                   then case b of
                          VDouble y \<Rightarrow> map_option (\<lambda>x. on_double x y) (try_as (as_double m a))
                        | _ \<Rightarrow> (case a of
                            VDouble x \<Rightarrow> map_option (on_double x) (try_as (as_double m b))
                          | _ \<Rightarrow> (case b of
                              VInt _ j \<Rightarrow> map_option (\<lambda>i. on_int i j) (try_as (as_int64 m a))
                            | VUInt _ w \<Rightarrow> map_option (\<lambda>u. on_uint u w) (try_as (as_uint64 m a))
                            | VBool q \<Rightarrow> map_option (\<lambda>p. on_bool p q) (try_as (as_bool m False a))
                            | _ \<Rightarrow> None))
                   else None)
      in case left of Some r \<Rightarrow> Some r | None \<Rightarrow> right)"

definition other_type_equal :: "extension_methods \<Rightarrow> variant \<Rightarrow> variant \<Rightarrow> bool" where
  "other_type_equal m a b =
     (case convert_compare m float_equal (=) (=) (=) a b of Some r \<Rightarrow> r | None \<Rightarrow> False)"

text \<open>
  \<^verbatim>\<open>operator==\<close> with \<^verbatim>\<open>same_type_equal\<close>, and the loops over arrays (\<^verbatim>\<open>std::equal\<close>) and over the entries
  of a dict (\<^verbatim>\<open>dict::operator==\<close>), each of which is looked up in the other dict.
\<close>

function (sequential) variant_equal ::
    "extension_methods \<Rightarrow> (variant \<Rightarrow> variant \<Rightarrow> bool) \<Rightarrow> variant \<Rightarrow> variant \<Rightarrow> bool"
  and items_equal ::
    "extension_methods \<Rightarrow> (variant \<Rightarrow> variant \<Rightarrow> bool) \<Rightarrow> variant list \<Rightarrow> variant list \<Rightarrow> bool"
  and entries_equal ::
    "extension_methods \<Rightarrow> (variant \<Rightarrow> variant \<Rightarrow> bool) \<Rightarrow> (variant \<times> variant) list \<Rightarrow>
     (variant \<times> variant) list \<Rightarrow> bool" where
  "variant_equal m same_key a b =
     (if type_of a = type_of b then
        (case (a, b) of
           (VNull, VNull) \<Rightarrow> True
         | (VDouble x, VDouble y) \<Rightarrow> float_equal x y
         | (VInt _ i, VInt _ j) \<Rightarrow> i = j
         | (VUInt _ u, VUInt _ w) \<Rightarrow> u = w
         | (VBool p, VBool q) \<Rightarrow> p = q
         | (VString s, VString t) \<Rightarrow> s = t
         | (VArray vs, VArray ws) \<Rightarrow> length vs = length ws \<and> items_equal m same_key vs ws
         | (VObject es, VObject fs) \<Rightarrow> length es = length fs \<and> entries_equal m same_key es fs
         | (VBlob s, VBlob t) \<Rightarrow> s = t
         | (VExtension x, VExtension y) \<Rightarrow> ext_equals m x y
         | _ \<Rightarrow> False)
      else other_type_equal m a b)"
| "items_equal m same_key (v # vs) (w # ws) =
     (variant_equal m same_key v w \<and> items_equal m same_key vs ws)"
| "items_equal m same_key _ _ = True"
| "entries_equal m same_key [] fs = True"
| "entries_equal m same_key ((k, v) # es) fs =
     (case find_entry same_key fs k of
        None \<Rightarrow> False
      | Some w \<Rightarrow> variant_equal m same_key v w \<and> entries_equal m same_key es fs)"
  by pat_completeness auto
termination
  by (relation "measure
        (\<lambda>x. case x of Inl (m, sk, v, w) \<Rightarrow> size v
              | Inr (Inl (m, sk, vs, ws)) \<Rightarrow> size_list size vs
              | Inr (Inr (m, sk, es, fs)) \<Rightarrow> size_list (size_prod size size) es)") auto

declare variant_equal.simps [simp del]

section \<open>Order\<close>

definition same_type_less :: "variant \<Rightarrow> variant \<Rightarrow> bool result" where
  "same_type_less a b =
     (case (a, b) of
        (VNull, VNull) \<Rightarrow> Inr False
      | (VInt _ i, VInt _ j) \<Rightarrow> Inr (i <s j)
      | (VUInt _ u, VUInt _ w) \<Rightarrow> Inr (u < w)
      | (VDouble x, VDouble y) \<Rightarrow> Inr (f64_less x y)
      | (VBool p, VBool q) \<Rightarrow> Inr (\<not> p \<and> q)
      | (VString s, VString t) \<Rightarrow> Inr (s < t)
      | (VBlob s, VBlob t) \<Rightarrow> Inr (s < t)
      | _ \<Rightarrow> Inl invalid_op_exception)"

definition other_type_less :: "extension_methods \<Rightarrow> variant \<Rightarrow> variant \<Rightarrow> bool result" where
  "other_type_less m a b =
     (case convert_compare m f64_less (<s) (<) (\<lambda>p q. \<not> p \<and> q) a b of
        Some r \<Rightarrow> Inr r
      | None \<Rightarrow>
          (case (a, b) of
             (VString s, VBlob t) \<Rightarrow> Inr (s < t)
           | (VBlob s, VString t) \<Rightarrow> Inr (s < t)
           | _ \<Rightarrow> Inl invalid_op_exception))"

definition variant_less :: "extension_methods \<Rightarrow> variant \<Rightarrow> variant \<Rightarrow> bool result" where
  "variant_less m a b =
     (if type_of a = type_of b then same_type_less a b else other_type_less m a b)"

definition variant_greater :: "extension_methods \<Rightarrow> variant \<Rightarrow> variant \<Rightarrow> bool result" where
  "variant_greater m a b = variant_less m b a"

definition involves_nan :: "variant \<Rightarrow> variant \<Rightarrow> bool" where
  "involves_nan a b =
     (case a of VDouble x \<Rightarrow> f64_is_nan x | _ \<Rightarrow> (case b of VDouble y \<Rightarrow> f64_is_nan y | _ \<Rightarrow> False))"

definition variant_less_eq :: "extension_methods \<Rightarrow> variant \<Rightarrow> variant \<Rightarrow> bool result" where
  "variant_less_eq m a b =
     (if involves_nan a b then Inr False
      else bind_result (variant_greater m a b) (\<lambda>r. Inr (\<not> r)))"

definition variant_greater_eq :: "extension_methods \<Rightarrow> variant \<Rightarrow> variant \<Rightarrow> bool result" where
  "variant_greater_eq m a b =
     (if involves_nan a b then Inr False
      else bind_result (variant_less m a b) (\<lambda>r. Inr (\<not> r)))"

section \<open>Comparison with texts\<close>

definition equal_to_text :: "variant \<Rightarrow> string \<Rightarrow> bool" where
  "equal_to_text v t =
     (case v of
        VString s \<Rightarrow> s = t
      | VBlob s \<Rightarrow> s = t
      | VDouble x \<Rightarrow> (case try_to_double t 0 of Some y \<Rightarrow> float_equal x y | None \<Rightarrow> False)
      | VInt _ i \<Rightarrow> (case try_to_int64 t 0 of Some j \<Rightarrow> sint i = j | None \<Rightarrow> False)
      | VUInt _ u \<Rightarrow> (case try_to_uint64 t 0 of Some w \<Rightarrow> uint u = w | None \<Rightarrow> False)
      | VBool p \<Rightarrow> (case try_to_bool t of Some q \<Rightarrow> p = q | None \<Rightarrow> False)
      | _ \<Rightarrow> False)"

definition less_than_text :: "variant \<Rightarrow> string \<Rightarrow> bool result" where
  "less_than_text v t =
     (let refused = Inl invalid_op_exception in
      case v of
        VString s \<Rightarrow> Inr (s < t)
      | VBlob s \<Rightarrow> Inr (s < t)
      | VDouble x \<Rightarrow> (case try_to_double t 0 of Some y \<Rightarrow> Inr (f64_less x y) | None \<Rightarrow> refused)
      | VInt _ i \<Rightarrow> (case try_to_int64 t 0 of Some j \<Rightarrow> Inr (sint i < j) | None \<Rightarrow> refused)
      | VUInt _ u \<Rightarrow> (case try_to_uint64 t 0 of Some w \<Rightarrow> Inr (uint u < w) | None \<Rightarrow> refused)
      | VBool p \<Rightarrow> (case try_to_bool t of Some q \<Rightarrow> Inr (\<not> p \<and> q) | None \<Rightarrow> refused)
      | _ \<Rightarrow> refused)"

definition greater_than_text :: "variant \<Rightarrow> string \<Rightarrow> bool result" where
  "greater_than_text v t =
     (let refused = Inl invalid_op_exception in
      case v of
        VString s \<Rightarrow> Inr (t < s)
      | VBlob s \<Rightarrow> Inr (t < s)
      | VDouble x \<Rightarrow> (case try_to_double t 0 of Some y \<Rightarrow> Inr (f64_less y x) | None \<Rightarrow> refused)
      | VInt _ i \<Rightarrow> (case try_to_int64 t 0 of Some j \<Rightarrow> Inr (j < sint i) | None \<Rightarrow> refused)
      | VUInt _ u \<Rightarrow> (case try_to_uint64 t 0 of Some w \<Rightarrow> Inr (w < uint u) | None \<Rightarrow> refused)
      | VBool p \<Rightarrow> (case try_to_bool t of Some q \<Rightarrow> Inr (p \<and> \<not> q) | None \<Rightarrow> refused)
      | _ \<Rightarrow> refused)"

section \<open>Arithmetic\<close>

text \<open>The result of a signed operation, if it is representable.\<close>

definition checked_int64 :: "int \<Rightarrow> variant result" where
  "checked_int64 r =
     (if - (2 ^ 63) \<le> r \<and> r < 2 ^ 63 then Inr (VInt int64_type (word_of_int r))
      else Inl undefined_behaviour)"

text \<open>\<^verbatim>\<open>catch (const std::exception&)\<close> around an operation; undefined behaviour is not caught.\<close>

definition invalid_op_on_error :: "'a result \<Rightarrow> 'a result" where
  "invalid_op_on_error r =
     (case r of
        Inr x \<Rightarrow> Inr x
      | Inl e \<Rightarrow> Inl (if e = undefined_behaviour then e else invalid_op_exception))"

text \<open>
  The scheme of the arithmetic operators: on doubles if either operand is one, on \<^verbatim>\<open>uint64_t\<close> if
  both are unsigned, else on \<^verbatim>\<open>int64_t\<close>.
\<close>

definition both :: "'a result \<Rightarrow> 'b result \<Rightarrow> ('a \<Rightarrow> 'b \<Rightarrow> 'c result) \<Rightarrow> 'c result" where
  "both r s f = bind_result r (\<lambda>x. bind_result s (f x))"

definition arithmetic ::
    "extension_methods \<Rightarrow> (u64 \<Rightarrow> u64 \<Rightarrow> u64) \<Rightarrow> (u64 \<Rightarrow> u64 \<Rightarrow> variant result) \<Rightarrow>
     (int \<Rightarrow> int \<Rightarrow> int) \<Rightarrow> variant \<Rightarrow> variant \<Rightarrow> variant result" where
  "arithmetic m on_double on_uint on_int a b =
     invalid_op_on_error
       (if is_double a \<or> is_double b
        then both (as_double m a) (as_double m b) (\<lambda>x y. Inr (VDouble (on_double x y)))
        else if is_unsigned_integer a \<and> is_unsigned_integer b
        then both (as_uint64 m a) (as_uint64 m b) on_uint
        else both (as_int64 m a) (as_int64 m b) (\<lambda>i j. checked_int64 (on_int (sint i) (sint j))))"

definition merge_entries ::
    "(variant \<Rightarrow> variant \<Rightarrow> bool) \<Rightarrow> (variant \<times> variant) list \<Rightarrow> (variant \<times> variant) list \<Rightarrow>
     (variant \<times> variant) list" where
  "merge_entries same_key es fs = fold (\<lambda>(k, v) ds. dict_set same_key k v ds) fs es"

text \<open>\<^verbatim>\<open>dict::operator+\<close> starts from an empty dict.\<close>

definition dict_plus ::
    "(variant \<Rightarrow> variant \<Rightarrow> bool) \<Rightarrow> (variant \<times> variant) list \<Rightarrow> (variant \<times> variant) list \<Rightarrow>
     (variant \<times> variant) list" where
  "dict_plus same_key es fs = merge_entries same_key (merge_entries same_key [] es) fs"

definition variant_add ::
    "extension_methods \<Rightarrow> (variant \<Rightarrow> variant \<Rightarrow> bool) \<Rightarrow> variant \<Rightarrow> variant \<Rightarrow> variant result" where
  "variant_add m same_key a b =
     (case (a, b) of
        (VString s, VString t) \<Rightarrow> Inr (VString (s @ t))
      | (VString s, VBlob t) \<Rightarrow> Inr (VString (s @ t))
      | (VString s, _) \<Rightarrow> bind_result (variant_as_string m b) (\<lambda>t. Inr (VString (s @ t)))
      | (_, VString t) \<Rightarrow> bind_result (variant_as_string m a) (\<lambda>s. Inr (VString (s @ t)))
      | (VBlob s, VBlob t) \<Rightarrow> Inr (VBlob (s @ t))
      | (VBlob s, _) \<Rightarrow> Inl invalid_op_exception
      | (VArray vs, VArray ws) \<Rightarrow> Inr (VArray (vs @ ws))
      | (VArray vs, _) \<Rightarrow> Inr (VArray (vs @ [b]))
      | (VObject es, VObject fs) \<Rightarrow> Inr (VObject (dict_plus same_key es fs))
      | (VObject es, _) \<Rightarrow> Inl invalid_op_exception
      | _ \<Rightarrow> arithmetic m f64_add (\<lambda>u w. Inr (VUInt uint64_type (u + w))) (+) a b)"

definition variant_sub :: "extension_methods \<Rightarrow> variant \<Rightarrow> variant \<Rightarrow> variant result" where
  "variant_sub m =
     arithmetic m f64_sub
       (\<lambda>u w. if u < w then checked_int64 (sint u - sint w) else Inr (VUInt uint64_type (u - w)))
       (-)"

definition variant_mul :: "extension_methods \<Rightarrow> variant \<Rightarrow> variant \<Rightarrow> variant result" where
  "variant_mul m = arithmetic m f64_mul (\<lambda>u w. Inr (VUInt uint64_type (u * w))) (*)"

text \<open>\<^verbatim>\<open>variant_divide<T>\<close> and \<^verbatim>\<open>variant_mod<T>\<close>: the conversions, the test for zero, the operation.\<close>

definition divide_operands ::
    "'a result \<Rightarrow> 'a result \<Rightarrow> ('a \<Rightarrow> bool) \<Rightarrow> ('a \<Rightarrow> 'a \<Rightarrow> variant result) \<Rightarrow> variant result" where
  "divide_operands r s zero f =
     (case try_as r of
        None \<Rightarrow> Inl invalid_op_exception
      | Some x \<Rightarrow>
          (case try_as s of
             None \<Rightarrow> Inl invalid_op_exception
           | Some y \<Rightarrow> if zero y then Inl divide_by_zero_exception else f x y))"

definition variant_div :: "extension_methods \<Rightarrow> variant \<Rightarrow> variant \<Rightarrow> variant result" where
  "variant_div m a b =
     (if is_double a \<or> is_double b \<or> is_bool a
      then divide_operands (as_double m a) (as_double m b) (\<lambda>y. f64_eq y 0)
             (\<lambda>x y. Inr (VDouble (f64_div x y)))
      else if is_unsigned_integer a \<and> is_unsigned_integer b
      then divide_operands (as_uint64 m a) (as_uint64 m b) (\<lambda>w. w = 0)
             (\<lambda>u w. Inr (VUInt uint64_type (u div w)))
      else divide_operands (as_int64 m a) (as_int64 m b) (\<lambda>j. j = 0)
             (\<lambda>i j. checked_int64 (sint i sdiv sint j)))"

text \<open>
  The remainder of signed integers: the quotient has to be representable. On doubles both operands
  are cast to \<^verbatim>\<open>int64_t\<close> behind the test for zero.
\<close>

definition int64_mod :: "i64 \<Rightarrow> i64 \<Rightarrow> variant result" where
  "int64_mod i j =
     (if j = 0 then Inl undefined_behaviour
      else bind_result (checked_int64 (sint i sdiv sint j)) (\<lambda>_. checked_int64 (sint i smod sint j)))"

definition variant_mod :: "extension_methods \<Rightarrow> variant \<Rightarrow> variant \<Rightarrow> variant result" where
  "variant_mod m a b =
     (if is_double a \<or> is_double b
      then divide_operands (as_double m a) (as_double m b) (\<lambda>y. f64_eq y 0)
             (\<lambda>x y. both (f64_to_int64 x) (f64_to_int64 y) int64_mod)
      else if is_unsigned_integer a \<and> is_unsigned_integer b
      then divide_operands (as_uint64 m a) (as_uint64 m b) (\<lambda>w. w = 0)
             (\<lambda>u w. Inr (VUInt uint64_type (u mod w)))
      else divide_operands (as_int64 m a) (as_int64 m b) (\<lambda>j. j = 0) int64_mod)"

section \<open>Bits\<close>

definition bitwise ::
    "extension_methods \<Rightarrow> (64 word \<Rightarrow> 64 word \<Rightarrow> 64 word) \<Rightarrow> variant \<Rightarrow> variant \<Rightarrow> variant result" where
  "bitwise m f a b =
     invalid_op_on_error
       (if is_unsigned_integer a \<and> is_unsigned_integer b
        then both (as_uint64 m a) (as_uint64 m b) (\<lambda>u w. Inr (VUInt uint64_type (f u w)))
        else both (as_int64 m a) (as_int64 m b) (\<lambda>i j. Inr (VInt int64_type (f i j))))"

definition variant_and :: "extension_methods \<Rightarrow> variant \<Rightarrow> variant \<Rightarrow> variant result" where
  "variant_and m = bitwise m (AND)"

definition variant_or :: "extension_methods \<Rightarrow> variant \<Rightarrow> variant \<Rightarrow> variant result" where
  "variant_or m = bitwise m (OR)"

definition variant_xor :: "extension_methods \<Rightarrow> variant \<Rightarrow> variant \<Rightarrow> variant result" where
  "variant_xor m = bitwise m (XOR)"

definition variant_shift_left :: "extension_methods \<Rightarrow> variant \<Rightarrow> variant \<Rightarrow> variant result" where
  "variant_shift_left m a b =
     invalid_op_on_error
       (bind_result (as_uint64 m b) (\<lambda>n.
          if 64 \<le> n then Inr (VInt int32_type 0)
          else if is_unsigned_integer a
          then bind_result (as_uint64 m a) (\<lambda>u. Inr (VUInt uint64_type (push_bit (unat n) u)))
          else bind_result (as_int64 m a) (\<lambda>i. Inr (VInt int64_type (push_bit (unat n) i)))))"

definition variant_shift_right :: "extension_methods \<Rightarrow> variant \<Rightarrow> variant \<Rightarrow> variant result" where
  "variant_shift_right m a b =
     invalid_op_on_error
       (bind_result (as_uint64 m b) (\<lambda>n.
          if 64 \<le> n then
            (if is_signed_integer a
             then bind_result (as_int64 m a) (\<lambda>i. Inr (VInt int32_type (if i <s 0 then - 1 else 0)))
             else Inr (VInt int32_type 0))
          else if is_unsigned_integer a
          then bind_result (as_uint64 m a) (\<lambda>u. Inr (VUInt uint64_type (drop_bit (unat n) u)))
          else bind_result (as_int64 m a) (\<lambda>i. Inr (VInt int64_type (signed_drop_bit (unat n) i)))))"

section \<open>Unary operators\<close>

definition variant_not_bits :: "extension_methods \<Rightarrow> variant \<Rightarrow> variant result" where
  "variant_not_bits m v =
     invalid_op_on_error
       (if is_unsigned_integer v
        then bind_result (as_uint64 m v) (\<lambda>u. Inr (VUInt uint64_type (NOT u)))
        else bind_result (as_int64 m v) (\<lambda>i. Inr (VInt int64_type (NOT i))))"

definition variant_negate :: "extension_methods \<Rightarrow> variant \<Rightarrow> variant result" where
  "variant_negate m v =
     invalid_op_on_error
       (case v of
          VDouble x \<Rightarrow> Inr (VDouble (f64_neg x))
        | VUInt _ u \<Rightarrow> checked_int64 (- sint u)
        | VInt _ i \<Rightarrow> checked_int64 (- sint i)
        | VBool b \<Rightarrow> Inr (VInt int32_type (if b then - 1 else 0))
        | _ \<Rightarrow> bind_result (as_int64 m v) (\<lambda>i. checked_int64 (- sint i)))"

definition variant_not :: "extension_methods \<Rightarrow> variant \<Rightarrow> variant result" where
  "variant_not m v = bind_result (as_bool m False v) (\<lambda>b. Inr (VBool (\<not> b)))"

section \<open>Assignment\<close>

text \<open>The casts \<^verbatim>\<open>as_int8\<close> to \<^verbatim>\<open>as_uint32\<close>, widened again to the 64 bits that are stored.\<close>

definition narrow_int :: "int_kind \<Rightarrow> i64 \<Rightarrow> i64" where
  "narrow_int k i =
     (case k of
        int8_type \<Rightarrow> scast (scast i :: 8 word)
      | int16_type \<Rightarrow> scast (scast i :: 16 word)
      | int32_type \<Rightarrow> scast (scast i :: 32 word)
      | int64_type \<Rightarrow> i)"

definition narrow_uint :: "uint_kind \<Rightarrow> u64 \<Rightarrow> u64" where
  "narrow_uint k u =
     (case k of
        uint8_type \<Rightarrow> ucast (ucast u :: 8 word)
      | uint16_type \<Rightarrow> ucast (ucast u :: 16 word)
      | uint32_type \<Rightarrow> ucast (ucast u :: 32 word)
      | uint64_type \<Rightarrow> u)"

definition as_array :: "variant \<Rightarrow> variant list result" where
  "as_array v = (case v of VArray vs \<Rightarrow> Inr vs | _ \<Rightarrow> Inl invalid_arg_exception)"

definition as_object :: "variant \<Rightarrow> (variant \<times> variant) list result" where
  "as_object v = (case v of VObject es \<Rightarrow> Inr es | _ \<Rightarrow> Inl invalid_arg_exception)"

definition as_extension :: "variant \<Rightarrow> string result" where
  "as_extension v = (case v of VExtension x \<Rightarrow> Inr x | _ \<Rightarrow> Inl invalid_arg_exception)"

text \<open>\<^verbatim>\<open>set_value(const variant_base&)\<close>: the kind of the assigned value stays.\<close>

definition set_value :: "extension_methods \<Rightarrow> variant \<Rightarrow> variant \<Rightarrow> variant result" where
  "set_value m v w =
     (case v of
        VInt k _ \<Rightarrow> bind_result (as_int64 m w) (\<lambda>i. Inr (VInt k (narrow_int k i)))
      | VUInt k _ \<Rightarrow> bind_result (as_uint64 m w) (\<lambda>u. Inr (VUInt k (narrow_uint k u)))
      | VDouble _ \<Rightarrow> bind_result (as_double m w) (\<lambda>x. Inr (VDouble x))
      | VBool _ \<Rightarrow> bind_result (as_bool m False w) (\<lambda>b. Inr (VBool b))
      | VString _ \<Rightarrow> bind_result (variant_as_string m w) (\<lambda>s. Inr (VString s))
      | VArray _ \<Rightarrow> bind_result (as_array w) (\<lambda>vs. Inr (VArray vs))
      | VObject _ \<Rightarrow> bind_result (as_object w) (\<lambda>es. Inr (VObject es))
      | VBlob _ \<Rightarrow> bind_result (as_blob m w) (\<lambda>s. Inr (VBlob s))
      | VExtension _ \<Rightarrow> bind_result (as_extension w) (\<lambda>x. Inr (VExtension x))
      | VNull \<Rightarrow> Inl invalid_arg_exception)"

text \<open>\<^verbatim>\<open>set_value(variant_base&&)\<close>: a value of the same type is swapped in.\<close>

definition move_value :: "extension_methods \<Rightarrow> variant \<Rightarrow> variant \<Rightarrow> variant result" where
  "move_value m v w = (if type_of v = type_of w then Inr w else set_value m v w)"

definition add_assign ::
    "extension_methods \<Rightarrow> (variant \<Rightarrow> variant \<Rightarrow> bool) \<Rightarrow> variant \<Rightarrow> variant \<Rightarrow> variant result" where
  "add_assign m same_key v w =
     (case v of
        VString s \<Rightarrow>
          (case w of
             VString t \<Rightarrow> Inr (VString (s @ t))
           | VBlob t \<Rightarrow> Inr (VString (s @ t))
           | _ \<Rightarrow> bind_result (variant_as_string m w) (\<lambda>t. Inr (VString (s @ t))))
      | VBlob s \<Rightarrow>
          (case w of
             VString t \<Rightarrow> Inr (VBlob (s @ t))
           | VBlob t \<Rightarrow> Inr (VBlob (s @ t))
           | _ \<Rightarrow> Inl invalid_op_exception)
      | VArray vs \<Rightarrow> (case w of VArray ws \<Rightarrow> Inr (VArray (vs @ ws)) | _ \<Rightarrow> Inr (VArray (vs @ [w])))
      | VObject es \<Rightarrow>
          (case w of
             VObject fs \<Rightarrow> Inr (VObject (merge_entries same_key es fs))
           | _ \<Rightarrow> Inl invalid_op_exception)
      | _ \<Rightarrow> bind_result (variant_add m same_key v w) (move_value m v))"

definition op_assign ::
    "extension_methods \<Rightarrow> (variant \<Rightarrow> variant \<Rightarrow> variant result) \<Rightarrow> variant \<Rightarrow> variant \<Rightarrow>
     variant result" where
  "op_assign m f v w = bind_result (f v w) (move_value m v)"

definition add_text :: "extension_methods \<Rightarrow> (variant \<Rightarrow> variant \<Rightarrow> bool) \<Rightarrow> variant \<Rightarrow> string \<Rightarrow> variant result" where
  "add_text m same_key v t =
     (case v of
        VString s \<Rightarrow> Inr (VString (s @ t))
      | VBlob s \<Rightarrow> Inr (VBlob (s @ t))
      | _ \<Rightarrow> variant_add m same_key v (VString t))"

definition text_add :: "extension_methods \<Rightarrow> string \<Rightarrow> variant \<Rightarrow> variant result" where
  "text_add m s v =
     (case v of
        VString t \<Rightarrow> Inr (VString (s @ t))
      | VBlob t \<Rightarrow> Inr (VString (s @ t))
      | _ \<Rightarrow> bind_result (variant_as_string m v) (\<lambda>t. Inr (VString (s @ t))))"

text \<open>\<^verbatim>\<open>++\<close> and \<^verbatim>\<open>--\<close> in place; the stored 64 bits are not narrowed to the kind.\<close>

definition increment :: "variant \<Rightarrow> variant result" where
  "increment v =
     (case v of
        VDouble x \<Rightarrow> Inr (VDouble (f64_add x (f64_of_int 1)))
      | VUInt k u \<Rightarrow> Inr (VUInt k (u + 1))
      | VInt k i \<Rightarrow> if sint i = 2 ^ 63 - 1 then Inl undefined_behaviour else Inr (VInt k (i + 1))
      | VBool _ \<Rightarrow> Inr (VBool True)
      | _ \<Rightarrow> Inl invalid_op_exception)"

definition decrement :: "variant \<Rightarrow> variant result" where
  "decrement v =
     (case v of
        VDouble x \<Rightarrow> Inr (VDouble (f64_sub x (f64_of_int 1)))
      | VUInt k u \<Rightarrow> Inr (VUInt k (u - 1))
      | VInt k i \<Rightarrow> if sint i = - (2 ^ 63) then Inl undefined_behaviour else Inr (VInt k (i - 1))
      | VBool _ \<Rightarrow> Inr (VBool False)
      | _ \<Rightarrow> Inl invalid_op_exception)"

text \<open>The postfix forms return the old value beside the new one.\<close>

definition post_increment :: "variant \<Rightarrow> (variant \<times> variant) result" where
  "post_increment v = bind_result (increment v) (\<lambda>w. Inr (v, w))"

definition post_decrement :: "variant \<Rightarrow> (variant \<times> variant) result" where
  "post_decrement v = bind_result (decrement v) (\<lambda>w. Inr (v, w))"

section \<open>Conversions that are always defined\<close>

lemma to_number_cases: "to_number r = Inl e \<Longrightarrow> e = bad_cast_exception"
  by (auto simp: to_number_def split: option.splits)

lemma as_int64_defined:
  "as_int64 m v = Inl undefined_behaviour \<Longrightarrow> is_double v \<or> type_of v = extension_type"
  by (cases v) (auto simp: is_double_def text_to_int64_def dest!: to_number_cases)

lemma as_uint64_defined:
  "as_uint64 m v = Inl undefined_behaviour \<Longrightarrow> is_double v \<or> type_of v = extension_type"
  by (cases v) (auto simp: is_double_def text_to_uint64_def dest!: to_number_cases)

lemmas type_tests =
  is_signed_integer_def is_unsigned_integer_def is_integer_def is_double_def is_bool_def is_text_def
  is_numeric_def

lemma try_as_simps [simp]: "try_as (Inr x) = Some x" "try_as (Inl e) = None"
  by (simp_all add: try_as_def)

lemma invalid_op_on_error_Inr [simp]: "invalid_op_on_error (Inr x) = Inr x"
  by (simp add: invalid_op_on_error_def)

lemma both_Inr [simp]: "both (Inr x) (Inr y) f = f x y"
  by (simp add: both_def)

lemma divide_operands_Inr [simp]:
  "divide_operands (Inr x) (Inr y) zero f =
     (if zero y then Inl divide_by_zero_exception else f x y)"
  by (simp add: divide_operands_def)

section \<open>Integers\<close>

definition in_int64 :: "int \<Rightarrow> bool" where
  "in_int64 z \<longleftrightarrow> - (2 ^ 63) \<le> z \<and> z < 2 ^ 63"

definition int_value :: "variant \<Rightarrow> int option" where
  "int_value v = (case v of VInt _ i \<Rightarrow> Some (sint i) | VUInt _ u \<Rightarrow> Some (uint u) | _ \<Rightarrow> None)"

lemma sint_range: "in_int64 (sint (i :: i64))"
  using sint_greater_eq [of i] sint_less [of i] by (simp add: in_int64_def)

lemma sint_eq_uint64: "in_int64 (uint (u :: u64)) \<Longrightarrow> sint u = uint u"
  by (simp add: in_int64_def sint_uint signed_take_bit_int_eq_self)

lemma sint_word_of_int64: "in_int64 z \<Longrightarrow> sint (word_of_int z :: i64) = z"
  by (simp add: in_int64_def sint_uint signed_take_bit_int_eq_self unsigned_of_int signed_take_bit_take_bit)

lemma int_value_as_int64:
  "int_value v = Some x \<Longrightarrow> in_int64 x \<Longrightarrow> \<exists>i. as_int64 m v = Inr i \<and> sint i = x"
  by (auto simp: int_value_def sint_eq_uint64 split: variant.splits)

lemma checked_int64_exact:
  "in_int64 z \<Longrightarrow> checked_int64 z = Inr (VInt int64_type (word_of_int z))"
  by (simp add: checked_int64_def in_int64_def)

datatype arith_op = Plus | Minus | Times | Divide | Modulo

definition variant_arith ::
    "extension_methods \<Rightarrow> (variant \<Rightarrow> variant \<Rightarrow> bool) \<Rightarrow> arith_op \<Rightarrow> variant \<Rightarrow> variant \<Rightarrow>
     variant result" where
  "variant_arith m same_key op a b =
     (case op of
        Plus \<Rightarrow> variant_add m same_key a b
      | Minus \<Rightarrow> variant_sub m a b
      | Times \<Rightarrow> variant_mul m a b
      | Divide \<Rightarrow> variant_div m a b
      | Modulo \<Rightarrow> variant_mod m a b)"

text \<open>
  The mathematical result, if the C++ operation on \<^verbatim>\<open>int64_t\<close> has one: a remainder needs a quotient
  that is representable.
\<close>

definition exact_result :: "arith_op \<Rightarrow> int \<Rightarrow> int \<Rightarrow> int option" where
  "exact_result op x y =
     (let z = (case op of Plus \<Rightarrow> x + y | Minus \<Rightarrow> x - y | Times \<Rightarrow> x * y
                | Divide \<Rightarrow> x sdiv y | Modulo \<Rightarrow> x smod y)
      in if op \<in> {Divide, Modulo} \<and> (y = 0 \<or> \<not> in_int64 (x sdiv y)) then None
         else if in_int64 z then Some z else None)"

lemma int_value_cases:
  assumes "int_value v = Some x"
  obtains k i where "v = VInt k i" "x = sint i" | k u where "v = VUInt k u" "x = uint u"
  using assms by (cases v) (auto simp: int_value_def)

lemma sdiv_nonneg: "0 \<le> x \<Longrightarrow> 0 \<le> y \<Longrightarrow> x sdiv y = x div (y :: int)"
  by (simp add: signed_divide_int_def sgn_if)

lemma smod_nonneg: "0 \<le> x \<Longrightarrow> 0 \<le> y \<Longrightarrow> x smod y = x mod (y :: int)"
  by (metis minus_sdiv_mult_eq_smod minus_div_mult_eq_mod sdiv_nonneg)

lemma in_int64_uint: "in_int64 z \<Longrightarrow> 0 \<le> z \<Longrightarrow> uint (word_of_int z :: u64) = z"
  by (simp add: in_int64_def unsigned_of_int take_bit_int_eq_self)

lemma int_value_signed: "in_int64 z \<Longrightarrow> int_value (VInt k (word_of_int z)) = Some z"
  by (simp add: int_value_def sint_word_of_int64)

lemma int_value_unsigned: "in_int64 z \<Longrightarrow> 0 \<le> z \<Longrightarrow> int_value (VUInt k (word_of_int z)) = Some z"
  by (simp add: int_value_def in_int64_uint)

lemma unsigned_operation_exact:
  fixes u w :: u64
  assumes u: "in_int64 (uint u)" and w: "in_int64 (uint w)"
    and z: "exact_result op (uint u) (uint w) = Some z"
  shows "\<exists>r. variant_arith m same_key op (VUInt k u) (VUInt l w) = Inr r \<and> int_value r = Some z"
proof (cases op)
  case Plus
  with z have z: "z = uint u + uint w" "in_int64 z" by (auto simp: exact_result_def Let_def split: if_splits)
  then have "uint (u + w) = z" using in_int64_uint [of z] by simp
  with Plus z show ?thesis
    by (simp add: variant_arith_def variant_add_def arithmetic_def type_tests int_value_def)
next
  case Minus
  with z have z: "z = uint u - uint w" "in_int64 z" by (auto simp: exact_result_def Let_def split: if_splits)
  then have d: "0 \<le> z \<Longrightarrow> uint (u - w) = z" using in_int64_uint [of z] by simp
  show ?thesis
  proof (cases "u < w")
    case True
    with z u w have "checked_int64 (sint u - sint w) = Inr (VInt int64_type (word_of_int z))"
      by (simp add: sint_eq_uint64 checked_int64_exact)
    with True Minus z int_value_signed [of z] show ?thesis
      by (simp add: variant_arith_def variant_sub_def arithmetic_def type_tests)
  next
    case False
    then have "0 \<le> z" using z by (simp add: word_less_def)
    with False Minus z d show ?thesis
      by (simp add: variant_arith_def variant_sub_def arithmetic_def type_tests int_value_def)
  qed
next
  case Times
  with z have z: "z = uint u * uint w" "in_int64 z" by (auto simp: exact_result_def Let_def split: if_splits)
  then have "uint (u * w) = z" using in_int64_uint [of z] by simp
  with Times z show ?thesis
    by (simp add: variant_arith_def variant_mul_def arithmetic_def type_tests int_value_def)
next
  case Divide
  with z have z: "z = uint u div uint w" "uint w \<noteq> 0"
    by (auto simp: exact_result_def Let_def sdiv_nonneg split: if_splits)
  then have "w \<noteq> 0" by auto
  with Divide z show ?thesis
    by (auto simp: variant_arith_def variant_div_def type_tests int_value_def uint_div)
next
  case Modulo
  with z have z: "z = uint u mod uint w" "uint w \<noteq> 0"
    by (auto simp: exact_result_def Let_def smod_nonneg split: if_splits)
  then have "w \<noteq> 0" by auto
  with Modulo z show ?thesis
    by (auto simp: variant_arith_def variant_mod_def type_tests int_value_def uint_mod)
qed

lemma signed_operation_exact:
  assumes a: "int_value a = Some x" "in_int64 x" and b: "int_value b = Some y" "in_int64 y"
    and s: "\<not> (is_unsigned_integer a \<and> is_unsigned_integer b)"
    and z: "exact_result op x y = Some z"
  shows "\<exists>r. variant_arith m same_key op a b = Inr r \<and> int_value r = Some z"
proof -
  obtain i where i: "as_int64 m a = Inr i" "sint i = x" using int_value_as_int64 [OF a] by blast
  obtain j where j: "as_int64 m b = Inr j" "sint j = y" using int_value_as_int64 [OF b] by blast
  have n: "\<not> is_double a" "\<not> is_double b" "\<not> is_bool a"
    using a b by (auto elim!: int_value_cases simp: type_tests)
  have add: "variant_add m same_key a b =
      arithmetic m f64_add (\<lambda>u w. Inr (VUInt uint64_type (u + w))) (+) a b"
    using a b by (auto elim!: int_value_cases simp: variant_add_def)
  have j0: "j = 0 \<longleftrightarrow> y = 0" unfolding j(2) [symmetric] by (simp only: signed_eq_0_iff)
  have zr: "in_int64 z" using z by (auto simp: exact_result_def Let_def split: if_splits)
  have "variant_arith m same_key op a b = checked_int64 z"
    using z i j n s j0
    by (cases op)
       (auto simp: variant_arith_def add variant_sub_def variant_mul_def variant_div_def variant_mod_def
          arithmetic_def int64_mod_def exact_result_def checked_int64_exact Let_def split: if_splits)
  with zr show ?thesis by (simp add: checked_int64_exact int_value_signed)
qed

lemma unsigned_pair:
  assumes "int_value a = Some x" "int_value b = Some y" "is_unsigned_integer a" "is_unsigned_integer b"
  obtains k u l w where "a = VUInt k u" "x = uint u" "b = VUInt l w" "y = uint w"
  using assms by (auto elim!: int_value_cases simp: type_tests)

text \<open>
  C28. Integer arithmetic is exact: for two integers of any kinds with values in the range of
  \<^verbatim>\<open>int64_t\<close>, whenever the mathematical result of \<open>+\<close>, \<open>-\<close>, \<open>*\<close>, \<open>/\<close> or \<open>%\<close> is in that range too, the
  operator returns an integer with that value, whatever mixture of signed and unsigned kinds and
  widths the operands have.
\<close>

theorem integer_arithmetic_exact:
  assumes "int_value a = Some x" "in_int64 x" "int_value b = Some y" "in_int64 y"
    and "exact_result op x y = Some z"
  shows "\<exists>r. variant_arith m same_key op a b = Inr r \<and> int_value r = Some z"
proof (cases "is_unsigned_integer a \<and> is_unsigned_integer b")
  case True
  then obtain k u l w where "a = VUInt k u" "x = uint u" "b = VUInt l w" "y = uint w"
    using unsigned_pair [OF assms(1,3)] by blast
  with assms show ?thesis by (simp add: unsigned_operation_exact)
next
  case False
  with assms show ?thesis by (intro signed_operation_exact)
qed

text \<open>
  The difference of two unsigned values wraps around when the subtrahend is above \<open>2 ^ 63\<close>: \<open>0 - (2 ^ 64 - 1)\<close>
  is 1. An order between a negative and an unsigned integer depends on which is on the left.
\<close>

lemma unsigned_difference_wraps:
  "variant_sub m (VUInt uint64_type 0) (VUInt uint64_type 0xFFFFFFFFFFFFFFFF) = Inr (VInt int64_type 1)"
  by (simp add: variant_sub_def arithmetic_def type_tests checked_int64_def word_less_def)

lemma mixed_order_inconsistent:
  "variant_less m (VInt int64_type 0xFFFFFFFFFFFFFFFF) (VUInt uint64_type 1) = Inr True"
  "variant_less m (VUInt uint64_type 1) (VInt int64_type 0xFFFFFFFFFFFFFFFF) = Inr True"
  by (simp_all add: variant_less_def other_type_less_def convert_compare_def type_tests
      word_sless_alt word_less_def)

text \<open>
  The remainder by a proper fraction is undefined behaviour: the test for zero sees a number
  other than zero, and the division takes place on its truncation.
\<close>

theorem modulo_by_fraction_undefined:
  assumes "f64_exponent y < 1023" and "\<not> f64_is_zero y"
  shows "variant_mod m (VInt k i) (VDouble y) = Inl undefined_behaviour"
proof -
  have zero: "f64_to_int64 y = Inr 0"
    using assms(1) by (simp add: f64_to_int64_def f64_is_finite_def f64_truncate_fraction)
  have "f64_value 0 = 0" by (simp add: f64_value_def f64_magnitude_def f64_exponent_def f64_mantissa_def)
  then have nz: "\<not> f64_eq y 0" using assms(2) by (simp add: f64_eq_def f64_is_zero_def)
  have "f64_to_int64 x = Inl e \<Longrightarrow> e = undefined_behaviour" for x e
    by (auto simp: f64_to_int64_def split: if_splits)
  then have "both (f64_to_int64 x) (Inr 0) int64_mod = Inl undefined_behaviour" for x
    by (cases "f64_to_int64 x") (auto simp: both_def int64_mod_def)
  then show ?thesis using zero nz by (simp add: variant_mod_def type_tests)
qed

section \<open>Order and equality of integers\<close>

lemma integer_facts:
  fixes i j :: i64 and u w :: u64
  shows "i <s j \<longleftrightarrow> sint i < sint j" "i = j \<longleftrightarrow> sint i = sint j"
    "u < w \<longleftrightarrow> uint u < uint w" "u = w \<longleftrightarrow> uint u = uint w"
  by (simp_all only: word_sless_alt word_less_def word_eq_iff_signed [symmetric]
      word_eq_iff_unsigned [symmetric])

lemma same_sign_compare:
  assumes "is_signed_integer a = is_signed_integer b"
    and "int_value a = Some x" "int_value b = Some y"
  shows "(variant_less m a b, variant_equal m same_key a b) = (Inr (x < y), x = y)"
  using assms(2,3)
proof (elim int_value_cases)
  fix k i l j assume v: "a = VInt k i" "b = VInt l j" "x = sint i" "y = sint j"
  have l: "variant_less m a b = Inr (i <s j)" "variant_equal m same_key a b \<longleftrightarrow> i = j"
    by (simp_all add: v variant_less_def same_type_less_def other_type_less_def variant_equal.simps
        other_type_equal_def convert_compare_def type_tests)
  show ?thesis unfolding l by (simp only: integer_facts(1,2) v)
next
  fix k u l w assume v: "a = VUInt k u" "b = VUInt l w" "x = uint u" "y = uint w"
  have l: "variant_less m a b = Inr (u < w)" "variant_equal m same_key a b \<longleftrightarrow> u = w"
    by (simp_all add: v variant_less_def same_type_less_def other_type_less_def variant_equal.simps
        other_type_equal_def convert_compare_def type_tests)
  show ?thesis unfolding l by (simp only: integer_facts(3,4) v)
qed (use assms(1) in \<open>simp_all add: is_signed_integer_def\<close>)

text \<open>The 64-bit number that the right operand becomes when it is converted to the kind of the left one.\<close>

definition converted_value :: "variant \<Rightarrow> int \<Rightarrow> int" where
  "converted_value a y = (if is_signed_integer a then (y + 2 ^ 63) mod 2 ^ 64 - 2 ^ 63 else y mod 2 ^ 64)"

lemma sint_ucast_mod: "sint (w :: u64) = (uint w + 2 ^ 63) mod 2 ^ 64 - 2 ^ 63"
  by (simp add: sint_uint signed_take_bit_eq_take_bit_shift take_bit_eq_mod)

lemma uint_sint_mod: "uint (i :: i64) = sint i mod 2 ^ 64"
  by (simp add: uint_sint take_bit_eq_mod)

lemma integer_compare:
  assumes "int_value a = Some x" "int_value b = Some y"
  shows "(variant_less m a b, variant_equal m same_key a b) =
    (Inr (x < converted_value a y), x = converted_value a y)"
  using assms
proof (elim int_value_cases)
  fix k i l j assume v: "a = VInt k i" "b = VInt l j" "x = sint i" "y = sint j"
  then have "is_signed_integer a = is_signed_integer b" by (simp add: is_signed_integer_def)
  note same_sign_compare [OF this assms, of m same_key]
  moreover have "converted_value a y = y" unfolding v converted_value_def
    using sint_lt [of j] sint_ge [of j] by (simp add: is_signed_integer_def)
  ultimately show ?thesis by simp
next
  fix k u l w assume v: "a = VUInt k u" "b = VUInt l w" "x = uint u" "y = uint w"
  then have "is_signed_integer a = is_signed_integer b" by (simp add: is_signed_integer_def)
  note same_sign_compare [OF this assms, of m same_key]
  moreover have "converted_value a y = y" unfolding v converted_value_def
    using uint_lt2p [of w] by (simp add: is_signed_integer_def)
  ultimately show ?thesis by simp
next
  fix k i l w assume v: "a = VInt k i" "b = VUInt l w" "x = sint i" "y = uint w"
  have l: "variant_less m a b = Inr (i <s w)" "variant_equal m same_key a b \<longleftrightarrow> i = w"
    by (simp_all add: v variant_less_def other_type_less_def variant_equal.simps
        other_type_equal_def convert_compare_def type_tests)
  have "converted_value a y = sint w" unfolding v converted_value_def by (simp add: is_signed_integer_def sint_ucast_mod)
  then show ?thesis unfolding l by (simp only: integer_facts(1,2) v)
next
  fix k u l j assume v: "a = VUInt k u" "b = VInt l j" "x = uint u" "y = sint j"
  have l: "variant_less m a b = Inr (u < j)" "variant_equal m same_key a b \<longleftrightarrow> u = j"
    by (simp_all add: v variant_less_def other_type_less_def variant_equal.simps
        other_type_equal_def convert_compare_def type_tests)
  have "converted_value a y = uint j" unfolding v converted_value_def by (simp add: is_signed_integer_def uint_sint_mod)
  then show ?thesis unfolding l by (simp only: integer_facts(3,4) v)
qed

text \<open>
  C34. Comparison of integers, of any two kinds: \<^verbatim>\<open>operator<\<close> and \<^verbatim>\<open>operator==\<close> are the order and the equality
  of the left value and of the right one converted to the kind of the left, signed or
  unsigned 64-bit. They are those of the values themselves unless the conversion changes the right value, which it
  does for a negative number compared to an unsigned one on the left and for an unsigned one of
  \<open>2 ^ 63\<close> or more compared to a signed one.
\<close>

theorem integer_comparison_converts:
  assumes "int_value a = Some x" "int_value b = Some y"
  shows "variant_less m a b = Inr (x < converted_value a y) \<and>
    variant_equal m same_key a b = (x = converted_value a y) \<and>
    (converted_value a y = y) = (if is_signed_integer a then y < 2 ^ 63 else 0 \<le> y)"
proof -
  have y: "- (2 ^ 63) \<le> y \<and> y < 2 ^ 64"
  proof (rule int_value_cases [OF assms(2)])
    fix k i assume "b = VInt k i" "y = sint i"
    then show ?thesis using sint_lt [of i] sint_ge [of i] by simp
  next
    fix k u assume "b = VUInt k u" "y = uint u"
    moreover have "0 \<le> uint u" "uint u < 2 ^ 64" using uint_lt2p [of u] by simp_all
    ultimately have "0 \<le> y" "y < 2 ^ 64" by simp_all
    then show ?thesis by simp
  qed
  have "(y + 2 ^ 63) mod 2 ^ 64 = (if y < 2 ^ 63 then y + 2 ^ 63 else y - 2 ^ 63)"
    using y minus_mod_self2 [of "y + 2 ^ 63" "2 ^ 64"] by (auto simp: mod_pos_pos_trivial)
  moreover have "y mod 2 ^ 64 = y \<longleftrightarrow> 0 \<le> y"
    using y pos_mod_sign [of "2 ^ 64" y] by (auto simp: mod_pos_pos_trivial)
  ultimately have "(converted_value a y = y) = (if is_signed_integer a then y < 2 ^ 63 else 0 \<le> y)"
    by (simp add: converted_value_def)
  then show ?thesis using integer_compare [OF assms, of m same_key] by simp
qed

section \<open>Equality is symmetric\<close>

text \<open>The scalars of a value without dicts and extensions.\<close>

fun leaves :: "variant \<Rightarrow> variant list" where
  "leaves (VArray vs) = concat (map leaves vs)"
| "leaves v = [v]"

fun plain_value :: "variant \<Rightarrow> bool" where
  "plain_value (VArray vs) = list_all plain_value vs"
| "plain_value (VObject es) = False"
| "plain_value (VExtension x) = False"
| "plain_value v = True"

definition bool_meets_integer :: "variant \<Rightarrow> variant \<Rightarrow> bool" where
  "bool_meets_integer a b \<longleftrightarrow>
     list_ex is_bool (leaves a) \<and> list_ex (\<lambda>v. is_signed_integer v \<or> is_unsigned_integer v) (leaves b)"

lemma convert_compare_sym:
  assumes "\<And>x y. on_double x y = on_double y x" "\<And>i j. on_int i j = on_int j i"
    "\<And>i j. on_uint i j = on_uint j i" "\<And>i j. on_bool i j = on_bool j i"
    and "type_of a \<noteq> type_of b" and "\<And>i j. on_int i j = on_uint i j"
    and "\<not> bool_meets_integer a b" "\<not> bool_meets_integer b a"
  shows "convert_compare m on_double on_int on_uint on_bool a b =
    convert_compare m on_double on_int on_uint on_bool b a"
  using assms(5,7,8)
  by (cases a; cases b)
     (simp_all add: convert_compare_def type_tests bool_meets_integer_def assms(1-4)
        assms(1) [of _ "_ :: u64"] assms(6) split: option.splits)

lemma other_type_equal_sym:
  assumes "type_of a \<noteq> type_of b" "\<not> bool_meets_integer a b" "\<not> bool_meets_integer b a"
  shows "other_type_equal m a b = other_type_equal m b a"
proof -
  have "convert_compare m float_equal (=) (=) (=) a b = convert_compare m float_equal (=) (=) (=) b a"
    by (rule convert_compare_sym) (use assms in \<open>auto simp: float_equal_sym\<close>)
  then show ?thesis by (simp add: other_type_equal_def)
qed

lemma bool_meets_integer_array:
  "bool_meets_integer (VArray vs) (VArray ws) \<longleftrightarrow>
     (\<exists>v \<in> set vs. \<exists>w \<in> set ws. bool_meets_integer v w)"
  by (auto simp: bool_meets_integer_def list_ex_iff)

lemma equal_sym_aux:
  "plain_value a \<Longrightarrow> plain_value b \<Longrightarrow> \<not> bool_meets_integer a b \<Longrightarrow> \<not> bool_meets_integer b a \<Longrightarrow>
     variant_equal m same_key a b = variant_equal m same_key b a"
  "list_all plain_value vs \<Longrightarrow> list_all plain_value ws \<Longrightarrow>
     \<not> bool_meets_integer (VArray vs) (VArray ws) \<Longrightarrow> \<not> bool_meets_integer (VArray ws) (VArray vs) \<Longrightarrow>
     items_equal m same_key vs ws = items_equal m same_key ws vs"
  "entries_equal m same_key es fs = entries_equal m same_key es fs"
proof (induction m same_key a b and m same_key vs ws and m same_key es fs
    rule: variant_equal_items_equal_entries_equal.induct)
  case (1 m same_key a b)
  show ?case
  proof (cases "type_of a = type_of b")
    case False
    with 1(3-) other_type_equal_sym [of a b m] show ?thesis by (simp add: variant_equal.simps)
  next
    case True
    then show ?thesis
      using 1 by (cases a; cases b)
        (simp_all add: variant_equal.simps [of _ _ _ "VArray _"] variant_equal.simps float_equal_sym eq_commute)
  qed
next
  case (2 m same_key v vs w ws)
  then show ?case by (simp add: bool_meets_integer_array)
qed simp_all

text \<open>
  Equality is symmetric on values built from scalars and arrays, across all kinds of numbers and
  texts, as long as no boolean inside one meets an integer inside the other (there the code
  converts to the type on the left: \<open>true == 2\<close> but not \<open>2 == true\<close>).
\<close>

theorem variant_equal_symmetric:
  assumes "plain_value a" "plain_value b" "\<not> bool_meets_integer a b" "\<not> bool_meets_integer b a"
  shows "variant_equal m same_key a b = variant_equal m same_key b a"
  using assms by (rule equal_sym_aux)

lemma variant_equal_bool_integer:
  "variant_equal m same_key (VBool True) (VInt k 2)"
  "\<not> variant_equal m same_key (VInt k 2) (VBool True)"
  by (simp_all add: variant_equal.simps other_type_equal_def convert_compare_def type_tests)

section \<open>Comparison with a text\<close>

lemma strtoll_range: "strtoll s r = (v, e, x) \<Longrightarrow> in_int64 v"
  by (auto simp: strtoll_def in_int64_def Let_def split: prod.splits if_splits)

lemma strtoull_range: "strtoull s r = (v, e, x) \<Longrightarrow> 0 \<le> v \<and> v < 2 ^ 64"
  by (auto simp: strtoull_def Let_def split: prod.splits if_splits)

lemma try_to_int64_range: "try_to_int64 s r = Some v \<Longrightarrow> in_int64 v"
  by (auto simp: try_to_int64_def try_to_integer_unsafe_def Let_def
      split: prod.splits if_splits dest: strtoll_range)

lemma try_to_uint64_range: "try_to_uint64 s r = Some v \<Longrightarrow> 0 \<le> v \<and> v < 2 ^ 64"
  by (auto simp: try_to_uint64_def try_to_integer_unsafe_def Let_def
      split: prod.splits if_splits dest: strtoull_range)

text \<open>
  The comparison of a value with a character sequence agrees with the comparison with the string
  value of the same text, except for booleans (which a text other than a boolean equals when it is
  compared as a value) and for binary data (which no string value equals).
\<close>

theorem equal_to_text_agrees:
  assumes "\<not> is_bool v" and "type_of v \<noteq> blob_type"
  shows "equal_to_text v t = variant_equal m same_key v (VString t)"
proof (cases v)
  case (VInt k i)
  have "sint i = j \<longleftrightarrow> i = word_of_int j" if "in_int64 j" for j
    using sint_word_of_int64 [OF that] by auto
  with VInt show ?thesis
    by (auto simp: equal_to_text_def variant_equal.simps other_type_equal_def convert_compare_def
        type_tests text_to_int64_def to_number_def split: option.splits dest: try_to_int64_range)
next
  case (VUInt k u)
  have "uint u = j \<longleftrightarrow> u = word_of_int j" if "0 \<le> j \<and> j < 2 ^ 64" for j
    using that by (auto simp: unsigned_of_int take_bit_int_eq_self)
  with VUInt show ?thesis
    by (auto simp: equal_to_text_def variant_equal.simps other_type_equal_def convert_compare_def
        type_tests text_to_uint64_def to_number_def split: option.splits dest: try_to_uint64_range)
qed (use assms in \<open>auto simp: equal_to_text_def variant_equal.simps other_type_equal_def
  convert_compare_def type_tests text_to_double_def to_number_def split: option.splits\<close>)

lemma bool_equals_any_text:
  "variant_equal m same_key (VBool True) (VString ''no'')" "\<not> equal_to_text (VBool True) ''no''"
  by (simp_all add: variant_equal.simps other_type_equal_def convert_compare_def type_tests
      to_bool_with_default_def try_to_bool_def iequals_def equal_to_text_def)

section \<open>Assignment keeps the kind\<close>

definition int_bits :: "int_kind \<Rightarrow> nat" where
  "int_bits k = (case k of int8_type \<Rightarrow> 8 | int16_type \<Rightarrow> 16 | int32_type \<Rightarrow> 32 | int64_type \<Rightarrow> 64)"

definition uint_bits :: "uint_kind \<Rightarrow> nat" where
  "uint_bits k = (case k of uint8_type \<Rightarrow> 8 | uint16_type \<Rightarrow> 16 | uint32_type \<Rightarrow> 32 | uint64_type \<Rightarrow> 64)"

text \<open>An integer holds a value of its kind.\<close>

definition fits :: "variant \<Rightarrow> bool" where
  "fits v =
     (case v of
        VInt k i \<Rightarrow> - (2 ^ (int_bits k - 1)) \<le> sint i \<and> sint i < 2 ^ (int_bits k - 1)
      | VUInt k u \<Rightarrow> uint u < 2 ^ uint_bits k
      | _ \<Rightarrow> True)"

lemma fits_narrow_int: "fits (VInt k (narrow_int k i))"
proof -
  have up: "sint (scast x :: i64) = sint x" "sint (scast y :: i64) = sint y" "sint (scast z :: i64) = sint z"
    for x :: "8 word" and y :: "16 word" and z :: "32 word"
    by (rule sint_up_scast, simp add: is_up)+
  show ?thesis
    using sint_greater_eq [of "scast i :: 8 word"] sint_less [of "scast i :: 8 word"]
      sint_greater_eq [of "scast i :: 16 word"] sint_less [of "scast i :: 16 word"]
      sint_greater_eq [of "scast i :: 32 word"] sint_less [of "scast i :: 32 word"]
      sint_greater_eq [of i] sint_less [of i]
    by (cases k) (simp_all only: fits_def narrow_int_def int_bits_def variant.case int_kind.case up, simp_all)
qed

lemma fits_narrow_uint: "fits (VUInt k (narrow_uint k u))"
proof -
  have up: "uint (ucast x :: u64) = uint x" "uint (ucast y :: u64) = uint y" "uint (ucast z :: u64) = uint z"
    for x :: "8 word" and y :: "16 word" and z :: "32 word"
    by (rule uint_up_ucast, simp add: is_up)+
  show ?thesis
    using uint_bounded [of "ucast u :: 8 word"] uint_bounded [of "ucast u :: 16 word"]
      uint_bounded [of "ucast u :: 32 word"] uint_bounded [of u]
    by (cases k) (simp_all only: fits_def narrow_uint_def uint_bits_def variant.case uint_kind.case up, simp_all)
qed

lemma fits_64 [simp]: "fits (VInt int64_type i)" "fits (VUInt uint64_type u)"
  using sint_range [of i] uint_bounded [of u] by (simp_all add: fits_def int_bits_def uint_bits_def in_int64_def)

lemma fits_simps [simp]:
  "fits VNull" "fits (VDouble x)" "fits (VBool b)" "fits (VString s)" "fits (VArray vs)"
  "fits (VObject es)" "fits (VBlob s)" "fits (VExtension y)"
  by (simp_all add: fits_def)

lemma set_value_fits: "set_value m v w = Inr r \<Longrightarrow> type_of r = type_of v \<and> fits r"
  by (cases v) (auto simp: set_value_def bind_result_eq_Inr fits_narrow_int fits_narrow_uint)

lemma move_value_fits: "move_value m v w = Inr r \<Longrightarrow> fits w \<Longrightarrow> type_of r = type_of v \<and> fits r"
  by (auto simp: move_value_def split: if_splits dest: set_value_fits)

datatype assign_op = Arith arith_op | And | Or | Xor | Shift_left | Shift_right

definition variant_op ::
    "extension_methods \<Rightarrow> (variant \<Rightarrow> variant \<Rightarrow> bool) \<Rightarrow> assign_op \<Rightarrow> variant \<Rightarrow> variant \<Rightarrow>
     variant result" where
  "variant_op m same_key op =
     (case op of
        Arith f \<Rightarrow> variant_arith m same_key f
      | And \<Rightarrow> variant_and m
      | Or \<Rightarrow> variant_or m
      | Xor \<Rightarrow> variant_xor m
      | Shift_left \<Rightarrow> variant_shift_left m
      | Shift_right \<Rightarrow> variant_shift_right m)"

text \<open>The ten compound assignments.\<close>

definition variant_assign ::
    "extension_methods \<Rightarrow> (variant \<Rightarrow> variant \<Rightarrow> bool) \<Rightarrow> assign_op \<Rightarrow> variant \<Rightarrow> variant \<Rightarrow>
     variant result" where
  "variant_assign m same_key op v w =
     (if op = Arith Plus then add_assign m same_key v w
      else op_assign m (variant_op m same_key op) v w)"

lemma checked_int64_fits: "checked_int64 z = Inr r \<Longrightarrow> fits r"
  by (auto simp: checked_int64_def split: if_splits)

lemma invalid_op_on_error_eq_Inr: "invalid_op_on_error r = Inr x \<longleftrightarrow> r = Inr x"
  by (cases r) (auto simp: invalid_op_on_error_def)

lemma divide_operands_eq_Inr:
  "divide_operands r s zero f = Inr z \<longleftrightarrow> (\<exists>x y. r = Inr x \<and> s = Inr y \<and> \<not> zero y \<and> f x y = Inr z)"
  by (cases r; cases s) (auto simp: divide_operands_def)

lemmas result_facts =
  invalid_op_on_error_eq_Inr divide_operands_eq_Inr bind_result_eq_Inr both_def checked_int64_fits

lemma arithmetic_fits:
  assumes "\<And>u w r. on_uint u w = Inr r \<Longrightarrow> fits r"
  shows "arithmetic m on_double on_uint on_int a b = Inr r \<Longrightarrow> fits r"
  using assms by (auto simp: arithmetic_def result_facts split: if_splits)

lemma variant_arith_fits: "variant_arith m same_key op a b = Inr r \<Longrightarrow> fits r"
proof (cases op)
  case Plus
  assume r: "variant_arith m same_key op a b = Inr r"
  have n: "arithmetic m f64_add (\<lambda>u w. Inr (VUInt uint64_type (u + w))) (+) a b = Inr r \<Longrightarrow> fits r"
    by (erule arithmetic_fits [rotated]) auto
  from r Plus have "variant_add m same_key a b = Inr r" by (simp add: variant_arith_def)
  then show ?thesis
    unfolding variant_add_def by (auto simp: bind_result_eq_Inr intro: n split: variant.splits)
next
  case Minus
  then show "variant_arith m same_key op a b = Inr r \<Longrightarrow> fits r"
    by (auto simp: variant_arith_def variant_sub_def checked_int64_fits split: if_splits elim!: arithmetic_fits [rotated])
next
  case Times
  then show "variant_arith m same_key op a b = Inr r \<Longrightarrow> fits r"
    by (auto simp: variant_arith_def variant_mul_def elim!: arithmetic_fits [rotated])
qed (auto simp: variant_arith_def variant_div_def variant_mod_def result_facts int64_mod_def split: if_splits)

lemma variant_op_fits: "variant_op m same_key op a b = Inr r \<Longrightarrow> fits r"
proof (cases op)
  case (Arith f)
  then show "variant_op m same_key op a b = Inr r \<Longrightarrow> fits r"
    using variant_arith_fits by (simp add: variant_op_def)
qed (auto simp: variant_op_def variant_and_def variant_or_def variant_xor_def bitwise_def result_facts
    variant_shift_left_def variant_shift_right_def split: if_splits,
    simp_all add: fits_def int_bits_def)

text \<open>
  A compound assignment never changes the type of its left operand, and an integer operand of any
  width holds a value of that width afterwards: results are narrowed as a C++ assignment does.
\<close>

theorem compound_assignment_fits:
  assumes "variant_assign m same_key op v w = Inr r"
  shows "type_of r = type_of v \<and> fits r"
proof (cases "op = Arith Plus")
  case True
  have op: "variant_add m same_key v w = Inr z \<Longrightarrow> fits z" for z
    using variant_op_fits [of m same_key "Arith Plus" v w z] by (simp add: variant_op_def variant_arith_def)
  then have "bind_result (variant_add m same_key v w) (move_value m v) = Inr r \<Longrightarrow> ?thesis"
    by (auto simp: bind_result_eq_Inr dest: move_value_fits)
  moreover from assms True have "add_assign m same_key v w = Inr r" by (simp add: variant_assign_def)
  ultimately show ?thesis
    by (cases v) (auto simp: add_assign_def bind_result_eq_Inr split: variant.splits)
next
  case False
  with assms show ?thesis
    by (auto simp: variant_assign_def op_assign_def bind_result_eq_Inr dest!: variant_op_fits move_value_fits)
qed

lemma increment_leaves_kind:
  "increment (VUInt uint8_type 255) = Inr (VUInt uint8_type 256)" "\<not> fits (VUInt uint8_type 256)"
  by (simp_all add: increment_def fits_def uint_bits_def)

section \<open>Instances\<close>

definition no_extensions :: extension_methods where
  "no_extensions =
     \<lparr>ext_as_int64 = (\<lambda>_. Inl invalid_arg_exception), ext_as_uint64 = (\<lambda>_. Inl invalid_arg_exception),
      ext_as_bool = (\<lambda>_. Inl invalid_arg_exception), ext_as_double = (\<lambda>_. Inl invalid_arg_exception),
      ext_as_string = (\<lambda>x. x), ext_equals = (=)\<rparr>"

theorem integer_arithmetic_exact_witness:
  "\<exists>r. variant_arith no_extensions (=) Minus (VUInt uint8_type 3) (VInt int32_type 5) = Inr r \<and>
     int_value r = Some (- 2)"
  by (rule integer_arithmetic_exact [of _ 3 _ 5])
     (simp_all add: int_value_def in_int64_def exact_result_def)

theorem modulo_by_fraction_undefined_witness:
  "variant_mod no_extensions (VInt int64_type 7) (VDouble 0x3FE0000000000000) = Inl undefined_behaviour"
  by (rule modulo_by_fraction_undefined)
     (simp_all add: f64_exponent_def f64_is_zero_def f64_value_def f64_magnitude_def f64_mantissa_def)

theorem integer_comparison_converts_witness:
  "variant_less no_extensions (VUInt uint8_type 3) (VInt int64_type 5) = Inr True \<and>
   variant_less no_extensions (VUInt uint8_type 3) (VInt int64_type (- 5)) = Inr True"
  using integer_comparison_converts [of "VUInt uint8_type 3" 3 "VInt int64_type 5" 5 no_extensions "(=)"]
    integer_comparison_converts [of "VUInt uint8_type 3" 3 "VInt int64_type (- 5)" "- 5" no_extensions "(=)"]
  by (simp add: int_value_def converted_value_def is_signed_integer_def)

theorem variant_equal_symmetric_witness:
  "variant_equal no_extensions (=) (VArray [VInt int8_type 7, VString ''a'']) (VArray [VString ''7'', VBlob ''a'']) =
   variant_equal no_extensions (=) (VArray [VString ''7'', VBlob ''a'']) (VArray [VInt int8_type 7, VString ''a''])"
  by (rule variant_equal_symmetric) (simp_all add: bool_meets_integer_def type_tests)

theorem equal_to_text_agrees_witness:
  "equal_to_text (VInt int16_type 12) ''0xc'' =
   variant_equal no_extensions (=) (VInt int16_type 12) (VString ''0xc'')"
  by (rule equal_to_text_agrees) (simp_all add: is_bool_def)

theorem compound_assignment_fits_witness:
  "variant_assign no_extensions (=) (Arith Plus) (VUInt uint8_type 250) (VUInt uint32_type 10) =
     Inr (VUInt uint8_type 4) \<and>
   type_of (VUInt uint8_type 4) = type_of (VUInt uint8_type 250) \<and> fits (VUInt uint8_type 4)"
proof -
  have r: "variant_assign no_extensions (=) (Arith Plus) (VUInt uint8_type 250) (VUInt uint32_type 10) =
      Inr (VUInt uint8_type 4)"
    by (simp add: variant_assign_def add_assign_def variant_add_def arithmetic_def type_tests
        move_value_def set_value_def narrow_uint_def)
  with compound_assignment_fits [OF r] show ?thesis by blast
qed

end
