(* ===== verification/Evaluate.thy ===== *)
theory Evaluate
  imports Compile NodeText VariantOps
begin

text \<open>
  Evaluation of expressions: contexts (\<^verbatim>\<open>libraries/mcexpr/src/context.cpp\<close>), the \<^verbatim>\<open>evaluate\<close> methods
  of the nodes (\<^verbatim>\<open>src/node/*.cpp\<close>) and \<^verbatim>\<open>engine::evaluate\<close>. Registered functions and engine objects
  are code of their own, which reads and changes state: they are the record \<open>runtime\<close> over a world
  \<open>'w\<close>, and an evaluation threads that world, so that what is evaluated and in which order shows in
  it. A context chain is the list of its contexts from the innermost to the outermost parent.
\<close>

section \<open>Evaluations\<close>

type_synonym ('w, 'a) eval = "'w \<Rightarrow> 'a result \<times> 'w"

definition eval_result :: "'a result \<Rightarrow> ('w, 'a) eval" where
  "eval_result r w = (r, w)"

definition eval_bind :: "('w, 'a) eval \<Rightarrow> ('a \<Rightarrow> ('w, 'b) eval) \<Rightarrow> ('w, 'b) eval" where
  "eval_bind e f w = (case e w of (Inl x, w') \<Rightarrow> (Inl x, w') | (Inr v, w') \<Rightarrow> f v w')"

lemma eval_bind_result [simp]:
  "eval_bind (eval_result (Inr v)) f = f v"
  "eval_bind (eval_result (Inl x)) f = eval_result (Inl x)"
  by (simp_all add: eval_bind_def eval_result_def fun_eq_iff)

lemma eval_bind_assoc: "eval_bind (eval_bind e f) g = eval_bind e (\<lambda>v. eval_bind (f v) g)"
  by (simp add: eval_bind_def fun_eq_iff split: prod.splits sum.splits)

section \<open>The code behind functions and objects\<close>

record ('o, 'f, 'w) runtime =
  call_function :: "'f \<Rightarrow> variant list \<Rightarrow> ('w, variant) eval"
  has_property :: "'o \<Rightarrow> string \<Rightarrow> string \<Rightarrow> 'w \<Rightarrow> bool"
  has_method :: "'o \<Rightarrow> string \<Rightarrow> string \<Rightarrow> 'w \<Rightarrow> bool"
  get_property :: "'o \<Rightarrow> string \<Rightarrow> string \<Rightarrow> ('w, variant) eval"
  invoke_method :: "'o \<Rightarrow> string \<Rightarrow> variant list \<Rightarrow> string \<Rightarrow> ('w, variant) eval"
  rt_extension :: extension_methods
  rt_same_key :: "variant \<Rightarrow> variant \<Rightarrow> bool"
  rt_text_key :: "string \<Rightarrow> variant \<Rightarrow> bool"

text \<open>
  \<^verbatim>\<open>dict::contains\<close> and \<^verbatim>\<open>dict::operator[]\<close> of a character sequence; \<open>text_key\<close> decides as the hash
  and the comparison of a variant with a text do.
\<close>

fun find_text :: "(string \<Rightarrow> variant \<Rightarrow> bool) \<Rightarrow> (variant \<times> variant) list \<Rightarrow> string \<Rightarrow> variant option" where
  "find_text text_key [] name = None"
| "find_text text_key ((k, v) # es) name = (if text_key name k then Some v else find_text text_key es name)"

definition variant_member :: "(string \<Rightarrow> variant \<Rightarrow> bool) \<Rightarrow> variant \<Rightarrow> string \<Rightarrow> variant option" where
  "variant_member text_key v name =
     (case v of VObject es \<Rightarrow> find_text text_key es name | _ \<Rightarrow> None)"

section \<open>Contexts\<close>

datatype ('o, 'f) symbol_info =
    variable_symbol string variant
  | function_symbol string 'f
  | object_symbol string 'o

fun symbol_name :: "('o, 'f) symbol_info \<Rightarrow> string" where
  "symbol_name (variable_symbol n v) = n"
| "symbol_name (function_symbol n f) = n"
| "symbol_name (object_symbol n ob) = n"

record ('o, 'f) context_impl =
  cx_symbols :: "nat \<Rightarrow> ('o, 'f) symbol_info option"
  cx_names :: "string \<Rightarrow> nat option"
  cx_next_id :: nat

definition new_context :: "('o, 'f) context_impl" where
  "new_context = \<lparr>cx_symbols = Map.empty, cx_names = Map.empty, cx_next_id = 0\<rparr>"

definition add_symbol_info :: "('o, 'f) symbol_info \<Rightarrow> ('o, 'f) context_impl \<Rightarrow> nat \<times> ('o, 'f) context_impl" where
  "add_symbol_info s c =
     (let i = cx_next_id c
      in (i, \<lparr>cx_symbols = (cx_symbols c)(i \<mapsto> s), cx_names = (cx_names c)(symbol_name s \<mapsto> i),
              cx_next_id = i + 1\<rparr>))"

definition register_variable :: "string \<Rightarrow> variant \<Rightarrow> ('o, 'f) context_impl \<Rightarrow> nat \<times> ('o, 'f) context_impl" where
  "register_variable name v c = add_symbol_info (variable_symbol name v) c"

definition register_function ::
    "(string \<times> 'f) option \<Rightarrow> ('o, 'f) context_impl \<Rightarrow> int \<times> ('o, 'f) context_impl" where
  "register_function func c =
     (case func of
        None \<Rightarrow> (- 1, c)
      | Some (name, f) \<Rightarrow> (let (i, c') = add_symbol_info (function_symbol name f) c in (int i, c')))"

definition register_object ::
    "string \<Rightarrow> 'o option \<Rightarrow> ('o, 'f) context_impl \<Rightarrow> int \<times> ('o, 'f) context_impl" where
  "register_object name obj c =
     (case obj of
        None \<Rightarrow> (- 1, c)
      | Some ob \<Rightarrow> (let (i, c') = add_symbol_info (object_symbol name ob) c in (int i, c')))"

definition get_symbol :: "('o, 'f) context_impl \<Rightarrow> string \<Rightarrow> ('o, 'f) symbol_info option" where
  "get_symbol c name = (case cx_names c name of None \<Rightarrow> None | Some i \<Rightarrow> cx_symbols c i)"

definition get_symbol_by_id :: "('o, 'f) context_impl \<Rightarrow> nat \<Rightarrow> ('o, 'f) symbol_info option" where
  "get_symbol_by_id c i = cx_symbols c i"

fun import_from_dict :: "(variant \<times> variant) list \<Rightarrow> ('o, 'f) context_impl \<Rightarrow> ('o, 'f) context_impl" where
  "import_from_dict [] c = c"
| "import_from_dict ((k, v) # es) c =
     import_from_dict es (case k of VString s \<Rightarrow> snd (register_variable s v c) | _ \<Rightarrow> c)"

text \<open>One context of a chain: a table of symbols, or an engine object whose properties and methods
  are the symbols; the latter does not pass requests on to its parent.\<close>

datatype ('o, 'f) scope = symbol_scope "('o, 'f) context_impl" | object_scope 'o

fun has_variable ::
    "('o, 'f, 'w) runtime \<Rightarrow> ('o, 'f) scope list \<Rightarrow> string \<Rightarrow> string \<Rightarrow> 'w \<Rightarrow> bool" where
  "has_variable rt [] name object w = False"
| "has_variable rt (symbol_scope c # parents) name object w =
     (if object \<noteq> [] then
        (case get_symbol c object of
           None \<Rightarrow> has_variable rt parents name object w
         | Some (object_symbol _ ob) \<Rightarrow> has_property rt ob name [] w
         | Some (variable_symbol _ v) \<Rightarrow> variant_member (rt_text_key rt) v name \<noteq> None
         | Some (function_symbol _ _) \<Rightarrow> False)
      else
        (case get_symbol c name of
           Some (variable_symbol _ _) \<Rightarrow> True
         | Some _ \<Rightarrow> False
         | None \<Rightarrow> has_variable rt parents name [] w))"
| "has_variable rt (object_scope ob # parents) name iface w = has_property rt ob name iface w"

text \<open>The static empty variant stands for what is not found.\<close>

fun get_variable ::
    "('o, 'f, 'w) runtime \<Rightarrow> ('o, 'f) scope list \<Rightarrow> string \<Rightarrow> string \<Rightarrow> ('w, variant) eval" where
  "get_variable rt [] name object = eval_result (Inr VNull)"
| "get_variable rt (symbol_scope c # parents) name object =
     (if object \<noteq> [] then
        (case get_symbol c object of
           None \<Rightarrow> get_variable rt parents name object
         | Some (object_symbol _ ob) \<Rightarrow> get_property rt ob name []
         | Some (variable_symbol _ v) \<Rightarrow>
             eval_result (Inr (case variant_member (rt_text_key rt) v name of Some x \<Rightarrow> x | None \<Rightarrow> VNull))
         | Some (function_symbol _ _) \<Rightarrow> eval_result (Inr VNull))
      else
        (case get_symbol c name of
           None \<Rightarrow> get_variable rt parents name []
         | Some (variable_symbol _ v) \<Rightarrow> eval_result (Inr v)
         | Some _ \<Rightarrow> eval_result (Inr VNull)))"
| "get_variable rt (object_scope ob # parents) name iface = get_property rt ob name iface"

fun has_function ::
    "('o, 'f, 'w) runtime \<Rightarrow> ('o, 'f) scope list \<Rightarrow> string \<Rightarrow> string \<Rightarrow> 'w \<Rightarrow> bool" where
  "has_function rt [] name object w = False"
| "has_function rt (symbol_scope c # parents) name object w =
     (if object \<noteq> [] then
        (case get_symbol c object of
           None \<Rightarrow> has_function rt parents name object w
         | Some (object_symbol _ ob) \<Rightarrow> has_method rt ob name [] w
         | Some _ \<Rightarrow> False)
      else
        (case get_symbol c name of
           Some (function_symbol _ _) \<Rightarrow> True
         | Some _ \<Rightarrow> False
         | None \<Rightarrow> has_function rt parents name [] w))"
| "has_function rt (object_scope ob # parents) name iface w = has_method rt ob name iface w"

fun invoke ::
    "('o, 'f, 'w) runtime \<Rightarrow> ('o, 'f) scope list \<Rightarrow> string \<Rightarrow> variant list \<Rightarrow> string \<Rightarrow>
     ('w, variant) eval" where
  "invoke rt [] name args object = eval_result (Inl invalid_arg_exception)"
| "invoke rt (symbol_scope c # parents) name args object =
     (if object \<noteq> [] then
        (case get_symbol c object of
           None \<Rightarrow> invoke rt parents name args object
         | Some (object_symbol _ ob) \<Rightarrow> invoke_method rt ob name args []
         | Some _ \<Rightarrow> eval_result (Inr VNull))
      else
        (case get_symbol c name of
           Some (function_symbol _ f) \<Rightarrow> call_function rt f args
         | _ \<Rightarrow> invoke rt parents name args object))"
| "invoke rt (object_scope ob # parents) name args iface = invoke_method rt ob name args iface"

section \<open>Nodes\<close>

definition truth :: "('o, 'f, 'w) runtime \<Rightarrow> variant \<Rightarrow> ('w, bool) eval" where
  "truth rt v = eval_result (as_bool (rt_extension rt) False v)"

text \<open>The switch of \<^verbatim>\<open>binary_op_node::evaluate\<close> behind the logical operators.\<close>

definition apply_binary ::
    "('o, 'f, 'w) runtime \<Rightarrow> operator_type \<Rightarrow> variant \<Rightarrow> variant \<Rightarrow> variant result" where
  "apply_binary rt op l r =
     (let m = rt_extension rt; sk = rt_same_key rt;
          bool = (\<lambda>q. bind_result q (\<lambda>b. Inr (VBool b)))
      in case op of
           add_op \<Rightarrow> variant_add m sk l r
         | sub_op \<Rightarrow> variant_sub m l r
         | mul_op \<Rightarrow> variant_mul m l r
         | div_op \<Rightarrow> variant_div m l r
         | mod_op \<Rightarrow> variant_mod m l r
         | eq_op \<Rightarrow> Inr (VBool (variant_equal m sk l r))
         | ne_op \<Rightarrow> Inr (VBool (\<not> variant_equal m sk l r))
         | lt_op \<Rightarrow> bool (variant_less m l r)
         | le_op \<Rightarrow> bool (variant_less_eq m l r)
         | gt_op \<Rightarrow> bool (variant_greater m l r)
         | ge_op \<Rightarrow> bool (variant_greater_eq m l r)
         | bit_and_op \<Rightarrow> variant_and m l r
         | bit_or_op \<Rightarrow> variant_or m l r
         | bit_xor_op \<Rightarrow> variant_xor m l r
         | lshift_op \<Rightarrow> variant_shift_left m l r
         | rshift_op \<Rightarrow> variant_shift_right m l r
         | _ \<Rightarrow> Inl invalid_arg_exception)"

definition apply_unary ::
    "('o, 'f, 'w) runtime \<Rightarrow> operator_type \<Rightarrow> variant \<Rightarrow> variant result" where
  "apply_unary rt op v =
     (let m = rt_extension rt in
      case op of
        neg_op \<Rightarrow> variant_negate m v
      | not_op \<Rightarrow> variant_not m v
      | bit_not_op \<Rightarrow> variant_not_bits m v
      | _ \<Rightarrow> Inl invalid_arg_exception)"

text \<open>\<^verbatim>\<open>variable_node::evaluate\<close>; with a name of an object also the first branch of
  \<^verbatim>\<open>property_access_node::evaluate\<close>.\<close>

definition evaluate_variable ::
    "('o, 'f, 'w) runtime \<Rightarrow> ('o, 'f) scope list \<Rightarrow> string \<Rightarrow> string \<Rightarrow> ('w, variant) eval" where
  "evaluate_variable rt ctx name object w =
     (if has_variable rt ctx name object w then get_variable rt ctx name object w
      else (Inl invalid_arg_exception, w))"

text \<open>\<^verbatim>\<open>property_access_node::evaluate\<close> behind the evaluation of its own property access.\<close>

definition member_of :: "('o, 'f, 'w) runtime \<Rightarrow> string \<Rightarrow> variant \<Rightarrow> variant result" where
  "member_of rt name v =
     (case variant_member (rt_text_key rt) v name of Some x \<Rightarrow> Inr x | None \<Rightarrow> Inl invalid_arg_exception)"

fun evaluate ::
    "('o, 'f, 'w) runtime \<Rightarrow> ('o, 'f) scope list \<Rightarrow> node \<Rightarrow> ('w, variant) eval"
  and evaluate_args ::
    "('o, 'f, 'w) runtime \<Rightarrow> ('o, 'f) scope list \<Rightarrow> node list \<Rightarrow> ('w, variant list) eval"
  and evaluate_parts ::
    "('o, 'f, 'w) runtime \<Rightarrow> ('o, 'f) scope list \<Rightarrow> node list \<Rightarrow> string list \<Rightarrow> variant \<Rightarrow>
     ('w, variant) eval" where
  "evaluate rt ctx (literal_node v) = eval_result (Inr v)"
| "evaluate rt ctx (variable_node name) = evaluate_variable rt ctx name []"
| "evaluate rt ctx (unary_op_node op n) =
     eval_bind (evaluate rt ctx n) (\<lambda>v. eval_result (apply_unary rt op v))"
| "evaluate rt ctx (binary_op_node op l r) =
     eval_bind (evaluate rt ctx l) (\<lambda>lv.
       if op = and_op then
         eval_bind (truth rt lv) (\<lambda>b.
           if \<not> b then eval_result (Inr (VBool False))
           else eval_bind (evaluate rt ctx r) (\<lambda>rv.
                  eval_bind (truth rt rv) (\<lambda>b. eval_result (Inr (VBool b)))))
       else if op = or_op then
         eval_bind (truth rt lv) (\<lambda>b.
           if b then eval_result (Inr (VBool True))
           else eval_bind (evaluate rt ctx r) (\<lambda>rv.
                  eval_bind (truth rt rv) (\<lambda>b. eval_result (Inr (VBool b)))))
       else eval_bind (evaluate rt ctx r) (\<lambda>rv. eval_result (apply_binary rt op lv rv)))"
| "evaluate rt ctx (conditional_node c t e) =
     eval_bind (evaluate rt ctx c) (\<lambda>v.
       eval_bind (truth rt v) (\<lambda>b. if b then evaluate rt ctx t else evaluate rt ctx e))"
| "evaluate rt ctx (function_call_node name args) =
     (\<lambda>w. if \<not> has_function rt ctx name [] w then (Inl invalid_arg_exception, w)
          else eval_bind (evaluate_args rt ctx args) (\<lambda>vs. invoke rt ctx name vs []) w)"
| "evaluate rt ctx (property_access_node ob name) =
     (case ob of
        variable_node object \<Rightarrow> evaluate_variable rt ctx name object
      | property_access_node ob' name' \<Rightarrow>
          eval_bind (evaluate rt ctx (property_access_node ob' name')) (\<lambda>v. eval_result (member_of rt name v))
      | _ \<Rightarrow> eval_result (Inl invalid_arg_exception))"
| "evaluate rt ctx (object_method_call_node ob name args) =
     (case ob of
        variable_node object \<Rightarrow>
          (\<lambda>w. if \<not> has_function rt ctx name object w then (Inl invalid_arg_exception, w)
               else eval_bind (evaluate_args rt ctx args) (\<lambda>vs. invoke rt ctx name vs object) w)
      | _ \<Rightarrow> eval_result (Inl invalid_arg_exception))"
| "evaluate rt ctx (template_string_node texts ns) =
     (if length texts \<noteq> length ns + 1 then eval_result (Inl invalid_arg_exception)
      else evaluate_parts rt ctx ns (tl texts) (VString (hd texts)))"
| "evaluate_args rt ctx [] = eval_result (Inr [])"
| "evaluate_args rt ctx (n # ns) =
     eval_bind (evaluate rt ctx n) (\<lambda>v.
       eval_bind (evaluate_args rt ctx ns) (\<lambda>vs. eval_result (Inr (v # vs))))"
| "evaluate_parts rt ctx [] texts acc = eval_result (Inr acc)"
| "evaluate_parts rt ctx (n # ns) texts acc =
     eval_bind (evaluate rt ctx n) (\<lambda>v.
       eval_bind (eval_result (add_assign (rt_extension rt) (rt_same_key rt) acc v)) (\<lambda>acc.
         eval_bind (eval_result (add_assign (rt_extension rt) (rt_same_key rt) acc (VString (hd texts))))
           (evaluate_parts rt ctx ns (tl texts))))"

section \<open>The engine\<close>

definition engine_evaluate ::
    "(variant \<Rightarrow> string) \<Rightarrow> ('o, 'f, 'w) runtime \<Rightarrow> string \<Rightarrow> ('o, 'f) scope list \<Rightarrow> ('w, variant) eval" where
  "engine_evaluate fmt rt expr ctx =
     eval_bind (eval_result (engine_compile fmt expr)) (evaluate rt ctx)"

text \<open>\<^verbatim>\<open>make_context\<close>: without a parent the global context is the parent, whose own parent is the
  context of the built-in functions.\<close>

definition make_context ::
    "('o, 'f) scope list \<Rightarrow> (variant \<times> variant) list \<Rightarrow> ('o, 'f) scope list option \<Rightarrow> ('o, 'f) scope list" where
  "make_context global variables parent =
     symbol_scope (import_from_dict variables new_context) #
       (case parent of Some p \<Rightarrow> p | None \<Rightarrow> global)"

definition make_object_context ::
    "('o, 'f) scope list \<Rightarrow> 'o \<Rightarrow> ('o, 'f) scope list option \<Rightarrow> ('o, 'f) scope list" where
  "make_object_context global ob parent =
     object_scope ob # (case parent of Some p \<Rightarrow> p | None \<Rightarrow> global)"

text \<open>\<^verbatim>\<open>resolve_object_path\<close>: the path of an object from a template; \<open>None\<close> when the pattern is not
  one. The parser's embedded expressions are compiled by the engine.\<close>

definition resolve_object_path ::
    "(variant \<Rightarrow> string) \<Rightarrow> ('o, 'f, 'w) runtime \<Rightarrow> ('o, 'f) scope list \<Rightarrow> string \<Rightarrow> 'o \<Rightarrow>
     ('w, string option) eval" where
  "resolve_object_path fmt rt global path_pattern ob =
     (if \<not> is_template_string path_pattern then eval_result (Inr None)
      else eval_bind (eval_result (bind_result (scan_template_string_tokens (new_lexer path_pattern))
             (\<lambda>tokens. parse fmt (engine_compile fmt) (new_parser tokens)))) (\<lambda>n.
             eval_bind (evaluate rt (make_object_context global ob None) n) (\<lambda>v.
               eval_result (case v of VString s \<Rightarrow> Inr (Some s) | _ \<Rightarrow> Inl invalid_arg_exception))))"

section \<open>Tables of symbols\<close>

text \<open>The names of a table point to registered symbols of that name, and the next number is free.\<close>

definition context_inv :: "('o, 'f) context_impl \<Rightarrow> bool" where
  "context_inv c \<longleftrightarrow>
     (\<forall>n i. cx_names c n = Some i \<longrightarrow> (\<exists>s. cx_symbols c i = Some s \<and> symbol_name s = n)) \<and>
     (\<forall>i \<ge> cx_next_id c. cx_symbols c i = None)"

lemma context_inv_names:
  "context_inv c \<Longrightarrow> cx_names c n = Some i \<Longrightarrow> i < cx_next_id c"
  by (metis context_inv_def not_less option.distinct(1))

lemma new_context_inv: "context_inv new_context"
  by (simp add: context_inv_def new_context_def)

lemma add_symbol_info_inv: "context_inv c \<Longrightarrow> context_inv (snd (add_symbol_info s c))"
  using context_inv_names [of c]
  by (auto simp: context_inv_def add_symbol_info_def Let_def)

lemma get_symbol_add:
  "context_inv c \<Longrightarrow>
     get_symbol (snd (add_symbol_info s c)) n = (if n = symbol_name s then Some s else get_symbol c n)"
  using context_inv_names [of c n]
  by (auto simp: get_symbol_def add_symbol_info_def Let_def split: option.splits)

lemma get_symbol_new [simp]: "get_symbol new_context n = None"
  by (simp add: get_symbol_def new_context_def)

text \<open>The operations on a table, and the symbol each of them registers.\<close>

datatype ('o, 'f) context_op =
    Register_variable string variant
  | Register_function "(string \<times> 'f) option"
  | Register_object string "'o option"
  | Import_dict "(variant \<times> variant) list"

fun context_step :: "('o, 'f) context_op \<Rightarrow> ('o, 'f) context_impl \<Rightarrow> ('o, 'f) context_impl" where
  "context_step (Register_variable n v) c = snd (register_variable n v c)"
| "context_step (Register_function f) c = snd (register_function f c)"
| "context_step (Register_object n ob) c = snd (register_object n ob c)"
| "context_step (Import_dict es) c = import_from_dict es c"

definition entry_symbols :: "variant \<times> variant \<Rightarrow> ('o, 'f) symbol_info list" where
  "entry_symbols e = (case fst e of VString s \<Rightarrow> [variable_symbol s (snd e)] | _ \<Rightarrow> [])"

fun registered :: "('o, 'f) context_op \<Rightarrow> ('o, 'f) symbol_info list" where
  "registered (Register_variable n v) = [variable_symbol n v]"
| "registered (Register_function f) = (case f of None \<Rightarrow> [] | Some (n, g) \<Rightarrow> [function_symbol n g])"
| "registered (Register_object n ob) = (case ob of None \<Rightarrow> [] | Some b \<Rightarrow> [object_symbol n b])"
| "registered (Import_dict es) = concat (map entry_symbols es)"

lemma import_from_dict_fold:
  "import_from_dict es c = fold (\<lambda>s c. snd (add_symbol_info s c)) (concat (map entry_symbols es)) c"
  by (induction es c rule: import_from_dict.induct)
     (auto simp: entry_symbols_def register_variable_def split: variant.splits)

lemma context_step_fold:
  "context_step q c = fold (\<lambda>s c. snd (add_symbol_info s c)) (registered q) c"
  by (cases q)
     (auto simp: import_from_dict_fold register_variable_def register_function_def register_object_def
        split: option.splits prod.splits)

lemma find_append:
  "List.find P (xs @ ys) = (case List.find P xs of Some x \<Rightarrow> Some x | None \<Rightarrow> List.find P ys)"
  by (induction xs) simp_all

lemma fold_add_symbols:
  "context_inv c \<Longrightarrow>
     context_inv (fold (\<lambda>s c. snd (add_symbol_info s c)) ss c) \<and>
     get_symbol (fold (\<lambda>s c. snd (add_symbol_info s c)) ss c) n =
       (case List.find (\<lambda>s. symbol_name s = n) (rev ss) of Some s \<Rightarrow> Some s | None \<Rightarrow> get_symbol c n)"
proof (induction ss arbitrary: c)
  case (Cons s ss)
  have "context_inv (snd (add_symbol_info s c))" by (rule add_symbol_info_inv) (rule Cons.prems)
  from Cons.IH [OF this] show ?case
    by (auto simp: get_symbol_add Cons.prems find_append split: option.splits)
qed simp

text \<open>
  A context answers with the last registration: after any sequence of registrations and imports,
  the symbol under a name is the last variable, function or object that was registered with it, and
  no refused registration (a null function or object, a key that is not a string) leaves a trace.
\<close>

theorem context_last_registration:
  "get_symbol (fold context_step qs new_context) n =
     List.find (\<lambda>s. symbol_name s = n) (rev (concat (map registered qs)))"
proof -
  have "fold context_step qs c = fold (\<lambda>s c. snd (add_symbol_info s c)) (concat (map registered qs)) c"
    for c :: "('a, 'b) context_impl"
    by (induction qs arbitrary: c) (simp_all add: context_step_fold)
  then show ?thesis
    using fold_add_symbols [OF new_context_inv, of "concat (map registered qs)" n]
    by (cases "List.find (\<lambda>s. symbol_name s = n) (rev (concat (map registered qs)))") simp_all
qed

section \<open>What an evaluation depends on\<close>

text \<open>
  The variables a node asks the context for, the members of objects and the functions, the latter two
  as pairs of a name and an object.
\<close>

fun variable_refs :: "node \<Rightarrow> string list" where
  "variable_refs (literal_node v) = []"
| "variable_refs (variable_node name) = [name]"
| "variable_refs (unary_op_node op n) = variable_refs n"
| "variable_refs (binary_op_node op l r) = variable_refs l @ variable_refs r"
| "variable_refs (function_call_node name args) = concat (map variable_refs args)"
| "variable_refs (conditional_node c t e) = variable_refs c @ variable_refs t @ variable_refs e"
| "variable_refs (property_access_node ob name) = []"
| "variable_refs (object_method_call_node ob name args) = concat (map variable_refs args)"
| "variable_refs (template_string_node texts ns) = concat (map variable_refs ns)"

fun member_refs :: "node \<Rightarrow> (string \<times> string) list" where
  "member_refs (literal_node v) = []"
| "member_refs (variable_node name) = []"
| "member_refs (unary_op_node op n) = member_refs n"
| "member_refs (binary_op_node op l r) = member_refs l @ member_refs r"
| "member_refs (function_call_node name args) = concat (map member_refs args)"
| "member_refs (conditional_node c t e) = member_refs c @ member_refs t @ member_refs e"
| "member_refs (property_access_node ob name) =
     (case ob of
        variable_node object \<Rightarrow> [(name, object)]
      | property_access_node _ _ \<Rightarrow> member_refs ob
      | _ \<Rightarrow> [])"
| "member_refs (object_method_call_node ob name args) = concat (map member_refs args)"
| "member_refs (template_string_node texts ns) = concat (map member_refs ns)"

fun function_refs :: "node \<Rightarrow> (string \<times> string) list" where
  "function_refs (literal_node v) = []"
| "function_refs (variable_node name) = []"
| "function_refs (unary_op_node op n) = function_refs n"
| "function_refs (binary_op_node op l r) = function_refs l @ function_refs r"
| "function_refs (function_call_node name args) = (name, []) # concat (map function_refs args)"
| "function_refs (conditional_node c t e) = function_refs c @ function_refs t @ function_refs e"
| "function_refs (property_access_node ob name) = []"
| "function_refs (object_method_call_node ob name args) =
     (case ob of variable_node object \<Rightarrow> [(name, object)] | _ \<Rightarrow> []) @ concat (map function_refs args)"
| "function_refs (template_string_node texts ns) = concat (map function_refs ns)"

definition same_variable ::
    "('o, 'f, 'w) runtime \<Rightarrow> ('o, 'f) scope list \<Rightarrow> ('o, 'f) scope list \<Rightarrow> string \<times> string \<Rightarrow> bool" where
  "same_variable rt ctx ctx' r \<longleftrightarrow>
     has_variable rt ctx (fst r) (snd r) = has_variable rt ctx' (fst r) (snd r) \<and>
     get_variable rt ctx (fst r) (snd r) = get_variable rt ctx' (fst r) (snd r)"

definition same_function ::
    "('o, 'f, 'w) runtime \<Rightarrow> ('o, 'f) scope list \<Rightarrow> ('o, 'f) scope list \<Rightarrow> string \<times> string \<Rightarrow> bool" where
  "same_function rt ctx ctx' r \<longleftrightarrow>
     has_function rt ctx (fst r) (snd r) = has_function rt ctx' (fst r) (snd r) \<and>
     (\<forall>args. invoke rt ctx (fst r) args (snd r) = invoke rt ctx' (fst r) args (snd r))"

text \<open>The literals that stand for variables in \<open>substitute\<close>; objects of member accesses are names,
  not values, and stay.\<close>

fun substitute :: "(string \<Rightarrow> variant option) \<Rightarrow> node \<Rightarrow> node" where
  "substitute g (literal_node v) = literal_node v"
| "substitute g (variable_node name) =
     (case g name of Some v \<Rightarrow> literal_node v | None \<Rightarrow> variable_node name)"
| "substitute g (unary_op_node op n) = unary_op_node op (substitute g n)"
| "substitute g (binary_op_node op l r) = binary_op_node op (substitute g l) (substitute g r)"
| "substitute g (function_call_node name args) = function_call_node name (map (substitute g) args)"
| "substitute g (conditional_node c t e) =
     conditional_node (substitute g c) (substitute g t) (substitute g e)"
| "substitute g (property_access_node ob name) = property_access_node ob name"
| "substitute g (object_method_call_node ob name args) =
     object_method_call_node ob name (map (substitute g) args)"
| "substitute g (template_string_node texts ns) = template_string_node texts (map (substitute g) ns)"

lemma substitute_empty [simp]: "substitute Map.empty n = n"
  by (induction n) (simp_all add: map_idI)

definition bound_as ::
    "(string \<Rightarrow> variant option) \<Rightarrow> ('o, 'f, 'w) runtime \<Rightarrow> ('o, 'f) scope list \<Rightarrow> ('o, 'f) scope list \<Rightarrow>
     string \<Rightarrow> bool" where
  "bound_as g rt ctx ctx' x =
     (case g x of
        None \<Rightarrow> same_variable rt ctx ctx' (x, [])
      | Some v \<Rightarrow> evaluate_variable rt ctx x [] = eval_result (Inr v))"

definition agree_on ::
    "(string \<Rightarrow> variant option) \<Rightarrow> ('o, 'f, 'w) runtime \<Rightarrow> ('o, 'f) scope list \<Rightarrow> ('o, 'f) scope list \<Rightarrow>
     node \<Rightarrow> bool" where
  "agree_on g rt ctx ctx' n \<longleftrightarrow>
     list_all (bound_as g rt ctx ctx') (variable_refs n) \<and>
     list_all (same_variable rt ctx ctx') (member_refs n) \<and>
     list_all (same_function rt ctx ctx') (function_refs n)"

lemma evaluate_variable_same:
  "same_variable rt ctx ctx' (name, object) \<Longrightarrow>
     evaluate_variable rt ctx name object = evaluate_variable rt ctx' name object"
  by (simp add: fun_eq_iff evaluate_variable_def same_variable_def)

lemma agree_aux:
  "agree_on g rt ctx ctx' n \<Longrightarrow> evaluate rt ctx n = evaluate rt ctx' (substitute g n)"
  "list_all (agree_on g rt ctx ctx') ns \<Longrightarrow> evaluate_args rt ctx ns = evaluate_args rt ctx' (map (substitute g) ns)"
  "list_all (agree_on g rt ctx ctx') ns \<Longrightarrow>
     evaluate_parts rt ctx ns texts acc = evaluate_parts rt ctx' (map (substitute g) ns) texts acc"
proof (induction rt ctx n and rt ctx ns and rt ctx ns texts acc
    rule: evaluate_evaluate_args_evaluate_parts.induct)
  case (4 rt ctx op l r)
  then have "agree_on g rt ctx ctx' l" "agree_on g rt ctx ctx' r" by (simp_all add: agree_on_def)
  moreover from this(2) 4(2-4) have "evaluate rt ctx r = evaluate rt ctx' (substitute g r)"
    by (cases "op = and_op"; cases "op = or_op") auto
  ultimately show ?case using 4(1) by (simp cong: if_cong)
next
  case (5 rt ctx c t e)
  then have "agree_on g rt ctx ctx' c" "agree_on g rt ctx ctx' t" "agree_on g rt ctx ctx' e"
    by (simp_all add: agree_on_def)
  with 5(1) 5(2) [of True] 5(3) [of False] show ?case by (simp cong: if_cong)
next
  case (13 rt ctx n ns texts acc)
  then have "evaluate_parts rt ctx ns (tl texts) = evaluate_parts rt ctx' (map (substitute g) ns) (tl texts)"
    by (simp add: fun_eq_iff [of "evaluate_parts rt ctx ns (tl texts)"])
  with 13 show ?case by simp
next
  case (6 rt ctx name args)
  then have a: "list_all (agree_on g rt ctx ctx') args"
    by (auto simp: agree_on_def list_all_iff)
  have f: "same_function rt ctx ctx' (name, [])" using 6 by (simp add: agree_on_def)
  show ?case
  proof
    fix w
    have ih: "evaluate_args rt ctx args = evaluate_args rt ctx' (map (substitute g) args)" if "has_function rt ctx name [] w"
      using 6(1) a that by blast
    show "evaluate rt ctx (function_call_node name args) w = evaluate rt ctx' (substitute g (function_call_node name args)) w"
      using f ih
      by (cases "has_function rt ctx name [] w") (simp_all add: same_function_def eval_bind_def)
  qed
next
  case (7 rt ctx ob name)
  show ?case
  proof (cases ob)
    case (variable_node object)
    with 7(2) show ?thesis by (simp add: agree_on_def evaluate_variable_same)
  next
    case (property_access_node ob' name')
    have "agree_on g rt ctx ctx' ob" using 7(2) property_access_node by (simp add: agree_on_def)
    with 7(1) [OF property_access_node] property_access_node
    have "evaluate rt ctx ob = evaluate rt ctx' ob" by simp
    then show ?thesis
      unfolding property_access_node evaluate.simps(7) [of _ _ "property_access_node _ _"] by simp
  qed simp_all
next
  case (8 rt ctx ob name args)
  show ?case
  proof (cases ob)
    case (variable_node object)
    with 8 have a: "list_all (agree_on g rt ctx ctx') args"
      by (auto simp: agree_on_def list_all_iff)
    have f: "same_function rt ctx ctx' (name, object)" using 8 variable_node by (simp add: agree_on_def)
    show ?thesis
    proof
      fix w
      have ih: "evaluate_args rt ctx args = evaluate_args rt ctx' (map (substitute g) args)" if "has_function rt ctx name object w"
        using 8(1) [OF variable_node] a that by blast
      show "evaluate rt ctx (object_method_call_node ob name args) w =
          evaluate rt ctx' (substitute g (object_method_call_node ob name args)) w"
        using f ih
        by (cases "has_function rt ctx name object w")
           (simp_all add: same_function_def eval_bind_def variable_node)
    qed
  qed simp_all
next
  case (9 rt ctx texts ns)
  then have "list_all (agree_on g rt ctx ctx') ns"
    by (auto simp: agree_on_def list_all_iff)
  with 9 show ?case by simp
qed (simp_all add: agree_on_def evaluate_variable_same bound_as_def split: option.splits)

text \<open>
  C29. An evaluation depends on its context only through the names in the expression: two chains of
  contexts that answer the same for the variables, the members and the functions the expression
  mentions give the same value, the same error and the same effects.
\<close>

theorem evaluate_depends_on_names:
  assumes "list_all (\<lambda>x. same_variable rt ctx ctx' (x, [])) (variable_refs n)"
    and "list_all (same_variable rt ctx ctx') (member_refs n)"
    and "list_all (same_function rt ctx ctx') (function_refs n)"
  shows "evaluate rt ctx n = evaluate rt ctx' n"
proof -
  have "agree_on Map.empty rt ctx ctx' n" using assms by (simp add: agree_on_def list_all_iff bound_as_def)
  from agree_aux(1) [OF this] show ?thesis by simp
qed

lemma get_symbol_register:
  "context_inv c \<Longrightarrow>
     get_symbol (snd (register_variable x v c)) n =
       (if n = x then Some (variable_symbol x v) else get_symbol c n)"
  by (simp add: register_variable_def get_symbol_add)

lemma registered_elsewhere:
  assumes "context_inv c" and "x \<noteq> name" and "x \<noteq> object"
  shows "same_variable rt (symbol_scope (snd (register_variable x v c)) # ctx) (symbol_scope c # ctx)
      (name, object)"
    and "same_function rt (symbol_scope (snd (register_variable x v c)) # ctx) (symbol_scope c # ctx)
      (name, object)"
  using assms by (auto simp: same_variable_def same_function_def get_symbol_register fun_eq_iff)

lemma member_registered_elsewhere:
  assumes "context_inv c" and "x \<noteq> object" and "object \<noteq> []"
  shows "same_variable rt (symbol_scope (snd (register_variable x v c)) # ctx) (symbol_scope c # ctx)
      (name, object)"
    and "same_function rt (symbol_scope (snd (register_variable x v c)) # ctx) (symbol_scope c # ctx)
      (name, object)"
  using assms by (auto simp: same_variable_def same_function_def get_symbol_register fun_eq_iff)

text \<open>
  C24. Binding is substitution: evaluating with a variable registered in the innermost context is
  evaluating the expression with the value written in its place, when the expression does not use
  the name for a function or for the object of a member access. A registration therefore also hides
  every outer variable, function or object of that name.
\<close>

theorem register_variable_substitutes:
  assumes "context_inv c"
    and "x \<notin> fst ` set (function_refs n)" and "x \<notin> snd ` set (function_refs n @ member_refs n)"
    and "[] \<notin> snd ` set (member_refs n)"
  shows "evaluate rt (symbol_scope (snd (register_variable x v c)) # ctx) n =
    evaluate rt (symbol_scope c # ctx) (substitute [x \<mapsto> v] n)"
proof (rule agree_aux(1))
  let ?ctx = "symbol_scope (snd (register_variable x v c)) # ctx" and ?ctx' = "symbol_scope c # ctx"
  have b: "bound_as [x \<mapsto> v] rt ?ctx ?ctx' y" if "y \<in> set (variable_refs n)" for y
    using assms(1) registered_elsewhere(1) [OF assms(1), of x y "[]"]
    by (auto simp: bound_as_def evaluate_variable_def get_symbol_register fun_eq_iff eval_result_def
        same_variable_def)
  have m: "same_variable rt ?ctx ?ctx' r" if "r \<in> set (member_refs n)" for r
    using that assms member_registered_elsewhere(1) [of c x "snd r" rt v ctx "fst r"] by force
  have f: "same_function rt ?ctx ?ctx' r" if "r \<in> set (function_refs n)" for r
    using that assms registered_elsewhere(2) [of c x "fst r" "snd r" rt v ctx] by force
  show "agree_on [x \<mapsto> v] rt ?ctx ?ctx' n"
    using b m f by (simp add: agree_on_def list_all_iff)
qed

section \<open>Effects\<close>

text \<open>No function is called, and the contexts are tables without objects.\<close>

definition table_of_values :: "('o, 'f) scope \<Rightarrow> bool" where
  "table_of_values s =
     (case s of
        object_scope _ \<Rightarrow> False
      | symbol_scope c \<Rightarrow> (\<forall>i. case cx_symbols c i of Some (object_symbol _ _) \<Rightarrow> False | _ \<Rightarrow> True))"

definition pure_eval :: "('w, 'a) eval \<Rightarrow> bool" where
  "pure_eval e \<longleftrightarrow> (\<exists>r. e = eval_result r)"

lemma pure_evalI [intro!, simp]: "pure_eval (eval_result r)"
  by (auto simp: pure_eval_def)

lemma pure_eval_bind: "pure_eval e \<Longrightarrow> (\<And>v. pure_eval (f v)) \<Longrightarrow> pure_eval (eval_bind e f)"
  unfolding pure_eval_def
proof (elim exE)
  fix r assume e: "e = eval_result r" and f: "\<And>v. \<exists>r. f v = eval_result r"
  show "\<exists>r. eval_bind e f = eval_result r"
    using f by (cases r) (auto simp: e)
qed

lemma table_of_values_symbol:
  "table_of_values (symbol_scope c) \<Longrightarrow> get_symbol c n \<noteq> Some (object_symbol m ob)"
  by (auto simp: table_of_values_def get_symbol_def split: option.splits symbol_info.splits)

lemma tables_variable:
  "list_all table_of_values ctx \<Longrightarrow>
     (\<forall>w w'. has_variable rt ctx name object w = has_variable rt ctx name object w') \<and>
     pure_eval (get_variable rt ctx name object)"
proof (induction rt ctx name object rule: get_variable.induct)
  case (2 rt c parents name object)
  then show ?case
    using table_of_values_symbol [of c object] table_of_values_symbol [of c name]
    by (auto split: option.splits symbol_info.splits)
qed (auto simp: table_of_values_def)

lemma pure_evaluate_variable:
  assumes "list_all table_of_values ctx"
  shows "pure_eval (evaluate_variable rt ctx name object)"
proof -
  obtain r where r: "get_variable rt ctx name object = eval_result r"
    using conjunct2 [OF tables_variable [OF assms, of rt name object]] unfolding pure_eval_def by blast
  obtain b where b: "\<And>w. has_variable rt ctx name object w = b"
    using conjunct1 [OF tables_variable [OF assms, of rt name object]] by metis
  show ?thesis
    by (cases b) (auto simp: pure_eval_def evaluate_variable_def fun_eq_iff b r eval_result_def)
qed

fun calls_nothing :: "node \<Rightarrow> bool" where
  "calls_nothing (literal_node v) = True"
| "calls_nothing (variable_node name) = True"
| "calls_nothing (unary_op_node op n) = calls_nothing n"
| "calls_nothing (binary_op_node op l r) = (calls_nothing l \<and> calls_nothing r)"
| "calls_nothing (function_call_node name args) = False"
| "calls_nothing (conditional_node c t e) = (calls_nothing c \<and> calls_nothing t \<and> calls_nothing e)"
| "calls_nothing (property_access_node ob name) = True"
| "calls_nothing (object_method_call_node ob name args) = False"
| "calls_nothing (template_string_node texts ns) = list_all calls_nothing ns"

lemma pure_aux:
  "list_all table_of_values ctx \<Longrightarrow> calls_nothing n \<Longrightarrow> pure_eval (evaluate rt ctx n)"
  "list_all table_of_values ctx \<Longrightarrow> list_all calls_nothing ns \<Longrightarrow> pure_eval (evaluate_args rt ctx ns)"
  "list_all table_of_values ctx \<Longrightarrow> list_all calls_nothing ns \<Longrightarrow>
     pure_eval (evaluate_parts rt ctx ns texts acc)"
proof (induction rt ctx n and rt ctx ns and rt ctx ns texts acc
    rule: evaluate_evaluate_args_evaluate_parts.induct)
  case (4 rt ctx op l r)
  then have l: "pure_eval (evaluate rt ctx l)" by simp
  have r: "pure_eval (evaluate rt ctx r)"
    using 4(2-) by (cases "op = and_op"; cases "op = or_op") auto
  have t: "pure_eval (truth rt v)" for v by (auto simp: truth_def)
  show ?case using l r t by (auto intro!: pure_eval_bind)
next
  case (5 rt ctx c t e)
  then have "pure_eval (evaluate rt ctx c)" "pure_eval (evaluate rt ctx t)" "pure_eval (evaluate rt ctx e)"
    using 5(2) [of True] 5(3) [of False] by auto
  moreover have "pure_eval (truth rt v)" for v by (auto simp: truth_def)
  ultimately show ?case by (auto intro!: pure_eval_bind)
next
  case (7 rt ctx ob name)
  show ?case
  proof (cases ob)
    case (variable_node object)
    with 7(2) show ?thesis by (simp add: pure_evaluate_variable)
  next
    case (property_access_node ob' name')
    from 7(1) [OF property_access_node] 7(2) have "pure_eval (evaluate rt ctx (property_access_node ob' name'))"
      by simp
    then show ?thesis
      unfolding property_access_node evaluate.simps(7) [of _ _ "property_access_node _ _"]
      by (auto intro!: pure_eval_bind)
  qed auto
qed (auto intro!: pure_eval_bind pure_evaluate_variable)

text \<open>
  An expression without calls has no effects: over tables of variables and functions its outcome
  does not depend on the state of the world, and the world is left as it was.
\<close>

theorem evaluate_without_calls_pure:
  assumes "calls_nothing n" and "list_all table_of_values ctx"
  shows "\<exists>r. \<forall>w. evaluate rt ctx n w = (r, w)"
  using pure_aux(1) [OF assms(2,1), of rt] by (auto simp: pure_eval_def eval_result_def)

section \<open>Text and value\<close>

text \<open>
  Evaluating the text of an expression is evaluating the expression: the printed form of a
  printable node, compiled and evaluated by the engine in any context, gives the outcome and the
  effects of the node itself.
\<close>

theorem engine_evaluate_node_text:
  assumes "prints_scalars enc" and "printable n"
  shows "engine_evaluate fmt rt (node_to_string enc n) ctx = evaluate rt ctx n"
proof -
  have "engine_compile fmt (node_to_string enc n) = Inr n"
    by (intro reads_back_compiles printable_reads_back assms)
  then show ?thesis by (simp add: engine_evaluate_def)
qed

section \<open>Instances\<close>

text \<open>A runtime without objects in which a function call counts.\<close>

definition counting_runtime :: "(unit, unit, nat) runtime" where
  "counting_runtime =
     \<lparr>call_function = (\<lambda>f args w. (Inr (VInt int64_type (of_nat w)), w + 1)),
      has_property = (\<lambda>ob n i w. False), has_method = (\<lambda>ob n i w. False),
      get_property = (\<lambda>ob n i. eval_result (Inr VNull)),
      invoke_method = (\<lambda>ob n args i. eval_result (Inl invalid_arg_exception)),
      rt_extension = no_extensions, rt_same_key = (=), rt_text_key = (\<lambda>s k. k = VString s)\<rparr>"

theorem evaluate_depends_on_names_witness:
  "evaluate counting_runtime [symbol_scope (snd (register_variable ''x'' (VBool True) new_context))]
     (unary_op_node not_op (variable_node ''x'')) =
   evaluate counting_runtime
     [symbol_scope new_context, symbol_scope (snd (register_variable ''x'' (VBool True) new_context))]
     (unary_op_node not_op (variable_node ''x''))"
  by (rule evaluate_depends_on_names)
     (simp_all add: same_variable_def get_symbol_register new_context_inv fun_eq_iff)

theorem register_variable_substitutes_witness:
  "evaluate counting_runtime [symbol_scope (snd (register_variable ''x'' (VBool True) new_context))]
     (binary_op_node and_op (variable_node ''x'') (function_call_node ''f'' [])) =
   evaluate counting_runtime [symbol_scope new_context]
     (binary_op_node and_op (literal_node (VBool True)) (function_call_node ''f'' []))"
  using register_variable_substitutes [OF new_context_inv, of "''x''"
      "binary_op_node and_op (variable_node ''x'') (function_call_node ''f'' [])"
      counting_runtime "VBool True" "[]"]
  by simp

theorem evaluate_without_calls_pure_witness:
  "\<exists>r. \<forall>w. evaluate counting_runtime
     [symbol_scope (snd (register_variable ''x'' (VBool True) new_context))]
     (unary_op_node not_op (variable_node ''x'')) w = (r, w)"
  by (rule evaluate_without_calls_pure)
     (simp_all add: table_of_values_def register_variable_def add_symbol_info_def new_context_def)

theorem engine_evaluate_node_text_witness:
  "engine_evaluate (\<lambda>v. '''') counting_runtime ''(-x && f(1))'' [] =
   evaluate counting_runtime []
     (binary_op_node and_op (unary_op_node neg_op (variable_node ''x''))
        (function_call_node ''f'' [literal_node (VInt int64_type 1)]))"
proof -
  let ?enc = "\<lambda>v. case v of VInt k i \<Rightarrow> decimal (sint i) | VBool b \<Rightarrow> (if b then ''true'' else ''false'') | _ \<Rightarrow> ''''"
  let ?n = "binary_op_node and_op (unary_op_node neg_op (variable_node ''x''))
        (function_call_node ''f'' [literal_node (VInt int64_type 1)])"
  have p: "prints_scalars ?enc" by (simp add: prints_scalars_def)
  have n: "printable ?n" by code_simp
  have "node_to_string ?enc ?n = ''(-x && f(1))''" by code_simp
  with engine_evaluate_node_text [OF p n, of "\<lambda>v. ''''" counting_runtime "[]"] show ?thesis by (simp only:)
qed

end
