(* ===== verification/DictIndex.thy ===== *)
theory DictIndex
  imports Prelude "HOL-Library.Multiset" "HOL-Library.Monad_Syntax"
begin

text \<open>
  The hash index of a dict (\<^verbatim>\<open>libraries/mcbase/src/dict/index.cpp\<close>): open addressing with Robin Hood
  displacement on insertion and backward shift on removal. A slot is a null pointer or an entry,
  of which the index reads the cached hash code; \<open>hash\<close> is that field. The bucket count is the
  length of the slots, whether they are the inline array or allocated ones. The loops that end only
  because a slot is free are \<open>partial_function\<close>s, whose result \<open>None\<close> is not to return.
\<close>

section \<open>The index\<close>

record 'e dict_index =
  ix_slots :: "'e option list"
  ix_size :: nat

definition inline_bucket_count :: nat where
  "inline_bucket_count = 8"

definition new_index :: "'e dict_index" where
  "new_index = \<lparr>ix_slots = replicate inline_bucket_count None, ix_size = 0\<rparr>"

definition bucket_count :: "'e dict_index \<Rightarrow> nat" where
  "bucket_count ix = length (ix_slots ix)"

function normalize_from :: "nat \<Rightarrow> nat \<Rightarrow> nat" where
  "normalize_from normalized buckets =
     (if 0 < normalized \<and> normalized < buckets then normalize_from (2 * normalized) buckets else normalized)"
  by pat_completeness auto
termination by (relation "measure (\<lambda>(normalized, buckets). buckets - normalized)") auto

declare normalize_from.simps [simp del]

definition normalize_bucket_count :: "nat \<Rightarrow> nat" where
  "normalize_bucket_count buckets = normalize_from inline_bucket_count buckets"

definition required_bucket_count :: "nat \<Rightarrow> nat" where
  "required_bucket_count n = max inline_bucket_count ((n * 8 + 7 - 1) div 7)"

definition ideal_index :: "nat \<Rightarrow> u64 \<Rightarrow> nat" where
  "ideal_index buckets h = unat h AND (buckets - 1)"

definition probe_distance :: "nat \<Rightarrow> nat \<Rightarrow> u64 \<Rightarrow> nat" where
  "probe_distance buckets slot h = (slot + buckets - ideal_index buckets h) AND (buckets - 1)"

definition next_index :: "nat \<Rightarrow> nat \<Rightarrow> nat" where
  "next_index buckets i = (i + 1) AND (buckets - 1)"

section \<open>Search\<close>

lemma and_le: "(m :: nat) AND n \<le> n"
proof -
  have "int (m AND n) \<le> int n" by (simp add: of_nat_and_eq AND_upper2)
  then show ?thesis by simp
qed

lemma probe_distance_le: "probe_distance buckets slot h \<le> buckets - 1"
  by (simp add: probe_distance_def and_le)

text \<open>
  The loop of both \<^verbatim>\<open>find\<close>s and of \<^verbatim>\<open>erase\<close>: \<open>found\<close> is the comparison with the hash code and the
  key, or with the address of an entry.
\<close>

function probe_loop ::
    "('e \<Rightarrow> u64) \<Rightarrow> 'e option list \<Rightarrow> ('e \<Rightarrow> bool) \<Rightarrow> nat \<Rightarrow> nat \<Rightarrow> nat option" where
  "probe_loop hash slots found index distance =
     (case slots ! index of
        None \<Rightarrow> None
      | Some current \<Rightarrow>
          if probe_distance (length slots) index (hash current) < distance then None
          else if found current then Some index
          else probe_loop hash slots found (next_index (length slots) index) (distance + 1))"
  by pat_completeness auto
termination
proof (relation "measure (\<lambda>(hash, slots, found, index, distance). Suc (length slots) - distance)", goal_cases)
  case (2 hash slots found index distance current)
  then show ?case
    using probe_distance_le [of "length slots" index "hash current"] by auto
qed simp

declare probe_loop.simps [simp del]

definition find_slot ::
    "('e \<Rightarrow> u64) \<Rightarrow> u64 \<Rightarrow> ('e \<Rightarrow> bool) \<Rightarrow> 'e dict_index \<Rightarrow> nat option" where
  "find_slot hash h found ix =
     (if ix_size ix = 0 then None
      else probe_loop hash (ix_slots ix) found (ideal_index (bucket_count ix) h) 0)"

text \<open>\<^verbatim>\<open>find\<close> compares the hash codes before the keys; \<open>key_equal\<close> is the comparison with the key
  looked up.\<close>

definition index_find ::
    "('e \<Rightarrow> u64) \<Rightarrow> u64 \<Rightarrow> ('e \<Rightarrow> bool) \<Rightarrow> 'e dict_index \<Rightarrow> 'e option" where
  "index_find hash h key_equal ix =
     (case find_slot hash h (\<lambda>e. hash e = h \<and> key_equal e) ix of
        None \<Rightarrow> None
      | Some i \<Rightarrow> ix_slots ix ! i)"

section \<open>Insertion\<close>

partial_function (option) insert_loop ::
    "('e \<Rightarrow> u64) \<Rightarrow> 'e option list \<Rightarrow> 'e \<Rightarrow> nat \<Rightarrow> nat \<Rightarrow> 'e option list option" where
  "insert_loop hash slots current index distance =
     (case slots ! index of
        None \<Rightarrow> Some (slots[index := Some current])
      | Some s \<Rightarrow>
          let slot_distance = probe_distance (length slots) index (hash s);
              next = next_index (length slots) index
          in if slot_distance < distance
             then insert_loop hash (slots[index := Some current]) s next (slot_distance + 1)
             else insert_loop hash slots current next (distance + 1))"

definition insert_existing ::
    "('e \<Rightarrow> u64) \<Rightarrow> 'e \<Rightarrow> 'e option list \<Rightarrow> 'e option list option" where
  "insert_existing hash e slots =
     insert_loop hash slots e (ideal_index (length slots) (hash e)) 0"

fun insert_all ::
    "('e \<Rightarrow> u64) \<Rightarrow> 'e option list \<Rightarrow> 'e option list \<Rightarrow> 'e option list option" where
  "insert_all hash [] slots = Some slots"
| "insert_all hash (None # old) slots = insert_all hash old slots"
| "insert_all hash (Some e # old) slots =
     Option.bind (insert_existing hash e slots) (insert_all hash old)"

definition rehash ::
    "('e \<Rightarrow> u64) \<Rightarrow> nat \<Rightarrow> 'e option list \<Rightarrow> 'e option list option" where
  "rehash hash new_bucket_count slots =
     (let target = normalize_bucket_count new_bucket_count
      in if target = length slots then Some slots
         else insert_all hash slots (replicate target None))"

definition maybe_grow :: "('e \<Rightarrow> u64) \<Rightarrow> 'e dict_index \<Rightarrow> 'e option list option" where
  "maybe_grow hash ix =
     (if (ix_size ix + 1) * 8 \<le> bucket_count ix * 7 then Some (ix_slots ix)
      else rehash hash (2 * bucket_count ix) (ix_slots ix))"

definition index_insert :: "('e \<Rightarrow> u64) \<Rightarrow> 'e \<Rightarrow> 'e dict_index \<Rightarrow> 'e dict_index option" where
  "index_insert hash e ix =
     Option.bind (maybe_grow hash ix) (\<lambda>slots.
       Option.bind (insert_existing hash e slots) (\<lambda>slots.
         Some \<lparr>ix_slots = slots, ix_size = ix_size ix + 1\<rparr>))"

section \<open>Removal\<close>

partial_function (option) erase_at ::
    "('e \<Rightarrow> u64) \<Rightarrow> 'e option list \<Rightarrow> nat \<Rightarrow> 'e option list option" where
  "erase_at hash slots index =
     (let next = next_index (length slots) index
      in case slots ! next of
           None \<Rightarrow> Some (slots[index := None])
         | Some e \<Rightarrow>
             if probe_distance (length slots) next (hash e) = 0 then Some (slots[index := None])
             else erase_at hash (slots[index := Some e]) next)"

definition maybe_shrink :: "('e \<Rightarrow> u64) \<Rightarrow> 'e dict_index \<Rightarrow> 'e dict_index option" where
  "maybe_shrink hash ix =
     (if bucket_count ix = inline_bucket_count \<or> ix_size ix * 4 > bucket_count ix then Some ix
      else Option.bind (rehash hash (bucket_count ix div 2) (ix_slots ix))
             (\<lambda>slots. Some (ix\<lparr>ix_slots := slots\<rparr>)))"

text \<open>\<open>is_item\<close> compares the addresses.\<close>

definition index_erase ::
    "('e \<Rightarrow> u64) \<Rightarrow> u64 \<Rightarrow> ('e \<Rightarrow> bool) \<Rightarrow> 'e dict_index \<Rightarrow> 'e dict_index option" where
  "index_erase hash h is_item ix =
     (case find_slot hash h is_item ix of
        None \<Rightarrow> Some ix
      | Some i \<Rightarrow>
          Option.bind (erase_at hash (ix_slots ix) i) (\<lambda>slots.
            maybe_shrink hash \<lparr>ix_slots = slots, ix_size = ix_size ix - 1\<rparr>))"

definition index_clear :: "'e dict_index \<Rightarrow> 'e dict_index" where
  "index_clear ix = \<lparr>ix_slots = replicate inline_bucket_count None, ix_size = 0\<rparr>"

definition index_reserve :: "('e \<Rightarrow> u64) \<Rightarrow> nat \<Rightarrow> 'e dict_index \<Rightarrow> 'e dict_index option" where
  "index_reserve hash n ix =
     (let target = normalize_bucket_count (required_bucket_count n)
      in if target > bucket_count ix
         then Option.bind (rehash hash target (ix_slots ix)) (\<lambda>slots. Some (ix\<lparr>ix_slots := slots\<rparr>))
         else Some ix)"

section \<open>Slots in a ring\<close>

text \<open>The bucket counts are powers of two, so that the masks are remainders.\<close>

definition ring :: "nat \<Rightarrow> bool" where
  "ring n \<longleftrightarrow> (\<exists>k. n = 2 ^ k)"

lemma ring_pos: "ring n \<Longrightarrow> 0 < n"
  by (auto simp: ring_def)

lemma ring_and: "ring n \<Longrightarrow> m AND (n - 1) = m mod n"
  unfolding ring_def by (metis mask_eq_exp_minus_1 take_bit_eq_mask take_bit_eq_mod)

definition prev_index :: "nat \<Rightarrow> nat \<Rightarrow> nat" where
  "prev_index n i = (i + n - 1) mod n"

text \<open>The slot that is tried \<open>t\<close> steps behind the ideal one.\<close>

definition at_step :: "nat \<Rightarrow> u64 \<Rightarrow> nat \<Rightarrow> nat" where
  "at_step n h t = (unat h + t) mod n"

lemma ring_indices:
  assumes "ring n"
  shows "ideal_index n h = at_step n h 0" "next_index n i = (i + 1) mod n"
    "probe_distance n i h = (i + n - unat h mod n) mod n"
  unfolding ideal_index_def next_index_def probe_distance_def at_step_def ring_and [OF assms] by simp_all

lemma ring_bounds:
  assumes "ring n"
  shows "at_step n h t < n" "next_index n i < n" "prev_index n i < n" "probe_distance n i h < n"
  using ring_pos [OF assms] by (simp_all add: ring_indices [OF assms] at_step_def prev_index_def)

lemma next_at_step: "ring n \<Longrightarrow> next_index n (at_step n h t) = at_step n h (Suc t)"
  by (simp add: ring_indices at_step_def mod_Suc_eq)

lemma next_prev: "ring n \<Longrightarrow> i < n \<Longrightarrow> next_index n (prev_index n i) = i"
  using ring_pos [of n] by (simp add: ring_indices prev_index_def mod_Suc_eq)

lemma prev_next: "ring n \<Longrightarrow> i < n \<Longrightarrow> prev_index n (next_index n i) = i"
proof (cases "i + 1 < n")
  case True
  then show "ring n \<Longrightarrow> i < n \<Longrightarrow> ?thesis" by (simp add: ring_indices prev_index_def)
next
  case False
  assume "ring n" "i < n"
  with False have "i + 1 = n" by simp
  then show ?thesis using \<open>ring n\<close> \<open>i < n\<close> by (auto simp: ring_indices prev_index_def)
qed

lemma prev_at_step: "ring n \<Longrightarrow> prev_index n (at_step n h (Suc t)) = at_step n h t"
  using prev_next [of n "at_step n h t"] by (simp add: next_at_step ring_bounds)

lemma distance_at_step: "ring n \<Longrightarrow> t < n \<Longrightarrow> probe_distance n (at_step n h t) h = t"
proof -
  assume r: "ring n" and t: "t < n"
  let ?m = "unat h mod n"
  have m: "?m < n" using ring_pos [OF r] by simp
  have a: "at_step n h t = (?m + t) mod n" by (simp add: at_step_def mod_add_left_eq)
  show ?thesis
  proof (cases "?m + t < n")
    case True
    then show ?thesis using t m by (simp add: ring_indices [OF r] a)
  next
    case False
    then have "(?m + t) mod n = (?m + t - n) mod n" by (simp add: le_mod_geq)
    moreover have "?m + t - n < n" using t m by linarith
    ultimately have "(?m + t) mod n = ?m + t - n" by simp
    then show ?thesis using False t m by (simp add: ring_indices(3) [OF r] a)
  qed
qed

lemma at_step_distance: "ring n \<Longrightarrow> i < n \<Longrightarrow> at_step n h (probe_distance n i h) = i"
proof -
  assume r: "ring n" and i: "i < n"
  have m: "unat h mod n < n" using ring_pos [OF r] by simp
  have "at_step n h (probe_distance n i h) = (unat h mod n + (i + n - unat h mod n)) mod n"
    by (simp add: at_step_def ring_indices(3) [OF r] mod_simps)
  also have "\<dots> = (i + n) mod n" using m by simp
  finally show ?thesis using i by simp
qed

lemma distance_next:
  "ring n \<Longrightarrow> i < n \<Longrightarrow> Suc (probe_distance n i h) < n \<Longrightarrow>
     probe_distance n (next_index n i) h = Suc (probe_distance n i h)"
  by (metis at_step_distance distance_at_step next_at_step)

lemma distance_ideal: "ring n \<Longrightarrow> probe_distance n (ideal_index n h) h = 0"
  using ring_pos [of n] by (simp add: ring_indices(1) distance_at_step)

section \<open>The Robin Hood invariant\<close>

text \<open>
  An entry that is not at its ideal slot stands behind an entry that is displaced by at most one
  step less.
\<close>

definition follows :: "('e \<Rightarrow> u64) \<Rightarrow> 'e option list \<Rightarrow> nat \<Rightarrow> nat \<Rightarrow> bool" where
  "follows hash slots i d \<longleftrightarrow>
     d = 0 \<or> (\<exists>e. slots ! prev_index (length slots) i = Some e \<and>
                d \<le> Suc (probe_distance (length slots) (prev_index (length slots) i) (hash e)))"

definition robin :: "('e \<Rightarrow> u64) \<Rightarrow> 'e option list \<Rightarrow> bool" where
  "robin hash slots \<longleftrightarrow>
     (\<forall>i < length slots. \<forall>e. slots ! i = Some e \<longrightarrow>
        follows hash slots i (probe_distance (length slots) i (hash e)))"

lemma robin_empty: "robin hash (replicate n None)"
  by (simp add: robin_def)

text \<open>Every slot between the ideal one and that of an entry is occupied by an entry at least as
  far from home as the search is.\<close>

lemma robin_chain:
  assumes r: "ring (length slots)" and rb: "robin hash slots"
    and e: "slots ! at_step (length slots) h d = Some e"
      "d \<le> probe_distance (length slots) (at_step (length slots) h d) (hash e)"
    and t: "t \<le> d"
  shows "\<exists>e'. slots ! at_step (length slots) h t = Some e' \<and>
    t \<le> probe_distance (length slots) (at_step (length slots) h t) (hash e')"
  using t
proof (induction rule: inc_induct)
  case base
  then show ?case using e by blast
next
  case (step t)
  then obtain e' where e': "slots ! at_step (length slots) h (Suc t) = Some e'"
    "Suc t \<le> probe_distance (length slots) (at_step (length slots) h (Suc t)) (hash e')" by blast
  moreover have "at_step (length slots) h (Suc t) < length slots" by (rule ring_bounds [OF r])
  ultimately have "follows hash slots (at_step (length slots) h (Suc t))
      (probe_distance (length slots) (at_step (length slots) h (Suc t)) (hash e'))"
    using rb by (auto simp: robin_def)
  with e'(2) show ?case by (auto simp: follows_def prev_at_step [OF r])
qed

lemma robin_not_full:
  assumes r: "ring (length slots)" and rb: "robin hash slots"
    and f: "f < length slots" "slots ! f = None" and i: "i < length slots" "slots ! i = Some e"
  shows "Suc (probe_distance (length slots) i (hash e)) < length slots"
proof (rule ccontr)
  let ?n = "length slots"
  assume "\<not> ?thesis"
  moreover have "probe_distance ?n i (hash e) < ?n" by (rule ring_bounds [OF r])
  ultimately have d: "probe_distance ?n i (hash e) = ?n - 1" by simp
  let ?t = "probe_distance ?n f (hash e)"
  have "?t \<le> probe_distance ?n i (hash e)"
    using ring_bounds(4) [OF r, of f "hash e"] d by simp
  from robin_chain [OF r rb _ _ this, of "hash e" e] i
  have "\<exists>e'. slots ! at_step ?n (hash e) ?t = Some e'"
    using at_step_distance [OF r i(1), of "hash e"] by auto
  with f show False by (simp add: at_step_distance [OF r])
qed

section \<open>Search finds what is there\<close>

lemma probe_loop_sound:
  "probe_loop hash slots found i d = Some j \<Longrightarrow> ring (length slots) \<Longrightarrow> i < length slots \<Longrightarrow>
     j < length slots \<and> (\<exists>e. slots ! j = Some e \<and> found e)"
proof (induction hash slots found i d rule: probe_loop.induct)
  case (1 hash slots found index distance)
  then show ?case
    by (subst (asm) (2) probe_loop.simps) (auto split: option.splits if_splits simp: ring_bounds)
qed

lemma probe_loop_complete:
  assumes r: "ring (length slots)" and rb: "robin hash slots"
    and e: "slots ! at_step (length slots) h d = Some e" "hash e = h" "found e" "d < length slots"
    and t: "t \<le> d"
  shows "probe_loop hash slots found (at_step (length slots) h t) t \<noteq> None"
  using t
proof (induction rule: inc_induct)
  case base
  have "probe_distance (length slots) (at_step (length slots) h d) (hash e) = d"
    using e by (simp add: distance_at_step [OF r])
  with e show ?case by (subst probe_loop.simps) simp
next
  case (step t)
  have "d \<le> probe_distance (length slots) (at_step (length slots) h d) (hash e)"
    using e by (simp add: distance_at_step [OF r])
  then obtain e' where "slots ! at_step (length slots) h t = Some e'"
    "t \<le> probe_distance (length slots) (at_step (length slots) h t) (hash e')"
    using robin_chain [OF r rb e(1)] step by (meson less_imp_le)
  with step show ?case
    by (subst probe_loop.simps) (simp add: next_at_step [OF r])
qed

section \<open>The entries of the slots\<close>

definition occupants :: "'e option list \<Rightarrow> 'e multiset" where
  "occupants slots = image_mset the (filter_mset (\<lambda>s. s \<noteq> None) (mset slots))"

lemma occupants_simps [simp]:
  "occupants [] = {#}" "occupants (None # slots) = occupants slots"
  "occupants (Some e # slots) = add_mset e (occupants slots)"
  by (simp_all add: occupants_def)

lemma occupants_empty [simp]: "occupants (replicate n None) = {#}"
  by (induction n) simp_all

lemma in_occupants: "e \<in># occupants slots \<longleftrightarrow> (\<exists>i < length slots. slots ! i = Some e)"
proof -
  have "e \<in># occupants slots \<longleftrightarrow> Some e \<in> set slots" by (force simp: occupants_def)
  then show ?thesis by (auto simp: in_set_conv_nth)
qed

lemma occupants_update_free:
  "i < length slots \<Longrightarrow> slots ! i = None \<Longrightarrow> occupants (slots[i := Some e]) = add_mset e (occupants slots)"
  by (simp add: occupants_def mset_update)

lemma occupants_update:
  "i < length slots \<Longrightarrow> slots ! i = Some s \<Longrightarrow>
     occupants (slots[i := Some e]) = add_mset e (occupants slots - {#s#})"
  "i < length slots \<Longrightarrow> slots ! i = Some s \<Longrightarrow> occupants (slots[i := None]) = occupants slots - {#s#}"
proof -
  assume i: "i < length slots" "slots ! i = Some s"
  then have "Some s \<in># mset slots" using nth_mem by fastforce
  then obtain M where M: "mset slots = add_mset (Some s) M" by (metis mset_add)
  show "occupants (slots[i := Some e]) = add_mset e (occupants slots - {#s#})"
    "occupants (slots[i := None]) = occupants slots - {#s#}"
    using i by (simp_all add: occupants_def mset_update M)
qed

lemma size_occupants: "size (occupants slots) + length (filter (\<lambda>s. s = None) slots) = length slots"
  by (induction slots) (auto simp: occupants_def)

lemma free_slot:
  "size (occupants slots) < length slots \<longleftrightarrow> (\<exists>f < length slots. slots ! f = None)"
proof -
  have "size (occupants slots) < length slots \<longleftrightarrow> filter (\<lambda>s. s = None) slots \<noteq> []"
    using size_occupants [of slots] by (cases "filter (\<lambda>s. s = None) slots") auto
  also have "\<dots> \<longleftrightarrow> None \<in> set slots" by (auto simp: filter_empty_conv)
  finally show ?thesis by (auto simp: in_set_conv_nth)
qed

section \<open>Insertion keeps the invariant\<close>

text \<open>How many steps a free slot is ahead.\<close>

definition ahead_by :: "nat \<Rightarrow> nat \<Rightarrow> nat \<Rightarrow> nat" where
  "ahead_by n i f = (f + n - i) mod n"

lemma ahead_by_next:
  "ring n \<Longrightarrow> i < n \<Longrightarrow> f < n \<Longrightarrow> i \<noteq> f \<Longrightarrow> ahead_by n (next_index n i) f < ahead_by n i f"
proof -
  assume r: "ring n" and i: "i < n" and f: "f < n" and d: "i \<noteq> f"
  have n: "next_index n i = (if Suc i = n then 0 else Suc i)" using i by (simp add: ring_indices [OF r])
  show ?thesis
  proof (cases "i < f")
    case True
    then have "ahead_by n i f = f - i" using f by (simp add: ahead_by_def le_mod_geq)
    moreover have "ahead_by n (next_index n i) f = f - Suc i"
      using True f by (auto simp: n ahead_by_def le_mod_geq)
    ultimately show ?thesis using True by simp
  next
    case False
    with d i have "ahead_by n i f = f + n - i" by (simp add: ahead_by_def)
    moreover have "ahead_by n (next_index n i) f = f + n - Suc i"
      using False d i f by (auto simp: n ahead_by_def)
    ultimately show ?thesis using i by simp
  qed
qed

lemma prev_index_neq: "ring n \<Longrightarrow> 1 < n \<Longrightarrow> i < n \<Longrightarrow> prev_index n i \<noteq> i"
  by (metis Suc_eq_plus1 mod_less mod_self n_not_Suc_n next_prev ring_indices(2) less_antisym zero_neq_one
      not_less_eq One_nat_def less_numeral_extra(3))

lemma robin_update:
  assumes r: "ring (length slots)" "1 < length slots" and rb: "robin hash slots" and i: "i < length slots"
    and here: "\<And>e. v = Some e \<Longrightarrow> follows hash slots i (probe_distance (length slots) i (hash e))"
    and succ: "\<And>e. slots ! next_index (length slots) i = Some e \<Longrightarrow>
        probe_distance (length slots) (next_index (length slots) i) (hash e) \<noteq> 0 \<Longrightarrow>
        \<exists>e'. v = Some e' \<and> probe_distance (length slots) (next_index (length slots) i) (hash e)
                \<le> Suc (probe_distance (length slots) i (hash e'))"
  shows "robin hash (slots[i := v])"
  unfolding robin_def
proof (intro allI impI)
  let ?n = "length slots"
  fix j e assume j: "j < length (slots[i := v])" and e: "slots[i := v] ! j = Some e"
  then have jn: "j < ?n" by simp
  have f: "follows hash slots j (probe_distance ?n j (hash e))"
    using e jn rb here by (cases "j = i") (auto simp: robin_def)
  show "follows hash (slots[i := v]) j (probe_distance (length (slots[i := v])) j (hash e))"
  proof (cases "prev_index ?n j = i")
    case True
    then have ji: "j = next_index ?n i" using next_prev [OF r(1) jn] by simp
    have "i \<noteq> j" using True prev_index_neq [OF r jn] by simp
    with e have "slots ! next_index ?n i = Some e" by (simp add: ji [symmetric])
    from succ [OF this] show ?thesis
      using True i by (auto simp: follows_def ji prev_next [OF r(1)])
  next
    case False
    with f show ?thesis by (simp add: follows_def)
  qed
qed

lemma insert_loop_correct:
  assumes r: "ring (length slots)" "1 < length slots" and f: "f < length slots" "slots ! f = None"
  shows "robin hash slots \<Longrightarrow> i < length slots \<Longrightarrow> d = probe_distance (length slots) i (hash cur) \<Longrightarrow>
     follows hash slots i d \<Longrightarrow>
     \<exists>slots'. insert_loop hash slots cur i d = Some slots' \<and> length slots' = length slots \<and>
       robin hash slots' \<and> occupants slots' = add_mset cur (occupants slots)"
  using assms
proof (induction "ahead_by (length slots) i f" arbitrary: slots i d cur rule: less_induct)
  case (less slots i d cur)
  let ?n = "length slots" and ?next = "next_index (length slots) i"
  note r = \<open>ring ?n\<close> and one = \<open>1 < ?n\<close> and rb = \<open>robin hash slots\<close> and i = \<open>i < ?n\<close>
    and d = \<open>d = probe_distance ?n i (hash cur)\<close> and fol = \<open>follows hash slots i d\<close>
  have nx: "?next < ?n" by (rule ring_bounds [OF r])
  show ?case
  proof (cases "slots ! i")
    case None
    have "robin hash (slots[i := Some cur])"
    proof (rule robin_update [OF r one rb i])
      fix e assume e: "slots ! ?next = Some e" "probe_distance ?n ?next (hash e) \<noteq> 0"
      with rb nx have "follows hash slots ?next (probe_distance ?n ?next (hash e))" by (simp add: robin_def)
      with e None show "\<exists>e'. Some cur = Some e' \<and> probe_distance ?n ?next (hash e) \<le> Suc (probe_distance ?n i (hash e'))"
        by (simp add: follows_def prev_next [OF r i])
    qed (use fol d in simp)
    with None i show ?thesis
      by (subst insert_loop.simps) (simp add: occupants_update_free)
  next
    case (Some s)
    let ?sd = "probe_distance ?n i (hash s)"
    have ne: "i \<noteq> f" using Some less.prems by auto
    have step: "ahead_by ?n ?next f < ahead_by ?n i f"
      using ahead_by_next [OF r i _ ne] less.prems by simp
    have dn: "d < ?n" unfolding d by (rule ring_bounds [OF r])
    have sn: "Suc ?sd < ?n" by (rule robin_not_full [OF r rb _ _ i Some]) (use less.prems in auto)
    have fol_s: "follows hash slots i ?sd" using rb i Some by (simp add: robin_def)
    show ?thesis
    proof (cases "?sd < d")
      case True
      let ?slots = "slots[i := Some cur]"
      have rb': "robin hash ?slots"
      proof (rule robin_update [OF r one rb i])
        fix e assume e: "slots ! ?next = Some e" "probe_distance ?n ?next (hash e) \<noteq> 0"
        with rb nx have "follows hash slots ?next (probe_distance ?n ?next (hash e))" by (simp add: robin_def)
        with e Some True show "\<exists>e'. Some cur = Some e' \<and> probe_distance ?n ?next (hash e) \<le> Suc (probe_distance ?n i (hash e'))"
          by (simp add: follows_def prev_next [OF r i] d)
      qed (use fol d in simp)
      have "\<exists>slots'. insert_loop hash ?slots s ?next (Suc ?sd) = Some slots' \<and> length slots' = length ?slots \<and>
          robin hash slots' \<and> occupants slots' = add_mset s (occupants ?slots)"
      proof (rule less.hyps)
        show "follows hash ?slots ?next (Suc ?sd)"
          using True i by (simp add: follows_def prev_next [OF r i] d)
        show "Suc ?sd = probe_distance (length ?slots) ?next (hash s)"
          using distance_next [OF r i sn] by simp
      qed (use step rb' nx r one less.prems ne in auto)
      moreover have "add_mset s (occupants ?slots) = add_mset cur (occupants slots)"
        using i Some in_occupants [of s slots] by (auto simp: occupants_update)
      ultimately show ?thesis
        using Some True by (subst insert_loop.simps) (simp add: Let_def)
    next
      case False
      then have dn': "Suc (probe_distance ?n i (hash cur)) < ?n" using sn d by simp
      have "\<exists>slots'. insert_loop hash slots cur ?next (Suc d) = Some slots' \<and> length slots' = length slots \<and>
          robin hash slots' \<and> occupants slots' = add_mset cur (occupants slots)"
      proof (rule less.hyps)
        show "follows hash slots ?next (Suc d)"
          using False Some by (simp add: follows_def prev_next [OF r i])
        show "Suc d = probe_distance ?n ?next (hash cur)"
          using distance_next [OF r i dn'] by (simp add: d)
      qed (use step rb nx r one less.prems in auto)
      then show ?thesis
        using Some False by (subst insert_loop.simps) (simp add: Let_def)
    qed
  qed
qed

lemma insert_existing_correct:
  assumes "ring (length slots)" "1 < length slots" "robin hash slots" "size (occupants slots) < length slots"
  shows "\<exists>slots'. insert_existing hash e slots = Some slots' \<and> length slots' = length slots \<and>
    robin hash slots' \<and> occupants slots' = add_mset e (occupants slots)"
proof -
  obtain f where f: "f < length slots" "slots ! f = None" using assms(4) by (auto simp: free_slot)
  show ?thesis
    unfolding insert_existing_def
    using insert_loop_correct [OF assms(1,2) f assms(3), of "ideal_index (length slots) (hash e)" 0 e]
      ring_bounds(1) [OF assms(1), of "hash e" 0] distance_ideal [OF assms(1), of "hash e"]
    by (simp add: follows_def ring_indices(1) [OF assms(1)])
qed

lemma insert_all_correct:
  "ring (length slots) \<Longrightarrow> 1 < length slots \<Longrightarrow> robin hash slots \<Longrightarrow>
     size (occupants slots) + size (occupants old) < Suc (length slots) \<Longrightarrow>
     \<exists>slots'. insert_all hash old slots = Some slots' \<and> length slots' = length slots \<and>
       robin hash slots' \<and> occupants slots' = occupants slots + occupants old"
proof (induction hash old slots rule: insert_all.induct)
  case (3 hash e old slots)
  then obtain slots' where s: "insert_existing hash e slots = Some slots'" "length slots' = length slots"
    "robin hash slots'" "occupants slots' = add_mset e (occupants slots)"
    using insert_existing_correct [of slots hash e] by auto
  from 3(1) [of slots'] 3(2-) s show ?case by auto
qed auto

section \<open>Removal keeps the invariant\<close>

lemma follows_shift:
  assumes r: "ring (length slots)" and rb: "robin hash slots" and i: "i < length slots"
    and e: "slots ! i = Some e"
    and e': "slots ! next_index (length slots) i = Some e'"
      "probe_distance (length slots) (next_index (length slots) i) (hash e') = Suc d"
  shows "probe_distance (length slots) i (hash e') = d" and "follows hash slots i d"
proof -
  let ?n = "length slots" and ?next = "next_index (length slots) i"
  have nx: "?next < ?n" by (rule ring_bounds [OF r])
  have "?next = at_step ?n (hash e') (Suc d)" using at_step_distance [OF r nx, of "hash e'"] e'(2) by simp
  then have "i = at_step ?n (hash e') d" by (metis prev_at_step prev_next r i)
  moreover have "Suc d < ?n" using ring_bounds(4) [OF r, of ?next "hash e'"] e'(2) by simp
  ultimately show d: "probe_distance ?n i (hash e') = d" by (simp add: distance_at_step [OF r])
  have "follows hash slots ?next (Suc d)" using rb nx e' by (metis robin_def)
  then have le: "d \<le> probe_distance ?n i (hash e)"
    using e by (simp add: follows_def prev_next [OF r i])
  moreover have "follows hash slots i (probe_distance ?n i (hash e))" using rb i e by (simp add: robin_def)
  ultimately show "follows hash slots i d" by (auto simp: follows_def)
qed

lemma erase_at_correct:
  assumes r: "ring (length slots)" "1 < length slots" and f: "f < length slots" "slots ! f = None"
  shows "robin hash slots \<Longrightarrow> i < length slots \<Longrightarrow> slots ! i = Some e \<Longrightarrow>
     \<exists>slots'. erase_at hash slots i = Some slots' \<and> length slots' = length slots \<and>
       robin hash slots' \<and> occupants slots' = occupants slots - {#e#}"
  using assms
proof (induction "ahead_by (length slots) i f" arbitrary: slots i e rule: less_induct)
  case (less slots i e)
  let ?n = "length slots" and ?next = "next_index (length slots) i"
  note r = \<open>ring ?n\<close> and one = \<open>1 < ?n\<close> and rb = \<open>robin hash slots\<close> and i = \<open>i < ?n\<close> and e = \<open>slots ! i = Some e\<close>
  have nx: "?next < ?n" by (rule ring_bounds [OF r])
  have stop: "robin hash (slots[i := None])"
    if "\<And>e'. slots ! ?next = Some e' \<Longrightarrow> probe_distance ?n ?next (hash e') = 0"
    by (rule robin_update [OF r one rb i]) (use that in auto)
  show ?case
  proof (cases "\<exists>e'. slots ! ?next = Some e' \<and> probe_distance ?n ?next (hash e') \<noteq> 0")
    case False
    with stop have "robin hash (slots[i := None])" by blast
    with False show ?thesis
      using occupants_update(2) [OF i e]
      by (subst erase_at.simps) (auto simp: Let_def split: option.splits)
  next
    case True
    then obtain e' d where e': "slots ! ?next = Some e'" "probe_distance ?n ?next (hash e') = Suc d"
      using not0_implies_Suc by blast
    let ?slots = "slots[i := Some e']"
    have ne: "i \<noteq> f" using e less.prems by auto
    have ni: "?next \<noteq> i" using prev_index_neq [OF r one i] next_prev [OF r i] prev_next [OF r i] by metis
    have pd: "probe_distance ?n i (hash e') = d" and fol: "follows hash slots i d"
      using follows_shift [OF r rb i e e'] by blast+
    have rb': "robin hash ?slots"
      by (rule robin_update [OF r one rb i]) (use pd fol e' in auto)
    have "\<exists>slots'. erase_at hash ?slots ?next = Some slots' \<and> length slots' = length ?slots \<and>
        robin hash slots' \<and> occupants slots' = occupants ?slots - {#e'#}"
      by (rule less.hyps)
         (use ahead_by_next [OF r i _ ne] rb' nx e' ni r one less.prems ne in auto)
    moreover have "occupants ?slots - {#e'#} = occupants slots - {#e#}"
      by (simp add: occupants_update(1) [OF i e])
    ultimately show ?thesis
      using e' by (subst erase_at.simps) (simp add: Let_def)
  qed
qed

section \<open>Bucket counts\<close>

lemma normalize_from_power:
  "\<exists>j \<ge> k. normalize_from (2 ^ k) c = 2 ^ j \<and> c \<le> 2 ^ j \<and> (j = k \<or> 2 ^ (j - 1) < c)"
proof (induction "c - 2 ^ k" arbitrary: k rule: less_induct)
  case less
  show ?case
  proof (cases "2 ^ k < c")
    case True
    have "c - 2 ^ Suc k < c - 2 ^ k" using True by (intro diff_less_mono2) simp_all
    from less [OF this] obtain j where j: "Suc k \<le> j" "normalize_from (2 ^ Suc k) c = 2 ^ j" "c \<le> 2 ^ j"
      "j = Suc k \<or> 2 ^ (j - 1) < c" by blast
    from j(2) True have "normalize_from (2 ^ k) c = 2 ^ j" by (subst normalize_from.simps) simp
    with j True show ?thesis by (intro exI [of _ j]) auto
  next
    case False
    then have "normalize_from (2 ^ k) c = 2 ^ k" by (subst normalize_from.simps) simp
    with False show ?thesis by (intro exI [of _ k]) auto
  qed
qed

lemma normalize_ring:
  "ring (normalize_bucket_count c)" "8 \<le> normalize_bucket_count c" "c \<le> normalize_bucket_count c"
proof -
  obtain j where j: "3 \<le> j" "normalize_bucket_count c = 2 ^ j" "c \<le> 2 ^ j"
    using normalize_from_power [of 3 c] by (auto simp: normalize_bucket_count_def inline_bucket_count_def)
  show "ring (normalize_bucket_count c)" using j by (auto simp: ring_def)
  have "(2 :: nat) ^ 3 \<le> 2 ^ j" using j(1) by (rule power_increasing) simp
  then show "8 \<le> normalize_bucket_count c" using j by simp
  show "c \<le> normalize_bucket_count c" using j by simp
qed

lemma normalize_power: "3 \<le> k \<Longrightarrow> normalize_bucket_count (2 ^ k) = 2 ^ k"
proof -
  assume k: "3 \<le> k"
  obtain j where j: "3 \<le> j" "normalize_bucket_count (2 ^ k) = 2 ^ j" "(2::nat) ^ k \<le> 2 ^ j"
    "j = 3 \<or> (2::nat) ^ (j - 1) < 2 ^ k"
    using normalize_from_power [of 3 "2 ^ k"]
    by (auto simp: normalize_bucket_count_def inline_bucket_count_def)
  have "k \<le> j" using j(3) by simp
  moreover have "j \<le> k" using j(4) k by auto
  ultimately show ?thesis using j(2) by simp
qed

section \<open>The invariant of the index\<close>

text \<open>
  The bucket count is a power of two, not below that of the inline array; the slots are in Robin Hood
  order; the size is the number of entries, at most seven eighths of the slots.
\<close>

definition index_inv :: "('e \<Rightarrow> u64) \<Rightarrow> 'e dict_index \<Rightarrow> bool" where
  "index_inv hash ix \<longleftrightarrow>
     ring (bucket_count ix) \<and> 8 \<le> bucket_count ix \<and> robin hash (ix_slots ix) \<and>
     ix_size ix = size (occupants (ix_slots ix)) \<and> ix_size ix * 8 \<le> bucket_count ix * 7"

definition index_entries :: "'e dict_index \<Rightarrow> 'e multiset" where
  "index_entries ix = occupants (ix_slots ix)"

lemma new_index_inv: "index_inv hash new_index" "index_entries new_index = {#}"
proof -
  have "ring 8" unfolding ring_def by (rule exI [of _ 3]) simp
  then show "index_inv hash new_index" "index_entries new_index = {#}"
    by (simp_all add: index_inv_def new_index_def bucket_count_def inline_bucket_count_def robin_empty
        index_entries_def)
qed

lemma rehash_correct:
  assumes "ring (length slots)" "8 \<le> length slots" "robin hash slots"
    and "size (occupants slots) < normalize_bucket_count c"
  shows "\<exists>slots'. rehash hash c slots = Some slots' \<and> length slots' = normalize_bucket_count c \<and>
    robin hash slots' \<and> occupants slots' = occupants slots"
proof (cases "normalize_bucket_count c = length slots")
  case True
  with assms show ?thesis by (simp add: rehash_def)
next
  case False
  let ?new = "replicate (normalize_bucket_count c) (None :: 'a option)"
  have "\<exists>slots'. insert_all hash slots ?new = Some slots' \<and> length slots' = length ?new \<and>
      robin hash slots' \<and> occupants slots' = occupants ?new + occupants slots"
    by (rule insert_all_correct)
       (use normalize_ring [of c] assms(4) in \<open>auto simp: robin_empty\<close>)
  with False show ?thesis by (simp add: rehash_def Let_def)
qed

lemma index_insert_correct:
  assumes "index_inv hash ix"
  shows "\<exists>ix'. index_insert hash e ix = Some ix' \<and> index_inv hash ix' \<and>
    index_entries ix' = add_mset e (index_entries ix)"
proof -
  let ?n = "bucket_count ix"
  note inv = assms [unfolded index_inv_def]
  obtain k where k: "?n = 2 ^ k" using inv by (auto simp: ring_def)
  have k3: "3 \<le> k"
  proof (rule ccontr)
    assume "\<not> ?thesis"
    then have "(2::nat) ^ k < 2 ^ 3" by (intro power_strict_increasing) auto
    with inv k show False by simp
  qed
  have "\<exists>slots. maybe_grow hash ix = Some slots \<and> ring (length slots) \<and> 8 \<le> length slots \<and>
      robin hash slots \<and> occupants slots = index_entries ix \<and> (ix_size ix + 1) * 8 \<le> length slots * 7"
  proof (cases "(ix_size ix + 1) * 8 \<le> ?n * 7")
    case True
    with inv show ?thesis by (simp add: maybe_grow_def bucket_count_def index_entries_def)
  next
    case False
    have t: "normalize_bucket_count (2 * ?n) = 2 * ?n" using normalize_power [of "Suc k"] k3 k by simp
    have "\<exists>slots'. rehash hash (2 * ?n) (ix_slots ix) = Some slots' \<and>
        length slots' = normalize_bucket_count (2 * ?n) \<and> robin hash slots' \<and>
        occupants slots' = occupants (ix_slots ix)"
      by (rule rehash_correct) (use inv t in \<open>auto simp: bucket_count_def\<close>)
    moreover have "ring (2 * ?n)" using k by (auto simp: ring_def intro: exI [of _ "Suc k"])
    ultimately show ?thesis using inv False by (auto simp: maybe_grow_def t index_entries_def)
  qed
  then obtain slots where s: "maybe_grow hash ix = Some slots" "ring (length slots)" "8 \<le> length slots"
    "robin hash slots" "occupants slots = index_entries ix" "(ix_size ix + 1) * 8 \<le> length slots * 7"
    by blast
  have "size (occupants slots) < length slots" using s inv by (simp add: index_entries_def)
  then obtain slots' where "insert_existing hash e slots = Some slots'" "length slots' = length slots"
    "robin hash slots'" "occupants slots' = add_mset e (occupants slots)"
    using insert_existing_correct [of slots hash e] s by auto
  with s inv show ?thesis
    by (auto simp: index_insert_def index_inv_def bucket_count_def index_entries_def)
qed

text \<open>A search along the probe sequence of a hash code, for something that only entries with that
  hash code satisfy.\<close>

lemma find_slot_correct:
  assumes inv: "index_inv hash ix" and found: "\<And>e. found e \<Longrightarrow> hash e = h"
  shows "find_slot hash h found ix = None \<Longrightarrow> \<not> (\<exists>e \<in># index_entries ix. found e)"
    and "find_slot hash h found ix = Some i \<Longrightarrow>
           \<exists>e. i < bucket_count ix \<and> ix_slots ix ! i = Some e \<and> found e \<and> e \<in># index_entries ix"
proof -
  note i = inv [unfolded index_inv_def bucket_count_def]
  then have r: "ring (length (ix_slots ix))" by simp
  show "\<not> (\<exists>e \<in># index_entries ix. found e)" if none: "find_slot hash h found ix = None"
  proof
    assume "\<exists>e \<in># index_entries ix. found e"
    then obtain e j where e: "found e" "j < length (ix_slots ix)" "ix_slots ix ! j = Some e"
      by (auto simp: index_entries_def in_occupants)
    then have h: "hash e = h" by (simp add: found)
    have "occupants (ix_slots ix) \<noteq> {#}" using e in_occupants [of e "ix_slots ix"] by auto
    then have "ix_size ix \<noteq> 0" using i by simp
    moreover have "probe_loop hash (ix_slots ix) found (at_step (length (ix_slots ix)) h 0) 0 \<noteq> None"
      by (rule probe_loop_complete [OF r, of _ _ "probe_distance (length (ix_slots ix)) j h" e])
         (use i e h in \<open>simp_all add: at_step_distance [OF r] ring_bounds [OF r]\<close>)
    ultimately show False using none by (simp add: find_slot_def bucket_count_def ring_indices(1) [OF r])
  qed
  show "\<exists>e. i < bucket_count ix \<and> ix_slots ix ! i = Some e \<and> found e \<and> e \<in># index_entries ix"
    if "find_slot hash h found ix = Some i"
    using that probe_loop_sound [of hash "ix_slots ix" found "at_step (length (ix_slots ix)) h 0" 0 i]
    by (auto simp: find_slot_def bucket_count_def ring_indices(1) [OF r] r ring_bounds index_entries_def
        in_occupants split: if_splits)
qed

lemma maybe_shrink_correct:
  assumes inv: "index_inv hash ix"
  shows "\<exists>ix'. maybe_shrink hash ix = Some ix' \<and> index_inv hash ix' \<and>
    index_entries ix' = index_entries ix"
proof (cases "bucket_count ix = inline_bucket_count \<or> ix_size ix * 4 > bucket_count ix")
  case True
  with inv show ?thesis by (simp add: maybe_shrink_def)
next
  case False
  let ?c = "bucket_count ix div 2"
  note iv = inv [unfolded index_inv_def bucket_count_def]
  obtain k where k: "bucket_count ix = 2 ^ k" using inv by (auto simp: index_inv_def ring_def)
  have "\<not> k \<le> 3"
  proof
    assume "k \<le> 3"
    then have "(2::nat) ^ k \<le> 2 ^ 3" by (rule power_increasing) simp
    with iv k False show False by (simp add: inline_bucket_count_def bucket_count_def)
  qed
  then obtain m where m: "k = Suc m" "3 \<le> m" by (cases k) auto
  then have c: "normalize_bucket_count ?c = ?c" "?c = 2 ^ m" using k normalize_power by simp_all
  have "\<exists>slots'. rehash hash ?c (ix_slots ix) = Some slots' \<and> length slots' = normalize_bucket_count ?c \<and>
      robin hash slots' \<and> occupants slots' = occupants (ix_slots ix)"
    by (rule rehash_correct) (use iv False c k m in \<open>auto simp: bucket_count_def\<close>)
  with False iv c k m normalize_ring(2) [of ?c] show ?thesis
    by (auto simp: maybe_shrink_def index_inv_def bucket_count_def index_entries_def ring_def)
qed

lemma index_erase_correct:
  assumes inv: "index_inv hash ix" and is_item: "\<And>x. is_item x \<longleftrightarrow> x = e"
  shows "\<exists>ix'. index_erase hash (hash e) is_item ix = Some ix' \<and> index_inv hash ix' \<and>
    index_entries ix' = index_entries ix - {#e#}"
proof (cases "find_slot hash (hash e) is_item ix")
  case None
  with find_slot_correct(1) [OF inv, of is_item "hash e"] is_item have "e \<notin># index_entries ix" by auto
  with None inv show ?thesis by (simp add: index_erase_def diff_single_trivial)
next
  case (Some i)
  let ?slots = "ix_slots ix"
  note iv = inv [unfolded index_inv_def bucket_count_def]
  from find_slot_correct(2) [OF inv _ Some] is_item
  have i: "i < length ?slots" "?slots ! i = Some e" "e \<in># occupants ?slots"
    by (auto simp: bucket_count_def index_entries_def)
  have "size (occupants ?slots) < length ?slots" using iv by linarith
  then obtain f where f: "f < length ?slots" "?slots ! f = None" by (auto simp: free_slot)
  have r: "ring (length ?slots)" "1 < length ?slots" "robin hash ?slots" using iv by auto
  obtain slots where s: "erase_at hash ?slots i = Some slots" "length slots = length ?slots"
    "robin hash slots" "occupants slots = occupants ?slots - {#e#}"
    using erase_at_correct [OF r(1,2) f r(3) i(1,2)] by blast
  let ?ix = "\<lparr>ix_slots = slots, ix_size = ix_size ix - 1\<rparr>"
  have inv': "index_inv hash ?ix"
    using iv s i(3) by (auto simp: index_inv_def bucket_count_def size_Diff_singleton)
  have e: "index_erase hash (hash e) is_item ix = maybe_shrink hash ?ix"
    by (simp add: index_erase_def Some s(1))
  show ?thesis
    using maybe_shrink_correct [OF inv'] by (simp add: e index_entries_def s(4))
qed

lemma index_reserve_correct:
  assumes inv: "index_inv hash ix"
  shows "\<exists>ix'. index_reserve hash n ix = Some ix' \<and> index_inv hash ix' \<and>
    index_entries ix' = index_entries ix"
proof (cases "normalize_bucket_count (required_bucket_count n) > bucket_count ix")
  case True
  let ?c = "normalize_bucket_count (required_bucket_count n)"
  note iv = inv [unfolded index_inv_def bucket_count_def]
  obtain j where j: "?c = 2 ^ j" using normalize_ring(1) by (auto simp: ring_def)
  have "3 \<le> j"
  proof (rule ccontr)
    assume "\<not> ?thesis"
    then have "(2::nat) ^ j < 2 ^ 3" by (intro power_strict_increasing) auto
    with normalize_ring(2) [of "required_bucket_count n"] j show False by simp
  qed
  then have c: "normalize_bucket_count ?c = ?c" using j normalize_power by simp
  have "\<exists>slots'. rehash hash ?c (ix_slots ix) = Some slots' \<and> length slots' = normalize_bucket_count ?c \<and>
      robin hash slots' \<and> occupants slots' = occupants (ix_slots ix)"
    by (rule rehash_correct) (use iv True c in \<open>auto simp: bucket_count_def\<close>)
  with True iv c normalize_ring [of "required_bucket_count n"] show ?thesis
    by (auto simp: index_reserve_def Let_def index_inv_def bucket_count_def index_entries_def)
next
  case False
  with inv show ?thesis by (simp add: index_reserve_def Let_def)
qed


section \<open>Histories\<close>

datatype 'e index_op = Ix_Insert 'e | Ix_Erase 'e | Ix_Reserve nat | Ix_Clear

fun index_step :: "('e \<Rightarrow> u64) \<Rightarrow> 'e index_op \<Rightarrow> 'e dict_index \<Rightarrow> 'e dict_index option" where
  "index_step hash (Ix_Insert e) ix = index_insert hash e ix"
| "index_step hash (Ix_Erase e) ix = index_erase hash (hash e) (\<lambda>x. x = e) ix"
| "index_step hash (Ix_Reserve n) ix = index_reserve hash n ix"
| "index_step hash Ix_Clear ix = Some (index_clear ix)"

fun index_run :: "('e \<Rightarrow> u64) \<Rightarrow> 'e index_op list \<Rightarrow> 'e dict_index \<Rightarrow> 'e dict_index option" where
  "index_run hash [] ix = Some ix"
| "index_run hash (q # qs) ix = Option.bind (index_step hash q ix) (index_run hash qs)"

fun members_step :: "'e index_op \<Rightarrow> 'e multiset \<Rightarrow> 'e multiset" where
  "members_step (Ix_Insert e) M = add_mset e M"
| "members_step (Ix_Erase e) M = M - {#e#}"
| "members_step (Ix_Reserve n) M = M"
| "members_step Ix_Clear M = {#}"

lemma index_step_correct:
  assumes "index_inv hash ix"
  shows "\<exists>ix'. index_step hash q ix = Some ix' \<and> index_inv hash ix' \<and>
    index_entries ix' = members_step q (index_entries ix)"
proof (cases q)
  case (Ix_Insert e)
  with index_insert_correct [OF assms] show ?thesis by simp
next
  case (Ix_Erase e)
  with index_erase_correct [OF assms, of "\<lambda>x. x = e" e] show ?thesis by simp
next
  case (Ix_Reserve n)
  with index_reserve_correct [OF assms] show ?thesis by simp
next
  case Ix_Clear
  then show ?thesis by (simp add: index_clear_def new_index_def [symmetric] new_index_inv)
qed

lemma index_run_correct:
  "index_inv hash ix \<Longrightarrow>
     \<exists>ix'. index_run hash qs ix = Some ix' \<and> index_inv hash ix' \<and>
       index_entries ix' = fold members_step qs (index_entries ix)"
proof (induction qs arbitrary: ix)
  case (Cons q qs)
  obtain ix' where "index_step hash q ix = Some ix'" "index_inv hash ix'"
    "index_entries ix' = members_step q (index_entries ix)"
    using index_step_correct [OF Cons.prems] by blast
  with Cons.IH [of ix'] show ?case by auto
qed simp

text \<open>
  C6. The index is the multiset of the entries put into it and not taken out: every sequence of
  insertions, removals, reservations and clearings returns (no probe loop runs on), keeps the slots in
  Robin Hood order with at most seven eighths of them in use, and \<open>find\<close> answers \<open>None\<close> exactly when no
  entry has the hash code and the key looked for, else one of them.
\<close>

theorem index_finds_members:
  "\<exists>ix. index_run hash qs new_index = Some ix \<and> index_inv hash ix \<and>
     (case index_find hash h key_equal ix of
        None \<Rightarrow> filter_mset (\<lambda>e. hash e = h \<and> key_equal e) (fold members_step qs {#}) = {#}
      | Some e \<Rightarrow> e \<in># filter_mset (\<lambda>e. hash e = h \<and> key_equal e) (fold members_step qs {#}))"
proof -
  let ?found = "\<lambda>e. hash e = h \<and> key_equal e"
  obtain ix where ix: "index_run hash qs new_index = Some ix" "index_inv hash ix"
    "index_entries ix = fold members_step qs {#}"
    using index_run_correct [OF new_index_inv(1)] by (auto simp: new_index_inv)
  have "case index_find hash h key_equal ix of
      None \<Rightarrow> filter_mset ?found (index_entries ix) = {#}
    | Some e \<Rightarrow> e \<in># filter_mset ?found (index_entries ix)"
  proof (cases "find_slot hash h ?found ix")
    case None
    have "\<not> (\<exists>e \<in># index_entries ix. ?found e)"
      by (rule find_slot_correct(1) [OF ix(2) _ None]) simp
    with None show ?thesis by (auto simp: index_find_def filter_mset_eq_conv)
  next
    case (Some i)
    have "\<exists>e. i < bucket_count ix \<and> ix_slots ix ! i = Some e \<and> ?found e \<and> e \<in># index_entries ix"
      by (rule find_slot_correct(2) [OF ix(2) _ Some]) simp
    with Some show ?thesis by (auto simp: index_find_def)
  qed
  with ix show ?thesis unfolding ix(3) by blast
qed

end
