(* ===== verification/Dict.thy ===== *)
theory Dict
  imports DictIndex VariantOps
begin

unbundle bit_operations_syntax

text \<open>
  Dicts (\<^verbatim>\<open>libraries/mcbase/src/dict/dict.cpp\<close>, \<^verbatim>\<open>mutable_dict.cpp\<close>, \<^verbatim>\<open>data_t\<close> in \<^verbatim>\<open>index.cpp\<close>): the list
  of the entries in insertion order, the hash index over them and the cache of their positions. An
  entry is its address, key and hash code, beside the value that an assignment changes. \<open>h\<close> is the
  hash of a key, which rests on \<^verbatim>\<open>std::hash\<close>, and \<open>eq\<close> the comparison of the key looked up with that
  of an entry. Results are options as for the index: \<open>None\<close> is not to return. A dict whose data is not
  created yet is the empty data, which \<^verbatim>\<open>ensure_data\<close> creates. \<^verbatim>\<open>std::invalid_argument\<close> and
  \<^verbatim>\<open>std::out_of_range\<close> are named by the constructors of the library's own exceptions.
\<close>

section \<open>The state\<close>

record entry =
  en_address :: nat
  en_key :: variant
  en_hash :: u64

record dict_data =
  dd_entries :: "(entry \<times> variant) list"
  dd_index :: "entry dict_index"
  dd_cache :: "entry list option"
  dd_fresh :: nat

definition new_dict :: dict_data where
  "new_dict = \<lparr>dd_entries = [], dd_index = new_index, dd_cache = None, dd_fresh = 0\<rparr>"

definition create_entry :: "(variant \<Rightarrow> u64) \<Rightarrow> variant \<Rightarrow> dict_data \<Rightarrow> entry" where
  "create_entry h key d = \<lparr>en_address = dd_fresh d, en_key = key, en_hash = h key\<rparr>"

text \<open>\<^verbatim>\<open>create_entry\<close>, \<^verbatim>\<open>push_back\<close>, \<^verbatim>\<open>index->insert\<close> and \<^verbatim>\<open>invalidate_order_cache\<close>, the tail of every
  operation that adds an entry.\<close>

definition append_entry ::
    "(variant \<Rightarrow> u64) \<Rightarrow> variant \<Rightarrow> variant \<Rightarrow> dict_data \<Rightarrow> dict_data option" where
  "append_entry h key v d =
     (let e = create_entry h key d in
      map_option (\<lambda>ix. \<lparr>dd_entries = dd_entries d @ [(e, v)], dd_index = ix, dd_cache = None,
                        dd_fresh = dd_fresh d + 1\<rparr>)
        (index_insert en_hash e (dd_index d)))"

definition lookup_entry ::
    "(variant \<Rightarrow> u64) \<Rightarrow> (variant \<Rightarrow> variant \<Rightarrow> bool) \<Rightarrow> variant \<Rightarrow> dict_data \<Rightarrow> entry option" where
  "lookup_entry h eq key d =
     index_find en_hash (h key) (\<lambda>e. eq key (en_key e)) (dd_index d)"

section \<open>Operations\<close>

text \<open>\<^verbatim>\<open>e->value\<close>, and the assignment to it.\<close>

definition entry_value :: "entry \<Rightarrow> dict_data \<Rightarrow> variant option" where
  "entry_value e d = map_of (dd_entries d) e"

definition set_entry_value :: "entry \<Rightarrow> variant \<Rightarrow> dict_data \<Rightarrow> dict_data" where
  "set_entry_value e v d =
     d\<lparr>dd_entries := map (\<lambda>(e', w). (e', if e' = e then v else w)) (dd_entries d)\<rparr>"

text \<open>\<^verbatim>\<open>d(key, value)\<close>.\<close>

definition dict_assign ::
    "(variant \<Rightarrow> u64) \<Rightarrow> (variant \<Rightarrow> variant \<Rightarrow> bool) \<Rightarrow> variant \<Rightarrow> variant \<Rightarrow> dict_data \<Rightarrow>
     dict_data option" where
  "dict_assign h eq key v d =
     (case lookup_entry h eq key d of
        Some e \<Rightarrow> Some (set_entry_value e v d)
      | None \<Rightarrow> append_entry h key v d)"

text \<open>\<^verbatim>\<open>insert(key, value)\<close>, with the flag of the returned pair.\<close>

definition dict_insert ::
    "(variant \<Rightarrow> u64) \<Rightarrow> (variant \<Rightarrow> variant \<Rightarrow> bool) \<Rightarrow> variant \<Rightarrow> variant \<Rightarrow> dict_data \<Rightarrow>
     (bool \<times> dict_data) option" where
  "dict_insert h eq key v d =
     (case lookup_entry h eq key d of
        Some e \<Rightarrow> Some (False, d)
      | None \<Rightarrow> map_option (Pair True) (append_entry h key v d))"

text \<open>
  \<^verbatim>\<open>insert(hint, key, value)\<close>: the new entry goes before the entry of the hint (\<open>None\<close> for the end).
  A hint that is not in the list is undefined in the code.
\<close>

fun insert_before ::
    "entry option \<Rightarrow> entry \<times> variant \<Rightarrow> (entry \<times> variant) list \<Rightarrow> (entry \<times> variant) list" where
  "insert_before hint x [] = [x]"
| "insert_before hint x ((e, v) # es) =
     (if hint = Some e then x # (e, v) # es else (e, v) # insert_before hint x es)"

definition dict_insert_hint ::
    "(variant \<Rightarrow> u64) \<Rightarrow> (variant \<Rightarrow> variant \<Rightarrow> bool) \<Rightarrow> entry option \<Rightarrow> variant \<Rightarrow> variant \<Rightarrow>
     dict_data \<Rightarrow> dict_data option" where
  "dict_insert_hint h eq hint key v d =
     (case lookup_entry h eq key d of
        Some e \<Rightarrow> Some d
      | None \<Rightarrow>
          let e = create_entry h key d in
          map_option (\<lambda>ix. \<lparr>dd_entries = insert_before hint (e, v) (dd_entries d), dd_index = ix,
                            dd_cache = None, dd_fresh = dd_fresh d + 1\<rparr>)
            (index_insert en_hash e (dd_index d)))"

text \<open>\<^verbatim>\<open>insert(entry)\<close> does not look the key up.\<close>

definition dict_insert_entry ::
    "(variant \<Rightarrow> u64) \<Rightarrow> variant \<Rightarrow> variant \<Rightarrow> dict_data \<Rightarrow> dict_data option" where
  "dict_insert_entry h key v d = append_entry h key v d"

text \<open>\<^verbatim>\<open>operator[]\<close> of a mutable dict: the value found, or a new null; a null key is refused.\<close>

definition dict_subscript ::
    "(variant \<Rightarrow> u64) \<Rightarrow> (variant \<Rightarrow> variant \<Rightarrow> bool) \<Rightarrow> variant \<Rightarrow> dict_data \<Rightarrow>
     (variant option result \<times> dict_data) option" where
  "dict_subscript h eq key d =
     (if key = VNull then Some (Inl invalid_arg_exception, d)
      else case lookup_entry h eq key d of
             Some e \<Rightarrow> Some (Inr (entry_value e d), d)
           | None \<Rightarrow> map_option (Pair (Inr (Some VNull))) (append_entry h key VNull d))"

definition dict_erase ::
    "(variant \<Rightarrow> u64) \<Rightarrow> (variant \<Rightarrow> variant \<Rightarrow> bool) \<Rightarrow> variant \<Rightarrow> dict_data \<Rightarrow>
     (bool \<times> dict_data) option" where
  "dict_erase h eq key d =
     (case lookup_entry h eq key d of
        None \<Rightarrow> Some (False, d)
      | Some e \<Rightarrow>
          map_option
            (\<lambda>ix. (True, d\<lparr>dd_entries := filter (\<lambda>(e', w). e' \<noteq> e) (dd_entries d), dd_index := ix,
                           dd_cache := None\<rparr>))
            (index_erase en_hash (en_hash e) (\<lambda>e'. e' = e) (dd_index d)))"

definition dict_clear :: "dict_data \<Rightarrow> dict_data" where
  "dict_clear d = d\<lparr>dd_entries := [], dd_index := index_clear (dd_index d), dd_cache := None\<rparr>"

definition dict_reserve :: "nat \<Rightarrow> dict_data \<Rightarrow> dict_data option" where
  "dict_reserve n d =
     map_option (\<lambda>ix. d\<lparr>dd_index := ix\<rparr>) (index_reserve en_hash n (dd_index d))"

text \<open>The accessors.\<close>

definition dict_get ::
    "(variant \<Rightarrow> u64) \<Rightarrow> (variant \<Rightarrow> variant \<Rightarrow> bool) \<Rightarrow> variant \<Rightarrow> dict_data \<Rightarrow> variant option" where
  "dict_get h eq key d =
     (case lookup_entry h eq key d of None \<Rightarrow> None | Some e \<Rightarrow> entry_value e d)"

definition dict_at ::
    "(variant \<Rightarrow> u64) \<Rightarrow> (variant \<Rightarrow> variant \<Rightarrow> bool) \<Rightarrow> variant \<Rightarrow> dict_data \<Rightarrow> variant result" where
  "dict_at h eq key d =
     (case dict_get h eq key d of None \<Rightarrow> Inl out_of_range_exception | Some v \<Rightarrow> Inr v)"

definition dict_get_default ::
    "(variant \<Rightarrow> u64) \<Rightarrow> (variant \<Rightarrow> variant \<Rightarrow> bool) \<Rightarrow> variant \<Rightarrow> variant \<Rightarrow> dict_data \<Rightarrow> variant" where
  "dict_get_default h eq key dflt d =
     (case dict_get h eq key d of None \<Rightarrow> dflt | Some v \<Rightarrow> v)"

definition dict_contains ::
    "(variant \<Rightarrow> u64) \<Rightarrow> (variant \<Rightarrow> variant \<Rightarrow> bool) \<Rightarrow> variant \<Rightarrow> dict_data \<Rightarrow> bool" where
  "dict_contains h eq key d \<longleftrightarrow> lookup_entry h eq key d \<noteq> None"

definition dict_size :: "dict_data \<Rightarrow> nat" where
  "dict_size d = length (dd_entries d)"

definition dict_keys :: "dict_data \<Rightarrow> variant list" where
  "dict_keys d = map (en_key \<circ> fst) (dd_entries d)"

definition dict_values :: "dict_data \<Rightarrow> variant list" where
  "dict_values d = map snd (dd_entries d)"

text \<open>\<^verbatim>\<open>entry_at_index\<close> and \<^verbatim>\<open>entry_index\<close> fill the cache of the positions when it is empty.\<close>

definition order_cache :: "dict_data \<Rightarrow> entry list \<times> dict_data" where
  "order_cache d =
     (case dd_cache d of
        Some es \<Rightarrow> (es, d)
      | None \<Rightarrow> let es = map fst (dd_entries d) in (es, d\<lparr>dd_cache := Some es\<rparr>))"

fun position :: "entry \<Rightarrow> entry list \<Rightarrow> nat \<Rightarrow> int" where
  "position e [] i = - 1"
| "position e (e' # es) i = (if e' = e then int i else position e es (i + 1))"

definition dict_at_index :: "nat \<Rightarrow> dict_data \<Rightarrow> entry result \<times> dict_data" where
  "dict_at_index i d =
     (if i \<ge> dict_size d then (Inl out_of_range_exception, d)
      else let (es, d') = order_cache d
           in if i < length es then (Inr (es ! i), d') else (Inl out_of_range_exception, d'))"

definition dict_find_index ::
    "(variant \<Rightarrow> u64) \<Rightarrow> (variant \<Rightarrow> variant \<Rightarrow> bool) \<Rightarrow> variant \<Rightarrow> dict_data \<Rightarrow> int \<times> dict_data" where
  "dict_find_index h eq key d =
     (case lookup_entry h eq key d of
        None \<Rightarrow> (- 1, d)
      | Some e \<Rightarrow> (let (es, d') = order_cache d in (position e es 0, d')))"

text \<open>\<^verbatim>\<open>at(index)\<close> and \<^verbatim>\<open>find(index)\<close> look the number up as a key before they take it as a position.\<close>

definition dict_at_number ::
    "(variant \<Rightarrow> u64) \<Rightarrow> (variant \<Rightarrow> variant \<Rightarrow> bool) \<Rightarrow> nat \<Rightarrow> dict_data \<Rightarrow>
     variant option result \<times> dict_data" where
  "dict_at_number h eq i d =
     (case lookup_entry h eq (VUInt uint64_type (of_nat i)) d of
        Some e \<Rightarrow> (Inr (entry_value e d), d)
      | None \<Rightarrow> map_prod (map_sum id (\<lambda>e. entry_value e d)) id (dict_at_index i d))"

text \<open>The constructors from pairs, and \<^verbatim>\<open>operator+=\<close>, which assigns the entries of the other dict.\<close>

fun dict_assign_all ::
    "(variant \<Rightarrow> u64) \<Rightarrow> (variant \<Rightarrow> variant \<Rightarrow> bool) \<Rightarrow> (variant \<times> variant) list \<Rightarrow> dict_data \<Rightarrow>
     dict_data option" where
  "dict_assign_all h eq [] d = Some d"
| "dict_assign_all h eq ((k, v) # es) d = Option.bind (dict_assign h eq k v d) (dict_assign_all h eq es)"

definition dict_of_pairs ::
    "(variant \<Rightarrow> u64) \<Rightarrow> (variant \<Rightarrow> variant \<Rightarrow> bool) \<Rightarrow> (variant \<times> variant) list \<Rightarrow> dict_data option" where
  "dict_of_pairs h eq ps = dict_assign_all h eq ps new_dict"

definition dict_add ::
    "(variant \<Rightarrow> u64) \<Rightarrow> (variant \<Rightarrow> variant \<Rightarrow> bool) \<Rightarrow> dict_data \<Rightarrow> dict_data \<Rightarrow> dict_data option" where
  "dict_add h eq other d =
     dict_assign_all h eq (map (\<lambda>(e, v). (en_key e, v)) (dd_entries other)) d"

text \<open>\<^verbatim>\<open>hash()\<close>, over the hash \<open>h\<close> of the keys and of the values.\<close>

definition hash_entry :: "(variant \<Rightarrow> u64) \<Rightarrow> entry \<times> variant \<Rightarrow> u64 \<Rightarrow> u64" where
  "hash_entry h ev c =
     (let entry_hash = h (en_key (fst ev)) XOR h (snd ev)
      in c XOR (push_bit 5 c + drop_bit 2 c + entry_hash))"

fun hash_every ::
    "(variant \<Rightarrow> u64) \<Rightarrow> nat \<Rightarrow> nat \<Rightarrow> (entry \<times> variant) list \<Rightarrow> u64 \<Rightarrow> u64" where
  "hash_every h step i [] c = c"
| "hash_every h step i (ev # evs) c =
     hash_every h step (i + 1) evs (if i mod step = 0 then hash_entry h ev c else c)"

definition dict_hash :: "(variant \<Rightarrow> u64) \<Rightarrow> dict_data \<Rightarrow> u64" where
  "dict_hash h d =
     (if dd_entries d = [] then 0
      else hash_every h (drop_bit 5 (dict_size d) + 1) 0 (dd_entries d)
             (0x9e3779b9 XOR of_nat (dict_size d)))"

text \<open>\<^verbatim>\<open>copy\<close> creates the entries anew.\<close>

definition dict_copy :: "(variant \<Rightarrow> u64) \<Rightarrow> dict_data \<Rightarrow> dict_data option" where
  "dict_copy h d =
     fold (\<lambda>(e, v) c. Option.bind c (append_entry h (en_key e) v)) (dd_entries d) (Some new_dict)"

section \<open>The invariant\<close>

text \<open>The entries of a dict as an association list in insertion order, which is how the rest of the
  development sees it.\<close>

definition dict_alist :: "dict_data \<Rightarrow> (variant \<times> variant) list" where
  "dict_alist d = map (\<lambda>(e, v). (en_key e, v)) (dd_entries d)"

definition same_hashed :: "(variant \<Rightarrow> u64) \<Rightarrow> (variant \<Rightarrow> variant \<Rightarrow> bool) \<Rightarrow> variant \<Rightarrow> variant \<Rightarrow> bool" where
  "same_hashed h eq a b \<longleftrightarrow> h a = h b \<and> eq a b"

text \<open>
  The index holds exactly the entries of the list, under the hash codes of their keys; addresses are
  distinct and below the next one; a cache that is present lists the entries in order.
\<close>

definition dict_inv :: "(variant \<Rightarrow> u64) \<Rightarrow> dict_data \<Rightarrow> bool" where
  "dict_inv h d \<longleftrightarrow>
     index_inv en_hash (dd_index d) \<and>
     index_entries (dd_index d) = mset (map fst (dd_entries d)) \<and>
     distinct (map fst (dd_entries d)) \<and>
     (\<forall>e \<in> fst ` set (dd_entries d). en_hash e = h (en_key e) \<and> en_address e < dd_fresh d) \<and>
     (\<forall>es. dd_cache d = Some es \<longrightarrow> es = map fst (dd_entries d))"

lemma new_dict_inv: "dict_inv h new_dict" "dict_alist new_dict = []"
  by (simp_all add: dict_inv_def new_dict_def new_index_inv dict_alist_def)

lemma lookup_entry_facts:
  assumes inv: "dict_inv h d"
  shows "lookup_entry h eq key d = Some e \<Longrightarrow> e \<in> fst ` set (dd_entries d) \<and> same_hashed h eq key (en_key e)"
    and "lookup_entry h eq key d = None \<Longrightarrow>
      \<forall>e \<in> fst ` set (dd_entries d). \<not> same_hashed h eq key (en_key e)"
proof -
  let ?found = "\<lambda>e. en_hash e = h key \<and> eq key (en_key e)"
  have ix: "index_inv en_hash (dd_index d)" using inv by (simp add: dict_inv_def)
  have sound: "\<exists>e. ix_slots (dd_index d) ! i = Some e \<and> ?found e \<and> e \<in># index_entries (dd_index d)"
    if "find_slot en_hash (h key) ?found (dd_index d) = Some i" for i
    using find_slot_correct(2) [OF ix _ that] by auto
  have complete: "\<not> (\<exists>e \<in># index_entries (dd_index d). ?found e)"
    if "find_slot en_hash (h key) ?found (dd_index d) = None"
    by (rule find_slot_correct(1) [OF ix _ that]) simp
  have mem: "e \<in># index_entries (dd_index d) \<longleftrightarrow> e \<in> fst ` set (dd_entries d)" for e
    using inv by (simp add: dict_inv_def)
  have key: "e \<in> fst ` set (dd_entries d) \<Longrightarrow> ?found e \<longleftrightarrow> same_hashed h eq key (en_key e)" for e
    using inv by (auto simp: dict_inv_def same_hashed_def)
  show "e \<in> fst ` set (dd_entries d) \<and> same_hashed h eq key (en_key e)" if "lookup_entry h eq key d = Some e"
  proof -
    from that obtain i where "find_slot en_hash (h key) ?found (dd_index d) = Some i"
      "ix_slots (dd_index d) ! i = Some e"
      by (auto simp: lookup_entry_def index_find_def split: option.splits)
    with sound have "?found e" "e \<in># index_entries (dd_index d)" by fastforce+
    with mem key show ?thesis by blast
  qed
  show "\<forall>e \<in> fst ` set (dd_entries d). \<not> same_hashed h eq key (en_key e)"
    if "lookup_entry h eq key d = None"
  proof -
    have "find_slot en_hash (h key) ?found (dd_index d) = None"
    proof (rule ccontr)
      assume "\<not> ?thesis"
      then obtain i where i: "find_slot en_hash (h key) ?found (dd_index d) = Some i" by blast
      from sound [OF this] that i show False by (auto simp: lookup_entry_def index_find_def)
    qed
    from complete [OF this] mem key show ?thesis by blast
  qed
qed

lemma append_entry_correct:
  assumes inv: "dict_inv h d"
  shows "\<exists>d'. append_entry h key v d = Some d' \<and> dict_inv h d' \<and> dict_alist d' = dict_alist d @ [(key, v)]"
proof -
  let ?e = "create_entry h key d"
  obtain ix where ix: "index_insert en_hash ?e (dd_index d) = Some ix" "index_inv en_hash ix"
    "index_entries ix = add_mset ?e (index_entries (dd_index d))"
    using index_insert_correct [of en_hash "dd_index d" ?e] inv by (auto simp: dict_inv_def)
  have "en_address ?e = dd_fresh d" by (simp add: create_entry_def)
  then have "?e \<notin> fst ` set (dd_entries d)" using inv by (metis dict_inv_def less_irrefl)
  with ix inv show ?thesis
    by (auto simp: append_entry_def Let_def dict_inv_def dict_alist_def create_entry_def less_Suc_eq)
qed

lemma mset_filter_other:
  "distinct xs \<Longrightarrow> x \<in> set xs \<Longrightarrow> mset (filter (\<lambda>y. y \<noteq> x) xs) = mset xs - {#x#}"
proof (induction xs)
  case (Cons a xs)
  show ?case
  proof (cases "a = x")
    case True
    with Cons.prems have "filter (\<lambda>y. y \<noteq> x) xs = xs" by (auto simp: filter_id_conv)
    with True show ?thesis by (simp del: mset_filter)
  next
    case False
    with Cons show ?thesis by (simp del: mset_filter)
  qed
qed simp

lemma erase_entry_correct:
  assumes inv: "dict_inv h d" and e: "lookup_entry h eq key d = Some e"
  shows "\<exists>d'. dict_erase h eq key d = Some (True, d') \<and> dict_inv h d' \<and>
    dd_entries d' = filter (\<lambda>(e', w). e' \<noteq> e) (dd_entries d)"
proof -
  have m: "e \<in> fst ` set (dd_entries d)" using lookup_entry_facts(1) [OF inv e] by simp
  obtain ix where ix: "index_erase en_hash (en_hash e) (\<lambda>e'. e' = e) (dd_index d) = Some ix"
    "index_inv en_hash ix" "index_entries ix = index_entries (dd_index d) - {#e#}"
    using index_erase_correct [of en_hash "dd_index d" "\<lambda>e'. e' = e" e] inv by (auto simp: dict_inv_def)
  have f: "map fst (filter (\<lambda>(e', w). e' \<noteq> e) es) = filter (\<lambda>e'. e' \<noteq> e) (map fst es)"
    for es :: "(entry \<times> variant) list"
    by (induction es) auto
  have "mset (map fst (filter (\<lambda>(e', w). e' \<noteq> e) (dd_entries d))) = mset (map fst (dd_entries d)) - {#e#}"
    unfolding f by (rule mset_filter_other) (use inv m in \<open>auto simp: dict_inv_def\<close>)
  moreover have "distinct (map fst (filter (\<lambda>(e', w). e' \<noteq> e) (dd_entries d)))"
    using inv by (simp add: f dict_inv_def)
  ultimately show ?thesis
    using ix inv e by (auto simp: dict_erase_def dict_inv_def simp del: mset_map mset_filter)
qed

lemma set_entry_value_inv: "dict_inv h d \<Longrightarrow> dict_inv h (set_entry_value e v d)"
proof -
  have "map fst (map (\<lambda>(e', w). (e', if e' = e then v else w)) es) = map fst es" for es :: "(entry \<times> variant) list"
    by (induction es) auto
  moreover from this have "fst ` set (map (\<lambda>(e', w). (e', if e' = e then v else w)) es) = fst ` set es"
    for es :: "(entry \<times> variant) list" by (metis list.set_map)
  ultimately show "dict_inv h d \<Longrightarrow> ?thesis"
    by (simp add: dict_inv_def set_entry_value_def del: map_map set_map)
qed

section \<open>Association lists\<close>

fun alist_erase :: "(variant \<Rightarrow> variant \<Rightarrow> bool) \<Rightarrow> variant \<Rightarrow> (variant \<times> variant) list \<Rightarrow> (variant \<times> variant) list" where
  "alist_erase same key [] = []"
| "alist_erase same key ((k, v) # es) = (if same key k then es else (k, v) # alist_erase same key es)"

lemma alist_split:
  assumes "\<forall>x \<in> set xs. \<not> same key (en_key (fst x))" and "same key (en_key e)"
  shows "find_entry same (map (\<lambda>(e, v). (en_key e, v)) (xs @ (e, v) # ys)) key = Some v"
    "dict_set same key w (map (\<lambda>(e, v). (en_key e, v)) (xs @ (e, v) # ys)) =
       map (\<lambda>(e, v). (en_key e, v)) (xs @ (e, w) # ys)"
    "alist_erase same key (map (\<lambda>(e, v). (en_key e, v)) (xs @ (e, v) # ys)) =
       map (\<lambda>(e, v). (en_key e, v)) (xs @ ys)"
  using assms by (induction xs) auto

lemma alist_absent:
  assumes "\<forall>x \<in> set xs. \<not> same key (fst x)"
  shows "find_entry same xs key = None" "dict_set same key w xs = xs @ [(key, w)]"
    "alist_erase same key xs = xs"
  using assms by (induction xs) auto

text \<open>The operations of a dict, on its data and on an association list.\<close>

datatype dict_op =
    Assign variant variant | Insert variant variant | Insert_At nat variant variant
  | Erase variant | Subscript variant | Clear | Reserve nat | At_Index nat | Find_Index variant

fun dict_step ::
    "(variant \<Rightarrow> u64) \<Rightarrow> (variant \<Rightarrow> variant \<Rightarrow> bool) \<Rightarrow> dict_op \<Rightarrow> dict_data \<Rightarrow> dict_data option" where
  "dict_step h eq (Assign k v) d = dict_assign h eq k v d"
| "dict_step h eq (Insert k v) d = map_option snd (dict_insert h eq k v d)"
| "dict_step h eq (Insert_At i k v) d =
     dict_insert_hint h eq (if i < dict_size d then Some (fst (dd_entries d ! i)) else None) k v d"
| "dict_step h eq (Erase k) d = map_option snd (dict_erase h eq k d)"
| "dict_step h eq (Subscript k) d = map_option snd (dict_subscript h eq k d)"
| "dict_step h eq Clear d = Some (dict_clear d)"
| "dict_step h eq (Reserve n) d = dict_reserve n d"
| "dict_step h eq (At_Index i) d = Some (snd (dict_at_index i d))"
| "dict_step h eq (Find_Index k) d = Some (snd (dict_find_index h eq k d))"

fun dict_run ::
    "(variant \<Rightarrow> u64) \<Rightarrow> (variant \<Rightarrow> variant \<Rightarrow> bool) \<Rightarrow> dict_op list \<Rightarrow> dict_data \<Rightarrow> dict_data option" where
  "dict_run h eq [] d = Some d"
| "dict_run h eq (q # qs) d = Option.bind (dict_step h eq q d) (dict_run h eq qs)"

fun alist_step ::
    "(variant \<Rightarrow> variant \<Rightarrow> bool) \<Rightarrow> dict_op \<Rightarrow> (variant \<times> variant) list \<Rightarrow> (variant \<times> variant) list" where
  "alist_step same (Assign k v) es = dict_set same k v es"
| "alist_step same (Insert k v) es = (if find_entry same es k = None then es @ [(k, v)] else es)"
| "alist_step same (Insert_At i k v) es =
     (if find_entry same es k = None then take i es @ (k, v) # drop i es else es)"
| "alist_step same (Erase k) es = alist_erase same k es"
| "alist_step same (Subscript k) es =
     (if k = VNull \<or> find_entry same es k \<noteq> None then es else es @ [(k, VNull)])"
| "alist_step same Clear es = []"
| "alist_step same _ es = es"

fun op_key :: "dict_op \<Rightarrow> variant option" where
  "op_key (Assign k v) = Some k"
| "op_key (Insert k v) = Some k"
| "op_key (Insert_At i k v) = Some k"
| "op_key (Erase k) = Some k"
| "op_key (Subscript k) = Some k"
| "op_key (Find_Index k) = Some k"
| "op_key _ = None"

definition op_keys_in :: "(variant \<Rightarrow> bool) \<Rightarrow> dict_op \<Rightarrow> bool" where
  "op_keys_in key_ok q = (case op_key q of None \<Rightarrow> True | Some k \<Rightarrow> key_ok k)"

lemma insert_before_nth:
  "distinct (map fst es) \<Longrightarrow>
     insert_before (if i < length es then Some (fst (es ! i)) else None) x es = take i es @ x # drop i es"
proof (induction es arbitrary: i)
  case (Cons ev es)
  obtain e v where ev: "ev = (e, v)" by (cases ev)
  show ?case
  proof (cases i)
    case (Suc j)
    have "j < length es \<Longrightarrow> fst (es ! j) \<noteq> e" using Cons.prems ev by force
    with Cons.IH [of j] Cons.prems ev Suc show ?thesis by (auto split: if_splits)
  qed (simp add: ev)
qed simp

lemma insert_hint_correct:
  assumes inv: "dict_inv h d" and none: "lookup_entry h eq key d = None"
  shows "\<exists>d'. dict_step h eq (Insert_At i key v) d = Some d' \<and> dict_inv h d' \<and>
    dict_alist d' = take i (dict_alist d) @ (key, v) # drop i (dict_alist d)"
proof -
  let ?e = "create_entry h key d"
  obtain ix where ix: "index_insert en_hash ?e (dd_index d) = Some ix" "index_inv en_hash ix"
    "index_entries ix = add_mset ?e (index_entries (dd_index d))"
    using index_insert_correct [of en_hash "dd_index d" ?e] inv by (auto simp: dict_inv_def)
  let ?es = "take i (dd_entries d) @ (?e, v) # drop i (dd_entries d)"
  have new: "?e \<notin> fst ` set (dd_entries d)"
    using inv by (fastforce simp: dict_inv_def create_entry_def)
  have "mset (map fst ?es) = add_mset ?e (mset (map fst (take i (dd_entries d) @ drop i (dd_entries d))))"
    by (simp del: append_take_drop_id)
  then have m: "mset (map fst ?es) = add_mset ?e (mset (map fst (dd_entries d)))" by simp
  then have S: "fst ` set ?es = insert ?e (fst ` set (dd_entries d))"
    by (metis list.set_map set_mset_add_mset_insert set_mset_mset)
  have A: "index_entries ix = mset (map fst ?es)" using inv ix(3) m by (simp add: dict_inv_def)
  have B: "distinct (map fst ?es)"
    using inv new m by (metis dict_inv_def distinct.simps(2) list.set_map mset.simps(2) mset_eq_imp_distinct_iff)
  have C: "\<forall>e \<in> fst ` set ?es. en_hash e = h (en_key e) \<and> en_address e < dd_fresh d + 1"
    unfolding S using inv by (auto simp: dict_inv_def create_entry_def)
  let ?d = "\<lparr>dd_entries = ?es, dd_index = ix, dd_cache = None, dd_fresh = dd_fresh d + 1\<rparr>"
  have "dict_inv h ?d"
    unfolding dict_inv_def dict_data.simps using A B C ix(2) by blast
  moreover have "dict_step h eq (Insert_At i key v) d = Some ?d"
    using inv none ix(1) insert_before_nth [of "dd_entries d" i "(?e, v)"]
    by (simp add: dict_insert_hint_def Let_def dict_inv_def dict_size_def)
  moreover have "dict_alist ?d = take i (dict_alist d) @ (key, v) # drop i (dict_alist d)"
    by (simp add: dict_alist_def take_map drop_map create_entry_def)
  ultimately show ?thesis by blast
qed

text \<open>Reading a position fills the cache and changes nothing else.\<close>

lemma order_cache_facts:
  assumes "dict_inv h d"
  shows "fst (order_cache d) = map fst (dd_entries d)" "dict_inv h (snd (order_cache d))"
    "dd_entries (snd (order_cache d)) = dd_entries d"
  using assms by (auto simp: order_cache_def dict_inv_def Let_def split: option.splits)

lemma read_positions:
  assumes "dict_inv h d"
  shows "dict_inv h (snd (dict_at_index i d))" "dict_alist (snd (dict_at_index i d)) = dict_alist d"
    "dict_inv h (snd (dict_find_index h eq k d))" "dict_alist (snd (dict_find_index h eq k d)) = dict_alist d"
  using order_cache_facts [OF assms] assms
  by (auto simp: dict_at_index_def dict_find_index_def dict_alist_def split: prod.splits option.splits)

text \<open>No key is found under another one.\<close>

definition keys_apart ::
    "(variant \<Rightarrow> u64) \<Rightarrow> (variant \<Rightarrow> variant \<Rightarrow> bool) \<Rightarrow> (variant \<Rightarrow> bool) \<Rightarrow> dict_data \<Rightarrow> bool" where
  "keys_apart h eq key_ok d \<longleftrightarrow>
     dict_inv h d \<and> list_all key_ok (map fst (dict_alist d)) \<and>
     sorted_wrt (\<lambda>a b. \<not> same_hashed h eq a b) (map fst (dict_alist d))"

section \<open>Dicts as association lists\<close>

lemma dict_alist_keys: "map fst (dict_alist d) = map (\<lambda>x. en_key (fst x)) (dd_entries d)"
  by (auto simp: dict_alist_def)

text \<open>
  What a dict needs of its keys: among the keys in use, having the same hash code and comparing
  equal is symmetric and transitive.
\<close>

locale keyed_dict =
  fixes h :: "variant \<Rightarrow> u64" and eq :: "variant \<Rightarrow> variant \<Rightarrow> bool" and key_ok :: "variant \<Rightarrow> bool"
  assumes same_sym: "key_ok a \<Longrightarrow> key_ok b \<Longrightarrow> same_hashed h eq a b \<Longrightarrow> same_hashed h eq b a"
    and same_trans: "key_ok a \<Longrightarrow> key_ok b \<Longrightarrow> key_ok c \<Longrightarrow> same_hashed h eq a b \<Longrightarrow> same_hashed h eq b c \<Longrightarrow>
      same_hashed h eq a c"
begin

lemma new_apart: "keys_apart h eq key_ok new_dict"
  by (simp add: keys_apart_def new_dict_inv)

lemma lookup_split:
  assumes d: "keys_apart h eq key_ok d" and key: "key_ok key" and e: "lookup_entry h eq key d = Some e"
  obtains xs v ys where "dd_entries d = xs @ (e, v) # ys" "e \<notin> fst ` set xs" "e \<notin> fst ` set ys"
    "\<forall>x \<in> set xs. \<not> same_hashed h eq key (en_key (fst x))" "same_hashed h eq key (en_key e)"
proof -
  have inv: "dict_inv h d" and ok: "\<forall>x \<in> set (dd_entries d). key_ok (en_key (fst x))"
    using d by (auto simp: keys_apart_def dict_alist_def list_all_iff)
  have e': "e \<in> fst ` set (dd_entries d)" "same_hashed h eq key (en_key e)"
    using lookup_entry_facts(1) [OF inv e] by blast+
  then obtain v where "(e, v) \<in> set (dd_entries d)" by force
  then obtain xs ys where s: "dd_entries d = xs @ (e, v) # ys" by (meson split_list)
  have "\<not> same_hashed h eq key (en_key (fst x))" if x: "x \<in> set xs" for x
  proof
    assume "same_hashed h eq key (en_key (fst x))"
    moreover have "key_ok (en_key (fst x))" "key_ok (en_key e)" using ok x by (auto simp: s)
    ultimately have "same_hashed h eq (en_key (fst x)) (en_key e)"
      using key e'(2) same_sym same_trans by blast
    moreover have "sorted_wrt (\<lambda>a b. \<not> same_hashed h eq a b) (map (\<lambda>x. en_key (fst x)) (dd_entries d))"
      using d by (simp add: keys_apart_def dict_alist_keys)
    ultimately show False using x by (simp add: s sorted_wrt_append)
  qed
  with that [OF s] e'(2) inv show ?thesis by (auto simp: dict_inv_def s)
qed

lemma dict_get_refines:
  assumes d: "keys_apart h eq key_ok d" and key: "key_ok key"
  shows "dict_get h eq key d = find_entry (same_hashed h eq) (dict_alist d) key"
    and "lookup_entry h eq key d = None \<longleftrightarrow> find_entry (same_hashed h eq) (dict_alist d) key = None"
proof -
  have "dict_get h eq key d = find_entry (same_hashed h eq) (dict_alist d) key \<and>
    (lookup_entry h eq key d = None \<longleftrightarrow> find_entry (same_hashed h eq) (dict_alist d) key = None)"
  proof (cases "lookup_entry h eq key d")
    case None
    have "\<forall>x \<in> set (dict_alist d). \<not> same_hashed h eq key (fst x)"
      using lookup_entry_facts(2) [OF _ None] d by (auto simp: keys_apart_def dict_alist_def)
    with None show ?thesis by (simp add: dict_get_def alist_absent)
  next
    case (Some e)
    obtain xs v ys where s: "dd_entries d = xs @ (e, v) # ys" "e \<notin> fst ` set xs" "e \<notin> fst ` set ys"
      "\<forall>x \<in> set xs. \<not> same_hashed h eq key (en_key (fst x))" "same_hashed h eq key (en_key e)"
      by (rule lookup_split [OF d key Some])
    have "map_of xs e = None" using s(2) by (simp add: map_of_eq_None_iff)
    then have "entry_value e d = Some v" by (simp add: entry_value_def s(1) map_add_def)
    moreover have "find_entry (same_hashed h eq) (dict_alist d) key = Some v"
      unfolding dict_alist_def s(1) using s(4,5) by (rule alist_split(1))
    ultimately show ?thesis by (simp add: dict_get_def Some)
  qed
  then show "dict_get h eq key d = find_entry (same_hashed h eq) (dict_alist d) key"
    "lookup_entry h eq key d = None \<longleftrightarrow> find_entry (same_hashed h eq) (dict_alist d) key = None" by blast+
qed

lemma absent_key:
  assumes d: "keys_apart h eq key_ok d" and key: "key_ok key" and none: "lookup_entry h eq key d = None"
    and k: "k \<in> set (map fst (dict_alist d))"
  shows "\<not> same_hashed h eq k key \<and> \<not> same_hashed h eq key k"
proof -
  have inv: "dict_inv h d" and ok: "key_ok k" using d k by (auto simp: keys_apart_def list_all_iff)
  have "\<not> same_hashed h eq key k"
    using k lookup_entry_facts(2) [OF inv none] by (auto simp: dict_alist_def)
  with same_sym [OF ok key] show ?thesis by blast
qed

lemma append_refines:
  assumes d: "keys_apart h eq key_ok d" and key: "key_ok key" and none: "lookup_entry h eq key d = None"
  shows "\<exists>d'. append_entry h key v d = Some d' \<and> keys_apart h eq key_ok d' \<and>
    dict_alist d' = dict_alist d @ [(key, v)]"
proof -
  have inv: "dict_inv h d" using d by (simp add: keys_apart_def)
  obtain d' where d': "append_entry h key v d = Some d'" "dict_inv h d'"
    "dict_alist d' = dict_alist d @ [(key, v)]" using append_entry_correct [OF inv] by blast
  note apart = absent_key [OF d key none]
  with d d' key show ?thesis by (auto simp: keys_apart_def sorted_wrt_append)
qed

lemma insert_at_refines:
  assumes d: "keys_apart h eq key_ok d" and key: "key_ok key" and none: "lookup_entry h eq key d = None"
  shows "\<exists>d'. dict_step h eq (Insert_At i key v) d = Some d' \<and> keys_apart h eq key_ok d' \<and>
    dict_alist d' = take i (dict_alist d) @ (key, v) # drop i (dict_alist d)"
proof -
  let ?ks = "map fst (dict_alist d)" and ?apart = "\<lambda>a b. \<not> same_hashed h eq a b"
  have inv: "dict_inv h d" using d by (simp add: keys_apart_def)
  obtain d' where d': "dict_step h eq (Insert_At i key v) d = Some d'" "dict_inv h d'"
    "dict_alist d' = take i (dict_alist d) @ (key, v) # drop i (dict_alist d)"
    using insert_hint_correct [OF inv none] by blast
  have no: "\<not> same_hashed h eq k key" "\<not> same_hashed h eq key k" if k: "k \<in> set ?ks" for k
    using absent_key [OF d key none k] by simp_all
  have "sorted_wrt ?apart (take i ?ks @ drop i ?ks)" using d by (simp add: keys_apart_def)
  then have "sorted_wrt ?apart (map fst (dict_alist d'))"
    using no unfolding d'(3) sorted_wrt_append
    by (auto simp: sorted_wrt_append take_map [symmetric] drop_map [symmetric]
        dest: in_set_takeD in_set_dropD)
  moreover have "list_all key_ok (map fst (dict_alist d'))"
    using d key unfolding d'(3) by (auto simp: keys_apart_def list_all_iff dest: in_set_takeD in_set_dropD)
  ultimately show ?thesis using d' by (simp add: keys_apart_def)
qed

lemma assign_refines:
  assumes d: "keys_apart h eq key_ok d" and key: "key_ok key"
  shows "\<exists>d'. dict_assign h eq key v d = Some d' \<and> keys_apart h eq key_ok d' \<and>
    dict_alist d' = dict_set (same_hashed h eq) key v (dict_alist d)"
proof (cases "lookup_entry h eq key d")
  case None
  have "\<forall>x \<in> set (dict_alist d). \<not> same_hashed h eq key (fst x)"
    using lookup_entry_facts(2) [OF _ None] d by (auto simp: keys_apart_def dict_alist_def)
  with append_refines [OF d key None] None show ?thesis by (simp add: dict_assign_def alist_absent)
next
  case (Some e)
  obtain xs w ys where s: "dd_entries d = xs @ (e, w) # ys" "e \<notin> fst ` set xs" "e \<notin> fst ` set ys"
    "\<forall>x \<in> set xs. \<not> same_hashed h eq key (en_key (fst x))" "same_hashed h eq key (en_key e)"
    by (rule lookup_split [OF d key Some])
  have other: "map (\<lambda>(e', w). (e', if e' = e then v else w)) zs = zs" if "e \<notin> fst ` set zs" for zs
    using that by (induction zs) auto
  have en: "dd_entries (set_entry_value e v d) = xs @ (e, v) # ys"
    using s(1-3) other by (simp add: set_entry_value_def)
  have al: "dict_alist (set_entry_value e v d) = dict_set (same_hashed h eq) key v (dict_alist d)"
    unfolding dict_alist_def en s(1) using s(4,5) by (rule alist_split(2) [symmetric])
  have "map fst (dict_alist (set_entry_value e v d)) = map fst (dict_alist d)"
    by (simp add: dict_alist_def en s(1))
  then have "keys_apart h eq key_ok (set_entry_value e v d)"
    using d set_entry_value_inv by (simp add: keys_apart_def)
  with al Some show ?thesis by (simp add: dict_assign_def)
qed

lemma erase_refines:
  assumes d: "keys_apart h eq key_ok d" and key: "key_ok key"
  shows "\<exists>b d'. dict_erase h eq key d = Some (b, d') \<and> keys_apart h eq key_ok d' \<and>
    dict_alist d' = alist_erase (same_hashed h eq) key (dict_alist d)"
proof (cases "lookup_entry h eq key d")
  case None
  have "\<forall>x \<in> set (dict_alist d). \<not> same_hashed h eq key (fst x)"
    using lookup_entry_facts(2) [OF _ None] d by (auto simp: keys_apart_def dict_alist_def)
  then have "dict_alist d = alist_erase (same_hashed h eq) key (dict_alist d)" by (simp add: alist_absent)
  with d None show ?thesis by (intro exI [of _ False] exI [of _ d]) (simp add: dict_erase_def)
next
  case (Some e)
  obtain xs w ys where s: "dd_entries d = xs @ (e, w) # ys" "e \<notin> fst ` set xs" "e \<notin> fst ` set ys"
    "\<forall>x \<in> set xs. \<not> same_hashed h eq key (en_key (fst x))" "same_hashed h eq key (en_key e)"
    by (rule lookup_split [OF d key Some])
  have "dict_inv h d" using d by (simp add: keys_apart_def)
  from erase_entry_correct [OF this Some] obtain d' where d': "dict_erase h eq key d = Some (True, d')"
    "dict_inv h d'" "dd_entries d' = filter (\<lambda>(e', w). e' \<noteq> e) (dd_entries d)" by blast
  have other: "filter (\<lambda>(e', w). e' \<noteq> e) zs = zs" if "e \<notin> fst ` set zs" for zs :: "(entry \<times> variant) list"
    using that by (induction zs) auto
  have en: "dd_entries d' = xs @ ys" using d'(3) s(1-3) other by simp
  have al: "dict_alist d' = alist_erase (same_hashed h eq) key (dict_alist d)"
    unfolding dict_alist_def en s(1) using s(4,5) by (rule alist_split(3) [symmetric])
  have "keys_apart h eq key_ok d'"
    using d d'(2) by (auto simp: keys_apart_def dict_alist_def en s(1) sorted_wrt_append)
  with al d'(1) show ?thesis by (intro exI [of _ True] exI [of _ d']) simp
qed

lemma dict_step_refines:
  assumes d: "keys_apart h eq key_ok d" and q: "op_keys_in key_ok q"
  shows "\<exists>d'. dict_step h eq q d = Some d' \<and> keys_apart h eq key_ok d' \<and>
    dict_alist d' = alist_step (same_hashed h eq) q (dict_alist d)"
proof (cases q)
  case (Assign k v)
  with assign_refines [OF d] q show ?thesis by (simp add: op_keys_in_def)
next
  case (Insert k v)
  with q have k: "key_ok k" by (simp add: op_keys_in_def)
  show ?thesis
    using append_refines [OF d k] dict_get_refines(2) [OF d k] d
    by (cases "lookup_entry h eq k d") (auto simp: Insert dict_insert_def)
next
  case (Insert_At i k v)
  with q have k: "key_ok k" by (simp add: op_keys_in_def)
  show ?thesis
    using insert_at_refines [OF d k] dict_get_refines(2) [OF d k] d
    by (cases "lookup_entry h eq k d") (auto simp: Insert_At dict_insert_hint_def)
next
  case (Erase k)
  with erase_refines [OF d] q show ?thesis by (fastforce simp: op_keys_in_def)
next
  case (Subscript k)
  with q have k: "key_ok k" by (simp add: op_keys_in_def)
  show ?thesis
    using append_refines [OF d k] dict_get_refines(2) [OF d k] d
    by (cases "lookup_entry h eq k d") (auto simp: Subscript dict_subscript_def)
next
  case Clear
  have "dict_inv h (dict_clear d)"
    using d new_index_inv
    by (auto simp: keys_apart_def dict_inv_def dict_clear_def index_clear_def new_index_def)
  with Clear show ?thesis by (simp add: keys_apart_def dict_alist_def dict_clear_def)
next
  case (Reserve n)
  have "index_inv en_hash (dd_index d)" using d by (simp add: keys_apart_def dict_inv_def)
  from index_reserve_correct [OF this, of n] obtain ix where
    "index_reserve en_hash n (dd_index d) = Some ix" "index_inv en_hash ix"
    "index_entries ix = index_entries (dd_index d)" by blast
  with d Reserve show ?thesis by (auto simp: dict_reserve_def keys_apart_def dict_inv_def dict_alist_def)
next
  case (At_Index i)
  have "dict_inv h d" using d by (simp add: keys_apart_def)
  note read_positions(1,2) [OF this, of i]
  with d At_Index show ?thesis by (simp add: keys_apart_def)
next
  case (Find_Index k)
  have "dict_inv h d" using d by (simp add: keys_apart_def)
  note read_positions(3,4) [OF this, of eq k]
  with d Find_Index show ?thesis by (simp add: keys_apart_def)
qed

lemma dict_run_refines:
  "keys_apart h eq key_ok d \<Longrightarrow> list_all (op_keys_in key_ok) qs \<Longrightarrow>
     \<exists>d'. dict_run h eq qs d = Some d' \<and> keys_apart h eq key_ok d' \<and>
       dict_alist d' = fold (alist_step (same_hashed h eq)) qs (dict_alist d)"
proof (induction qs arbitrary: d)
  case (Cons q qs)
  from Cons.prems obtain d' where "dict_step h eq q d = Some d'" "keys_apart h eq key_ok d'"
    "dict_alist d' = alist_step (same_hashed h eq) q (dict_alist d)"
    using dict_step_refines [of d q] by auto
  moreover from Cons.IH [OF this(2)] Cons.prems(2) obtain d'' where "dict_run h eq qs d' = Some d''"
    "keys_apart h eq key_ok d''" "dict_alist d'' = fold (alist_step (same_hashed h eq)) qs (dict_alist d')"
    by auto
  ultimately show ?case by simp
qed simp

end

text \<open>Every operation returns and keeps the invariant, whatever the comparison of keys.\<close>

lemma dict_clear_inv: "dict_inv h d \<Longrightarrow> dict_inv h (dict_clear d)"
  using new_index_inv by (auto simp: dict_inv_def dict_clear_def index_clear_def new_index_def)

lemma dict_reserve_inv:
  assumes "dict_inv h d"
  shows "\<exists>d'. dict_reserve n d = Some d' \<and> dict_inv h d'"
proof -
  have "index_inv en_hash (dd_index d)" using assms by (simp add: dict_inv_def)
  from index_reserve_correct [OF this, of n] show ?thesis
    using assms by (auto simp: dict_reserve_def dict_inv_def)
qed

lemma dict_step_inv:
  assumes inv: "dict_inv h d"
  shows "\<exists>d'. dict_step h eq q d = Some d' \<and> dict_inv h d'"
proof -
  note add = append_entry_correct [OF inv] and hint = insert_hint_correct [OF inv]
  have lookup: "\<exists>d'. (case lookup_entry h eq k d of Some e \<Rightarrow> f e | None \<Rightarrow> g) = Some d' \<and> dict_inv h d'"
    if "\<And>e. lookup_entry h eq k d = Some e \<Longrightarrow> \<exists>d'. f e = Some d' \<and> dict_inv h d'"
      "lookup_entry h eq k d = None \<Longrightarrow> \<exists>d'. g = Some d' \<and> dict_inv h d'" for k f g
    using that by (cases "lookup_entry h eq k d") auto
  show ?thesis
  proof (cases q)
    case (Assign k v)
    show ?thesis unfolding Assign dict_step.simps dict_assign_def
      by (rule lookup) (use add [of k v] set_entry_value_inv [OF inv] in auto)
  next
    case (Insert k v)
    show ?thesis using add [of k v] inv
      by (cases "lookup_entry h eq k d") (auto simp: Insert dict_insert_def)
  next
    case (Insert_At i k v)
    show ?thesis using hint [of eq k i v] inv
      by (cases "lookup_entry h eq k d") (auto simp: Insert_At dict_insert_hint_def)
  next
    case (Erase k)
    show ?thesis using erase_entry_correct [OF inv, of eq k] inv
      by (cases "lookup_entry h eq k d") (force simp: Erase dict_erase_def)+
  next
    case (Subscript k)
    show ?thesis using add [of k VNull] inv
      by (cases "lookup_entry h eq k d") (auto simp: Subscript dict_subscript_def)
  qed (use inv dict_clear_inv dict_reserve_inv read_positions in auto)
qed

lemma dict_run_inv: "dict_inv h d \<Longrightarrow> \<exists>d'. dict_run h eq qs d = Some d' \<and> dict_inv h d'"
proof (induction qs arbitrary: d)
  case (Cons q qs)
  obtain d' where "dict_step h eq q d = Some d'" "dict_inv h d'"
    using dict_step_inv [OF Cons.prems] by blast
  with Cons.IH show ?case by simp
qed simp

lemma dict_copy_aux:
  "dict_inv h c \<Longrightarrow>
     \<exists>c'. fold (\<lambda>(e, v) c. Option.bind c (append_entry h (en_key e) v)) es (Some c) = Some c' \<and>
       dict_inv h c' \<and> dict_alist c' = dict_alist c @ map (\<lambda>(e, v). (en_key e, v)) es"
proof (induction es arbitrary: c)
  case (Cons ev es)
  obtain e v where ev: "ev = (e, v)" by (cases ev)
  obtain c1 where c1: "append_entry h (en_key e) v c = Some c1" "dict_inv h c1"
    "dict_alist c1 = dict_alist c @ [(en_key e, v)]" using append_entry_correct [OF Cons.prems] by blast
  from Cons.IH [OF c1(2)] c1(1,3) show ?case by (simp add: ev)
qed simp

section \<open>Keys that are their own names\<close>

fun alist_position :: "variant \<Rightarrow> (variant \<times> variant) list \<Rightarrow> nat \<Rightarrow> int" where
  "alist_position key [] i = - 1"
| "alist_position key ((k, v) # es) i = (if key = k then int i else alist_position key es (i + 1))"

lemma position_split:
  "e \<notin> fst ` set xs \<Longrightarrow> position e (map fst (xs @ (e, v) # ys)) i = int (i + length xs)"
  by (induction xs arbitrary: i) auto

lemma alist_position_split:
  "\<forall>x \<in> set xs. key \<noteq> en_key (fst x) \<Longrightarrow> key = en_key e \<Longrightarrow>
     alist_position key (map (\<lambda>(e, v). (en_key e, v)) (xs @ (e, v) # ys)) i = int (i + length xs)"
  by (induction xs arbitrary: i) auto

lemma alist_position_absent: "key \<notin> fst ` set es \<Longrightarrow> alist_position key es i = - 1"
  by (induction es arbitrary: i) auto

locale named_dict = keyed_dict +
  assumes named: "key_ok a \<Longrightarrow> key_ok b \<Longrightarrow> same_hashed h eq a b \<longleftrightarrow> a = b"
begin

lemma find_named:
  "list_all key_ok (map fst es) \<Longrightarrow> key_ok k \<Longrightarrow>
     find_entry (same_hashed h eq) es k = find_entry (=) es k \<and>
     dict_set (same_hashed h eq) k v es = dict_set (=) k v es \<and>
     alist_erase (same_hashed h eq) k es = alist_erase (=) k es"
  by (induction es) (auto simp: named)

lemma keys_stay:
  "list_all key_ok (map fst es) \<Longrightarrow> key_ok k \<Longrightarrow> list_all key_ok (map fst (dict_set (=) k v es))"
  "list_all key_ok (map fst es) \<Longrightarrow> list_all key_ok (map fst (alist_erase (=) k es))"
  by (induction es) auto

lemma step_named:
  assumes es: "list_all key_ok (map fst es)" and q: "op_keys_in key_ok q"
  shows "alist_step (same_hashed h eq) q es = alist_step (=) q es"
    "list_all key_ok (map fst (alist_step (=) q es))"
proof -
  note f = find_named [OF es] keys_stay [OF es]
  show "alist_step (same_hashed h eq) q es = alist_step (=) q es"
    using q f by (cases q) (auto simp: op_keys_in_def)
  show "list_all key_ok (map fst (alist_step (=) q es))"
    using q f es by (cases q) (auto simp: op_keys_in_def list_all_iff dest: in_set_takeD in_set_dropD)
qed

lemma fold_named:
  "list_all key_ok (map fst es) \<Longrightarrow> list_all (op_keys_in key_ok) qs \<Longrightarrow>
     fold (alist_step (same_hashed h eq)) qs es = fold (alist_step (=)) qs es"
  by (induction qs arbitrary: es) (auto simp: step_named)

lemma run_named:
  assumes "list_all (op_keys_in key_ok) qs"
  shows "\<exists>d. dict_run h eq qs new_dict = Some d \<and> keys_apart h eq key_ok d \<and>
    dict_alist d = fold (alist_step (=)) qs []"
  using dict_run_refines [OF new_apart assms] fold_named [OF _ assms, of "[]"]
  by (simp add: new_dict_inv)

lemma get_named:
  assumes "keys_apart h eq key_ok d" "key_ok k"
  shows "dict_get h eq k d = find_entry (=) (dict_alist d) k"
proof -
  have "list_all key_ok (map fst (dict_alist d))" using assms(1) by (simp add: keys_apart_def)
  with dict_get_refines(1) [OF assms] find_named assms(2) show ?thesis by simp
qed

lemma find_index_named:
  assumes d: "keys_apart h eq key_ok d" and k: "key_ok k"
  shows "fst (dict_find_index h eq k d) = alist_position k (dict_alist d) 0"
proof -
  have inv: "dict_inv h d" and ok: "list_all key_ok (map fst (dict_alist d))"
    using d by (simp_all add: keys_apart_def)
  show ?thesis
  proof (cases "lookup_entry h eq k d")
    case None
    have "same_hashed h eq k k" using k named by blast
    with absent_key [OF d k None] have "k \<notin> fst ` set (dict_alist d)" by auto
    with None show ?thesis by (simp add: dict_find_index_def alist_position_absent)
  next
    case (Some e)
    obtain xs v ys where s: "dd_entries d = xs @ (e, v) # ys" "e \<notin> fst ` set xs" "e \<notin> fst ` set ys"
      "\<forall>x \<in> set xs. \<not> same_hashed h eq k (en_key (fst x))" "same_hashed h eq k (en_key e)"
      by (rule lookup_split [OF d k Some])
    have keys: "\<forall>x \<in> set (dd_entries d). key_ok (en_key (fst x))"
      using ok by (auto simp: dict_alist_keys list_all_iff)
    then have "k = en_key e" "\<forall>x \<in> set xs. k \<noteq> en_key (fst x)"
      using s(4,5) named k by (auto simp: s(1))
    then have a: "alist_position k (dict_alist d) 0 = int (length xs)"
      using alist_position_split [of xs k e v ys 0] by (simp add: dict_alist_def s(1))
    have "position e (map fst (dd_entries d)) 0 = int (length xs)"
      using position_split [OF s(2), of v ys 0] by (simp add: s(1))
    with a Some order_cache_facts(1) [OF inv] show ?thesis
      by (simp add: dict_find_index_def split_beta)
  qed
qed

end

definition is_text_key :: "variant \<Rightarrow> bool" where
  "is_text_key k = (case k of VString s \<Rightarrow> True | _ \<Rightarrow> False)"

interpretation text_dict: named_dict h "variant_equal m sk" is_text_key for h m sk
  by unfold_locales
    (auto simp: same_hashed_def is_text_key_def variant_equal.simps type_tests split: variant.splits)

definition is_integer_key :: "variant \<Rightarrow> bool" where
  "is_integer_key k = (case k of VInt _ i \<Rightarrow> True | VUInt _ u \<Rightarrow> True | _ \<Rightarrow> False)"

definition key_bits :: "variant \<Rightarrow> u64" where
  "key_bits k = (case k of VInt _ i \<Rightarrow> ucast i | VUInt _ u \<Rightarrow> u | _ \<Rightarrow> 0)"

lemma integer_keys_equal:
  assumes "is_integer_key a" "is_integer_key b"
  shows "variant_equal m sk a b \<longleftrightarrow> key_bits a = key_bits b"
  using assms
  by (auto simp: is_integer_key_def key_bits_def variant_equal.simps type_tests other_type_equal_def
      convert_compare_def try_as_def split: variant.splits)

interpretation integer_dict: keyed_dict h "variant_equal m sk" is_integer_key for h m sk
  by unfold_locales (auto simp: same_hashed_def integer_keys_equal)

section \<open>Properties\<close>

lemma dict_at_index_alist:
  assumes "dict_inv h d"
  shows "map_sum id en_key (fst (dict_at_index i d)) =
    (if i < length (dict_alist d) then Inr (fst (dict_alist d ! i)) else Inl out_of_range_exception)"
  using order_cache_facts(1) [OF assms]
  by (auto simp: dict_at_index_def dict_size_def dict_alist_def split_beta)

text \<open>
  C7. A dict under text keys is an association list in insertion order: every sequence of
  assignments, insertions, removals, \<open>[]\<close>, \<open>clear\<close>, \<open>reserve\<close> and reads of positions, from an empty
  dict, returns; the entries are those of the same operations on a list of pairs compared by \<open>=\<close>; and
  \<open>get\<close> finds what the list holds, whatever the hash of the keys and the collisions in the index.
\<close>

theorem dict_is_ordered_map:
  assumes "list_all (op_keys_in is_text_key) qs"
  shows "\<exists>d. dict_run h (variant_equal m sk) qs new_dict = Some d \<and>
    dict_alist d = fold (alist_step (=)) qs [] \<and>
    (\<forall>s. dict_get h (variant_equal m sk) (VString s) d = find_entry (=) (dict_alist d) (VString s))"
proof -
  obtain d where d: "dict_run h (variant_equal m sk) qs new_dict = Some d"
    "keys_apart h (variant_equal m sk) is_text_key d" "dict_alist d = fold (alist_step (=)) qs []"
    using text_dict.run_named [OF assms] by blast
  have "is_text_key (VString s)" for s by (simp add: is_text_key_def)
  with text_dict.get_named [OF d(2)] d(1,3) show ?thesis by auto
qed

theorem dict_is_ordered_map_witness:
  "\<forall>m sk. \<exists>d. dict_run (\<lambda>k. 0) (variant_equal m sk)
      [Assign (VString ''a'') VNull, Insert (VString ''b'') VNull, Erase (VString ''a''),
       Subscript (VString ''c''), Insert_At 0 (VString ''d'') (VBool True)] new_dict = Some d \<and>
    dict_alist d = [(VString ''d'', VBool True), (VString ''b'', VNull), (VString ''c'', VNull)]"
proof (intro allI, goal_cases)
  case (1 m sk)
  show ?case
    using dict_is_ordered_map [of "[Assign (VString ''a'') VNull, Insert (VString ''b'') VNull,
        Erase (VString ''a''), Subscript (VString ''c''), Insert_At 0 (VString ''d'') (VBool True)]"
        "\<lambda>k. 0" m sk]
    by (auto simp: op_keys_in_def is_text_key_def simp del: dict_run.simps)
qed

text \<open>
  C32. Positions are those of the entries in insertion order, whatever was read or changed before: the
  cache of the positions never goes stale. \<open>at_index\<close> returns the entry at a position or refuses one past the
  end, and \<open>find_index\<close> the position of a key or -1.
\<close>

theorem dict_positions_current:
  assumes "list_all (op_keys_in is_text_key) qs"
  shows "\<exists>d es. dict_run h (variant_equal m sk) qs new_dict = Some d \<and> es = fold (alist_step (=)) qs [] \<and>
    (\<forall>i. map_sum id en_key (fst (dict_at_index i d)) =
       (if i < length es then Inr (fst (es ! i)) else Inl out_of_range_exception)) \<and>
    (\<forall>s. fst (dict_find_index h (variant_equal m sk) (VString s) d) = alist_position (VString s) es 0)"
proof -
  obtain d where d: "dict_run h (variant_equal m sk) qs new_dict = Some d"
    "keys_apart h (variant_equal m sk) is_text_key d" "dict_alist d = fold (alist_step (=)) qs []"
    using text_dict.run_named [OF assms] by blast
  have "is_text_key (VString s)" for s by (simp add: is_text_key_def)
  with text_dict.find_index_named [OF d(2)]
  have "\<forall>s. fst (dict_find_index h (variant_equal m sk) (VString s) d) =
      alist_position (VString s) (dict_alist d) 0" by blast
  moreover have "dict_inv h d" using d(2) by (simp add: keys_apart_def)
  note dict_at_index_alist [OF this]
  ultimately show ?thesis using d(1,3) by metis
qed

theorem dict_positions_current_witness:
  "\<forall>m sk. \<exists>d. dict_run (\<lambda>k. 7) (variant_equal m sk)
      [Assign (VString ''a'') VNull, Assign (VString ''b'') VNull, At_Index 1, Erase (VString ''a'')]
      new_dict = Some d \<and>
    map_sum id en_key (fst (dict_at_index 0 d)) = Inr (VString ''b'') \<and>
    fst (dict_find_index (\<lambda>k. 7) (variant_equal m sk) (VString ''b'') d) = 0 \<and>
    fst (dict_find_index (\<lambda>k. 7) (variant_equal m sk) (VString ''a'') d) = - 1"
proof (intro allI, goal_cases)
  case (1 m sk)
  show ?case
    using dict_positions_current [of "[Assign (VString ''a'') VNull, Assign (VString ''b'') VNull,
        At_Index 1, Erase (VString ''a'')]" "\<lambda>k. 7" m sk]
    by (auto simp: op_keys_in_def is_text_key_def simp del: dict_run.simps)
qed

text \<open>
  Under integer keys, signed and unsigned, two keys are one when their 64 bits and their hash codes
  are the same: every sequence of operations returns and leaves the entries of the same operations on a
  list of pairs compared so.
\<close>

theorem dict_integer_keys:
  assumes "list_all (op_keys_in is_integer_key) qs"
  shows "\<exists>d. dict_run h (variant_equal m sk) qs new_dict = Some d \<and>
    dict_alist d = fold (alist_step (same_hashed h (variant_equal m sk))) qs []"
  using integer_dict.dict_run_refines [OF integer_dict.new_apart assms, of h m sk]
  by (auto simp: new_dict_inv)

theorem dict_integer_keys_witness:
  "\<forall>m sk. \<exists>d. dict_run (\<lambda>k. key_bits k) (variant_equal m sk)
      [Assign (VInt int32_type 5) VNull, Assign (VUInt uint8_type 5) (VBool True)] new_dict = Some d \<and>
    dict_alist d = [(VInt int32_type 5, VBool True)]"
proof (intro allI, goal_cases)
  case (1 m sk)
  show ?case
    using dict_integer_keys [of "[Assign (VInt int32_type 5) VNull, Assign (VUInt uint8_type 5) (VBool True)]"
        "\<lambda>k. key_bits k" m sk]
    by (auto simp: op_keys_in_def is_integer_key_def same_hashed_def integer_keys_equal key_bits_def
        simp del: dict_run.simps)
qed

text \<open>
  Whatever the comparison of the keys, every sequence of operations returns and leaves the index with
  exactly the entries of the list, each under the hash of its key; a copy of the dict then has the same
  entries in the same order.
\<close>

theorem dict_copy_same_entries:
  "\<exists>d c. dict_run h eq qs new_dict = Some d \<and> dict_inv h d \<and>
     dict_copy h d = Some c \<and> dict_inv h c \<and> dict_alist c = dict_alist d"
proof -
  obtain d where d: "dict_run h eq qs new_dict = Some d" "dict_inv h d"
    using dict_run_inv [OF new_dict_inv(1)] by blast
  obtain c where "dict_copy h d = Some c" "dict_inv h c" "dict_alist c = dict_alist d"
    using dict_copy_aux [OF new_dict_inv(1), of h "dd_entries d"]
    by (auto simp: dict_copy_def new_dict_inv(2) dict_alist_def [of d])
  with d show ?thesis by blast
qed

text \<open>Construction from pairs and \<^verbatim>\<open>operator+=\<close> are assignments one after the other.\<close>

lemma dict_assign_all_run:
  "dict_assign_all h eq ps d = dict_run h eq (map (\<lambda>(k, v). Assign k v) ps) d"
proof (induction ps arbitrary: d)
  case (Cons p ps)
  obtain k v where "p = (k, v)" by (cases p)
  with Cons show ?case by (simp cong: Option.bind_cong)
qed simp

text \<open>\<^verbatim>\<open>insert(entry)\<close> leaves two entries under one key.\<close>

lemma insert_entry_duplicates:
  "\<exists>d. Option.bind (dict_insert_entry h k v new_dict) (dict_insert_entry h k w) = Some d \<and>
     dict_alist d = [(k, v), (k, w)]"
proof -
  obtain d where d: "append_entry h k v new_dict = Some d" "dict_inv h d" "dict_alist d = [(k, v)]"
    using append_entry_correct [OF new_dict_inv(1), of h k v] by (auto simp: new_dict_inv)
  from append_entry_correct [OF d(2), of k w] d show ?thesis
    by (auto simp: dict_insert_entry_def)
qed
end
