(* ===== verification/FutureState.thy ===== *)
theory FutureState
  imports Prelude "HOL-Library.Multiset"
begin

unbundle bit_operations_syntax

text \<open>
  The shared state of a promise and its futures (\<^verbatim>\<open>libraries/mcbase/include/mc/futures/state.h\<close>,
  \<^verbatim>\<open>src/futures/state.cpp\<close>, \<^verbatim>\<open>any_promise.cpp\<close>, \<^verbatim>\<open>any_promise.h\<close>, \<^verbatim>\<open>any_future.cpp\<close>,
  \<^verbatim>\<open>callback_list.cpp\<close>) under every interleaving of the threads that use it. A thread performs a list of
  operations; \<open>thread_step\<close> is one access to the shared state, in the order of the code: a load, a
  compare-and-swap, taking the mutex, or an access made under it. Releasing the mutex is part of the
  last access of its section. A continuation or a callback is a number; to run it is an entry of the
  history, since what it does, and what an executor does with it, lies outside the state.
\<close>

section \<open>The word of flags\<close>

datatype completion_state = pending | resolved | rejected | cancelled

datatype launch = dispatch | async | deferred

definition s_completion_state_mask :: u32 where "s_completion_state_mask = 3"
definition s_bound_flag :: u32 where "s_bound_flag = 4"
definition s_policy_mask :: u32 where "s_policy_mask = push_bit 3 3"
definition s_storage_kind_mask :: u32 where "s_storage_kind_mask = push_bit 5 3"
definition s_payload_constructed_flag :: u32 where "s_payload_constructed_flag = push_bit 7 1"
definition s_deferred_task_started_flag :: u32 where "s_deferred_task_started_flag = push_bit 8 1"

fun encode_completion_state_bits :: "completion_state \<Rightarrow> u32" where
  "encode_completion_state_bits pending = 0"
| "encode_completion_state_bits resolved = 1"
| "encode_completion_state_bits rejected = 2"
| "encode_completion_state_bits cancelled = 3"

definition decode_completion_state_bits :: "u32 \<Rightarrow> completion_state" where
  "decode_completion_state_bits flags =
     (let c = flags AND s_completion_state_mask
      in if c = 0 then pending else if c = 1 then resolved else if c = 2 then rejected else cancelled)"

fun launch_code :: "launch \<Rightarrow> u32" where
  "launch_code dispatch = 1"
| "launch_code async = 2"
| "launch_code deferred = 3"

definition encode_policy_bits :: "launch \<Rightarrow> u32" where
  "encode_policy_bits p = push_bit 3 (launch_code p)"

text \<open>The number of the policy: an enumeration without a name for 0.\<close>

definition decode_policy_bits :: "u32 \<Rightarrow> u32" where
  "decode_policy_bits flags = drop_bit 3 (flags AND s_policy_mask)"

text \<open>
  The loops of \<^verbatim>\<open>compare_exchange_weak\<close> in the setters end with the value loaded last replaced, one
  atomic change of the word.
\<close>

definition set_field :: "u32 \<Rightarrow> u32 \<Rightarrow> u32 \<Rightarrow> u32" where
  "set_field fld bits flags = (flags AND NOT fld) OR bits"

definition has_flag :: "u32 \<Rightarrow> u32 \<Rightarrow> bool" where
  "has_flag flag flags \<longleftrightarrow> flags AND flag \<noteq> 0"

definition set_flag :: "u32 \<Rightarrow> u32 \<Rightarrow> u32" where
  "set_flag flag flags = flags OR flag"

definition initial_flags :: u32 where
  "initial_flags = encode_completion_state_bits pending OR encode_policy_bits async"

lemma set_field_same: "bits AND fld = bits \<Longrightarrow> set_field fld bits flags AND fld = bits"
  by (auto simp: set_field_def bit_eq_iff bit_simps)

lemma set_field_other:
  "bits AND fld = bits \<Longrightarrow> fld AND other = 0 \<Longrightarrow> set_field fld bits flags AND other = flags AND other"
  by (auto simp: set_field_def bit_eq_iff bit_simps)

lemma set_flag_other: "flag AND other = 0 \<Longrightarrow> set_flag flag flags AND other = flags AND other"
  by (auto simp: set_flag_def bit_eq_iff bit_simps)

lemma set_flag_same: "flag \<noteq> 0 \<Longrightarrow> set_flag flag flags AND flag = flag"
  by (rule bit_word_eqI) (auto simp: set_flag_def bit_simps)

lemmas flag_masks = s_completion_state_mask_def s_bound_flag_def s_policy_mask_def
  s_storage_kind_mask_def s_payload_constructed_flag_def s_deferred_task_started_flag_def

lemma encoded_bits:
  "encode_completion_state_bits c AND s_completion_state_mask = encode_completion_state_bits c"
  "encode_policy_bits p AND s_policy_mask = encode_policy_bits p"
  by (cases c; simp add: flag_masks) (cases p; simp add: flag_masks encode_policy_bits_def)

lemma decode_encoded [simp]:
  "decode_completion_state_bits (encode_completion_state_bits c) = c"
  by (cases c) (simp_all add: decode_completion_state_bits_def s_completion_state_mask_def)

definition set_completion_state :: "completion_state \<Rightarrow> u32 \<Rightarrow> u32" where
  "set_completion_state c = set_field s_completion_state_mask (encode_completion_state_bits c)"

definition set_policy :: "launch \<Rightarrow> u32 \<Rightarrow> u32" where
  "set_policy p = set_field s_policy_mask (encode_policy_bits p)"

lemma decode_completion_masked:
  "decode_completion_state_bits flags = decode_completion_state_bits (flags AND s_completion_state_mask)"
  by (simp add: decode_completion_state_bits_def ac_simps)

text \<open>The fields of the word are independent, and read back what was set.\<close>

lemma flag_fields [simp]:
  fixes flags :: u32
  shows "decode_completion_state_bits (set_completion_state c flags) = c"
    "decode_policy_bits (set_completion_state c flags) = decode_policy_bits flags"
    "has_flag s_bound_flag (set_completion_state c flags) = has_flag s_bound_flag flags"
    "has_flag s_deferred_task_started_flag (set_completion_state c flags) =
       has_flag s_deferred_task_started_flag flags"
    "decode_policy_bits (set_policy p flags) = launch_code p"
    "decode_completion_state_bits (set_policy p flags) = decode_completion_state_bits flags"
    "has_flag s_bound_flag (set_policy p flags) = has_flag s_bound_flag flags"
    "has_flag s_deferred_task_started_flag (set_policy p flags) = has_flag s_deferred_task_started_flag flags"
    "has_flag s_bound_flag (set_flag s_bound_flag flags)"
    "decode_completion_state_bits (set_flag s_bound_flag flags) = decode_completion_state_bits flags"
    "decode_policy_bits (set_flag s_bound_flag flags) = decode_policy_bits flags"
    "has_flag s_deferred_task_started_flag (set_flag s_bound_flag flags) =
       has_flag s_deferred_task_started_flag flags"
    "has_flag s_deferred_task_started_flag (set_flag s_deferred_task_started_flag flags)"
    "decode_completion_state_bits (set_flag s_deferred_task_started_flag flags) =
       decode_completion_state_bits flags"
    "decode_policy_bits (set_flag s_deferred_task_started_flag flags) = decode_policy_bits flags"
    "has_flag s_bound_flag (set_flag s_deferred_task_started_flag flags) = has_flag s_bound_flag flags"
proof -
  have compatible: "s_completion_state_mask AND s_policy_mask = 0" "s_completion_state_mask AND s_bound_flag = 0"
    "s_completion_state_mask AND s_deferred_task_started_flag = 0" "s_policy_mask AND s_bound_flag = 0"
    "s_policy_mask AND s_deferred_task_started_flag = 0" "s_policy_mask AND s_completion_state_mask = 0"
    "s_bound_flag AND s_completion_state_mask = 0" "s_bound_flag AND s_policy_mask = 0"
    "s_bound_flag AND s_deferred_task_started_flag = 0"
    "s_deferred_task_started_flag AND s_completion_state_mask = 0"
    "s_deferred_task_started_flag AND s_policy_mask = 0" "s_deferred_task_started_flag AND s_bound_flag = 0"
    by (simp_all add: flag_masks)
  have nz: "s_bound_flag \<noteq> 0" "s_deferred_task_started_flag \<noteq> 0" by (simp_all add: flag_masks)
  have p: "drop_bit 3 (encode_policy_bits p) = launch_code p"
    by (cases p) (simp_all add: encode_policy_bits_def)
  note facts = set_completion_state_def set_policy_def has_flag_def decode_policy_bits_def
    decode_completion_masked [of "set_field _ _ _"] decode_completion_masked [of "set_flag _ _"]
    decode_completion_masked [of flags] set_field_same set_field_other encoded_bits set_flag_other
    set_flag_same compatible nz p
  show "decode_completion_state_bits (set_completion_state c flags) = c"
    "decode_policy_bits (set_completion_state c flags) = decode_policy_bits flags"
    "has_flag s_bound_flag (set_completion_state c flags) = has_flag s_bound_flag flags"
    "has_flag s_deferred_task_started_flag (set_completion_state c flags) =
       has_flag s_deferred_task_started_flag flags"
    "decode_policy_bits (set_policy p flags) = launch_code p"
    "decode_completion_state_bits (set_policy p flags) = decode_completion_state_bits flags"
    "has_flag s_bound_flag (set_policy p flags) = has_flag s_bound_flag flags"
    "has_flag s_deferred_task_started_flag (set_policy p flags) = has_flag s_deferred_task_started_flag flags"
    "has_flag s_bound_flag (set_flag s_bound_flag flags)"
    "decode_completion_state_bits (set_flag s_bound_flag flags) = decode_completion_state_bits flags"
    "decode_policy_bits (set_flag s_bound_flag flags) = decode_policy_bits flags"
    "has_flag s_deferred_task_started_flag (set_flag s_bound_flag flags) =
       has_flag s_deferred_task_started_flag flags"
    "has_flag s_deferred_task_started_flag (set_flag s_deferred_task_started_flag flags)"
    "decode_completion_state_bits (set_flag s_deferred_task_started_flag flags) =
       decode_completion_state_bits flags"
    "decode_policy_bits (set_flag s_deferred_task_started_flag flags) = decode_policy_bits flags"
    "has_flag s_bound_flag (set_flag s_deferred_task_started_flag flags) = has_flag s_bound_flag flags"
    by (simp_all add: facts del: drop_bit_and)
qed

section \<open>The shared state\<close>

text \<open>An exception pointer: the one of a cancellation, or one that was thrown; never null.\<close>

datatype 'e failure = Canceled | Thrown 'e

record ('v, 'e) future_state =
  m_state_flags :: u32
  m_cancel_requested :: bool
  m_exception :: "'e failure option"
  m_slot :: "'v option"
  m_continuations :: "nat list"
  m_cancel_callbacks :: "nat list"
  m_mutex :: "nat option"
  m_cv_waiters :: "nat list"
  m_deferred_task :: bool
  m_executor_valid :: bool
  posted_publications :: nat

definition new_state :: "bool \<Rightarrow> ('v, 'e) future_state" where
  "new_state executor_valid =
     \<lparr>m_state_flags = initial_flags, m_cancel_requested = False, m_exception = None, m_slot = None,
      m_continuations = [], m_cancel_callbacks = [], m_mutex = None, m_cv_waiters = [],
      m_deferred_task = False, m_executor_valid = executor_valid, posted_publications = 0\<rparr>"

definition get_completion_state :: "('v, 'e) future_state \<Rightarrow> completion_state" where
  "get_completion_state s = decode_completion_state_bits (m_state_flags s)"

definition is_ready :: "('v, 'e) future_state \<Rightarrow> bool" where
  "is_ready s \<longleftrightarrow> get_completion_state s \<noteq> pending"

definition put_completion_state ::
    "completion_state \<Rightarrow> ('v, 'e) future_state \<Rightarrow> ('v, 'e) future_state" where
  "put_completion_state c s = s\<lparr>m_state_flags := set_completion_state c (m_state_flags s)\<rparr>"

definition set_ready :: "('v, 'e) future_state \<Rightarrow> ('v, 'e) future_state" where
  "set_ready s =
     (if get_completion_state s = cancelled then s
      else put_completion_state (if m_exception s = None then resolved else rejected) s)"

section \<open>Operations\<close>

text \<open>What a promise is given: a value, or an exception.\<close>

datatype ('v, 'e) outcome = Value 'v | Failure 'e

datatype ('v, 'e) future_op =
    Set_Outcome "('v, 'e) outcome" bool
  | Set_Bound
  | Set_Policy launch
  | Cancel
  | Add_Continuation nat
  | Add_Cancel_Callback nat
  | Install_Deferred
  | Wait
  | Get_Value
  | Publish_Posted

text \<open>What is left to do once \<^verbatim>\<open>try_start_deferred_task\<close> returns.\<close>

datatype after_start = Then_Continuation nat | Then_Wait

datatype ('v, 'e) pc =
    Idle
  | Set_Check "('v, 'e) outcome" bool
  | Set_Lock "('v, 'e) outcome" bool
  | Set_Recheck "('v, 'e) outcome" bool
  | Set_Once "('v, 'e) outcome" bool
  | Value_Ready 'v
  | Value_Store 'v
  | Exception_Store 'e
  | Exception_Ready
  | Mark_Policy
  | Mark_Lock
  | Mark_Ready
  | Mark_Swap
  | Mark_Notify "nat list"
  | Run_Continuations "nat list"
  | Cancel_Ready
  | Cancel_Request
  | Cancel_Lock
  | Cancel_Confirm
  | Cancel_Swap_Lock
  | Cancel_Swap
  | Cancel_Run "nat list"
  | Cancel_Finish_Lock
  | Cancel_Finish
  | Callback_Ready nat
  | Callback_Request nat
  | Callback_Lock nat
  | Callback_Ready_Again nat
  | Callback_Request_Again nat
  | Callback_Late nat
  | Continuation_Lock nat
  | Continuation_Check nat
  | Start_Task after_start
  | Start_Flags after_start
  | Start_Test u32 after_start
  | Start_Swap u32 after_start
  | Start_Run after_start
  | Wait_Lock
  | Wait_Check
  | Wait_Asleep
  | Get_Lock
  | Get_Read
  | Bound_Check
  | Bound_Once
  | Bound_Mark
  | Publish

datatype ('v, 'e) event =
    Registered nat
  | Ran nat
  | Callback_Registered nat
  | Callback_Ran nat
  | Accepted "('v, 'e) outcome"
  | Already_Satisfied
  | Returned "'v option"
  | Rethrown "'e failure option"
  | Not_Ready
  | Task_Started

text \<open>The first step of an operation.\<close>

fun start :: "('v, 'e) future_op \<Rightarrow> ('v, 'e) pc" where
  "start (Set_Outcome x strict_once) = Set_Check x strict_once"
| "start Set_Bound = Bound_Check"
| "start (Set_Policy p) = Idle"
| "start Cancel = Cancel_Ready"
| "start (Add_Continuation c) = Start_Task (Then_Continuation c)"
| "start (Add_Cancel_Callback c) = Callback_Ready c"
| "start Install_Deferred = Idle"
| "start Wait = Start_Task Then_Wait"
| "start Get_Value = Get_Lock"
| "start Publish_Posted = Publish"

fun after :: "after_start \<Rightarrow> ('v, 'e) pc" where
  "after (Then_Continuation c) = Continuation_Lock c"
| "after Then_Wait = Wait_Lock"

text \<open>Taking the mutex, and releasing it with the last access of a section.\<close>

definition acquire ::
    "nat \<Rightarrow> ('v, 'e) pc \<Rightarrow> ('v, 'e) future_state \<Rightarrow>
     (('v, 'e) pc \<times> ('v, 'e) future_state \<times> ('v, 'e) event list) option" where
  "acquire i p s = (if m_mutex s = None then Some (p, s\<lparr>m_mutex := Some i\<rparr>, []) else None)"

definition release :: "('v, 'e) future_state \<Rightarrow> ('v, 'e) future_state" where
  "release s = s\<lparr>m_mutex := None\<rparr>"

text \<open>
  One access of thread \<open>i\<close>: the next place, the state and the entries of the history, or \<open>None\<close> when
  the thread is blocked on the mutex, on the condition variable or on an empty executor.
\<close>

fun thread_step ::
    "nat \<Rightarrow> ('v, 'e) pc \<Rightarrow> ('v, 'e) future_state \<Rightarrow>
     (('v, 'e) pc \<times> ('v, 'e) future_state \<times> ('v, 'e) event list) option" where
  "thread_step i Idle s = None"
| "thread_step i (Set_Check x strict_once) s =
     Some (if m_cancel_requested s then Idle else Set_Lock x strict_once, s, [])"
| "thread_step i (Set_Lock x strict_once) s = acquire i (Set_Recheck x strict_once) s"
| "thread_step i (Set_Recheck x strict_once) s =
     (if m_cancel_requested s then Some (Idle, release s, []) else Some (Set_Once x strict_once, s, []))"
| "thread_step i (Set_Once x strict_once) s =
     (if strict_once \<and> (is_ready s \<or> has_flag s_bound_flag (m_state_flags s))
      then Some (Idle, release s, [Already_Satisfied])
      else if is_ready s then Some (Idle, release s, [])
      else Some (case x of Value v \<Rightarrow> Value_Ready v | Failure e \<Rightarrow> Exception_Store e, s, []))"
| "thread_step i (Value_Ready v) s = Some (Value_Store v, set_ready s, [])"
| "thread_step i (Value_Store v) s =
     Some (Mark_Policy, release (s\<lparr>m_slot := Some v\<rparr>), [Accepted (Value v)])"
| "thread_step i (Exception_Store e) s =
     Some (Exception_Ready, s\<lparr>m_exception := Some (Thrown e)\<rparr>, [Accepted (Failure e)])"
| "thread_step i Exception_Ready s = Some (Mark_Policy, release (set_ready s), [])"
| "thread_step i Mark_Policy s =
     (if decode_policy_bits (m_state_flags s) = launch_code deferred \<and> m_executor_valid s
      then Some (Idle, s\<lparr>posted_publications := posted_publications s + 1\<rparr>, [])
      else Some (Mark_Lock, s, []))"
| "thread_step i Mark_Lock s = acquire i Mark_Ready s"
| "thread_step i Mark_Ready s = Some (Mark_Swap, set_ready s, [])"
| "thread_step i Mark_Swap s =
     Some (Mark_Notify (m_continuations s),
           release (s\<lparr>m_continuations := [], m_cancel_callbacks := []\<rparr>), [])"
| "thread_step i (Mark_Notify cs) s = Some (Run_Continuations cs, s\<lparr>m_cv_waiters := []\<rparr>, [])"
| "thread_step i (Run_Continuations []) s = Some (Idle, s, [])"
| "thread_step i (Run_Continuations (c # cs)) s = Some (Run_Continuations cs, s, [Ran c])"
| "thread_step i Cancel_Ready s = Some (if is_ready s then Idle else Cancel_Request, s, [])"
| "thread_step i Cancel_Request s =
     (if m_cancel_requested s then Some (Idle, s, [])
      else Some (Cancel_Lock, s\<lparr>m_cancel_requested := True\<rparr>, []))"
| "thread_step i Cancel_Lock s = acquire i Cancel_Confirm s"
| "thread_step i Cancel_Confirm s =
     (if is_ready s
      then Some (Idle, release (s\<lparr>m_cancel_requested := get_completion_state s = cancelled\<rparr>), [])
      else Some (Cancel_Swap_Lock, release s, []))"
| "thread_step i Cancel_Swap_Lock s = acquire i Cancel_Swap s"
| "thread_step i Cancel_Swap s =
     Some (Cancel_Run (m_cancel_callbacks s), release (s\<lparr>m_cancel_callbacks := []\<rparr>), [])"
| "thread_step i (Cancel_Run []) s = Some (Cancel_Finish_Lock, s, [])"
| "thread_step i (Cancel_Run (c # cs)) s = Some (Cancel_Run cs, s, [Callback_Ran c])"
| "thread_step i Cancel_Finish_Lock s = acquire i Cancel_Finish s"
| "thread_step i Cancel_Finish s =
     Some (Mark_Policy,
           release (if is_ready s then s
                    else put_completion_state cancelled (s\<lparr>m_exception := Some Canceled\<rparr>)), [])"
| "thread_step i (Callback_Ready c) s =
     Some (if is_ready s then Callback_Late c else Callback_Request c, s, [])"
| "thread_step i (Callback_Request c) s =
     Some (if m_cancel_requested s then Callback_Late c else Callback_Lock c, s, [])"
| "thread_step i (Callback_Lock c) s = acquire i (Callback_Ready_Again c) s"
| "thread_step i (Callback_Ready_Again c) s =
     (if is_ready s then Some (Callback_Late c, release s, []) else Some (Callback_Request_Again c, s, []))"
| "thread_step i (Callback_Request_Again c) s =
     (if m_cancel_requested s then Some (Callback_Late c, release s, [])
      else Some (Idle, release (s\<lparr>m_cancel_callbacks := m_cancel_callbacks s @ [c]\<rparr>),
                 [Callback_Registered c]))"
| "thread_step i (Callback_Late c) s =
     Some (Idle, s, Callback_Registered c # (if m_cancel_requested s then [Callback_Ran c] else []))"
| "thread_step i (Continuation_Lock c) s = acquire i (Continuation_Check c) s"
| "thread_step i (Continuation_Check c) s =
     (if is_ready s then Some (Run_Continuations [c], release s, [Registered c])
      else Some (Idle, release (s\<lparr>m_continuations := m_continuations s @ [c]\<rparr>), [Registered c]))"
| "thread_step i (Start_Task k) s = Some (if m_deferred_task s then Start_Flags k else after k, s, [])"
| "thread_step i (Start_Flags k) s =
     Some (if decode_policy_bits (m_state_flags s) \<noteq> launch_code deferred then after k
           else if is_ready s then after k
           else Start_Test (m_state_flags s) k, s, [])"
| "thread_step i (Start_Test flags k) s =
     Some (if has_flag s_deferred_task_started_flag flags then after k else Start_Swap flags k, s, [])"
| "thread_step i (Start_Swap flags k) s =
     (if m_state_flags s = flags
      then Some (Start_Run k, s\<lparr>m_state_flags := set_flag s_deferred_task_started_flag flags\<rparr>, [])
      else Some (Start_Test (m_state_flags s) k, s, []))"
| "thread_step i (Start_Run k) s = Some (after k, s, [Task_Started])"
| "thread_step i Wait_Lock s = acquire i Wait_Check s"
| "thread_step i Wait_Check s =
     (if is_ready s then Some (Idle, release s, [])
      else Some (Wait_Asleep, release (s\<lparr>m_cv_waiters := i # m_cv_waiters s\<rparr>), []))"
| "thread_step i Wait_Asleep s = (if i \<in> set (m_cv_waiters s) then None else Some (Wait_Lock, s, []))"
| "thread_step i Get_Lock s = acquire i Get_Read s"
| "thread_step i Get_Read s =
     Some (Idle, release s,
           [case get_completion_state s of
              pending \<Rightarrow> Not_Ready
            | resolved \<Rightarrow> Returned (m_slot s)
            | _ \<Rightarrow> Rethrown (m_exception s)])"
| "thread_step i Bound_Check s = Some (if m_cancel_requested s then Idle else Bound_Once, s, [])"
| "thread_step i Bound_Once s =
     (if is_ready s \<or> has_flag s_bound_flag (m_state_flags s) then Some (Idle, s, [Already_Satisfied])
      else Some (Bound_Mark, s, []))"
| "thread_step i Bound_Mark s =
     Some (Idle, s\<lparr>m_state_flags := set_flag s_bound_flag (m_state_flags s)\<rparr>, [])"
| "thread_step i Publish s =
     (if posted_publications s = 0 then None
      else Some (Mark_Lock, s\<lparr>posted_publications := posted_publications s - 1\<rparr>, []))"

text \<open>The accesses of operations that are one store.\<close>

fun at_once :: "('v, 'e) future_op \<Rightarrow> ('v, 'e) future_state \<Rightarrow> ('v, 'e) future_state" where
  "at_once (Set_Policy p) s = s\<lparr>m_state_flags := set_policy p (m_state_flags s)\<rparr>"
| "at_once Install_Deferred s = s\<lparr>m_deferred_task := True\<rparr>"
| "at_once q s = s"

text \<open>A configuration is the state, the threads with the operations they still perform, and the history.\<close>

type_synonym ('v, 'e) thread = "('v, 'e) pc \<times> ('v, 'e) future_op list"

type_synonym ('v, 'e) configuration =
  "('v, 'e) future_state \<times> ('v, 'e) thread list \<times> ('v, 'e) event list"

inductive future_step :: "('v, 'e) configuration \<Rightarrow> ('v, 'e) configuration \<Rightarrow> bool" where
  begin_operation:
    "i < length ts \<Longrightarrow> ts ! i = (Idle, q # qs) \<Longrightarrow>
     future_step (s, ts, h) (at_once q s, ts[i := (start q, qs)], h)"
| access:
    "i < length ts \<Longrightarrow> ts ! i = (p, qs) \<Longrightarrow> thread_step i p s = Some (p', s', es) \<Longrightarrow>
     future_step (s, ts, h) (s', ts[i := (p', qs)], h @ es)"

inductive_cases future_stepE: "future_step (s, ts, h) c'"

definition initial :: "bool \<Rightarrow> ('v, 'e) future_op list list \<Rightarrow> ('v, 'e) configuration" where
  "initial executor_valid programs = (new_state executor_valid, map (Pair Idle) programs, [])"

definition reachable_from ::
    "bool \<Rightarrow> ('v, 'e) future_op list list \<Rightarrow> ('v, 'e) configuration \<Rightarrow> bool" where
  "reachable_from executor_valid programs c \<longleftrightarrow> future_step\<^sup>*\<^sup>* (initial executor_valid programs) c"
section \<open>What holds at each place\<close>

text \<open>
  The role of a place: inside a section of the mutex or not; a setter past its test for a cancellation
  (\<open>Once\<close> to \<open>Raising\<close>); a cancellation that has requested, one that has been confirmed and one that took
  the callbacks; a publication; the push of a cancel callback, and the test behind a missed push.
\<close>

datatype place_role =
    Free | Section | Once | Completing | Storing | Raising | Marking | Marking_Section
  | Requesting | Requesting_Section | Claiming | Claiming_Section | Swapped | Swapped_Section
  | Pushing | Late

fun role :: "('v, 'e) pc \<Rightarrow> place_role" where
  "role (Set_Recheck _ _) = Section"
| "role (Set_Once _ _) = Once"
| "role (Value_Ready _) = Completing"
| "role (Value_Store _) = Storing"
| "role (Exception_Store _) = Completing"
| "role Exception_Ready = Raising"
| "role Mark_Policy = Marking"
| "role Mark_Lock = Marking"
| "role Mark_Ready = Marking_Section"
| "role Mark_Swap = Marking_Section"
| "role (Mark_Notify _) = Marking"
| "role (Run_Continuations _) = Marking"
| "role Cancel_Lock = Requesting"
| "role Cancel_Confirm = Requesting_Section"
| "role Cancel_Swap_Lock = Claiming"
| "role Cancel_Swap = Claiming_Section"
| "role (Cancel_Run _) = Swapped"
| "role Cancel_Finish_Lock = Swapped"
| "role Cancel_Finish = Swapped_Section"
| "role (Callback_Ready_Again _) = Section"
| "role (Callback_Request_Again _) = Pushing"
| "role (Callback_Late _) = Late"
| "role (Continuation_Check _) = Section"
| "role Wait_Check = Section"
| "role Get_Read = Section"
| "role _ = Free"

fun in_section :: "place_role \<Rightarrow> bool" where
  "in_section Section = True"
| "in_section Once = True"
| "in_section Completing = True"
| "in_section Storing = True"
| "in_section Raising = True"
| "in_section Marking_Section = True"
| "in_section Requesting_Section = True"
| "in_section Claiming_Section = True"
| "in_section Swapped_Section = True"
| "in_section Pushing = True"
| "in_section _ = False"

fun setting :: "place_role \<Rightarrow> bool" where
  "setting Once = True"
| "setting Completing = True"
| "setting Storing = True"
| "setting Raising = True"
| "setting _ = False"

fun claiming :: "place_role \<Rightarrow> bool" where
  "claiming Claiming = True"
| "claiming Claiming_Section = True"
| "claiming Swapped = True"
| "claiming Swapped_Section = True"
| "claiming _ = False"

fun requesting :: "place_role \<Rightarrow> bool" where
  "requesting Requesting = True"
| "requesting Requesting_Section = True"
| "requesting Claiming = True"
| "requesting Claiming_Section = True"
| "requesting Swapped = True"
| "requesting Swapped_Section = True"
| "requesting _ = False"

definition compatible :: "place_role \<Rightarrow> place_role \<Rightarrow> bool" where
  "compatible p q \<longleftrightarrow>
     \<not> (in_section p \<and> in_section q) \<and> \<not> (requesting p \<and> requesting q) \<and>
     \<not> (setting p \<and> claiming q) \<and> \<not> (claiming p \<and> setting q)"

lemma role_after [simp]: "role (after k) = Free"
  by (cases k) simp_all

text \<open>The value and the exception fit the completion.\<close>

definition settled :: "('v, 'e) future_state \<Rightarrow> bool" where
  "settled s =
     (case get_completion_state s of
        pending \<Rightarrow> m_exception s = None \<and> m_slot s = None
      | resolved \<Rightarrow> m_exception s = None \<and> m_slot s \<noteq> None
      | rejected \<Rightarrow> (\<exists>e. m_exception s = Some (Thrown e)) \<and> m_slot s = None
      | cancelled \<Rightarrow> m_exception s = Some Canceled \<and> m_slot s = None)"

fun place_ok :: "place_role \<Rightarrow> ('v, 'e) future_state \<Rightarrow> bool" where
  "place_ok Free s \<longleftrightarrow> True"
| "place_ok Section s \<longleftrightarrow> settled s"
| "place_ok Once s \<longleftrightarrow> settled s"
| "place_ok Completing s \<longleftrightarrow> settled s \<and> get_completion_state s = pending"
| "place_ok Storing s \<longleftrightarrow> get_completion_state s = resolved \<and> m_exception s = None \<and> m_slot s = None"
| "place_ok Raising s \<longleftrightarrow>
     get_completion_state s = pending \<and> (\<exists>e. m_exception s = Some (Thrown e)) \<and> m_slot s = None"
| "place_ok Marking s \<longleftrightarrow> get_completion_state s \<noteq> pending"
| "place_ok Marking_Section s \<longleftrightarrow> settled s \<and> get_completion_state s \<noteq> pending"
| "place_ok Requesting s \<longleftrightarrow> m_cancel_requested s"
| "place_ok Requesting_Section s \<longleftrightarrow> settled s \<and> m_cancel_requested s"
| "place_ok Claiming s \<longleftrightarrow> m_cancel_requested s \<and> get_completion_state s = pending"
| "place_ok Claiming_Section s \<longleftrightarrow>
     settled s \<and> m_cancel_requested s \<and> get_completion_state s = pending"
| "place_ok Swapped s \<longleftrightarrow>
     m_cancel_requested s \<and> get_completion_state s = pending \<and> m_cancel_callbacks s = []"
| "place_ok Swapped_Section s \<longleftrightarrow>
     settled s \<and> m_cancel_requested s \<and> get_completion_state s = pending \<and> m_cancel_callbacks s = []"
| "place_ok Pushing s \<longleftrightarrow> settled s \<and> get_completion_state s = pending"
| "place_ok Late s \<longleftrightarrow>
     m_cancel_requested s \<or> get_completion_state s \<noteq> pending \<and> get_completion_state s \<noteq> cancelled"

definition state_ok :: "('v, 'e) future_state \<Rightarrow> bool" where
  "state_ok s \<longleftrightarrow>
     (m_mutex s = None \<longrightarrow> settled s) \<and>
     (posted_publications s > 0 \<longrightarrow> get_completion_state s \<noteq> pending) \<and>
     (get_completion_state s = cancelled \<longrightarrow> m_cancel_requested s \<and> m_cancel_callbacks s = [])"

section \<open>Each access keeps it\<close>

lemma completion_put [simp]:
  "get_completion_state (put_completion_state c s) = c"
  by (simp add: get_completion_state_def put_completion_state_def)

lemma put_completion_fields [simp]:
  "m_exception (put_completion_state c s) = m_exception s"
  "m_slot (put_completion_state c s) = m_slot s"
  "m_cancel_requested (put_completion_state c s) = m_cancel_requested s"
  "m_cancel_callbacks (put_completion_state c s) = m_cancel_callbacks s"
  "m_continuations (put_completion_state c s) = m_continuations s"
  "m_mutex (put_completion_state c s) = m_mutex s"
  "m_cv_waiters (put_completion_state c s) = m_cv_waiters s"
  "posted_publications (put_completion_state c s) = posted_publications s"
  by (simp_all add: put_completion_state_def)

lemma completion_cong:
  "m_state_flags s = m_state_flags t \<Longrightarrow> get_completion_state s = get_completion_state t"
  by (simp add: get_completion_state_def)

lemma completion_updates [simp]:
  "get_completion_state (s\<lparr>m_cancel_requested := b\<rparr>) = get_completion_state s"
  "get_completion_state (s\<lparr>m_exception := x\<rparr>) = get_completion_state s"
  "get_completion_state (s\<lparr>m_slot := y\<rparr>) = get_completion_state s"
  "get_completion_state (s\<lparr>m_continuations := cs\<rparr>) = get_completion_state s"
  "get_completion_state (s\<lparr>m_cancel_callbacks := cs\<rparr>) = get_completion_state s"
  "get_completion_state (s\<lparr>m_mutex := m\<rparr>) = get_completion_state s"
  "get_completion_state (s\<lparr>m_cv_waiters := cs\<rparr>) = get_completion_state s"
  "get_completion_state (s\<lparr>m_deferred_task := b\<rparr>) = get_completion_state s"
  "get_completion_state (s\<lparr>posted_publications := n\<rparr>) = get_completion_state s"
  by (simp_all add: get_completion_state_def)

lemma completion_flags [simp]:
  "get_completion_state (s\<lparr>m_state_flags := set_policy p (m_state_flags s)\<rparr>) = get_completion_state s"
  "get_completion_state (s\<lparr>m_state_flags := set_flag s_bound_flag (m_state_flags s)\<rparr>) = get_completion_state s"
  "get_completion_state (s\<lparr>m_state_flags := set_flag s_deferred_task_started_flag (m_state_flags s)\<rparr>) =
     get_completion_state s"
  by (simp_all add: get_completion_state_def)

lemma settled_cong:
  "get_completion_state s = get_completion_state t \<Longrightarrow> m_exception s = m_exception t \<Longrightarrow>
     m_slot s = m_slot t \<Longrightarrow> settled s = settled t"
  unfolding settled_def by (cases "get_completion_state t") auto

lemma settled_updates [simp]:
  "settled (s\<lparr>m_cancel_requested := b\<rparr>) = settled s"
  "settled (s\<lparr>m_continuations := cs\<rparr>) = settled s"
  "settled (s\<lparr>m_cancel_callbacks := cs\<rparr>) = settled s"
  "settled (s\<lparr>m_mutex := m\<rparr>) = settled s"
  "settled (s\<lparr>m_cv_waiters := cs\<rparr>) = settled s"
  "settled (s\<lparr>m_deferred_task := b\<rparr>) = settled s"
  "settled (s\<lparr>posted_publications := n\<rparr>) = settled s"
  "settled (s\<lparr>m_state_flags := set_policy p (m_state_flags s)\<rparr>) = settled s"
  "settled (s\<lparr>m_state_flags := set_flag s_bound_flag (m_state_flags s)\<rparr>) = settled s"
  "settled (s\<lparr>m_state_flags := set_flag s_deferred_task_started_flag (m_state_flags s)\<rparr>) = settled s"
  by (rule settled_cong; simp)+

lemma set_ready_settled:
  assumes "settled s" "get_completion_state s \<noteq> pending"
  shows "get_completion_state (set_ready s) = get_completion_state s" "settled (set_ready s)"
  using assms by (auto simp: settled_def set_ready_def split: completion_state.splits)

lemma set_ready_fields [simp]:
  "m_exception (set_ready s) = m_exception s"
  "m_slot (set_ready s) = m_slot s"
  "m_cancel_requested (set_ready s) = m_cancel_requested s"
  "m_cancel_callbacks (set_ready s) = m_cancel_callbacks s"
  "m_continuations (set_ready s) = m_continuations s"
  "m_mutex (set_ready s) = m_mutex s"
  "m_cv_waiters (set_ready s) = m_cv_waiters s"
  "posted_publications (set_ready s) = posted_publications s"
  by (simp_all add: set_ready_def)

lemma completion_started [simp]:
  "m_state_flags s = flags \<Longrightarrow>
     get_completion_state (s\<lparr>m_state_flags := set_flag s_deferred_task_started_flag flags\<rparr>) =
     get_completion_state s"
  using completion_flags(3) [of s] by simp

lemma set_ready_completion:
  "get_completion_state (set_ready s) =
     (if get_completion_state s = cancelled then cancelled
      else if m_exception s = None then resolved else rejected)"
  by (simp add: set_ready_def)

lemma set_ready_not [simp]:
  "get_completion_state (set_ready s) = cancelled \<longleftrightarrow> get_completion_state s = cancelled"
  "get_completion_state (set_ready s) \<noteq> pending"
  by (simp_all add: set_ready_completion)

lemma settled_iff:
  "settled s \<longleftrightarrow>
     (get_completion_state s = pending \<longrightarrow> m_exception s = None \<and> m_slot s = None) \<and>
     (get_completion_state s = resolved \<longrightarrow> m_exception s = None \<and> m_slot s \<noteq> None) \<and>
     (get_completion_state s = rejected \<longrightarrow> (\<exists>e. m_exception s = Some (Thrown e)) \<and> m_slot s = None) \<and>
     (get_completion_state s = cancelled \<longrightarrow> m_exception s = Some Canceled \<and> m_slot s = None)"
  by (cases "get_completion_state s") (simp_all add: settled_def)

lemmas access_simps = acquire_def release_def is_ready_def state_ok_def set_ready_completion

lemma access_keeps:
  assumes "thread_step i p s = Some (p', s', es)"
    and "in_section (role p) \<longleftrightarrow> m_mutex s = Some i" and "place_ok (role p) s" and "state_ok s"
  shows "place_ok (role p') s' \<and> state_ok s' \<and> (in_section (role p') \<longleftrightarrow> m_mutex s' = Some i)"
  using assms
  by (cases "(i, p, s)" rule: thread_step.cases;
      (clarsimp simp: access_simps set_ready_settled split: if_splits outcome.splits)?;
      (simp add: settled_iff set_ready_completion)?)

lemma place_ok_updates [simp]:
  "place_ok q (s\<lparr>m_continuations := cs\<rparr>) = place_ok q s"
  "place_ok q (s\<lparr>m_mutex := m\<rparr>) = place_ok q s"
  "place_ok q (s\<lparr>m_cv_waiters := cs\<rparr>) = place_ok q s"
  "place_ok q (s\<lparr>m_deferred_task := b\<rparr>) = place_ok q s"
  "place_ok q (s\<lparr>posted_publications := n\<rparr>) = place_ok q s"
  "place_ok q (s\<lparr>m_state_flags := set_policy p (m_state_flags s)\<rparr>) = place_ok q s"
  "place_ok q (s\<lparr>m_state_flags := set_flag s_bound_flag (m_state_flags s)\<rparr>) = place_ok q s"
  "place_ok q (s\<lparr>m_state_flags := set_flag s_deferred_task_started_flag (m_state_flags s)\<rparr>) = place_ok q s"
  by (cases q; simp)+

text \<open>The places of the other threads.\<close>

lemma access_spares:
  assumes "thread_step i p s = Some (p', s', es)" and "i \<noteq> j"
    and "in_section (role p) \<longleftrightarrow> m_mutex s = Some i" and "place_ok (role p) s"
    and "in_section q \<longleftrightarrow> m_mutex s = Some j" and "place_ok q s" and "compatible (role p) q"
  shows "place_ok q s' \<and> compatible (role p') q \<and> (in_section q \<longleftrightarrow> m_mutex s' = Some j)"
  using assms
  by (cases "(i, p, s)" rule: thread_step.cases;
      (clarsimp simp: acquire_def release_def is_ready_def compatible_def split: if_splits outcome.splits)?;
      (cases q; simp)?)

text \<open>An operation that is one store.\<close>

lemma begin_keeps:
  shows "get_completion_state (at_once q s) = get_completion_state s" "place_ok r (at_once q s) = place_ok r s"
    "state_ok (at_once q s) = state_ok s" "m_mutex (at_once q s) = m_mutex s" "role (start q) = Free"
  by (cases q; simp add: state_ok_def)+

section \<open>The invariant of a configuration\<close>

definition places_ok :: "('v, 'e) future_state \<Rightarrow> ('v, 'e) thread list \<Rightarrow> bool" where
  "places_ok s ts \<longleftrightarrow>
     (\<forall>i < length ts. place_ok (role (fst (ts ! i))) s \<and>
        (in_section (role (fst (ts ! i))) \<longleftrightarrow> m_mutex s = Some i)) \<and>
     (\<forall>i < length ts. \<forall>j < length ts. i \<noteq> j \<longrightarrow> compatible (role (fst (ts ! i))) (role (fst (ts ! j)))) \<and>
     state_ok s"

lemma compatible_sym: "compatible p q = compatible q p"
  by (auto simp: compatible_def)

lemma compatible_free [simp]: "compatible Free q" "compatible q Free"
  by (cases q; simp add: compatible_def)+

lemma completion_initial: "get_completion_state (new_state b) = pending"
  by (simp add: get_completion_state_def new_state_def initial_flags_def decode_completion_state_bits_def
      s_completion_state_mask_def encode_policy_bits_def)

lemma places_ok_initial: "places_ok (new_state b) (map (Pair Idle) programs)"
  by (simp add: places_ok_def state_ok_def settled_def completion_initial)
    (simp add: new_state_def)

lemma places_ok_step:
  assumes "future_step (s, ts, h) (s', ts', h')" and ok: "places_ok s ts"
  shows "places_ok s' ts'"
  using assms(1)
proof cases
  case (begin_operation i q qs)
  with ok show ?thesis
    by (auto simp: places_ok_def begin_keeps nth_list_update)
next
  case (access i p qs p' es)
  note a = access(3-) and i = access(3)
  have p: "place_ok (role p) s" "in_section (role p) \<longleftrightarrow> m_mutex s = Some i" "state_ok s"
    using ok access by (auto simp: places_ok_def)
  note keep = access_keeps [OF access(5) p(2,1,3)]
  have spare: "place_ok (role (fst (ts ! j))) s' \<and> compatible (role p') (role (fst (ts ! j))) \<and>
      (in_section (role (fst (ts ! j))) \<longleftrightarrow> m_mutex s' = Some j)" if "j < length ts" "j \<noteq> i" for j
    by (rule access_spares [OF access(5) _ p(2,1)]) (use ok access that in \<open>auto simp: places_ok_def\<close>)
  show ?thesis
    unfolding places_ok_def access(1,2)
    using ok keep spare access(3) compatible_sym by (auto simp: places_ok_def nth_list_update)
qed

lemma future_step_length: "future_step (s, ts, h) (s', ts', h') \<Longrightarrow> length ts' = length ts"
  by (auto elim: future_stepE)

lemma reachable_induct [consumes 1, case_names initial step]:
  assumes "reachable_from b programs (s, ts, h)"
    and "P (new_state b) (map (Pair Idle) programs) []"
    and "\<And>s ts h s' ts' h'. reachable_from b programs (s, ts, h) \<Longrightarrow> P s ts h \<Longrightarrow>
      future_step (s, ts, h) (s', ts', h') \<Longrightarrow> P s' ts' h'"
  shows "P s ts h"
proof -
  have "future_step\<^sup>*\<^sup>* (initial b programs) c \<Longrightarrow> case c of (s, ts, h) \<Rightarrow> P s ts h" for c
  proof (induction rule: rtranclp_induct)
    case (step c c')
    then show ?case
      using assms(3) by (cases c; cases c') (auto simp: reachable_from_def)
  qed (use assms(2) in \<open>simp add: initial_def\<close>)
  with assms(1) show ?thesis by (auto simp: reachable_from_def)
qed

lemma reachable_places: "reachable_from b programs (s, ts, h) \<Longrightarrow> places_ok s ts"
  by (induction rule: reachable_induct) (auto simp: places_ok_initial dest: places_ok_step)
end
