(* ===== verification/FutureSafety.thy ===== *)
theory FutureSafety
  imports FutureState
begin

text \<open>
  What every interleaving of the threads of \<^verbatim>\<open>FutureState\<close> keeps: one completion, one accepted outcome,
  continuations and cancel callbacks that run once, waiters that wake, a deferred task that starts once.
  Each quantity of the history is conserved by every access, and the places that will still publish
  account for what is waiting.
\<close>

section \<open>Schedules\<close>

text \<open>The step of one thread, for runs under a given schedule.\<close>

fun next_configuration :: "nat \<Rightarrow> ('v, 'e) configuration \<Rightarrow> ('v, 'e) configuration option" where
  "next_configuration i (s, ts, h) =
     (if i < length ts
      then let (p, qs) = ts ! i
           in if p = Idle
              then case qs of
                     [] \<Rightarrow> None
                   | q # qs \<Rightarrow> Some (at_once q s, ts[i := (start q, qs)], h)
              else map_option (\<lambda>(p', s', es). (s', ts[i := (p', qs)], h @ es)) (thread_step i p s)
      else None)"

definition stuck :: "('v, 'e) configuration \<Rightarrow> bool" where
  "stuck c = list_all (\<lambda>i. next_configuration i c = None) [0..<length (fst (snd c))]"

fun run_schedule :: "nat list \<Rightarrow> ('v, 'e) configuration \<Rightarrow> ('v, 'e) configuration option" where
  "run_schedule [] c = Some c"
| "run_schedule (i # ns) c = Option.bind (next_configuration i c) (run_schedule ns)"

lemma next_configuration_step:
  assumes "next_configuration i c = Some c'"
  shows "future_step c c'"
proof -
  obtain s ts h where c: "c = (s, ts, h)" by (cases c)
  obtain p qs where t: "ts ! i = (p, qs)" by (cases "ts ! i")
  have i: "i < length ts" using assms c by (auto split: if_splits)
  show ?thesis
    using assms i t
    by (auto simp: c split: list.splits if_splits intro: begin_operation access)
qed

lemma run_schedule_steps: "run_schedule ns a = Some c \<Longrightarrow> future_step\<^sup>*\<^sup>* a c"
proof (induction ns arbitrary: a)
  case (Cons i ns)
  then obtain a' where "next_configuration i a = Some a'" "run_schedule ns a' = Some c"
    by (auto simp: bind_eq_Some_conv)
  with Cons.IH next_configuration_step show ?case by (metis converse_rtranclp_into_rtranclp)
qed simp

lemma run_schedule_reaches:
  "run_schedule ns (initial b programs) = Some c \<Longrightarrow> reachable_from b programs c"
  by (simp add: reachable_from_def run_schedule_steps)

section \<open>One completion\<close>

lemma access_stable:
  assumes "thread_step i p s = Some (p', s', es)" and "place_ok (role p) s"
    and "get_completion_state s \<noteq> pending"
  shows "get_completion_state s' = get_completion_state s"
  using assms
  by (cases "(i, p, s)" rule: thread_step.cases;
      (clarsimp simp: acquire_def release_def is_ready_def set_ready_settled
        split: if_splits outcome.splits)?)

lemma access_stable_outcome:
  assumes "thread_step i p s = Some (p', s', es)" and "place_ok (role p) s"
    and "get_completion_state s \<noteq> pending" and "settled s"
  shows "m_slot s' = m_slot s \<and> m_exception s' = m_exception s"
  using assms
  by (cases "(i, p, s)" rule: thread_step.cases;
      (clarsimp simp: acquire_def release_def is_ready_def settled_iff split: if_splits outcome.splits)?)

lemma step_stable:
  assumes "future_step (s, ts, h) (s', ts', h')" and ok: "places_ok s ts"
    and c: "get_completion_state s \<noteq> pending"
  shows "get_completion_state s' = get_completion_state s"
    and "settled s \<Longrightarrow> m_slot s' = m_slot s \<and> m_exception s' = m_exception s \<and> settled s'"
proof -
  show 1: "get_completion_state s' = get_completion_state s"
    using assms(1)
  proof cases
    case (begin_operation i q qs)
    then show ?thesis by (simp add: begin_keeps)
  next
    case (access i p qs p' es)
    with ok have "place_ok (role p) s" by (auto simp: places_ok_def)
    with access_stable [OF access(5) _ c] show ?thesis by simp
  qed
  show "m_slot s' = m_slot s \<and> m_exception s' = m_exception s \<and> settled s'" if s: "settled s"
  proof -
    have "m_slot s' = m_slot s \<and> m_exception s' = m_exception s"
      using assms(1)
    proof cases
      case (begin_operation i q qs)
      then show ?thesis by (cases q) simp_all
    next
      case (access i p qs p' es)
      with ok have "place_ok (role p) s" by (auto simp: places_ok_def)
      with access_stable_outcome [OF access(5) _ c s] show ?thesis by simp
    qed
    with 1 s settled_cong [of s' s] show ?thesis by simp
  qed
qed

text \<open>
  A state completes once: from a reachable configuration whose state is completed and not inside a
  section of the mutex, whatever the threads go on to do, the completion, the value and the exception
  stay what they are, and they fit each other: resolved with a value, rejected with an exception that
  was thrown, or cancelled.
\<close>

theorem future_completes_once:
  assumes "reachable_from b programs (s, ts, h)" and "get_completion_state s \<noteq> pending"
    and "m_mutex s = None" and "future_step\<^sup>*\<^sup>* (s, ts, h) (s', ts', h')"
  shows "get_completion_state s' = get_completion_state s \<and> m_slot s' = m_slot s \<and>
    m_exception s' = m_exception s \<and> settled s'"
proof -
  have "case c of (s', ts', h') \<Rightarrow> places_ok s' ts' \<and> get_completion_state s' = get_completion_state s \<and>
      m_slot s' = m_slot s \<and> m_exception s' = m_exception s \<and> settled s'"
    if "future_step\<^sup>*\<^sup>* (s, ts, h) c" for c
    using that
  proof (induction rule: rtranclp_induct)
    case base
    with reachable_places [OF assms(1)] assms(3) show ?case by (simp add: places_ok_def state_ok_def)
  next
    case (step c c')
    obtain s1 ts1 h1 s2 ts2 h2 where c: "c = (s1, ts1, h1)" "c' = (s2, ts2, h2)" by (cases c; cases c')
    with step.IH assms(2) have "places_ok s1 ts1" "get_completion_state s1 \<noteq> pending" "settled s1" by auto
    with step.hyps(2) step_stable [of s1 ts1 h1 s2 ts2 h2] places_ok_step [of s1 ts1 h1 s2 ts2 h2] step.IH
    show ?case by (auto simp: c)
  qed
  from this [OF assms(4)] show ?thesis by simp
qed

section \<open>The accepted outcome\<close>

definition accepted :: "('v, 'e) event list \<Rightarrow> ('v, 'e) outcome list" where
  "accepted h = concat (map (\<lambda>x. case x of Accepted y \<Rightarrow> [y] | _ \<Rightarrow> []) h)"

definition outcome_of :: "('v, 'e) future_state \<Rightarrow> ('v, 'e) outcome list" where
  "outcome_of s =
     (case m_slot s of
        Some v \<Rightarrow> [Value v]
      | None \<Rightarrow> (case m_exception s of Some (Thrown e) \<Rightarrow> [Failure e] | _ \<Rightarrow> []))"

text \<open>What readers saw: a value or an exception that was accepted, or the cancellation.\<close>

fun saw :: "('v, 'e) outcome list \<Rightarrow> ('v, 'e) event \<Rightarrow> bool" where
  "saw xs (Returned x) \<longleftrightarrow> (\<exists>v. x = Some v \<and> xs = [Value v])"
| "saw xs (Rethrown x) \<longleftrightarrow> x = Some Canceled \<and> xs = [] \<or> (\<exists>e. x = Some (Thrown e) \<and> xs = [Failure e])"
| "saw xs _ \<longleftrightarrow> True"

lemma accepted_append [simp]: "accepted (h @ es) = accepted h @ accepted es"
  by (simp add: accepted_def)

lemma access_accepts:
  assumes "thread_step i p s = Some (p', s', es)" and "place_ok (role p) s"
  shows "outcome_of s' = outcome_of s @ accepted es \<and>
    (outcome_of s \<noteq> [] \<longrightarrow> accepted es = []) \<and>
    (\<forall>x \<in> set es. saw (outcome_of s') x)"
  using assms
  by (cases "(i, p, s)" rule: thread_step.cases;
      (clarsimp simp: acquire_def release_def is_ready_def outcome_of_def accepted_def settled_iff
        split: if_splits outcome.splits completion_state.splits option.splits failure.splits)?)

lemma outcome_at_once [simp]: "outcome_of (at_once q s) = outcome_of s"
  by (cases q; cases "m_slot s"; simp add: outcome_of_def)

lemma access_of:
  assumes "places_ok s ts" "i < length ts" "ts ! i = (p, qs)"
  shows "place_ok (role p) s" "in_section (role p) \<longleftrightarrow> m_mutex s = Some i" "state_ok s"
  using assms by (auto simp: places_ok_def)

fun is_read :: "('v, 'e) event \<Rightarrow> bool" where
  "is_read (Returned x) = True"
| "is_read (Rethrown x) = True"
| "is_read _ = False"

lemma saw_other: "\<not> is_read x \<Longrightarrow> saw xs x"
  by (cases x) simp_all

lemma access_reads:
  assumes "thread_step i p s = Some (p', s', es)" and "place_ok (role p) s" and "x \<in> set es" "is_read x"
  shows "settled s' \<and> get_completion_state s' \<noteq> pending"
  using assms
  by (cases "(i, p, s)" rule: thread_step.cases;
      (clarsimp simp: acquire_def release_def split: if_splits completion_state.splits)?; auto?)

definition readers_ok :: "('v, 'e) future_state \<Rightarrow> ('v, 'e) event list \<Rightarrow> bool" where
  "readers_ok s h \<longleftrightarrow>
     accepted h = outcome_of s \<and> (\<forall>x \<in> set h. saw (accepted h) x) \<and>
     ((\<exists>x \<in> set h. is_read x) \<longrightarrow> settled s \<and> get_completion_state s \<noteq> pending)"

lemma outcome_cong: "m_slot s = m_slot t \<Longrightarrow> m_exception s = m_exception t \<Longrightarrow> outcome_of s = outcome_of t"
  by (cases "m_slot t") (simp_all add: outcome_of_def)

lemma settled_at_once [simp]: "settled (at_once q s) = settled s"
  by (cases q) simp_all

lemma readers_ok_step:
  assumes step: "future_step (s, ts, h) (s', ts', h')" and ok: "places_ok s ts" and r: "readers_ok s h"
  shows "readers_ok s' h'"
  using step
proof cases
  case (begin_operation i q qs)
  then show ?thesis using r by (auto simp: readers_ok_def begin_keeps)
next
  case (access i p qs p' es)
  note p = access_of [OF ok access(3,4)]
  note acc = access_accepts [OF access(5) p(1)]
  have a: "accepted (h @ es) = outcome_of s'" using acc r by (simp add: readers_ok_def)
  have old: "saw (accepted (h @ es)) x" if x: "x \<in> set h" for x
  proof (cases "is_read x")
    case True
    then have s: "settled s" "get_completion_state s \<noteq> pending" using r x by (auto simp: readers_ok_def)
    with access_stable_outcome [OF access(5) p(1) s(2,1)] have "outcome_of s' = outcome_of s"
      by (intro outcome_cong) simp_all
    with acc r x show ?thesis by (auto simp: readers_ok_def)
  qed (simp add: saw_other)
  have "settled s' \<and> get_completion_state s' \<noteq> pending" if x: "x \<in> set (h @ es)" "is_read x" for x
  proof (cases "x \<in> set h")
    case True
    with r x have "settled s" "get_completion_state s \<noteq> pending" by (auto simp: readers_ok_def)
    with step_stable [OF step ok] show ?thesis by simp
  next
    case False
    with x have "x \<in> set es" by simp
    with access_reads [OF access(5) p(1)] x show ?thesis by blast
  qed
  with a old acc access(2) show ?thesis by (auto simp: readers_ok_def)
qed

lemma readers_ok_initial: "readers_ok (new_state b) []"
  by (simp add: readers_ok_def accepted_def outcome_of_def new_state_def)

text \<open>
  C9. At most one outcome is accepted, and every reader sees it: in every history no more than one value or
  exception is accepted, each \<open>get_value\<close> that returns gives the accepted value, and each one that throws
  gives the accepted exception or, when nothing was accepted, that of the cancellation.
\<close>

theorem readers_see_accepted:
  assumes "reachable_from b programs (s, ts, h)"
  shows "length (accepted h) \<le> 1 \<and> list_all (saw (accepted h)) h"
proof -
  have "places_ok s ts \<and> readers_ok s h"
    using assms
  proof (induction rule: reachable_induct)
    case (step s ts h s' ts' h')
    with places_ok_step readers_ok_step show ?case by blast
  qed (simp add: places_ok_initial readers_ok_initial)
  then show ?thesis
    by (auto simp: readers_ok_def list_all_iff outcome_of_def split: option.splits failure.splits)
qed

section \<open>Every continuation runs once\<close>

definition continuations_registered :: "('v, 'e) event list \<Rightarrow> nat multiset" where
  "continuations_registered h = mset (concat (map (\<lambda>x. case x of Registered c \<Rightarrow> [c] | _ \<Rightarrow> []) h))"

definition ran :: "('v, 'e) event list \<Rightarrow> nat multiset" where
  "ran h = mset (concat (map (\<lambda>x. case x of Ran c \<Rightarrow> [c] | _ \<Rightarrow> []) h))"

definition callbacks_registered :: "('v, 'e) event list \<Rightarrow> nat multiset" where
  "callbacks_registered h = mset (concat (map (\<lambda>x. case x of Callback_Registered c \<Rightarrow> [c] | _ \<Rightarrow> []) h))"

definition callbacks_ran :: "('v, 'e) event list \<Rightarrow> nat multiset" where
  "callbacks_ran h = mset (concat (map (\<lambda>x. case x of Callback_Ran c \<Rightarrow> [c] | _ \<Rightarrow> []) h))"

definition tasks_started :: "('v, 'e) event list \<Rightarrow> nat" where
  "tasks_started h = length (concat (map (\<lambda>x. case x of Task_Started \<Rightarrow> [()] | _ \<Rightarrow> []) h))"

lemmas history_defs = continuations_registered_def ran_def callbacks_registered_def callbacks_ran_def tasks_started_def

lemma history_append [simp]:
  "continuations_registered (h @ es) = continuations_registered h + continuations_registered es" "ran (h @ es) = ran h + ran es"
  "callbacks_registered (h @ es) = callbacks_registered h + callbacks_registered es"
  "callbacks_ran (h @ es) = callbacks_ran h + callbacks_ran es"
  "tasks_started (h @ es) = tasks_started h + tasks_started es"
  by (simp_all add: history_defs)

text \<open>What a thread carries: continuations or callbacks it took and has not run.\<close>

fun carried :: "('v, 'e) pc \<Rightarrow> nat multiset" where
  "carried (Mark_Notify cs) = mset cs"
| "carried (Run_Continuations cs) = mset cs"
| "carried _ = {#}"

fun callbacks_carried :: "('v, 'e) pc \<Rightarrow> nat multiset" where
  "callbacks_carried (Cancel_Run cs) = mset cs"
| "callbacks_carried _ = {#}"

fun starting :: "('v, 'e) pc \<Rightarrow> nat" where
  "starting (Start_Run k) = 1"
| "starting _ = 0"

lemma carried_after [simp]: "carried (after k) = {#}" "callbacks_carried (after k) = {#}" "starting (after k) = 0"
  by (cases k; simp)+

lemma carried_start [simp]: "carried (start q) = {#}" "callbacks_carried (start q) = {#}" "starting (start q) = 0"
  by (cases q; simp)+

lemma sum_list_thread:
  fixes f :: "'a \<Rightarrow> 'b :: comm_monoid_add"
  shows "i < length xs \<Longrightarrow> sum_list (map f (xs[i := x])) + f (xs ! i) = sum_list (map f xs) + f x"
  by (induction xs arbitrary: i) (auto split: nat.split simp: ac_simps)

definition total :: "(('v, 'e) pc \<Rightarrow> 'b :: comm_monoid_add) \<Rightarrow> ('v, 'e) thread list \<Rightarrow> 'b" where
  "total f ts = sum_list (map (f \<circ> fst) ts)"

lemma total_update:
  assumes "i < length ts" "ts ! i = (p, qs)"
  shows "total f (ts[i := (p', qs')]) + f p = total f ts + f p'"
  using sum_list_thread [of i ts "f \<circ> fst" "(p', qs')"] assms by (simp add: total_def)

lemma total_zero: "\<forall>t \<in> set ts. f (fst t) = 0 \<Longrightarrow> total f ts = 0"
  by (induction ts) (auto simp: total_def)

text \<open>The access of a thread moves continuations, and loses none.\<close>

lemma access_conserves:
  assumes "thread_step i p s = Some (p', s', es)"
  shows "mset (m_continuations s') + carried p' + ran es =
    mset (m_continuations s) + carried p + continuations_registered es"
  using assms
  by (cases "(i, p, s)" rule: thread_step.cases;
      (clarsimp simp: acquire_def release_def history_defs
        split: if_splits outcome.splits completion_state.splits)?)

lemma access_runs:
  assumes "thread_step i p s = Some (p', s', es)" "place_ok (role p) s" "get_completion_state s = pending"
  shows "ran es = {#}"
  using assms
  by (cases "(i, p, s)" rule: thread_step.cases;
      (clarsimp simp: acquire_def release_def history_defs
        split: if_splits outcome.splits completion_state.splits)?; auto?)

lemma conserve:
  fixes c :: "'a multiset"
  assumes "c' + k' + r = c + k + g" "t' + k = t + k'" "c + t + R = G"
  shows "c' + t' + (R + r) = G + g"
proof (rule multiset_eqI)
  fix x
  from assms have "count (c' + k' + r) x = count (c + k + g) x" "count (t' + k) x = count (t + k') x"
    "count (c + t + R) x = count G x" by simp_all
  then show "count (c' + t' + (R + r)) x = count (G + g) x" by simp
qed

lemma conserved:
  assumes "reachable_from b programs (s, ts, h)"
  shows "mset (m_continuations s) + total carried ts + ran h = continuations_registered h"
  using assms
proof (induction rule: reachable_induct)
  case initial
  show ?case by (simp add: new_state_def total_def history_defs comp_def)
next
  case (step s ts h s' ts' h')
  from step.hyps(2) show ?case
  proof cases
    case (begin_operation i q qs)
    have "m_continuations (at_once q s) = m_continuations s" by (cases q) simp_all
    with begin_operation step.IH total_update [OF begin_operation(4,5), of carried "start q" qs]
    show ?thesis by simp
  next
    case (access i p qs p' es)
    from conserve [OF access_conserves [OF access(5)] total_update [OF access(3,4)] step.IH]
    show ?thesis by (simp add: access(1,2))
  qed
qed

section \<open>Publication\<close>

text \<open>A thread, or a task posted to the executor, that will still take the continuations, and wake the
  waiters.\<close>

fun publishing :: "('v, 'e) pc \<Rightarrow> bool" where
  "publishing (Value_Store v) = True"
| "publishing Mark_Policy = True"
| "publishing Mark_Lock = True"
| "publishing Mark_Ready = True"
| "publishing Mark_Swap = True"
| "publishing _ = False"

fun notifying :: "('v, 'e) pc \<Rightarrow> bool" where
  "notifying (Mark_Notify cs) = True"
| "notifying p = publishing p"

definition will :: "(('v, 'e) pc \<Rightarrow> bool) \<Rightarrow> ('v, 'e) future_state \<Rightarrow> ('v, 'e) thread list \<Rightarrow> bool" where
  "will f s ts \<longleftrightarrow> posted_publications s > 0 \<or> (\<exists>i < length ts. f (fst (ts ! i)))"

definition published :: "('v, 'e) future_state \<Rightarrow> ('v, 'e) thread list \<Rightarrow> bool" where
  "published s ts \<longleftrightarrow>
     (get_completion_state s \<noteq> pending \<longrightarrow>
        (m_continuations s \<noteq> [] \<longrightarrow> will publishing s ts) \<and>
        (m_cv_waiters s \<noteq> [] \<longrightarrow> will notifying s ts)) \<and>
     (\<forall>i. m_mutex s = Some i \<longrightarrow> i < length ts)"

lemma notifying_after [simp]: "publishing (after k) = False" "notifying (after k) = False"
  by (cases k; simp)+

lemma notifying_start [simp]: "publishing (start q) = False" "notifying (start q) = False"
  by (cases q; simp)+

lemma access_publishes:
  assumes "thread_step i p s = Some (p', s', es)" and "place_ok (role p) s"
    and "get_completion_state s' \<noteq> pending" and "m_continuations s' \<noteq> []"
  shows "posted_publications s' > 0 \<or> publishing p' \<or>
      get_completion_state s \<noteq> pending \<and> m_continuations s \<noteq> [] \<and> \<not> publishing p \<and>
        posted_publications s = posted_publications s'"
  using assms
  by (cases "(i, p, s)" rule: thread_step.cases;
      (clarsimp simp: acquire_def release_def is_ready_def split: if_splits outcome.splits)?)

lemma access_notifies:
  assumes "thread_step i p s = Some (p', s', es)" and "place_ok (role p) s"
    and "get_completion_state s' \<noteq> pending" and "m_cv_waiters s' \<noteq> []"
  shows "posted_publications s' > 0 \<or> notifying p' \<or>
      get_completion_state s \<noteq> pending \<and> m_cv_waiters s \<noteq> [] \<and> \<not> notifying p \<and>
        posted_publications s = posted_publications s'"
  using assms
  by (cases "(i, p, s)" rule: thread_step.cases;
      (clarsimp simp: acquire_def release_def is_ready_def split: if_splits outcome.splits)?)

lemma access_mutex:
  "thread_step i p s = Some (p', s', es) \<Longrightarrow> m_mutex s' \<in> {m_mutex s, None, Some i}"
  by (cases "(i, p, s)" rule: thread_step.cases;
      (clarsimp simp: acquire_def release_def split: if_splits outcome.splits)?)

lemma will_stays:
  assumes "will f s ts" "i < length ts" "ts ! i = (p, qs)" "\<not> f p"
    "posted_publications s = posted_publications s'"
  shows "will f s' (ts[i := (p', qs')])"
proof (cases "posted_publications s > 0")
  case False
  with assms(1) obtain j where "j < length ts" "f (fst (ts ! j))" by (auto simp: will_def)
  with assms(3,4) have "j \<noteq> i" "j < length (ts[i := (p', qs')])" by auto
  with \<open>f (fst (ts ! j))\<close> show ?thesis by (auto simp: will_def intro!: exI [of _ j])
qed (use assms(5) in \<open>simp add: will_def\<close>)

lemma will_posted: "posted_publications s > 0 \<Longrightarrow> will f s ts"
  by (simp add: will_def)

lemma will_now: "i < length ts \<Longrightarrow> f p \<Longrightarrow> will f s (ts[i := (p, qs)])"
  by (auto simp: will_def intro!: exI [of _ i])

lemma published_step:
  assumes step: "future_step (s, ts, h) (s', ts', h')" and ok: "places_ok s ts" and p: "published s ts"
  shows "published s' ts'"
  using step
proof cases
  case (begin_operation i q qs)
  have "m_continuations s' = m_continuations s" "m_cv_waiters s' = m_cv_waiters s"
    "posted_publications s = posted_publications s'" "m_mutex s' = m_mutex s"
    unfolding begin_operation(1) by (cases q; simp)+
  with p will_stays [of _ s ts i Idle "q # qs" s' "start q" qs] begin_operation(4,5) show ?thesis
    unfolding published_def begin_operation(2) by (simp add: begin_operation(1) begin_keeps)
next
  case (access i p' qs p'' es)
  note a = access(5) access_of(1) [OF ok access(3,4)]
  have c: "will publishing s' ts'" if "get_completion_state s' \<noteq> pending" "m_continuations s' \<noteq> []"
    using access_publishes [OF a that] p will_stays [OF _ access(3,4)] will_now [OF access(3)] will_posted
    unfolding access(1) published_def by metis
  have w: "will notifying s' ts'" if "get_completion_state s' \<noteq> pending" "m_cv_waiters s' \<noteq> []"
    using access_notifies [OF a that] p will_stays [OF _ access(3,4)] will_now [OF access(3)] will_posted
    unfolding access(1) published_def by metis
  have "\<forall>j. m_mutex s' = Some j \<longrightarrow> j < length ts'"
    using access_mutex [OF access(5)] p access(1,3) by (auto simp: published_def)
  with c w show ?thesis by (auto simp: published_def)
qed

lemma reachable_published: "reachable_from b programs (s, ts, h) \<Longrightarrow> places_ok s ts \<and> published s ts"
proof (induction rule: reachable_induct)
  case initial
  show ?case by (simp add: places_ok_initial published_def completion_initial) (simp add: new_state_def)
next
  case (step s ts h s' ts' h')
  with places_ok_step published_step show ?case by blast
qed

section \<open>Nothing is left behind\<close>

lemma blocked_places:
  assumes "thread_step i p s = None" "m_mutex s = None"
  shows "p = Idle \<or> p = Wait_Asleep \<and> i \<in> set (m_cv_waiters s) \<or> p = Publish \<and> posted_publications s = 0"
  using assms
  by (cases "(i, p, s)" rule: thread_step.cases)
    (auto simp: acquire_def split: if_splits)

lemma section_moves: "in_section (role p) \<Longrightarrow> thread_step i p s \<noteq> None"
  by (cases "(i, p, s)" rule: thread_step.cases) (auto split: outcome.splits)

lemma stuck_thread:
  assumes "stuck (s, ts, h)" "i < length ts" "ts ! i = (p, qs)"
  shows "p = Idle \<and> qs = [] \<or> p \<noteq> Idle \<and> thread_step i p s = None"
proof -
  have "next_configuration i (s, ts, h) = None" 
    using assms(1,2) by (auto simp: stuck_def list_all_iff simp del: next_configuration.simps)
  with assms(2,3) show ?thesis by (cases "p = Idle"; cases qs; simp)
qed

lemma stuck_unlocked:
  assumes r: "reachable_from b programs (s, ts, h)" and st: "stuck (s, ts, h)"
  shows "m_mutex s = None"
proof (rule ccontr)
  note ok = conjunct1 [OF reachable_published [OF r]] and pb = conjunct2 [OF reachable_published [OF r]]
  assume "m_mutex s \<noteq> None"
  then obtain i where i: "m_mutex s = Some i" "i < length ts" using pb by (auto simp: published_def)
  obtain p qs where t: "ts ! i = (p, qs)" by (cases "ts ! i")
  from access_of(2) [OF ok i(2) t] i have "in_section (role p)" by simp
  with section_moves [of p i s] stuck_thread [OF st i(2) t] show False by auto
qed

lemma stuck_done:
  assumes "reachable_from b programs (s, ts, h)" and "get_completion_state s \<noteq> pending"
    and "posted_publications s = 0" and "stuck (s, ts, h)"
  shows "list_all (\<lambda>t. t = (Idle, []) \<or> fst t = Publish) ts" "m_mutex s = None" "m_continuations s = []"
proof -
  note ok = conjunct1 [OF reachable_published [OF assms(1)]] and pb = conjunct2 [OF reachable_published [OF assms(1)]]
  show m: "m_mutex s = None" by (rule stuck_unlocked [OF assms(1,4)])
  have pl: "ts ! i = (Idle, []) \<or> fst (ts ! i) = Wait_Asleep \<and> i \<in> set (m_cv_waiters s) \<or>
      fst (ts ! i) = Publish" if i: "i < length ts" for i
    using stuck_thread [OF assms(4) i, of "fst (ts ! i)" "snd (ts ! i)"] blocked_places [OF _ m]
    by (metis prod.collapse)
  have none: "\<not> notifying (fst (ts ! i))" "\<not> publishing (fst (ts ! i))" if "i < length ts" for i
    using pl [OF that] by auto
  then have w: "\<not> will notifying s ts" "\<not> will publishing s ts" using assms(3) by (auto simp: will_def)
  with pb assms(2) have "m_cv_waiters s = []" by (auto simp: published_def)
  with pl show "list_all (\<lambda>t. t = (Idle, []) \<or> fst t = Publish) ts"
    by (fastforce simp: list_all_iff in_set_conv_nth)
  show "m_continuations s = []" using w pb assms(2) by (auto simp: published_def)
qed

lemma done_total:
  assumes "list_all (\<lambda>t. t = (Idle, []) \<or> fst t = Publish) ts" "f Idle = 0" "f Publish = 0"
  shows "total f ts = 0"
  by (rule total_zero) (use assms in \<open>auto simp: list_all_iff\<close>)

text \<open>
  C8. Nothing is left behind: when the state is completed, no publication waits in the executor and no
  thread can move, every thread has performed all its operations (or is the executor, waiting for
  work): no waiter sleeps on, no mutex is held, and the continuations that ran are exactly those that
  were registered, each as often as it was.
\<close>

theorem completion_leaves_nothing:
  assumes "reachable_from b programs (s, ts, h)" and "get_completion_state s \<noteq> pending"
    and "posted_publications s = 0" and "stuck (s, ts, h)"
  shows "list_all (\<lambda>t. t = (Idle, []) \<or> fst t = Publish) ts \<and> m_mutex s = None \<and> ran h = continuations_registered h"
  using stuck_done [OF assms] conserved [OF assms(1)] done_total [of ts carried] by simp

text \<open>
  C12. No continuation runs twice or before its time: in every history those that ran are among those that
  were registered, and none has run while the state is pending.
\<close>

theorem continuations_run_at_most_once:
  assumes "reachable_from b programs (s, ts, h)"
  shows "ran h \<subseteq># continuations_registered h \<and> (get_completion_state s = pending \<longrightarrow> ran h = {#})"
proof -
  have "places_ok s ts \<and> (get_completion_state s = pending \<longrightarrow> ran h = {#})"
    using assms
  proof (induction rule: reachable_induct)
    case initial
    show ?case by (simp add: places_ok_initial history_defs)
  next
    case (step s ts h s' ts' h')
    then have ok: "places_ok s ts" "places_ok s' ts'" using places_ok_step by blast+
    from step.hyps(2) show ?case
    proof cases
      case (begin_operation i q qs)
      with step.IH ok show ?thesis by (simp add: begin_keeps)
    next
      case (access i p qs p' es)
      note p = access_of(1) [OF ok(1) access(3,4)]
      have "ran es = {#}" if "get_completion_state s = pending"
        using access_runs [OF access(5) p that] .
      with access_stable [OF access(5) p] step.IH ok access(2) show ?thesis
        by (cases "get_completion_state s = pending") auto
    qed
  qed
  with conserved [OF assms] show ?thesis by (metis mset_subset_eq_add_right)
qed

section \<open>Cancel callbacks\<close>

lemma access_callbacks:
  assumes "thread_step i p s = Some (p', s', es)" and "place_ok (role p) s" and "state_ok s"
  shows "mset (m_cancel_callbacks s') + callbacks_carried p' + callbacks_ran es \<subseteq>#
      mset (m_cancel_callbacks s) + callbacks_carried p + callbacks_registered es \<and>
    (get_completion_state s' \<in> {pending, cancelled} \<longrightarrow>
      mset (m_cancel_callbacks s') + callbacks_carried p' + callbacks_ran es =
      mset (m_cancel_callbacks s) + callbacks_carried p + callbacks_registered es)"
  using assms
  by (cases "(i, p, s)" rule: thread_step.cases;
      (clarsimp simp: acquire_def release_def history_defs state_ok_def
        split: if_splits outcome.splits completion_state.splits)?; auto?)

lemma conserve_le:
  fixes c :: "'a multiset"
  assumes "c' + k' + r \<subseteq># c + k + g" "t' + k = t + k'" "c + t + R \<subseteq># G"
  shows "c' + t' + (R + r) \<subseteq># G + g"
proof (rule mset_subset_eqI)
  fix x
  from assms have "count (c' + k' + r) x \<le> count (c + k + g) x" "count (t' + k) x = count (t + k') x"
    "count (c + t + R) x \<le> count G x"
    by (simp_all add: subseteq_mset_def del: count_union)
  then show "count (c' + t' + (R + r)) x \<le> count (G + g) x" by simp
qed

lemma callbacks_conserved:
  assumes "reachable_from b programs (s, ts, h)"
  shows "mset (m_cancel_callbacks s) + total callbacks_carried ts + callbacks_ran h \<subseteq># callbacks_registered h \<and>
    (get_completion_state s \<in> {pending, cancelled} \<longrightarrow>
       mset (m_cancel_callbacks s) + total callbacks_carried ts + callbacks_ran h = callbacks_registered h)"
  using assms
proof (induction rule: reachable_induct)
  case initial
  show ?case by (simp add: new_state_def total_def history_defs comp_def)
next
  case (step s ts h s' ts' h')
  note ok = reachable_places [OF step.hyps(1)]
  from step.hyps(2) show ?case
  proof cases
    case (begin_operation i q qs)
    have "m_cancel_callbacks (at_once q s) = m_cancel_callbacks s" by (cases q) simp_all
    with begin_operation step.IH total_update [OF begin_operation(4,5), of callbacks_carried "start q" qs]
    show ?thesis by (simp add: begin_keeps)
  next
    case (access i p qs p' es)
    note p = access_of [OF ok access(3,4)]
    note a = access_callbacks [OF access(5) p(1,3)] and u = total_update [OF access(3,4), of callbacks_carried]
    have "mset (m_cancel_callbacks s') + total callbacks_carried ts' + callbacks_ran h' = callbacks_registered h'"
      if c: "get_completion_state s' \<in> {pending, cancelled}"
    proof -
      have "get_completion_state s \<in> {pending, cancelled}"
        using access_stable [OF access(5) p(1)] c
        by (cases "get_completion_state s = pending") auto
      with step.IH have "mset (m_cancel_callbacks s) + total callbacks_carried ts + callbacks_ran h =
        callbacks_registered h" by blast
      from conserve [OF mp [OF conjunct2 [OF a] c] u this] show ?thesis by (simp add: access(1,2))
    qed
    moreover from conserve_le [OF conjunct1 [OF a] u conjunct1 [OF step.IH]]
    have "mset (m_cancel_callbacks s') + total callbacks_carried ts' + callbacks_ran h' \<subseteq># callbacks_registered h'"
      by (simp add: access(1,2))
    ultimately show ?thesis by blast
  qed
qed

text \<open>
  C10. A cancellation runs every cancel callback once: in every history the callbacks that ran are among
  those registered, and when the state is cancelled, no publication waits in the executor and no thread
  can move, all that were registered have run, before the cancellation or after it.
\<close>

theorem cancellation_runs_callbacks:
  assumes "reachable_from b programs (s, ts, h)"
  shows "callbacks_ran h \<subseteq># callbacks_registered h \<and>
    (get_completion_state s = cancelled \<and> posted_publications s = 0 \<and> stuck (s, ts, h) \<longrightarrow>
       callbacks_ran h = callbacks_registered h)"
proof -
  note c = callbacks_conserved [OF assms]
  have "callbacks_ran h = callbacks_registered h"
    if "get_completion_state s = cancelled" "posted_publications s = 0" "stuck (s, ts, h)"
  proof -
    have "total callbacks_carried ts = {#}"
      using stuck_done(1) [OF assms _ that(2,3)] that(1) by (intro done_total) simp_all
    moreover have "m_cancel_callbacks s = []"
      using reachable_places [OF assms] that(1) by (simp add: places_ok_def state_ok_def)
    ultimately show ?thesis using c that(1) by simp
  qed
  with c show ?thesis by (metis mset_subset_eq_add_right subset_mset.order_trans)
qed

section \<open>The deferred task\<close>

definition started :: "('v, 'e) future_state \<Rightarrow> nat" where
  "started s = (if has_flag s_deferred_task_started_flag (m_state_flags s) then 1 else 0)"

lemma started_keeps [simp]:
  "started (put_completion_state c s) = started s" "started (set_ready s) = started s"
  "started (s\<lparr>m_state_flags := set_policy p (m_state_flags s)\<rparr>) = started s"
  "started (s\<lparr>m_state_flags := set_flag s_bound_flag (m_state_flags s)\<rparr>) = started s"
  "started (s\<lparr>m_state_flags := set_flag s_deferred_task_started_flag flags\<rparr>) = 1"
  "started (s\<lparr>m_cancel_requested := b\<rparr>) = started s" "started (s\<lparr>m_exception := x\<rparr>) = started s"
  "started (s\<lparr>m_slot := y\<rparr>) = started s" "started (s\<lparr>m_continuations := cs\<rparr>) = started s"
  "started (s\<lparr>m_cancel_callbacks := cs\<rparr>) = started s" "started (s\<lparr>m_mutex := m\<rparr>) = started s"
  "started (s\<lparr>m_cv_waiters := cs\<rparr>) = started s" "started (s\<lparr>m_deferred_task := b\<rparr>) = started s"
  "started (s\<lparr>posted_publications := n\<rparr>) = started s"
  by (simp_all add: started_def put_completion_state_def set_ready_def)

fun swap_ok :: "('v, 'e) pc \<Rightarrow> bool" where
  "swap_ok (Start_Swap flags k) \<longleftrightarrow> \<not> has_flag s_deferred_task_started_flag flags"
| "swap_ok _ \<longleftrightarrow> True"

lemma swap_ok_other [simp]: "swap_ok (after k)" "swap_ok (start q)"
  by (cases k; simp) (cases q; simp)

lemma access_starts:
  assumes "thread_step i p s = Some (p', s', es)" and "swap_ok p"
  shows "starting p' + tasks_started es + started s = starting p + started s' \<and> swap_ok p'"
  using assms
  by (cases "(i, p, s)" rule: thread_step.cases;
      (clarsimp simp: acquire_def release_def history_defs
        split: if_splits outcome.splits completion_state.splits)?; (simp add: started_def)?; auto?)

text \<open>
  C11. A deferred task starts at most once, however many threads wait for the future or register
  continuations at the same time, and whatever else changes the word of flags meanwhile.
\<close>

theorem deferred_task_starts_once:
  assumes "reachable_from b programs (s, ts, h)"
  shows "tasks_started h \<le> 1"
proof -
  have "total starting ts + tasks_started h = started s \<and> (\<forall>t \<in> set ts. swap_ok (fst t))"
    using assms
  proof (induction rule: reachable_induct)
    case initial
    have "\<not> has_flag s_deferred_task_started_flag initial_flags"
      by (simp add: has_flag_def initial_flags_def flag_masks encode_policy_bits_def)
    then show ?case by (auto simp: new_state_def total_def history_defs comp_def started_def)
  next
    case (step s ts h s' ts' h')
    from step.hyps(2) show ?case
    proof cases
      case (begin_operation i q qs)
      have "started (at_once q s) = started s" by (cases q) simp_all
      with begin_operation step.IH total_update [OF begin_operation(4,5), of starting "start q" qs]
      show ?thesis by (auto dest!: set_update_subset_insert [THEN subsetD])
    next
      case (access i p qs p' es)
      then have "swap_ok p" using step.IH by (metis fst_conv nth_mem)
      from access_starts [OF access(5) this] total_update [OF access(3,4), of starting p' qs] step.IH
      show ?thesis by (auto simp: access(1,2) dest!: set_update_subset_insert [THEN subsetD])
    qed
  qed
  then show ?thesis by (simp add: started_def split: if_splits)
qed

section \<open>Runs\<close>

lemma initial_fields [simp]:
  "decode_completion_state_bits initial_flags = pending" "decode_policy_bits initial_flags = 2"
  "\<not> has_flag s_bound_flag initial_flags" "\<not> has_flag s_deferred_task_started_flag initial_flags"
  by (simp_all add: initial_flags_def encode_policy_bits_def decode_completion_state_bits_def
      decode_policy_bits_def has_flag_def flag_masks)

lemmas run_simps = initial_def new_state_def eval_nat_numeral acquire_def release_def is_ready_def
  get_completion_state_def set_ready_def put_completion_state_def stuck_def history_defs accepted_def

text \<open>
  A setter, a continuation, a waiter and a reader: the continuation is registered and the waiter falls
  asleep before the value arrives.
\<close>

definition sample_programs :: "(nat, nat) future_op list list" where
  "sample_programs = [[Set_Outcome (Value 7) True], [Add_Continuation 3], [Wait], [Get_Value]]"

definition sample_schedule :: "nat list" where
  "sample_schedule = replicate 4 1 @ replicate 4 2 @ replicate 14 0 @ replicate 3 2 @ replicate 3 3"

lemma sample_run:
  "\<exists>s ts h. run_schedule sample_schedule (initial False sample_programs) = Some (s, ts, h) \<and>
     get_completion_state s = resolved \<and> posted_publications s = 0 \<and> m_mutex s = None \<and>
     stuck (s, ts, h) \<and> ran h = {#3#} \<and> accepted h = [Value 7] \<and> Returned (Some 7) \<in> set h"
  by (simp add: sample_schedule_def sample_programs_def run_simps)

text \<open>
  A cancel callback of a future that resolves: it is added while a cancellation that comes too late has
  set the request and has not yet taken it back.
\<close>

lemma callback_runs_without_cancellation:
  "\<exists>s ts h. run_schedule ([0, 0, 0, 0, 0, 1, 1, 1, 2, 2, 2, 2] @ replicate 8 0 @ [1, 1])
       (initial False [[Set_Outcome (Value (7::nat)) True], [Cancel], [Add_Cancel_Callback 5]] ::
         (nat, nat) configuration) = Some (s, ts, h) \<and>
     get_completion_state s = resolved \<and> callbacks_ran h = {#5#}"
  by (simp add: run_simps)

text \<open>A deferred task under two waiters: both read the same word of flags before one of them swaps it.\<close>

lemma set_flag_changes [simp]:
  "\<not> has_flag s_deferred_task_started_flag flags \<Longrightarrow>
     set_flag s_deferred_task_started_flag flags \<noteq> flags"
  by (metis flag_fields(13))

lemma deferred_run:
  "\<exists>s ts h. run_schedule [0, 0, 1, 1, 1, 1, 2, 2, 2, 2, 1, 2, 2, 1]
       (initial True [[Set_Policy deferred, Install_Deferred], [Wait], [Wait]] :: (nat, nat) configuration) =
     Some (s, ts, h) \<and> tasks_started h = 1"
  by (simp add: run_simps)

lemma cancelled_run:
  "\<exists>s ts h. run_schedule (replicate 6 1 @ replicate 17 0)
       (initial False [[Cancel], [Add_Cancel_Callback 5]] :: (nat, nat) configuration) = Some (s, ts, h) \<and>
     get_completion_state s = cancelled \<and> posted_publications s = 0 \<and> stuck (s, ts, h) \<and>
     callbacks_ran h = {#5#}"
  by (simp add: run_simps)

section \<open>Witnesses\<close>

theorem future_completes_once_witness:
  "\<exists>s ts h c. run_schedule (take 16 sample_schedule) (initial False sample_programs) = Some (s, ts, h) \<and>
     run_schedule (drop 16 sample_schedule) (s, ts, h) = Some c \<and>
     get_completion_state (fst c) = resolved \<and> m_slot (fst c) = Some 7"
proof -
  have "\<exists>s ts h. run_schedule (take 16 sample_schedule) (initial False sample_programs) = Some (s, ts, h) \<and>
      get_completion_state s = resolved \<and> m_slot s = Some 7 \<and> m_mutex s = None \<and>
      run_schedule (drop 16 sample_schedule) (s, ts, h) \<noteq> None"
    by (simp add: sample_schedule_def sample_programs_def run_simps)
  then obtain s ts h where 1: "run_schedule (take 16 sample_schedule) (initial False sample_programs) = Some (s, ts, h)"
    "get_completion_state s = resolved" "m_slot s = Some 7" "m_mutex s = None"
    "run_schedule (drop 16 sample_schedule) (s, ts, h) \<noteq> None"
    by blast
  then obtain s' ts' h' where 2: "run_schedule (drop 16 sample_schedule) (s, ts, h) = Some (s', ts', h')"
    by (metis option.exhaust prod_cases3)
  from future_completes_once [OF run_schedule_reaches [OF 1(1)] _ 1(4) run_schedule_steps [OF 2]] 1 2
  show ?thesis by auto
qed

theorem readers_see_accepted_witness:
  "\<exists>s ts h. run_schedule sample_schedule (initial False sample_programs) = Some (s, ts, h) \<and>
     length (accepted h) \<le> 1 \<and> list_all (saw (accepted h)) h \<and> Returned (Some 7) \<in> set h"
  using sample_run readers_see_accepted run_schedule_reaches by blast

theorem completion_leaves_nothing_witness:
  "\<exists>s ts h. run_schedule sample_schedule (initial False sample_programs) = Some (s, ts, h) \<and>
     list_all (\<lambda>t. t = (Idle, []) \<or> fst t = Publish) ts \<and> ran h = continuations_registered h \<and> ran h = {#3#}"
proof -
  obtain s ts h where r: "run_schedule sample_schedule (initial False sample_programs) = Some (s, ts, h)"
    "get_completion_state s = resolved" "posted_publications s = 0" "stuck (s, ts, h)" "ran h = {#3#}"
    using sample_run by blast
  with completion_leaves_nothing [OF run_schedule_reaches [OF r(1)]] show ?thesis by auto
qed

theorem continuations_run_at_most_once_witness:
  "\<exists>s ts h. run_schedule sample_schedule (initial False sample_programs) = Some (s, ts, h) \<and>
     ran h \<subseteq># continuations_registered h \<and> ran h = {#3#}"
  using sample_run continuations_run_at_most_once run_schedule_reaches by blast

theorem cancellation_runs_callbacks_witness:
  "\<exists>s ts h. run_schedule (replicate 6 1 @ replicate 17 0)
       (initial False [[Cancel], [Add_Cancel_Callback 5]] :: (nat, nat) configuration) = Some (s, ts, h) \<and>
     callbacks_ran h = callbacks_registered h \<and> callbacks_ran h = {#5#}"
  using cancelled_run cancellation_runs_callbacks run_schedule_reaches by blast

theorem deferred_task_starts_once_witness:
  "\<exists>s ts h. run_schedule [0, 0, 1, 1, 1, 1, 2, 2, 2, 2, 1, 2, 2, 1]
       (initial True [[Set_Policy deferred, Install_Deferred], [Wait], [Wait]] :: (nat, nat) configuration) =
     Some (s, ts, h) \<and> tasks_started h \<le> 1 \<and> tasks_started h = 1"
  using deferred_run deferred_task_starts_once run_schedule_reaches by blast

end
