(* ===== verification/Tlsf.thy ===== *)
theory Tlsf
  imports Prelude
begin

text \<open>
  The two-level segregated fit allocator of shared memory (\<^verbatim>\<open>libraries/mcbase/src/shm/allocator/tlsf.cpp\<close>,
  with the structures of \<^verbatim>\<open>internal.h\<close>). The managed part of the mapping is a chain of blocks, each
  with a header; \<open>ar_heap\<close> is the header at an offset. A free block is in the list of its size class,
  and two levels of bitmaps tell which lists are not empty. Offsets and sizes are natural numbers;
  where the arithmetic of \<^verbatim>\<open>size_t\<close> can wrap it is written out (\<open>add64\<close>, \<open>sub64\<close>). Reading or writing
  a header outside the managed part, or a size class outside the tables, is \<open>undefined_behaviour\<close>.
  The arena lock is held, so that every operation runs alone; the pointers to the mapping and to its
  arena are not null.
\<close>

section \<open>Words and alignment\<close>

definition add64 :: "nat \<Rightarrow> nat \<Rightarrow> nat" where
  "add64 x y = (x + y) mod 2 ^ 64"

definition sub64 :: "nat \<Rightarrow> nat \<Rightarrow> nat" where
  "sub64 x y = (x + (2 ^ 64 - y)) mod 2 ^ 64"

text \<open>\<^verbatim>\<open>value & ~mask\<close>\<close>

definition and_not :: "nat \<Rightarrow> nat \<Rightarrow> nat" where
  "and_not v m = v - (v AND m)"

definition align_up :: "nat \<Rightarrow> nat \<Rightarrow> nat" where
  "align_up v alignment = and_not (sub64 (add64 v alignment) 1) (alignment - 1)"

definition align_down :: "nat \<Rightarrow> nat \<Rightarrow> nat" where
  "align_down v alignment = and_not v (alignment - 1)"

fun fls64 :: "nat \<Rightarrow> nat" where
  "fls64 x = (if x \<le> 1 then 0 else Suc (fls64 (x div 2)))"

declare fls64.simps [simp del]

definition ffs32 :: "u32 \<Rightarrow> nat" where
  "ffs32 x = (case List.find (bit x) [0..<32] of None \<Rightarrow> 32 | Some i \<Rightarrow> i)"

section \<open>Constants\<close>

definition tlsf_fl_shift :: nat where "tlsf_fl_shift = 5"
definition tlsf_fl_count :: nat where "tlsf_fl_count = 27"
definition tlsf_sl_log2 :: nat where "tlsf_sl_log2 = 4"
definition tlsf_sl_count :: nat where "tlsf_sl_count = 16"
definition tlsf_align :: nat where "tlsf_align = 16"
definition tlsf_min_block_size :: nat where "tlsf_min_block_size = 32"
definition tlsf_block_header_overhead :: nat where "tlsf_block_header_overhead = 16"
definition small_threshold :: nat where "small_threshold = 512"

lemmas tlsf_constants =
  tlsf_fl_shift_def tlsf_fl_count_def tlsf_sl_log2_def tlsf_sl_count_def tlsf_align_def
  tlsf_min_block_size_def tlsf_block_header_overhead_def small_threshold_def

section \<open>The arena\<close>

record tlsf_block_header =
  prev_phys_offset :: nat
  size_and_flags :: nat
  next_free_offset :: nat
  prev_free_offset :: nat

definition tlsf_block_size :: "tlsf_block_header \<Rightarrow> nat" where
  "tlsf_block_size b = and_not (size_and_flags b) 3"

definition tlsf_block_is_free :: "tlsf_block_header \<Rightarrow> bool" where
  "tlsf_block_is_free b \<longleftrightarrow> size_and_flags b AND 1 \<noteq> 0"

definition tlsf_block_prev_is_free :: "tlsf_block_header \<Rightarrow> bool" where
  "tlsf_block_prev_is_free b \<longleftrightarrow> size_and_flags b AND 2 \<noteq> 0"

definition tlsf_set_size :: "nat \<Rightarrow> bool \<Rightarrow> bool \<Rightarrow> tlsf_block_header \<Rightarrow> tlsf_block_header" where
  "tlsf_set_size sz is_free prev_free b =
     b\<lparr>size_and_flags := and_not sz 3 OR (if is_free then 1 else 0) OR (if prev_free then 2 else 0)\<rparr>"

definition tlsf_set_prev_free_flag :: "bool \<Rightarrow> tlsf_block_header \<Rightarrow> tlsf_block_header" where
  "tlsf_set_prev_free_flag prev_free b =
     b\<lparr>size_and_flags := if prev_free then size_and_flags b OR 2 else and_not (size_and_flags b) 2\<rparr>"

datatype journal_op = no_op | tlsf_alloc_op | tlsf_split_op | tlsf_free_op | tlsf_coalesce_op | slab_wholesale_op

record allocator_journal =
  jn_op :: journal_op
  jn_arg0 :: nat
  jn_arg1 :: nat
  jn_arg2 :: nat
  jn_arg3 :: nat
  jn_arg4 :: nat
  jn_misc :: nat

record tlsf_control =
  fl_bitmap :: u32
  sl_bitmap :: "nat \<Rightarrow> u32"
  free_list :: "nat \<Rightarrow> nat \<Rightarrow> nat"

record arena =
  ar_magic :: nat
  ar_user_offset :: nat
  ar_user_size :: nat
  ar_live_bytes :: nat
  ar_peak_bytes :: nat
  ar_journal :: allocator_journal
  ar_tlsf :: tlsf_control
  ar_heap :: "nat \<Rightarrow> tlsf_block_header"

definition arena_magic :: nat where "arena_magic = 0x4d43414c"

definition arena_end :: "arena \<Rightarrow> nat" where
  "arena_end a = ar_user_offset a + ar_user_size a"

text \<open>No caller passes the arguments 2 to 4 of the journal, whose default is 0.\<close>

definition journal_begin :: "journal_op \<Rightarrow> nat \<Rightarrow> nat \<Rightarrow> nat \<Rightarrow> arena \<Rightarrow> arena" where
  "journal_begin op a0 a1 misc a =
     a\<lparr>ar_journal := \<lparr>jn_op = op, jn_arg0 = a0, jn_arg1 = a1, jn_arg2 = 0, jn_arg3 = 0, jn_arg4 = 0, jn_misc = misc\<rparr>\<rparr>"

definition journal_end :: "arena \<Rightarrow> arena" where
  "journal_end a = a\<lparr>ar_journal := (ar_journal a)\<lparr>jn_op := no_op\<rparr>\<rparr>"

text \<open>The header behind a pointer, and a change of it.\<close>

definition mapped :: "nat \<Rightarrow> arena \<Rightarrow> bool" where
  "mapped off a \<longleftrightarrow>
     off \<noteq> 0 \<and> ar_user_offset a \<le> off \<and> off + tlsf_block_header_overhead \<le> arena_end a"

definition header_at :: "nat \<Rightarrow> arena \<Rightarrow> tlsf_block_header result" where
  "header_at off a = (if mapped off a then Inr (ar_heap a off) else Inl undefined_behaviour)"

definition set_header ::
    "nat \<Rightarrow> (tlsf_block_header \<Rightarrow> tlsf_block_header) \<Rightarrow> arena \<Rightarrow> arena result" where
  "set_header off f a =
     (if mapped off a then Inr (a\<lparr>ar_heap := (ar_heap a)(off := f (ar_heap a off))\<rparr>)
      else Inl undefined_behaviour)"

section \<open>Size classes\<close>

definition mapping_insert :: "nat \<Rightarrow> nat \<times> nat" where
  "mapping_insert sz =
     (if sz < small_threshold then (0, drop_bit tlsf_fl_shift sz)
      else let raw_fl = fls64 sz
           in (raw_fl - tlsf_fl_shift,
               drop_bit (raw_fl - tlsf_sl_log2) sz AND (tlsf_sl_count - 1)))"

definition mapping_search :: "nat \<Rightarrow> (nat \<times> nat) option" where
  "mapping_search sz =
     (let sz =
        if small_threshold \<le> sz
        then let raw_fl = fls64 sz; round = push_bit (raw_fl - tlsf_sl_log2) 1 - 1 in add64 sz round
        else let small_quantum = push_bit tlsf_fl_shift 1
             in and_not (sz + small_quantum - 1) (small_quantum - 1)
      in if sz = 0 then Some (0, 0)
         else let (fl, sl) = mapping_insert sz in if fl < tlsf_fl_count then Some (fl, sl) else None)"

definition search_suitable_class :: "tlsf_control \<Rightarrow> nat \<Rightarrow> nat \<Rightarrow> (nat \<times> nat) option" where
  "search_suitable_class ctrl fl sl =
     (let sl_map = sl_bitmap ctrl fl AND push_bit sl (- 1)
      in if sl_map = 0
         then let fl_map = fl_bitmap ctrl AND push_bit (fl + 1) (- 1)
              in if fl_map = 0 then None
                 else let fl = ffs32 fl_map in Some (fl, ffs32 (sl_bitmap ctrl fl))
         else Some (fl, ffs32 sl_map))"

definition class_in_tables :: "nat \<times> nat \<Rightarrow> bool" where
  "class_in_tables c \<longleftrightarrow> fst c < tlsf_fl_count \<and> snd c < tlsf_sl_count"

section \<open>The free lists\<close>

definition push_class :: "nat \<Rightarrow> nat \<times> nat \<Rightarrow> tlsf_control \<Rightarrow> tlsf_control" where
  "push_class off c ctrl =
     (case c of (fl, sl) \<Rightarrow>
        ctrl\<lparr>free_list := (free_list ctrl)(fl := (free_list ctrl fl)(sl := off)),
             fl_bitmap := fl_bitmap ctrl OR push_bit fl 1,
             sl_bitmap := (sl_bitmap ctrl)(fl := sl_bitmap ctrl fl OR push_bit sl 1)\<rparr>)"

definition insert_free_block :: "nat \<Rightarrow> arena \<Rightarrow> arena result" where
  "insert_free_block blk a =
     bind_result (header_at blk a) (\<lambda>b.
       let c = mapping_insert (tlsf_block_size b)
       in if \<not> class_in_tables c then Inl undefined_behaviour
          else let head_off = free_list (ar_tlsf a) (fst c) (snd c)
               in bind_result
                    (set_header blk (\<lambda>b. b\<lparr>next_free_offset := head_off, prev_free_offset := 0\<rparr>) a) (\<lambda>a.
                  bind_result
                    (if head_off \<noteq> 0 then set_header head_off (\<lambda>b. b\<lparr>prev_free_offset := blk\<rparr>) a
                     else Inr a) (\<lambda>a.
                  Inr (a\<lparr>ar_tlsf := push_class blk c (ar_tlsf a)\<rparr>))))"

text \<open>The head of a class is taken out: \<open>next_off\<close> is the new head.\<close>

definition pop_class :: "nat \<Rightarrow> nat \<times> nat \<Rightarrow> tlsf_control \<Rightarrow> tlsf_control" where
  "pop_class next_off c ctrl =
     (case c of (fl, sl) \<Rightarrow>
        let ctrl = ctrl\<lparr>free_list := (free_list ctrl)(fl := (free_list ctrl fl)(sl := next_off))\<rparr>
        in if next_off = 0
           then let sl_map = sl_bitmap ctrl fl AND NOT (push_bit sl 1);
                    ctrl = ctrl\<lparr>sl_bitmap := (sl_bitmap ctrl)(fl := sl_map)\<rparr>
                in if sl_map = 0 then ctrl\<lparr>fl_bitmap := fl_bitmap ctrl AND NOT (push_bit fl 1)\<rparr> else ctrl
           else ctrl)"

definition remove_free_block :: "nat \<Rightarrow> arena \<Rightarrow> arena result" where
  "remove_free_block blk a =
     bind_result (header_at blk a) (\<lambda>b.
       let c = mapping_insert (tlsf_block_size b); next_off = next_free_offset b; prev_off = prev_free_offset b
       in bind_result
            (if prev_off \<noteq> 0 then set_header prev_off (\<lambda>b. b\<lparr>next_free_offset := next_off\<rparr>) a
             else Inr a) (\<lambda>a.
          bind_result
            (if next_off \<noteq> 0 then set_header next_off (\<lambda>b. b\<lparr>prev_free_offset := prev_off\<rparr>) a
             else Inr a) (\<lambda>a.
          if \<not> class_in_tables c then Inl undefined_behaviour
          else let a = if free_list (ar_tlsf a) (fst c) (snd c) = blk
                       then a\<lparr>ar_tlsf := pop_class next_off c (ar_tlsf a)\<rparr> else a
               in set_header blk (\<lambda>b. b\<lparr>next_free_offset := 0, prev_free_offset := 0\<rparr>) a)))"

section \<open>The chain of blocks\<close>

text \<open>The null pointer is the offset 0.\<close>

definition next_phys_block :: "nat \<Rightarrow> arena \<Rightarrow> nat result" where
  "next_phys_block blk a =
     bind_result (header_at blk a) (\<lambda>b.
       let next_off = add64 blk (tlsf_block_size b) in Inr (if arena_end a \<le> next_off then 0 else next_off))"

definition prev_phys_block :: "nat \<Rightarrow> arena \<Rightarrow> nat result" where
  "prev_phys_block blk a = bind_result (header_at blk a) (\<lambda>b. Inr (prev_phys_offset b))"

text \<open>\<^verbatim>\<open>if (after != nullptr)\<close> and a change of the block after \<open>blk\<close>.\<close>

definition update_after ::
    "nat \<Rightarrow> (tlsf_block_header \<Rightarrow> tlsf_block_header) \<Rightarrow> arena \<Rightarrow> arena result" where
  "update_after blk f a =
     bind_result (next_phys_block blk a) (\<lambda>after. if after \<noteq> 0 then set_header after f a else Inr a)"

definition split_block_if_possible :: "nat \<Rightarrow> nat \<Rightarrow> arena \<Rightarrow> (nat \<times> arena) result" where
  "split_block_if_possible blk want_size a =
     bind_result (header_at blk a) (\<lambda>b.
       let bsz = tlsf_block_size b; remainder = sub64 bsz want_size
       in if remainder < tlsf_min_block_size then Inr (0, a)
          else let remainder_blk = blk + want_size
               in bind_result
                    (set_header blk
                      (tlsf_set_size want_size (tlsf_block_is_free b) (tlsf_block_prev_is_free b)) a) (\<lambda>a.
                  bind_result
                    (set_header remainder_blk
                      (\<lambda>r. (tlsf_set_size remainder True (tlsf_block_is_free b) (r\<lparr>prev_phys_offset := blk\<rparr>))
                             \<lparr>next_free_offset := 0, prev_free_offset := 0\<rparr>) a) (\<lambda>a.
                  bind_result
                    (update_after remainder_blk
                      (\<lambda>r. tlsf_set_prev_free_flag True (r\<lparr>prev_phys_offset := remainder_blk\<rparr>)) a) (\<lambda>a.
                  bind_result (insert_free_block remainder_blk a) (\<lambda>a. Inr (remainder_blk, a))))))"

definition absorb_next_if_free :: "nat \<Rightarrow> arena \<Rightarrow> arena result" where
  "absorb_next_if_free blk a =
     bind_result (next_phys_block blk a) (\<lambda>next.
       if next = 0 then Inr a
       else bind_result (header_at next a) (\<lambda>n.
         if \<not> tlsf_block_is_free n then Inr a
         else bind_result (remove_free_block next a) (\<lambda>a.
              bind_result (header_at blk a) (\<lambda>b.
              bind_result (header_at next a) (\<lambda>n.
              bind_result
                (set_header blk
                  (tlsf_set_size (add64 (tlsf_block_size b) (tlsf_block_size n)) (tlsf_block_is_free b)
                    (tlsf_block_prev_is_free b)) a) (\<lambda>a.
              update_after blk (\<lambda>r. r\<lparr>prev_phys_offset := blk\<rparr>) a))))))"

definition absorb_prev_if_free :: "nat \<Rightarrow> arena \<Rightarrow> (nat \<times> arena) result" where
  "absorb_prev_if_free blk a =
     bind_result (header_at blk a) (\<lambda>b.
       if \<not> tlsf_block_prev_is_free b then Inr (blk, a)
       else bind_result (prev_phys_block blk a) (\<lambda>prev.
         if prev = 0 then Inr (blk, a)
         else bind_result (header_at prev a) (\<lambda>p.
           if \<not> tlsf_block_is_free p then Inr (blk, a)
           else bind_result (remove_free_block prev a) (\<lambda>a.
                bind_result (header_at prev a) (\<lambda>p.
                bind_result (header_at blk a) (\<lambda>b.
                bind_result
                  (set_header prev
                    (tlsf_set_size (add64 (tlsf_block_size p) (tlsf_block_size b)) True
                      (tlsf_block_prev_is_free p)) a) (\<lambda>a.
                bind_result (update_after prev (\<lambda>r. r\<lparr>prev_phys_offset := prev\<rparr>) a) (\<lambda>a.
                Inr (prev, a)))))))))"

section \<open>Operations\<close>

definition tlsf_required_block_size :: "nat \<Rightarrow> nat \<Rightarrow> nat" where
  "tlsf_required_block_size sz alignment =
     (let block_total = add64 tlsf_block_header_overhead sz;
          block_total = if block_total < tlsf_min_block_size then tlsf_min_block_size else block_total;
          block_total = if tlsf_align < alignment then add64 block_total alignment else block_total
      in align_up block_total tlsf_align)"

definition tlsf_payload_offset :: "nat \<Rightarrow> nat" where
  "tlsf_payload_offset block_offset =
     (if block_offset = 0 then 0 else block_offset + tlsf_block_header_overhead)"

definition tlsf_block_offset_from_payload :: "nat \<Rightarrow> nat" where
  "tlsf_block_offset_from_payload payload_offset =
     (if payload_offset = 0 \<or> payload_offset < tlsf_block_header_overhead then 0
      else payload_offset - tlsf_block_header_overhead)"

definition empty_control :: tlsf_control where
  "empty_control = \<lparr>fl_bitmap = 0, sl_bitmap = (\<lambda>_. 0), free_list = (\<lambda>_ _. 0)\<rparr>"

definition tlsf_init :: "arena \<Rightarrow> (bool \<times> arena) result" where
  "tlsf_init a =
     (let a = a\<lparr>ar_tlsf := empty_control\<rparr>; user_offset = ar_user_offset a; user_size = ar_user_size a
      in if user_size < tlsf_min_block_size then Inr (False, a)
         else let aligned_off = align_up user_offset tlsf_align; shift = aligned_off - user_offset
              in if aligned_off \<noteq> user_offset \<and> user_size \<le> shift then Inr (False, a)
                 else let a = if aligned_off \<noteq> user_offset
                              then a\<lparr>ar_user_offset := aligned_off, ar_user_size := user_size - shift\<rparr> else a;
                          user_offset = ar_user_offset a;
                          block_size = align_down (ar_user_size a) tlsf_align
                      in if block_size < tlsf_min_block_size then Inr (False, a)
                         else bind_result
                                (set_header user_offset
                                  (\<lambda>b. (tlsf_set_size block_size True False (b\<lparr>prev_phys_offset := 0\<rparr>))
                                         \<lparr>next_free_offset := 0, prev_free_offset := 0\<rparr>)
                                  (a\<lparr>ar_user_size := block_size\<rparr>)) (\<lambda>a.
                              bind_result (insert_free_block user_offset a) (\<lambda>a. Inr (True, a))))"

text \<open>\<^verbatim>\<open>prefix_gap\<close>: how far the payload moves to be aligned, enough for a block of its own.\<close>

definition prefix_gap :: "nat \<Rightarrow> nat \<Rightarrow> nat" where
  "prefix_gap payload_off alignment =
     (if tlsf_align < alignment
      then let aligned_off = align_up payload_off alignment; gap = sub64 aligned_off payload_off
           in if gap \<noteq> 0 \<and> gap < tlsf_min_block_size
              then sub64 (align_up (add64 aligned_off 1) alignment) payload_off else gap
      else 0)"

text \<open>The first \<open>gap\<close> bytes of a block become a free block; the result is the rest.\<close>

definition carve_prefix :: "nat \<Rightarrow> nat \<Rightarrow> arena \<Rightarrow> (nat \<times> arena) result" where
  "carve_prefix blk gap a =
     bind_result (header_at blk a) (\<lambda>b.
       let blk_size = tlsf_block_size b; new_blk = blk + gap
       in bind_result (set_header blk (tlsf_set_size gap True (tlsf_block_prev_is_free b)) a) (\<lambda>a.
          bind_result
            (set_header new_blk
              (\<lambda>r. (tlsf_set_size (sub64 blk_size gap) False True (r\<lparr>prev_phys_offset := blk\<rparr>))
                     \<lparr>next_free_offset := 0, prev_free_offset := 0\<rparr>) a) (\<lambda>a.
          bind_result (update_after new_blk (\<lambda>r. r\<lparr>prev_phys_offset := new_blk\<rparr>) a) (\<lambda>a.
          bind_result (insert_free_block blk a) (\<lambda>a. Inr (new_blk, a))))))"

text \<open>The block is marked, its tail split off, its successor told, the statistics brought up to date.\<close>

definition occupy_block :: "nat \<Rightarrow> nat \<Rightarrow> arena \<Rightarrow> (nat \<times> arena) result" where
  "occupy_block blk block_total a =
     bind_result (header_at blk a) (\<lambda>b.
     let blk_size = tlsf_block_size b
     in bind_result (set_header blk (tlsf_set_size blk_size False (tlsf_block_prev_is_free b)) a) (\<lambda>a.
        bind_result
          (if add64 block_total tlsf_min_block_size \<le> blk_size
           then bind_result (split_block_if_possible blk block_total a) (\<lambda>(_, a).
                bind_result (header_at blk a) (\<lambda>b. Inr (tlsf_block_size b, a)))
           else Inr (blk_size, a)) (\<lambda>(blk_size, a).
        bind_result (update_after blk (tlsf_set_prev_free_flag False) a) (\<lambda>a.
        let live = add64 (ar_live_bytes a) blk_size
        in Inr (blk + tlsf_block_header_overhead,
                a\<lparr>ar_live_bytes := live, ar_peak_bytes := max (ar_peak_bytes a) live\<rparr>)))))"

text \<open>What \<^verbatim>\<open>tlsf_allocate\<close> does with the block it has found.\<close>

definition allocate_block :: "nat \<Rightarrow> nat \<Rightarrow> nat \<Rightarrow> arena \<Rightarrow> (nat \<times> arena) result" where
  "allocate_block blk block_total alignment a =
     bind_result (remove_free_block blk a) (\<lambda>a.
     bind_result (header_at blk a) (\<lambda>b.
     let gap = prefix_gap (blk + tlsf_block_header_overhead) alignment
     in if 0 < gap
        then if gap < tlsf_min_block_size \<or> tlsf_block_size b < add64 gap tlsf_min_block_size
             then bind_result (insert_free_block blk a) (\<lambda>a. Inr (0, a))
             else bind_result (carve_prefix blk gap a) (\<lambda>(blk, a). occupy_block blk block_total a)
        else occupy_block blk block_total a))"

definition tlsf_allocate :: "nat \<Rightarrow> nat \<Rightarrow> arena \<Rightarrow> (nat \<times> arena) result" where
  "tlsf_allocate sz alignment a =
     (if sz = 0 then Inr (0, a)
      else let alignment = if alignment < tlsf_align then tlsf_align else alignment;
               block_total = tlsf_required_block_size sz alignment
           in if block_total = 0 then Inr (0, a)
              else case mapping_search block_total of
                     None \<Rightarrow> Inr (0, a)
                   | Some (fl, sl) \<Rightarrow>
                       case search_suitable_class (ar_tlsf a) fl sl of
                         None \<Rightarrow> Inr (0, a)
                       | Some (fl, sl) \<Rightarrow>
                           if \<not> class_in_tables (fl, sl) then Inl undefined_behaviour
                           else let blk = free_list (ar_tlsf a) fl sl
                                in if blk = 0 then Inr (0, a)
                                   else bind_result (header_at blk a) (\<lambda>b.
                                        bind_result
                                          (allocate_block blk block_total alignment
                                            (journal_begin tlsf_alloc_op blk (size_and_flags b) 0 a)) (\<lambda>(p, a).
                                        Inr (p, journal_end a))))"

definition tlsf_deallocate :: "nat \<Rightarrow> arena \<Rightarrow> arena result" where
  "tlsf_deallocate payload_offset a =
     (let blk = tlsf_block_offset_from_payload payload_offset
      in if payload_offset = 0 \<or> blk = 0 then Inr a
         else bind_result (header_at blk a) (\<lambda>b.
           if tlsf_block_is_free b then Inr a
           else let freed_size = tlsf_block_size b;
                    a = journal_begin tlsf_free_op blk (size_and_flags b) 0 a
                in bind_result
                     (set_header blk (tlsf_set_size freed_size True (tlsf_block_prev_is_free b)) a) (\<lambda>a.
                   bind_result (absorb_prev_if_free blk a) (\<lambda>(blk, a).
                   bind_result (absorb_next_if_free blk a) (\<lambda>a.
                   bind_result (insert_free_block blk a) (\<lambda>a.
                   bind_result (update_after blk (tlsf_set_prev_free_flag True) a) (\<lambda>a.
                   Inr (journal_end (a\<lparr>ar_live_bytes := sub64 (ar_live_bytes a) freed_size\<rparr>)))))))))"

section \<open>Recovery and the integrity check\<close>

text \<open>
  The loop of \<^verbatim>\<open>tlsf_recover\<close>, with the offset and the live bytes it ends with, or nothing for the
  return inside it. A corrupted size can lead backwards, so that the loop need not end. \<open>is_chunk\<close> says
  whether a payload starts with the header of a slab chunk, whose bytes the slab counts itself.
\<close>

partial_function (option) recover_loop ::
    "(nat \<Rightarrow> bool) \<Rightarrow> nat \<Rightarrow> nat \<Rightarrow> bool \<Rightarrow> nat \<Rightarrow> arena \<Rightarrow> ((nat \<times> nat) option \<times> arena) result option" where
  "recover_loop is_chunk off prev_off prev_free live a =
     (if off < arena_end a
      then case header_at off a of
             Inl e \<Rightarrow> Some (Inl e)
           | Inr b \<Rightarrow>
               (let bsz = tlsf_block_size b
                in if bsz < tlsf_min_block_size \<or> arena_end a < add64 off bsz then Some (Inr (None, a))
                   else case set_header off
                               (\<lambda>b. tlsf_set_prev_free_flag prev_free (b\<lparr>prev_phys_offset := prev_off\<rparr>)) a of
                          Inl e \<Rightarrow> Some (Inl e)
                        | Inr a \<Rightarrow>
                            if tlsf_block_is_free b
                            then case bind_result
                                        (set_header off
                                          (\<lambda>b. b\<lparr>next_free_offset := 0, prev_free_offset := 0\<rparr>) a)
                                        (insert_free_block off) of
                                   Inl e \<Rightarrow> Some (Inl e)
                                 | Inr a \<Rightarrow> recover_loop is_chunk (add64 off bsz) off True live a
                            else recover_loop is_chunk (add64 off bsz) off False
                                   (if is_chunk (off + tlsf_block_header_overhead) then live
                                    else add64 live bsz) a)
      else Some (Inr (Some (off, live), a)))"

definition tlsf_recover :: "(nat \<Rightarrow> bool) \<Rightarrow> arena \<Rightarrow> arena result option" where
  "tlsf_recover is_chunk a =
     (if jn_op (ar_journal a) = no_op then Some (Inr a)
      else map_option
             (\<lambda>r. bind_result r (\<lambda>(ended, a).
                Inr (case ended of
                       None \<Rightarrow> a
                     | Some (off, live) \<Rightarrow> if off = arena_end a then a\<lparr>ar_live_bytes := live\<rparr> else a)))
             (recover_loop is_chunk (ar_user_offset a) 0 False 0 (a\<lparr>ar_tlsf := empty_control\<rparr>)))"

datatype integrity_status =
  ok_status | invalid_arena | journal_pending | tlsf_inconsistent | slab_inconsistent | block_corrupted

partial_function (option) check_loop :: "nat \<Rightarrow> nat \<Rightarrow> bool \<Rightarrow> arena \<Rightarrow> integrity_status result option" where
  "check_loop off prev_off prev_free a =
     (if off < arena_end a
      then case header_at off a of
             Inl e \<Rightarrow> Some (Inl e)
           | Inr b \<Rightarrow>
               (let bsz = tlsf_block_size b
                in if bsz < tlsf_min_block_size \<or> arena_end a < add64 off bsz then Some (Inr block_corrupted)
                   else if prev_phys_offset b \<noteq> prev_off then Some (Inr block_corrupted)
                   else if tlsf_block_prev_is_free b \<noteq> prev_free then Some (Inr tlsf_inconsistent)
                   else check_loop (add64 off bsz) off (tlsf_block_is_free b) a)
      else if off \<noteq> arena_end a then Some (Inr block_corrupted) else Some (Inr ok_status))"

definition tlsf_check_integrity :: "arena \<Rightarrow> integrity_status result option" where
  "tlsf_check_integrity a =
     (if ar_magic a \<noteq> arena_magic then Some (Inr invalid_arena)
      else check_loop (ar_user_offset a) 0 False a)"

end
