(* ===== verification/TlsfLists.thy ===== *)
theory TlsfLists
  imports Tlsf
begin

chapter \<open>The size classes and free lists of the TLSF allocator\<close>

text \<open>
  Facts about the helpers of \<open>Tlsf\<close>: the 64-bit additions that do not wrap, the packing of
  a block's size with its two flags, the two-level class of a size (\<open>mapping_insert\<close> is
  monotone, \<open>class_min\<close> is the smallest size of a class, and \<open>mapping_search\<close> gives a class
  whose blocks are all large enough), and the doubly linked lists of the free blocks of each
  class, with the bitmaps that say which lists have blocks. \<open>heads_ok\<close> relates the tables to
  a function from classes to lists of offsets, and \<open>links\<close> the blocks to one list.
\<close>

lemma add64_eq: "x + y < 2 ^ 64 \<Longrightarrow> add64 x y = x + y"
  by (simp add: add64_def)

lemma sub64_eq: "y \<le> x \<Longrightarrow> x < 2 ^ 64 \<Longrightarrow> sub64 x y = x - y"
proof -
  assume "y \<le> x" "x < 2 ^ 64"
  then have "x + (2 ^ 64 - y) = (x - y) + 2 ^ 64"
    by simp
  moreover have "x - y < 2 ^ 64"
    using \<open>x < 2 ^ 64\<close> by simp
  ultimately show ?thesis
    unfolding sub64_def by (simp only: mod_add_self2 mod_less)
qed

lemma and_not_mask: "and_not v (2 ^ n - 1) = v - v mod 2 ^ n"
  unfolding and_not_def by (metis mask_eq_exp_minus_1 take_bit_eq_mask take_bit_eq_mod)

lemma and_not_low_bits [simp]:
  "and_not v 3 = v - v mod 4" "and_not v 15 = v - v mod 16" "and_not v 31 = v - v mod 32"
  using and_not_mask [of v 2] and_not_mask [of v 4] and_not_mask [of v 5] by simp_all

lemma align_up_16: "v < 2 ^ 63 \<Longrightarrow> align_up v 16 = (v + 15) div 16 * 16"
  by (simp add: align_up_def add64_eq sub64_eq minus_mod_eq_div_mult)

definition flag_word :: "nat \<Rightarrow> bool \<Rightarrow> bool \<Rightarrow> nat" where
  "flag_word s f p = s + of_bool f + 2 * of_bool p"

lemma or_flags:
  assumes "4 dvd s"
  shows "s OR (if f then 1 else 0) OR (if p then 2 else 0) = flag_word s f p"
proof -
  obtain k where s: "s = push_bit 2 k"
    using assms by (auto simp: push_bit_eq_mult elim!: dvdE)
  have "s OR m = s + m" if "m < 4" for m
  proof -
    have "s AND take_bit 2 m = 0"
      by (rule bit_eqI) (auto simp: s bit_simps)
    then have "s AND m = 0"
      using that by (simp add: take_bit_eq_mod)
    then show ?thesis by (metis disjunctive_add_eq_or)
  qed
  then show ?thesis
    by (cases f; cases p) (simp_all add: flag_word_def)
qed

lemma size_and_flags_set_size [simp]:
  "4 dvd s \<Longrightarrow> size_and_flags (tlsf_set_size s f p b) = flag_word s f p"
  using or_flags [of s f p] by (simp add: tlsf_set_size_def)

lemma block_size_flag_word:
  assumes "size_and_flags b = flag_word s f p" "4 dvd s"
  shows "tlsf_block_size b = s" "tlsf_block_is_free b = f" "tlsf_block_prev_is_free b = p"
proof -
  obtain k where s: "s = 4 * k" using assms(2) by auto
  have m: "(4 * k + of_bool f + 2 * of_bool p) mod 4 = of_bool f + 2 * of_bool p"
    by (cases f; cases p; simp; presburger)
  show "tlsf_block_size b = s"
    by (simp add: tlsf_block_size_def assms(1) flag_word_def s m)
  have "odd (flag_word s f p) = f"
    by (cases f) (simp_all add: flag_word_def s)
  then show "tlsf_block_is_free b = f"
    using and_exp_eq_0_iff_not_bit [of "size_and_flags b" 0]
    by (simp add: tlsf_block_is_free_def assms(1) bit_0)
  have "odd ((4 * k + of_bool f + 2 * of_bool p) div 2) = p"
    by (cases f; cases p) simp_all
  then show "tlsf_block_prev_is_free b = p"
    using and_exp_eq_0_iff_not_bit [of "size_and_flags b" 1]
    by (simp add: tlsf_block_prev_is_free_def assms(1) flag_word_def s bit_iff_odd)
qed
lemma set_prev_free_flag_word [simp]:
  assumes "size_and_flags b = flag_word s f p" "4 dvd s"
  shows "size_and_flags (tlsf_set_prev_free_flag p' b) = flag_word s f p'"
proof -
  have "flag_word s f p OR 2 = flag_word s f True"
    unfolding or_flags [OF assms(2), symmetric] by (simp add: or.assoc)
  moreover have "and_not (flag_word s f p) 2 = flag_word s f False"
  proof (cases p)
    case True
    then have "bit (flag_word s f p) 1"
      using block_size_flag_word(3) [OF assms] assms(1) and_exp_eq_0_iff_not_bit [of "flag_word s f p" 1]
      by (simp add: tlsf_block_prev_is_free_def)
    then have "flag_word s f p AND 2 = 2"
      by (intro bit_eqI) (auto simp: bit_and_iff bit_2_iff)
    with True show ?thesis by (simp add: and_not_def flag_word_def)
  next
    case False
    then have "flag_word s f p AND 2 = 0"
      using block_size_flag_word(3) [OF assms] assms(1) by (simp add: tlsf_block_prev_is_free_def)
    with False show ?thesis by (simp add: and_not_def)
  qed
  ultimately show ?thesis
    by (simp add: tlsf_set_prev_free_flag_def assms(1))
qed

section \<open>Size classes\<close>

lemma fls64_bounds: "0 < x \<Longrightarrow> 2 ^ fls64 x \<le> x \<and> x < 2 ^ Suc (fls64 x)"
proof (induction x rule: fls64.induct)
  case (1 x)
  show ?case
  proof (cases "x \<le> 1")
    case True
    with 1 show ?thesis by (simp add: fls64.simps [of x])
  next
    case False
    with 1 have "2 ^ fls64 (x div 2) \<le> x div 2 \<and> x div 2 < 2 ^ Suc (fls64 (x div 2))"
      by simp
    moreover have "2 * (x div 2) \<le> x" "x < 2 * (x div 2) + 2" by presburger+
    ultimately have "2 * 2 ^ fls64 (x div 2) \<le> x \<and> x < 2 * (2 * 2 ^ fls64 (x div 2))" by (simp only: power_Suc) linarith
    with False show ?thesis by (simp add: fls64.simps [of x])
  qed
qed

lemma fls64_unique: "2 ^ n \<le> x \<Longrightarrow> x < 2 ^ Suc n \<Longrightarrow> fls64 x = n"
proof -
  assume n: "2 ^ n \<le> x" "x < 2 ^ Suc n"
  then have "0 < x" by (metis less_le_trans zero_less_numeral zero_less_power)
  then have "2 ^ fls64 x \<le> x" "x < 2 ^ Suc (fls64 x)" using fls64_bounds by auto
  with n have "(2::nat) ^ n < 2 ^ Suc (fls64 x)" "(2::nat) ^ fls64 x < 2 ^ Suc n"
    by (meson le_less_trans)+
  then have "n < Suc (fls64 x)" "fls64 x < Suc n"
    by (metis power_strict_increasing_iff one_less_numeral_iff semiring_norm(76))+
  then show ?thesis by simp
qed

definition class_min :: "nat \<times> nat \<Rightarrow> nat" where
  "class_min c = (if fst c = 0 then 32 * snd c else (16 + snd c) * 2 ^ (fst c + 1))"

definition class_le :: "nat \<times> nat \<Rightarrow> nat \<times> nat \<Rightarrow> bool" where
  "class_le c c' \<longleftrightarrow> fst c < fst c' \<or> fst c = fst c' \<and> snd c \<le> snd c'"

text \<open>A size of at least 512 lies in the sixteenths of its power of two.\<close>

lemma power_two_less: "(2::nat) ^ m < 2 ^ n \<Longrightarrow> m < n"
  using power_strict_increasing_iff [of "2::nat" m n] by simp

lemma mod16: "16 \<le> q \<Longrightarrow> q < 32 \<Longrightarrow> q mod 16 = q - (16::nat)"
  by (simp add: le_mod_geq)

lemma mapping_insert_large:
  assumes "512 \<le> s"
  obtains fl where "4 \<le> fl" "fls64 s = fl + 5" "16 * 2 ^ (fl + 1) \<le> s" "s < 32 * 2 ^ (fl + 1)"
    "mapping_insert s = (fl, s div 2 ^ (fl + 1) - 16)" "16 \<le> s div 2 ^ (fl + 1)" "s div 2 ^ (fl + 1) < 32"
proof -
  have b: "2 ^ fls64 s \<le> s" "s < 2 ^ Suc (fls64 s)" using fls64_bounds [of s] assms by auto
  have "(2::nat) ^ 9 \<le> s" using assms by simp
  then have "(2::nat) ^ 9 < 2 ^ Suc (fls64 s)" using b(2) by (rule le_less_trans)
  then have "9 < Suc (fls64 s)" by (rule power_two_less)
  then have "9 \<le> fls64 s" by simp
  define fl where "fl = fls64 s - 5"
  have m: "fls64 s = fl + 5" "4 \<le> fl" using \<open>9 \<le> fls64 s\<close> by (auto simp: fl_def)
  have s: "16 * 2 ^ (fl + 1) \<le> s" "s < 32 * 2 ^ (fl + 1)" using b by (simp_all add: m power_add)
  then have d: "16 \<le> s div 2 ^ (fl + 1)" "s div 2 ^ (fl + 1) < 32"
    by (simp_all only: less_eq_div_iff_mult_less_eq div_less_iff_less_mult zero_less_power zero_less_numeral)
  have "(s div 2 ^ (fl + 1)) AND 15 = s div 2 ^ (fl + 1) mod 16"
    using take_bit_eq_mask [of 4 "s div 2 ^ (fl + 1)"] by (simp add: mask_eq_exp_minus_1 take_bit_eq_mod)
  also have "\<dots> = s div 2 ^ (fl + 1) - 16"
    using d by (rule mod16)
  finally have "mapping_insert s = (fl, s div 2 ^ (fl + 1) - 16)"
    using assms by (simp add: mapping_insert_def tlsf_constants drop_bit_eq_div Let_def m)
  show thesis by (rule that [of fl]) (use m s d \<open>mapping_insert s = _\<close> in simp_all)
qed

lemma mapping_insert_small: "s < 512 \<Longrightarrow> mapping_insert s = (0, s div 32)"
  by (simp add: mapping_insert_def tlsf_constants drop_bit_eq_div)

lemma mapping_insert_in_tables: "s < 2 ^ 32 \<Longrightarrow> class_in_tables (mapping_insert s)"
proof (cases "s < 512")
  case False
  assume s: "s < 2 ^ 32"
  obtain m where m: "16 * 2 ^ (m + 1) \<le> s" "mapping_insert s = (m, s div 2 ^ (m + 1) - 16)" "s div 2 ^ (m + 1) < 32"
    using False by (meson mapping_insert_large not_less)
  have "(2::nat) ^ (m + 5) \<le> s" using m(1) by (simp add: power_add)
  then have "(2::nat) ^ (m + 5) < 2 ^ 32" using s by (rule le_less_trans)
  then have "m + 5 < 32" by (rule power_two_less)
  with m show ?thesis by (simp add: class_in_tables_def tlsf_constants less_diff_conv2)
qed (simp add: mapping_insert_small class_in_tables_def tlsf_constants div_less_iff_less_mult)

lemma class_min_le: "class_min (mapping_insert s) \<le> s"
proof (cases "s < 512")
  case False
  then obtain m where m: "4 \<le> m" "mapping_insert s = (m, s div 2 ^ (m + 1) - 16)" "16 \<le> s div 2 ^ (m + 1)"
    by (meson mapping_insert_large not_less)
  then have "class_min (mapping_insert s) = s div 2 ^ (m + 1) * 2 ^ (m + 1)"
    by (simp add: class_min_def)
  then show ?thesis using div_times_less_eq_dividend by metis
qed (simp add: mapping_insert_small class_min_def)

lemma class_min_mono:
  assumes "class_le c (mapping_insert s)" "snd c < 16"
  shows "class_min c \<le> s"
proof (cases "fst c = fst (mapping_insert s)")
  case True
  with assms have "class_min c \<le> class_min (mapping_insert s)"
    by (auto simp: class_le_def class_min_def)
  then show ?thesis using class_min_le le_trans by blast
next
  case False
  then have less: "fst c < fst (mapping_insert s)" using assms by (simp add: class_le_def)
  then have "\<not> s < 512" by (auto simp: mapping_insert_small)
  then obtain m where m: "4 \<le> m" "16 * 2 ^ (m + 1) \<le> s" "mapping_insert s = (m, s div 2 ^ (m + 1) - 16)"
    by (meson mapping_insert_large not_less)
  with less have "fst c < m" by simp
  then have "(2::nat) ^ Suc (fst c + 1) \<le> 2 ^ (m + 1)" by (intro power_increasing) auto
  then have "32 * (2::nat) ^ (fst c + 1) \<le> 16 * 2 ^ (m + 1)" by simp
  moreover have "(16 + snd c) * 2 ^ (fst c + 1) \<le> 32 * (2::nat) ^ (fst c + 1)"
    using assms(2) by (intro mult_right_mono) auto
  ultimately have a: "(16 + snd c) * 2 ^ (fst c + 1) \<le> 16 * 2 ^ (m + 1)" by (rule order.trans [rotated])
  have "(2::nat) ^ 5 \<le> 2 ^ (m + 1)" using m(1) by (intro power_increasing) auto
  then have b: "32 * snd c \<le> 16 * 2 ^ (m + 1)" using assms(2) by simp
  from a b have "class_min c \<le> 16 * 2 ^ (m + 1)"
    unfolding class_min_def by (rule if_split [THEN iffD2, OF conjI, OF impI impI, rotated])
  with m(2) show ?thesis by linarith
qed

lemma mapping_insert_mono:
  assumes "s \<le> s'"
  shows "class_le (mapping_insert s) (mapping_insert s')"
proof (cases "s' < 512")
  case True
  with assms show ?thesis by (simp add: mapping_insert_small class_le_def div_le_mono)
next
  case False
  then obtain m where m: "4 \<le> m" "16 * 2 ^ (m + 1) \<le> s'" "s' < 32 * 2 ^ (m + 1)"
      "mapping_insert s' = (m, s' div 2 ^ (m + 1) - 16)"
    by (meson mapping_insert_large not_less)
  show ?thesis
  proof (cases "s < 512")
    case True
    with m show ?thesis by (simp add: mapping_insert_small class_le_def)
  next
    case False
    then obtain n where n: "16 * 2 ^ (n + 1) \<le> s" "mapping_insert s = (n, s div 2 ^ (n + 1) - 16)"
      by (meson mapping_insert_large not_less)
    have "16 * 2 ^ (n + 1) < 32 * (2::nat) ^ (m + 1)" using n(1) m(3) assms by linarith
    then have "(2::nat) ^ n < 2 ^ (m + 1)" by simp
    then have "n < m + 1" by (rule power_two_less)
    with m n assms show ?thesis
      by (cases "n = m") (simp_all add: class_le_def div_le_mono diff_le_mono)
  qed
qed

text \<open>The size rounded up to a class boundary, at most a sixteenth more.\<close>

definition rounded_size :: "nat \<Rightarrow> nat" where
  "rounded_size s =
     (if 512 \<le> s then s + (2 ^ (fls64 s - 4) - 1) else (s + 31) div 32 * 32)"

lemma rounded_size_bounds: "s \<le> rounded_size s" "rounded_size s \<le> s + s div 16 + 31"
proof -
  have large: "2 ^ (fls64 s - 4) \<le> s div 16" if "512 \<le> s"
  proof -
    obtain fl where "fls64 s = fl + 5" "16 * 2 ^ (fl + 1) \<le> s"
      using mapping_insert_large [OF \<open>512 \<le> s\<close>] by metis
    then show ?thesis by (simp add: less_eq_div_iff_mult_less_eq)
  qed
  have "(s + 31) div 32 * 32 + (s + 31) mod 32 = s + 31" "(s + 31) mod 32 < 32" by simp_all
  then have small: "(s + 31) div 32 * 32 \<ge> s" "(s + 31) div 32 * 32 \<le> s + 31" by linarith+
  show "s \<le> rounded_size s"
    by (cases "512 \<le> s") (simp_all only: rounded_size_def if_True if_False le_add1 small)
  show "rounded_size s \<le> s + s div 16 + 31"
    using large small by (force simp: rounded_size_def)
qed

lemma mapping_search_rounded:
  assumes "0 < s" "s < 2 ^ 63"
  shows "mapping_search s =
     (let c = mapping_insert (rounded_size s) in if fst c < 27 then Some c else None)"
proof (cases "512 \<le> s")
  case True
  have "rounded_size s < 2 ^ 64"
    using rounded_size_bounds(2) [of s] assms(2) by simp
  then have "add64 s (2 ^ (fls64 s - 4) - 1) = rounded_size s"
    using True by (simp add: rounded_size_def add64_eq)
  moreover have "rounded_size s \<noteq> 0" using rounded_size_bounds(1) [of s] assms(1) by linarith
  ultimately show ?thesis
    using True by (simp add: mapping_search_def tlsf_constants push_bit_eq_mult Let_def split: prod.split)
next
  case False
  have "(s + 32 - 1) - (s + 32 - 1) mod 32 = (s + 31) div 32 * 32"
    by (simp add: minus_mod_eq_div_mult)
  moreover have "(s + 31) div 32 * 32 \<noteq> 0"
    using rounded_size_bounds(1) [of s] assms(1) False by (simp add: rounded_size_def)
  ultimately show ?thesis
    using False
    by (simp add: mapping_search_def tlsf_constants push_bit_eq_mult rounded_size_def Let_def
      minus_mod_eq_div_mult split: prod.split)
qed

lemma class_min_rounded: "s \<le> class_min (mapping_insert (rounded_size s))"
proof (cases "512 \<le> s")
  case True
  obtain fl where fl: "4 \<le> fl" "fls64 s = fl + 5" "16 * 2 ^ (fl + 1) \<le> s" "s < 32 * 2 ^ (fl + 1)"
    using mapping_insert_large [OF True] by metis
  let ?q = "(2::nat) ^ (fl + 1)"
  have r: "rounded_size s = s + (?q - 1)" using True fl(2) by (simp add: rounded_size_def)
  show ?thesis
  proof (cases "rounded_size s < 32 * ?q")
    case True
    have "fls64 (rounded_size s) = fl + 5"
      by (rule fls64_unique) (use True fl r in \<open>simp_all add: power_add\<close>)
    moreover have "512 \<le> rounded_size s" using \<open>512 \<le> s\<close> rounded_size_bounds(1) le_trans by blast
    ultimately obtain fl' where "fl' + 5 = fl + 5"
        "mapping_insert (rounded_size s) = (fl', rounded_size s div 2 ^ (fl' + 1) - 16)"
        "16 \<le> rounded_size s div 2 ^ (fl' + 1)"
      using mapping_insert_large [of "rounded_size s"] by metis
    then have "mapping_insert (rounded_size s) = (fl, rounded_size s div ?q - 16)"
        "16 \<le> rounded_size s div ?q"
      by simp_all
    then have "class_min (mapping_insert (rounded_size s)) = rounded_size s div ?q * ?q"
      using fl(1) by (simp add: class_min_def)
    moreover have "rounded_size s - rounded_size s div ?q * ?q = rounded_size s mod ?q"
      by (simp add: minus_div_mult_eq_mod)
    moreover have "rounded_size s mod ?q \<le> ?q - 1"
      by (metis Suc_leI Suc_pred' less_Suc_eq_le mod_less_divisor zero_less_numeral zero_less_power diff_Suc_1)
    ultimately show ?thesis using r by linarith
  next
    case False
    have "fls64 (rounded_size s) = fl + 6"
      by (rule fls64_unique) (use False fl r in \<open>simp_all add: power_add\<close>)
    moreover have "512 \<le> rounded_size s" using \<open>512 \<le> s\<close> rounded_size_bounds(1) le_trans by blast
    ultimately obtain fl' where "fl' + 5 = fl + 6"
        "mapping_insert (rounded_size s) = (fl', rounded_size s div 2 ^ (fl' + 1) - 16)"
      using mapping_insert_large [of "rounded_size s"] by metis
    then have "mapping_insert (rounded_size s) = (fl + 1, rounded_size s div 2 ^ (fl + 2) - 16)"
      by simp
    then have "32 * ?q \<le> class_min (mapping_insert (rounded_size s))"
      by (simp add: class_min_def)
    then show ?thesis using fl(4) by linarith
  qed
next
  case False
  then consider "rounded_size s < 512" | "rounded_size s = 512"
    using rounded_size_def [of s] by (cases "s \<le> 480") auto
  then show ?thesis
  proof cases
    case 1
    then show ?thesis
      using False rounded_size_bounds(1) [of s] by (simp add: mapping_insert_small class_min_def rounded_size_def)
  next
    case 2
    then show ?thesis using False
      by (simp add: mapping_insert_def tlsf_constants class_min_def fls64.simps drop_bit_eq_div)
  qed
qed

section \<open>The lists of the size classes\<close>

definition first :: "nat list \<Rightarrow> nat \<Rightarrow> nat" where
  "first xs next_off = (case xs of [] \<Rightarrow> next_off | x # _ \<Rightarrow> x)"

lemma first_simps [simp]: "first [] n = n" "first (x # xs) n = x"
  by (simp_all add: first_def)

lemma first_append [simp]: "first (xs @ ys) n = first xs (first ys n)"
  by (cases xs) simp_all

fun links :: "(nat \<Rightarrow> tlsf_block_header) \<Rightarrow> nat \<Rightarrow> nat list \<Rightarrow> nat \<Rightarrow> bool" where
  "links h prev_off [] next_off = True"
| "links h prev_off (x # xs) next_off =
     (prev_free_offset (h x) = prev_off \<and> next_free_offset (h x) = first xs next_off \<and> links h x xs next_off)"

definition last_of :: "nat list \<Rightarrow> nat \<Rightarrow> nat" where
  "last_of xs prev_off = (if xs = [] then prev_off else last xs)"

lemma last_of_simps [simp]: "last_of [] p = p" "last_of (x # xs) p = last_of xs x"
  by (simp_all add: last_of_def)

lemma last_of_append [simp]: "last_of (xs @ ys) p = last_of ys (last_of xs p)"
  by (induction xs arbitrary: p) simp_all

lemma links_append:
  "links h p (xs @ ys) n \<longleftrightarrow> links h p xs (first ys n) \<and> links h (last_of xs p) ys n"
  by (induction xs arbitrary: p) auto

lemma links_cong:
  "(\<And>x. x \<in> set xs \<Longrightarrow> prev_free_offset (h x) = prev_free_offset (h' x) \<and>
      next_free_offset (h x) = next_free_offset (h' x)) \<Longrightarrow> links h p xs n = links h' p xs n"
  by (induction xs arbitrary: p) auto

text \<open>The first and the last link of a list, changed.\<close>

lemma links_other: "y \<notin> set xs \<Longrightarrow> links (h(y := b)) p xs n = links h p xs n"
  by (rule links_cong) auto

lemma links_new_prev:
  "links h p (x # xs) n \<Longrightarrow> x \<notin> set xs \<Longrightarrow> links (h(x := (h x)\<lparr>prev_free_offset := q\<rparr>)) q (x # xs) n"
  by (simp add: links_other)

lemma links_new_next:
  "links h p (xs @ [x]) n \<Longrightarrow> x \<notin> set xs \<Longrightarrow> links (h(x := (h x)\<lparr>next_free_offset := q\<rparr>)) p (xs @ [x]) q"
  by (simp add: links_other links_append)

lemma last_of_in: "last_of xs p \<noteq> p \<Longrightarrow> last_of xs p \<in> set xs"
  by (auto simp: last_of_def split: if_splits)

lemma first_in: "first xs p \<noteq> p \<Longrightarrow> first xs p \<in> set xs"
  by (cases xs) auto

type_synonym class_lists = "nat \<times> nat \<Rightarrow> nat list"

definition heads_ok :: "tlsf_control \<Rightarrow> class_lists \<Rightarrow> bool" where
  "heads_ok ctrl L \<longleftrightarrow>
     (\<forall>c. free_list ctrl (fst c) (snd c) = first (L c) 0) \<and>
     (\<forall>fl sl. sl < 32 \<longrightarrow> bit (sl_bitmap ctrl fl) sl = (L (fl, sl) \<noteq> [])) \<and>
     (\<forall>fl. fl < 32 \<longrightarrow> bit (fl_bitmap ctrl) fl = (\<exists>sl. L (fl, sl) \<noteq> [])) \<and>
     (\<forall>c. L c \<noteq> [] \<longrightarrow> class_in_tables c)"

lemma heads_ok_empty: "heads_ok empty_control (\<lambda>_. [])"
  by (simp add: heads_ok_def empty_control_def)

lemma heads_okD:
  assumes "heads_ok ctrl L"
  shows "free_list ctrl fl sl = first (L (fl, sl)) 0"
    "sl < 32 \<Longrightarrow> bit (sl_bitmap ctrl fl) sl = (L (fl, sl) \<noteq> [])"
    "fl < 32 \<Longrightarrow> bit (fl_bitmap ctrl) fl = (\<exists>sl. L (fl, sl) \<noteq> [])"
    "L c \<noteq> [] \<Longrightarrow> class_in_tables c"
  using assms unfolding heads_ok_def by (cases c; auto)+

lemma bit_u32_set: "n < 32 \<Longrightarrow> bit (w OR 2 ^ i) n = (bit w n \<or> n = i)" for w :: u32
  by (auto simp: bit_or_iff bit_exp_iff)

lemma bit_u32_clear: "n < 32 \<Longrightarrow> bit (w AND NOT (2 ^ i)) n = (bit w n \<and> n \<noteq> i)" for w :: u32
  by (auto simp: bit_and_iff bit_not_iff bit_exp_iff)

lemma u32_eq_0_iff: "w = 0 \<longleftrightarrow> (\<forall>n < 32. \<not> bit w n)" for w :: u32
  by (auto intro: bit_word_eqI)

lemma push_class_heads:
  assumes "heads_ok ctrl L" "class_in_tables c" "x \<noteq> 0"
  shows "heads_ok (push_class x c ctrl) (L(c := x # L c))"
proof -
  obtain fl sl where c: "c = (fl, sl)" by fastforce
  with assms(2) have "fl < 27" "sl < 16" by (auto simp: class_in_tables_def tlsf_constants)
  with assms show ?thesis
    unfolding heads_ok_def c push_class_def by (auto simp: bit_u32_set)
qed

lemma heads_ok_row: "heads_ok ctrl L \<Longrightarrow> sl_bitmap ctrl fl = 0 \<longleftrightarrow> (\<forall>sl. L (fl, sl) = [])"
proof -
  assume h: "heads_ok ctrl L"
  have "L (fl, sl) = []" if "\<not> sl < 32" for sl
    using heads_okD(4) [OF h, of "(fl, sl)"] that by (auto simp: class_in_tables_def tlsf_constants)
  then show ?thesis using heads_okD(2) [OF h] by (metis u32_eq_0_iff)
qed

lemma pop_class_heads:
  assumes "heads_ok ctrl L" "L c = x # xs" "0 \<notin> set xs"
  shows "heads_ok (pop_class (first xs 0) c ctrl) (L(c := xs))"
proof -
  obtain fl sl where c: "c = (fl, sl)" by fastforce
  have in_tables: "class_in_tables c" using heads_okD(4) [OF assms(1)] assms(2) by simp
  then have r: "fl < 27" "sl < 16" by (auto simp: class_in_tables_def tlsf_constants c)
  note D = heads_okD [OF assms(1)]
  show ?thesis
  proof (cases xs)
    case (Cons y ys)
    then have y: "y \<noteq> 0" using assms(3) by auto
    have pop: "pop_class (first xs 0) c ctrl =
        ctrl\<lparr>free_list := (free_list ctrl)(fl := (free_list ctrl fl)(sl := y))\<rparr>"
      using y by (simp add: Cons c pop_class_def)
    have same: "(L(c := xs)) c' \<noteq> [] \<longleftrightarrow> L c' \<noteq> []" for c'
      using assms(2) Cons by simp
    show ?thesis
      unfolding pop heads_ok_def same
    proof (intro conjI allI impI)
      fix c' show "free_list (ctrl\<lparr>free_list := (free_list ctrl)(fl := (free_list ctrl fl)(sl := y))\<rparr>)
          (fst c') (snd c') = first ((L(c := xs)) c') 0"
        using D(1) by (cases c') (simp add: c Cons)
    qed (use D in simp_all)
  next
    case Nil
    define row where "row = sl_bitmap ctrl fl AND NOT (push_bit sl 1)"
    have row: "bit row sl' \<longleftrightarrow> L (fl, sl') \<noteq> [] \<and> sl' \<noteq> sl" if "sl' < 32" for sl'
      using D(2) [OF that, of fl] that by (simp add: row_def bit_u32_clear)
    have row0: "row = 0 \<longleftrightarrow> (\<forall>sl'. sl' \<noteq> sl \<longrightarrow> L (fl, sl') = [])"
    proof
      assume "row = 0"
      show "\<forall>sl'. sl' \<noteq> sl \<longrightarrow> L (fl, sl') = []"
      proof (intro allI impI)
        fix sl' assume "sl' \<noteq> sl"
        show "L (fl, sl') = []"
        proof (rule ccontr)
          assume ne: "L (fl, sl') \<noteq> []"
          then have "sl' < 32" using D(4) [of "(fl, sl')"] by (simp add: class_in_tables_def tlsf_constants)
          with row ne \<open>sl' \<noteq> sl\<close> \<open>row = 0\<close> show False by auto
        qed
      qed
    qed (auto simp: u32_eq_0_iff row)
    have pop: "pop_class (first xs 0) c ctrl =
        ctrl\<lparr>free_list := (free_list ctrl)(fl := (free_list ctrl fl)(sl := 0)),
             sl_bitmap := (sl_bitmap ctrl)(fl := row),
             fl_bitmap := if row = 0 then fl_bitmap ctrl AND NOT (push_bit fl 1) else fl_bitmap ctrl\<rparr>"
      by (simp add: Nil c pop_class_def row_def)
    have f: "free_list (pop_class (first xs 0) c ctrl) (fst c') (snd c') = first ((L(c := xs)) c') 0" for c'
      unfolding pop using D(1) by (cases c') (simp add: c Nil)
    have s: "bit (sl_bitmap (pop_class (first xs 0) c ctrl) fl') sl' = ((L(c := xs)) (fl', sl') \<noteq> [])"
      if "sl' < 32" for fl' sl'
      unfolding pop using D(2) row that by (simp add: c Nil)
    have g: "bit (fl_bitmap (pop_class (first xs 0) c ctrl)) fl' = (\<exists>sl'. (L(c := xs)) (fl', sl') \<noteq> [])"
      if "fl' < 32" for fl'
    proof (cases "fl' = fl")
      case True
      have "bit (fl_bitmap ctrl) fl" using D(3) [of fl] r assms(2) c by auto
      then show ?thesis
        using that r row0 unfolding pop unfolding c Nil True by (cases "row = 0") (auto simp: bit_u32_clear)
    next
      case False
      then show ?thesis
        using D(3) [OF that] that unfolding pop unfolding c by (simp add: bit_u32_clear)
    qed
    show ?thesis unfolding heads_ok_def using f s g D(4) in_tables by (simp add: Nil)
  qed
qed

lemma ffs32_bit: "x \<noteq> 0 \<Longrightarrow> ffs32 x < 32 \<and> bit x (ffs32 x)"
proof -
  assume "x \<noteq> 0"
  then obtain n where "n < 32" "bit x n" by (auto simp: u32_eq_0_iff)
  then have "List.find (bit x) [0..<32] \<noteq> None"
    by (simp add: find_None_iff) auto
  then obtain i where i: "List.find (bit x) [0..<32] = Some i" by auto
  then have "ffs32 x = i" by (simp add: ffs32_def)
  moreover from i have "i < 32" "bit x i" by (auto simp: find_Some_iff)
  ultimately show ?thesis by simp
qed

lemma bit_u32_from: "n < 32 \<Longrightarrow> bit (w AND push_bit i (- 1)) n = (bit w n \<and> i \<le> n)" for w :: u32
  by (auto simp: bit_and_iff bit_not_iff bit_mask_iff)

lemmas bit_u32_from_mask = bit_u32_from [unfolded push_bit_minus_one_eq_not_mask]

lemma search_suitable_class_None:
  assumes h: "heads_ok ctrl L" and "search_suitable_class ctrl fl sl = None" "class_le (fl, sl) c"
  shows "L c = []"
proof (rule ccontr)
  assume ne: "L c \<noteq> []"
  obtain fl' sl' where c: "c = (fl', sl')" by fastforce
  have r: "fl' < 32" "sl' < 32"
    using heads_okD(4) [OF h ne] by (auto simp: c class_in_tables_def tlsf_constants)
  from assms(2) have "sl_bitmap ctrl fl AND push_bit sl (- 1) = 0"
      "fl_bitmap ctrl AND push_bit (fl + 1) (- 1) = 0"
    by (simp_all add: search_suitable_class_def Let_def split: if_splits)
  then have "\<not> (bit (sl_bitmap ctrl fl) sl' \<and> sl \<le> sl')" "\<not> (bit (fl_bitmap ctrl) fl' \<and> fl + 1 \<le> fl')"
    using bit_u32_from [OF r(2)] bit_u32_from [OF r(1)] by (metis bit_0_eq bot_apply bot_bool_def)+
  moreover have "bit (fl_bitmap ctrl) fl'" using heads_okD(3) [OF h r(1)] ne c by auto
  moreover have "bit (sl_bitmap ctrl fl') sl'" using heads_okD(2) [OF h r(2), of fl'] ne c by auto
  ultimately show False using assms(3) by (auto simp: class_le_def c)
qed

lemma search_suitable_class_Some:
  assumes h: "heads_ok ctrl L" and "search_suitable_class ctrl fl sl = Some c"
  shows "L c \<noteq> []" "class_le (fl, sl) c"
proof -
  let ?row = "sl_bitmap ctrl fl AND push_bit sl (- 1)" and ?rows = "fl_bitmap ctrl AND push_bit (fl + 1) (- 1)"
  have "L c \<noteq> [] \<and> class_le (fl, sl) c"
  proof (cases "?row = 0")
    case False
    then have "ffs32 ?row < 32" "bit ?row (ffs32 ?row)" using ffs32_bit by auto
    moreover have "c = (fl, ffs32 ?row)"
      using assms(2) False by (simp add: search_suitable_class_def Let_def)
    ultimately show ?thesis
      using heads_okD(2) [OF h, of "ffs32 ?row" fl] by (simp add: bit_u32_from_mask class_le_def)
  next
    case True
    then have rows: "?rows \<noteq> 0" and c: "c = (ffs32 ?rows, ffs32 (sl_bitmap ctrl (ffs32 ?rows)))"
      using assms(2) by (auto simp: search_suitable_class_def Let_def split: if_splits)
    then have f: "ffs32 ?rows < 32" "bit ?rows (ffs32 ?rows)" using ffs32_bit by auto
    then have b: "bit (fl_bitmap ctrl) (ffs32 ?rows)" "fl + 1 \<le> ffs32 ?rows"
      by (simp_all add: bit_u32_from_mask)
    then have "sl_bitmap ctrl (ffs32 ?rows) \<noteq> 0"
      using heads_okD(3) [OF h f(1)] heads_ok_row [OF h] by auto
    then have "ffs32 (sl_bitmap ctrl (ffs32 ?rows)) < 32"
        "bit (sl_bitmap ctrl (ffs32 ?rows)) (ffs32 (sl_bitmap ctrl (ffs32 ?rows)))"
      using ffs32_bit by auto
    then show ?thesis
      using heads_okD(2) [OF h] b(2) by (simp add: c class_le_def)
  qed
  then show "L c \<noteq> []" "class_le (fl, sl) c" by auto
qed

end
