(* ===== verification/TlsfChain.thy ===== *)
theory TlsfChain
  imports TlsfLists
begin

chapter \<open>The chain of physical blocks of an arena\<close>

text \<open>
  The abstract state of an arena: the list of its blocks in address order, which tiles the arena
  from the first block to the end. \<open>represents a bs L\<close> says that the headers of the arena
  \<open>a\<close> are those of the blocks \<open>bs\<close>, and that its tables hold the lists \<open>L\<close>. The
  lemmas follow the writes of the allocator: inserting and removing a free block, flipping flags,
  merging two neighbours and splitting one. \<open>arena_ok\<close> is the invariant between calls: a
  block is listed in the class of its size exactly when it is free, no two neighbours are free, and the
  byte counters agree with the live blocks.
\<close>

section \<open>The chain of blocks\<close>

text \<open>A block is its offset, its size, whether it is free, and the flag for the block before it.\<close>

type_synonym block = "nat \<times> nat \<times> bool \<times> bool"

fun chain :: "(nat \<Rightarrow> tlsf_block_header) \<Rightarrow> nat \<Rightarrow> nat \<Rightarrow> block list \<Rightarrow> nat \<Rightarrow> bool" where
  "chain h prev_off off [] e = (off = e)"
| "chain h prev_off off ((x, s, f, p) # bs) e =
     (x = off \<and> 32 \<le> s \<and> 16 dvd s \<and> size_and_flags (h x) = flag_word s f p \<and>
      prev_phys_offset (h x) = prev_off \<and> chain h x (x + s) bs e)"

lemma chain_cong:
  "(\<And>x. x \<in> fst ` set bs \<Longrightarrow> size_and_flags (h x) = size_and_flags (h' x) \<and>
      prev_phys_offset (h x) = prev_phys_offset (h' x)) \<Longrightarrow>
   chain h prev_off off bs e = chain h' prev_off off bs e"
  by (induction h prev_off off bs e rule: chain.induct) auto

lemma chain_other: "x \<notin> fst ` set bs \<Longrightarrow> chain (h(x := b)) prev_off off bs e = chain h prev_off off bs e"
  by (rule chain_cong) auto

lemma chain_end_le: "chain h prev_off off bs e \<Longrightarrow> off \<le> e"
  by (induction h prev_off off bs e rule: chain.induct) auto

lemma chain_bounds:
  "chain h prev_off off bs e \<Longrightarrow> (x, s, f, p) \<in> set bs \<Longrightarrow>
     off \<le> x \<and> x + s \<le> e \<and> 32 \<le> s \<and> 16 dvd s \<and> size_and_flags (h x) = flag_word s f p"
  by (induction h prev_off off bs e rule: chain.induct) (auto dest: chain_end_le)

lemma chain_aligned:
  "chain h prev_off off bs e \<Longrightarrow> (x, s, f, p) \<in> set bs \<Longrightarrow> 16 dvd off \<Longrightarrow> 16 dvd x"
  by (induction h prev_off off bs e rule: chain.induct) auto

lemma chain_append:
  "chain h prev_off off (xs @ (x, s, f, p) # ys) e \<longleftrightarrow>
     chain h prev_off off xs x \<and> chain h (last_of (map fst xs) prev_off) x ((x, s, f, p) # ys) e"
  by (induction h prev_off off xs x rule: chain.induct) auto

lemma chain_distinct: "chain h prev_off off bs e \<Longrightarrow> distinct (map fst bs)"
proof (induction h prev_off off bs e rule: chain.induct)
  case (2 h prev_off off x s f p bs e)
  then have c: "chain h x (x + s) bs e" "32 \<le> s" by auto
  then have "x \<notin> fst ` set bs" by (auto dest!: chain_bounds)
  with 2(1) c show ?case using "2.prems" by simp
qed simp

lemma chain_unique:
  "chain h prev_off off bs e \<Longrightarrow> (x, s, f, p) \<in> set bs \<Longrightarrow> (x, s', f', p') \<in> set bs \<Longrightarrow>
     s = s' \<and> f = f' \<and> p = p'"
  using chain_distinct by (metis eq_key_imp_eq_value prod.inject)

text \<open>Blocks do not overlap.\<close>

lemma chain_disjoint:
  "chain h prev_off off bs e \<Longrightarrow> (x, s, f, p) \<in> set bs \<Longrightarrow> (x', s', f', p') \<in> set bs \<Longrightarrow> x \<noteq> x' \<Longrightarrow>
     x + s \<le> x' \<or> x' + s' \<le> x"
proof (induction h prev_off off bs e rule: chain.induct)
  case (2 h prev_off off y t g q bs e)
  from "2.prems"(1) have c: "chain h y (y + t) bs e" unfolding chain.simps by blast
  show ?case
  proof (cases "(x, s, f, p) = (y, t, g, q)")
    case True
    then have "(x', s', f', p') \<in> set bs" using 2 by auto
    then show ?thesis using chain_bounds [OF c] True by auto
  next
    case False
    then have x: "(x, s, f, p) \<in> set bs" using 2 by auto
    show ?thesis
    proof (cases "(x', s', f', p') = (y, t, g, q)")
      case True
      then show ?thesis using chain_bounds [OF c x] by auto
    next
      case False
      then have "(x', s', f', p') \<in> set bs" using 2 by auto
      moreover have "chain h y (off + t) bs e" using c "2.prems" by simp
      ultimately show ?thesis using "2.IH" x "2.prems" by auto
    qed
  qed
qed simp

section \<open>What an arena represents\<close>

definition represents :: "arena \<Rightarrow> block list \<Rightarrow> class_lists \<Rightarrow> bool" where
  "represents a bs L \<longleftrightarrow>
     16 dvd ar_user_offset a \<and> 0 < ar_user_offset a \<and> arena_end a < 2 ^ 62 \<and> ar_user_size a < 2 ^ 32 \<and>
     chain (ar_heap a) 0 (ar_user_offset a) bs (arena_end a) \<and>
     heads_ok (ar_tlsf a) L \<and>
     (\<forall>c. links (ar_heap a) 0 (L c) 0 \<and> distinct (L c)) \<and>
     (\<forall>c x. x \<in> set (L c) \<longrightarrow> (\<exists>s f p. (x, s, f, p) \<in> set bs \<and> mapping_insert s = c))"

lemma representsD:
  assumes "represents a bs L"
  shows "16 dvd ar_user_offset a" "0 < ar_user_offset a" "arena_end a < 2 ^ 62" "ar_user_size a < 2 ^ 32"
    "chain (ar_heap a) 0 (ar_user_offset a) bs (arena_end a)" "heads_ok (ar_tlsf a) L"
    "links (ar_heap a) 0 (L c) 0" "distinct (L c)"
    "x \<in> set (L c) \<Longrightarrow> \<exists>s f p. (x, s, f, p) \<in> set bs \<and> mapping_insert s = c"
  using assms unfolding represents_def by blast+

lemma represents_block:
  assumes "represents a bs L" "(x, s, f, p) \<in> set bs"
  shows "mapped x a" "x \<noteq> 0" "32 \<le> s" "16 dvd s" "16 dvd x" "x + s \<le> arena_end a" "s < 2 ^ 32"
    "size_and_flags (ar_heap a x) = flag_word s f p"
    "tlsf_block_size (ar_heap a x) = s" "tlsf_block_is_free (ar_heap a x) = f"
    "tlsf_block_prev_is_free (ar_heap a x) = p" "class_in_tables (mapping_insert s)" "4 dvd s"
proof -
  note R = representsD [OF assms(1)]
  have c: "ar_user_offset a \<le> x" "x + s \<le> arena_end a" "32 \<le> s" "16 dvd s"
      "size_and_flags (ar_heap a x) = flag_word s f p"
    using chain_bounds [OF R(5) assms(2)] by auto
  then show "x + s \<le> arena_end a" "32 \<le> s" "16 dvd s" "size_and_flags (ar_heap a x) = flag_word s f p"
    by auto
  show four: "4 dvd s" using dvd_trans [of 4 16 s] c(4) by simp
  show "16 dvd x" using chain_aligned [OF R(5) assms(2) R(1)] .
  show "mapped x a" using c R(2) by (auto simp: mapped_def tlsf_constants)
  show "x \<noteq> 0" using c R(2) by auto
  show "s < 2 ^ 32" using c R(4) by (simp add: arena_end_def)
  then show "class_in_tables (mapping_insert s)" by (rule mapping_insert_in_tables)
  show "tlsf_block_size (ar_heap a x) = s" "tlsf_block_is_free (ar_heap a x) = f"
    "tlsf_block_prev_is_free (ar_heap a x) = p"
    using block_size_flag_word [OF c(5) four] by auto
qed

lemma represents_header: "represents a bs L \<Longrightarrow> (x, s, f, p) \<in> set bs \<Longrightarrow> header_at x a = Inr (ar_heap a x)"
  using represents_block(1) by (auto simp: header_at_def)

lemma represents_listed:
  assumes "represents a bs L" "x \<in> set (L c)" "(x, s, f, p) \<in> set bs"
  shows "c = mapping_insert s"
  using representsD(9) [OF assms(1,2)] chain_unique [OF representsD(5) [OF assms(1)] _ assms(3)] by blast

lemma represents_in_one_list:
  "represents a bs L \<Longrightarrow> x \<in> set (L c) \<Longrightarrow> x \<in> set (L c') \<Longrightarrow> c = c'"
  using represents_listed representsD(9) by metis

text \<open>The sequences of writes of an operation: the headers in \<open>H\<close>, the links among those in \<open>F\<close>.\<close>

definition writes_only :: "nat set \<Rightarrow> nat set \<Rightarrow> arena \<Rightarrow> arena \<Rightarrow> bool" where
  "writes_only H F a a' \<longleftrightarrow>
     (\<forall>x. x \<notin> H \<union> F \<longrightarrow> ar_heap a' x = ar_heap a x) \<and>
     (\<forall>x. x \<notin> F \<longrightarrow> next_free_offset (ar_heap a' x) = next_free_offset (ar_heap a x) \<and>
        prev_free_offset (ar_heap a' x) = prev_free_offset (ar_heap a x)) \<and>
     ar_magic a' = ar_magic a \<and> ar_user_offset a' = ar_user_offset a \<and> ar_user_size a' = ar_user_size a \<and>
     ar_live_bytes a' = ar_live_bytes a \<and> ar_peak_bytes a' = ar_peak_bytes a"

lemma writes_only_refl: "writes_only H F a a"
  by (simp add: writes_only_def)

lemma writes_only_trans:
  "writes_only H F a b \<Longrightarrow> writes_only H F b c \<Longrightarrow> writes_only H F a c"
  by (auto simp: writes_only_def)

lemma writes_only_mono: "writes_only H F a b \<Longrightarrow> H \<subseteq> H' \<Longrightarrow> F \<subseteq> F' \<Longrightarrow> writes_only H' F' a b"
  unfolding writes_only_def by blast

lemma insert_free_block_represents:
  assumes R: "represents a bs L" and b: "(x, s, f, p) \<in> set bs" and new: "\<And>c. x \<notin> set (L c)"
  obtains a' where "insert_free_block x a = Inr a'"
    "represents a' bs (L(mapping_insert s := x # L (mapping_insert s)))"
    "writes_only {} (insert x (\<Union>c. set (L c))) a a'" "ar_journal a' = ar_journal a"
proof -
  define c where "c = mapping_insert s"
  define h where "h = (ar_heap a)(x := (ar_heap a x)\<lparr>next_free_offset := first (L c) 0, prev_free_offset := 0\<rparr>)"
  define h' where "h' = (case L c of [] \<Rightarrow> h | y # _ \<Rightarrow> h(y := (h y)\<lparr>prev_free_offset := x\<rparr>))"
  define a' where "a' = a\<lparr>ar_heap := h', ar_tlsf := push_class x c (ar_tlsf a)\<rparr>"
  note B = represents_block [OF R b]
  have head: "free_list (ar_tlsf a) (fst c) (snd c) = first (L c) 0"
    using heads_okD(1) [OF representsD(6) [OF R]] by simp
  have y: "y \<noteq> 0 \<and> y \<noteq> x \<and> mapped y a" if "L c = y # ys" for y ys
  proof -
    have "y \<in> set (L c)" using that by simp
    then obtain s' f' p' where "(y, s', f', p') \<in> set bs" using representsD(9) [OF R] by blast
    then show ?thesis using represents_block(1,2) [OF R] new [of c] that by auto
  qed
  have "insert_free_block x a = Inr a'"
  proof (cases "L c")
    case Nil
    then show ?thesis
      using B head by (simp add: insert_free_block_def represents_header [OF R b] c_def [symmetric] Let_def
        set_header_def a'_def h'_def h_def)
  next
    case (Cons y ys)
    then show ?thesis
      using B head y [OF Cons]
      by (simp add: insert_free_block_def represents_header [OF R b] c_def [symmetric] Let_def
        set_header_def a'_def h'_def h_def mapped_def arena_end_def)
  qed
  moreover have "represents a' bs (L(c := x # L c))"
    unfolding represents_def
  proof (intro conjI allI impI)
    have "chain (ar_heap a') 0 (ar_user_offset a) bs (arena_end a) \<longleftrightarrow>
        chain (ar_heap a) 0 (ar_user_offset a) bs (arena_end a)"
      by (rule chain_cong) (auto simp: a'_def h'_def h_def split: list.split)
    then show "chain (ar_heap a') 0 (ar_user_offset a') bs (arena_end a')"
      using representsD(5) [OF R] by (simp add: a'_def arena_end_def)
    show "heads_ok (ar_tlsf a') (L(c := x # L c))"
      using push_class_heads [OF representsD(6) [OF R]] B by (simp add: a'_def c_def)
    fix c'
    have old: "links (ar_heap a) 0 (L c') 0" "distinct (L c')" using representsD [OF R] by auto
    show "links (ar_heap a') 0 ((L(c := x # L c)) c') 0"
    proof (cases "c' = c")
      case True
      show ?thesis
      proof (cases "L c")
        case Nil
        then show ?thesis using True by (simp add: a'_def h'_def h_def)
      next
        case (Cons y ys)
        have "links h 0 (L c) 0" using old new [of c] True by (simp add: h_def links_other)
        then have "links h' x (L c) 0" using Cons old(2) True by (simp add: h'_def links_other)
        then show ?thesis using True Cons y [OF Cons] by (simp add: a'_def) (simp add: h'_def h_def)
      qed
    next
      case False
      have "y \<notin> set (L c')" if "L c = y # ys" for y ys
        using represents_in_one_list [OF R, of y c c'] that False by auto
      then show ?thesis
        using old False new [of c'] by (simp add: a'_def h'_def h_def links_other split: list.split)
    qed
    show "distinct ((L(c := x # L c)) c')" using old new [of c] by (cases "c' = c") auto
  next
    fix c' z assume "z \<in> set ((L(c := x # L c)) c')"
    then show "\<exists>s f p. (z, s, f, p) \<in> set bs \<and> mapping_insert s = c'"
      using b representsD(9) [OF R, of z c'] by (auto simp: c_def split: if_splits)
  qed (use representsD [OF R] in \<open>simp_all add: a'_def arena_end_def\<close>)
  moreover have "writes_only {} (insert x (\<Union>c. set (L c))) a a'"
  proof -
    have "y \<in> (\<Union>c. set (L c))" if "L c = y # ys" for y ys using that by (metis UN_I UNIV_I list.set_intros(1))
    then show ?thesis
      by (auto simp: writes_only_def a'_def h'_def h_def split: list.split)
  qed
  moreover have "ar_journal a' = ar_journal a" by (simp add: a'_def)
  ultimately show thesis using that unfolding c_def by blast
qed


lemma links_remove:
  assumes "links h 0 (xs @ x # ys) 0" "distinct (xs @ x # ys)" "0 \<notin> set (xs @ x # ys)"
  defines "h' \<equiv> (if xs = [] then h else h(last xs := (h (last xs))\<lparr>next_free_offset := first ys 0\<rparr>))"
  defines "h'' \<equiv> (case ys of [] \<Rightarrow> h' | y # _ \<Rightarrow> h'(y := (h' y)\<lparr>prev_free_offset := last_of xs 0\<rparr>))"
  shows "links h'' 0 (xs @ ys) 0"
proof -
  from assms(1) have l: "links h 0 xs x" "links h x ys 0" by (auto simp: links_append)
  have "links h' 0 xs (first ys 0)"
  proof (cases xs rule: rev_cases)
    case (snoc zs z)
    then show ?thesis using l(1) assms(2) links_new_next [of h 0 zs z x] by (simp add: h'_def)
  qed simp
  moreover have "links h' x ys 0"
    using l(2) assms(2) by (cases xs rule: rev_cases) (auto simp: h'_def links_other)
  ultimately show ?thesis
  proof (cases ys)
    case (Cons y zs)
    assume l': "links h' 0 xs (first ys 0)" "links h' x ys 0"
    have "y \<notin> set xs" "y \<notin> set zs" using assms(2) Cons by auto
    then show ?thesis
      using l' links_new_prev [of h' x y zs 0 "last_of xs 0"] by (simp add: links_append Cons h''_def links_other)
  qed (simp add: links_append h''_def)
qed

lemma remove_free_block_represents:
  assumes R: "represents a bs L" and b: "(x, s, f, p) \<in> set bs" and listed: "x \<in> set (L (mapping_insert s))"
  obtains a' where "remove_free_block x a = Inr a'"
    "represents a' bs (L(mapping_insert s := remove1 x (L (mapping_insert s))))"
    "writes_only {} (\<Union>c. set (L c)) a a'" "ar_journal a' = ar_journal a"
proof -
  define c where "c = mapping_insert s"
  obtain xs ys where split: "L c = xs @ x # ys" using listed split_list c_def by metis
  define h where "h = (if xs = [] then ar_heap a
    else (ar_heap a)(last xs := (ar_heap a (last xs))\<lparr>next_free_offset := first ys 0\<rparr>))"
  define h' where "h' = (case ys of [] \<Rightarrow> h | y # _ \<Rightarrow> h(y := (h y)\<lparr>prev_free_offset := last_of xs 0\<rparr>))"
  define ctrl where "ctrl = (if xs = [] then pop_class (first ys 0) c (ar_tlsf a) else ar_tlsf a)"
  define a' where "a' = a\<lparr>ar_heap := h'(x := (h' x)\<lparr>next_free_offset := 0, prev_free_offset := 0\<rparr>), ar_tlsf := ctrl\<rparr>"
  note B = represents_block [OF R b]
  have d: "distinct (xs @ x # ys)" using representsD(8) [OF R, of c] split by simp
  have l: "links (ar_heap a) 0 (xs @ x # ys) 0" using representsD(7) [OF R, of c] split by simp
  have m: "y \<noteq> 0 \<and> mapped y a" if "y \<in> set (xs @ x # ys)" for y
  proof -
    have "y \<in> set (L c)" using that split by simp
    then obtain s' f' p' where "(y, s', f', p') \<in> set bs" using representsD(9) [OF R] by blast
    then show ?thesis using represents_block(1,2) [OF R] by auto
  qed
  then have nz: "0 \<notin> set (xs @ x # ys)" by blast
  have hx: "prev_free_offset (ar_heap a x) = last_of xs 0" "next_free_offset (ar_heap a x) = first ys 0"
    using l by (auto simp: links_append)
  have head: "free_list (ar_tlsf a) (fst c) (snd c) = first (L c) 0"
    using heads_okD(1) [OF representsD(6) [OF R]] by simp
  have r1: "remove1 x (L c) = xs @ ys" using d by (simp add: split remove1_append)
  have is_head: "free_list (ar_tlsf a) (fst c) (snd c) = x \<longleftrightarrow> xs = []"
    unfolding head split using d by (cases xs) auto
  have s1: "(if last_of xs 0 \<noteq> 0 then set_header (last_of xs 0) (\<lambda>b. b\<lparr>next_free_offset := first ys 0\<rparr>) a else Inr a)
      = Inr (a\<lparr>ar_heap := h\<rparr>)"
    using m [of "last_of xs 0"] by (cases xs rule: rev_cases) (simp_all add: set_header_def h_def)
  have s2: "(if first ys 0 \<noteq> 0 then set_header (first ys 0) (\<lambda>b. b\<lparr>prev_free_offset := last_of xs 0\<rparr>) (a\<lparr>ar_heap := h\<rparr>)
      else Inr (a\<lparr>ar_heap := h\<rparr>)) = Inr (a\<lparr>ar_heap := h'\<rparr>)"
    using m [of "first ys 0"] by (cases ys) (simp_all add: set_header_def h'_def mapped_def arena_end_def)
  have last: "set_header x (\<lambda>b. b\<lparr>next_free_offset := 0, prev_free_offset := 0\<rparr>)
      (a\<lparr>ar_heap := h', ar_tlsf := ctrl\<rparr>) = Inr a'"
    using B(1) by (simp add: set_header_def a'_def mapped_def arena_end_def)
  have "remove_free_block x a = Inr a'"
    unfolding remove_free_block_def represents_header [OF R b] bind_result_simps Let_def B(9) hx s1 s2
      c_def [symmetric]
    using B(12) is_head last by (simp add: c_def [symmetric] ctrl_def split: if_splits)
  moreover have "represents a' bs (L(c := remove1 x (L c)))"
    unfolding represents_def r1
  proof (intro conjI allI impI)
    have "chain (ar_heap a') 0 (ar_user_offset a) bs (arena_end a) \<longleftrightarrow>
        chain (ar_heap a) 0 (ar_user_offset a) bs (arena_end a)"
      by (rule chain_cong) (auto simp: a'_def h'_def h_def split: list.split)
    then show "chain (ar_heap a') 0 (ar_user_offset a') bs (arena_end a')"
      using representsD(5) [OF R] by (simp add: a'_def arena_end_def)
    have heads: "heads_ok ctrl (L(c := xs @ ys))"
    proof (cases "xs = []")
      case True
      then show ?thesis
        using pop_class_heads [OF representsD(6) [OF R], of c x ys] split nz by (simp add: ctrl_def)
    next
      case False
      then have "first (xs @ ys) 0 = first (L c) 0" "xs @ ys \<noteq> []" "L c \<noteq> []"
        using split by (cases xs; simp)+
      then show ?thesis
        using representsD(6) [OF R] False by (auto simp: heads_ok_def ctrl_def)
    qed
    then show "heads_ok (ar_tlsf a') (L(c := xs @ ys))" by (simp add: a'_def)
    fix c'
    show "distinct ((L(c := xs @ ys)) c')"
      using d representsD(8) [OF R] by (cases "c' = c") auto
    have other: "y \<notin> set (L c')" if "y \<in> set (xs @ x # ys)" "c' \<noteq> c" for y
      using represents_in_one_list [OF R, of y c c'] that split by auto
    show "links (ar_heap a') 0 ((L(c := xs @ ys)) c') 0"
    proof (cases "c' = c")
      case True
      have "links h' 0 (xs @ ys) 0"
        unfolding h'_def h_def by (rule links_remove [OF l d nz])
      then show ?thesis using True d by (simp add: a'_def links_other)
    next
      case False
      have "links h 0 (L c') 0"
        using representsD(7) [OF R, of c'] other [of "last xs"] False by (simp add: h_def links_other)
      then have "links h' 0 (L c') 0"
        using other False by (simp add: h'_def links_other split: list.split)
      then show ?thesis using False other [of x] by (simp add: a'_def links_other)
    qed
  next
    fix c' z assume "z \<in> set ((L(c := xs @ ys)) c')"
    then have "z \<in> set (L c')" using split by (cases "c' = c") auto
    then show "\<exists>s f p. (z, s, f, p) \<in> set bs \<and> mapping_insert s = c'" by (rule representsD(9) [OF R])
  qed (use representsD [OF R] in \<open>simp_all add: a'_def arena_end_def\<close>)
  moreover have "writes_only {} (\<Union>c. set (L c)) a a'"
  proof -
    define U where "U = (\<Union>c. set (L c))"
    have "set (xs @ x # ys) \<subseteq> U" unfolding U_def using split by (metis UN_upper UNIV_I)
    then have "x \<in> U" "xs \<noteq> [] \<Longrightarrow> last xs \<in> U" "\<And>y zs. ys = y # zs \<Longrightarrow> y \<in> U"
      by (auto dest: last_in_set)
    then show ?thesis
      unfolding U_def [symmetric] by (cases ys) (auto simp: writes_only_def a'_def h'_def h_def)
  qed
  moreover have "ar_journal a' = ar_journal a" by (simp add: a'_def)
  ultimately show thesis using that unfolding c_def by blast
qed

section \<open>Editing the chain\<close>

text \<open>The arenas between which an operation leaves the tables and the links as they are.\<close>

definition same_tables :: "arena \<Rightarrow> arena \<Rightarrow> bool" where
  "same_tables a a' \<longleftrightarrow> ar_tlsf a' = ar_tlsf a \<and> ar_journal a' = ar_journal a"

lemma same_tables_refl [simp]: "same_tables a a"
  by (simp add: same_tables_def)

lemma same_tables_trans [trans]: "same_tables a b \<Longrightarrow> same_tables b c \<Longrightarrow> same_tables a c"
  by (simp add: same_tables_def)

lemma represents_new_chain:
  assumes R: "represents a bs L" and W: "writes_only H F a a'" and T: "same_tables a a'"
    and C: "chain (ar_heap a') 0 (ar_user_offset a) bs' (arena_end a)"
    and K: "\<And>x s f p c. x \<in> set (L c) \<Longrightarrow> (x, s, f, p) \<in> set bs \<Longrightarrow> x \<notin> F \<and> (\<exists>f p. (x, s, f, p) \<in> set bs')"
  shows "represents a' bs' L"
proof -
  have s: "ar_user_offset a' = ar_user_offset a" "ar_user_size a' = ar_user_size a" "arena_end a' = arena_end a"
    using W by (auto simp: writes_only_def arena_end_def)
  have l: "links (ar_heap a') 0 (L c) 0" for c
  proof -
    have "x \<notin> F" if "x \<in> set (L c)" for x using K [OF that] representsD(9) [OF R that] by blast
    then have "links (ar_heap a') 0 (L c) 0 = links (ar_heap a) 0 (L c) 0"
      using W by (intro links_cong) (auto simp: writes_only_def)
    then show ?thesis using representsD(7) [OF R] by simp
  qed
  have "\<exists>s f p. (x, s, f, p) \<in> set bs' \<and> mapping_insert s = c" if "x \<in> set (L c)" for x c
    using K [OF that] representsD(9) [OF R that] by blast
  then show ?thesis
    using representsD [OF R] C T l unfolding represents_def s same_tables_def by auto
qed

text \<open>A change of the flags of a block.\<close>

lemma represents_set_flags:
  assumes R: "represents a (xs @ (x, s, f, p) # ys) L"
    and g: "size_and_flags (g (ar_heap a x)) = flag_word s f' p'"
      "prev_phys_offset (g (ar_heap a x)) = prev_phys_offset (ar_heap a x)"
      "next_free_offset (g (ar_heap a x)) = next_free_offset (ar_heap a x)"
      "prev_free_offset (g (ar_heap a x)) = prev_free_offset (ar_heap a x)"
  obtains a' where "set_header x g a = Inr a'" "represents a' (xs @ (x, s, f', p') # ys) L"
    "writes_only {x} {} a a'" "same_tables a a'"
proof -
  define a' where "a' = a\<lparr>ar_heap := (ar_heap a)(x := g (ar_heap a x))\<rparr>"
  note B = represents_block [OF R, of x s f p]
  have "set_header x g a = Inr a'" using B(1) by (simp add: set_header_def a'_def)
  moreover have W: "writes_only {x} {} a a'"
    using g(3,4) by (auto simp: writes_only_def a'_def)
  moreover have T: "same_tables a a'" by (simp add: same_tables_def a'_def)
  moreover have "represents a' (xs @ (x, s, f', p') # ys) L"
  proof (rule represents_new_chain [OF R W T])
    have c: "chain (ar_heap a) 0 (ar_user_offset a) (xs @ (x, s, f, p) # ys) (arena_end a)"
      by (rule representsD(5) [OF R])
    then show "chain (ar_heap a') 0 (ar_user_offset a) (xs @ (x, s, f', p') # ys) (arena_end a)"
      using chain_distinct [OF c] g(1,2) by (auto simp: chain_append a'_def chain_other)
  qed auto
  ultimately show thesis using that by blast
qed

lemma next_phys_block_eq:
  "mapped x a \<Longrightarrow> tlsf_block_size (ar_heap a x) = s \<Longrightarrow> x + s < 2 ^ 64 \<Longrightarrow>
     next_phys_block x a = Inr (if arena_end a \<le> x + s then 0 else x + s)"
  by (simp add: next_phys_block_def header_at_def add64_eq Let_def)

lemma represents_next:
  assumes R: "represents a (xs @ (x, s, f, p) # ys) L"
  shows "next_phys_block x a = Inr (first (map fst ys) 0)" "arena_end a \<le> x + s \<longleftrightarrow> ys = []"
    "ys = (z, t, g, q) # zs \<Longrightarrow> z = x + s"
proof -
  note B = represents_block [OF R, of x s f p]
  have c: "chain (ar_heap a) x (x + s) ys (arena_end a)"
    using representsD(5) [OF R] by (auto simp: chain_append)
  show e: "arena_end a \<le> x + s \<longleftrightarrow> ys = []"
    using c chain_end_le by (cases ys) fastforce+
  show z: "ys = (z, t, g, q) # zs \<Longrightarrow> z = x + s" for z t g q zs
    using c by simp
  have "x + s < 2 ^ 64" using B(6) representsD(3) [OF R] by simp
  with B(1,9) have "next_phys_block x a = Inr (if arena_end a \<le> x + s then 0 else x + s)"
    by (intro next_phys_block_eq) auto
  then show "next_phys_block x a = Inr (first (map fst ys) 0)"
    using e z by (cases ys) (auto split: prod.splits)
qed

definition after_flag :: "(bool \<Rightarrow> bool) \<Rightarrow> block list \<Rightarrow> block list" where
  "after_flag k bs = (case bs of [] \<Rightarrow> [] | (x, s, f, p) # bs \<Rightarrow> (x, s, f, k p) # bs)"

lemma after_flag_simps [simp]:
  "after_flag k [] = []" "after_flag k ((x, s, f, p) # bs) = (x, s, f, k p) # bs"
  by (simp_all add: after_flag_def)

lemma represents_update_after:
  assumes R: "represents a (xs @ (x, s, f, p) # ys) L"
    and g: "\<And>b t h q. size_and_flags b = flag_word t h q \<Longrightarrow> 4 dvd t \<Longrightarrow> size_and_flags (g b) = flag_word t h (k q)"
      "\<And>b. prev_phys_offset (g b) = prev_phys_offset b" "\<And>b. next_free_offset (g b) = next_free_offset b"
      "\<And>b. prev_free_offset (g b) = prev_free_offset b"
  obtains a' where "update_after x g a = Inr a'" "represents a' (xs @ (x, s, f, p) # after_flag k ys) L"
    "writes_only (fst ` set ys) {} a a'" "same_tables a a'"
proof (cases ys)
  case Nil
  have "update_after x g a = Inr a"
    using represents_next(1) [OF R] Nil by (simp add: update_after_def)
  then show thesis using that R Nil by (simp add: writes_only_refl)
next
  case (Cons z zs)
  obtain y t h q where z: "z = (y, t, h, q)" by (cases z)
  have R': "represents a ((xs @ [(x, s, f, p)]) @ (y, t, h, q) # zs) L" using R Cons z by simp
  note B = represents_block [OF R', of y t h q]
  obtain a' where a': "set_header y g a = Inr a'" "represents a' ((xs @ [(x, s, f, p)]) @ (y, t, h, k q) # zs) L"
      "writes_only {y} {} a a'" "same_tables a a'"
    by (rule represents_set_flags [OF R', of g h "k q"]) (use g B in auto)
  have "update_after x g a = Inr a'"
    using represents_next(1) [OF R] Cons z a'(1) B(2) by (simp add: update_after_def)
  moreover have "writes_only (fst ` set ys) {} a a'"
    using writes_only_mono [OF a'(3)] Cons z by simp
  ultimately show thesis using that a' Cons z by simp
qed

text \<open>Two neighbours become one block, and the block behind them learns its new neighbour.\<close>

lemma represents_merge:
  assumes R: "represents a (xs @ (x, s, f, p) # (y, t, g, q) # ys) L"
    and free: "\<And>c. x \<notin> set (L c)" "\<And>c. y \<notin> set (L c)"
    and m: "size_and_flags (m (ar_heap a x)) = flag_word (s + t) f p"
      "prev_phys_offset (m (ar_heap a x)) = prev_phys_offset (ar_heap a x)"
      "next_free_offset (m (ar_heap a x)) = next_free_offset (ar_heap a x)"
      "prev_free_offset (m (ar_heap a x)) = prev_free_offset (ar_heap a x)"
  obtains a' where
    "bind_result (set_header x m a) (update_after x (\<lambda>r. r\<lparr>prev_phys_offset := x\<rparr>)) = Inr a'"
    "represents a' (xs @ (x, s + t, f, p) # ys) L"
    "writes_only (insert x (fst ` set ys)) {} a a'" "same_tables a a'"
proof -
  note B = represents_block [OF R, of x s f p] and B' = represents_block [OF R, of y t g q]
  have R': "represents a ((xs @ [(x, s, f, p)]) @ (y, t, g, q) # ys) L" using R by simp
  have c: "chain (ar_heap a) 0 (ar_user_offset a) (xs @ (x, s, f, p) # (y, t, g, q) # ys) (arena_end a)"
    by (rule representsD(5) [OF R])
  then have y: "y = x + s" by (auto simp: chain_append)
  define a1 where "a1 = a\<lparr>ar_heap := (ar_heap a)(x := m (ar_heap a x))\<rparr>"
  have first: "set_header x m a = Inr a1" using B(1) by (simp add: set_header_def a1_def)
  have "4 dvd s + t" using B(13) B'(13) by simp
  then have size1: "tlsf_block_size (ar_heap a1 x) = s + t"
    using block_size_flag_word(1) m(1) by (simp add: a1_def)
  have nxt: "next_phys_block x a1 = Inr (if arena_end a \<le> y + t then 0 else y + t)"
    using next_phys_block_eq [OF _ size1] B(1) B'(6) representsD(3) [OF R] y
    by (simp add: a1_def mapped_def arena_end_def add.assoc)
  define h where "h = (case ys of [] \<Rightarrow> ar_heap a1
    | (z, _) # _ \<Rightarrow> (ar_heap a1)(z := (ar_heap a1 z)\<lparr>prev_phys_offset := x\<rparr>))"
  define a' where "a' = a\<lparr>ar_heap := h\<rparr>"
  have "update_after x (\<lambda>r. r\<lparr>prev_phys_offset := x\<rparr>) a1 = Inr a'"
  proof (cases ys)
    case Nil
    then have "arena_end a \<le> y + t" using represents_next(2) [OF R'] by simp
    then show ?thesis using nxt Nil by (simp add: update_after_def a'_def h_def a1_def)
  next
    case (Cons z zs)
    obtain z0 u h' r where z: "z = (z0, u, h', r)" by (cases z)
    have "\<not> arena_end a \<le> y + t" "z0 = y + t" using represents_next(2,3) [OF R'] Cons z by auto
    moreover have "mapped z0 a1" "z0 \<noteq> 0"
      using represents_block(1,2) [OF R, of z0 u h' r] Cons z
      by (simp_all add: a1_def mapped_def arena_end_def)
    ultimately show ?thesis
      using nxt Cons z by (simp add: update_after_def a'_def h_def a1_def set_header_def)
  qed
  moreover have W: "writes_only (insert x (fst ` set ys)) {} a a'"
    using m(3,4) by (cases ys) (auto simp: writes_only_def a'_def h_def a1_def)
  moreover have T: "same_tables a a'" by (simp add: same_tables_def a'_def)
  moreover have "represents a' (xs @ (x, s + t, f, p) # ys) L"
  proof (rule represents_new_chain [OF R W T])
    have d: "distinct (map fst xs @ x # y # map fst ys)" using chain_distinct [OF c] by simp
    show "chain (ar_heap a') 0 (ar_user_offset a) (xs @ (x, s + t, f, p) # ys) (arena_end a)"
    proof (cases ys)
      case Nil
      then show ?thesis
        using c d m(1,2) by (simp add: chain_append a'_def h_def a1_def chain_other add.assoc)
    next
      case (Cons z zs)
      obtain z0 u h' r where z: "z = (z0, u, h', r)" by (cases z)
      then have d': "z0 \<notin> fst ` set xs" "z0 \<notin> fst ` set zs" "x \<notin> fst ` set xs" "x \<notin> fst ` set zs" "z0 \<noteq> x"
        using d Cons by auto
      show ?thesis
        using c d' m(1,2) unfolding Cons z
        by (auto simp: chain_append a'_def h_def a1_def chain_other Cons z add.assoc)
    qed
  next
    fix z u h' r c' assume "z \<in> set (L c')" "(z, u, h', r) \<in> set (xs @ (x, s, f, p) # (y, t, g, q) # ys)"
    moreover from this have "z \<noteq> x" "z \<noteq> y" using free [of c'] by auto
    ultimately show "z \<notin> {} \<and> (\<exists>f' p'. (z, u, f', p') \<in> set (xs @ (x, s + t, f, p) # ys))"
      by auto
  qed
  ultimately show thesis using that first by simp
qed

text \<open>A block becomes two.\<close>

lemma represents_split:
  assumes R: "represents a (xs @ (x, s, f, p) # ys) L"
    and free: "\<And>c. x \<notin> set (L c)"
    and w: "32 \<le> w" "16 dvd w" "w + 32 \<le> s"
    and m: "size_and_flags (m (ar_heap a x)) = flag_word w f' p"
      "prev_phys_offset (m (ar_heap a x)) = prev_phys_offset (ar_heap a x)"
      "next_free_offset (m (ar_heap a x)) = next_free_offset (ar_heap a x)"
      "prev_free_offset (m (ar_heap a x)) = prev_free_offset (ar_heap a x)"
    and n: "\<And>b. size_and_flags (n b) = flag_word (s - w) g q" "\<And>b. prev_phys_offset (n b) = x"
    and u: "\<And>b t h q. size_and_flags b = flag_word t h q \<Longrightarrow> 4 dvd t \<Longrightarrow> size_and_flags (u b) = flag_word t h (k q)"
      "\<And>b. prev_phys_offset (u b) = x + w" "\<And>b. next_free_offset (u b) = next_free_offset b"
      "\<And>b. prev_free_offset (u b) = prev_free_offset b"
  obtains a' where
    "bind_result (set_header x m a) (\<lambda>a. bind_result (set_header (x + w) n a) (update_after (x + w) u)) = Inr a'"
    "represents a' (xs @ (x, w, f', p) # (x + w, s - w, g, q) # after_flag k ys) L"
    "writes_only (insert x (fst ` set ys)) {x + w} a a'" "same_tables a a'"
proof -
  note B = represents_block [OF R, of x s f p]
  let ?y = "x + w"
  have c: "chain (ar_heap a) 0 (ar_user_offset a) (xs @ (x, s, f, p) # ys) (arena_end a)"
    by (rule representsD(5) [OF R])
  have y_new: "?y \<notin> fst ` set (xs @ (x, s, f, p) # ys)"
  proof
    assume "?y \<in> fst ` set (xs @ (x, s, f, p) # ys)"
    then obtain t h r where y: "(?y, t, h, r) \<in> set (xs @ (x, s, f, p) # ys)" by force
    have "x + s \<le> ?y \<or> ?y + t \<le> x" by (rule chain_disjoint [OF c _ y]) (use w in auto)
    with w show False by linarith
  qed
  define a1 where "a1 = a\<lparr>ar_heap := (ar_heap a)(x := m (ar_heap a x))\<rparr>"
  define a2 where "a2 = a1\<lparr>ar_heap := (ar_heap a1)(?y := n (ar_heap a1 ?y))\<rparr>"
  have first: "set_header x m a = Inr a1" using B(1) by (simp add: set_header_def a1_def)
  have my: "mapped ?y a1"
    using B(1,6) w by (auto simp: mapped_def a1_def arena_end_def tlsf_constants)
  then have second: "set_header ?y n a1 = Inr a2" by (simp add: set_header_def a2_def)
  have d16: "16 dvd s - w" using B(4) w(2) by (simp add: dvd_diff_nat)
  then have "4 dvd s - w" using dvd_trans [of 4 16 "s - w"] by simp
  then have size2: "tlsf_block_size (ar_heap a2 ?y) = s - w"
    using block_size_flag_word(1) n(1) by (simp add: a2_def)
  have nxt: "next_phys_block ?y a2 = Inr (if arena_end a \<le> x + s then 0 else x + s)"
    using next_phys_block_eq [OF _ size2] my B(6) representsD(3) [OF R] w
    by (simp add: a2_def a1_def mapped_def arena_end_def)
  define h where "h = (case ys of [] \<Rightarrow> ar_heap a2 | (z, _) # _ \<Rightarrow> (ar_heap a2)(z := u (ar_heap a2 z)))"
  define a' where "a' = a\<lparr>ar_heap := h\<rparr>"
  have "update_after ?y u a2 = Inr a'"
  proof (cases ys)
    case Nil
    then have "arena_end a \<le> x + s" using represents_next(2) [OF R] by simp
    then show ?thesis using nxt Nil by (simp add: update_after_def a'_def h_def a2_def a1_def)
  next
    case (Cons z zs)
    obtain z0 t h' r where z: "z = (z0, t, h', r)" by (cases z)
    have "\<not> arena_end a \<le> x + s" "z0 = x + s" using represents_next(2,3) [OF R] Cons z by auto
    moreover have "mapped z0 a2" "z0 \<noteq> 0"
      using represents_block(1,2) [OF R, of z0 t h' r] Cons z
      by (simp_all add: a1_def a2_def mapped_def arena_end_def)
    ultimately show ?thesis
      using nxt Cons z by (simp add: update_after_def a'_def h_def a2_def a1_def set_header_def)
  qed
  moreover have W: "writes_only (insert x (fst ` set ys)) {?y} a a'"
    using m(3,4) u(3,4) w(1) by (cases ys) (auto simp: writes_only_def a'_def h_def a2_def a1_def)
  moreover have T: "same_tables a a'" by (simp add: same_tables_def a'_def)
  moreover have "represents a' (xs @ (x, w, f', p) # (?y, s - w, g, q) # after_flag k ys) L"
  proof (rule represents_new_chain [OF R W T])
    have d: "distinct (map fst xs @ x # map fst ys)" using chain_distinct [OF c] by simp
    have s: "?y + (s - w) = x + s" using w by simp
    show "chain (ar_heap a') 0 (ar_user_offset a) (xs @ (x, w, f', p) # (?y, s - w, g, q) # after_flag k ys)
        (arena_end a)"
    proof (cases ys)
      case Nil
      then show ?thesis
        using c d y_new m(1,2) n w d16 s
        by (simp add: chain_append a'_def h_def a1_def a2_def chain_other)
    next
      case (Cons z zs)
      obtain z0 t h' r where z: "z = (z0, t, h', r)" by (cases z)
      then have d': "z0 \<notin> fst ` set xs" "z0 \<notin> fst ` set zs" "x \<notin> fst ` set xs" "x \<notin> fst ` set zs" "z0 \<noteq> x"
        "?y \<notin> fst ` set xs" "?y \<notin> fst ` set zs" "z0 \<noteq> ?y"
        using d y_new Cons by auto
      have "4 dvd t" using represents_block(13) [OF R, of z0 t h' r] Cons z by simp
      then show ?thesis
        using c d' m(1,2) n u(1,2) w d16 s unfolding Cons z
        by (auto simp: chain_append a'_def h_def a1_def a2_def chain_other Cons z)
    qed
  next
    fix z t h' r c' assume z: "z \<in> set (L c')" "(z, t, h', r) \<in> set (xs @ (x, s, f, p) # ys)"
    have "z \<in> fst ` set (xs @ (x, s, f, p) # ys)" by (rule image_eqI [OF _ z(2)]) simp
    then have "z \<noteq> x" "z \<noteq> ?y" using free [of c'] z(1) y_new by blast+
    note z
    moreover note \<open>z \<noteq> x\<close> \<open>z \<noteq> ?y\<close>
    moreover have "(z, t, h', r) \<in> set ys \<Longrightarrow> \<exists>f p. (z, t, f, p) \<in> set (after_flag k ys)"
      by (cases ys) (auto, blast+)
    ultimately show "z \<notin> {?y} \<and> (\<exists>f'' p'. (z, t, f'', p') \<in>
        set (xs @ (x, w, f', p) # (?y, s - w, g, q) # after_flag k ys))"
      by auto
  qed
  ultimately show thesis using that first second by simp
qed

section \<open>Well-formed arenas\<close>

fun flags_agree :: "bool \<Rightarrow> block list \<Rightarrow> bool" where
  "flags_agree prev_free [] = True"
| "flags_agree prev_free ((x, s, f, p) # bs) = (p = prev_free \<and> flags_agree f bs)"

fun last_free :: "bool \<Rightarrow> block list \<Rightarrow> bool" where
  "last_free prev_free [] = prev_free"
| "last_free prev_free ((x, s, f, p) # bs) = last_free f bs"

lemma flags_agree_append [simp]:
  "flags_agree p0 (xs @ ys) \<longleftrightarrow> flags_agree p0 xs \<and> flags_agree (last_free p0 xs) ys"
  by (induction p0 xs rule: flags_agree.induct) auto

lemma last_free_append [simp]: "last_free p0 (xs @ ys) = last_free (last_free p0 xs) ys"
  by (induction p0 xs rule: last_free.induct) auto

lemma flags_agree_after: "flags_agree p0 bs \<Longrightarrow> flags_agree (k p0) (after_flag k bs)"
  by (cases bs) auto

definition listed :: "block list \<Rightarrow> class_lists \<Rightarrow> bool" where
  "listed bs L = list_all (\<lambda>(x, s, f, p). f \<longleftrightarrow> x \<in> set (L (mapping_insert s))) bs"

lemma listed_simps [simp]:
  "listed [] L" "listed (xs @ ys) L \<longleftrightarrow> listed xs L \<and> listed ys L"
  "listed ((x, s, f, p) # bs) L \<longleftrightarrow> (f \<longleftrightarrow> x \<in> set (L (mapping_insert s))) \<and> listed bs L"
  by (auto simp: listed_def)

lemma listed_after [simp]: "listed (after_flag k bs) L = listed bs L"
  by (cases bs) auto

lemma listed_insert:
  "x \<notin> fst ` set bs \<Longrightarrow> listed bs (L(c := x # L c)) = listed bs L"
  unfolding listed_def by (rule list.pred_cong) force+

lemma listed_remove:
  "x \<notin> fst ` set bs \<Longrightarrow> listed bs (L(c := remove1 x (L c))) = listed bs L"
  by (induction bs) (auto simp: listed_def in_set_remove1 split: if_splits)

definition live_size :: "block list \<Rightarrow> nat" where
  "live_size bs = sum_list (map (\<lambda>(x, s, f, p). if f then 0 else s) bs)"

lemma live_size_simps [simp]:
  "live_size [] = 0" "live_size (xs @ ys) = live_size xs + live_size ys"
  "live_size ((x, s, f, p) # bs) = (if f then 0 else s) + live_size bs"
  by (simp_all add: live_size_def)

lemma live_size_after [simp]: "live_size (after_flag k bs) = live_size bs"
  by (cases bs) auto

definition coalesced :: "block list \<Rightarrow> bool" where
  "coalesced bs = list_all (\<lambda>(x, s, f, p). \<not> (f \<and> p)) bs"

lemma coalesced_simps [simp]:
  "coalesced []" "coalesced (xs @ ys) \<longleftrightarrow> coalesced xs \<and> coalesced ys"
  "coalesced ((x, s, f, p) # bs) \<longleftrightarrow> \<not> (f \<and> p) \<and> coalesced bs"
  by (auto simp: coalesced_def)

definition tidy :: "arena \<Rightarrow> block list \<Rightarrow> class_lists \<Rightarrow> bool" where
  "tidy a bs L \<longleftrightarrow> represents a bs L \<and> flags_agree False bs \<and> listed bs L"

definition arena_ok :: "arena \<Rightarrow> block list \<Rightarrow> bool" where
  "arena_ok a bs \<longleftrightarrow>
     (\<exists>L. tidy a bs L) \<and> coalesced bs \<and> ar_live_bytes a = live_size bs \<and> ar_live_bytes a \<le> ar_peak_bytes a"

lemma represents_not_listed_after_remove:
  assumes R: "represents a bs L" and x: "x \<in> set (L c)"
  shows "x \<notin> set ((L(c := remove1 x (L c))) c')"
  using represents_in_one_list [OF R x, of c'] representsD(8) [OF R, of c] by (cases "c' = c") auto

lemma represents_distinct: "represents a bs L \<Longrightarrow> distinct (map fst bs)"
  using chain_distinct representsD(5) by blast

lemma tlsf_set_size_fields [simp]:
  "prev_phys_offset (tlsf_set_size s f p b) = prev_phys_offset b"
  "next_free_offset (tlsf_set_size s f p b) = next_free_offset b"
  "prev_free_offset (tlsf_set_size s f p b) = prev_free_offset b"
  "prev_phys_offset (tlsf_set_prev_free_flag p b) = prev_phys_offset b"
  "next_free_offset (tlsf_set_prev_free_flag p b) = next_free_offset b"
  "prev_free_offset (tlsf_set_prev_free_flag p b) = prev_free_offset b"
  by (simp_all add: tlsf_set_size_def tlsf_set_prev_free_flag_def)

text \<open>The neighbours of a block that is being freed are absorbed into it.\<close>

lemma absorb_prev_represents:
  assumes R: "represents a (xs @ (x, s, True, p) # ys) L" and p: "p = last_free False xs"
    and l: "listed xs L" and new: "\<And>c. x \<notin> set (L c)"
  obtains a' xs' x' s' p' L' where "absorb_prev_if_free x a = Inr (x', a')"
    "represents a' (xs' @ (x', s', True, p') # ys) L'"
    "\<And>c. x' \<notin> set (L' c)" "\<And>c. set (L' c) \<subseteq> set (L c)"
    "listed xs' L'" "listed ys L \<Longrightarrow> listed ys L'"
    "flags_agree False xs \<Longrightarrow> flags_agree False xs' \<and> p' = last_free False xs'"
    "coalesced xs \<Longrightarrow> coalesced xs' \<and> \<not> p'" "live_size xs' = live_size xs"
    "xs = xs' \<and> x' = x \<and> s' = s \<and> p' = p \<and> \<not> p \<or> xs = xs' @ [(x', s' - s, True, p')] \<and> s \<le> s' \<and> x' + s' = x + s"
    "writes_only (fst ` set (xs @ (x, s, True, p) # ys)) (\<Union>c. set (L c)) a a'" "ar_journal a' = ar_journal a"
proof (cases p)
  case False
  note B = represents_block [OF R, of x s True p]
  have "absorb_prev_if_free x a = Inr (x, a)"
    using B(11) False represents_header [OF R, of x s True p] by (simp add: absorb_prev_if_free_def)
  then show thesis
    by (rule that [of x a xs s p L]) (use R p l new False in \<open>auto simp: writes_only_refl\<close>)
next
  case True
  with p obtain zs y t q where xs: "xs = zs @ [(y, t, True, q)]"
    by (cases xs rule: rev_cases) auto
  have R': "represents a (zs @ (y, t, True, q) # (x, s, True, p) # ys) L" using R xs by simp
  note B = represents_block [OF R, of x s True p] and B' = represents_block [OF R', of y t True q]
  have y_listed: "y \<in> set (L (mapping_insert t))" using l xs by simp
  obtain a1 where a1: "remove_free_block y a = Inr a1"
      "represents a1 (zs @ (y, t, True, q) # (x, s, True, p) # ys)
         (L(mapping_insert t := remove1 y (L (mapping_insert t))))" (is "represents a1 _ ?L")
      "writes_only {} (\<Union>c. set (L c)) a a1" "ar_journal a1 = ar_journal a"
    by (rule remove_free_block_represents [OF R', of y t True q]) (use y_listed in auto)
  note B1 = represents_block [OF a1(2), of x s True p] and B1' = represents_block [OF a1(2), of y t True q]
  have sub: "set (?L c) \<subseteq> set (L c)" for c using set_remove1_subset [of y "L c"] by auto
  have y_new: "y \<notin> set (?L c)" for c by (rule represents_not_listed_after_remove [OF R' y_listed])
  have x_new: "x \<notin> set (?L c)" for c using new sub by blast
  have four: "4 dvd t + s" using B1(13) B1'(13) by simp
  have add: "add64 t s = t + s"
    using B1(7) B1'(7) by (simp add: add64_eq)
  obtain a' where a': "bind_result (set_header y (tlsf_set_size (add64 t s) True q) a1)
        (update_after y (\<lambda>r. r\<lparr>prev_phys_offset := y\<rparr>)) = Inr a'"
      "represents a' (zs @ (y, t + s, True, q) # ys) ?L"
      "writes_only (insert y (fst ` set ys)) {} a1 a'" "same_tables a1 a'"
    by (rule represents_merge [OF a1(2) y_new x_new, of "tlsf_set_size (add64 t s) True q"])
      (simp_all add: four add del: fun_upd_apply)
  have prev: "prev_phys_block x a = Inr y"
    using representsD(5) [OF R'] represents_header [OF R, of x s True p]
    by (auto simp: prev_phys_block_def chain_append)
  have d: "distinct (map fst (zs @ (y, t, True, q) # (x, s, True, p) # ys))" by (rule represents_distinct [OF R'])
  have "absorb_prev_if_free x a = Inr (y, a')"
    using True B B' B1 B1' a1(1) a'(1) prev represents_header [OF R, of x s True p] represents_header [OF R', of y t True q]
      represents_header [OF a1(2), of x s True p] represents_header [OF a1(2), of y t True q]
    by (simp add: absorb_prev_if_free_def bind_result_eq_Inr)
  then show thesis
  proof (rule that [of y a' zs "t + s" q ?L])
    show "represents a' (zs @ (y, t + s, True, q) # ys) ?L" by (rule a'(2))
    show "listed zs ?L" using l xs d by (simp add: listed_remove)
    show "listed ys L \<Longrightarrow> listed ys ?L" using d by (simp add: listed_remove)
    show "writes_only (fst ` set (xs @ (x, s, True, p) # ys)) (\<Union>c. set (L c)) a a'"
      by (rule writes_only_trans [OF writes_only_mono [OF a1(3)] writes_only_mono [OF a'(3)]]) (auto simp: xs)
    show "ar_journal a' = ar_journal a" using a1(4) a'(4) by (simp add: same_tables_def)
    have "x = y + t" using representsD(5) [OF R'] by (auto simp: chain_append)
    then show "xs = zs \<and> y = x \<and> t + s = s \<and> q = p \<and> \<not> p \<or>
      xs = zs @ [(y, t + s - s, True, q)] \<and> s \<le> t + s \<and> y + (t + s) = x + s" using xs by simp
  qed (use y_new sub xs in auto)
qed

end
