(* ===== verification/TlsfOps.thy ===== *)
theory TlsfOps
  imports TlsfChain
begin

chapter \<open>The operations of the TLSF allocator keep its invariant\<close>

text \<open>
  Each operation of \<open>Tlsf\<close> on an arena that satisfies \<open>arena_ok\<close>: it does not run into
  undefined behaviour (every offset it dereferences is the header of a block), what it does to the
  list of blocks, and which headers it writes.
\<close>

lemmas [trans] = writes_only_trans

lemma after_flag_offsets [simp]: "map fst (after_flag k bs) = map fst bs" "fst ` set (after_flag k bs) = fst ` set bs"
  by (cases bs; auto)+

lemma absorb_next_represents:
  assumes R: "represents a (xs @ (x, s, True, p) # ys) L"
    and l: "listed ys L" and new: "\<And>c. x \<notin> set (L c)"
    and agree: "flags_agree f0 ys" and coal: "coalesced ys"
  obtains a' s' ys' L' where "absorb_next_if_free x a = Inr a'"
    "represents a' (xs @ (x, s', True, p) # ys') L'"
    "\<And>c. x \<notin> set (L' c)" "\<And>c. set (L' c) \<subseteq> set (L c)"
    "listed xs L \<Longrightarrow> listed xs L'" "listed ys' L'"
    "flags_agree True (after_flag (\<lambda>_. True) ys')" "coalesced (after_flag (\<lambda>_. True) ys')"
    "live_size ys' = live_size ys"
    "ys = ys' \<and> s' = s \<or> (\<exists>r. ys = (x + s, s' - s, True, r) # ys' \<and> s \<le> s')"
    "writes_only (fst ` set (xs @ (x, s, True, p) # ys)) (\<Union>c. set (L c)) a a'" "ar_journal a' = ar_journal a"
proof (cases "\<exists>z u r ws. ys = (z, u, True, r) # ws")
  case False
  note B = represents_block [OF R, of x s True p]
  have "absorb_next_if_free x a = Inr a"
  proof (cases ys)
    case Nil
    then show ?thesis using represents_next(1) [OF R] by (simp add: absorb_next_if_free_def)
  next
    case (Cons z ws)
    with False obtain z0 u r where z: "z = (z0, u, False, r)" by (cases z) auto
    have "header_at z0 a = Inr (ar_heap a z0)" "\<not> tlsf_block_is_free (ar_heap a z0)" "z0 \<noteq> 0"
      using represents_header [OF R, of z0 u False r] represents_block(2,10) [OF R, of z0 u False r] Cons z by auto
    then show ?thesis using represents_next(1) [OF R] Cons z by (simp add: absorb_next_if_free_def)
  qed
  then show thesis
  proof (rule that [of a s ys L])
    show "flags_agree True (after_flag (\<lambda>_. True) ys)" using flags_agree_after [OF agree, of "\<lambda>_. True"] by simp
    show "coalesced (after_flag (\<lambda>_. True) ys)" using False coal by (cases ys) auto
  qed (use R new l in \<open>auto simp: writes_only_refl\<close>)
next
  case True
  then obtain z u r ws where ys: "ys = (z, u, True, r) # ws" by blast
  have R': "represents a ((xs @ [(x, s, True, p)]) @ (z, u, True, r) # ws) L" using R ys by simp
  note B = represents_block [OF R, of x s True p] and B' = represents_block [OF R', of z u True r]
  have z_listed: "z \<in> set (L (mapping_insert u))" using l ys by simp
  obtain a1 where a1: "remove_free_block z a = Inr a1"
      "represents a1 (xs @ (x, s, True, p) # (z, u, True, r) # ws)
         (L(mapping_insert u := remove1 z (L (mapping_insert u))))" (is "represents a1 _ ?L")
      "writes_only {} (\<Union>c. set (L c)) a a1" "ar_journal a1 = ar_journal a"
    by (rule remove_free_block_represents [OF R', of z u True r]) (use z_listed in auto)
  note B1 = represents_block [OF a1(2), of x s True p] and B1' = represents_block [OF a1(2), of z u True r]
  have sub: "set (?L c) \<subseteq> set (L c)" for c using set_remove1_subset [of z "L c"] by auto
  have z_new: "z \<notin> set (?L c)" for c by (rule represents_not_listed_after_remove [OF R' z_listed])
  have x_new: "x \<notin> set (?L c)" for c using new sub by blast
  have four: "4 dvd s + u" using B1(13) B1'(13) by simp
  have add: "add64 s u = s + u" using B1(7) B1'(7) by (simp add: add64_eq)
  obtain a' where a': "bind_result (set_header x (tlsf_set_size (add64 s u) True p) a1)
        (update_after x (\<lambda>r. r\<lparr>prev_phys_offset := x\<rparr>)) = Inr a'"
      "represents a' (xs @ (x, s + u, True, p) # ws) ?L"
      "writes_only (insert x (fst ` set ws)) {} a1 a'" "same_tables a1 a'"
    by (rule represents_merge [OF a1(2) x_new z_new, of "tlsf_set_size (add64 s u) True p"])
      (simp_all add: four add del: fun_upd_apply)
  have d: "distinct (map fst ((xs @ [(x, s, True, p)]) @ (z, u, True, r) # ws))" by (rule represents_distinct [OF R'])
  have "absorb_next_if_free x a = Inr a'"
    using B B' B1 B1' a1(1) a'(1) represents_next(1) [OF R] ys represents_header [OF R', of z u True r]
      represents_header [OF a1(2), of x s True p] represents_header [OF a1(2), of z u True r]
    by (simp add: absorb_next_if_free_def)
  then show thesis
  proof (rule that [of a' "s + u" ws ?L])
    show "represents a' (xs @ (x, s + u, True, p) # ws) ?L" by (rule a'(2))
    show "listed ws ?L" using l ys d by (simp add: listed_remove)
    show "listed xs L \<Longrightarrow> listed xs ?L" using d by (simp add: listed_remove)
    have "flags_agree True ws" using agree ys by simp
    then show "flags_agree True (after_flag (\<lambda>_. True) ws)" "coalesced (after_flag (\<lambda>_. True) ws)"
      using flags_agree_after coal ys by (cases ws; auto)+
    show "writes_only (fst ` set (xs @ (x, s, True, p) # ys)) (\<Union>c. set (L c)) a a'"
      by (rule writes_only_trans [OF writes_only_mono [OF a1(3)] writes_only_mono [OF a'(3)]]) (auto simp: ys)
    show "ar_journal a' = ar_journal a" using a1(4) a'(4) by (simp add: same_tables_def)
    have "z = x + s" using represents_next(3) [OF R ys] .
    then show "ys = ws \<and> s + u = s \<or> (\<exists>r. ys = (x + s, s + u - s, True, r) # ws \<and> s \<le> s + u)"
      using ys by simp
  qed (use x_new sub ys in auto)
qed

lemma listedD: "listed bs L \<Longrightarrow> (x, s, f, p) \<in> set bs \<Longrightarrow> f \<longleftrightarrow> x \<in> set (L (mapping_insert s))"
  by (auto simp: listed_def list_all_iff)

definition live_blocks :: "block list \<Rightarrow> (nat \<times> nat) set" where
  "live_blocks bs = {(x, s). \<exists>p. (x, s, False, p) \<in> set bs}"

lemma live_blocks_simps [simp]:
  "live_blocks [] = {}" "live_blocks (xs @ ys) = live_blocks xs \<union> live_blocks ys"
  "live_blocks ((x, s, f, p) # bs) = (if f then {} else {(x, s)}) \<union> live_blocks bs"
  by (auto simp: live_blocks_def)

lemma live_blocks_after [simp]: "live_blocks (after_flag k bs) = live_blocks bs"
  by (cases bs) auto

lemma live_size_le: "chain h p off bs e \<Longrightarrow> live_size bs \<le> e - off \<and> off \<le> e"
proof (induction h p off bs e rule: chain.induct)
  case (2 h prev_off off x s f p bs e)
  then have "chain h x (x + s) bs e" "x = off" by auto
  with 2 have "live_size bs \<le> e - (off + s) \<and> off + s \<le> e" by auto
  then show ?case by auto
qed simp

lemma tlsf_deallocate_tidy:
  assumes ok: "arena_ok a bs" and b: "(x, s) \<in> live_blocks bs"
  obtains a' bs' where "tlsf_deallocate (x + 16) a = Inr a'" "arena_ok a' bs'"
    "live_blocks bs' = live_blocks bs - {(x, s)}" "ar_live_bytes a' + s = ar_live_bytes a"
    "\<And>z. z \<notin> fst ` set bs \<Longrightarrow> ar_heap a' z = ar_heap a z"
    "\<And>z t. (z, t) \<in> live_blocks bs - {(x, s)} \<Longrightarrow>
       next_free_offset (ar_heap a' z) = next_free_offset (ar_heap a z) \<and>
       prev_free_offset (ar_heap a' z) = prev_free_offset (ar_heap a z)"
proof -
  obtain L where T: "tidy a bs L" using ok by (auto simp: arena_ok_def)
  obtain p xs ys where bs: "bs = xs @ (x, s, False, p) # ys"
    using b by (auto simp: live_blocks_def dest: split_list)
  have R0: "represents a (xs @ (x, s, False, p) # ys) L" using T unfolding tidy_def bs by blast
  note B0 = represents_block [OF R0, of x s False p]
  have l: "listed xs L" "listed ys L" and x_not: "x \<notin> set (L (mapping_insert s))"
    and agree: "flags_agree False xs" "p = last_free False xs" "flags_agree False ys"
    using T bs by (auto simp: tidy_def)
  have coal: "coalesced xs" "coalesced ys" using ok bs by (auto simp: arena_ok_def)
  have new: "x \<notin> set (L c)" for c
    using represents_listed [OF R0, of x c s False p] x_not by auto
  define a0 where "a0 = journal_begin tlsf_free_op x (size_and_flags (ar_heap a x)) 0 a"
  have "represents a0 (xs @ (x, s, False, p) # ys) L"
    using R0 by (simp add: represents_def a0_def journal_begin_def arena_end_def)
  then obtain a1 where a1: "set_header x (tlsf_set_size s True p) a0 = Inr a1"
      "represents a1 (xs @ (x, s, True, p) # ys) L" "writes_only {x} {} a0 a1" "same_tables a0 a1"
    by (rule represents_set_flags [where g = "tlsf_set_size s True p"]) (use B0(13) in simp_all)
  show thesis
  proof (rule absorb_prev_represents [OF a1(2) agree(2) l(1) new])
    fix a2 xs' x' s' p' L'
    assume a2: "absorb_prev_if_free x a1 = Inr (x', a2)" "represents a2 (xs' @ (x', s', True, p') # ys) L'"
      and new': "\<And>c. x' \<notin> set (L' c)" and sub': "\<And>c. set (L' c) \<subseteq> set (L c)"
      and l': "listed xs' L'" "listed ys L \<Longrightarrow> listed ys L'"
      and agree': "flags_agree False xs \<Longrightarrow> flags_agree False xs' \<and> p' = last_free False xs'"
      and coal': "coalesced xs \<Longrightarrow> coalesced xs' \<and> \<not> p'" and live': "live_size xs' = live_size xs"
      and shape': "xs = xs' \<and> x' = x \<and> s' = s \<and> p' = p \<and> \<not> p \<or>
        xs = xs' @ [(x', s' - s, True, p')] \<and> s \<le> s' \<and> x' + s' = x + s"
      and w': "writes_only (fst ` set (xs @ (x, s, True, p) # ys)) (\<Union>c. set (L c)) a1 a2"
        "ar_journal a2 = ar_journal a1"
    show thesis
    proof (rule absorb_next_represents [OF a2(2) l'(2) [OF l(2)] new' agree(3) coal(2)])
      fix a3 s'' ys' L''
      assume a3: "absorb_next_if_free x' a2 = Inr a3" "represents a3 (xs' @ (x', s'', True, p') # ys') L''"
        and new'': "\<And>c. x' \<notin> set (L'' c)" and sub'': "\<And>c. set (L'' c) \<subseteq> set (L' c)"
        and l'': "listed xs' L' \<Longrightarrow> listed xs' L''" "listed ys' L''"
        and agree'': "flags_agree True (after_flag (\<lambda>_. True) ys')"
        and coal'': "coalesced (after_flag (\<lambda>_. True) ys')" and live'': "live_size ys' = live_size ys"
        and shape'': "ys = ys' \<and> s'' = s' \<or> (\<exists>r. ys = (x' + s', s'' - s', True, r) # ys' \<and> s' \<le> s'')"
        and w'': "writes_only (fst ` set (xs' @ (x', s', True, p') # ys)) (\<Union>c. set (L' c)) a2 a3"
          "ar_journal a3 = ar_journal a2"
      obtain a4 where a4: "insert_free_block x' a3 = Inr a4"
          "represents a4 (xs' @ (x', s'', True, p') # ys')
             (L''(mapping_insert s'' := x' # L'' (mapping_insert s'')))" (is "represents a4 _ ?L4")
          "writes_only {} (insert x' (\<Union>c. set (L'' c))) a3 a4" "ar_journal a4 = ar_journal a3"
        by (rule insert_free_block_represents [OF a3(2), of x' s'' True p']) (use new'' in auto)
      obtain a5 where a5: "update_after x' (tlsf_set_prev_free_flag True) a4 = Inr a5"
          "represents a5 (xs' @ (x', s'', True, p') # after_flag (\<lambda>_. True) ys') ?L4"
          "writes_only (fst ` set ys') {} a4 a5" "same_tables a4 a5"
        by (rule represents_update_after [OF a4(2), of "tlsf_set_prev_free_flag True" "\<lambda>_. True"])
          (auto simp: set_prev_free_flag_word simp del: fun_upd_apply)
      define a' where "a' = journal_end (a5\<lparr>ar_live_bytes := sub64 (ar_live_bytes a5) s\<rparr>)"
      define bs' where "bs' = xs' @ (x', s'', True, p') # after_flag (\<lambda>_. True) ys'"
      have "tlsf_deallocate (x + 16) a = Inr a'"
        using B0(1,2,9,10,11) a1(1) a2(1) a3(1) a4(1) a5(1)
        by (simp add: tlsf_deallocate_def tlsf_block_offset_from_payload_def tlsf_constants header_at_def
          a0_def Let_def a'_def)
      moreover have R': "represents a' bs' ?L4"
        using a5(2) unfolding represents_def
        by (simp add: a'_def bs'_def journal_end_def arena_end_def del: fun_upd_apply)
      have d: "distinct (map fst bs')" by (rule represents_distinct [OF R'])
      have lives: "live_blocks xs' = live_blocks xs" "live_blocks ys' = live_blocks ys"
        using shape' shape'' by auto
      have U: "writes_only (fst ` set bs) (insert x' (\<Union>c. set (L c))) a a5" (is "writes_only ?H ?F a a5")
      proof -
        have sub: "set xs' \<subseteq> set xs" "set ys' \<subseteq> set ys" "x' \<in> ?H" using shape' shape'' bs by auto
        have starts': "fst ` set (xs' @ (x', s', True, p') # ys) \<subseteq> ?H"
          using sub(1,3) by (auto simp: bs)
        have un: "(\<Union>c. set (L' c)) \<subseteq> (\<Union>c. set (L c))" "(\<Union>c. set (L'' c)) \<subseteq> (\<Union>c. set (L' c))"
          by (rule UN_mono [OF subset_refl sub'], rule UN_mono [OF subset_refl sub''])
        have "writes_only ?H ?F a a0" by (simp add: writes_only_def a0_def journal_begin_def)
        also have "writes_only ?H ?F a0 a1" by (rule writes_only_mono [OF a1(3)]) (auto simp: bs)
        also have "writes_only ?H ?F a1 a2" by (rule writes_only_mono [OF w'(1)]) (auto simp: bs)
        also have "writes_only ?H ?F a2 a3"
          by (rule writes_only_mono [OF w''(1)]) (use starts' un(1) in blast)+
        also have "writes_only ?H ?F a3 a4"
          by (rule writes_only_mono [OF a4(3) empty_subsetI insert_mono [OF subset_trans [OF un(2,1)]]])
        also have "writes_only ?H ?F a4 a5"
          by (rule writes_only_mono [OF a5(3)]) (use sub in \<open>auto simp: bs\<close>)
        finally show ?thesis .
      qed
      have small: "live_size bs < 2 ^ 62"
        using live_size_le [OF representsD(5) [OF R0]] representsD(3) [OF R0] unfolding bs by linarith
      have bytes: "ar_live_bytes a5 = live_size bs" "ar_peak_bytes a5 = ar_peak_bytes a"
        using U ok by (auto simp: writes_only_def arena_ok_def)
      have live_bs': "live_size bs' + s = live_size bs"
        using live' live'' by (simp add: bs bs'_def)
      have a'_live: "ar_live_bytes a' = live_size bs'"
        using bytes small live_bs' by (simp add: a'_def journal_end_def sub64_eq)
      moreover have "arena_ok a' bs'"
      proof -
        have "tidy a' bs' ?L4"
          unfolding tidy_def using R' l'' l' agree' agree agree'' d
          by (simp add: bs'_def listed_insert del: fun_upd_apply) simp
        moreover have "coalesced bs'" using coal' coal coal'' by (simp add: bs'_def)
        moreover have "ar_live_bytes a' \<le> ar_peak_bytes a'"
          using a'_live live_bs' bytes ok by (simp add: a'_def journal_end_def arena_ok_def)
        ultimately show ?thesis using a'_live by (auto simp: arena_ok_def)
      qed
      moreover have "live_blocks bs' = live_blocks bs - {(x, s)}"
      proof -
        have "distinct (map fst bs)" using represents_distinct [OF R0] bs by simp
        then have "(x, s) \<notin> live_blocks xs" "(x, s) \<notin> live_blocks ys"
          by (force simp: bs live_blocks_def)+
        then show ?thesis using lives by (auto simp: bs bs'_def)
      qed
      moreover have "ar_live_bytes a' + s = ar_live_bytes a"
        using a'_live live_bs' ok by (simp add: arena_ok_def)
      moreover have in_bs: "insert x' (\<Union>c. set (L c)) \<subseteq> fst ` set bs"
      proof -
        have "set (L c) \<subseteq> fst ` set bs" for c
          using representsD(9) [OF R0, of _ c] bs by force
        moreover have "x' \<in> fst ` set bs" using shape' bs by auto
        ultimately show ?thesis by blast
      qed
      have "ar_heap a' z = ar_heap a z" if "z \<notin> fst ` set bs" for z
      proof -
        have "z \<notin> fst ` set bs \<union> insert x' (\<Union>c. set (L c))" using that in_bs by blast
        then show ?thesis using U by (simp add: writes_only_def a'_def journal_end_def)
      qed
      moreover have "next_free_offset (ar_heap a' z) = next_free_offset (ar_heap a z) \<and>
       prev_free_offset (ar_heap a' z) = prev_free_offset (ar_heap a z)" if zt: "(z, t) \<in> live_blocks bs - {(x, s)}" for z t
      proof -
        obtain q where z: "(z, t, False, q) \<in> set (xs @ (x, s, False, p) # ys)"
          using zt unfolding live_blocks_def bs by blast
        note unique = chain_unique [OF representsD(5) [OF R0] z]
        have "z \<noteq> x" using unique [of s False p] zt by auto
        moreover have "z \<noteq> x'" if "x' \<noteq> x"
          using unique [of "s' - s" True p'] shape' that by auto
        moreover have "z \<notin> set (L c)" for c
        proof
          assume "z \<in> set (L c)"
          then have "c = mapping_insert t" by (rule represents_listed [OF R0 _ z])
          moreover have "listed (xs @ (x, s, False, p) # ys) L" using l x_not by simp
          ultimately show False
            using \<open>z \<in> set (L c)\<close> listedD [OF _ z] by simp
        qed
        ultimately have "z \<notin> insert x' (\<Union>c. set (L c))" by auto
        then show ?thesis using U by (simp add: writes_only_def a'_def journal_end_def)
      qed
      ultimately show thesis using that by blast
    qed
  qed
qed

lemma listed_insert_into:
  "listed bs L \<Longrightarrow> x \<notin> fst ` set bs \<Longrightarrow> listed bs (L(c := x # L c))"
  by (simp add: listed_insert)

text \<open>The tail of a block that is not free becomes a free block.\<close>

lemma split_block_represents:
  assumes R: "represents a (xs @ (x, s, False, p) # ys) L" and new: "\<And>c. x \<notin> set (L c)"
    and w: "32 \<le> w" "16 dvd w" "w + 32 \<le> s"
  obtains a' where "split_block_if_possible x w a = Inr (x + w, a')"
    "represents a' (xs @ (x, w, False, p) # (x + w, s - w, True, False) # after_flag (\<lambda>_. True) ys)
       (L(mapping_insert (s - w) := (x + w) # L (mapping_insert (s - w))))"
    "writes_only (insert x (fst ` set ys)) (insert (x + w) (\<Union>c. set (L c))) a a'" "ar_journal a' = ar_journal a"
proof -
  note B = represents_block [OF R, of x s False p]
  have four: "4 dvd w" using dvd_trans [of 4 16 w] w(2) by simp
  have "16 dvd s - w" using B(4) w(2) by (simp add: dvd_diff_nat)
  then have four': "4 dvd s - w" using dvd_trans [of 4 16 "s - w"] by simp
  have big: "\<not> s - w < 32" using w(3) by linarith
  have rem: "sub64 s w = s - w" using w(3) B(7) by (simp add: sub64_eq)
  let ?m = "tlsf_set_size w False p"
  let ?n = "\<lambda>r. (tlsf_set_size (s - w) True False (r\<lparr>prev_phys_offset := x\<rparr>))\<lparr>next_free_offset := 0, prev_free_offset := 0\<rparr>"
  let ?u = "\<lambda>r. tlsf_set_prev_free_flag True (r\<lparr>prev_phys_offset := x + w\<rparr>)"
  obtain a1 where a1:
      "bind_result (set_header x ?m a) (\<lambda>a. bind_result (set_header (x + w) ?n a) (update_after (x + w) ?u)) = Inr a1"
      "represents a1 (xs @ (x, w, False, p) # (x + w, s - w, True, False) # after_flag (\<lambda>_. True) ys) L"
      "writes_only (insert x (fst ` set ys)) {x + w} a a1" "same_tables a a1"
    by (rule represents_split [OF R new w, of ?m False ?n True False ?u "\<lambda>_. True"])
      (use four four' in \<open>simp_all add: set_prev_free_flag_word\<close>)
  have w_new: "x + w \<notin> set (L c)" for c
  proof
    assume "x + w \<in> set (L c)"
    then obtain t f q where "(x + w, t, f, q) \<in> set (xs @ (x, s, False, p) # ys)"
      using representsD(9) [OF R] by blast
    then have "x + s \<le> x + w \<or> x + w + t \<le> x"
      by (rule chain_disjoint [OF representsD(5) [OF R], rotated]) (use w in auto)
    then show False using w by linarith
  qed
  obtain a' where a': "insert_free_block (x + w) a1 = Inr a'"
      "represents a' (xs @ (x, w, False, p) # (x + w, s - w, True, False) # after_flag (\<lambda>_. True) ys)
         (L(mapping_insert (s - w) := (x + w) # L (mapping_insert (s - w))))"
      "writes_only {} (insert (x + w) (\<Union>c. set (L c))) a1 a'" "ar_journal a' = ar_journal a1"
    by (rule insert_free_block_represents [OF a1(2), of "x + w" "s - w" True False]) (use w_new in auto)
  have "split_block_if_possible x w a = Inr (x + w, a')"
    using B(9,10,11) big a1(1) a'(1) represents_header [OF R, of x s False p]
    by (simp add: split_block_if_possible_def Let_def rem tlsf_constants bind_result_eq_Inr) blast
  moreover have "writes_only (insert x (fst ` set ys)) (insert (x + w) (\<Union>c. set (L c))) a a'"
    by (rule writes_only_trans [OF writes_only_mono [OF a1(3)] writes_only_mono [OF a'(3)]]) auto
  moreover have "ar_journal a' = ar_journal a" using a1(4) a'(4) by (simp add: same_tables_def)
  ultimately show thesis using that a'(2) by blast
qed

lemma occupy_block_represents:
  assumes R: "represents a (xs @ (x, s, f, p) # ys) L" and new: "\<And>c. x \<notin> set (L c)"
    and n: "32 \<le> n" "16 dvd n" "n < 2 ^ 63"
    and l: "listed xs L" "listed ys L" and agree: "flags_agree True ys" and coal: "coalesced ys"
  obtains a' s' ys' L' where
    "occupy_block x n a = Inr (x + 16,
       a'\<lparr>ar_live_bytes := add64 (ar_live_bytes a) s',
          ar_peak_bytes := max (ar_peak_bytes a) (add64 (ar_live_bytes a) s')\<rparr>)"
    "represents a' (xs @ (x, s', False, p) # ys') L'" "min n s \<le> s'" "s' \<le> s" "s' < n + 32"
    "\<And>c. x \<notin> set (L' c)" "listed xs L'" "listed ys' L'" "flags_agree False ys'" "coalesced ys'"
    "live_blocks ys' = live_blocks ys" "live_size ys' = live_size ys"
    "fst ` set ys' = ({x + s'} - {x + s}) \<union> fst ` set ys"
    "writes_only (insert x (fst ` set ys)) (({x + s'} - {x + s}) \<union> (\<Union>c. set (L c))) a a'"
    "ar_journal a' = ar_journal a"
proof -
  note B = represents_block [OF R, of x s f p]
  obtain a1 where a1: "set_header x (tlsf_set_size s False p) a = Inr a1"
      "represents a1 (xs @ (x, s, False, p) # ys) L" "writes_only {x} {} a a1" "same_tables a a1"
    by (rule represents_set_flags [OF R, of "tlsf_set_size s False p"]) (use B(13) in simp_all)
  have n64: "add64 n 32 = n + 32" using n(3) by (simp add: add64_eq)
  have head: "header_at x a = Inr (ar_heap a x)" using represents_header [OF R, of x s f p] by simp
  show thesis
  proof (cases "n + 32 \<le> s")
    case True
    obtain a2 where a2: "split_block_if_possible x n a1 = Inr (x + n, a2)"
        "represents a2 (xs @ (x, n, False, p) # (x + n, s - n, True, False) # after_flag (\<lambda>_. True) ys)
           (L(mapping_insert (s - n) := (x + n) # L (mapping_insert (s - n))))" (is "represents a2 (xs @ _ # ?ys) ?L")
        "writes_only (insert x (fst ` set ys)) (insert (x + n) (\<Union>c. set (L c))) a1 a2" "ar_journal a2 = ar_journal a1"
      by (rule split_block_represents [OF a1(2) new n(1,2) True])
    have d: "distinct (map fst (xs @ (x, n, False, p) # ?ys))" by (rule represents_distinct [OF a2(2)])
    obtain a3 where a3: "update_after x (tlsf_set_prev_free_flag False) a2 = Inr a3"
        "represents a3 (xs @ (x, n, False, p) # after_flag (\<lambda>_. False) ?ys) ?L"
        "writes_only (fst ` set ?ys) {} a2 a3" "same_tables a2 a3"
      by (rule represents_update_after [OF a2(2), of "tlsf_set_prev_free_flag False" "\<lambda>_. False"])
        (simp_all add: set_prev_free_flag_word del: fun_upd_apply after_flag_simps)
    have "flags_agree True (after_flag (\<lambda>_. True) ys)" using flags_agree_after [OF agree, of "\<lambda>_. True"] by simp
    moreover have "coalesced (after_flag (\<lambda>_. True) ys)"
      using agree coal by (cases ys) auto
    moreover have x_new: "x \<notin> set (?L c)" for c using new n(1) by simp
    moreover have size2: "header_at x a2 = Inr (ar_heap a2 x)" "tlsf_block_size (ar_heap a2 x) = n"
      using represents_header [OF a2(2), of x n False p] represents_block(9) [OF a2(2), of x n False p] by auto
    moreover have live: "ar_live_bytes a3 = ar_live_bytes a" "ar_peak_bytes a3 = ar_peak_bytes a"
      using a1(3) a2(3) a3(3) by (auto simp: writes_only_def)
    moreover have "writes_only (insert x (fst ` set ys)) (({x + n} - {x + s}) \<union> (\<Union>c. set (L c))) a a3"
    proof -
      have new_start: "({x + n} - {x + s}) \<union> (\<Union>c. set (L c)) = insert (x + n) (\<Union>c. set (L c))"
        using True by auto
      have "writes_only (insert x (fst ` set ys)) (insert (x + n) (\<Union>c. set (L c))) a a1"
        by (rule writes_only_mono [OF a1(3)]) auto
      also note a2(3)
      also have "writes_only (insert x (fst ` set ys)) (insert (x + n) (\<Union>c. set (L c))) a2 a3"
        using a3(3) by (auto simp: writes_only_def)
      finally show ?thesis unfolding new_start .
    qed
    moreover have "ar_journal a3 = ar_journal a" using a1(4) a2(4) a3(4) by (simp add: same_tables_def)
    moreover have "occupy_block x n a = Inr (x + 16,
       a3\<lparr>ar_live_bytes := add64 (ar_live_bytes a) n,
          ar_peak_bytes := max (ar_peak_bytes a) (add64 (ar_live_bytes a) n)\<rparr>)"
      using head B(9,11) a1(1) True a2(1) size2 a3(1) live
      by (simp add: occupy_block_def Let_def tlsf_constants n64)
    moreover have "fst ` set (after_flag (\<lambda>_. False) ?ys) = ({x + n} - {x + s}) \<union> fst ` set ys"
      using True by (auto simp del: after_flag_offsets(1))
    moreover have "listed xs ?L" "listed (after_flag (\<lambda>_. False) ?ys) ?L"
      using l d by (auto simp: listed_insert)
    ultimately show thesis
      using that [of n a3 "after_flag (\<lambda>_. False) ?ys" ?L] a3(2) True n by simp
  next
    case False
    obtain a3 where a3: "update_after x (tlsf_set_prev_free_flag False) a1 = Inr a3"
        "represents a3 (xs @ (x, s, False, p) # after_flag (\<lambda>_. False) ys) L"
        "writes_only (fst ` set ys) {} a1 a3" "same_tables a1 a3"
      by (rule represents_update_after [OF a1(2), of "tlsf_set_prev_free_flag False" "\<lambda>_. False"])
        (simp_all add: set_prev_free_flag_word)
    have live: "ar_live_bytes a3 = ar_live_bytes a" "ar_peak_bytes a3 = ar_peak_bytes a"
      using a1(3) a3(3) by (auto simp: writes_only_def)
    have W: "writes_only (insert x (fst ` set ys)) (\<Union>c. set (L c)) a a3"
      by (rule writes_only_trans [OF writes_only_mono [OF a1(3)] writes_only_mono [OF a3(3)]]) auto
    have "occupy_block x n a = Inr (x + 16,
       a3\<lparr>ar_live_bytes := add64 (ar_live_bytes a) s,
          ar_peak_bytes := max (ar_peak_bytes a) (add64 (ar_live_bytes a) s)\<rparr>)"
      using head B(9,11) a1(1) False a3(1) live
      by (simp add: occupy_block_def Let_def tlsf_constants n64)
    then show thesis
    proof (rule that [of s a3 "after_flag (\<lambda>_. False) ys" L])
      show "coalesced (after_flag (\<lambda>_. False) ys)" using coal by (cases ys) auto
      show "flags_agree False (after_flag (\<lambda>_. False) ys)" using flags_agree_after [OF agree, of "\<lambda>_. False"] by simp
    qed (use a3 l n False W new a1(4) in \<open>auto simp: same_tables_def\<close>)
  qed
qed

lemma after_flag_id [simp]: "after_flag (\<lambda>p. p) bs = bs"
  by (cases bs) auto

lemma carve_prefix_represents:
  assumes R: "represents a (xs @ (x, s, True, p) # ys) L" and new: "\<And>c. x \<notin> set (L c)"
    and g: "32 \<le> g" "16 dvd g" "g + 32 \<le> s"
  obtains a' where "carve_prefix x g a = Inr (x + g, a')"
    "represents a' (xs @ (x, g, True, p) # (x + g, s - g, False, True) # ys)
       (L(mapping_insert g := x # L (mapping_insert g)))"
    "\<And>c. x + g \<notin> set ((L(mapping_insert g := x # L (mapping_insert g))) c)"
    "writes_only (insert x (fst ` set ys)) ({x, x + g} \<union> (\<Union>c. set (L c))) a a'" "ar_journal a' = ar_journal a"
proof -
  note B = represents_block [OF R, of x s True p]
  have four: "4 dvd g" using dvd_trans [of 4 16 g] g(2) by simp
  have "16 dvd s - g" using B(4) g(2) by (simp add: dvd_diff_nat)
  then have four': "4 dvd s - g" using dvd_trans [of 4 16 "s - g"] by simp
  have rem: "sub64 s g = s - g" using g(3) B(7) by (simp add: sub64_eq)
  let ?m = "tlsf_set_size g True p"
  let ?n = "\<lambda>r. (tlsf_set_size (s - g) False True (r\<lparr>prev_phys_offset := x\<rparr>))\<lparr>next_free_offset := 0, prev_free_offset := 0\<rparr>"
  let ?u = "\<lambda>r. r\<lparr>prev_phys_offset := x + g\<rparr>"
  obtain a1 where a1:
      "bind_result (set_header x ?m a) (\<lambda>a. bind_result (set_header (x + g) ?n a) (update_after (x + g) ?u)) = Inr a1"
      "represents a1 (xs @ (x, g, True, p) # (x + g, s - g, False, True) # after_flag (\<lambda>p. p) ys) L"
      "writes_only (insert x (fst ` set ys)) {x + g} a a1" "same_tables a a1"
    by (rule represents_split [OF R new g, of ?m True ?n False True ?u "\<lambda>p. p"])
      (use four four' in \<open>simp_all del: after_flag_id\<close>)
  have g_new: "x + g \<notin> set (L c)" for c
  proof
    assume "x + g \<in> set (L c)"
    then obtain t f q where "(x + g, t, f, q) \<in> set (xs @ (x, s, True, p) # ys)"
      using representsD(9) [OF R] by blast
    then have "x + s \<le> x + g \<or> x + g + t \<le> x"
      by (rule chain_disjoint [OF representsD(5) [OF R], rotated]) (use g in auto)
    then show False using g by linarith
  qed
  obtain a' where a': "insert_free_block x a1 = Inr a'"
      "represents a' (xs @ (x, g, True, p) # (x + g, s - g, False, True) # ys)
         (L(mapping_insert g := x # L (mapping_insert g)))"
      "writes_only {} (insert x (\<Union>c. set (L c))) a1 a'" "ar_journal a' = ar_journal a1"
    by (rule insert_free_block_represents [OF a1(2), of x g True p]) (use new in auto)
  have "carve_prefix x g a = Inr (x + g, a')"
    using B(9,11) a1(1) a'(1) represents_header [OF R, of x s True p]
    by (simp add: carve_prefix_def Let_def rem bind_result_eq_Inr) blast
  moreover have "writes_only (insert x (fst ` set ys)) ({x, x + g} \<union> (\<Union>c. set (L c))) a a'"
    by (rule writes_only_trans [OF writes_only_mono [OF a1(3)] writes_only_mono [OF a'(3)]]) auto
  moreover have "ar_journal a' = ar_journal a" using a1(4) a'(4) by (simp add: same_tables_def)
  moreover have "x + g \<notin> set ((L(mapping_insert g := x # L (mapping_insert g))) c)" for c
    using g_new g(1) by simp
  ultimately show thesis using that a'(2) by blast
qed

section \<open>Sizes and alignments\<close>

lemma align_up_power:
  assumes "v + 2 ^ k \<le> 2 ^ 63"
  shows "align_up v (2 ^ k) = (v + 2 ^ k - 1) - (v + 2 ^ k - 1) mod 2 ^ k"
proof -
  have "sub64 (v + 2 ^ k) 1 = v + 2 ^ k - 1"
  proof (rule sub64_eq)
    have "1 \<le> (2::nat) ^ k" by simp
    then show "1 \<le> v + 2 ^ k" by linarith
    show "v + 2 ^ k < 2 ^ 64" using assms by simp
  qed
  moreover have "add64 v (2 ^ k) = v + 2 ^ k" using assms by (intro add64_eq) simp
  ultimately show ?thesis by (simp only: align_up_def and_not_mask)
qed

lemma align_up_bounds:
  assumes "v + 2 ^ k \<le> 2 ^ 63"
  shows "v \<le> align_up v (2 ^ k)" "align_up v (2 ^ k) < v + 2 ^ k" "2 ^ k dvd align_up v (2 ^ k)"
proof -
  let ?w = "v + 2 ^ k - 1"
  have "?w mod 2 ^ k < 2 ^ k" by simp
  then show "v \<le> align_up v (2 ^ k)" unfolding align_up_power [OF assms] by linarith
  have "0 < (2::nat) ^ k" by simp
  then show "align_up v (2 ^ k) < v + 2 ^ k" unfolding align_up_power [OF assms] by linarith
  show "2 ^ k dvd align_up v (2 ^ k)" unfolding align_up_power [OF assms] by (rule dvd_minus_mod)
qed

lemma align_up_same: "2 ^ k dvd v \<Longrightarrow> v + 2 ^ k \<le> 2 ^ 63 \<Longrightarrow> align_up v (2 ^ k) = v"
  using align_up_bounds [of v k] by (metis add.commute dvd_add_right_iff dvd_imp_le le_add_diff_inverse
    le_eq_less_or_eq nat_add_left_cancel_less not_le zero_less_diff)

lemma required_block_size_bounds:
  assumes "sz \<le> 2 ^ 61" "alignment \<le> 2 ^ 61"
  shows "16 dvd tlsf_required_block_size sz alignment" "32 \<le> tlsf_required_block_size sz alignment"
    "16 + sz + (if 16 < alignment then alignment else 0) \<le> tlsf_required_block_size sz alignment"
    "tlsf_required_block_size sz alignment < 2 ^ 63"
    "tlsf_required_block_size sz alignment < 48 + sz + (if 16 < alignment then alignment else 0)"
proof -
  define t where "t = max 32 (16 + sz) + (if 16 < alignment then alignment else 0)"
  have t: "t \<le> 2 ^ 62 + 32" using assms by (auto simp: t_def max_def)
  have "tlsf_required_block_size sz alignment = align_up t (2 ^ 4)"
    using assms by (simp add: tlsf_required_block_size_def tlsf_constants Let_def t_def add64_eq max_def)
  moreover have "t + 2 ^ 4 \<le> 2 ^ 63" using t by simp
  ultimately show "16 dvd tlsf_required_block_size sz alignment" "32 \<le> tlsf_required_block_size sz alignment"
    "16 + sz + (if 16 < alignment then alignment else 0) \<le> tlsf_required_block_size sz alignment"
    "tlsf_required_block_size sz alignment < 2 ^ 63"
    "tlsf_required_block_size sz alignment < 48 + sz + (if 16 < alignment then alignment else 0)"
    using align_up_bounds [of t 4] t by (auto simp: t_def)
qed

lemma prefix_gap_bounds:
  assumes x: "16 dvd v" "v < 2 ^ 62" and k: "k \<le> 60"
  shows "16 dvd prefix_gap v (2 ^ k)" "prefix_gap v (2 ^ k) = 0 \<or> 32 \<le> prefix_gap v (2 ^ k)"
    "4 \<le> k \<Longrightarrow> 2 ^ k dvd v + prefix_gap v (2 ^ k)" "k \<le> 4 \<Longrightarrow> prefix_gap v (2 ^ k) = 0"
    "prefix_gap v (2 ^ k) \<le> 2 ^ k + 16"
proof -
  have small: "prefix_gap v (2 ^ k) = 0" if "k \<le> 4"
  proof -
    have "(2::nat) ^ k \<le> 2 ^ 4" using that by (rule power_increasing) simp
    then show ?thesis by (simp add: prefix_gap_def tlsf_constants)
  qed
  then show "k \<le> 4 \<Longrightarrow> prefix_gap v (2 ^ k) = 0" by simp
  have large: "16 dvd prefix_gap v (2 ^ k) \<and> (prefix_gap v (2 ^ k) = 0 \<or> 32 \<le> prefix_gap v (2 ^ k)) \<and>
      2 ^ k dvd v + prefix_gap v (2 ^ k) \<and> prefix_gap v (2 ^ k) \<le> 2 ^ k + 16" if "5 \<le> k"
  proof -
    let ?a = "(2::nat) ^ k" and ?A = "align_up v (2 ^ k)"
    have a: "(2::nat) ^ 5 \<le> ?a" "?a \<le> 2 ^ 60" using power_increasing [of 5 k "2::nat"] power_increasing [of k 60 "2::nat"] that k by auto
    have d16: "16 dvd ?a" using le_imp_power_dvd [of 4 k "2::nat"] that by simp
    have va: "v + ?a \<le> 2 ^ 63" using a(2) x(2) by simp
    note A = align_up_bounds [OF va]
    have A16: "16 dvd ?A" using A(3) d16 dvd_trans by blast
    have gap: "sub64 ?A v = ?A - v" using A(1,2) va by (intro sub64_eq) auto
    have def: "prefix_gap v ?a = (if ?A - v \<noteq> 0 \<and> ?A - v < 32
        then sub64 (align_up (add64 ?A 1) ?a) v else ?A - v)"
      using a(1) by (simp add: prefix_gap_def tlsf_constants Let_def gap)
    show ?thesis
    proof (cases "?A - v \<noteq> 0 \<and> ?A - v < 32")
      case False
      then have "prefix_gap v ?a = ?A - v" using def by argo
      then show ?thesis using False A A16 x(1) by (auto simp: dvd_diff_nat)
    next
      case True
      have "16 dvd ?A - v" using A16 x(1) by (rule dvd_diff_nat)
      then obtain m where "?A - v = 16 * m" by (elim dvdE)
      with True have g0: "?A - v = 16" by auto
      have "?A + 1 + ?a \<le> 2 ^ 63" using A(2) a(2) x(2) by simp
      note B = align_up_bounds [OF this]
      have "add64 ?A 1 = ?A + 1" using A(2) va by (intro add64_eq) simp
      have "?a dvd align_up (?A + 1) ?a - ?A" using B(3) A(3) by (rule dvd_diff_nat)
      then have "?a \<le> align_up (?A + 1) ?a - ?A" by (rule dvd_imp_le) (use B(1) in linarith)
      moreover have "0 < ?a" by simp
      ultimately have B_eq: "align_up (?A + 1) ?a = ?A + ?a" using B(2) by linarith
      have "sub64 (?A + ?a) v = ?A + ?a - v"
        using A(1,2) a(2) x(2) by (intro sub64_eq) auto
      then have pg: "prefix_gap v ?a = 16 + ?a"
        using True def \<open>add64 ?A 1 = ?A + 1\<close> B_eq g0 A(1) by auto
      have "v + (16 + ?a) = ?A + ?a" using g0 A(1) by linarith
      moreover have "?a dvd ?A + ?a" using A(3) by simp
      ultimately have "?a dvd v + (16 + ?a)" by (simp only:)
      then show ?thesis unfolding pg using d16 a(1) by simp
    qed
  qed
  show "16 dvd prefix_gap v (2 ^ k)" "prefix_gap v (2 ^ k) = 0 \<or> 32 \<le> prefix_gap v (2 ^ k)"
    "prefix_gap v (2 ^ k) \<le> 2 ^ k + 16"
    using small large by (cases "k \<le> 4"; auto)+
  show "4 \<le> k \<Longrightarrow> 2 ^ k dvd v + prefix_gap v (2 ^ k)"
    using small large x(1) by (cases "k = 4") auto
qed

lemma represents_journal [simp]:
  "represents (journal_begin op x y z a) bs L = represents a bs L" "represents (journal_end a) bs L = represents a bs L"
  by (simp_all add: represents_def journal_begin_def journal_end_def arena_end_def)

lemma represents_statistics [simp]:
  "represents (a\<lparr>ar_live_bytes := l, ar_peak_bytes := m\<rparr>) bs L = represents a bs L"
  by (simp add: represents_def arena_end_def)

text \<open>The end of an allocation, when the block to hand out has been found and made to fit.\<close>

lemma occupy_block_ok:
  assumes R: "represents a (xs @ (x, s, f, p) # ys) L" and new: "\<And>c. x \<notin> set (L c)"
    and n: "32 \<le> n" "16 dvd n" "n < 2 ^ 63"
    and l: "listed xs L" "listed ys L"
    and agree: "flags_agree False xs" "p = last_free False xs" "flags_agree True ys"
    and coal: "coalesced xs" "coalesced ys"
    and live: "ar_live_bytes a = live_size xs + live_size ys" "ar_live_bytes a \<le> ar_peak_bytes a"
  obtains a' s' bs' where "occupy_block x n a = Inr (x + 16, a')" "arena_ok a' bs'"
    "live_blocks bs' = insert (x, s') (live_blocks xs \<union> live_blocks ys)"
    "min n s \<le> s'" "s' \<le> s" "ar_live_bytes a' = ar_live_bytes a + s'"
    "\<And>z. z \<notin> fst ` set bs' \<Longrightarrow> z \<notin> fst ` set (xs @ (x, s, f, p) # ys) \<Longrightarrow> ar_heap a' z = ar_heap a z"
    "\<And>z. z \<notin> (\<Union>c. set (L c)) \<Longrightarrow> z \<le> x \<or> x + s \<le> z \<Longrightarrow>
       next_free_offset (ar_heap a' z) = next_free_offset (ar_heap a z) \<and>
       prev_free_offset (ar_heap a' z) = prev_free_offset (ar_heap a z)"
proof (rule occupy_block_represents [OF R new n l agree(3) coal(2)])
  fix a1 s' ys' L'
  assume o: "occupy_block x n a = Inr (x + 16,
      a1\<lparr>ar_live_bytes := add64 (ar_live_bytes a) s',
         ar_peak_bytes := max (ar_peak_bytes a) (add64 (ar_live_bytes a) s')\<rparr>)"
    and R': "represents a1 (xs @ (x, s', False, p) # ys') L'"
    and s': "min n s \<le> s'" "s' \<le> s" and new': "\<And>c. x \<notin> set (L' c)"
    and l': "listed xs L'" "listed ys' L'" and agree': "flags_agree False ys'" "coalesced ys'"
    and live': "live_blocks ys' = live_blocks ys" "live_size ys' = live_size ys"
    and starts: "fst ` set ys' = ({x + s'} - {x + s}) \<union> fst ` set ys"
    and W: "writes_only (insert x (fst ` set ys)) (({x + s'} - {x + s}) \<union> (\<Union>c. set (L c))) a a1"
    and j: "ar_journal a1 = ar_journal a"
  define a' where "a' = a1\<lparr>ar_live_bytes := add64 (ar_live_bytes a) s',
         ar_peak_bytes := max (ar_peak_bytes a) (add64 (ar_live_bytes a) s')\<rparr>"
  define bs' where "bs' = xs @ (x, s', False, p) # ys'"
  have "live_size bs' \<le> arena_end a1"
    using live_size_le [OF representsD(5) [OF R']] unfolding bs'_def by linarith
  then have "live_size bs' < 2 ^ 63" using representsD(3) [OF R'] by simp
  then have add: "add64 (ar_live_bytes a) s' = ar_live_bytes a + s'" "live_size bs' = ar_live_bytes a + s'"
    using live(1) live'(2) by (simp_all add: bs'_def add64_eq)
  have "tidy a' bs' L'"
    using R' l' agree agree' new' by (simp add: tidy_def a'_def bs'_def)
  then have "arena_ok a' bs'"
    using coal agree'(2) add live(2) unfolding arena_ok_def by (auto simp: a'_def bs'_def)
  moreover have "occupy_block x n a = Inr (x + 16, a')" using o by (simp add: a'_def)
  moreover have "live_blocks bs' = insert (x, s') (live_blocks xs \<union> live_blocks ys)"
    using live'(1) by (auto simp: bs'_def)
  moreover have "ar_live_bytes a' = ar_live_bytes a + s'" using add by (simp add: a'_def)
  moreover have "ar_heap a' z = ar_heap a z"
    if "z \<notin> fst ` set bs'" "z \<notin> fst ` set (xs @ (x, s, f, p) # ys)" for z
  proof -
    have "(\<Union>c. set (L c)) \<subseteq> fst ` set (xs @ (x, s, f, p) # ys)"
      using representsD(9) [OF R] by force
    moreover have "({x + s'} - {x + s}) \<subseteq> fst ` set bs'" using starts by (auto simp: bs'_def)
    ultimately have "z \<notin> insert x (fst ` set ys) \<union> (({x + s'} - {x + s}) \<union> (\<Union>c. set (L c)))"
      using that by auto
    then show ?thesis using W unfolding writes_only_def a'_def by simp
  qed
  moreover have "next_free_offset (ar_heap a' z) = next_free_offset (ar_heap a z) \<and>
       prev_free_offset (ar_heap a' z) = prev_free_offset (ar_heap a z)"
    if "z \<notin> (\<Union>c. set (L c))" "z \<le> x \<or> x + s \<le> z" for z
  proof -
    have "0 < s'" using s' n(1) represents_block(3) [OF R, of x s f p] by simp
    then have "z \<notin> ({x + s'} - {x + s}) \<union> (\<Union>c. set (L c))" using that s'(2) by auto
    then show ?thesis using W unfolding writes_only_def a'_def by simp
  qed
  ultimately show thesis using that s' by blast
qed

text \<open>What \<open>allocate_block\<close> does with a listed block of size at least \<open>n\<close>.\<close>

lemma allocate_block_ok:
  assumes T: "tidy a bs L" and ok: "coalesced bs" "ar_live_bytes a = live_size bs" "ar_live_bytes a \<le> ar_peak_bytes a"
    and b: "(x, s, True, p) \<in> set bs"
    and n: "32 \<le> n" "16 dvd n" "n < 2 ^ 63" "n \<le> s" and k: "4 \<le> k" "k \<le> 60"
  obtains a' r bs' where "allocate_block x n (2 ^ k) a = Inr (r, a')" "arena_ok a' bs'"
    "r = 0 \<and> 4 < k \<and> n < 2 ^ k + 48 \<and> bs' = bs \<and> ar_live_bytes a' = ar_live_bytes a \<or>
     (\<exists>x' s'. r = x' + 16 \<and> 2 ^ k dvd r \<and> live_blocks bs' = insert (x', s') (live_blocks bs) \<and>
        x \<le> x' \<and> x' + s' \<le> x + s \<and> n \<le> s' + (if k = 4 then 0 else 2 ^ k + 16) \<and>
        ar_live_bytes a' = ar_live_bytes a + s')"
    "\<And>z. z \<notin> fst ` set bs' \<union> fst ` set bs \<Longrightarrow> ar_heap a' z = ar_heap a z"
    "\<And>z t. (z, t) \<in> live_blocks bs \<Longrightarrow>
       next_free_offset (ar_heap a' z) = next_free_offset (ar_heap a z) \<and>
       prev_free_offset (ar_heap a' z) = prev_free_offset (ar_heap a z)"
proof -
  obtain xs ys where bs: "bs = xs @ (x, s, True, p) # ys" using b by (auto dest: split_list)
  have R: "represents a (xs @ (x, s, True, p) # ys) L" and agree: "flags_agree False xs" "p = last_free False xs"
      "flags_agree True ys" and l: "listed xs L" "listed ys L" and x_listed: "x \<in> set (L (mapping_insert s))"
    using T unfolding tidy_def bs by auto
  have coal: "coalesced xs" "coalesced ys" "\<not> p" using ok(1) bs by auto
  obtain a1 where a1: "remove_free_block x a = Inr a1"
      "represents a1 (xs @ (x, s, True, p) # ys) (L(mapping_insert s := remove1 x (L (mapping_insert s))))"
      (is "represents a1 _ ?L1")
      "writes_only {} (\<Union>c. set (L c)) a a1" "ar_journal a1 = ar_journal a"
    by (rule remove_free_block_represents [OF R, of x s True p]) (use x_listed in auto)
  note B = represents_block [OF a1(2), of x s True p, simplified]
  have x_new: "x \<notin> set (?L1 c)" for c by (rule represents_not_listed_after_remove [OF R x_listed])
  have d: "distinct (map fst (xs @ (x, s, True, p) # ys))" by (rule represents_distinct [OF R])
  have l1: "listed xs ?L1" "listed ys ?L1" using l d by (simp_all add: listed_remove)
  have sub_c: "set (?L1 c) \<subseteq> set (L c)" for c using set_remove1_subset [of x "L c"] by auto
  have sub1: "(\<Union>c. set (?L1 c)) \<subseteq> (\<Union>c. set (L c))" by (rule UN_mono [OF subset_refl sub_c])
  have in_bs: "(\<Union>c. set (L c)) \<subseteq> fst ` set bs" using representsD(9) [OF R] unfolding bs by force
  have a1_heap: "ar_heap a1 z = ar_heap a z" if "z \<notin> fst ` set bs" for z
    using a1(3) in_bs that unfolding writes_only_def by blast
  have a1_links: "next_free_offset (ar_heap a1 z) = next_free_offset (ar_heap a z) \<and>
      prev_free_offset (ar_heap a1 z) = prev_free_offset (ar_heap a z)" if "z \<notin> (\<Union>c. set (L c))" for z
    using a1(3) that unfolding writes_only_def by simp
  have not_L1: "z \<notin> (\<Union>c. set (?L1 c))" if "z \<notin> (\<Union>c. set (L c))" for z
    using that subsetD [OF sub1] by meson
  have live_z: "z \<notin> (\<Union>c. set (L c)) \<and> z \<noteq> x \<and> (z \<le> x \<or> x + s \<le> z)" if zt: "(z, t) \<in> live_blocks bs" for z t
  proof -
    obtain q where z: "(z, t, False, q) \<in> set (xs @ (x, s, True, p) # ys)"
      using zt unfolding live_blocks_def bs by blast
    have "z \<noteq> x" using chain_unique [OF representsD(5) [OF R] z, of s True p] by auto
    moreover have "z + t \<le> x \<or> x + s \<le> z"
      by (rule chain_disjoint [OF representsD(5) [OF R] z, of x s True p]) (use \<open>z \<noteq> x\<close> in auto)
    moreover have "z \<notin> set (L c)" for c
    proof
      assume z_in: "z \<in> set (L c)"
      then have "c = mapping_insert t" by (rule represents_listed [OF R _ z])
      moreover have "listed (xs @ (x, s, True, p) # ys) L" using l x_listed by simp
      ultimately show False using z_in listedD [OF _ z] by simp
    qed
    ultimately show ?thesis by auto
  qed
  have live1: "ar_live_bytes a1 = live_size xs + live_size ys" "ar_live_bytes a1 \<le> ar_peak_bytes a1"
      "ar_live_bytes a1 = ar_live_bytes a"
    using a1(3) ok(2,3) by (simp_all add: writes_only_def bs)
  have live_bs: "live_blocks bs = live_blocks xs \<union> live_blocks ys" by (simp add: bs)
  let ?g = "prefix_gap (x + 16) (2 ^ k)"
  have xs62: "x + 16 < 2 ^ 62" using B(3,6) representsD(3) [OF a1(2)] by simp
  have G: "16 dvd ?g" "?g = 0 \<or> 32 \<le> ?g" "2 ^ k dvd x + 16 + ?g" "k \<le> 4 \<Longrightarrow> ?g = 0" "?g \<le> 2 ^ k + 16"
    using prefix_gap_bounds [of "x + 16" k] B(5) xs62 k by auto
  have head: "header_at x a1 = Inr (ar_heap a1 x)" using represents_header [OF a1(2), of x s True p] by simp
  show thesis
  proof (cases "?g = 0")
    case True
    show thesis
    proof (rule occupy_block_ok [OF a1(2) x_new n(1,2,3) l1 agree coal(1,2) live1(1,2)])
      fix a' s' bs'
      assume o: "occupy_block x n a1 = Inr (x + 16, a')" "arena_ok a' bs'"
        "live_blocks bs' = insert (x, s') (live_blocks xs \<union> live_blocks ys)"
        "min n s \<le> s'" "s' \<le> s" "ar_live_bytes a' = ar_live_bytes a1 + s'"
        and h: "\<And>z. z \<notin> fst ` set bs' \<Longrightarrow> z \<notin> fst ` set (xs @ (x, s, True, p) # ys) \<Longrightarrow> ar_heap a' z = ar_heap a1 z"
          "\<And>z. z \<notin> (\<Union>c. set (?L1 c)) \<Longrightarrow> z \<le> x \<or> x + s \<le> z \<Longrightarrow>
             next_free_offset (ar_heap a' z) = next_free_offset (ar_heap a1 z) \<and>
             prev_free_offset (ar_heap a' z) = prev_free_offset (ar_heap a1 z)"
      show thesis
      proof (rule that [of "x + 16" a' bs'])
        show "allocate_block x n (2 ^ k) a = Inr (x + 16, a')"
          using a1(1) head True o(1) by (simp add: allocate_block_def tlsf_constants Let_def)
        show "x + 16 = 0 \<and> 4 < k \<and> n < 2 ^ k + 48 \<and> bs' = bs \<and> ar_live_bytes a' = ar_live_bytes a \<or>
          (\<exists>x' s'. x + 16 = x' + 16 \<and> 2 ^ k dvd x + 16 \<and> live_blocks bs' = insert (x', s') (live_blocks bs) \<and>
            x \<le> x' \<and> x' + s' \<le> x + s \<and> n \<le> s' + (if k = 4 then 0 else 2 ^ k + 16) \<and>
            ar_live_bytes a' = ar_live_bytes a + s')"
          using o G(3) True n(4) live1(3) live_bs by (intro disjI2 exI [of _ x] exI [of _ s']) simp
        show "arena_ok a' bs'" by (rule o(2))
      next
        fix z assume "z \<notin> fst ` set bs' \<union> fst ` set bs"
        then show "ar_heap a' z = ar_heap a z"
          using h(1) [of z] a1_heap [of z] by (simp add: bs)
      next
        fix z t assume "(z, t) \<in> live_blocks bs"
        note Z = live_z [OF this]
        then show "next_free_offset (ar_heap a' z) = next_free_offset (ar_heap a z) \<and>
            prev_free_offset (ar_heap a' z) = prev_free_offset (ar_heap a z)"
          using h(2) [of z, OF not_L1] a1_links [of z] by metis
      qed
    qed
  next
    case False
    have "\<not> k \<le> 4"
    proof
      assume "k \<le> 4"
      then show False using False G(4) by simp
    qed
    with G(2) False have k4: "4 < k" "32 \<le> ?g" by simp_all
    have "?g < 2 ^ 62" using G(5) power_increasing [of k 60 "2::nat"] k(2) by simp
    then have g64: "add64 ?g 32 = ?g + 32" by (intro add64_eq) simp
    show thesis
    proof (cases "s < ?g + 32")
      case True
      obtain a2 where a2: "insert_free_block x a1 = Inr a2"
          "represents a2 bs (?L1(mapping_insert s := x # ?L1 (mapping_insert s)))" (is "represents a2 bs ?L2")
          "writes_only {} (insert x (\<Union>c. set (?L1 c))) a1 a2" "ar_journal a2 = ar_journal a1"
        unfolding bs by (rule insert_free_block_represents [OF a1(2), of x s True p]) (use x_new in auto)
      have "allocate_block x n (2 ^ k) a = Inr (0, a2)"
        using a1(1) head k4 True B(9) a2(1) by (simp add: allocate_block_def tlsf_constants Let_def g64)
      moreover have "listed xs ?L2" "listed ys ?L2"
        by (rule listed_insert_into [OF l1(1)], use d in simp, rule listed_insert_into [OF l1(2)], use d in simp)
      then have "listed bs ?L2" by (simp add: bs)
      then have "arena_ok a2 bs"
        using a2(2,3) T ok a1(3) unfolding arena_ok_def tidy_def by (auto simp: writes_only_def)
      moreover have "ar_live_bytes a2 = ar_live_bytes a" using a2(3) live1(3) by (simp add: writes_only_def)
      moreover have W: "writes_only {} (\<Union>c. set (L c)) a a2"
      proof -
        have "insert x (\<Union>c. set (?L1 c)) \<subseteq> (\<Union>c. set (L c))" using sub1 x_listed by blast
        then show ?thesis by (rule writes_only_trans [OF a1(3) writes_only_mono [OF a2(3) subset_refl]])
      qed
      moreover have "ar_heap a2 z = ar_heap a z" if "z \<notin> fst ` set bs \<union> fst ` set bs" for z
        using W in_bs that unfolding writes_only_def by blast
      moreover have "next_free_offset (ar_heap a2 z) = next_free_offset (ar_heap a z) \<and>
          prev_free_offset (ar_heap a2 z) = prev_free_offset (ar_heap a z)" if "(z, t) \<in> live_blocks bs" for z t
        using W live_z [OF that] unfolding writes_only_def by blast
      moreover have "n < 2 ^ k + 48" using True G(5) n(4) by linarith
      ultimately show thesis using that [of 0 a2 bs] k4(1) by simp
    next
      case False
      then have g_s: "?g + 32 \<le> s" by simp
      show thesis
      proof (rule carve_prefix_represents [OF a1(2) x_new k4(2) G(1) g_s])
        let ?L2 = "?L1(mapping_insert ?g := x # ?L1 (mapping_insert ?g))"
        fix a2
        assume c: "carve_prefix x ?g a1 = Inr (x + ?g, a2)"
          and R2: "represents a2 (xs @ (x, ?g, True, p) # (x + ?g, s - ?g, False, True) # ys)
            ?L2"
          and new2: "\<And>c. x + ?g \<notin> set (?L2 c)"
          and W2: "writes_only (insert x (fst ` set ys)) ({x, x + ?g} \<union> (\<Union>c. set (?L1 c))) a1 a2"
          and j2: "ar_journal a2 = ar_journal a1"
        let ?xs = "xs @ [(x, ?g, True, p)]"
        have R3: "represents a2 (?xs @ (x + ?g, s - ?g, False, True) # ys) ?L2" using R2 by simp
        have "listed xs ?L2" and l2y: "listed ys ?L2"
          by (rule listed_insert_into [OF l1(1)], use d in simp, rule listed_insert_into [OF l1(2)], use d in simp)
        then have l2: "listed ?xs ?L2" "listed ys ?L2" by simp_all
        have agree2: "flags_agree False ?xs" "True = last_free False ?xs" using agree by simp_all
        have coal2: "coalesced ?xs" using coal by simp
        have live2: "ar_live_bytes a2 = live_size ?xs + live_size ys" "ar_live_bytes a2 \<le> ar_peak_bytes a2"
          using live1 W2 by (simp_all add: writes_only_def)
        have sub2: "(\<Union>c. set (?L2 c)) \<subseteq> insert x (\<Union>c. set (L c))"
        proof -
          have "set (?L2 c) \<subseteq> insert x (set (L c))" for c using sub_c [of c] by (cases "c = mapping_insert ?g") auto
          then show ?thesis by blast
        qed
        show thesis
        proof (rule occupy_block_ok [OF R3 new2 n(1,2,3) l2 agree2 agree(3) coal2 coal(2) live2])
          fix a' s' bs'
          assume o: "occupy_block (x + ?g) n a2 = Inr (x + ?g + 16, a')" "arena_ok a' bs'"
            "live_blocks bs' = insert (x + ?g, s') (live_blocks ?xs \<union> live_blocks ys)"
            "min n (s - ?g) \<le> s'" "s' \<le> s - ?g" "ar_live_bytes a' = ar_live_bytes a2 + s'"
            and h: "\<And>z. z \<notin> fst ` set bs' \<Longrightarrow> z \<notin> fst ` set (?xs @ (x + ?g, s - ?g, False, True) # ys) \<Longrightarrow>
                ar_heap a' z = ar_heap a2 z"
              "\<And>z. z \<notin> (\<Union>c. set (?L2 c)) \<Longrightarrow> z \<le> x + ?g \<or> x + ?g + (s - ?g) \<le> z \<Longrightarrow>
                 next_free_offset (ar_heap a' z) = next_free_offset (ar_heap a2 z) \<and>
                 prev_free_offset (ar_heap a' z) = prev_free_offset (ar_heap a2 z)"
          have start: "x + ?g \<in> fst ` set bs'"
          proof -
            have "(x + ?g, s') \<in> live_blocks bs'" using o(3) by simp
            then show ?thesis by (force simp: live_blocks_def)
          qed
          show thesis
          proof (rule that [of "x + ?g + 16" a' bs'])
            show "allocate_block x n (2 ^ k) a = Inr (x + ?g + 16, a')"
              using a1(1) head k4 False B(9) c o(1) by (simp add: allocate_block_def tlsf_constants Let_def g64)
            have "2 ^ k dvd x + ?g + 16" using G(3) by (simp only: add.assoc add.commute [of 16])
            moreover have "n \<le> s' + (2 ^ k + 16)" using o(4) n(4) G(5) g_s by linarith
            moreover have "x + ?g + s' \<le> x + s" using o(5) g_s by linarith
            ultimately show "x + ?g + 16 = 0 \<and> 4 < k \<and> n < 2 ^ k + 48 \<and> bs' = bs \<and> ar_live_bytes a' = ar_live_bytes a \<or>
              (\<exists>x' s'. x + ?g + 16 = x' + 16 \<and> 2 ^ k dvd x + ?g + 16 \<and>
                live_blocks bs' = insert (x', s') (live_blocks bs) \<and>
                x \<le> x' \<and> x' + s' \<le> x + s \<and> n \<le> s' + (if k = 4 then 0 else 2 ^ k + 16) \<and>
                ar_live_bytes a' = ar_live_bytes a + s')"
              using o(3,6) W2 live1(3) live_bs k4(1)
              by (intro disjI2 exI [of _ "x + ?g"] exI [of _ s']) (simp add: writes_only_def)
            show "arena_ok a' bs'" by (rule o(2))
          next
            fix z assume z: "z \<notin> fst ` set bs' \<union> fst ` set bs"
            then have "z \<noteq> x + ?g" "z \<notin> fst ` set (?xs @ (x + ?g, s - ?g, False, True) # ys)"
              using start by (auto simp: bs)
            then have "ar_heap a' z = ar_heap a2 z" using h(1) z by blast
            also have "\<dots> = ar_heap a1 z"
            proof -
              have "z \<notin> (\<Union>c. set (?L1 c))" using z subset_trans [OF sub1 in_bs] by (meson UnI2 subsetD)
              moreover have "z \<noteq> x" "z \<notin> fst ` set ys" using z by (auto simp: bs)
              ultimately have "z \<notin> insert x (fst ` set ys) \<union> ({x, x + ?g} \<union> (\<Union>c. set (?L1 c)))"
                using \<open>z \<noteq> x + ?g\<close> by simp
              then show ?thesis using W2 unfolding writes_only_def by blast
            qed
            also have "\<dots> = ar_heap a z" using a1_heap z by simp
            finally show "ar_heap a' z = ar_heap a z" .
          next
            fix z t assume zt: "(z, t) \<in> live_blocks bs"
            note Z = live_z [OF zt]
            have "z \<noteq> x + ?g" using Z g_s k4(2) by auto
            have "next_free_offset (ar_heap a' z) = next_free_offset (ar_heap a2 z) \<and>
                prev_free_offset (ar_heap a' z) = prev_free_offset (ar_heap a2 z)"
            proof (rule h(2))
              show "z \<notin> (\<Union>c. set (?L2 c))" using Z subsetD [OF sub2] by (meson insertE)
              show "z \<le> x + ?g \<or> x + ?g + (s - ?g) \<le> z" using Z g_s by linarith
            qed
            moreover have "z \<notin> (\<Union>c. set (?L1 c))" using Z not_L1 by blast
            then have "z \<notin> {x, x + ?g} \<union> (\<Union>c. set (?L1 c))" using Z \<open>z \<noteq> x + ?g\<close> by simp
            then have "next_free_offset (ar_heap a2 z) = next_free_offset (ar_heap a1 z) \<and>
                prev_free_offset (ar_heap a2 z) = prev_free_offset (ar_heap a1 z)"
              using W2 unfolding writes_only_def by blast
            moreover have "next_free_offset (ar_heap a1 z) = next_free_offset (ar_heap a z) \<and>
                prev_free_offset (ar_heap a1 z) = prev_free_offset (ar_heap a z)"
              using a1_links Z by blast
            ultimately show "next_free_offset (ar_heap a' z) = next_free_offset (ar_heap a z) \<and>
                prev_free_offset (ar_heap a' z) = prev_free_offset (ar_heap a z)" by simp
          qed
        qed
      qed
    qed
  qed
qed

definition free_blocks :: "block list \<Rightarrow> (nat \<times> nat) set" where
  "free_blocks bs = {(x, s). \<exists>p. (x, s, True, p) \<in> set bs}"

text \<open>
  What becomes of the bytes of an arena: nothing is written outside the headers of the blocks, and of
  a block that stays allocated nothing but its header.
\<close>

lemma journal_fields [simp]:
  "ar_live_bytes (journal_end a) = ar_live_bytes a" "ar_peak_bytes (journal_end a) = ar_peak_bytes a"
  "ar_heap (journal_end a) = ar_heap a" "ar_heap (journal_begin op x y z a) = ar_heap a"
  "ar_live_bytes (journal_begin op x y z a) = ar_live_bytes a"
  "ar_peak_bytes (journal_begin op x y z a) = ar_peak_bytes a"
  by (simp_all add: journal_end_def journal_begin_def)

lemma arena_ok_journal [simp]: "arena_ok (journal_end a) bs = arena_ok a bs"
  by (simp add: arena_ok_def tidy_def)

definition keeps_payloads :: "arena \<Rightarrow> block list \<Rightarrow> arena \<Rightarrow> block list \<Rightarrow> bool" where
  "keeps_payloads a bs a' bs' \<longleftrightarrow>
     (\<forall>z. z \<notin> fst ` set bs' \<union> fst ` set bs \<longrightarrow> ar_heap a' z = ar_heap a z) \<and>
     (\<forall>z t. (z, t) \<in> live_blocks bs \<inter> live_blocks bs' \<longrightarrow>
        next_free_offset (ar_heap a' z) = next_free_offset (ar_heap a z) \<and>
        prev_free_offset (ar_heap a' z) = prev_free_offset (ar_heap a z))"

lemma keeps_payloads_refl: "keeps_payloads a bs a bs"
  by (simp add: keeps_payloads_def)

lemma mapping_insert_snd: "snd (mapping_insert s) < 16"
proof (cases "s < 512")
  case False
  then obtain fl where "mapping_insert s = (fl, s div 2 ^ (fl + 1) - 16)" "s div 2 ^ (fl + 1) < 32"
    by (meson mapping_insert_large not_less)
  then show ?thesis by (simp add: less_diff_conv2)
qed (simp add: mapping_insert_small div_less_iff_less_mult)

lemma tidy_free_listed: "tidy a bs L \<Longrightarrow> (x, s, True, p) \<in> set bs \<Longrightarrow> x \<in> set (L (mapping_insert s))"
  using listedD unfolding tidy_def by blast

lemma tlsf_allocate_ok:
  assumes ok: "arena_ok a bs" and sz: "0 < sz" "sz \<le> 2 ^ 60" and k: "k \<le> 60"
  defines "n \<equiv> tlsf_required_block_size sz (2 ^ max k 4)"
  obtains p a' bs' where "tlsf_allocate sz (2 ^ k) a = Inr (p, a')" "arena_ok a' bs'" "keeps_payloads a bs a' bs'"
    "p = 0 \<and> live_blocks bs' = live_blocks bs \<and> ar_live_bytes a' = ar_live_bytes a \<and>
       (k \<le> 4 \<or> 16 < sz \<longrightarrow> (\<forall>x s. (x, s) \<in> free_blocks bs \<longrightarrow> s < n + n div 16 + 32)) \<or>
     (\<exists>x s y t. p = x + 16 \<and> 2 ^ max k 4 dvd p \<and> live_blocks bs' = insert (x, s) (live_blocks bs) \<and>
        (y, t) \<in> free_blocks bs \<and> y \<le> x \<and> x + s \<le> y + t \<and> n \<le> s + (if k \<le> 4 then 0 else 2 ^ k + 16) \<and>
        ar_live_bytes a' = ar_live_bytes a + s)"
proof -
  note that_result = that
  obtain L where T: "tidy a bs L" using ok by (auto simp: arena_ok_def)
  then have R: "represents a bs L" by (simp add: tidy_def)
  have okD: "coalesced bs" "ar_live_bytes a = live_size bs" "ar_live_bytes a \<le> ar_peak_bytes a"
    using ok by (auto simp: arena_ok_def)
  have big61: "(2::nat) ^ max k 4 \<le> 2 ^ 61" using k by (intro power_increasing) auto
  then have n: "16 dvd n" "32 \<le> n" "n < 2 ^ 63"
    using required_block_size_bounds [of sz "2 ^ max k 4"] sz(2) unfolding n_def by simp_all
  have align: "(if (2::nat) ^ k < tlsf_align then tlsf_align else 2 ^ k) = 2 ^ max k 4"
  proof (cases "k < 4")
    case True
    then have "(2::nat) ^ k < 2 ^ 4" by (rule power_strict_increasing) simp
    then show ?thesis using True by (simp add: tlsf_constants max_def)
  next
    case False
    then have "(2::nat) ^ 4 \<le> 2 ^ k" by (intro power_increasing) auto
    then show ?thesis using False by (simp add: tlsf_constants max_def)
  qed
  have search: "mapping_search n = (let c = mapping_insert (rounded_size n) in if fst c < 27 then Some c else None)"
    by (rule mapping_search_rounded) (use n in auto)
  have small: "sz \<le> 16" if "4 < max k 4" "n < 2 ^ max k 4 + 48"
  proof (rule ccontr)
    assume "\<not> sz \<le> 16"
    have big: "(16::nat) < 2 ^ max k 4" using power_strict_increasing [OF that(1), of "2::nat"] by simp
    have "16 + sz + 2 ^ max k 4 \<le> n"
      using required_block_size_bounds(3) [of sz "2 ^ max k 4"] sz(2) big61 big unfolding n_def by simp
    moreover have "(16::nat) dvd 2 ^ max k 4" using le_imp_power_dvd [of 4 "max k 4" "2::nat"] by simp
    then obtain q r :: nat where "n = 16 * q" "(2::nat) ^ max k 4 = 16 * r" using n(1) by (auto elim!: dvdE)
    ultimately show False using that(2) \<open>\<not> sz \<le> 16\<close> by presburger
  qed
  define c where "c = mapping_insert (rounded_size n)"
  have fits: "s < n + n div 16 + 32" if "\<not> class_le c (mapping_insert s)" for s
  proof -
    have "\<not> rounded_size n \<le> s" using that mapping_insert_mono unfolding c_def by blast
    then show ?thesis using rounded_size_bounds(2) [of n] by linarith
  qed
  have unfold: "tlsf_allocate sz (2 ^ k) a = (case mapping_search n of None \<Rightarrow> Inr (0, a)
      | Some (fl, sl) \<Rightarrow> case search_suitable_class (ar_tlsf a) fl sl of None \<Rightarrow> Inr (0, a)
        | Some (fl, sl) \<Rightarrow>
            if \<not> class_in_tables (fl, sl) then Inl undefined_behaviour
            else let blk = free_list (ar_tlsf a) fl sl
                 in if blk = 0 then Inr (0, a)
                    else bind_result (header_at blk a) (\<lambda>b.
                         bind_result
                           (allocate_block blk n (2 ^ max k 4)
                             (journal_begin tlsf_alloc_op blk (size_and_flags b) 0 a)) (\<lambda>(p, a).
                         Inr (p, journal_end a))))"
    using sz(1) n(2) unfolding tlsf_allocate_def Let_def align n_def [symmetric] by simp
  have none: thesis
    if "tlsf_allocate sz (2 ^ k) a = Inr (0, a)" "\<And>x s. (x, s) \<in> free_blocks bs \<Longrightarrow> \<not> class_le c (mapping_insert s)"
    by (rule that_result [OF that(1) ok keeps_payloads_refl]) (use fits that(2) in blast)
  show thesis
  proof (cases "fst c < 27")
    case False
    have none_fits: "\<not> class_le c (mapping_insert s)" if "(x, s) \<in> free_blocks bs" for x s
    proof -
      obtain p where "(x, s, True, p) \<in> set bs" using \<open>(x, s) \<in> free_blocks bs\<close> by (auto simp: free_blocks_def)
      then have "fst (mapping_insert s) < 27"
        using represents_block(12) [OF R] by (simp add: class_in_tables_def tlsf_constants)
      with False show ?thesis by (simp add: class_le_def)
    qed
    have "tlsf_allocate sz (2 ^ k) a = Inr (0, a)" by (simp add: unfold search c_def [symmetric] False)
    then show thesis using none none_fits by blast
  next
    case True
    then have s1: "mapping_search n = Some c" using search by (simp add: c_def)
    have c16: "snd c < 16" unfolding c_def by (rule mapping_insert_snd)
    show thesis
    proof (cases "search_suitable_class (ar_tlsf a) (fst c) (snd c)")
      case None
      have none_fits: "\<not> class_le c (mapping_insert s)" if "(x, s) \<in> free_blocks bs" for x s
      proof
        assume "class_le c (mapping_insert s)"
        then have "L (mapping_insert s) = []"
          using search_suitable_class_None [OF representsD(6) [OF R] None] by simp
        moreover obtain p where "(x, s, True, p) \<in> set bs"
          using \<open>(x, s) \<in> free_blocks bs\<close> by (auto simp: free_blocks_def)
        ultimately show False using tidy_free_listed [OF T] by fastforce
      qed
      have "tlsf_allocate sz (2 ^ k) a = Inr (0, a)" using None by (simp add: unfold s1 case_prod_beta)
      then show thesis using none none_fits by blast
    next
      case (Some d)
      have d: "L d \<noteq> []" "class_le c d"
        using search_suitable_class_Some [OF representsD(6) [OF R] Some] by simp_all
      have tables: "class_in_tables d" using heads_okD(4) [OF representsD(6) [OF R] d(1)] .
      obtain x xs where x: "L d = x # xs" using d(1) by (cases "L d") auto
      then have "x \<in> set (L d)" by simp
      then obtain s f p where b0: "(x, s, f, p) \<in> set bs" and cls: "mapping_insert s = d"
        using representsD(9) [OF R] by blast
      have "f" using listedD [OF _ b0, of L] T x cls unfolding tidy_def by simp
      with b0 have b: "(x, s, True, p) \<in> set bs" by simp
      have "n \<le> class_min c" using class_min_rounded unfolding c_def .
      also have "\<dots> \<le> s" by (rule class_min_mono) (use d(2) cls c16 in auto)
      finally have "n \<le> s" .
      have head: "free_list (ar_tlsf a) (fst d) (snd d) = x"
        using heads_okD(1) [OF representsD(6) [OF R], of "fst d" "snd d"] x by simp
      let ?a0 = "journal_begin tlsf_alloc_op x (size_and_flags (ar_heap a x)) 0 a"
      have T0: "tidy ?a0 bs L" using T by (simp add: tidy_def)
      have ok0: "ar_live_bytes ?a0 = live_size bs" "ar_live_bytes ?a0 \<le> ar_peak_bytes ?a0"
        using okD by (simp_all add: journal_begin_def)
      have k': "4 \<le> max k 4" "max k 4 \<le> 60" using k by auto
      show thesis
      proof (rule allocate_block_ok [OF T0 okD(1) ok0 b n(2,1,3) \<open>n \<le> s\<close> k'])
        fix a' r bs'
        assume A: "allocate_block x n (2 ^ max k 4) ?a0 = Inr (r, a')" "arena_ok a' bs'"
          and res: "r = 0 \<and> 4 < max k 4 \<and> n < 2 ^ max k 4 + 48 \<and> bs' = bs \<and> ar_live_bytes a' = ar_live_bytes ?a0 \<or>
            (\<exists>x' s'. r = x' + 16 \<and> 2 ^ max k 4 dvd r \<and> live_blocks bs' = insert (x', s') (live_blocks bs) \<and>
              x \<le> x' \<and> x' + s' \<le> x + s \<and> n \<le> s' + (if max k 4 = 4 then 0 else 2 ^ max k 4 + 16) \<and>
              ar_live_bytes a' = ar_live_bytes ?a0 + s')"
          and h: "\<And>z. z \<notin> fst ` set bs' \<union> fst ` set bs \<Longrightarrow> ar_heap a' z = ar_heap ?a0 z"
            "\<And>z t. (z, t) \<in> live_blocks bs \<Longrightarrow>
               next_free_offset (ar_heap a' z) = next_free_offset (ar_heap ?a0 z) \<and>
               prev_free_offset (ar_heap a' z) = prev_free_offset (ar_heap ?a0 z)"
        show thesis
        proof (rule that_result [of r "journal_end a'" bs'])
          show "tlsf_allocate sz (2 ^ k) a = Inr (r, journal_end a')"
            using head tables represents_block(2) [OF R b] represents_header [OF R b] A(1)
            by (simp add: unfold s1 Some Let_def case_prod_beta)
          show "arena_ok (journal_end a') bs'"
            using A(2) by simp
          show "keeps_payloads a bs (journal_end a') bs'"
            unfolding keeps_payloads_def using h by auto
          have xf: "(x, s) \<in> free_blocks bs" using b by (auto simp: free_blocks_def)
          show "r = 0 \<and> live_blocks bs' = live_blocks bs \<and> ar_live_bytes (journal_end a') = ar_live_bytes a \<and>
              (k \<le> 4 \<or> 16 < sz \<longrightarrow> (\<forall>x s. (x, s) \<in> free_blocks bs \<longrightarrow> s < n + n div 16 + 32)) \<or>
            (\<exists>x s y t. r = x + 16 \<and> 2 ^ max k 4 dvd r \<and> live_blocks bs' = insert (x, s) (live_blocks bs) \<and>
              (y, t) \<in> free_blocks bs \<and> y \<le> x \<and> x + s \<le> y + t \<and> n \<le> s + (if k \<le> 4 then 0 else 2 ^ k + 16) \<and>
              ar_live_bytes (journal_end a') = ar_live_bytes a + s)"
            using res
          proof (elim disjE exE)
            assume z: "r = 0 \<and> 4 < max k 4 \<and> n < 2 ^ max k 4 + 48 \<and> bs' = bs \<and> ar_live_bytes a' = ar_live_bytes ?a0"
            then have "\<not> k \<le> 4" "\<not> 16 < sz" using small by auto
            then show ?thesis using z by (auto simp: journal_end_def journal_begin_def)
          next
            fix x' s'
            assume "r = x' + 16 \<and> 2 ^ max k 4 dvd r \<and> live_blocks bs' = insert (x', s') (live_blocks bs) \<and>
              x \<le> x' \<and> x' + s' \<le> x + s \<and> n \<le> s' + (if max k 4 = 4 then 0 else 2 ^ max k 4 + 16) \<and>
              ar_live_bytes a' = ar_live_bytes ?a0 + s'"
            moreover have "(if max k 4 = 4 then 0 else 2 ^ max k 4 + 16) = (if k \<le> 4 then 0 else 2 ^ k + (16::nat))"
              by (auto simp: max_def)
            ultimately have C: "r = x' + 16 \<and> 2 ^ max k 4 dvd r \<and> live_blocks bs' = insert (x', s') (live_blocks bs) \<and>
              (x, s) \<in> free_blocks bs \<and> x \<le> x' \<and> x' + s' \<le> x + s \<and>
              n \<le> s' + (if k \<le> 4 then 0 else 2 ^ k + 16) \<and> ar_live_bytes (journal_end a') = ar_live_bytes a + s'"
              using xf by clarsimp
            show ?thesis
              by (rule disjI2, rule exI [of _ x'], rule exI [of _ s'], rule exI [of _ x], rule exI [of _ s], rule C)
          qed
        qed
      qed
    qed
  qed
qed

section \<open>Initialisation\<close>

lemma tlsf_init_ok:
  assumes a: "0 < ar_user_offset a" "arena_end a < 2 ^ 62" "ar_user_size a < 2 ^ 32"
    "ar_live_bytes a = 0"
  obtains r a' where "tlsf_init a = Inr (r, a')"
    "r \<Longrightarrow> \<exists>x s. arena_ok a' [(x, s, True, False)] \<and> ar_user_offset a \<le> x \<and> x + s \<le> arena_end a \<and>
       arena_end a < x + s + 16"
    "47 \<le> ar_user_size a \<Longrightarrow> r"
proof -
  let ?uo = "ar_user_offset a" and ?us = "ar_user_size a"
  have up: "align_up ?uo 16 = align_up ?uo (2 ^ 4)" by simp
  have "?uo + 2 ^ 4 \<le> 2 ^ 63" using a(2) by (simp add: arena_end_def)
  note A = align_up_bounds [OF this, folded up]
  define x where "x = align_up ?uo 16"
  have x: "?uo \<le> x" "x < ?uo + 16" "16 dvd x" using A by (simp_all add: x_def)
  define sh where "sh = x - ?uo"
  have sh0: "x = ?uo \<Longrightarrow> sh = 0" by (simp add: sh_def)
  define s where "s = align_down (?us - sh) 16"
  have s: "s = (?us - sh) - (?us - sh) mod 16" by (simp add: s_def align_down_def)
  have s16: "16 dvd s" "s \<le> ?us - sh" "?us - sh < s + 16"
  proof -
    show "16 dvd s" unfolding s by (rule dvd_minus_mod)
    have "(?us - sh) mod 16 < 16" by simp
    then show "s \<le> ?us - sh" "?us - sh < s + 16" unfolding s by linarith+
  qed
  define a0 where "a0 = a\<lparr>ar_tlsf := empty_control, ar_user_offset := x, ar_user_size := s\<rparr>"
  let ?f = "\<lambda>b. (tlsf_set_size s True False (b\<lparr>prev_phys_offset := 0\<rparr>))\<lparr>next_free_offset := 0, prev_free_offset := 0\<rparr>"
  show thesis
  proof (cases "?us < 32 \<or> x \<noteq> ?uo \<and> ?us \<le> sh \<or> s < 32")
    case True
    then have "\<exists>a'. tlsf_init a = Inr (False, a')"
      by (cases "x = ?uo")
        (auto simp: tlsf_init_def tlsf_constants Let_def x_def [symmetric] sh_def [symmetric] s_def dest: sh0)
    then obtain a' where "tlsf_init a = Inr (False, a')" ..
    moreover have "?us < 47"
    proof (rule ccontr)
      assume "\<not> ?us < 47"
      moreover have "sh \<le> 15" using x by (simp add: sh_def)
      ultimately have "31 < ?us - sh" by linarith
      have "32 \<le> s"
      proof (rule ccontr)
        assume "\<not> 32 \<le> s"
        then have "s \<le> 16" using s16(1) by (auto elim!: dvdE)
        with s16(3) \<open>31 < ?us - sh\<close> show False by linarith
      qed
      with True \<open>\<not> ?us < 47\<close> \<open>sh \<le> 15\<close> show False by auto
    qed
    ultimately show thesis by (intro that [of False a']) auto
  next
    case False
    define a1 where "a1 = a0\<lparr>ar_heap := (ar_heap a)(x := ?f (ar_heap a x))\<rparr>"
    have init: "tlsf_init a = bind_result (set_header x ?f a0) (\<lambda>a. bind_result (insert_free_block x a) (\<lambda>a. Inr (True, a)))"
    proof (cases "x = ?uo")
      case True
      then have "sh = 0" "a\<lparr>ar_tlsf := empty_control, ar_user_size := s\<rparr> = a0"
        by (simp_all add: sh_def a0_def)
      then show ?thesis
        using False True by (simp add: tlsf_init_def tlsf_constants Let_def x_def [symmetric] s_def)
    next
      case other: False
      then show ?thesis
        using False by (simp add: tlsf_init_def tlsf_constants Let_def x_def [symmetric] sh_def [symmetric] s_def
          [symmetric] a0_def)
    qed
    have x0: "0 < x" using x a(1) by linarith
    have set: "set_header x ?f a0 = Inr a1"
      using False x0 by (simp add: set_header_def mapped_def arena_end_def tlsf_constants a0_def a1_def)
    have end0: "x + s \<le> arena_end a"
      using s16(2) x(1) sh_def False unfolding arena_end_def by linarith
    have four: "4 dvd s" using dvd_trans [of 4 16 s] s16(1) by simp
    have R: "represents a1 [(x, s, True, False)] (\<lambda>_. [])"
      using False x0 x s16 a(2,3) end0 four
      by (simp add: represents_def a1_def a0_def arena_end_def heads_ok_empty)
    obtain a' where a': "insert_free_block x a1 = Inr a'"
        "represents a' [(x, s, True, False)] ((\<lambda>_. [])(mapping_insert s := [x]))"
        "writes_only {} (insert x (\<Union>c. set [])) a1 a'"
      by (rule insert_free_block_represents [OF R, of x s True False]) auto
    have "arena_ok a' [(x, s, True, False)]"
      using a'(2,3) a(4) by (auto simp: arena_ok_def tidy_def writes_only_def a1_def a0_def)
    moreover have "tlsf_init a = Inr (True, a')" using init set a'(1) by simp
    moreover have "arena_end a < x + s + 16"
      using s16(3) x(1) sh_def unfolding arena_end_def by linarith
    ultimately show thesis using that [of True a'] end0 x by blast
  qed
qed

section \<open>The place of the arena\<close>

definition same_place :: "arena \<Rightarrow> arena \<Rightarrow> bool" where
  "same_place a a' \<longleftrightarrow>
     ar_user_offset a' = ar_user_offset a \<and> ar_user_size a' = ar_user_size a \<and> ar_magic a' = ar_magic a"

named_theorems place_intros

lemma same_place_refl [simp]: "same_place a a"
  by (simp add: same_place_def)

lemma same_place_fields [simp]:
  "same_place a (b\<lparr>ar_tlsf := t\<rparr>) = same_place a b" "same_place a (b\<lparr>ar_live_bytes := n\<rparr>) = same_place a b"
  "same_place a (b\<lparr>ar_peak_bytes := m\<rparr>) = same_place a b"
  "same_place a (journal_begin op x y z b) = same_place a b" "same_place a (journal_end b) = same_place a b"
  by (simp_all add: same_place_def journal_begin_def journal_end_def)

text \<open>
  An operation keeps the place when each of its steps does: a step is followed from the arena \<open>a\<close>
  in which the operation starts.
\<close>

definition stays :: "arena \<Rightarrow> ('b \<Rightarrow> arena) \<Rightarrow> 'b result \<Rightarrow> bool" where
  "stays a arena_of r \<longleftrightarrow> (\<forall>x. r = Inr x \<longrightarrow> same_place a (arena_of x))"

lemma stays_simps [simp]:
  "stays a g (Inl e)" "stays a g (Inr x) = same_place a (g x)"
  "stays a g (if c then r else r') = (if c then stays a g r else stays a g r')"
  by (auto simp: stays_def)

lemma stays_bind_header [place_intros]:
  "(\<And>b. stays a g (k b)) \<Longrightarrow> stays a g (bind_result (header_at x c) k)"
  by (auto simp: stays_def bind_result_eq_Inr)

lemma stays_bind [place_intros]:
  "stays a (\<lambda>x. x) r \<Longrightarrow> (\<And>x. same_place a x \<Longrightarrow> stays a g (k x)) \<Longrightarrow> stays a g (bind_result r k)"
  "stays a snd r2 \<Longrightarrow> (\<And>x. same_place a (snd x) \<Longrightarrow> stays a g (k2 x)) \<Longrightarrow> stays a g (bind_result r2 k2)"
  by (auto simp: stays_def bind_result_eq_Inr)

lemma stays_bind_block [place_intros]:
  "(\<And>b. stays a g (k b)) \<Longrightarrow> stays a g (bind_result (next_phys_block x c) k)"
  "(\<And>b. stays a g (k b)) \<Longrightarrow> stays a g (bind_result (prev_phys_block x c) k)"
  by (auto simp: stays_def bind_result_eq_Inr)

lemma stays_set_header [place_intros]: "same_place a b \<Longrightarrow> stays a (\<lambda>x. x) (set_header x f b)"
  by (auto simp: stays_def set_header_def same_place_def)

lemma stays_update_after [place_intros]: "same_place a b \<Longrightarrow> stays a (\<lambda>x. x) (update_after x f b)"
  unfolding update_after_def by (intro place_intros) (auto intro!: stays_set_header)

lemma stays_insert_free_block [place_intros]: "same_place a b \<Longrightarrow> stays a (\<lambda>x. x) (insert_free_block x b)"
  unfolding insert_free_block_def by (auto simp: Let_def intro!: place_intros)

lemma stays_remove_free_block [place_intros]: "same_place a b \<Longrightarrow> stays a (\<lambda>x. x) (remove_free_block x b)"
  unfolding remove_free_block_def by (auto simp: Let_def intro!: place_intros)

lemma stays_split_block [place_intros]: "same_place a b \<Longrightarrow> stays a snd (split_block_if_possible x n b)"
  unfolding split_block_if_possible_def by (auto simp: Let_def intro!: place_intros)

lemma stays_absorb [place_intros]:
  "same_place a b \<Longrightarrow> stays a (\<lambda>x. x) (absorb_next_if_free x b)"
  "same_place a b \<Longrightarrow> stays a snd (absorb_prev_if_free x b)"
  unfolding absorb_next_if_free_def absorb_prev_if_free_def by (auto simp: Let_def intro!: place_intros)

lemma stays_carve_prefix [place_intros]: "same_place a b \<Longrightarrow> stays a snd (carve_prefix x g b)"
  unfolding carve_prefix_def by (auto simp: Let_def intro!: place_intros)

lemma stays_occupy_block [place_intros]: "same_place a b \<Longrightarrow> stays a snd (occupy_block x n b)"
  unfolding occupy_block_def by (auto simp: Let_def case_prod_beta intro!: place_intros)

lemma stays_allocate_block [place_intros]: "same_place a b \<Longrightarrow> stays a snd (allocate_block x n m b)"
  unfolding allocate_block_def by (auto simp: Let_def case_prod_beta intro!: place_intros)

lemma stays_tlsf_allocate: "stays a snd (tlsf_allocate sz m a)"
  unfolding tlsf_allocate_def
  by (auto simp: Let_def case_prod_beta intro!: place_intros split: option.split)

lemma stays_tlsf_deallocate: "stays a (\<lambda>x. x) (tlsf_deallocate p a)"
  unfolding tlsf_deallocate_def by (auto simp: Let_def case_prod_beta intro!: place_intros)

lemmas tlsf_allocate_place = stays_tlsf_allocate [unfolded stays_def, rule_format]

lemmas tlsf_deallocate_place = stays_tlsf_deallocate [unfolded stays_def, rule_format]

end
