(* ===== verification/TlsfRecovery.thy ===== *)
theory TlsfRecovery
  imports TlsfOps
begin

chapter \<open>Recovery and integrity check of a TLSF arena\<close>

text \<open>
  The loops of \<open>tlsf_recover\<close> and \<open>tlsf_check_integrity\<close> on an arena whose sizes lead from
  the first block to the end (\<open>spine\<close>). By induction on the blocks, the part of the arena that
  recovery has passed satisfies the invariant of \<open>TlsfChain\<close> for an arena that ends there
  (\<open>truncated\<close>).
\<close>

section \<open>Recovery\<close>

text \<open>
  What survives a crash: the sizes and the flags of the blocks, from the first to the end. Everything
  else, that is the offsets of the neighbours, the flags for the block before, the links, the tables
  and the number of live bytes, can be damaged.
\<close>

fun spine :: "(nat \<Rightarrow> tlsf_block_header) \<Rightarrow> nat \<Rightarrow> (nat \<times> bool) list \<Rightarrow> nat \<Rightarrow> bool" where
  "spine h off [] e = (off = e)"
| "spine h off ((s, f) # bs) e =
     (32 \<le> s \<and> 16 dvd s \<and> (\<exists>p. size_and_flags (h off) = flag_word s f p) \<and> spine h (off + s) bs e)"

fun chain_of :: "nat \<Rightarrow> bool \<Rightarrow> (nat \<times> bool) list \<Rightarrow> block list" where
  "chain_of off prev_free [] = []"
| "chain_of off prev_free ((s, f) # bs) = (off, s, f, prev_free) # chain_of (off + s) f bs"

lemma spine_cong:
  "(\<And>x. off \<le> x \<Longrightarrow> size_and_flags (h x) = size_and_flags (h' x)) \<Longrightarrow> spine h off bs e = spine h' off bs e"
  by (induction h off bs e rule: spine.induct) auto

lemma spine_end_le: "spine h off bs e \<Longrightarrow> off \<le> e"
  by (induction h off bs e rule: spine.induct) auto

lemma flags_agree_chain_of: "flags_agree p (chain_of off p bs)"
  by (induction off p bs rule: chain_of.induct) auto

text \<open>The arena up to an offset.\<close>

definition truncated :: "nat \<Rightarrow> arena \<Rightarrow> arena" where
  "truncated off a = a\<lparr>ar_user_size := off - ar_user_offset a\<rparr>"

lemma truncated_simps [simp]:
  "ar_heap (truncated off a) = ar_heap a" "ar_tlsf (truncated off a) = ar_tlsf a"
  "ar_user_offset (truncated off a) = ar_user_offset a" "ar_journal (truncated off a) = ar_journal a"
  "ar_user_offset a \<le> off \<Longrightarrow> arena_end (truncated off a) = off"
  by (simp_all add: truncated_def arena_end_def)

text \<open>What succeeds in a part of the arena does the same in the whole.\<close>

lemma mapped_truncated: "mapped x (truncated off a) \<Longrightarrow> off \<le> arena_end a \<Longrightarrow> mapped x a"
  by (auto simp: mapped_def truncated_def arena_end_def)

lemma insert_free_block_truncated:
  assumes "insert_free_block x (truncated off a) = Inr b" "off \<le> arena_end a"
  obtains a' where "insert_free_block x a = Inr a'" "b = truncated off a'" "arena_end a' = arena_end a"
    "ar_user_offset a' = ar_user_offset a" "ar_user_size a' = ar_user_size a"
    "ar_journal a' = ar_journal a" "ar_magic a' = ar_magic a"
proof -
  let ?u = "truncated off"
  define same where "same a' \<longleftrightarrow> arena_end a' = arena_end a \<and> ar_user_offset a' = ar_user_offset a \<and>
    ar_user_size a' = ar_user_size a \<and> ar_journal a' = ar_journal a \<and> ar_magic a' = ar_magic a" for a' :: arena
  have set: "\<exists>c'. set_header y f c = Inr c' \<and> d = ?u c' \<and> same c'"
    if "set_header y f (?u c) = Inr d" "same c" for y f c d
    using that mapped_truncated [of y off c] assms(2)
    by (auto simp: set_header_def same_def truncated_def arena_end_def split: if_splits)
  have head: "header_at x a = Inr h" if "header_at x (?u a) = Inr h" for h
    using that mapped_truncated [of x off a] assms(2) by (auto simp: header_at_def split: if_splits)
  obtain h where h: "header_at x (?u a) = Inr h"
    using assms(1) by (auto simp: insert_free_block_def bind_result_eq_Inr)
  let ?c = "mapping_insert (tlsf_block_size h)"
  let ?o = "free_list (ar_tlsf a) (fst ?c) (snd ?c)"
  have tab: "class_in_tables ?c"
    using assms(1) h by (auto simp: insert_free_block_def Let_def split: if_splits)
  obtain b1 where b1: "set_header x (\<lambda>b. b\<lparr>next_free_offset := ?o, prev_free_offset := 0\<rparr>) (?u a) = Inr b1"
    and rest: "bind_result (if ?o \<noteq> 0 then set_header ?o (\<lambda>b. b\<lparr>prev_free_offset := x\<rparr>) b1 else Inr b1)
      (\<lambda>a. Inr (a\<lparr>ar_tlsf := push_class x ?c (ar_tlsf a)\<rparr>)) = Inr b"
    using assms(1) h tab by (auto simp: insert_free_block_def Let_def bind_result_eq_Inr)
  obtain a1 where a1: "set_header x (\<lambda>b. b\<lparr>next_free_offset := ?o, prev_free_offset := 0\<rparr>) a = Inr a1"
      "b1 = ?u a1" "same a1"
    using set [OF b1] by (auto simp: same_def)
  obtain a2 where a2: "(if ?o \<noteq> 0 then set_header ?o (\<lambda>b. b\<lparr>prev_free_offset := x\<rparr>) a1 else Inr a1) = Inr a2"
      "b = (?u a2)\<lparr>ar_tlsf := push_class x ?c (ar_tlsf (?u a2))\<rparr>" "same a2"
  proof (cases "?o = 0")
    case True
    then show ?thesis using that [of a1] rest a1 by simp
  next
    case False
    then obtain b2 where "set_header ?o (\<lambda>b. b\<lparr>prev_free_offset := x\<rparr>) (?u a1) = Inr b2"
        "b = b2\<lparr>ar_tlsf := push_class x ?c (ar_tlsf b2)\<rparr>"
      using rest a1(2) by (auto simp: bind_result_eq_Inr)
    moreover obtain a2 where "set_header ?o (\<lambda>b. b\<lparr>prev_free_offset := x\<rparr>) a1 = Inr a2" "b2 = ?u a2" "same a2"
      using set [OF calculation(1) a1(3)] by blast
    ultimately show ?thesis using that False by simp
  qed
  define a' where "a' = a2\<lparr>ar_tlsf := push_class x ?c (ar_tlsf a2)\<rparr>"
  have "insert_free_block x a = Inr a'"
    using head [OF h] tab a1(1) a2(1) by (simp add: insert_free_block_def Let_def a'_def)
  moreover have "b = ?u a'" using a2(2) by (simp add: a'_def truncated_def)
  moreover have "same a'" using a2(3) by (simp add: same_def a'_def arena_end_def)
  ultimately show thesis using that unfolding same_def by blast
qed

text \<open>The bytes that the loop counts.\<close>

fun counted :: "(nat \<Rightarrow> bool) \<Rightarrow> block list \<Rightarrow> nat" where
  "counted is_chunk [] = 0"
| "counted is_chunk ((x, s, f, p) # bs) =
     (if f \<or> is_chunk (x + 16) then 0 else s) + counted is_chunk bs"

lemma recover_loop_rebuilds:
  assumes "represents (truncated off a) bs L" "listed bs L" "flags_agree False bs"
    "prev_off = last_of (map fst bs) 0" "prev_free = last_free False bs"
    "spine (ar_heap a) off rest (arena_end a)" "arena_end a < 2 ^ 62" "ar_user_size a < 2 ^ 32"
    "live + (arena_end a - off) < 2 ^ 64" "ar_user_offset a \<le> off"
  shows "\<exists>a' L'. recover_loop is_chunk off prev_off prev_free live a =
      Some (Inr (Some (arena_end a, live + counted is_chunk (chain_of off prev_free rest)), a')) \<and>
    represents a' (bs @ chain_of off prev_free rest) L' \<and> listed (bs @ chain_of off prev_free rest) L' \<and>
    ar_user_offset a' = ar_user_offset a \<and> ar_user_size a' = ar_user_size a \<and>
    ar_journal a' = ar_journal a \<and> ar_magic a' = ar_magic a"
  using assms
proof (induction rest arbitrary: off a bs L prev_off prev_free live)
  case Nil
  then have "off = arena_end a" by simp
  moreover have "truncated (arena_end a) a = a" by (simp add: truncated_def arena_end_def)
  ultimately show ?case using Nil by (simp add: recover_loop.simps) blast
next
  case (Cons b rest)
  obtain s f where b: "b = (s, f)" by (cases b)
  have sp: "32 \<le> s" "16 dvd s" "spine (ar_heap a) (off + s) rest (arena_end a)"
    using Cons.prems(6) b by auto
  obtain p0 where p0: "size_and_flags (ar_heap a off) = flag_word s f p0" using Cons.prems(6) b by auto
  have four: "4 dvd s" using dvd_trans [of 4 16 s] sp(2) by simp
  note H = block_size_flag_word [OF p0 four]
  have e: "off + s \<le> arena_end a" using spine_end_le [OF sp(3)] .
  note uo = Cons.prems(10)
  note R = representsD [OF Cons.prems(1)]
  have chain0: "chain (ar_heap a) 0 (ar_user_offset a) bs off" using R(5) uo by simp
  have off_new: "off \<notin> fst ` set bs"
  proof
    assume "off \<in> fst ` set bs"
    then obtain t g q where "(off, t, g, q) \<in> set bs" by force
    then show False using chain_bounds [OF chain0] by fastforce
  qed
  have off_new_L: "off \<notin> set (L c)" for c
    using R(9) [of off c] off_new by force
  have m: "mapped off a" using R(2) uo e sp(1) by (simp add: mapped_def tlsf_constants)
  have add: "add64 off s = off + s" using e Cons.prems(7) by (intro add64_eq) simp
  let ?g = "\<lambda>b. tlsf_set_prev_free_flag prev_free (b\<lparr>prev_phys_offset := prev_off\<rparr>)"
  define a1 where "a1 = a\<lparr>ar_heap := (ar_heap a)(off := ?g (ar_heap a off))\<rparr>"
  have saf: "size_and_flags (ar_heap a1 off) = flag_word s f prev_free"
    using p0 four by (simp add: a1_def set_prev_free_flag_word)
  have ends: "arena_end (truncated (off + s) a1) = off + s" "arena_end a1 = arena_end a"
    using uo by (simp_all add: a1_def truncated_def arena_end_def)
  have fields: "ar_user_offset a1 = ar_user_offset a" "ar_user_size a1 = ar_user_size a"
    "ar_journal a1 = ar_journal a" "ar_magic a1 = ar_magic a"
    by (simp_all add: a1_def)
  have members: "\<exists>t g q. (x, t, g, q) \<in> set (bs @ [(off, s, f, prev_free)]) \<and> mapping_insert t = c"
    if "x \<in> set (L c)" for x c
    using R(9) [OF that] by auto
  have R1: "represents (truncated (off + s) a1) (bs @ [(off, s, f, prev_free)]) L"
    unfolding represents_def ends
  proof (intro conjI allI impI)
    show "chain (ar_heap (truncated (off + s) a1)) 0 (ar_user_offset (truncated (off + s) a1)) (bs @ [(off, s, f, prev_free)]) (off + s)"
      using chain0 off_new saf sp Cons.prems(4)
      by (simp add: chain_append) (simp add: a1_def chain_other)
    show "links (ar_heap (truncated (off + s) a1)) 0 (L c) 0" for c
      using R(7) [of c] off_new_L [of c] by (simp add: a1_def links_other)
    show "off + s < 2 ^ 62" using e Cons.prems(7) by simp
    show "ar_user_size (truncated (off + s) a1) < 2 ^ 32"
      using e uo Cons.prems(8) by (simp add: a1_def truncated_def arena_end_def)
  qed (use R members in \<open>simp_all add: a1_def\<close>)
  have spine1: "spine (ar_heap a1) (off + s) rest (arena_end a1)"
    using sp(3) spine_cong [of "off + s" "ar_heap a1" "ar_heap a"] sp(1) ends by (simp add: a1_def)
  have step: "recover_loop is_chunk off prev_off prev_free live a =
     (if f then case bind_result (set_header off (\<lambda>b. b\<lparr>next_free_offset := 0, prev_free_offset := 0\<rparr>) a1)
                      (insert_free_block off) of
                 Inl e \<Rightarrow> Some (Inl e)
               | Inr a \<Rightarrow> recover_loop is_chunk (off + s) off True live a
      else recover_loop is_chunk (off + s) off False (if is_chunk (off + 16) then live else add64 live s) a1)"
    using m H e sp(1) by (subst recover_loop.simps)
      (simp add: header_at_def set_header_def Let_def tlsf_constants add a1_def split: sum.split)
  show ?case
  proof (cases f)
    case False
    have "add64 live s = live + s" using Cons.prems(9) e by (intro add64_eq) simp
    moreover have "\<exists>a' L'. recover_loop is_chunk (off + s) off False (if is_chunk (off + 16) then live else live + s) a1 =
      Some (Inr (Some (arena_end a1, (if is_chunk (off + 16) then live else live + s) +
        counted is_chunk (chain_of (off + s) False rest)), a')) \<and>
      represents a' ((bs @ [(off, s, f, prev_free)]) @ chain_of (off + s) False rest) L' \<and>
      listed ((bs @ [(off, s, f, prev_free)]) @ chain_of (off + s) False rest) L' \<and>
      ar_user_offset a' = ar_user_offset a1 \<and> ar_user_size a' = ar_user_size a1 \<and>
      ar_journal a' = ar_journal a1 \<and> ar_magic a' = ar_magic a1"
    proof (rule Cons.IH [OF R1])
      show "listed (bs @ [(off, s, f, prev_free)]) L" using Cons.prems(2) False off_new_L by simp
      show "flags_agree False (bs @ [(off, s, f, prev_free)])" using Cons.prems(3,5) by simp
    qed (use False spine1 Cons.prems(7-10) e ends fields in auto)
    ultimately show ?thesis
      using False step ends fields by (cases "is_chunk (off + 16)") (simp_all add: b add.assoc)
  next
    case True
    define a2 where "a2 = a1\<lparr>ar_heap := (ar_heap a1)(off := (ar_heap a1 off)\<lparr>next_free_offset := 0, prev_free_offset := 0\<rparr>)\<rparr>"
    have fields2: "ar_user_offset a2 = ar_user_offset a1" "ar_user_size a2 = ar_user_size a1"
      "ar_journal a2 = ar_journal a1" "ar_magic a2 = ar_magic a1" "arena_end a2 = arena_end a1"
      by (simp_all add: a2_def arena_end_def)
    have set2: "set_header off (\<lambda>b. b\<lparr>next_free_offset := 0, prev_free_offset := 0\<rparr>) a1 = Inr a2"
      using m by (simp add: set_header_def a2_def a1_def mapped_def arena_end_def)
    have R2: "represents (truncated (off + s) a2) (bs @ [(off, s, f, prev_free)]) L"
    proof (rule represents_new_chain [OF R1, of "{}" "{off}"])
      show "writes_only {} {off} (truncated (off + s) a1) (truncated (off + s) a2)"
        by (simp add: writes_only_def a2_def truncated_def)
      show "same_tables (truncated (off + s) a1) (truncated (off + s) a2)"
        by (simp add: same_tables_def a2_def truncated_def)
      have "chain (ar_heap a2) 0 (ar_user_offset a1) (bs @ [(off, s, f, prev_free)]) (off + s) =
          chain (ar_heap a1) 0 (ar_user_offset a1) (bs @ [(off, s, f, prev_free)]) (off + s)"
        by (rule chain_cong) (auto simp: a2_def)
      then show "chain (ar_heap (truncated (off + s) a2)) 0 (ar_user_offset (truncated (off + s) a1))
          (bs @ [(off, s, f, prev_free)]) (arena_end (truncated (off + s) a1))"
        using representsD(5) [OF R1] ends by simp
    qed (use off_new_L in blast)
    obtain b3 where b3: "insert_free_block off (truncated (off + s) a2) = Inr b3"
        "represents b3 (bs @ [(off, s, f, prev_free)]) (L(mapping_insert s := off # L (mapping_insert s)))" (is "represents b3 _ ?L")
        "writes_only {} (insert off (\<Union>c. set (L c))) (truncated (off + s) a2) b3"
      by (rule insert_free_block_represents [OF R2, of off s f prev_free]) (use off_new_L in auto)
    have "off + s \<le> arena_end a2" using e by (simp add: a2_def a1_def arena_end_def)
    then obtain a3 where a3: "insert_free_block off a2 = Inr a3" "b3 = truncated (off + s) a3" "arena_end a3 = arena_end a2"
        "ar_user_offset a3 = ar_user_offset a2" "ar_user_size a3 = ar_user_size a2"
        "ar_journal a3 = ar_journal a2" "ar_magic a3 = ar_magic a2"
      by (rule insert_free_block_truncated [OF b3(1)])
    have spine3: "spine (ar_heap a3) (off + s) rest (arena_end a3)"
    proof -
      have "size_and_flags (ar_heap a3 x) = size_and_flags (ar_heap a1 x)" if "off + s \<le> x" for x
      proof -
        have "x \<notin> set (L c)" for c
        proof
          assume "x \<in> set (L c)"
          then obtain t g q where "(x, t, g, q) \<in> set bs" using R(9) [of x c] by auto
          then show False using chain_bounds [OF chain0] that by fastforce
        qed
        moreover have "x \<noteq> off" using that sp(1) by linarith
        ultimately have "ar_heap b3 x = ar_heap (truncated (off + s) a2) x"
          using b3(3) unfolding writes_only_def by blast
        then show ?thesis using \<open>x \<noteq> off\<close> by (simp add: a3(2) a2_def)
      qed
      then have "spine (ar_heap a3) (off + s) rest (arena_end a1) = spine (ar_heap a1) (off + s) rest (arena_end a1)"
        by (rule spine_cong)
      then show ?thesis using spine1 a3(3) by (simp add: a2_def arena_end_def)
    qed
    have "\<exists>a' L'. recover_loop is_chunk (off + s) off True live a3 =
      Some (Inr (Some (arena_end a3, live + counted is_chunk (chain_of (off + s) True rest)), a')) \<and>
      represents a' ((bs @ [(off, s, f, prev_free)]) @ chain_of (off + s) True rest) L' \<and>
      listed ((bs @ [(off, s, f, prev_free)]) @ chain_of (off + s) True rest) L' \<and>
      ar_user_offset a' = ar_user_offset a3 \<and> ar_user_size a' = ar_user_size a3 \<and>
      ar_journal a' = ar_journal a3 \<and> ar_magic a' = ar_magic a3"
    proof (rule Cons.IH [OF b3(2) [unfolded a3(2)]])
      show "listed (bs @ [(off, s, f, prev_free)]) ?L"
        using listed_insert_into [OF Cons.prems(2) off_new] True by simp
      show "flags_agree False (bs @ [(off, s, f, prev_free)])" using Cons.prems(3,5) by simp
    qed (use True spine3 Cons.prems(7-10) e ends fields a3 fields2 in auto)
    then show ?thesis
      using True step set2 a3 ends fields fields2 by (simp add: b)
  qed
qed


lemma heads_ok_lists_empty: "heads_ok empty_control L \<Longrightarrow> L c = []"
proof -
  assume h: "heads_ok empty_control L"
  obtain fl sl where c: "c = (fl, sl)" by fastforce
  show ?thesis
  proof (rule ccontr)
    assume ne: "L c \<noteq> []"
    then have "sl < 32" using heads_okD(4) [OF h ne] by (simp add: c class_in_tables_def tlsf_constants)
    from heads_okD(2) [OF h this, of fl] ne show False by (simp add: c empty_control_def)
  qed
qed

text \<open>Recovery of an arena whose sizes and free flags are intact.\<close>

lemma tlsf_recover_rebuilds_all:
  assumes a: "0 < ar_user_offset a" "16 dvd ar_user_offset a" "arena_end a < 2 ^ 62" "ar_user_size a < 2 ^ 32"
    and dirty: "jn_op (ar_journal a) \<noteq> no_op"
    and sp: "spine (ar_heap a) (ar_user_offset a) bs (arena_end a)"
  defines "blocks \<equiv> chain_of (ar_user_offset a) False bs"
  obtains a' L where "tlsf_recover is_chunk a = Some (Inr a')" "tidy a' blocks L"
    "ar_live_bytes a' = counted is_chunk blocks" "ar_user_offset a' = ar_user_offset a"
    "ar_user_size a' = ar_user_size a" "ar_journal a' = ar_journal a" "ar_magic a' = ar_magic a"
proof -
  let ?a0 = "a\<lparr>ar_tlsf := empty_control\<rparr>" and ?uo = "ar_user_offset a"
  have e0: "arena_end ?a0 = arena_end a" by (simp add: arena_end_def)
  have R0: "represents (truncated ?uo ?a0) [] (\<lambda>_. [])"
    using a by (simp add: represents_def heads_ok_empty) (simp add: truncated_def arena_end_def)
  have "\<exists>a' L'. recover_loop is_chunk ?uo 0 False 0 ?a0 =
      Some (Inr (Some (arena_end ?a0, 0 + counted is_chunk (chain_of ?uo False bs)), a')) \<and>
    represents a' ([] @ chain_of ?uo False bs) L' \<and> listed ([] @ chain_of ?uo False bs) L' \<and>
    ar_user_offset a' = ar_user_offset ?a0 \<and> ar_user_size a' = ar_user_size ?a0 \<and>
    ar_journal a' = ar_journal ?a0 \<and> ar_magic a' = ar_magic ?a0"
    by (rule recover_loop_rebuilds [OF R0]) (use a sp e0 in auto)
  then obtain a1 L where a1: "recover_loop is_chunk ?uo 0 False 0 ?a0 = Some (Inr (Some (arena_end a, counted is_chunk blocks), a1))"
      "represents a1 blocks L" "listed blocks L" "ar_user_offset a1 = ?uo" "ar_user_size a1 = ar_user_size a"
      "ar_journal a1 = ar_journal a" "ar_magic a1 = ar_magic a"
    by (auto simp: e0 blocks_def)
  let ?a' = "a1\<lparr>ar_live_bytes := counted is_chunk blocks\<rparr>"
  have "arena_end a1 = arena_end a" using a1 by (simp add: arena_end_def)
  then have "tlsf_recover is_chunk a = Some (Inr ?a')"
    using dirty a1(1) by (simp add: tlsf_recover_def)
  moreover have "tidy ?a' blocks L"
    using a1(2,3) flags_agree_chain_of unfolding tidy_def represents_def blocks_def by (simp add: arena_end_def)
  ultimately show thesis using that [of ?a' L] a1 by simp
qed

section \<open>The integrity check\<close>

lemma check_loop_iff:
  assumes "spine (ar_heap a) off bs (arena_end a)" "arena_end a < 2 ^ 62" "0 < off" "ar_user_offset a \<le> off"
  shows "\<exists>r. check_loop off prev_off prev_free a = Some (Inr r) \<and>
    (r = ok_status \<longleftrightarrow> chain (ar_heap a) prev_off off (chain_of off prev_free bs) (arena_end a))"
  using assms
proof (induction bs arbitrary: off prev_off prev_free)
  case Nil
  then show ?case by (simp add: check_loop.simps)
next
  case (Cons b bs)
  obtain s f where b: "b = (s, f)" by (cases b)
  obtain p0 where sp: "32 \<le> s" "16 dvd s" "spine (ar_heap a) (off + s) bs (arena_end a)"
      "size_and_flags (ar_heap a off) = flag_word s f p0"
    using Cons.prems(1) b by auto
  have four: "4 dvd s" using dvd_trans [of 4 16 s] sp(2) by simp
  note H = block_size_flag_word [OF sp(4) four]
  have e: "off + s \<le> arena_end a" using spine_end_le [OF sp(3)] .
  have m: "mapped off a" using Cons.prems(3,4) e sp(1) by (simp add: mapped_def tlsf_constants)
  have add: "add64 off s = off + s" using e Cons.prems(2) by (intro add64_eq) simp
  have step: "check_loop off prev_off prev_free a =
      (if prev_phys_offset (ar_heap a off) \<noteq> prev_off then Some (Inr block_corrupted)
       else if p0 \<noteq> prev_free then Some (Inr tlsf_inconsistent) else check_loop (off + s) off f a)"
    using m H e sp(1) by (subst check_loop.simps) (simp add: header_at_def Let_def tlsf_constants add)
  have same_flags: "flag_word s f p0 = flag_word s f prev_free \<longleftrightarrow> p0 = prev_free"
    by (auto simp: flag_word_def)
  obtain r where r: "check_loop (off + s) off f a = Some (Inr r)"
      "r = ok_status \<longleftrightarrow> chain (ar_heap a) off (off + s) (chain_of (off + s) f bs) (arena_end a)"
    using Cons.IH [OF sp(3)] Cons.prems by auto
  show ?case
    using r sp same_flags unfolding step by (auto simp: b)
qed

end
