(* ===== verification/TlsfSafety.thy ===== *)
theory TlsfSafety
  imports TlsfRecovery
begin

chapter \<open>What the TLSF allocator promises\<close>

text \<open>
  The contract between an allocator and its clients is the locale \<open>region_allocator\<close>: the
  regions held are disjoint, an allocation adds one or none, and a release removes one. The client, a
  list of requests run by \<open>serve\<close>, is proved safe from the contract alone; the interpretation
  \<open>served\<close> discharges it for \<open>tlsf_allocate\<close> and \<open>tlsf_deallocate\<close> on every
  well-formed arena. The properties of the component follow.
\<close>

section \<open>Clients of an allocator\<close>

text \<open>
  A client asks for payloads and gives back those it holds, by their position among them. It holds each
  payload with the size and the alignment that it asked for.
\<close>

datatype request = Allocate nat nat | Release nat

fun serve ::
    "(nat \<Rightarrow> nat \<Rightarrow> 'a \<Rightarrow> (nat \<times> 'a) result) \<Rightarrow> (nat \<Rightarrow> 'a \<Rightarrow> 'a result) \<Rightarrow>
     request list \<Rightarrow> (nat \<times> nat \<times> nat) list \<Rightarrow> 'a \<Rightarrow> ((nat \<times> nat \<times> nat) list \<times> 'a) result" where
  "serve allocate release [] held a = Inr (held, a)"
| "serve allocate release (Allocate sz alignment # rs) held a =
     bind_result (allocate sz alignment a) (\<lambda>(p, a).
       serve allocate release rs (if p = 0 then held else (p, sz, alignment) # held) a)"
| "serve allocate release (Release i # rs) held a =
     (if i < length held
      then bind_result (release (fst (held ! i)) a)
             (serve allocate release rs (take i held @ drop (Suc i) held))
      else serve allocate release rs held a)"

fun permitted :: "(nat \<Rightarrow> nat \<Rightarrow> bool) \<Rightarrow> request \<Rightarrow> bool" where
  "permitted allowed (Allocate sz alignment) = allowed sz alignment"
| "permitted allowed (Release i) = True"

text \<open>
  The contract: an allocator holds a set of regions, each a payload with its room. \<open>room\<close> is what it
  promises for a request that is \<open>allowed\<close>.
\<close>

locale region_allocator =
  fixes allocate :: "nat \<Rightarrow> nat \<Rightarrow> 'a \<Rightarrow> (nat \<times> 'a) result"
    and release :: "nat \<Rightarrow> 'a \<Rightarrow> 'a result"
    and holds :: "'a \<Rightarrow> (nat \<times> nat) set \<Rightarrow> bool"
    and allowed :: "nat \<Rightarrow> nat \<Rightarrow> bool"
    and room :: "nat \<Rightarrow> nat \<Rightarrow> nat"
  assumes allocate_holds:
      "holds a R \<Longrightarrow> allowed sz alignment \<Longrightarrow>
         \<exists>p a'. allocate sz alignment a = Inr (p, a') \<and>
           (p = 0 \<and> holds a' R \<or>
            (\<exists>n\<ge>room sz alignment. p \<noteq> 0 \<and> p \<notin> fst ` R \<and> alignment dvd p \<and> holds a' (insert (p, n) R)))"
    and release_holds: "holds a R \<Longrightarrow> (p, n) \<in> R \<Longrightarrow> \<exists>a'. release p a = Inr a' \<and> holds a' (R - {(p, n)})"
    and regions_disjoint:
      "holds a R \<Longrightarrow> (p, n) \<in> R \<Longrightarrow> (q, m) \<in> R \<Longrightarrow> (p, n) \<noteq> (q, m) \<Longrightarrow> p + n \<le> q \<or> q + m \<le> p"
    and regions_unique: "holds a R \<Longrightarrow> (p, n) \<in> R \<Longrightarrow> (p, m) \<in> R \<Longrightarrow> n = m"
begin

text \<open>The client holds exactly the regions of the allocator, each aligned and with the room promised for it.\<close>

definition agrees :: "(nat \<times> nat) set \<Rightarrow> (nat \<times> nat \<times> nat) list \<Rightarrow> bool" where
  "agrees R held \<longleftrightarrow> distinct (map fst held) \<and> fst ` set held = fst ` R \<and>
     (\<forall>(p, sz, alignment) \<in> set held. alignment dvd p \<and> (\<exists>n\<ge>room sz alignment. (p, n) \<in> R))"

lemma agreesD: "agrees R held \<Longrightarrow> (q, sz, alignment) \<in> set held \<Longrightarrow> alignment dvd q \<and> (\<exists>n\<ge>room sz alignment. (q, n) \<in> R)"
  by (auto simp: agrees_def)

lemma agrees_drop:
  assumes h: "holds a R" and A: "agrees R (xs @ (p, r) # ys)" and n: "(p, n) \<in> R"
  shows "agrees (R - {(p, n)}) (xs @ ys)"
proof -
  have d: "p \<notin> fst ` set (xs @ ys)" "distinct (map fst (xs @ ys))"
    using A by (auto simp: agrees_def)
  have only: "m = n" if "(p, m) \<in> R" for m using regions_unique [OF h that n] .
  have dom: "insert p (fst ` set (xs @ ys)) = fst ` R" using A by (auto simp: agrees_def)
  have "fst ` (R - {(p, n)}) = fst ` R - {p}"
  proof (intro equalityI subsetI)
    fix x assume "x \<in> fst ` (R - {(p, n)})"
    then obtain r where r: "r \<in> R" "r \<noteq> (p, n)" "x = fst r" by blast
    then have "x \<noteq> p" using only [of "snd r"] by (cases r) auto
    then show "x \<in> fst ` R - {p}" using r by blast
  next
    fix x assume "x \<in> fst ` R - {p}"
    then obtain m where "(x, m) \<in> R" "x \<noteq> p" by auto
    then have "(x, m) \<in> R - {(p, n)}" by simp
    then show "x \<in> fst ` (R - {(p, n)})" by (auto intro: rev_image_eqI)
  qed
  then have "fst ` set (xs @ ys) = fst ` (R - {(p, n)})" using dom d(1) by auto
  moreover have "l dvd q \<and> (\<exists>n'\<ge>room sz l. (q, n') \<in> R - {(p, n)})" if q: "(q, sz, l) \<in> set (xs @ ys)" for q sz l
  proof -
    have "q \<noteq> p" using q d(1) by force
    moreover have "l dvd q \<and> (\<exists>n'\<ge>room sz l. (q, n') \<in> R)" by (rule agreesD [OF A]) (use q in auto)
    ultimately show ?thesis by blast
  qed
  ultimately show ?thesis using d(2) unfolding agrees_def by auto
qed

lemma serve_safe:
  assumes "holds a R" "agrees R held" "list_all (permitted allowed) rs"
  shows "\<exists>held' a' R'. serve allocate release rs held a = Inr (held', a') \<and> holds a' R' \<and> agrees R' held'"
  using assms
proof (induction rs arbitrary: held a R)
  case Nil
  then show ?case by auto
next
  case (Cons r rs)
  have rs: "list_all (permitted allowed) rs" using Cons.prems(3) by simp
  show ?case
  proof (cases r)
    case (Allocate sz alignment)
    then have "allowed sz alignment" using Cons.prems(3) by simp
    from allocate_holds [OF Cons.prems(1) this] obtain p a1 where a1: "allocate sz alignment a = Inr (p, a1)"
        "p = 0 \<and> holds a1 R \<or>
         (\<exists>n\<ge>room sz alignment. p \<noteq> 0 \<and> p \<notin> fst ` R \<and> alignment dvd p \<and> holds a1 (insert (p, n) R))"
      by (elim exE conjE)
    have step: "serve allocate release (r # rs) held a =
        serve allocate release rs (if p = 0 then held else (p, sz, alignment) # held) a1"
      using a1(1) Allocate by simp
    have "\<exists>R1. holds a1 R1 \<and> agrees R1 (if p = 0 then held else (p, sz, alignment) # held)"
      using a1(2)
    proof (elim disjE exE conjE)
      fix n assume n: "room sz alignment \<le> n" "p \<noteq> 0" "p \<notin> fst ` R" "alignment dvd p" "holds a1 (insert (p, n) R)"
      have "agrees (insert (p, n) R) ((p, sz, alignment) # held)"
        using Cons.prems(2) n(1,3,4) unfolding agrees_def by auto
      then show ?thesis using n(2,5) by auto
    next
      assume "p = 0" "holds a1 R"
      then show ?thesis using Cons.prems(2) by (intro exI [of _ R]) simp
    qed
    then obtain R1 where R1: "holds a1 R1" "agrees R1 (if p = 0 then held else (p, sz, alignment) # held)" by blast
    show ?thesis unfolding step by (rule Cons.IH [OF R1 rs])
  next
    case (Release i)
    show ?thesis
    proof (cases "i < length held")
      case False
      then have "serve allocate release (r # rs) held a = serve allocate release rs held a" using Release by simp
      then show ?thesis using Cons.IH [OF Cons.prems(1,2) rs] by presburger
    next
      case True
      obtain p sz l where ps: "held ! i = (p, sz, l)" by (cases "held ! i") auto
      then have split: "held = take i held @ (p, sz, l) # drop (Suc i) held" using True id_take_nth_drop by metis
      have "(p, sz, l) \<in> set held" using True ps nth_mem by metis
      then obtain n where n: "(p, n) \<in> R" using agreesD [OF Cons.prems(2)] by blast
      obtain a1 where a1: "release p a = Inr a1" "holds a1 (R - {(p, n)})"
        using release_holds [OF Cons.prems(1) n] by blast
      have "agrees R (take i held @ (p, sz, l) # drop (Suc i) held)" using Cons.prems(2) split by simp
      note A = agrees_drop [OF Cons.prems(1) this n]
      have step: "serve allocate release (r # rs) held a =
          serve allocate release rs (take i held @ drop (Suc i) held) a1"
        using Release True ps a1(1) by simp
      show ?thesis unfolding step by (rule Cons.IH [OF a1(2) A rs])
    qed
  qed
qed

text \<open>Where the room promised for a payload ends.\<close>

definition room_end :: "nat \<times> nat \<times> nat \<Rightarrow> nat" where
  "room_end h = (case h of (p, sz, alignment) \<Rightarrow> p + room sz alignment)"

lemma agrees_disjoint:
  assumes h: "holds a R" and A: "agrees R held" and ij: "i < j" "j < length held"
  shows "room_end (held ! i) \<le> fst (held ! j) \<or> room_end (held ! j) \<le> fst (held ! i)"
proof -
  have ne: "fst (held ! i) \<noteq> fst (held ! j)"
    using A ij distinct_conv_nth [of "map fst held"] unfolding agrees_def by fastforce
  have "\<exists>n. room_end (held ! k) \<le> fst (held ! k) + n \<and> (fst (held ! k), n) \<in> R" if k: "k < length held" for k
  proof -
    obtain p sz l where p: "held ! k = (p, sz, l)" by (cases "held ! k") auto
    then have "(p, sz, l) \<in> set held" using k nth_mem by metis
    then show ?thesis using agreesD [OF A] p by (fastforce simp: room_end_def)
  qed
  then obtain n m where "room_end (held ! i) \<le> fst (held ! i) + n" "(fst (held ! i), n) \<in> R"
      "room_end (held ! j) \<le> fst (held ! j) + m" "(fst (held ! j), m) \<in> R"
    using ij by (meson order.strict_trans)
  then show ?thesis using regions_disjoint [OF h] ne by fastforce
qed

end

section \<open>TLSF is such an allocator\<close>

definition payloads :: "block list \<Rightarrow> (nat \<times> nat) set" where
  "payloads bs = (\<lambda>(x, s). (x + 16, s - 16)) ` live_blocks bs"

definition arena_holds :: "arena \<Rightarrow> arena \<Rightarrow> (nat \<times> nat) set \<Rightarrow> bool" where
  "arena_holds a0 a R \<longleftrightarrow> (\<exists>bs. arena_ok a bs \<and> same_place a0 a \<and> R = payloads bs)"

text \<open>
  The requests: any size up to \<open>2 ^ 60\<close>, any power of two up to \<open>2 ^ 60\<close> as alignment. Above an alignment
  of 16 the room can be 16 bytes less than what was asked for (\<open>tlsf_allocate_too_small\<close>).
\<close>

definition tlsf_servable :: "nat \<Rightarrow> nat \<Rightarrow> bool" where
  "tlsf_servable sz alignment \<longleftrightarrow> 0 < sz \<and> sz \<le> 2 ^ 60 \<and> alignment \<in> (\<lambda>k. 2 ^ k) ` {..60}"

definition tlsf_room :: "nat \<Rightarrow> nat \<Rightarrow> nat" where
  "tlsf_room sz alignment = (if alignment \<le> 16 then sz else sz - 16)"

lemma same_place_trans [trans]: "same_place a b \<Longrightarrow> same_place b c \<Longrightarrow> same_place a c"
  by (simp add: same_place_def)

lemma live_blocks_of_chain:
  assumes "arena_ok a bs" "(x, s) \<in> live_blocks bs"
  obtains p where "(x, s, False, p) \<in> set bs" "x \<noteq> 0" "32 \<le> s" "16 dvd s" "16 dvd x"
    "ar_user_offset a \<le> x" "x + s \<le> arena_end a"
proof -
  obtain L where R: "represents a bs L" using assms(1) by (auto simp: arena_ok_def tidy_def)
  obtain p where p: "(x, s, False, p) \<in> set bs" using assms(2) by (auto simp: live_blocks_def)
  show thesis
    by (rule that [OF p]) (use represents_block [OF R p] chain_bounds [OF representsD(5) [OF R] p] in auto)
qed

lemma live_block_size: "arena_ok a bs \<Longrightarrow> (x, s) \<in> live_blocks bs \<Longrightarrow> 32 \<le> s"
  by (erule (1) live_blocks_of_chain)

lemma live_blocks_disjoint:
  assumes "arena_ok a bs" "(x, s) \<in> live_blocks bs" "(y, t) \<in> live_blocks bs" "(x, s) \<noteq> (y, t)"
  shows "x + s \<le> y \<or> y + t \<le> x"
proof -
  obtain L where R: "represents a bs L" using assms(1) by (auto simp: arena_ok_def tidy_def)
  obtain p q where pq: "(x, s, False, p) \<in> set bs" "(y, t, False, q) \<in> set bs"
    using assms(2,3) by (auto simp: live_blocks_def)
  then have "x \<noteq> y" using chain_unique [OF representsD(5) [OF R]] assms(4) by blast
  then show ?thesis using chain_disjoint [OF representsD(5) [OF R] pq] by blast
qed

interpretation served: region_allocator tlsf_allocate tlsf_deallocate "arena_holds a0" tlsf_servable tlsf_room
proof
  fix a R sz alignment
  assume h: "arena_holds a0 a R" and v: "tlsf_servable sz alignment"
  obtain bs where bs: "arena_ok a bs" "same_place a0 a" "R = payloads bs" using h by (auto simp: arena_holds_def)
  obtain k where k: "k \<le> 60" "alignment = 2 ^ k" using v by (auto simp: tlsf_servable_def)
  have sz: "0 < sz" "sz \<le> 2 ^ 60" using v by (auto simp: tlsf_servable_def)
  have "(2::nat) ^ max k 4 \<le> 2 ^ 61" using k(1) by (intro power_increasing) auto
  then have n: "16 + sz + (if 16 < (2::nat) ^ max k 4 then 2 ^ max k 4 else 0) \<le> tlsf_required_block_size sz (2 ^ max k 4)"
    using required_block_size_bounds(3) [of sz "2 ^ max k 4"] sz by simp
  have big: "k \<le> 4 \<and> (2::nat) ^ k \<le> 16 \<or> 4 < k \<and> (16::nat) < 2 ^ k"
    using power_strict_increasing [of 4 k "2::nat"] power_increasing [of k 4 "2::nat"] by (cases "k \<le> 4") auto
  obtain p a' bs' where a': "tlsf_allocate sz (2 ^ k) a = Inr (p, a')" "arena_ok a' bs'"
    and r: "p = 0 \<and> live_blocks bs' = live_blocks bs \<or>
     (\<exists>x s y t. p = x + 16 \<and> 2 ^ k dvd p \<and> live_blocks bs' = insert (x, s) (live_blocks bs) \<and>
        (y, t) \<in> free_blocks bs \<and> y \<le> x \<and> x + s \<le> y + t \<and> tlsf_room sz (2 ^ k) \<le> s - 16 \<and> 0 < s)"
  proof (rule tlsf_allocate_ok [OF bs(1) sz k(1)], goal_cases)
    case (1 p a' bs')
    have "tlsf_room sz (2 ^ k) \<le> s - 16 \<and> 0 < s"
      if "tlsf_required_block_size sz (2 ^ max k 4) \<le> s + (if k \<le> 4 then 0 else 2 ^ k + 16)" for s
      using that n big sz(1) by (auto simp: tlsf_room_def max_def split: if_splits)
    moreover have "(2::nat) ^ k dvd p" if "2 ^ max k 4 dvd p"
      using that by (meson dvd_trans le_imp_power_dvd max.cobounded1)
    ultimately show ?case by (intro 1(1) [OF 1(2,3)]) (use 1(5) in blast)
  qed
  have place: "same_place a0 a'" using tlsf_allocate_place [OF a'(1)] bs(2) same_place_trans by auto
  show "\<exists>p a'. tlsf_allocate sz alignment a = Inr (p, a') \<and>
     (p = 0 \<and> arena_holds a0 a' R \<or>
      (\<exists>n\<ge>tlsf_room sz alignment. p \<noteq> 0 \<and> p \<notin> fst ` R \<and> alignment dvd p \<and> arena_holds a0 a' (insert (p, n) R)))"
    using r
  proof (elim disjE exE conjE)
    assume "p = 0" "live_blocks bs' = live_blocks bs"
    then show ?thesis using a' place bs(3) k(2) unfolding arena_holds_def payloads_def by auto
  next
    fix x s y t
    assume p: "p = x + 16" "live_blocks bs' = insert (x, s) (live_blocks bs)" "(y, t) \<in> free_blocks bs"
      "y \<le> x" "x + s \<le> y + t" and al: "2 ^ k dvd p" and room: "tlsf_room sz (2 ^ k) \<le> s - 16" "0 < s"
    have "x \<noteq> z" if z: "(z, u) \<in> live_blocks bs" for z u
    proof
      assume "x = z"
      obtain L where R: "represents a bs L" using bs(1) by (auto simp: arena_ok_def tidy_def)
      obtain q r where qr: "(z, u, False, q) \<in> set bs" "(y, t, True, r) \<in> set bs"
        using z p(3) by (auto simp: live_blocks_def free_blocks_def)
      have "z \<noteq> y" using chain_unique [OF representsD(5) [OF R] qr(1), of t True r] qr(2) by auto
      then have "z + u \<le> y \<or> y + t \<le> z" using chain_disjoint [OF representsD(5) [OF R] qr] by blast
      moreover have "32 \<le> u" using represents_block(3) [OF R qr(1)] .
      ultimately show False using \<open>x = z\<close> p(4,5) room by linarith
    qed
    then have "p \<notin> fst ` R" by (force simp: bs(3) payloads_def p(1))
    moreover have "insert (p, s - 16) R = payloads bs'" by (simp add: payloads_def p(1,2) bs(3))
    ultimately have "\<exists>n\<ge>tlsf_room sz alignment. p \<noteq> 0 \<and> p \<notin> fst ` R \<and> alignment dvd p \<and>
        arena_holds a0 a' (insert (p, n) R)"
      using room(1) al k(2) a'(2) place p(1) unfolding arena_holds_def by (intro exI [of _ "s - 16"]) auto
    then show ?thesis using a'(1) k(2) by blast
  qed
next
  fix a R p n
  assume h: "arena_holds a0 a R" and m: "(p, n) \<in> R"
  obtain bs where bs: "arena_ok a bs" "same_place a0 a" "R = payloads bs" using h by (auto simp: arena_holds_def)
  obtain x s where xs: "(x, s) \<in> live_blocks bs" "p = x + 16" "n = s - 16" using m bs(3) by (auto simp: payloads_def)
  obtain a' bs' where a': "tlsf_deallocate (x + 16) a = Inr a'" "arena_ok a' bs'"
      "live_blocks bs' = live_blocks bs - {(x, s)}"
    by (rule tlsf_deallocate_tidy [OF bs(1) xs(1)])
  have "inj_on (\<lambda>(x, s). (x + 16, s - 16)) (live_blocks bs)"
    by (rule inj_onI) (auto elim!: live_blocks_of_chain [OF bs(1)])
  then have "payloads bs' = R - {(p, n)}"
    using xs unfolding payloads_def a'(3) bs(3) by (subst inj_on_image_set_diff) auto
  moreover have "same_place a0 a'" using tlsf_deallocate_place [OF a'(1)] bs(2) same_place_trans by blast
  ultimately show "\<exists>a'. tlsf_deallocate p a = Inr a' \<and> arena_holds a0 a' (R - {(p, n)})"
    using a' xs(2) unfolding arena_holds_def by auto
next
  fix a R p n q m
  assume "arena_holds a0 a R" "(p, n) \<in> R" "(q, m) \<in> R" "(p, n) \<noteq> (q, m)"
  then obtain bs x s y t where B: "arena_ok a bs" "(x, s) \<in> live_blocks bs" "(y, t) \<in> live_blocks bs"
      "p = x + 16" "n = s - 16" "q = y + 16" "m = t - 16" "(p, n) \<noteq> (q, m)"
    unfolding arena_holds_def payloads_def by fast
  then have "(x, s) \<noteq> (y, t)" by auto
  then have "x + s \<le> y \<or> y + t \<le> x" using live_blocks_disjoint B(1-3) by blast
  then show "p + n \<le> q \<or> q + m \<le> p"
    using B(4-7) live_block_size [OF B(1,2)] live_block_size [OF B(1,3)] by linarith
next
  fix a R p n m
  assume "arena_holds a0 a R" "(p, n) \<in> R" "(p, m) \<in> R"
  then obtain bs x s t where "arena_ok a bs" "(x, s) \<in> live_blocks bs" "(x, t) \<in> live_blocks bs" "n = s - 16" "m = t - 16"
    by (auto simp: arena_holds_def payloads_def)
  then show "n = m"
    using live_blocks_disjoint [of a bs x s x t] by (fastforce elim!: live_blocks_of_chain)
qed

section \<open>What follows from the invariant\<close>

lemma chain_spine:
  "chain h p0 off bs e \<Longrightarrow> spine h off (map (\<lambda>(x, s, f, p). (s, f)) bs) e"
  by (induction h p0 off bs e rule: chain.induct) auto

lemma chain_of_chain:
  "chain h p0 off bs e \<Longrightarrow> flags_agree p bs \<Longrightarrow> chain_of off p (map (\<lambda>(x, s, f, p). (s, f)) bs) = bs"
  by (induction h p0 off bs e arbitrary: p rule: chain.induct) auto

lemma tidy_check_integrity:
  assumes "tidy a bs L" "ar_magic a = arena_magic"
  shows "tlsf_check_integrity a = Some (Inr ok_status)"
proof -
  have R: "represents a bs L" and f: "flags_agree False bs" using assms(1) by (auto simp: tidy_def)
  note C = representsD(5) [OF R]
  obtain r where "check_loop (ar_user_offset a) 0 False a = Some (Inr r)" "r = ok_status"
    using check_loop_iff [OF chain_spine [OF C], of 0 False] representsD [OF R] chain_of_chain [OF C f] C by auto
  then show ?thesis using assms(2) by (simp add: tlsf_check_integrity_def)
qed

lemma all_free_one_block:
  assumes "chain h p0 off bs e" "flags_agree p bs" "coalesced bs" "live_blocks bs = {}" "off < e"
  shows "bs = [(off, e - off, True, p)] \<and> \<not> p"
  using assms
proof (induction h p0 off bs e rule: chain.induct)
  case (2 h p0 off x s f p' bs e)
  have b: "f" "\<not> p'" "p' = p" using "2.prems"(2-4) by (auto split: if_splits)
  have "bs = []"
  proof (cases bs)
    case (Cons c cs)
    obtain y t g q where "c = (y, t, g, q)" by (cases c)
    then show ?thesis using "2.prems"(2-4) b Cons by (auto split: if_splits)
  qed simp
  then show ?case using "2.prems"(1) b by auto
qed simp

lemma tlsf_init_magic: "tlsf_init a = Inr (r, a') \<Longrightarrow> ar_magic a' = ar_magic a"
proof -
  have ins: "ar_magic c = ar_magic b" if "insert_free_block x b = Inr c" for x b c
    using stays_insert_free_block [OF same_place_refl, of b x] that by (simp add: stays_def same_place_def)
  assume "tlsf_init a = Inr (r, a')"
  then show ?thesis
    by (auto simp: tlsf_init_def Let_def bind_result_eq_Inr set_header_def dest!: ins split: if_splits)
qed

text \<open>What a client of a fresh arena ends with.\<close>

lemma serve_arena:
  assumes a: "0 < ar_user_offset a" "arena_end a < 2 ^ 62" "ar_user_size a < 2 ^ 32" "ar_live_bytes a = 0"
    and init: "tlsf_init a = Inr (True, a0)" and rs: "list_all (permitted tlsf_servable) rs"
  obtains x s held a' bs where "arena_ok a0 [(x, s, True, False)]" "ar_user_offset a \<le> x" "x + s \<le> arena_end a"
    "ar_user_offset a0 = x" "arena_end a0 = x + s" "32 \<le> s"
    "serve tlsf_allocate tlsf_deallocate rs [] a0 = Inr (held, a')" "arena_ok a' bs" "same_place a0 a'"
    "served.agrees (payloads bs) held" "ar_magic a' = ar_magic a"
proof -
  obtain x s where x: "arena_ok a0 [(x, s, True, False)]" "ar_user_offset a \<le> x" "x + s \<le> arena_end a"
    by (rule tlsf_init_ok [OF a]) (use init in auto)
  obtain L where "represents a0 [(x, s, True, False)] L" using x(1) by (auto simp: arena_ok_def tidy_def)
  from representsD(5) [OF this] have place: "ar_user_offset a0 = x" "arena_end a0 = x + s" "32 \<le> s" by auto
  have "arena_holds a0 a0 {}" using x(1) unfolding arena_holds_def payloads_def by force
  moreover have "served.agrees {} []" by (simp add: served.agrees_def)
  ultimately obtain held a' R where "serve tlsf_allocate tlsf_deallocate rs [] a0 = Inr (held, a')"
      "arena_holds a0 a' R" "served.agrees R held"
    using served.serve_safe [OF _ _ rs] by blast
  moreover from this obtain bs where "arena_ok a' bs" "same_place a0 a'" "R = payloads bs"
    by (auto simp: arena_holds_def)
  moreover have "ar_magic a' = ar_magic a"
    using calculation(5) tlsf_init_magic [OF init] by (simp add: same_place_def)
  ultimately show thesis using that [OF x place] by blast
qed

section \<open>Properties\<close>

lemma free_block_apart:
  assumes ok: "arena_ok a bs" and f: "(y, t) \<in> free_blocks bs" and x: "y \<le> x" "x + s \<le> y + t"
  shows "ar_user_offset a \<le> x \<and> x + s \<le> arena_end a"
    and "(z, u) \<in> live_blocks bs \<Longrightarrow> x + s \<le> z \<or> z + u \<le> x"
proof -
  obtain L where R: "represents a bs L" using ok by (auto simp: arena_ok_def tidy_def)
  obtain p where p: "(y, t, True, p) \<in> set bs" using f by (auto simp: free_blocks_def)
  show "ar_user_offset a \<le> x \<and> x + s \<le> arena_end a"
    using chain_bounds [OF representsD(5) [OF R] p] x by auto
  assume "(z, u) \<in> live_blocks bs"
  then obtain q where q: "(z, u, False, q) \<in> set bs" by (auto simp: live_blocks_def)
  have "z \<noteq> y" using chain_unique [OF representsD(5) [OF R] q, of t True p] p by auto
  then show "x + s \<le> z \<or> z + u \<le> x" using chain_disjoint [OF representsD(5) [OF R] q p] x by linarith
qed

definition fresh_arena :: arena where
  "fresh_arena =
     \<lparr>ar_magic = arena_magic, ar_user_offset = 1024, ar_user_size = 4096, ar_live_bytes = 0, ar_peak_bytes = 0,
      ar_journal = \<lparr>jn_op = no_op, jn_arg0 = 0, jn_arg1 = 0, jn_arg2 = 0, jn_arg3 = 0, jn_arg4 = 0,
                     jn_misc = 0\<rparr>, ar_tlsf = empty_control,
      ar_heap = (\<lambda>_. \<lparr>prev_phys_offset = 0, size_and_flags = 0, next_free_offset = 0, prev_free_offset = 0\<rparr>)\<rparr>"

lemma fresh_arena_init:
  obtains a0 x s where "tlsf_init fresh_arena = Inr (True, a0)" "arena_ok a0 [(x, s, True, False)]"
proof -
  obtain r a0 where "tlsf_init fresh_arena = Inr (r, a0)" "r"
      "\<exists>x s. arena_ok a0 [(x, s, True, False)]"
    by (rule tlsf_init_ok [of fresh_arena]) (auto simp: fresh_arena_def arena_end_def)
  then show thesis using that by auto
qed


text \<open>Evaluation of runs: a step is evaluated before what follows it is looked at.\<close>

lemma bind_weak: "r = r' \<Longrightarrow> bind_result r k = bind_result r' k"
  by simp

lemmas arena_run_simps =
  tlsf_constants Let_def align_up_def align_down_def and_not_def add64_def sub64_def ffs32_def upt_rec fls64.simps
  mask_eq_exp_minus_1 set_header_def header_at_def mapped_def arena_end_def tlsf_set_size_def tlsf_block_size_def
  tlsf_block_is_free_def tlsf_block_prev_is_free_def tlsf_set_prev_free_flag_def mapping_insert_def
  mapping_search_def search_suitable_class_def class_in_tables_def push_class_def pop_class_def
  insert_free_block_def remove_free_block_def next_phys_block_def prev_phys_block_def update_after_def
  split_block_if_possible_def absorb_next_if_free_def absorb_prev_if_free_def journal_begin_def journal_end_def
  tlsf_required_block_size_def tlsf_block_offset_from_payload_def prefix_gap_def carve_prefix_def
  occupy_block_def allocate_block_def tlsf_allocate_def tlsf_deallocate_def tlsf_init_def empty_control_def
  fresh_arena_def

lemma fresh_arena_run:
  "bind_result (tlsf_init fresh_arena) (\<lambda>(_, a). bind_result (tlsf_allocate 80 16 a) (\<lambda>(p, a). Inr p)) = Inr 1040"
  by (simp add: arena_run_simps cong: bind_weak let_weak_cong)

lemma fresh_arena_allocated:
  obtains a bs x s where "arena_ok a bs" "(x, s) \<in> live_blocks bs"
proof -
  obtain a0 y t where a0: "tlsf_init fresh_arena = Inr (True, a0)" "arena_ok a0 [(y, t, True, False)]"
    by (rule fresh_arena_init)
  show thesis
  proof (rule tlsf_allocate_ok [OF a0(2), of 80 4])
    fix p a' bs'
    assume A: "tlsf_allocate 80 (2 ^ 4) a0 = Inr (p, a')" "arena_ok a' bs'"
      and r: "p = 0 \<and> live_blocks bs' = live_blocks [(y, t, True, False)] \<and> ar_live_bytes a' = ar_live_bytes a0 \<and>
         (4 \<le> (4::nat) \<or> (16::nat) < 80 \<longrightarrow> (\<forall>x s. (x, s) \<in> free_blocks [(y, t, True, False)] \<longrightarrow>
            s < tlsf_required_block_size 80 (2 ^ max 4 4) + tlsf_required_block_size 80 (2 ^ max 4 4) div 16 + 32)) \<or>
       (\<exists>x s ya ta. p = x + 16 \<and> 2 ^ max 4 4 dvd p \<and>
          live_blocks bs' = insert (x, s) (live_blocks [(y, t, True, False)]) \<and>
          (ya, ta) \<in> free_blocks [(y, t, True, False)] \<and> ya \<le> x \<and> x + s \<le> ya + ta \<and>
          tlsf_required_block_size 80 (2 ^ max 4 4) \<le> s + (if (4::nat) \<le> 4 then 0 else 2 ^ 4 + 16) \<and>
          ar_live_bytes a' = ar_live_bytes a0 + s)"
    have "p = 1040" using fresh_arena_run a0(1) A(1) by simp
    with r obtain x s where "live_blocks bs' = insert (x, s) {}" by auto
    then show thesis using that [OF A(2), of x s] by simp
  qed simp_all
qed

text \<open>
  C15. One request of 1 to \<open>2 ^ 60\<close> bytes, aligned to any power of two up to \<open>2 ^ 60\<close>, keeps the arena well formed and
  never runs into undefined behaviour. A payload that is given out is aligned as asked and lies in the arena
  away from all live blocks; its room is what was asked for, but for an alignment above 16 it can be up to 16
  bytes less, and so too small. No payload of a live block is written. When nothing is given out nothing has
  become live, and every free block is smaller than \<open>n + n div 16 + 32\<close> bytes, where \<open>n\<close> is the block needed with
  its header and alignment: a block between \<open>n\<close> and that bound can be passed over, by the rounding of its
  class. About the failure of requests of at most 16 bytes aligned above 16 nothing is said: they can also fail
  when the block found has no room for the gap in front.
\<close>

theorem tlsf_allocate_correct:
  assumes "arena_ok a bs" "0 < sz" "sz \<le> 2 ^ 60" "k \<le> 60"
  shows "\<exists>p a' bs'. tlsf_allocate sz (2 ^ k) a = Inr (p, a') \<and> arena_ok a' bs' \<and> same_place a a' \<and>
    keeps_payloads a bs a' bs' \<and>
    (if p = 0
     then live_blocks bs' = live_blocks bs \<and> ar_live_bytes a' = ar_live_bytes a \<and>
       (k \<le> 4 \<or> 16 < sz \<longrightarrow> (\<forall>x s. (x, s) \<in> free_blocks bs \<longrightarrow>
          (let n = tlsf_required_block_size sz (2 ^ max k 4) in s < n + n div 16 + 32)))
     else 2 ^ max k 4 dvd p \<and> (\<exists>x s. p = x + 16 \<and> live_blocks bs' = insert (x, s) (live_blocks bs) \<and>
       sz + 16 \<le> s + (if k \<le> 4 then 0 else 16) \<and> ar_user_offset a \<le> x \<and> x + s \<le> arena_end a \<and>
       (\<forall>y t. (y, t) \<in> live_blocks bs \<longrightarrow> x + s \<le> y \<or> y + t \<le> x) \<and> ar_live_bytes a' = ar_live_bytes a + s))"
proof -
  let ?n = "tlsf_required_block_size sz (2 ^ max k 4)"
  have "(2::nat) ^ max k 4 \<le> 2 ^ 61" using assms(4) by (intro power_increasing) auto
  then have n: "16 + sz + (if 16 < (2::nat) ^ max k 4 then 2 ^ max k 4 else 0) \<le> ?n"
    using required_block_size_bounds(3) [of sz "2 ^ max k 4"] assms(3) by simp
  have big: "k \<le> 4 \<or> (16::nat) < 2 ^ k"
    using power_strict_increasing [of 4 k "2::nat"] by (cases "k \<le> 4") auto
  obtain p a' bs' where A: "tlsf_allocate sz (2 ^ k) a = Inr (p, a')" "arena_ok a' bs'" "keeps_payloads a bs a' bs'"
    and r: "p = 0 \<and> live_blocks bs' = live_blocks bs \<and> ar_live_bytes a' = ar_live_bytes a \<and>
       (k \<le> 4 \<or> 16 < sz \<longrightarrow> (\<forall>x s. (x, s) \<in> free_blocks bs \<longrightarrow> s < ?n + ?n div 16 + 32)) \<or>
     (\<exists>x s y t. p = x + 16 \<and> 2 ^ max k 4 dvd p \<and> live_blocks bs' = insert (x, s) (live_blocks bs) \<and>
        (y, t) \<in> free_blocks bs \<and> y \<le> x \<and> x + s \<le> y + t \<and> ?n \<le> s + (if k \<le> 4 then 0 else 2 ^ k + 16) \<and>
        ar_live_bytes a' = ar_live_bytes a + s)"
    by (rule tlsf_allocate_ok [OF assms])
  have place: "same_place a a'" using tlsf_allocate_place [OF A(1)] by simp
  show ?thesis
    using r
  proof (elim disjE exE conjE)
    assume "p = 0" "live_blocks bs' = live_blocks bs" "ar_live_bytes a' = ar_live_bytes a"
      "k \<le> 4 \<or> 16 < sz \<longrightarrow> (\<forall>x s. (x, s) \<in> free_blocks bs \<longrightarrow> s < ?n + ?n div 16 + 32)"
    then show ?thesis using A place by (intro exI [of _ p] exI [of _ a'] exI [of _ bs']) (auto simp: Let_def max_def)
  next
    fix x s y t
    assume P: "p = x + 16" "2 ^ max k 4 dvd p" "live_blocks bs' = insert (x, s) (live_blocks bs)"
      "(y, t) \<in> free_blocks bs" "y \<le> x" "x + s \<le> y + t" "?n \<le> s + (if k \<le> 4 then 0 else 2 ^ k + 16)"
      "ar_live_bytes a' = ar_live_bytes a + s"
    have room: "sz + 16 \<le> s + (if k \<le> 4 then 0 else 16)"
      using P(7) n big by (auto simp: max_def split: if_splits)
    have "ar_user_offset a \<le> x \<and> x + s \<le> arena_end a" by (rule free_block_apart(1) [OF assms(1) P(4-6)])
    moreover have "x + s \<le> z \<or> z + u \<le> x" if "(z, u) \<in> live_blocks bs" for z u
      by (rule free_block_apart(2) [OF assms(1) P(4-6) that])
    ultimately show ?thesis using A place P(1-3,8) room
      by (intro exI [of _ p] exI [of _ a'] exI [of _ bs']) auto
  qed
qed

theorem tlsf_allocate_correct_witness:
  "\<exists>a bs p a'. arena_ok a bs \<and> tlsf_allocate 100 (2 ^ 4) a = Inr (p, a') \<and> (p = 0 \<or> (2::nat) ^ max 4 4 dvd p)"
proof -
  obtain a0 x s where a0: "arena_ok a0 [(x, s, True, False)]" by (rule fresh_arena_init)
  from tlsf_allocate_correct [OF a0, of 100 4] obtain p a' where
    "tlsf_allocate 100 (2 ^ 4) a0 = Inr (p, a')" "p = 0 \<or> (2::nat) ^ max 4 4 dvd p"
    by (auto split: if_splits)
  with a0 show ?thesis by blast
qed

text \<open>
  C17. Giving back a live block frees exactly it: the arena stays well formed, with the free neighbours
  merged, the other live blocks and their payloads are untouched, and the count of live bytes falls by
  the block's size.
\<close>

theorem tlsf_deallocate_correct:
  assumes "arena_ok a bs" "(x, s) \<in> live_blocks bs"
  shows "\<exists>a' bs'. tlsf_deallocate (x + 16) a = Inr a' \<and> arena_ok a' bs' \<and> same_place a a' \<and>
    live_blocks bs' = live_blocks bs - {(x, s)} \<and> keeps_payloads a bs a' bs' \<and>
    ar_live_bytes a' + s = ar_live_bytes a"
proof -
  show ?thesis
  proof (rule tlsf_deallocate_tidy [OF assms])
    fix a' bs'
    assume A: "tlsf_deallocate (x + 16) a = Inr a'" "arena_ok a' bs'" "live_blocks bs' = live_blocks bs - {(x, s)}"
        "ar_live_bytes a' + s = ar_live_bytes a"
      and h: "\<And>z. z \<notin> fst ` set bs \<Longrightarrow> ar_heap a' z = ar_heap a z"
        "\<And>z t. (z, t) \<in> live_blocks bs - {(x, s)} \<Longrightarrow>
           next_free_offset (ar_heap a' z) = next_free_offset (ar_heap a z) \<and>
           prev_free_offset (ar_heap a' z) = prev_free_offset (ar_heap a z)"
    have "keeps_payloads a bs a' bs'" using h by (auto simp: keeps_payloads_def A(3))
    moreover have "same_place a a'" by (rule tlsf_deallocate_place [OF A(1)])
    ultimately show ?thesis using A by blast
  qed
qed

theorem tlsf_deallocate_correct_witness:
  "\<exists>a bs x s a'. arena_ok a bs \<and> (x, s) \<in> live_blocks bs \<and> tlsf_deallocate (x + 16) a = Inr a' \<and>
     ar_live_bytes a' + s = ar_live_bytes a"
proof -
  obtain a0 y t where a0: "arena_ok a0 [(y, t, True, False)]" by (rule fresh_arena_init)
  obtain a bs x s where a: "arena_ok a bs" "(x, s) \<in> live_blocks bs"
    by (rule fresh_arena_allocated)
  from tlsf_deallocate_correct [OF a] a show ?thesis by blast
qed

lemma servable_examples: "tlsf_servable 80 16" "tlsf_servable 100 8" "tlsf_servable 512 64"
  using image_eqI [of "16 :: nat" "\<lambda>k. 2 ^ k" 4 "{..60}"] image_eqI [of "8 :: nat" "\<lambda>k. 2 ^ k" 3 "{..60}"]
    image_eqI [of "64 :: nat" "\<lambda>k. 2 ^ k" 6 "{..60}"]
  by (simp_all add: tlsf_servable_def)

text \<open>
  C13. Whatever sequence of requests a client sends to a fresh arena, each allocation of 1 to \<open>2 ^ 60\<close> bytes
  and aligned to a power of two up to \<open>2 ^ 60\<close>, no request is undefined; the payloads that it holds at the end are
  aligned as it asked and lie in the arena; their rooms, which are what it asked for up to an
  alignment of 16 and 16 bytes less above, do not overlap; and the integrity check passes.
\<close>

theorem tlsf_requests_safe:
  assumes "0 < ar_user_offset a" "arena_end a < 2 ^ 62" "ar_user_size a < 2 ^ 32" "ar_live_bytes a = 0"
    and "ar_magic a = arena_magic" "tlsf_init a = Inr (True, a0)" "list_all (permitted tlsf_servable) rs"
  shows "\<exists>held a'. serve tlsf_allocate tlsf_deallocate rs [] a0 = Inr (held, a') \<and>
    tlsf_check_integrity a' = Some (Inr ok_status) \<and>
    list_all (\<lambda>(p, sz, alignment). alignment dvd p \<and> 16 dvd p \<and> ar_user_offset a \<le> p \<and>
       p + tlsf_room sz alignment \<le> arena_end a) held \<and>
    sorted_wrt (\<lambda>(p, sz, k) (q, sz', k'). p + tlsf_room sz k \<le> q \<or> q + tlsf_room sz' k' \<le> p) held"
proof (rule serve_arena [OF assms(1-4,6,7)])
  fix x s held a' bs
  assume x: "ar_user_offset a \<le> x" "x + s \<le> arena_end a" "ar_user_offset a0 = x" "arena_end a0 = x + s"
    and run: "serve tlsf_allocate tlsf_deallocate rs [] a0 = Inr (held, a')" "arena_ok a' bs" "same_place a0 a'"
    and A: "served.agrees (payloads bs) held" and m: "ar_magic a' = ar_magic a"
  have holds: "arena_holds a0 a' (payloads bs)" using run unfolding arena_holds_def by blast
  obtain L where T: "tidy a' bs L" using run(2) by (auto simp: arena_ok_def)
  have "l dvd p \<and> 16 dvd p \<and> ar_user_offset a \<le> p \<and> p + tlsf_room sz l \<le> arena_end a"
    if ps: "(p, sz, l) \<in> set held" for p sz l
  proof -
    obtain n where n: "l dvd p" "tlsf_room sz l \<le> n" "(p, n) \<in> payloads bs" using served.agreesD [OF A ps] by blast
    then obtain y t where yt: "p = y + 16" "n = t - 16" "(y, t) \<in> live_blocks bs" by (auto simp: payloads_def)
    show ?thesis
      by (rule live_blocks_of_chain [OF run(2) yt(3)])
        (use n yt x run(3) in \<open>auto simp: same_place_def arena_end_def\<close>)
  qed
  moreover have "sorted_wrt (\<lambda>(p, sz, k) (q, sz', k'). p + tlsf_room sz k \<le> q \<or> q + tlsf_room sz' k' \<le> p) held"
    using served.agrees_disjoint [OF holds A]
    by (force simp: sorted_wrt_iff_nth_less served.room_end_def split: prod.splits)
  ultimately show ?thesis
    using run(1) tidy_check_integrity [OF T] assms(5) m
    by (intro exI [of _ held] exI [of _ a']) (auto simp: list_all_iff)
qed

theorem tlsf_requests_safe_witness:
  "\<exists>a0 held a'. tlsf_init fresh_arena = Inr (True, a0) \<and>
     serve tlsf_allocate tlsf_deallocate [Allocate 80 16, Allocate 100 8, Release 1, Allocate 512 64] [] a0 = Inr (held, a') \<and>
     tlsf_check_integrity a' = Some (Inr ok_status)"
proof -
  obtain a0 x s where a0: "tlsf_init fresh_arena = Inr (True, a0)" by (rule fresh_arena_init)
  from tlsf_requests_safe [OF _ _ _ _ _ a0, of "[Allocate 80 16, Allocate 100 8, Release 1, Allocate 512 64]"]
  show ?thesis using a0 servable_examples by (auto simp: fresh_arena_def arena_end_def)
qed

text \<open>
  C16. When a client whose requests are of 1 to \<open>2 ^ 60\<close> bytes, aligned to powers of two up to \<open>2 ^ 60\<close>, has given everything
  back, the arena is again one free block, as at the start: nothing leaks and nothing stays fragmented.
\<close>

theorem tlsf_no_leak:
  assumes "0 < ar_user_offset a" "arena_end a < 2 ^ 62" "ar_user_size a < 2 ^ 32" "ar_live_bytes a = 0"
    and "tlsf_init a = Inr (True, a0)" "list_all (permitted tlsf_servable) rs"
    and "serve tlsf_allocate tlsf_deallocate rs [] a0 = Inr ([], a')"
  shows "\<exists>x s. arena_ok a0 [(x, s, True, False)] \<and> arena_ok a' [(x, s, True, False)] \<and> ar_live_bytes a' = 0"
proof (rule serve_arena [OF assms(1-6)])
  fix x s held a'' bs
  assume x: "arena_ok a0 [(x, s, True, False)]" "ar_user_offset a0 = x" "arena_end a0 = x + s" "32 \<le> s"
    and run: "serve tlsf_allocate tlsf_deallocate rs [] a0 = Inr (held, a'')" "arena_ok a'' bs" "same_place a0 a''"
    and A: "served.agrees (payloads bs) held"
  have e: "held = []" "a'' = a'" using run(1) assms(7) by auto
  then have none: "live_blocks bs = {}" using A by (simp add: served.agrees_def payloads_def)
  obtain L where R: "represents a' bs L" and f: "flags_agree False bs" and c: "coalesced bs"
    using run(2) e by (auto simp: arena_ok_def tidy_def)
  have place: "ar_user_offset a' = x" "arena_end a' = x + s" using run(3) x e by (auto simp: same_place_def arena_end_def)
  have "bs = [(x, s, True, False)]"
    using all_free_one_block [OF representsD(5) [OF R] f c none] place x(4) by simp
  then show ?thesis using x(1) run(2) e by (auto simp: arena_ok_def)
qed

theorem tlsf_no_leak_witness:
  "\<exists>a0 a' x s. serve tlsf_allocate tlsf_deallocate [Allocate 80 16, Release 0] [] a0 = Inr ([], a') \<and>
     arena_ok a0 [(x, s, True, False)] \<and> arena_ok a' [(x, s, True, False)]"
proof -
  let ?rs = "[Allocate 80 16, Release 0]"
  obtain a0 x s where a0: "tlsf_init fresh_arena = Inr (True, a0)" by (rule fresh_arena_init)
  have "bind_result (tlsf_init fresh_arena) (\<lambda>(_, a).
      bind_result (serve tlsf_allocate tlsf_deallocate ?rs [] a) (\<lambda>(held, a). Inr held)) = Inr []"
    by (simp add: arena_run_simps cong: bind_weak let_weak_cong)
  then have "bind_result (serve tlsf_allocate tlsf_deallocate ?rs [] a0) (\<lambda>(held, a). Inr held) = Inr []"
    by (simp only: a0 bind_result_simps prod.case)
  then obtain a' where a': "serve tlsf_allocate tlsf_deallocate ?rs [] a0 = Inr ([], a')"
    by (auto simp only: bind_result_eq_Inr prod.case prod.inject Inr_inject split_paired_Ex)
  from tlsf_no_leak [OF _ _ _ _ a0 _ a'] show ?thesis
    using a' servable_examples by (auto simp: fresh_arena_def arena_end_def)
qed

text \<open>
  C14. Recovery after an interrupted operation rebuilds everything from the sizes and the free flags: the
  flags for the preceding blocks, the offsets of the neighbours, the lists and bitmaps of all classes
  and the count of live bytes. The result satisfies the invariant between calls and passes the integrity
  check, whatever the tables and links were.
\<close>

theorem tlsf_recover_rebuilds:
  assumes "0 < ar_user_offset a" "16 dvd ar_user_offset a" "arena_end a < 2 ^ 62" "ar_user_size a < 2 ^ 32"
    and "ar_magic a = arena_magic" "jn_op (ar_journal a) \<noteq> no_op"
    and "spine (ar_heap a) (ar_user_offset a) bs (arena_end a)"
  shows "\<exists>a' L. tlsf_recover is_chunk a = Some (Inr a') \<and>
    tidy a' (chain_of (ar_user_offset a) False bs) L \<and>
    ar_live_bytes a' = counted is_chunk (chain_of (ar_user_offset a) False bs) \<and>
    tlsf_check_integrity a' = Some (Inr ok_status)"
proof (rule tlsf_recover_rebuilds_all [OF assms(1-4,6,7), of is_chunk])
  fix a' L
  assume A: "tlsf_recover is_chunk a = Some (Inr a')" "tidy a' (chain_of (ar_user_offset a) False bs) L"
    "ar_live_bytes a' = counted is_chunk (chain_of (ar_user_offset a) False bs)" "ar_magic a' = ar_magic a"
  then show ?thesis using tidy_check_integrity [OF A(2)] assms(5) by auto
qed

text \<open>An arena that was interrupted: two blocks, of which nothing but the sizes and flags is left.\<close>

definition damaged_arena :: arena where
  "damaged_arena = fresh_arena
     \<lparr>ar_journal := \<lparr>jn_op = tlsf_alloc_op, jn_arg0 = 1024, jn_arg1 = 4097, jn_arg2 = 0, jn_arg3 = 0,
                      jn_arg4 = 0, jn_misc = 0\<rparr>,
      ar_tlsf := \<lparr>fl_bitmap = 5, sl_bitmap = (\<lambda>_. 7), free_list = (\<lambda>_ _. 12345)\<rparr>,
      ar_heap := (\<lambda>x. \<lparr>prev_phys_offset = 99, size_and_flags = if x = 1024 then 98 else 4001,
                        next_free_offset = 77, prev_free_offset = 88\<rparr>)\<rparr>"

lemma damaged_arena_spine:
  "spine (ar_heap damaged_arena) (ar_user_offset damaged_arena) [(96, False), (4000, True)] (arena_end damaged_arena)"
proof -
  have "flag_word 96 False True = 98" "flag_word 4000 True False = 4001" by (simp_all add: flag_word_def)
  then show ?thesis by (auto simp: damaged_arena_def fresh_arena_def arena_end_def intro: exI [of _ True] exI [of _ False])
qed

theorem tlsf_recover_rebuilds_witness:
  "\<exists>a' L. tlsf_recover (\<lambda>_. False) damaged_arena = Some (Inr a') \<and>
     tidy a' [(1024, 96, False, False), (1120, 4000, True, False)] L \<and> ar_live_bytes a' = 96"
  using tlsf_recover_rebuilds [OF _ _ _ _ _ _ damaged_arena_spine, of "\<lambda>_. False"]
  by (auto simp: damaged_arena_def fresh_arena_def arena_end_def)

text \<open>
  On an arena whose sizes are intact the integrity check returns, without undefined behaviour, and it
  says ok exactly when each block knows its predecessor and the predecessor's free flag.
\<close>

theorem tlsf_check_integrity_iff:
  assumes "0 < ar_user_offset a" "arena_end a < 2 ^ 62" "ar_magic a = arena_magic"
    and "spine (ar_heap a) (ar_user_offset a) bs (arena_end a)"
  shows "\<exists>r. tlsf_check_integrity a = Some (Inr r) \<and>
    (r = ok_status \<longleftrightarrow>
       chain (ar_heap a) 0 (ar_user_offset a) (chain_of (ar_user_offset a) False bs) (arena_end a))"
  using check_loop_iff [OF assms(4,2,1), of 0 False] assms(3) by (simp add: tlsf_check_integrity_def)

theorem tlsf_check_integrity_iff_witness:
  "\<exists>r. tlsf_check_integrity damaged_arena = Some (Inr r) \<and> r \<noteq> ok_status"
  using tlsf_check_integrity_iff [OF _ _ _ damaged_arena_spine]
  by (auto simp: damaged_arena_def fresh_arena_def arena_end_def)

text \<open>
  Two requests for which the block is too small. After a block of 96 bytes has been given back, 48 bytes aligned to
  32 are placed 48 bytes into it, in a block of 48 bytes with its header: the payload ends 16 bytes behind
  the block, over the header of the next one. And a size near the maximum wraps around, so that the request is served
  with a block of 32 bytes.
\<close>

theorem tlsf_allocate_too_small:
  "bind_result (tlsf_init fresh_arena) (\<lambda>(_, a). bind_result (tlsf_allocate 80 16 a) (\<lambda>(p1, a).
     bind_result (tlsf_allocate 100 16 a) (\<lambda>(p2, a). bind_result (tlsf_deallocate p1 a) (\<lambda>a.
     bind_result (tlsf_allocate 48 32 a) (\<lambda>(p3, a).
       Inr (p2 - 16, p3, p3 - 16 + tlsf_block_size (ar_heap a (p3 - 16)), p3 + 48)))))) =
     Inr (1120, 1088, 1120, 1136) \<and>
   bind_result (tlsf_init fresh_arena) (\<lambda>(_, a). bind_result (tlsf_allocate (2 ^ 64 - 8) 16 a) (\<lambda>(p, a).
     Inr (p, tlsf_block_size (ar_heap a (p - 16))))) = Inr (1040, 32)"
  by (simp add: arena_run_simps cong: bind_weak let_weak_cong)

end
