(* ===== verification/IoBuffer.thy ===== *)
theory IoBuffer
  imports Serialize
begin

text \<open>
  Byte buffers and the streams over them (\<^verbatim>\<open>libraries/mcbase/src/io/io_buffer.cpp\<close>, \<^verbatim>\<open>io_stream.cpp\<close> with
  their headers). A buffer is its allocation, the place of its data in it and their length; the
  room before and behind the data is what the operations use up and move. What a fresh
  allocation holds is the parameter \<open>fresh\<close>; an allocation never fails. The buffer is neither shared
  with another one nor part of a chain. A stream adds the positions of the next read and the next write.
  The second half relates both to the list of the bytes that they hold.
\<close>

section \<open>Buffers\<close>

record io_buffer =
  b_storage :: "u8 list"
  b_start :: nat
  b_length :: nat

definition headroom :: "io_buffer \<Rightarrow> nat" where
  "headroom b = b_start b"

definition b_capacity :: "io_buffer \<Rightarrow> nat" where
  "b_capacity b = length (b_storage b)"

definition tailroom :: "io_buffer \<Rightarrow> nat" where
  "tailroom b = b_capacity b - b_start b - b_length b"

definition data_view :: "io_buffer \<Rightarrow> u8 list" where
  "data_view b = take (b_length b) (drop (b_start b) (b_storage b))"

text \<open>\<^verbatim>\<open>memcpy\<close> and \<^verbatim>\<open>memset\<close> to a place in the allocation.\<close>

definition store_at :: "nat \<Rightarrow> 'a list \<Rightarrow> 'a list \<Rightarrow> 'a list" where
  "store_at pos data xs = take pos xs @ data @ drop (pos + length data) xs"

definition allocate_buffer :: "(nat \<Rightarrow> u8 list) \<Rightarrow> nat \<Rightarrow> io_buffer" where
  "allocate_buffer fresh capacity =
     (if capacity = 0 then \<lparr>b_storage = [], b_start = 0, b_length = 0\<rparr>
      else let alloc_size = (capacity + 7) div 8 * 8
           in \<lparr>b_storage = fresh alloc_size, b_start = 0, b_length = 0\<rparr>)"

definition wrap_buffer :: "u8 list \<Rightarrow> io_buffer" where
  "wrap_buffer bs = \<lparr>b_storage = bs, b_start = 0, b_length = length bs\<rparr>"

definition copy_buffer :: "(nat \<Rightarrow> u8 list) \<Rightarrow> u8 list \<Rightarrow> nat \<Rightarrow> nat \<Rightarrow> io_buffer" where
  "copy_buffer fresh data head_size tail_size =
     (let b = allocate_buffer fresh (head_size + length data + tail_size)
      in b\<lparr>b_start := head_size, b_storage := store_at head_size data (b_storage b), b_length := length data\<rparr>)"

definition buffer_append :: "nat \<Rightarrow> io_buffer \<Rightarrow> io_buffer" where
  "buffer_append amount b =
     (if amount = 0 \<or> tailroom b < amount then b else b\<lparr>b_length := b_length b + amount\<rparr>)"

definition buffer_prepend :: "nat \<Rightarrow> io_buffer \<Rightarrow> io_buffer" where
  "buffer_prepend amount b =
     (if amount = 0 \<or> headroom b < amount then b
      else b\<lparr>b_start := b_start b - amount, b_length := b_length b + amount\<rparr>)"

definition trim_end :: "nat \<Rightarrow> io_buffer \<Rightarrow> io_buffer" where
  "trim_end amount b = b\<lparr>b_length := if b_length b \<le> amount then 0 else b_length b - amount\<rparr>"

definition trim_start :: "nat \<Rightarrow> io_buffer \<Rightarrow> io_buffer" where
  "trim_start amount b =
     (if b_length b \<le> amount then b\<lparr>b_start := b_start b + b_length b, b_length := 0\<rparr>
      else b\<lparr>b_start := b_start b + amount, b_length := b_length b - amount\<rparr>)"

definition clear_buffer :: "io_buffer \<Rightarrow> io_buffer" where
  "clear_buffer b = b\<lparr>b_start := 0, b_length := 0\<rparr>"

text \<open>The doubling of the capacity.\<close>

function grow_capacity :: "nat \<Rightarrow> nat \<Rightarrow> nat" where
  "grow_capacity need cap = (if 0 < cap \<and> cap < need then grow_capacity need (cap * 2) else cap)"
  by pat_completeness auto
termination by (relation "measure (\<lambda>(need, cap). need - cap)") auto

declare grow_capacity.simps [simp del]

definition reserve_buffer :: "(nat \<Rightarrow> u8 list) \<Rightarrow> nat \<Rightarrow> nat \<Rightarrow> io_buffer \<Rightarrow> io_buffer" where
  "reserve_buffer fresh min_headroom min_tailroom b =
     (if min_headroom \<le> headroom b \<and> min_tailroom \<le> tailroom b then b
      else let need_capacity = b_length b + min_headroom + min_tailroom
           in if need_capacity \<le> b_capacity b
              then b\<lparr>b_storage := if b_length b = 0 then b_storage b
                                  else store_at min_headroom (data_view b) (b_storage b),
                     b_start := min_headroom\<rparr>
              else let new_capacity = grow_capacity need_capacity (if b_capacity b \<noteq> 0 then b_capacity b * 2 else 8);
                       new_buf = allocate_buffer fresh new_capacity
                   in new_buf\<lparr>b_storage := store_at min_headroom (data_view b) (b_storage new_buf),
                              b_start := min_headroom, b_length := b_length b\<rparr>)"

definition ensure_tailroom :: "(nat \<Rightarrow> u8 list) \<Rightarrow> nat \<Rightarrow> io_buffer \<Rightarrow> io_buffer" where
  "ensure_tailroom fresh amount b =
     (if amount \<le> tailroom b then b else reserve_buffer fresh (headroom b) amount b)"

definition align_buffer :: "(nat \<Rightarrow> u8 list) \<Rightarrow> nat \<Rightarrow> io_buffer \<Rightarrow> nat \<times> io_buffer" where
  "align_buffer fresh alignment b =
     (if alignment \<le> 1 then (0, b)
      else let current_mod = b_length b mod alignment
           in if current_mod = 0 then (0, b)
              else let padding = alignment - current_mod;
                       b = if tailroom b < padding then reserve_buffer fresh (headroom b) padding b else b
                   in (padding,
                       b\<lparr>b_storage := store_at (b_start b + b_length b) (replicate padding 0) (b_storage b),
                         b_length := b_length b + padding\<rparr>))"

definition write_at_offset :: "(nat \<Rightarrow> u8 list) \<Rightarrow> nat \<Rightarrow> u8 list \<Rightarrow> io_buffer \<Rightarrow> io_buffer" where
  "write_at_offset fresh offset data b =
     (if data = [] then b
      else let end_pos = offset + length data;
               b = if b_length b < end_pos
                   then let additional = end_pos - b_length b;
                            b = ensure_tailroom fresh additional b
                        in b\<lparr>b_length := b_length b + additional\<rparr>
                   else b
           in b\<lparr>b_storage := store_at (b_start b + offset) data (b_storage b)\<rparr>)"

definition buffer_write :: "(nat \<Rightarrow> u8 list) \<Rightarrow> u8 list \<Rightarrow> io_buffer \<Rightarrow> io_buffer" where
  "buffer_write fresh data b =
     (if data = [] then b
      else let b = if tailroom b < length data then ensure_tailroom fresh (length data) b else b
           in b\<lparr>b_storage := store_at (b_start b + b_length b) data (b_storage b),
                b_length := b_length b + length data\<rparr>)"

definition buffer_read :: "nat \<Rightarrow> nat \<Rightarrow> io_buffer \<Rightarrow> u8 list result" where
  "buffer_read offset len b =
     (if b_length b < offset + len then Inl out_of_range_exception
      else Inr (take len (drop (b_start b + offset) (b_storage b))))"

definition buffer_try_read :: "nat \<Rightarrow> nat \<Rightarrow> io_buffer \<Rightarrow> u8 list option" where
  "buffer_try_read offset len b =
     (if b_length b < offset + len then None
      else Some (take len (drop (b_start b + offset) (b_storage b))))"

definition buffer_read_some :: "nat \<Rightarrow> nat \<Rightarrow> io_buffer \<Rightarrow> u8 list" where
  "buffer_read_some offset len b =
     (if b_length b \<le> offset then []
      else take (min len (b_length b - offset)) (drop (b_start b + offset) (b_storage b)))"

section \<open>Streams\<close>

datatype seek_mode = seek_begin | seek_current | seek_end

record io_stream =
  s_buffer :: io_buffer
  s_read_pos :: nat
  s_write_pos :: nat
  s_writable :: bool

definition new_stream :: "(nat \<Rightarrow> u8 list) \<Rightarrow> nat \<Rightarrow> io_stream" where
  "new_stream fresh capacity =
     \<lparr>s_buffer = allocate_buffer fresh capacity, s_read_pos = 0, s_write_pos = 0, s_writable = True\<rparr>"

definition stream_of :: "io_buffer \<Rightarrow> bool \<Rightarrow> io_stream" where
  "stream_of b writable = \<lparr>s_buffer = b, s_read_pos = 0, s_write_pos = 0, s_writable = writable\<rparr>"

definition readable_bytes :: "io_stream \<Rightarrow> nat" where
  "readable_bytes s =
     (if b_length (s_buffer s) \<le> s_read_pos s then 0 else b_length (s_buffer s) - s_read_pos s)"

definition has_remaining :: "nat \<Rightarrow> io_stream \<Rightarrow> bool" where
  "has_remaining len s \<longleftrightarrow> s_read_pos s + len \<le> b_length (s_buffer s)"

definition ensure_writable :: "io_stream \<Rightarrow> unit result" where
  "ensure_writable s = (if s_writable s then Inr () else Inl eof_exception)"

definition seek_read :: "int \<Rightarrow> seek_mode \<Rightarrow> io_stream \<Rightarrow> io_stream" where
  "seek_read pos mode s =
     (let len = int (b_length (s_buffer s));
          new_pos = (case mode of seek_begin \<Rightarrow> pos | seek_current \<Rightarrow> int (s_read_pos s) + pos | seek_end \<Rightarrow> len + pos);
          new_pos = if new_pos < 0 then 0 else if len < new_pos then len else new_pos
      in s\<lparr>s_read_pos := nat new_pos\<rparr>)"

definition seek_write :: "(nat \<Rightarrow> u8 list) \<Rightarrow> int \<Rightarrow> seek_mode \<Rightarrow> io_stream \<Rightarrow> io_stream result" where
  "seek_write fresh pos mode s =
     bind_result (ensure_writable s) (\<lambda>_.
       let new_pos = (case mode of seek_begin \<Rightarrow> pos | seek_current \<Rightarrow> int (s_write_pos s) + pos
                      | seek_end \<Rightarrow> int (b_length (s_buffer s)) + pos);
           b = s_buffer s;
           (new_pos, b) =
             (if new_pos < 0
              then let head_size = nat (- new_pos);
                       b = if headroom b < head_size then reserve_buffer fresh head_size 0 b else b
                   in (0, buffer_prepend head_size b)
              else (nat new_pos, b));
           b = (if b_length b < new_pos
                then let additional = new_pos - b_length b
                     in buffer_append additional (ensure_tailroom fresh additional b)
                else b)
       in Inr (s\<lparr>s_buffer := b, s_write_pos := new_pos\<rparr>))"

definition stream_skip :: "nat \<Rightarrow> io_stream \<Rightarrow> nat \<times> io_stream" where
  "stream_skip skip_size s =
     (let actual_skip = min skip_size (readable_bytes s) in (actual_skip, s\<lparr>s_read_pos := s_read_pos s + actual_skip\<rparr>))"

definition stream_read :: "nat \<Rightarrow> io_stream \<Rightarrow> (u8 list \<times> io_stream) result" where
  "stream_read len s =
     bind_result (buffer_read (s_read_pos s) len (s_buffer s)) (\<lambda>bs.
       Inr (bs, s\<lparr>s_read_pos := s_read_pos s + len\<rparr>))"

text \<open>\<^verbatim>\<open>read_some(length)\<close> returns a view of what is left, but advances by the length asked for.\<close>

definition stream_read_some :: "nat \<Rightarrow> io_stream \<Rightarrow> u8 list \<times> io_stream" where
  "stream_read_some len s =
     (buffer_read_some (s_read_pos s) len (s_buffer s), s\<lparr>s_read_pos := s_read_pos s + len\<rparr>)"

definition stream_copy_some :: "nat \<Rightarrow> io_stream \<Rightarrow> u8 list \<times> io_stream" where
  "stream_copy_some len s =
     (let bs = buffer_read_some (s_read_pos s) len (s_buffer s) in (bs, s\<lparr>s_read_pos := s_read_pos s + length bs\<rparr>))"

definition stream_try_read :: "nat \<Rightarrow> io_stream \<Rightarrow> u8 list \<times> io_stream" where
  "stream_try_read len s =
     (case buffer_try_read (s_read_pos s) len (s_buffer s) of
        None \<Rightarrow> ([], s)
      | Some bs \<Rightarrow> if bs = [] then ([], s) else (bs, s\<lparr>s_read_pos := s_read_pos s + len\<rparr>))"

definition stream_peek :: "nat \<Rightarrow> io_stream \<Rightarrow> u8 list" where
  "stream_peek max_length s =
     (let len = min (readable_bytes s) max_length
      in take len (drop (b_start (s_buffer s) + s_read_pos s) (b_storage (s_buffer s))))"

text \<open>\<^verbatim>\<open>read_value<T>\<close>, for a type of \<open>n\<close> bytes of the byte order of the machine.\<close>

definition stream_read_value :: "nat \<Rightarrow> io_stream \<Rightarrow> ('a::len word \<times> io_stream) result" where
  "stream_read_value n s =
     (case buffer_try_read (s_read_pos s) n (s_buffer s) of
        None \<Rightarrow> Inl out_of_range_exception
      | Some bs \<Rightarrow> Inr (of_le_bytes bs, s\<lparr>s_read_pos := s_read_pos s + n\<rparr>))"

definition stream_write :: "(nat \<Rightarrow> u8 list) \<Rightarrow> u8 list \<Rightarrow> io_stream \<Rightarrow> io_stream result" where
  "stream_write fresh data s =
     bind_result (ensure_writable s) (\<lambda>_.
       Inr (s\<lparr>s_buffer := write_at_offset fresh (s_write_pos s) data (s_buffer s),
              s_write_pos := s_write_pos s + length data\<rparr>))"

definition stream_write_value :: "(nat \<Rightarrow> u8 list) \<Rightarrow> nat \<Rightarrow> 'a::len word \<Rightarrow> io_stream \<Rightarrow> io_stream result" where
  "stream_write_value fresh n w s =
     (if \<not> s_writable s then Inl eof_exception
      else Inr (s\<lparr>s_buffer := write_at_offset fresh (s_write_pos s) (le_bytes n w) (s_buffer s),
                  s_write_pos := s_write_pos s + n\<rparr>))"

definition stream_align :: "(nat \<Rightarrow> u8 list) \<Rightarrow> nat \<Rightarrow> io_stream \<Rightarrow> (nat \<times> io_stream) result" where
  "stream_align fresh alignment s =
     bind_result (ensure_writable s) (\<lambda>_.
       if alignment \<le> 1 then Inr (0, s)
       else if s_write_pos s = b_length (s_buffer s)
       then let (padding, b) = align_buffer fresh alignment (s_buffer s)
            in Inr (padding, s\<lparr>s_buffer := b, s_write_pos := s_write_pos s + padding\<rparr>)
       else let current_mod = s_write_pos s mod alignment
            in if current_mod = 0 then Inr (0, s)
               else let padding = alignment - current_mod;
                        b = s_buffer s;
                        b = if tailroom b < padding then reserve_buffer fresh (headroom b) padding b else b
                    in if tailroom b < padding then Inl runtime_exception
                       else Inr (padding,
                              s\<lparr>s_buffer := b\<lparr>b_storage :=
                                  store_at (b_start b + s_write_pos s) (replicate padding 0) (b_storage b)\<rparr>,
                                s_write_pos := s_write_pos s + padding\<rparr>))"

definition try_align_read :: "nat \<Rightarrow> io_stream \<Rightarrow> (nat \<times> io_stream) option result" where
  "try_align_read alignment s =
     (if alignment = 0 then Inl undefined_behaviour
      else let current_mod = s_read_pos s mod alignment
           in if current_mod = 0 then Inr (Some (0, s))
              else let padding = alignment - current_mod
                   in if readable_bytes s < padding then Inr None
                      else Inr (Some (padding, s\<lparr>s_read_pos := s_read_pos s + padding\<rparr>)))"

definition align_read :: "nat \<Rightarrow> io_stream \<Rightarrow> (nat \<times> io_stream) result" where
  "align_read alignment s =
     bind_result (try_align_read alignment s) (\<lambda>r. case r of None \<Rightarrow> Inl eof_exception | Some x \<Rightarrow> Inr x)"

definition clear_stream :: "io_stream \<Rightarrow> io_stream" where
  "clear_stream s = s\<lparr>s_buffer := clear_buffer (s_buffer s), s_read_pos := 0, s_write_pos := 0\<rparr>"

definition get_data :: "io_stream \<Rightarrow> u8 list" where
  "get_data s = data_view (s_buffer s)"

section \<open>The bytes of a buffer\<close>

definition fresh_ok :: "(nat \<Rightarrow> u8 list) \<Rightarrow> bool" where
  "fresh_ok fresh \<longleftrightarrow> (\<forall>n. length (fresh n) = n)"

definition buf_ok :: "io_buffer \<Rightarrow> bool" where
  "buf_ok b \<longleftrightarrow> b_start b + b_length b \<le> length (b_storage b)"

lemma length_store_at [simp]: "pos + length data \<le> length xs \<Longrightarrow> length (store_at pos data xs) = length xs"
  by (simp add: store_at_def)

lemma take_drop_store_at_same:
  "pos + length data \<le> length xs \<Longrightarrow> take (length data) (drop pos (store_at pos data xs)) = data"
  by (simp add: store_at_def)

lemma take_drop_store_at:
  assumes "start + len \<le> length xs" "off + length data \<le> len"
  shows "take len (drop start (store_at (start + off) data xs)) = store_at off data (take len (drop start xs))"
proof -
  obtain p m r where xs: "xs = p @ m @ r" "length p = start" "length m = len"
  proof
    show "xs = take start xs @ take len (drop start xs) @ drop len (drop start xs)"
      by (simp only: append_take_drop_id)
  qed (use assms in simp_all)
  have "store_at (start + off) data xs = p @ store_at off data m @ r"
    using assms(2) xs(2,3) by (simp add: xs(1) store_at_def)
  moreover have "length (store_at off data m) = len" using assms(2) xs(3) by simp
  ultimately show ?thesis using xs by simp
qed

lemma length_data_view [simp]: "buf_ok b \<Longrightarrow> length (data_view b) = b_length b"
  by (simp add: buf_ok_def data_view_def)

lemma grow_capacity_ge: "0 < cap \<Longrightarrow> need \<le> grow_capacity need cap"
  by (induction need cap rule: grow_capacity.induct) (subst grow_capacity.simps, auto)

lemma allocate_buffer_ok:
  assumes "fresh_ok fresh"
  shows "b_start (allocate_buffer fresh n) = 0" "b_length (allocate_buffer fresh n) = 0"
    "n \<le> length (b_storage (allocate_buffer fresh n))" "buf_ok (allocate_buffer fresh n)"
    "data_view (allocate_buffer fresh n) = []"
proof -
  have "n \<le> (n + 7) div 8 * 8" by simp
  then show "n \<le> length (b_storage (allocate_buffer fresh n))"
    using assms by (simp add: allocate_buffer_def fresh_ok_def Let_def)
qed (simp_all add: allocate_buffer_def Let_def buf_ok_def data_view_def)

lemma reserve_buffer_view:
  assumes "fresh_ok fresh" "buf_ok b"
  shows "buf_ok (reserve_buffer fresh hd_room tl_room b)"
    "data_view (reserve_buffer fresh hd_room tl_room b) = data_view b"
    "b_length (reserve_buffer fresh hd_room tl_room b) = b_length b"
    "hd_room \<le> headroom (reserve_buffer fresh hd_room tl_room b)"
    "tl_room \<le> tailroom (reserve_buffer fresh hd_room tl_room b)"
proof -
  let ?need = "b_length b + hd_room + tl_room" and ?r = "reserve_buffer fresh hd_room tl_room b"
  define cap where "cap = grow_capacity ?need (if b_capacity b \<noteq> 0 then b_capacity b * 2 else 8)"
  have "?need \<le> cap" unfolding cap_def by (rule grow_capacity_ge) auto
  then have cap: "?need \<le> length (b_storage (allocate_buffer fresh cap))"
    using allocate_buffer_ok(3) [OF assms(1), of cap] by simp
  note len = length_data_view [OF assms(2)]
  consider "hd_room \<le> headroom b \<and> tl_room \<le> tailroom b" "?r = b"
    | "?need \<le> b_capacity b" "?r = b\<lparr>b_storage := if b_length b = 0 then b_storage b
         else store_at hd_room (data_view b) (b_storage b), b_start := hd_room\<rparr>"
    | "?r = (allocate_buffer fresh cap)\<lparr>b_storage := store_at hd_room (data_view b) (b_storage (allocate_buffer fresh cap)),
         b_start := hd_room, b_length := b_length b\<rparr>"
    by (cases "hd_room \<le> headroom b \<and> tl_room \<le> tailroom b"; cases "?need \<le> b_capacity b")
      (auto simp: reserve_buffer_def Let_def cap_def)
  then have "buf_ok ?r \<and> data_view ?r = data_view b \<and> b_length ?r = b_length b \<and> hd_room \<le> headroom ?r \<and>
    tl_room \<le> tailroom ?r"
  proof cases
    case 1
    then show ?thesis using assms(2) by simp
  next
    case 2
    have "store_at hd_room (data_view b) (b_storage b) = b_storage b" if "b_length b = 0"
      using that len by (simp add: store_at_def)
    then have "?r = b\<lparr>b_storage := store_at hd_room (data_view b) (b_storage b), b_start := hd_room\<rparr>"
      using 2(2) by simp
    then show ?thesis
      using 2(1) len take_drop_store_at_same [of hd_room "data_view b" "b_storage b"]
      by (simp add: buf_ok_def headroom_def tailroom_def b_capacity_def data_view_def)
  next
    case 3
    then show ?thesis
      using cap len take_drop_store_at_same [of hd_room "data_view b" "b_storage (allocate_buffer fresh cap)"]
      by (simp add: buf_ok_def headroom_def tailroom_def b_capacity_def data_view_def)
  qed
  then show "buf_ok ?r" "data_view ?r = data_view b" "b_length ?r = b_length b" "hd_room \<le> headroom ?r"
    "tl_room \<le> tailroom ?r"
    by simp_all
qed

lemma ensure_tailroom_view:
  assumes "fresh_ok fresh" "buf_ok b"
  shows "buf_ok (ensure_tailroom fresh n b)" "data_view (ensure_tailroom fresh n b) = data_view b"
    "b_length (ensure_tailroom fresh n b) = b_length b" "n \<le> tailroom (ensure_tailroom fresh n b)"
  using reserve_buffer_view [OF assms] assms(2) by (simp_all add: ensure_tailroom_def)

text \<open>Growing a buffer keeps what it holds and adds bytes that nothing has written.\<close>

lemma grow_view:
  assumes "buf_ok b" "n \<le> tailroom b"
  obtains gap where "buf_ok (b\<lparr>b_length := b_length b + n\<rparr>)"
    "data_view (b\<lparr>b_length := b_length b + n\<rparr>) = data_view b @ gap" "length gap = n"
proof
  let ?g = "take n (drop (b_start b + b_length b) (b_storage b))"
  have le: "b_start b + b_length b + n \<le> length (b_storage b)"
    using assms by (simp add: buf_ok_def tailroom_def b_capacity_def)
  show "buf_ok (b\<lparr>b_length := b_length b + n\<rparr>)" using le by (simp add: buf_ok_def)
  show "data_view (b\<lparr>b_length := b_length b + n\<rparr>) = data_view b @ ?g"
    by (simp add: data_view_def take_add add.commute [of "b_start b"])
  show "length ?g = n" using le by simp
qed

lemma write_at_offset_view:
  assumes f: "fresh_ok fresh" and b: "buf_ok b"
  obtains gap where "buf_ok (write_at_offset fresh off data b)"
    "data_view (write_at_offset fresh off data b) =
       (if data = [] then data_view b else store_at off data (data_view b @ gap))"
    "length gap = off + length data - b_length b"
proof (cases "data = []")
  case True
  then show thesis using that [of "replicate (off - b_length b) 0"] b by (simp add: write_at_offset_def)
next
  case False
  let ?n = "off + length data - b_length b"
  define b1 where "b1 = (if b_length b < off + length data
    then (ensure_tailroom fresh ?n b)\<lparr>b_length := b_length b + ?n\<rparr> else b)"
  have w: "write_at_offset fresh off data b = b1\<lparr>b_storage := store_at (b_start b1 + off) data (b_storage b1)\<rparr>"
    using False ensure_tailroom_view(3) [OF f b] by (simp add: write_at_offset_def b1_def Let_def)
  obtain gap where gap: "buf_ok b1" "data_view b1 = data_view b @ gap" "length gap = ?n"
  proof (cases "b_length b < off + length data")
    case True
    note E = ensure_tailroom_view [OF f b, of ?n]
    show thesis
      by (rule grow_view [OF E(1,4)]) (use that True E in \<open>auto simp: b1_def\<close>)
  qed (use that b in \<open>auto simp: b1_def\<close>)
  have len: "off + length data \<le> b_length b1"
    using length_data_view [OF gap(1)] gap(2,3) b by simp
  have fit: "b_start b1 + b_length b1 \<le> length (b_storage b1)" using gap(1) by (simp add: buf_ok_def)
  show thesis
  proof (rule that [OF _ _ gap(3)])
    show "buf_ok (write_at_offset fresh off data b)" using fit len by (simp add: w buf_ok_def)
    show "data_view (write_at_offset fresh off data b) =
        (if data = [] then data_view b else store_at off data (data_view b @ gap))"
      using take_drop_store_at [OF fit len] False gap(2) by (simp add: w data_view_def)
  qed
qed

lemma write_at_offset_inside:
  assumes "fresh_ok fresh" "buf_ok b" "off \<le> b_length b"
  shows "buf_ok (write_at_offset fresh off data b)"
    "data_view (write_at_offset fresh off data b) =
       take off (data_view b) @ data @ drop (off + length data) (data_view b)"
proof -
  obtain gap where g: "buf_ok (write_at_offset fresh off data b)"
    "data_view (write_at_offset fresh off data b) =
       (if data = [] then data_view b else store_at off data (data_view b @ gap))"
    "length gap = off + length data - b_length b"
    by (rule write_at_offset_view [OF assms(1,2)])
  then show "buf_ok (write_at_offset fresh off data b)" by simp
  show "data_view (write_at_offset fresh off data b) =
       take off (data_view b) @ data @ drop (off + length data) (data_view b)"
    using g assms by (cases "data = []") (simp_all add: store_at_def)
qed

lemma buffer_read_view:
  assumes "buf_ok b"
  shows "buffer_read off len b =
    (if off + len \<le> b_length b then Inr (take len (drop off (data_view b))) else Inl out_of_range_exception)"
    "buffer_try_read off len b = (if off + len \<le> b_length b then Some (take len (drop off (data_view b))) else None)"
    "buffer_read_some off len b = take len (drop off (data_view b))"
  using assms by (auto simp: buffer_read_def buffer_try_read_def buffer_read_some_def data_view_def drop_take min_def
    add.commute)

section \<open>A stream is a list of bytes with two positions\<close>

datatype stream_call =
    Write_Call "u8 list"
  | Read_Call nat
  | Try_Read_Call nat
  | Copy_Some_Call nat
  | Peek_Call nat
  | Skip_Call nat
  | Seek_Read_Call int seek_mode
  | Seek_Write_Call nat
  | Align_Call nat
  | Clear_Call

text \<open>The call on the model, and what it returns of the bytes.\<close>

fun run_call :: "(nat \<Rightarrow> u8 list) \<Rightarrow> stream_call \<Rightarrow> io_stream \<Rightarrow> (u8 list \<times> io_stream) result" where
  "run_call fresh (Write_Call data) s = bind_result (stream_write fresh data s) (\<lambda>s. Inr ([], s))"
| "run_call fresh (Read_Call n) s = stream_read n s"
| "run_call fresh (Try_Read_Call n) s = Inr (stream_try_read n s)"
| "run_call fresh (Copy_Some_Call n) s = Inr (stream_copy_some n s)"
| "run_call fresh (Peek_Call n) s = Inr (stream_peek n s, s)"
| "run_call fresh (Skip_Call n) s = Inr ([], snd (stream_skip n s))"
| "run_call fresh (Seek_Read_Call pos mode) s = Inr ([], seek_read pos mode s)"
| "run_call fresh (Seek_Write_Call pos) s = bind_result (seek_write fresh (int pos) seek_begin s) (\<lambda>s. Inr ([], s))"
| "run_call fresh (Align_Call n) s = bind_result (stream_align fresh n s) (\<lambda>(_, s). Inr ([], s))"
| "run_call fresh Clear_Call s = Inr ([], clear_stream s)"

type_synonym byte_list_stream = "u8 list \<times> nat \<times> nat"

text \<open>
  The same on the bytes alone. The calls for which the code promises nothing are \<open>None\<close>: a write position behind
  the end, and an alignment in the middle of the bytes.
\<close>

fun spec_call :: "stream_call \<Rightarrow> byte_list_stream \<Rightarrow> (u8 list \<times> byte_list_stream) result option" where
  "spec_call (Write_Call data) (bs, r, w) =
     Some (Inr ([], take w bs @ data @ drop (w + length data) bs, r, w + length data))"
| "spec_call (Read_Call n) (bs, r, w) =
     Some (if n \<le> length (drop r bs) then Inr (take n (drop r bs), bs, r + n, w) else Inl out_of_range_exception)"
| "spec_call (Try_Read_Call n) (bs, r, w) =
     Some (Inr (if n \<le> length (drop r bs) then (take n (drop r bs), bs, r + n, w) else ([], bs, r, w)))"
| "spec_call (Copy_Some_Call n) (bs, r, w) = Some (Inr (take n (drop r bs), bs, min (r + n) (length bs), w))"
| "spec_call (Peek_Call n) (bs, r, w) = Some (Inr (take n (drop r bs), bs, r, w))"
| "spec_call (Skip_Call n) (bs, r, w) = Some (Inr ([], bs, min (r + n) (length bs), w))"
| "spec_call (Seek_Read_Call pos mode) (bs, r, w) =
     (let p = pos + (case mode of seek_begin \<Rightarrow> 0 | seek_current \<Rightarrow> int r | seek_end \<Rightarrow> int (length bs))
      in Some (Inr ([], bs, min (nat p) (length bs), w)))"
| "spec_call (Seek_Write_Call pos) (bs, r, w) = (if pos \<le> length bs then Some (Inr ([], bs, r, pos)) else None)"
| "spec_call (Align_Call n) (bs, r, w) =
     (if w = length bs
      then let padding = if n \<le> 1 \<or> w mod n = 0 then 0 else n - w mod n
           in Some (Inr ([], bs @ replicate padding 0, r, w + padding))
      else None)"
| "spec_call Clear_Call (bs, r, w) = Some (Inr ([], [], 0, 0))"

definition stream_abs :: "io_stream \<Rightarrow> byte_list_stream" where
  "stream_abs s = (get_data s, s_read_pos s, s_write_pos s)"

definition stream_ok :: "io_stream \<Rightarrow> bool" where
  "stream_ok s \<longleftrightarrow> buf_ok (s_buffer s) \<and> s_read_pos s \<le> b_length (s_buffer s) \<and>
     s_write_pos s \<le> b_length (s_buffer s) \<and> s_writable s"

text \<open>A run stops at an exception; the bytes that were returned are collected.\<close>

fun run_calls :: "(nat \<Rightarrow> u8 list) \<Rightarrow> stream_call list \<Rightarrow> io_stream \<Rightarrow> (u8 list list \<times> io_stream) result" where
  "run_calls fresh [] s = Inr ([], s)"
| "run_calls fresh (c # cs) s =
     bind_result (run_call fresh c s) (\<lambda>(out, s).
     bind_result (run_calls fresh cs s) (\<lambda>(outs, s). Inr (out # outs, s)))"

fun spec_calls :: "stream_call list \<Rightarrow> byte_list_stream \<Rightarrow> (u8 list list \<times> byte_list_stream) result option" where
  "spec_calls [] a = Some (Inr ([], a))"
| "spec_calls (c # cs) a =
     (case spec_call c a of
        None \<Rightarrow> None
      | Some (Inl e) \<Rightarrow> Some (Inl e)
      | Some (Inr (out, a)) \<Rightarrow>
          (case spec_calls cs a of
             None \<Rightarrow> None
           | Some r \<Rightarrow> Some (bind_result r (\<lambda>(outs, a). Inr (out # outs, a)))))"

definition abs_result :: "('a \<times> io_stream) result \<Rightarrow> ('a \<times> byte_list_stream) result" where
  "abs_result r = bind_result r (\<lambda>(out, s). Inr (out, stream_abs s))"

lemma abs_result_simps [simp]: "abs_result (Inl e) = Inl e" "abs_result (Inr (out, s)) = Inr (out, stream_abs s)"
  by (simp_all add: abs_result_def)

lemma align_buffer_view:
  assumes f: "fresh_ok fresh" and b: "buf_ok b"
  shows "buf_ok (snd (align_buffer fresh n b))"
    "fst (align_buffer fresh n b) = (if n \<le> 1 \<or> b_length b mod n = 0 then 0 else n - b_length b mod n)"
    "data_view (snd (align_buffer fresh n b)) = data_view b @ replicate (fst (align_buffer fresh n b)) 0"
    "b_length (snd (align_buffer fresh n b)) = b_length b + fst (align_buffer fresh n b)"
proof -
  show "fst (align_buffer fresh n b) = (if n \<le> 1 \<or> b_length b mod n = 0 then 0 else n - b_length b mod n)"
    by (simp add: align_buffer_def Let_def)
  define k where "k = n - b_length b mod n"
  define c where "c = (if tailroom b < k then reserve_buffer fresh (headroom b) k b else b)"
  have c: "buf_ok c" "data_view c = data_view b" "b_length c = b_length b" "k \<le> tailroom c"
    using reserve_buffer_view(1-3) [OF f b, of "headroom b" k] reserve_buffer_view(5) [OF f b, of k "headroom b"] b
    by (auto simp: c_def)
  let ?d = "c\<lparr>b_storage := store_at (b_start c + b_length c) (replicate k 0) (b_storage c), b_length := b_length c + k\<rparr>"
  have le: "b_start c + b_length c + k \<le> length (b_storage c)"
    using c(1,4) by (simp add: buf_ok_def tailroom_def b_capacity_def)
  have d: "buf_ok ?d" using le by (simp add: buf_ok_def)
  have v: "data_view ?d = data_view c @ replicate k 0"
    using le take_drop_store_at [of "b_start c" "b_length c + k" "b_storage c" "b_length c" "replicate k 0"]
    by (simp add: data_view_def store_at_def take_drop_store_at min_def)
  have r: "align_buffer fresh n b = (if n \<le> 1 \<or> b_length b mod n = 0 then (0, b) else (k, ?d))"
    by (simp add: align_buffer_def Let_def k_def c_def)
  show "buf_ok (snd (align_buffer fresh n b))"
    "data_view (snd (align_buffer fresh n b)) = data_view b @ replicate (fst (align_buffer fresh n b)) 0"
    "b_length (snd (align_buffer fresh n b)) = b_length b + fst (align_buffer fresh n b)"
    using d v c b by (simp_all add: r)
qed

text \<open>Every call of the model is the call on the bytes, and keeps the stream well formed.\<close>

lemma run_call_refines:
  assumes f: "fresh_ok fresh" and s: "stream_ok s" and r: "spec_call c (stream_abs s) = Some r"
  shows "abs_result (run_call fresh c s) = r \<and> (\<forall>out s'. run_call fresh c s = Inr (out, s') \<longrightarrow> stream_ok s')"
proof -
  have b: "buf_ok (s_buffer s)" "s_read_pos s \<le> b_length (s_buffer s)" "s_write_pos s \<le> b_length (s_buffer s)" "s_writable s"
    using s by (simp_all add: stream_ok_def)
  have len: "length (get_data s) = b_length (s_buffer s)" using b(1) by (simp add: get_data_def)
  note R = buffer_read_view [OF b(1)]
  show ?thesis
  proof (cases c)
    case (Write_Call data)
    let ?b = "write_at_offset fresh (s_write_pos s) data (s_buffer s)"
    note W = write_at_offset_inside [OF f b(1,3), of data]
    have "b_length ?b = length (data_view ?b)" using W(1) by simp
    also have "\<dots> = max (b_length (s_buffer s)) (s_write_pos s + length data)" using W(2) b(1,3) by simp
    finally have "b_length ?b = max (b_length (s_buffer s)) (s_write_pos s + length data)" .
    then show ?thesis using r b W
      by (auto simp: Write_Call stream_write_def ensure_writable_def stream_abs_def get_data_def stream_ok_def)
  next
    case (Read_Call n)
    then show ?thesis using r b len
      by (auto simp: stream_read_def R stream_abs_def get_data_def stream_ok_def)
  next
    case (Try_Read_Call n)
    then show ?thesis using r b len
      by (auto simp: stream_try_read_def R stream_abs_def get_data_def stream_ok_def)
  next
    case (Copy_Some_Call n)
    then show ?thesis using r b len
      by (auto simp: stream_copy_some_def R stream_abs_def get_data_def stream_ok_def min_def)
  next
    case (Peek_Call n)
    then show ?thesis using r b len
      by (auto simp: stream_peek_def readable_bytes_def data_view_def stream_abs_def get_data_def stream_ok_def min_def
          drop_take add.commute)
  next
    case (Skip_Call n)
    then show ?thesis using r b len
      by (auto simp: stream_skip_def readable_bytes_def stream_abs_def get_data_def stream_ok_def min_def)
  next
    case (Seek_Read_Call pos mode)
    then show ?thesis using r b len
      by (auto simp: seek_read_def stream_abs_def get_data_def stream_ok_def Let_def min_def split: seek_mode.splits)
  next
    case (Seek_Write_Call pos)
    then show ?thesis using r b len
      by (auto simp: seek_write_def ensure_writable_def stream_abs_def get_data_def stream_ok_def Let_def split: if_splits)
  next
    case (Align_Call n)
    note A = align_buffer_view [OF f b(1), of n]
    show ?thesis using r b len A
      by (auto simp: Align_Call stream_align_def ensure_writable_def stream_abs_def get_data_def stream_ok_def Let_def
          case_prod_beta split: if_splits)
  next
    case Clear_Call
    then show ?thesis using r b
      by (auto simp: clear_stream_def clear_buffer_def stream_abs_def get_data_def data_view_def stream_ok_def buf_ok_def)
  qed
qed

lemma run_calls_refine:
  assumes f: "fresh_ok fresh"
  shows "stream_ok s \<Longrightarrow> spec_calls cs (stream_abs s) = Some r \<Longrightarrow> abs_result (run_calls fresh cs s) = r"
proof (induction cs arbitrary: s r)
  case (Cons c cs)
  obtain r1 where r1: "spec_call c (stream_abs s) = Some r1" using Cons.prems(2) by (cases "spec_call c (stream_abs s)") auto
  note S = run_call_refines [OF f Cons.prems(1) r1]
  show ?case
  proof (cases "run_call fresh c s")
    case (Inl e)
    then show ?thesis using S r1 Cons.prems(2) by auto
  next
    case (Inr x)
    obtain out s' where x: "x = (out, s')" by (cases x)
    have s': "stream_ok s'" "r1 = Inr (out, stream_abs s')" using S Inr x by auto
    obtain r2 where r2: "spec_calls cs (stream_abs s') = Some r2"
      using Cons.prems(2) r1 s'(2) by (cases "spec_calls cs (stream_abs s')") auto
    have "abs_result (run_calls fresh cs s') = r2" by (rule Cons.IH [OF s'(1) r2])
    then show ?thesis using Inr x r1 r2 s'(2) Cons.prems(2)
      by (cases "run_calls fresh cs s'") auto
  qed
qed simp

lemma stream_ok_new: "fresh_ok fresh \<Longrightarrow> stream_ok (new_stream fresh n)" "stream_abs (new_stream fresh n) = ([], 0, 0)"
  by (simp_all add: stream_ok_def new_stream_def stream_abs_def get_data_def data_view_def allocate_buffer_def buf_ok_def
      Let_def)



text \<open>
  \<^verbatim>\<open>read_some\<close> with fewer bytes left than asked for leaves the read position behind the end: what is written
  later is then skipped by the next read.
\<close>

lemma read_some_overruns:
  "stream_ok s \<Longrightarrow> readable_bytes s < n \<Longrightarrow> b_length (s_buffer s) < s_read_pos (snd (stream_read_some n s))"
  by (auto simp: stream_read_some_def readable_bytes_def stream_ok_def split: if_splits)

end
