(* ===== verification/MessageCodec.thy ===== *)
theory MessageCodec
  imports IoBuffer VariantOps
begin

text \<open>
  The messages of the engine and their codec (\<^verbatim>\<open>libraries/mcengine/src/message_codec.cpp\<close>, with
  \<^verbatim>\<open>message.h\<close>, \<^verbatim>\<open>payload.h\<close>, \<^verbatim>\<open>message_codec.h\<close>). A message is a header and a payload, which may be
  missing. On the wire both are lists of fields, each a number, a length and a variant in a
  binary form of its own; the payload of an application, or one that the receiver does not know, is a dict
  or stays the bytes that came. Messages also have a form as a dict. Classes of payloads outside the source
  are \<open>Custom_Payload\<close>, with what their virtual methods return. The hooks of the decoder may change a
  decoded value or fail; that they have effects of their own is not modelled. The number of bytes left
  bounds the nesting of what is read.
\<close>

section \<open>Messages\<close>

type_synonym dict_entries = "(variant \<times> variant) list"

text \<open>A \<^verbatim>\<open>message_type\<close> is its number: a received one can be none of the enumerators.\<close>

definition message_type_names :: "string list" where
  "message_type_names = [''invalid'', ''method_call'', ''method_return'', ''error'', ''signal'']"

datatype payload =
    Method_Call_Payload string "variant list"
  | Method_Return_Payload variant string
  | Error_Payload string string
  | Signal_Payload string "variant list"
  | Opaque_Payload u64 u32 "u8 list"
  | Custom_Payload u64 u32 dict_entries

record message_header =
  h_type :: u32
  h_destination :: string
  h_sender :: string
  h_path :: string
  h_interface_name :: string
  h_member_name :: string
  h_error_name :: string
  h_serial :: u64
  h_reply_serial :: u64
  h_timeout :: i64
  h_context :: dict_entries

record message =
  msg_header :: message_header
  msg_body :: "payload option"

definition empty_header :: message_header where
  "empty_header =
     \<lparr>h_type = 0, h_destination = [], h_sender = [], h_path = [], h_interface_name = [], h_member_name = [],
      h_error_name = [], h_serial = 0, h_reply_serial = 0, h_timeout = 0, h_context = []\<rparr>"

fun payload_id :: "payload \<Rightarrow> u64" where
  "payload_id (Method_Call_Payload _ _) = 1"
| "payload_id (Method_Return_Payload _ _) = 2"
| "payload_id (Error_Payload _ _) = 3"
| "payload_id (Signal_Payload _ _) = 4"
| "payload_id (Opaque_Payload i _ _) = i"
| "payload_id (Custom_Payload i _ _) = i"

fun message_type_id :: "payload \<Rightarrow> u32" where
  "message_type_id (Method_Call_Payload _ _) = 1"
| "message_type_id (Method_Return_Payload _ _) = 2"
| "message_type_id (Error_Payload _ _) = 3"
| "message_type_id (Signal_Payload _ _) = 4"
| "message_type_id (Opaque_Payload _ t _) = t"
| "message_type_id (Custom_Payload _ t _) = t"

fun is_opaque :: "payload \<Rightarrow> bool" where
  "is_opaque (Opaque_Payload _ _ _) = True"
| "is_opaque _ = False"

text \<open>The reflected conversions of the enumeration.\<close>

definition message_type_to_variant :: "u32 \<Rightarrow> variant result" where
  "message_type_to_variant t =
     (if t < 5 then Inr (VString (message_type_names ! unat t)) else Inl bad_cast_exception)"

fun index_of_name :: "string list \<Rightarrow> string \<Rightarrow> nat option" where
  "index_of_name [] name = None"
| "index_of_name (n # ns) name = (if n = name then Some 0 else map_option Suc (index_of_name ns name))"

definition message_type_from_variant :: "extension_methods \<Rightarrow> variant \<Rightarrow> u32 result" where
  "message_type_from_variant m v =
     (let number = (\<lambda>r. case r of Inr u \<Rightarrow> let t = ucast u :: u32 in if t < 5 then Some t else None | Inl e \<Rightarrow> None);
          value =
            (if is_integer v then number (as_uint64 m v)
             else case v of
                    VString s \<Rightarrow>
                      (case index_of_name message_type_names s of
                         Some i \<Rightarrow> Some (of_nat i)
                       | None \<Rightarrow> number (as_uint64 m v))
                  | _ \<Rightarrow> None)
      in case value of
           Some t \<Rightarrow> Inr t
         | None \<Rightarrow> bind_result (variant_as_string m v) (\<lambda>_. Inl bad_cast_exception))"

section \<open>The binary form of variants\<close>

definition magic_message :: u32 where "magic_message = 0x4d43454d"
definition version_message :: "16 word" where "version_message = 2"
definition magic_payload :: u32 where "magic_payload = 0x4d43504c"
definition version_payload :: "16 word" where "version_payload = 1"

fun binary_value_type :: "type_id \<Rightarrow> u8 option" where
  "binary_value_type null_type = Some 0"
| "binary_value_type (int_type int8_type) = Some 1"
| "binary_value_type (uint_type uint8_type) = Some 2"
| "binary_value_type (int_type int16_type) = Some 3"
| "binary_value_type (uint_type uint16_type) = Some 4"
| "binary_value_type (int_type int32_type) = Some 5"
| "binary_value_type (uint_type uint32_type) = Some 6"
| "binary_value_type (int_type int64_type) = Some 7"
| "binary_value_type (uint_type uint64_type) = Some 8"
| "binary_value_type double_type = Some 9"
| "binary_value_type bool_type = Some 10"
| "binary_value_type string_type = Some 11"
| "binary_value_type array_type = Some 12"
| "binary_value_type object_type = Some 13"
| "binary_value_type blob_type = Some 14"
| "binary_value_type extension_type = None"

definition checked_size :: "nat \<Rightarrow> u32 result" where
  "checked_size n = (if n < 2 ^ 32 then Inr (of_nat n) else Inl out_of_range_exception)"

type_synonym writer = "io_stream \<Rightarrow> io_stream result"

definition write_size :: "(nat \<Rightarrow> u8 list) \<Rightarrow> nat \<Rightarrow> writer" where
  "write_size fresh n s = bind_result (checked_size n) (\<lambda>w. stream_write_value fresh 4 w s)"

definition write_sized_bytes :: "(nat \<Rightarrow> u8 list) \<Rightarrow> u8 list \<Rightarrow> writer" where
  "write_sized_bytes fresh bs s =
     bind_result (write_size fresh (length bs) s) (\<lambda>s. if bs \<noteq> [] then stream_write fresh bs s else Inr s)"

definition write_int_value :: "(nat \<Rightarrow> u8 list) \<Rightarrow> int_kind \<Rightarrow> i64 \<Rightarrow> writer" where
  "write_int_value fresh k i =
     (case k of
        int8_type \<Rightarrow> stream_write_value fresh 1 (scast i :: 8 word)
      | int16_type \<Rightarrow> stream_write_value fresh 2 (scast i :: 16 word)
      | int32_type \<Rightarrow> stream_write_value fresh 4 (scast i :: 32 word)
      | int64_type \<Rightarrow> stream_write_value fresh 8 i)"

definition write_uint_value :: "(nat \<Rightarrow> u8 list) \<Rightarrow> uint_kind \<Rightarrow> u64 \<Rightarrow> writer" where
  "write_uint_value fresh k u =
     (case k of
        uint8_type \<Rightarrow> stream_write_value fresh 1 (ucast u :: 8 word)
      | uint16_type \<Rightarrow> stream_write_value fresh 2 (ucast u :: 16 word)
      | uint32_type \<Rightarrow> stream_write_value fresh 4 (ucast u :: 32 word)
      | uint64_type \<Rightarrow> stream_write_value fresh 8 u)"

function (sequential) write_variant :: "(nat \<Rightarrow> u8 list) \<Rightarrow> variant \<Rightarrow> writer"
  and write_elements :: "(nat \<Rightarrow> u8 list) \<Rightarrow> variant list \<Rightarrow> writer"
  and write_dict_entries :: "(nat \<Rightarrow> u8 list) \<Rightarrow> dict_entries \<Rightarrow> writer" where
  "write_variant fresh v s =
     (case binary_value_type (type_of v) of
        None \<Rightarrow> Inl invalid_arg_exception
      | Some tag \<Rightarrow>
          bind_result (stream_write_value fresh 1 tag s) (\<lambda>s.
            case v of
              VInt k i \<Rightarrow> write_int_value fresh k i s
            | VUInt k u \<Rightarrow> write_uint_value fresh k u s
            | VDouble x \<Rightarrow> stream_write_value fresh 8 x s
            | VBool b \<Rightarrow> stream_write_value fresh 1 (if b then 1 else 0 :: u8) s
            | VString t \<Rightarrow> write_sized_bytes fresh (bytes_of_string t) s
            | VArray vs \<Rightarrow> bind_result (write_size fresh (length vs) s) (write_elements fresh vs)
            | VObject es \<Rightarrow> bind_result (write_size fresh (length es) s) (write_dict_entries fresh es)
            | VBlob t \<Rightarrow> write_sized_bytes fresh (bytes_of_string t) s
            | _ \<Rightarrow> Inr s))"
| "write_elements fresh [] s = Inr s"
| "write_elements fresh (v # vs) s = bind_result (write_variant fresh v s) (write_elements fresh vs)"
| "write_dict_entries fresh [] s = Inr s"
| "write_dict_entries fresh ((k, v) # es) s =
     bind_result (write_variant fresh k s) (\<lambda>s.
     bind_result (write_variant fresh v s) (write_dict_entries fresh es))"
  by pat_completeness auto
termination
  by (relation "measure (\<lambda>x. case x of Inl (fresh, v, s) \<Rightarrow> size v
        | Inr (Inl (fresh, vs, s)) \<Rightarrow> size_list size vs
        | Inr (Inr (fresh, es, s)) \<Rightarrow> size_list (size_prod size size) es)")
    auto

declare write_variant.simps [simp del]

type_synonym 'a stream_reader = "io_stream \<Rightarrow> ('a \<times> io_stream) result"

definition read_sized_bytes :: "u8 list stream_reader" where
  "read_sized_bytes s =
     bind_result (stream_read_value 4 s) (\<lambda>(len :: u32, s).
       if len = 0 then Inr ([], s) else stream_read (unat len) s)"

fun read_elements :: "variant stream_reader \<Rightarrow> nat \<Rightarrow> variant list stream_reader" where
  "read_elements rd 0 s = Inr ([], s)"
| "read_elements rd (Suc n) s =
     bind_result (rd s) (\<lambda>(v, s). bind_result (read_elements rd n s) (\<lambda>(vs, s). Inr (v # vs, s)))"

text \<open>A null key is refused by \<^verbatim>\<open>operator[]\<close>.\<close>

fun read_dict_entries :: "(variant \<Rightarrow> variant \<Rightarrow> bool) \<Rightarrow> variant stream_reader \<Rightarrow> nat \<Rightarrow> dict_entries \<Rightarrow>
    dict_entries stream_reader" where
  "read_dict_entries same_key rd 0 d s = Inr (d, s)"
| "read_dict_entries same_key rd (Suc n) d s =
     bind_result (rd s) (\<lambda>(key, s).
     bind_result (rd s) (\<lambda>(value, s).
       if is_null key then Inl invalid_arg_exception
       else read_dict_entries same_key rd n (dict_set same_key key value d) s))"

definition read_number :: "u8 \<Rightarrow> variant stream_reader" where
  "read_number tag s =
     (if tag = 1 then bind_result (stream_read_value 1 s) (\<lambda>(i :: 8 word, s). Inr (VInt int8_type (scast i), s))
      else if tag = 2 then bind_result (stream_read_value 1 s) (\<lambda>(u :: 8 word, s). Inr (VUInt uint8_type (ucast u), s))
      else if tag = 3 then bind_result (stream_read_value 2 s) (\<lambda>(i :: 16 word, s). Inr (VInt int16_type (scast i), s))
      else if tag = 4 then bind_result (stream_read_value 2 s) (\<lambda>(u :: 16 word, s). Inr (VUInt uint16_type (ucast u), s))
      else if tag = 5 then bind_result (stream_read_value 4 s) (\<lambda>(i :: 32 word, s). Inr (VInt int32_type (scast i), s))
      else if tag = 6 then bind_result (stream_read_value 4 s) (\<lambda>(u :: 32 word, s). Inr (VUInt uint32_type (ucast u), s))
      else if tag = 7 then bind_result (stream_read_value 8 s) (\<lambda>(i, s). Inr (VInt int64_type i, s))
      else if tag = 8 then bind_result (stream_read_value 8 s) (\<lambda>(u, s). Inr (VUInt uint64_type u, s))
      else bind_result (stream_read_value 8 s) (\<lambda>(x, s). Inr (VDouble x, s)))"

fun read_variant :: "(variant \<Rightarrow> variant \<Rightarrow> bool) \<Rightarrow> nat \<Rightarrow> variant stream_reader" where
  "read_variant same_key 0 s = Inl out_of_fuel"
| "read_variant same_key (Suc fuel) s =
     bind_result (stream_read_value 1 s) (\<lambda>(tag :: u8, s).
       if tag = 0 then Inr (VNull, s)
       else if tag < 10 then read_number tag s
       else if tag = 10 then bind_result (stream_read_value 1 s) (\<lambda>(b :: u8, s). Inr (VBool (b \<noteq> 0), s))
       else if tag = 11 then bind_result (read_sized_bytes s) (\<lambda>(bs, s). Inr (VString (string_of_bytes bs), s))
       else if tag = 12 then
         bind_result (stream_read_value 4 s) (\<lambda>(count :: u32, s).
         bind_result (read_elements (read_variant same_key fuel) (unat count) s) (\<lambda>(vs, s). Inr (VArray vs, s)))
       else if tag = 13 then
         bind_result (stream_read_value 4 s) (\<lambda>(count :: u32, s).
         bind_result (read_dict_entries same_key (read_variant same_key fuel) (unat count) [] s) (\<lambda>(es, s).
           Inr (VObject es, s)))
       else if tag = 14 then bind_result (read_sized_bytes s) (\<lambda>(bs, s). Inr (VBlob (string_of_bytes bs), s))
       else Inl invalid_arg_exception)"

definition encode_variant_bytes :: "(nat \<Rightarrow> u8 list) \<Rightarrow> variant \<Rightarrow> u8 list result" where
  "encode_variant_bytes fresh v =
     bind_result (write_variant fresh v (new_stream fresh 128)) (\<lambda>s. Inr (get_data s))"

definition decode_variant_bytes :: "(variant \<Rightarrow> variant \<Rightarrow> bool) \<Rightarrow> u8 list \<Rightarrow> variant result" where
  "decode_variant_bytes same_key bs =
     bind_result (read_variant same_key (Suc (length bs)) (stream_of (wrap_buffer bs) False)) (\<lambda>(v, s).
       if readable_bytes s = 0 then Inr v else Inl invalid_arg_exception)"

definition encode_dict_bytes :: "(nat \<Rightarrow> u8 list) \<Rightarrow> dict_entries \<Rightarrow> u8 list result" where
  "encode_dict_bytes fresh d = encode_variant_bytes fresh (VObject d)"

definition decode_dict_bytes :: "(variant \<Rightarrow> variant \<Rightarrow> bool) \<Rightarrow> u8 list \<Rightarrow> dict_entries result" where
  "decode_dict_bytes same_key bs =
     bind_result (decode_variant_bytes same_key bs) (\<lambda>v.
       case v of VObject d \<Rightarrow> Inr d | _ \<Rightarrow> Inl invalid_arg_exception)"

section \<open>Decoding options\<close>

record decode_field_context =
  cx_field_path :: string
  cx_field_id :: u32
  cx_payload_id :: u64
  cx_message_kind :: u32
  cx_value_type :: type_id

record decode_options =
  on_field_decoded :: "(decode_field_context \<Rightarrow> variant \<Rightarrow> variant result) option"
  custom_payload :: "(u64 \<Rightarrow> u32 \<Rightarrow> dict_entries \<Rightarrow> payload option result) option"

definition no_options :: decode_options where
  "no_options = \<lparr>on_field_decoded = None, custom_payload = None\<rparr>"

definition apply_field_hook :: "string \<Rightarrow> u32 \<Rightarrow> u64 \<Rightarrow> u32 \<Rightarrow> variant \<Rightarrow> decode_options \<Rightarrow> variant result" where
  "apply_field_hook field_path field_id pid kind v options =
     (case on_field_decoded options of
        None \<Rightarrow> Inr v
      | Some hook \<Rightarrow>
          hook \<lparr>cx_field_path = field_path, cx_field_id = field_id, cx_payload_id = pid, cx_message_kind = kind,
                cx_value_type = type_of v\<rparr> v)"

text \<open>The surroundings of the decoder: conversions of extensions, the equality of keys, the options.\<close>

record decoder =
  dc_methods :: extension_methods
  dc_same_key :: "variant \<Rightarrow> variant \<Rightarrow> bool"
  dc_options :: decode_options

section \<open>Fields\<close>

definition standard_field_path :: "u64 \<Rightarrow> u32 \<Rightarrow> string" where
  "standard_field_path pid field_id =
     (if pid = 1 \<and> field_id = 1 then ''body.signature''
      else if pid = 1 \<and> field_id = 2 then ''body.args''
      else if pid = 2 \<and> field_id = 1 then ''body.value''
      else if pid = 2 \<and> field_id = 2 then ''body.signature''
      else if pid = 3 \<and> field_id = 1 then ''body.name''
      else if pid = 3 \<and> field_id = 2 then ''body.message''
      else if pid = 4 \<and> field_id = 1 then ''body.signature''
      else if pid = 4 \<and> field_id = 2 then ''body.args''
      else ''body.unknown'')"

definition header_field_names :: "string list" where
  "header_field_names =
     [''type'', ''destination'', ''sender'', ''path'', ''interface_name'', ''member_name'', ''error_name'', ''serial'',
      ''reply_serial'', ''timeout_ms'', ''context'']"

definition standard_header_field_path :: "u32 \<Rightarrow> string" where
  "standard_header_field_path field_id =
     ''header.'' @ (if 1 \<le> field_id \<and> field_id \<le> 11 then header_field_names ! (unat field_id - 1) else ''unknown'')"

text \<open>\<^verbatim>\<open>write_payload_field\<close> and \<^verbatim>\<open>write_header_field\<close>, and a list of them.\<close>

definition write_field :: "(nat \<Rightarrow> u8 list) \<Rightarrow> u32 \<Rightarrow> variant \<Rightarrow> writer" where
  "write_field fresh field_id v s =
     bind_result (encode_variant_bytes fresh v) (\<lambda>bs.
     bind_result (stream_write_value fresh 4 field_id s) (write_sized_bytes fresh bs))"

fun write_fields :: "(nat \<Rightarrow> u8 list) \<Rightarrow> (u32 \<times> variant) list \<Rightarrow> writer" where
  "write_fields fresh [] s = Inr s"
| "write_fields fresh ((field_id, v) # fs) s = bind_result (write_field fresh field_id v s) (write_fields fresh fs)"

definition header_fields :: "variant \<Rightarrow> message_header \<Rightarrow> (u32 \<times> variant) list" where
  "header_fields type_value h =
     [(1, type_value), (2, VString (h_destination h)), (3, VString (h_sender h)), (4, VString (h_path h)),
      (5, VString (h_interface_name h)), (6, VString (h_member_name h)), (7, VString (h_error_name h)),
      (8, VUInt uint64_type (h_serial h)), (9, VUInt uint64_type (h_reply_serial h)),
      (10, VInt int64_type (h_timeout h)), (11, VObject (h_context h))]"

definition encode_header_tlv_body :: "(nat \<Rightarrow> u8 list) \<Rightarrow> message_header \<Rightarrow> u8 list result" where
  "encode_header_tlv_body fresh h =
     bind_result (stream_write_value fresh 4 (11 :: u32) (new_stream fresh 192)) (\<lambda>s.
     bind_result (message_type_to_variant (h_type h)) (\<lambda>type_value.
     bind_result (write_fields fresh (header_fields type_value h) s) (\<lambda>s. Inr (get_data s))))"

text \<open>The fields of a body; \<open>path_of\<close> names them for the hook.\<close>

fun read_fields ::
    "decoder \<Rightarrow> (u32 \<Rightarrow> string) \<Rightarrow> u64 \<Rightarrow> u32 \<Rightarrow> nat \<Rightarrow> (u32 \<times> variant) list stream_reader" where
  "read_fields dc path_of pid kind 0 s = Inr ([], s)"
| "read_fields dc path_of pid kind (Suc n) s =
     bind_result (stream_read_value 4 s) (\<lambda>(field_id, s).
     bind_result (read_sized_bytes s) (\<lambda>(bs, s).
     bind_result (decode_variant_bytes (dc_same_key dc) bs) (\<lambda>v.
     bind_result (apply_field_hook (path_of field_id) field_id pid kind v (dc_options dc)) (\<lambda>v.
     bind_result (read_fields dc path_of pid kind n s) (\<lambda>(fs, s). Inr ((field_id, v) # fs, s))))))"

definition decode_fields ::
    "decoder \<Rightarrow> (u32 \<Rightarrow> string) \<Rightarrow> u64 \<Rightarrow> u32 \<Rightarrow> u8 list \<Rightarrow> (u32 \<times> variant) list result" where
  "decode_fields dc path_of pid kind bs =
     bind_result (stream_read_value 4 (stream_of (wrap_buffer bs) False)) (\<lambda>(count :: u32, s).
     bind_result (read_fields dc path_of pid kind (unat count) s) (\<lambda>(fs, s).
       if readable_bytes s = 0 then Inr fs else Inl invalid_arg_exception))"

definition decode_header_tlv_fields :: "decoder \<Rightarrow> u8 list \<Rightarrow> (u32 \<times> variant) list result" where
  "decode_header_tlv_fields dc bs = decode_fields dc standard_header_field_path 0 0 bs"

definition decode_standard_payload_fields ::
    "decoder \<Rightarrow> u64 \<Rightarrow> u32 \<Rightarrow> u8 list \<Rightarrow> (u32 \<times> variant) list result" where
  "decode_standard_payload_fields dc pid kind bs = decode_fields dc (standard_field_path pid) pid kind bs"

text \<open>\<^verbatim>\<open>find_header_field\<close> and \<^verbatim>\<open>find_payload_field\<close>: the first field of the number.\<close>

fun find_field :: "(u32 \<times> variant) list \<Rightarrow> u32 \<Rightarrow> variant option" where
  "find_field [] field_id = None"
| "find_field ((i, v) # fs) field_id = (if i = field_id then Some v else find_field fs field_id)"

definition field_or_default :: "(variant \<Rightarrow> 'a result) \<Rightarrow> (u32 \<times> variant) list \<Rightarrow> u32 \<Rightarrow> 'a \<Rightarrow> 'a result" where
  "field_or_default conv fs field_id fallback =
     (case find_field fs field_id of None \<Rightarrow> Inr fallback | Some v \<Rightarrow> conv v)"

definition build_header_from_fields :: "extension_methods \<Rightarrow> (u32 \<times> variant) list \<Rightarrow> message_header result" where
  "build_header_from_fields m fs =
     (let text = (\<lambda>i. field_or_default (variant_as_string m) fs i []) in
      bind_result (field_or_default (message_type_from_variant m) fs 1 0) (\<lambda>type.
      bind_result (text 2) (\<lambda>destination.
      bind_result (text 3) (\<lambda>sender.
      bind_result (text 4) (\<lambda>path.
      bind_result (text 5) (\<lambda>interface_name.
      bind_result (text 6) (\<lambda>member_name.
      bind_result (text 7) (\<lambda>error_name.
      bind_result (field_or_default (as_uint64 m) fs 8 0) (\<lambda>serial.
      bind_result (field_or_default (as_uint64 m) fs 9 0) (\<lambda>reply_serial.
      bind_result (field_or_default (as_int64 m) fs 10 0) (\<lambda>timeout.
      bind_result (field_or_default as_object fs 11 []) (\<lambda>context.
        Inr \<lparr>h_type = type, h_destination = destination, h_sender = sender, h_path = path,
             h_interface_name = interface_name, h_member_name = member_name, h_error_name = error_name,
             h_serial = serial, h_reply_serial = reply_serial, h_timeout = timeout, h_context = context\<rparr>))))))))))))"

section \<open>Fields of dicts\<close>

definition get_dict_field :: "decoder \<Rightarrow> dict_entries \<Rightarrow> string \<Rightarrow> variant result" where
  "get_dict_field dc d key =
     (case find_entry (dc_same_key dc) d (VString key) of None \<Rightarrow> Inl invalid_arg_exception | Some v \<Rightarrow> Inr v)"

definition decode_variant_field :: "decoder \<Rightarrow> u64 \<Rightarrow> u32 \<Rightarrow> dict_entries \<Rightarrow> string \<Rightarrow> string \<Rightarrow> variant result" where
  "decode_variant_field dc pid kind d key field_path =
     bind_result (get_dict_field dc d key) (\<lambda>v. apply_field_hook field_path 0 pid kind v (dc_options dc))"

text \<open>\<^verbatim>\<open>decode_field_as\<close>, and with the conversions of their types the other functions.\<close>

definition decode_field_as ::
    "(variant \<Rightarrow> 'a result) \<Rightarrow> decoder \<Rightarrow> u64 \<Rightarrow> u32 \<Rightarrow> dict_entries \<Rightarrow> string \<Rightarrow> string \<Rightarrow> 'a result" where
  "decode_field_as conv dc pid kind d key field_path =
     bind_result (decode_variant_field dc pid kind d key field_path) conv"

definition decode_header_dict :: "decoder \<Rightarrow> dict_entries \<Rightarrow> message_header result" where
  "decode_header_dict dc d =
     (let m = dc_methods dc;
          text = (\<lambda>key. decode_field_as (variant_as_string m) dc 0 0 d key (''header.'' @ key)) in
      bind_result (decode_field_as (message_type_from_variant m) dc 0 0 d ''type'' ''header.type'') (\<lambda>type.
      bind_result (text ''destination'') (\<lambda>destination.
      bind_result (text ''sender'') (\<lambda>sender.
      bind_result (text ''path'') (\<lambda>path.
      bind_result (text ''interface_name'') (\<lambda>interface_name.
      bind_result (text ''member_name'') (\<lambda>member_name.
      bind_result (text ''error_name'') (\<lambda>error_name.
      bind_result (decode_field_as (as_uint64 m) dc 0 0 d ''serial'' ''header.serial'') (\<lambda>serial.
      bind_result (decode_field_as (as_uint64 m) dc 0 0 d ''reply_serial'' ''header.reply_serial'') (\<lambda>reply_serial.
      bind_result (decode_field_as (as_int64 m) dc 0 0 d ''timeout_ms'' ''header.timeout_ms'') (\<lambda>timeout.
      bind_result (decode_field_as as_object dc 0 0 d ''context'' ''header.context'') (\<lambda>context.
        Inr \<lparr>h_type = type, h_destination = destination, h_sender = sender, h_path = path,
             h_interface_name = interface_name, h_member_name = member_name, h_error_name = error_name,
             h_serial = serial, h_reply_serial = reply_serial, h_timeout = timeout, h_context = context\<rparr>))))))))))))"

text \<open>\<^verbatim>\<open>to_variant\<close> of the header and of a payload, into an empty dict.\<close>

definition header_to_dict :: "message_header \<Rightarrow> dict_entries result" where
  "header_to_dict h =
     bind_result (message_type_to_variant (h_type h)) (\<lambda>type_value.
       Inr (zip (map VString header_field_names) (map snd (header_fields type_value h))))"

fun payload_body_to_dict :: "payload \<Rightarrow> dict_entries" where
  "payload_body_to_dict (Method_Call_Payload sig args) = [(VString ''signature'', VString sig), (VString ''args'', VArray args)]"
| "payload_body_to_dict (Method_Return_Payload v sig) = [(VString ''value'', v), (VString ''signature'', VString sig)]"
| "payload_body_to_dict (Error_Payload name text) = [(VString ''name'', VString name), (VString ''message'', VString text)]"
| "payload_body_to_dict (Signal_Payload sig args) = [(VString ''signature'', VString sig), (VString ''args'', VArray args)]"
| "payload_body_to_dict (Opaque_Payload _ _ bs) = [(VString ''wire_bytes'', VBlob (string_of_bytes bs))]"
| "payload_body_to_dict (Custom_Payload _ _ d) = d"

section \<open>Payloads\<close>

text \<open>The arguments of a constructor are evaluated from the first to the last.\<close>

definition decode_standard_payload :: "decoder \<Rightarrow> u64 \<Rightarrow> u32 \<Rightarrow> dict_entries \<Rightarrow> payload option result" where
  "decode_standard_payload dc pid kind body =
     (let text = (\<lambda>key. decode_field_as (variant_as_string (dc_methods dc)) dc pid kind body key (''body.'' @ key));
          items = (\<lambda>key. decode_field_as as_array dc pid kind body key (''body.'' @ key)) in
      if pid = 1 then
        if kind \<noteq> 1 then Inr None
        else bind_result (text ''signature'') (\<lambda>sig.
             bind_result (items ''args'') (\<lambda>args. Inr (Some (Method_Call_Payload sig args))))
      else if pid = 2 then
        if kind \<noteq> 2 then Inr None
        else bind_result (decode_variant_field dc pid kind body ''value'' ''body.value'') (\<lambda>v.
             bind_result (text ''signature'') (\<lambda>sig. Inr (Some (Method_Return_Payload v sig))))
      else if pid = 3 then
        if kind \<noteq> 3 then Inr None
        else bind_result (text ''name'') (\<lambda>name.
             bind_result (text ''message'') (\<lambda>msg. Inr (Some (Error_Payload name msg))))
      else if pid = 4 then
        if kind \<noteq> 4 then Inr None
        else bind_result (text ''signature'') (\<lambda>sig.
             bind_result (items ''args'') (\<lambda>args. Inr (Some (Signal_Payload sig args))))
      else Inr None)"

definition both_fields :: "(u32 \<times> variant) list \<Rightarrow> (variant \<Rightarrow> variant \<Rightarrow> payload option result) \<Rightarrow> payload option result" where
  "both_fields fs k =
     (case find_field fs 1 of
        None \<Rightarrow> Inl invalid_arg_exception
      | Some v \<Rightarrow> (case find_field fs 2 of None \<Rightarrow> Inl invalid_arg_exception | Some w \<Rightarrow> k v w))"

definition standard_payload_of_fields ::
    "extension_methods \<Rightarrow> u64 \<Rightarrow> u32 \<Rightarrow> (u32 \<times> variant) list \<Rightarrow> payload option result" where
  "standard_payload_of_fields m pid kind fs =
     (if pid = 1 then
        if kind \<noteq> 1 then Inr None
        else both_fields fs (\<lambda>v w. bind_result (variant_as_string m v) (\<lambda>sig.
               bind_result (as_array w) (\<lambda>args. Inr (Some (Method_Call_Payload sig args)))))
      else if pid = 2 then
        if kind \<noteq> 2 then Inr None
        else both_fields fs (\<lambda>v w. bind_result (variant_as_string m w) (\<lambda>sig.
               Inr (Some (Method_Return_Payload v sig))))
      else if pid = 3 then
        if kind \<noteq> 3 then Inr None
        else both_fields fs (\<lambda>v w. bind_result (variant_as_string m v) (\<lambda>name.
               bind_result (variant_as_string m w) (\<lambda>msg. Inr (Some (Error_Payload name msg)))))
      else if pid = 4 then
        if kind \<noteq> 4 then Inr None
        else both_fields fs (\<lambda>v w. bind_result (variant_as_string m v) (\<lambda>sig.
               bind_result (as_array w) (\<lambda>args. Inr (Some (Signal_Payload sig args)))))
      else Inr None)"

text \<open>
  The fields of a payload of the standard identifiers. The identifier selects the class for a \<^verbatim>\<open>static_cast\<close>,
  which is wrong for a class of the application.
\<close>

fun standard_fields :: "payload \<Rightarrow> (u32 \<times> variant) list result" where
  "standard_fields (Method_Call_Payload sig args) = Inr [(1, VString sig), (2, VArray args)]"
| "standard_fields (Method_Return_Payload v sig) = Inr [(1, v), (2, VString sig)]"
| "standard_fields (Error_Payload name msg) = Inr [(1, VString name), (2, VString msg)]"
| "standard_fields (Signal_Payload sig args) = Inr [(1, VString sig), (2, VArray args)]"
| "standard_fields p =
     (if 1 \<le> payload_id p \<and> payload_id p \<le> 4 then Inl undefined_behaviour else Inl invalid_arg_exception)"

definition encode_standard_payload_body :: "(nat \<Rightarrow> u8 list) \<Rightarrow> payload \<Rightarrow> u8 list result" where
  "encode_standard_payload_body fresh p =
     bind_result (standard_fields p) (\<lambda>fs.
     bind_result (stream_write_value fresh 4 (2 :: u32) (new_stream fresh 128)) (\<lambda>s.
     bind_result (write_fields fresh fs s) (\<lambda>s. Inr (get_data s))))"

definition encode_payload_record_bytes ::
    "(nat \<Rightarrow> u8 list) \<Rightarrow> u64 \<Rightarrow> u32 \<Rightarrow> u8 \<Rightarrow> u8 list \<Rightarrow> u8 list result" where
  "encode_payload_record_bytes fresh pid kind body_encoding body =
     bind_result (stream_write_value fresh 4 magic_payload (new_stream fresh (128 + length body))) (\<lambda>s.
     bind_result (stream_write_value fresh 2 version_payload s) (\<lambda>s.
     bind_result (stream_write_value fresh 8 pid s) (\<lambda>s.
     bind_result (stream_write_value fresh 4 kind s) (\<lambda>s.
     bind_result (stream_write_value fresh 1 body_encoding s) (\<lambda>s.
     bind_result (write_sized_bytes fresh body s) (\<lambda>s. Inr (get_data s)))))))"

definition encode_payload_bytes ::
    "(nat \<Rightarrow> u8 list) \<Rightarrow> extension_methods \<Rightarrow> (variant \<Rightarrow> variant \<Rightarrow> bool) \<Rightarrow> payload \<Rightarrow> u8 list result" where
  "encode_payload_bytes fresh m same_key p =
     (case p of
        Opaque_Payload _ _ bs \<Rightarrow> Inr bs
      | _ \<Rightarrow>
          let pid = payload_id p; kind = message_type_id p; body = payload_body_to_dict p in
          bind_result
            (decode_standard_payload \<lparr>dc_methods = m, dc_same_key = same_key, dc_options = no_options\<rparr> pid kind body)
            (\<lambda>standard.
               if standard \<noteq> None
               then bind_result (encode_standard_payload_body fresh p) (encode_payload_record_bytes fresh pid kind 1)
               else bind_result (encode_dict_bytes fresh body) (encode_payload_record_bytes fresh pid kind 0)))"

definition decode_custom :: "decoder \<Rightarrow> u64 \<Rightarrow> u32 \<Rightarrow> dict_entries \<Rightarrow> payload option result" where
  "decode_custom dc pid kind body =
     (case custom_payload (dc_options dc) of None \<Rightarrow> Inr None | Some hook \<Rightarrow> hook pid kind body)"

definition decode_payload_bytes :: "decoder \<Rightarrow> u8 list \<Rightarrow> payload result" where
  "decode_payload_bytes dc bs =
     bind_result (stream_read_value 4 (stream_of (wrap_buffer bs) False)) (\<lambda>(magic, s).
     bind_result (stream_read_value 2 s) (\<lambda>(version, s).
       if magic \<noteq> magic_payload then Inl invalid_arg_exception
       else if version \<noteq> version_payload then Inl invalid_arg_exception
       else bind_result (stream_read_value 8 s) (\<lambda>(pid, s).
            bind_result (stream_read_value 4 s) (\<lambda>(kind, s).
            bind_result (stream_read_value 1 s) (\<lambda>(body_encoding :: u8, s).
            bind_result (read_sized_bytes s) (\<lambda>(body_bytes, s).
              let opaque = Opaque_Payload pid kind bs in
              if body_encoding = 1 then
                bind_result (decode_standard_payload_fields dc pid kind body_bytes) (\<lambda>fs.
                bind_result (standard_payload_of_fields (dc_methods dc) pid kind fs) (\<lambda>standard.
                  Inr (case standard of Some p \<Rightarrow> p | None \<Rightarrow> opaque)))
              else if body_encoding = 0 then
                bind_result (decode_dict_bytes (dc_same_key dc) body_bytes) (\<lambda>body.
                bind_result (decode_standard_payload dc pid kind body) (\<lambda>standard.
                  case standard of
                    Some p \<Rightarrow> Inr p
                  | None \<Rightarrow> bind_result (decode_custom dc pid kind body) (\<lambda>custom.
                      Inr (case custom of Some p \<Rightarrow> p | None \<Rightarrow> opaque))))
              else Inl invalid_arg_exception))))))"

text \<open>The dict form of a payload.\<close>

definition encode_payload :: "payload \<Rightarrow> dict_entries result" where
  "encode_payload p =
     bind_result (message_type_to_variant (message_type_id p)) (\<lambda>type_value.
       Inr [(VString ''payload_id'', VUInt uint64_type (payload_id p)), (VString ''message_type'', type_value),
            (VString ''body'', VObject (payload_body_to_dict p))])"

definition decode_unknown_payload ::
    "(nat \<Rightarrow> u8 list) \<Rightarrow> decoder \<Rightarrow> u64 \<Rightarrow> u32 \<Rightarrow> dict_entries \<Rightarrow> payload result" where
  "decode_unknown_payload fresh dc pid kind body =
     bind_result (decode_custom dc pid kind body) (\<lambda>custom.
       case custom of
         Some p \<Rightarrow> Inr p
       | None \<Rightarrow>
           (case find_entry (dc_same_key dc) body (VString ''wire_bytes'') of
              Some v \<Rightarrow> bind_result (as_blob (dc_methods dc) v) (\<lambda>b. Inr (Opaque_Payload pid kind (bytes_of_string b)))
            | None \<Rightarrow>
                bind_result (encode_dict_bytes fresh body) (\<lambda>bs.
                bind_result (encode_payload_record_bytes fresh pid kind 0 bs) (\<lambda>bs.
                  Inr (Opaque_Payload pid kind bs)))))"

definition decode_payload :: "(nat \<Rightarrow> u8 list) \<Rightarrow> decoder \<Rightarrow> dict_entries \<Rightarrow> payload result" where
  "decode_payload fresh dc d =
     bind_result (decode_field_as (as_uint64 (dc_methods dc)) dc 0 0 d ''payload_id'' ''payload.payload_id'') (\<lambda>pid.
     bind_result (decode_field_as (message_type_from_variant (dc_methods dc)) dc 0 0 d ''message_type''
         ''payload.message_type'') (\<lambda>kind.
     bind_result (decode_field_as as_object dc 0 0 d ''body'' ''payload.body'') (\<lambda>body.
     bind_result (decode_standard_payload dc pid kind body) (\<lambda>standard.
       case standard of Some p \<Rightarrow> Inr p | None \<Rightarrow> decode_unknown_payload fresh dc pid kind body))))"

section \<open>Whole messages\<close>

definition encode_message :: "message \<Rightarrow> dict_entries result" where
  "encode_message msg =
     bind_result (header_to_dict (msg_header msg)) (\<lambda>header.
       let d = [(VString ''header'', VObject header), (VString ''has_body'', VBool (msg_body msg \<noteq> None))]
       in case msg_body msg of
            None \<Rightarrow> Inr d
          | Some p \<Rightarrow> bind_result (encode_payload p) (\<lambda>body. Inr (d @ [(VString ''body'', VObject body)])))"

definition decode_message :: "(nat \<Rightarrow> u8 list) \<Rightarrow> decoder \<Rightarrow> dict_entries \<Rightarrow> message result" where
  "decode_message fresh dc d =
     bind_result (decode_field_as as_object dc 0 0 d ''header'' ''message.header'') (\<lambda>hd.
     bind_result (decode_header_dict dc hd) (\<lambda>header.
     bind_result (decode_field_as (as_bool (dc_methods dc) False) dc 0 0 d ''has_body'' ''message.has_body'') (\<lambda>has_body.
       if has_body
       then bind_result (decode_field_as as_object dc 0 0 d ''body'' ''message.body'') (\<lambda>body.
            bind_result (decode_payload fresh dc body) (\<lambda>p. Inr \<lparr>msg_header = header, msg_body = Some p\<rparr>))
       else Inr \<lparr>msg_header = header, msg_body = None\<rparr>)))"

definition encode_message_bytes ::
    "(nat \<Rightarrow> u8 list) \<Rightarrow> extension_methods \<Rightarrow> (variant \<Rightarrow> variant \<Rightarrow> bool) \<Rightarrow> message \<Rightarrow> u8 list result" where
  "encode_message_bytes fresh m same_key msg =
     bind_result (stream_write_value fresh 4 magic_message (new_stream fresh 256)) (\<lambda>s.
     bind_result (stream_write_value fresh 2 version_message s) (\<lambda>s.
     bind_result (stream_write_value fresh 1 (1 :: u8) s) (\<lambda>s.
     bind_result (encode_header_tlv_body fresh (msg_header msg)) (\<lambda>header.
     bind_result (write_sized_bytes fresh header s) (\<lambda>s.
     bind_result
       (case msg_body msg of
          Some p \<Rightarrow> bind_result (encode_payload_bytes fresh m same_key p) (\<lambda>bs. write_sized_bytes fresh bs s)
        | None \<Rightarrow> write_sized_bytes fresh [] s) (\<lambda>s.
     Inr (get_data s)))))))"

definition decode_message_bytes :: "decoder \<Rightarrow> u8 list \<Rightarrow> message result" where
  "decode_message_bytes dc bs =
     bind_result (stream_read_value 4 (stream_of (wrap_buffer bs) False)) (\<lambda>(magic, s).
     bind_result (stream_read_value 2 s) (\<lambda>(version, s).
       if magic \<noteq> magic_message then Inl invalid_arg_exception
       else if version \<noteq> version_message then Inl invalid_arg_exception
       else bind_result (stream_read_value 1 s) (\<lambda>(header_kind :: u8, s).
            bind_result (read_sized_bytes s) (\<lambda>(header_bytes, s).
            bind_result
              (if header_kind = 1 then
                 bind_result (decode_header_tlv_fields dc header_bytes) (build_header_from_fields (dc_methods dc))
               else if header_kind = 0 then
                 bind_result (decode_dict_bytes (dc_same_key dc) header_bytes) (decode_header_dict dc)
               else Inl invalid_arg_exception) (\<lambda>header.
            bind_result (read_sized_bytes s) (\<lambda>(payload_bytes, s).
            bind_result
              (if payload_bytes \<noteq> [] then bind_result (decode_payload_bytes dc payload_bytes) (\<lambda>p. Inr (Some p))
               else Inr None) (\<lambda>body.
              if readable_bytes s = 0 then Inr \<lparr>msg_header = header, msg_body = body\<rparr>
              else Inl invalid_arg_exception)))))))"

end
