(* ===== verification/CodecRoundtrip.thy ===== *)
theory CodecRoundtrip
  imports MessageCodec
begin

chapter \<open>What is written is read back\<close>

text \<open>
  The round trips of the codec. \<open>wire v\<close> is the byte string of a variant, \<open>fields_bytes\<close>, \<open>payload_bytes\<close> and
  \<open>message_bytes\<close> those of fields, payloads and messages. \<open>emits w bs\<close> says that the writer \<open>w\<close> appends
  \<open>bs\<close> to every stream that it gets, \<open>takes rd bs v\<close> that the reader \<open>rd\<close> gives \<open>v\<close> for \<open>bs\<close>, wherever they stand.
  The contract of an encoder and its decoder is the locale \<open>wire_format\<close>, interpreted for variants,
  payloads and both forms of messages.
\<close>

section \<open>What a writer appends\<close>

definition sink :: "io_stream \<Rightarrow> bool" where
  "sink s \<longleftrightarrow> buf_ok (s_buffer s) \<and> s_writable s \<and> s_write_pos s = b_length (s_buffer s)"

definition emits :: "writer \<Rightarrow> u8 list \<Rightarrow> bool" where
  "emits w bs \<longleftrightarrow> (\<forall>s. sink s \<longrightarrow> (\<exists>s'. w s = Inr s' \<and> sink s' \<and> get_data s' = get_data s @ bs))"

lemma emits_write_at:
  assumes f: "fresh_ok fresh" and s: "sink s" and n: "length data = n"
  shows "sink (s\<lparr>s_buffer := write_at_offset fresh (s_write_pos s) data (s_buffer s), s_write_pos := s_write_pos s + n\<rparr>)"
    "get_data (s\<lparr>s_buffer := write_at_offset fresh (s_write_pos s) data (s_buffer s), s_write_pos := s_write_pos s + n\<rparr>)
       = get_data s @ data"
proof -
  have b: "buf_ok (s_buffer s)" "s_write_pos s \<le> b_length (s_buffer s)" using s by (simp_all add: sink_def)
  note W = write_at_offset_inside [OF f b, of data]
  have len: "length (data_view (s_buffer s)) = s_write_pos s" using s by (simp add: sink_def)
  then have D: "data_view (write_at_offset fresh (s_write_pos s) data (s_buffer s)) = data_view (s_buffer s) @ data"
    using W(2) by simp
  then have "b_length (write_at_offset fresh (s_write_pos s) data (s_buffer s)) = s_write_pos s + n"
    using length_data_view [OF W(1)] len n by simp
  then show "sink (s\<lparr>s_buffer := write_at_offset fresh (s_write_pos s) data (s_buffer s), s_write_pos := s_write_pos s + n\<rparr>)"
    using W(1) s by (simp add: sink_def)
  show "get_data (s\<lparr>s_buffer := write_at_offset fresh (s_write_pos s) data (s_buffer s), s_write_pos := s_write_pos s + n\<rparr>)
       = get_data s @ data"
    using D by (simp add: get_data_def)
qed

named_theorems emits_intros

lemma emits_write_value [emits_intros]: "fresh_ok fresh \<Longrightarrow> emits (stream_write_value fresh n w) (le_bytes n w)"
  unfolding emits_def stream_write_value_def using emits_write_at [of fresh _ "le_bytes n w" n]
  by (auto simp: sink_def)

lemma emits_write [emits_intros]: "fresh_ok fresh \<Longrightarrow> emits (stream_write fresh bs) bs"
  unfolding emits_def stream_write_def ensure_writable_def using emits_write_at [of fresh _ bs "length bs"]
  by (auto simp: sink_def)

lemma emits_Inr [emits_intros]: "emits Inr []"
  by (simp add: emits_def)

lemma emits_bind: "emits w bs \<Longrightarrow> emits w' bs' \<Longrightarrow> emits (\<lambda>s. bind_result (w s) w') (bs @ bs')"
  unfolding emits_def by fastforce

lemma emits_new:
  assumes "fresh_ok fresh" "emits w bs"
  obtains s where "w (new_stream fresh n) = Inr s" "sink s" "get_data s = bs"
proof -
  note A = allocate_buffer_ok [OF assms(1), of n]
  have "sink (new_stream fresh n)" "get_data (new_stream fresh n) = []"
    using A by (simp_all add: sink_def new_stream_def get_data_def)
  then show thesis using assms(2) that unfolding emits_def by fastforce
qed

lemma write_size_emits: "fresh_ok fresh \<Longrightarrow> n < 2 ^ 32 \<Longrightarrow> emits (write_size fresh n) (le_bytes 4 (of_nat n :: u32))"
  using emits_write_value [of fresh 4 "of_nat n :: u32"] by (simp add: emits_def write_size_def checked_size_def)

lemma write_sized_bytes_emits:
  assumes "fresh_ok fresh" "length bs < 2 ^ 32"
  shows "emits (write_sized_bytes fresh bs) (le_bytes 4 (of_nat (length bs) :: u32) @ bs)"
  using emits_bind [OF write_size_emits [OF assms] emits_write [OF assms(1), of bs]]
    emits_bind [OF write_size_emits [OF assms] emits_Inr]
  by (cases "bs = []") (simp_all add: write_sized_bytes_def [abs_def])

section \<open>The wire form of a variant\<close>

definition int_bytes :: "int_kind \<Rightarrow> i64 \<Rightarrow> u8 list" where
  "int_bytes k i =
     (case k of int8_type \<Rightarrow> le_bytes 1 (scast i :: 8 word) | int16_type \<Rightarrow> le_bytes 2 (scast i :: 16 word)
      | int32_type \<Rightarrow> le_bytes 4 (scast i :: 32 word) | int64_type \<Rightarrow> le_bytes 8 i)"

definition uint_bytes :: "uint_kind \<Rightarrow> u64 \<Rightarrow> u8 list" where
  "uint_bytes k u =
     (case k of uint8_type \<Rightarrow> le_bytes 1 (ucast u :: 8 word) | uint16_type \<Rightarrow> le_bytes 2 (ucast u :: 16 word)
      | uint32_type \<Rightarrow> le_bytes 4 (ucast u :: 32 word) | uint64_type \<Rightarrow> le_bytes 8 u)"

definition tag_of :: "variant \<Rightarrow> u8" where
  "tag_of v = (case binary_value_type (type_of v) of Some t \<Rightarrow> t | None \<Rightarrow> 0)"

definition sized :: "u8 list \<Rightarrow> u8 list" where
  "sized bs = le_bytes 4 (of_nat (length bs) :: u32) @ bs"

primrec wire :: "variant \<Rightarrow> u8 list" where
  "wire VNull = [0]"
| "wire (VInt k i) = tag_of (VInt k i) # int_bytes k i"
| "wire (VUInt k u) = tag_of (VUInt k u) # uint_bytes k u"
| "wire (VDouble x) = 9 # le_bytes 8 x"
| "wire (VBool b) = [10, if b then 1 else 0]"
| "wire (VString s) = 11 # sized (bytes_of_string s)"
| "wire (VArray vs) = 12 # le_bytes 4 (of_nat (length vs) :: u32) @ concat (map wire vs)"
| "wire (VObject es) =
     13 # le_bytes 4 (of_nat (length es) :: u32) @ concat (map (\<lambda>(a, b). a @ b) (map (map_prod wire wire) es))"
| "wire (VBlob s) = 14 # sized (bytes_of_string s)"
| "wire (VExtension x) = []"

lemma wire_object:
  "wire (VObject es) = 13 # le_bytes 4 (of_nat (length es) :: u32) @ concat (map (\<lambda>(k, v). wire k @ wire v) es)"
  by (auto simp: comp_def intro!: arg_cong [of _ _ concat] split: prod.split)

declare wire.simps(8) [simp del]

text \<open>What can be written, and what is read back as it was.\<close>

primrec wire_encodable :: "variant \<Rightarrow> bool" where
  "wire_encodable VNull = True"
| "wire_encodable (VInt k i) = True"
| "wire_encodable (VUInt k u) = True"
| "wire_encodable (VDouble x) = True"
| "wire_encodable (VBool b) = True"
| "wire_encodable (VString s) = (length s < 2 ^ 32)"
| "wire_encodable (VArray vs) = (length vs < 2 ^ 32 \<and> list_all id (map wire_encodable vs))"
| "wire_encodable (VObject es) =
     (length es < 2 ^ 32 \<and> list_all (\<lambda>(a, b). a \<and> b) (map (map_prod wire_encodable wire_encodable) es))"
| "wire_encodable (VBlob s) = (length s < 2 ^ 32)"
| "wire_encodable (VExtension x) = False"

primrec wire_decodable :: "(variant \<Rightarrow> variant \<Rightarrow> bool) \<Rightarrow> variant \<Rightarrow> bool" where
  "wire_decodable sk VNull = True"
| "wire_decodable sk (VInt k i) = (narrow_int k i = i)"
| "wire_decodable sk (VUInt k u) = (narrow_uint k u = u)"
| "wire_decodable sk (VDouble x) = True"
| "wire_decodable sk (VBool b) = True"
| "wire_decodable sk (VString s) = True"
| "wire_decodable sk (VArray vs) = list_all id (map (wire_decodable sk) vs)"
| "wire_decodable sk (VObject es) =
     (sorted_wrt (\<lambda>k k'. \<not> sk k' k) (map fst es) \<and> list_all (\<lambda>e. fst e \<noteq> VNull) es \<and>
      list_all (\<lambda>(a, b). a \<and> b) (map (map_prod (wire_decodable sk) (wire_decodable sk)) es))"
| "wire_decodable sk (VBlob s) = True"
| "wire_decodable sk (VExtension x) = True"

section \<open>Writing\<close>

lemma write_int_value_emits: "fresh_ok fresh \<Longrightarrow> emits (write_int_value fresh k i) (int_bytes k i)"
  unfolding write_int_value_def int_bytes_def by (cases k) (simp_all only: int_kind.case emits_write_value)

lemma write_uint_value_emits: "fresh_ok fresh \<Longrightarrow> emits (write_uint_value fresh k u) (uint_bytes k u)"
  unfolding write_uint_value_def uint_bytes_def by (cases k) (simp_all only: uint_kind.case emits_write_value)

lemma le_bytes_one: "le_bytes 1 (b :: u8) = [b]"
  by (simp add: numeral_eq_Suc)

lemma write_elements_emits:
  "(\<And>v. v \<in> set vs \<Longrightarrow> emits (write_variant fresh v) (wire v)) \<Longrightarrow>
     emits (write_elements fresh vs) (concat (map wire vs))"
proof (induction vs)
  case (Cons v vs)
  have "emits (\<lambda>s. bind_result (write_variant fresh v s) (write_elements fresh vs)) (wire v @ concat (map wire vs))"
    by (rule emits_bind) (use Cons in auto)
  then show ?case by (simp add: emits_def)
qed (simp add: emits_def)

lemma write_dict_entries_emits:
  "(\<And>k v. (k, v) \<in> set es \<Longrightarrow> emits (write_variant fresh k) (wire k) \<and> emits (write_variant fresh v) (wire v)) \<Longrightarrow>
     emits (write_dict_entries fresh es) (concat (map (\<lambda>(k, v). wire k @ wire v) es))"
proof (induction es)
  case (Cons e es)
  obtain k v where e: "e = (k, v)" by (cases e)
  have "emits (\<lambda>s. bind_result (write_variant fresh k s) (\<lambda>s. bind_result (write_variant fresh v s) (write_dict_entries fresh es)))
      (wire k @ wire v @ concat (map (\<lambda>(k, v). wire k @ wire v) es))"
    by (intro emits_bind) (use Cons e in auto)
  then show ?case by (simp add: emits_def e)
qed (simp add: emits_def)

lemma write_variant_emits:
  assumes f: "fresh_ok fresh"
  shows "wire_encodable v \<Longrightarrow> emits (write_variant fresh v) (wire v)"
proof (induction v)
  case (VArray vs)
  have "emits (\<lambda>s. bind_result (stream_write_value fresh 1 (12 :: u8) s) (\<lambda>s.
      bind_result (write_size fresh (length vs) s) (write_elements fresh vs)))
      (le_bytes 1 (12 :: u8) @ le_bytes 4 (of_nat (length vs) :: u32) @ concat (map wire vs))"
    by (intro emits_bind emits_write_value f write_size_emits write_elements_emits)
      (use VArray in \<open>auto simp: list_all_iff\<close>)
  then show ?case by (simp add: emits_def write_variant.simps wire_object le_bytes_one)
next
  case (VObject es)
  have "emits (\<lambda>s. bind_result (stream_write_value fresh 1 (13 :: u8) s) (\<lambda>s.
      bind_result (write_size fresh (length es) s) (write_dict_entries fresh es)))
      (le_bytes 1 (13 :: u8) @ le_bytes 4 (of_nat (length es) :: u32) @ concat (map (\<lambda>(k, v). wire k @ wire v) es))"
    by (intro emits_bind emits_write_value f write_size_emits write_dict_entries_emits)
      (use VObject in \<open>fastforce simp: list_all_iff\<close>)+
  then show ?case by (simp add: emits_def write_variant.simps wire_object le_bytes_one)
next
  case (VString s)
  have "emits (\<lambda>s'. bind_result (stream_write_value fresh 1 (11 :: u8) s') (write_sized_bytes fresh (bytes_of_string s)))
      (le_bytes 1 (11 :: u8) @ sized (bytes_of_string s))"
    unfolding sized_def by (intro emits_bind emits_write_value f write_sized_bytes_emits) (use VString in simp)
  then show ?case by (simp add: emits_def write_variant.simps tag_of_def le_bytes_one)
next
  case (VBlob s)
  have "emits (\<lambda>s'. bind_result (stream_write_value fresh 1 (14 :: u8) s') (write_sized_bytes fresh (bytes_of_string s)))
      (le_bytes 1 (14 :: u8) @ sized (bytes_of_string s))"
    unfolding sized_def by (intro emits_bind emits_write_value f write_sized_bytes_emits) (use VBlob in simp)
  then show ?case by (simp add: emits_def write_variant.simps tag_of_def le_bytes_one)
next
  case (VInt k i)
  obtain t where t: "binary_value_type (type_of (VInt k i)) = Some t" by (cases k) auto
  show ?case
    using emits_bind [OF emits_write_value [OF f, of 1 t] write_int_value_emits [OF f, of k i]] t
    by (simp add: emits_def write_variant.simps tag_of_def le_bytes_one)
next
  case (VUInt k i)
  obtain t where t: "binary_value_type (type_of (VUInt k i)) = Some t" by (cases k) auto
  show ?case
    using emits_bind [OF emits_write_value [OF f, of 1 t] write_uint_value_emits [OF f, of k i]] t
    by (simp add: emits_def write_variant.simps tag_of_def le_bytes_one)
next
  case (VDouble x)
  show ?case
    using emits_bind [OF emits_write_value [OF f, of 1 "9 :: u8"] emits_write_value [OF f, of 8 x]]
    by (simp add: emits_def write_variant.simps tag_of_def le_bytes_one)
next
  case (VBool b)
  show ?case
    using emits_bind [OF emits_write_value [OF f, of 1 "10 :: u8"] emits_write_value [OF f, of 1 "if b then 1 else 0 :: u8"]]
    by (simp add: emits_def write_variant.simps tag_of_def le_bytes_one)
next
  case VNull
  show ?case
    using emits_bind [OF emits_write_value [OF f, of 1 "0 :: u8"] emits_Inr]
    by (simp add: emits_def write_variant.simps tag_of_def le_bytes_one)
qed simp

section \<open>What a reader takes\<close>

definition bytes_ahead :: "io_stream \<Rightarrow> u8 list \<Rightarrow> bool" where
  "bytes_ahead s bs \<longleftrightarrow> buf_ok (s_buffer s) \<and> s_read_pos s \<le> b_length (s_buffer s) \<and> drop (s_read_pos s) (get_data s) = bs"

definition moved :: "nat \<Rightarrow> io_stream \<Rightarrow> io_stream" where
  "moved n s = s\<lparr>s_read_pos := s_read_pos s + n\<rparr>"

lemma moved_moved [simp]: "moved n (moved k s) = moved (k + n) s"
  by (simp add: moved_def add.assoc)

lemma ahead_length: "bytes_ahead s bs \<Longrightarrow> s_read_pos s + length bs = b_length (s_buffer s)"
  by (auto simp: bytes_ahead_def get_data_def)

lemma ahead_moved: "bytes_ahead s (bs @ ys) \<Longrightarrow> length bs = n \<Longrightarrow> bytes_ahead (moved n s) ys"
proof -
  assume a: "bytes_ahead s (bs @ ys)" and n: "length bs = n"
  then have "drop n (drop (s_read_pos s) (get_data s)) = ys" by (simp add: bytes_ahead_def)
  then show ?thesis using a ahead_length [OF a] n by (simp add: bytes_ahead_def moved_def get_data_def add.commute)
qed

lemma ahead_readable: "bytes_ahead s bs \<Longrightarrow> readable_bytes s = length bs"
  by (frule ahead_length) (cases bs, simp_all add: readable_bytes_def)

lemma ahead_stream_of: "bytes_ahead (stream_of (wrap_buffer bs) w) bs"
  by (simp add: bytes_ahead_def stream_of_def wrap_buffer_def buf_ok_def get_data_def data_view_def)

lemma ahead_try_read:
  assumes "bytes_ahead s bs"
  shows "buffer_try_read (s_read_pos s) n (s_buffer s) = (if n \<le> length bs then Some (take n bs) else None)"
    "buffer_read (s_read_pos s) n (s_buffer s) = (if n \<le> length bs then Inr (take n bs) else Inl out_of_range_exception)"
  using assms ahead_length [OF assms] by (auto simp: bytes_ahead_def buffer_read_view get_data_def)

lemma read_value_at:
  "bytes_ahead s (le_bytes n (w :: 'a::len word) @ ys) \<Longrightarrow> LENGTH('a) \<le> 8 * n \<Longrightarrow> stream_read_value n s = Inr (w, moved n s)"
  by (simp add: stream_read_value_def ahead_try_read le_roundtrip moved_def)

lemma stream_read_byte_at: "bytes_ahead s (b # ys) \<Longrightarrow> stream_read_value (Suc 0) s = Inr (b :: u8, moved (Suc 0) s)"
  using read_value_at [of s 1 b ys] by (simp add: le_bytes_one)

lemma stream_read_at: "bytes_ahead s (bs @ ys) \<Longrightarrow> length bs = n \<Longrightarrow> stream_read n s = Inr (bs, moved n s)"
  by (simp add: stream_read_def ahead_try_read moved_def)

lemma read_sized_bytes_at:
  assumes "bytes_ahead s (sized bs @ ys)" "length bs < 2 ^ 32"
  shows "read_sized_bytes s = Inr (bs, moved (4 + length bs) s)"
proof -
  have n: "unat (of_nat (length bs) :: u32) = length bs" using assms(2) by (simp add: unat_of_nat take_bit_nat_eq_self)
  have z: "(of_nat (length bs) :: u32) = 0 \<longleftrightarrow> bs = []" using n by (metis length_0_conv unat_0 unat_eq_zero)
  have a: "bytes_ahead s (le_bytes 4 (of_nat (length bs) :: u32) @ bs @ ys)" using assms(1) by (simp add: sized_def)
  have "stream_read (length bs) (moved 4 s) = Inr (bs, moved (4 + length bs) s)"
    using stream_read_at [OF ahead_moved [OF a]] by simp
  then show ?thesis using read_value_at [OF a] z n by (simp add: read_sized_bytes_def)
qed

definition takes :: "'a stream_reader \<Rightarrow> u8 list \<Rightarrow> 'a \<Rightarrow> bool" where
  "takes rd bs v \<longleftrightarrow> (\<forall>s ys. bytes_ahead s (bs @ ys) \<longrightarrow> rd s = Inr (v, moved (length bs) s))"

lemma takesD: "takes rd bs v \<Longrightarrow> bytes_ahead s (bs @ ys) \<Longrightarrow> rd s = Inr (v, moved (length bs) s)"
  by (auto simp: takes_def)

lemma read_elements_takes:
  "(\<And>v. v \<in> set vs \<Longrightarrow> takes rd (wire v) v) \<Longrightarrow> takes (read_elements rd (length vs)) (concat (map wire vs)) vs"
proof (induction vs)
  case Nil
  then show ?case by (simp add: takes_def moved_def)
next
  case (Cons v vs)
  show ?case
    unfolding takes_def
  proof (intro allI impI)
    fix s ys assume "bytes_ahead s (concat (map wire (v # vs)) @ ys)"
    then have a: "bytes_ahead s (wire v @ concat (map wire vs) @ ys)" by simp
    have "rd s = Inr (v, moved (length (wire v)) s)" using takesD [OF Cons.prems a] by simp
    moreover have "read_elements rd (length vs) (moved (length (wire v)) s) =
        Inr (vs, moved (length (concat (map wire vs))) (moved (length (wire v)) s))"
      by (rule takesD [OF Cons.IH ahead_moved [OF a]]) (use Cons.prems in auto)
    ultimately show "read_elements rd (length (v # vs)) s = Inr (v # vs, moved (length (concat (map wire (v # vs)))) s)"
      by simp
  qed
qed

lemma read_dict_entries_takes:
  assumes "\<And>k v. (k, v) \<in> set es \<Longrightarrow> takes rd (wire k) k \<and> takes rd (wire v) v \<and> k \<noteq> VNull"
    and "sorted_wrt (\<lambda>k k'. \<not> sk k' k) (map fst (d @ es))"
  shows "takes (read_dict_entries sk rd (length es) d) (concat (map (\<lambda>(k, v). wire k @ wire v) es)) (d @ es)"
  using assms
proof (induction es arbitrary: d)
  case Nil
  then show ?case by (simp add: takes_def moved_def)
next
  case (Cons e es)
  obtain k v where e: "e = (k, v)" by (cases e)
  have kv: "takes rd (wire k) k" "takes rd (wire v) v" "k \<noteq> VNull" using Cons.prems(1) e by auto
  have set_new: "dict_set sk k v d = d @ [(k, v)]"
    by (rule dict_set_new) (use Cons.prems(2) e in \<open>auto simp: sorted_wrt_append\<close>)
  show ?case
    unfolding takes_def
  proof (intro allI impI)
    let ?r = "concat (map (\<lambda>(k, v). wire k @ wire v) es)"
    fix s ys assume "bytes_ahead s (concat (map (\<lambda>(k, v). wire k @ wire v) (e # es)) @ ys)"
    then have a: "bytes_ahead s (wire k @ wire v @ ?r @ ys)" by (simp add: e)
    note a1 = ahead_moved [OF a refl] note a2 = ahead_moved [OF a1 refl]
    have "read_dict_entries sk rd (length es) (d @ [(k, v)]) (moved (length (wire v)) (moved (length (wire k)) s)) =
        Inr ((d @ [(k, v)]) @ es, moved (length ?r) (moved (length (wire v)) (moved (length (wire k)) s)))"
      by (rule takesD [OF Cons.IH a2]) (use Cons.prems e in auto)
    then show "read_dict_entries sk rd (length (e # es)) d s =
        Inr (d @ e # es, moved (length (concat (map (\<lambda>(k, v). wire k @ wire v) (e # es)))) s)"
      using takesD [OF kv(1) a] takesD [OF kv(2) a1] kv(3) set_new by (simp add: e is_null_def add.assoc)
  qed
qed

lemma narrow_int_roundtrip:
  "narrow_int int8_type i = scast (scast i :: 8 word)" "narrow_int int16_type i = scast (scast i :: 16 word)"
  "narrow_int int32_type i = scast (scast i :: 32 word)" "narrow_int int64_type i = i"
  "narrow_uint uint8_type u = ucast (ucast u :: 8 word)" "narrow_uint uint16_type u = ucast (ucast u :: 16 word)"
  "narrow_uint uint32_type u = ucast (ucast u :: 32 word)" "narrow_uint uint64_type u = u"
  by (simp_all add: narrow_int_def narrow_uint_def)

lemma read_number_takes:
  "narrow_int k i = i \<Longrightarrow> takes (read_number (tag_of (VInt k i))) (int_bytes k i) (VInt k i)"
  "narrow_uint j u = u \<Longrightarrow> takes (read_number (tag_of (VUInt j u))) (uint_bytes j u) (VUInt j u)"
  "takes (read_number 9) (le_bytes 8 x) (VDouble x)"
proof -
  show "narrow_int k i = i \<Longrightarrow> takes (read_number (tag_of (VInt k i))) (int_bytes k i) (VInt k i)"
    unfolding takes_def
    by (cases k) (auto simp: read_number_def tag_of_def int_bytes_def narrow_int_roundtrip read_value_at simp del: le_bytes.simps)
  show "narrow_uint j u = u \<Longrightarrow> takes (read_number (tag_of (VUInt j u))) (uint_bytes j u) (VUInt j u)"
    unfolding takes_def
    by (cases j) (auto simp: read_number_def tag_of_def uint_bytes_def narrow_int_roundtrip read_value_at simp del: le_bytes.simps)
  show "takes (read_number 9) (le_bytes 8 x) (VDouble x)"
    unfolding takes_def by (auto simp: read_number_def read_value_at simp del: le_bytes.simps)
qed

lemma length_in_concat: "x \<in> set xs \<Longrightarrow> length (f x) \<le> length (concat (map f xs))"
  by (induction xs) auto

lemma takes_tag:
  assumes "\<And>s ys. bytes_ahead s (bs @ ys) \<Longrightarrow> k s = Inr (v, moved (length bs) s)"
    and "\<And>s. rd s = bind_result (stream_read_value 1 s) (\<lambda>(t :: u8, s). f t s)" and "\<And>s. f tag s = k s"
  shows "takes rd (tag # bs) v"
  unfolding takes_def
proof (intro allI impI)
  fix s ys assume "bytes_ahead s ((tag # bs) @ ys)"
  then have a: "bytes_ahead s (tag # bs @ ys)" by simp
  then have "bytes_ahead s ([tag] @ bs @ ys)" by simp
  from ahead_moved [OF this] have "bytes_ahead (moved 1 s) (bs @ ys)" by simp
  from assms(1) [OF this] show "rd s = Inr (v, moved (length (tag # bs)) s)"
    using stream_read_byte_at [OF a] by (simp add: assms(2,3))
qed

lemma read_variant_takes:
  "wire_encodable v \<Longrightarrow> wire_decodable sk v \<Longrightarrow> length (wire v) < fuel \<Longrightarrow> takes (read_variant sk fuel) (wire v) v"
proof (induction v arbitrary: fuel)
  case VNull
  then obtain f where "fuel = Suc f" by (cases fuel) auto
  then show ?case
    using takes_tag [where bs = "[]" and tag = 0 and v = VNull and k = "\<lambda>s. Inr (VNull, s)", OF _ read_variant.simps(2) [of sk f]]
    by (simp add: moved_def)
next
  case (VInt k i)
  then obtain f where f: "fuel = Suc f" by (cases fuel) auto
  have t: "tag_of (VInt k i) \<noteq> 0" "tag_of (VInt k i) < 10" by (cases k; simp add: tag_of_def)+
  show ?case unfolding f wire.simps
    by (rule takes_tag [where k = "read_number (tag_of (VInt k i))", OF takesD [OF read_number_takes(1)] read_variant.simps(2)])
      (use VInt t in simp_all)
next
  case (VUInt k i)
  then obtain f where f: "fuel = Suc f" by (cases fuel) auto
  have t: "tag_of (VUInt k i) \<noteq> 0" "tag_of (VUInt k i) < 10" by (cases k; simp add: tag_of_def)+
  show ?case unfolding f wire.simps
    by (rule takes_tag [where k = "read_number (tag_of (VUInt k i))", OF takesD [OF read_number_takes(2)] read_variant.simps(2)])
      (use VUInt t in simp_all)
next
  case (VDouble x)
  then obtain f where f: "fuel = Suc f" by (cases fuel) auto
  show ?case unfolding f wire.simps
    by (rule takes_tag [where k = "read_number 9", OF takesD [OF read_number_takes(3)] read_variant.simps(2)]) simp_all
next
  case (VBool b)
  then obtain f where f: "fuel = Suc f" by (cases fuel) auto
  show ?case unfolding f wire.simps
    by (rule takes_tag [where k = "\<lambda>s. bind_result (stream_read_value 1 s) (\<lambda>(b :: u8, s). Inr (VBool (b \<noteq> 0), s))",
          OF _ read_variant.simps(2)])
      (use stream_read_byte_at in \<open>auto simp: split: if_splits\<close>)
next
  case (VString t)
  then obtain f where f: "fuel = Suc f" by (cases fuel) auto
  show ?case unfolding f wire.simps
  proof (rule takes_tag [where k = "\<lambda>s. bind_result (read_sized_bytes s) (\<lambda>(bs, s). Inr (VString (string_of_bytes bs), s))",
          OF _ read_variant.simps(2)])
    fix s ys assume "bytes_ahead s (sized (bytes_of_string t) @ ys)"
    from read_sized_bytes_at [OF this] VString(1)
    show "bind_result (read_sized_bytes s) (\<lambda>(bs, s). Inr (VString (string_of_bytes bs), s)) =
        Inr (VString t, moved (length (sized (bytes_of_string t))) s)" by (simp add: sized_def)
  qed simp
next
  case (VBlob t)
  then obtain f where f: "fuel = Suc f" by (cases fuel) auto
  show ?case unfolding f wire.simps
  proof (rule takes_tag [where k = "\<lambda>s. bind_result (read_sized_bytes s) (\<lambda>(bs, s). Inr (VBlob (string_of_bytes bs), s))",
          OF _ read_variant.simps(2)])
    fix s ys assume "bytes_ahead s (sized (bytes_of_string t) @ ys)"
    from read_sized_bytes_at [OF this] VBlob(1)
    show "bind_result (read_sized_bytes s) (\<lambda>(bs, s). Inr (VBlob (string_of_bytes bs), s)) =
        Inr (VBlob t, moved (length (sized (bytes_of_string t))) s)" by (simp add: sized_def)
  qed simp
next
  case (VArray vs)
  then obtain f where f: "fuel = Suc f" by (cases fuel) auto
  let ?n = "of_nat (length vs) :: u32"
  have n: "unat ?n = length vs" using VArray.prems(1) by (simp add: unat_of_nat take_bit_nat_eq_self)
  have el: "takes (read_elements (read_variant sk f) (length vs)) (concat (map wire vs)) vs"
  proof (rule read_elements_takes)
    fix v assume v: "v \<in> set vs"
    show "takes (read_variant sk f) (wire v) v"
      by (rule VArray.IH [OF v])
        (use v VArray.prems f length_in_concat [OF v, of wire] in \<open>auto simp: list_all_iff\<close>)
  qed
  show ?case unfolding f wire.simps
  proof (rule takes_tag [where k = "\<lambda>s. bind_result (stream_read_value 4 s) (\<lambda>(count :: u32, s).
         bind_result (read_elements (read_variant sk f) (unat count) s) (\<lambda>(vs, s). Inr (VArray vs, s)))",
          OF _ read_variant.simps(2)])
    fix s ys assume "bytes_ahead s ((le_bytes 4 ?n @ concat (map wire vs)) @ ys)"
    then have a: "bytes_ahead s (le_bytes 4 ?n @ concat (map wire vs) @ ys)" by simp
    have "bytes_ahead (moved 4 s) (concat (map wire vs) @ ys)" by (rule ahead_moved [OF a]) simp
    from takesD [OF el this]
    show "bind_result (stream_read_value 4 s) (\<lambda>(count :: u32, s).
         bind_result (read_elements (read_variant sk f) (unat count) s) (\<lambda>(vs, s). Inr (VArray vs, s))) =
         Inr (VArray vs, moved (length (le_bytes 4 ?n @ concat (map wire vs))) s)"
      using read_value_at [OF a] n by simp
  qed simp
next
  case (VObject es)
  then obtain f where f: "fuel = Suc f" by (cases fuel) auto
  let ?n = "of_nat (length es) :: u32" and ?w = "concat (map (\<lambda>(k, v). wire k @ wire v) es)"
  have n: "unat ?n = length es" using VObject.prems(1) by (simp add: unat_of_nat take_bit_nat_eq_self)
  have el: "takes (read_dict_entries sk (read_variant sk f) (length es) []) ?w ([] @ es)"
  proof (rule read_dict_entries_takes)
    fix k v assume kv: "(k, v) \<in> set es"
    have l: "length (wire k) < f" "length (wire v) < f"
      using length_in_concat [OF kv, of "\<lambda>(k, v). wire k @ wire v"] VObject.prems(3) f by (auto simp: wire_object)
    have "wire_encodable k \<and> wire_encodable v \<and> wire_decodable sk k \<and> wire_decodable sk v \<and> k \<noteq> VNull"
      using kv VObject.prems(1,2) by (force simp: list_all_iff)
    then show "takes (read_variant sk f) (wire k) k \<and> takes (read_variant sk f) (wire v) v \<and> k \<noteq> VNull"
      using VObject.IH [OF kv] l by (simp add: fsts.simps snds.simps)
  qed (use VObject.prems(2) in simp)
  show ?case unfolding f wire_object
  proof (rule takes_tag [where k = "\<lambda>s. bind_result (stream_read_value 4 s) (\<lambda>(count :: u32, s).
         bind_result (read_dict_entries sk (read_variant sk f) (unat count) [] s) (\<lambda>(es, s). Inr (VObject es, s)))",
          OF _ read_variant.simps(2)])
    fix s ys assume "bytes_ahead s ((le_bytes 4 ?n @ ?w) @ ys)"
    then have a: "bytes_ahead s (le_bytes 4 ?n @ ?w @ ys)" by simp
    have "bytes_ahead (moved 4 s) (?w @ ys)" by (rule ahead_moved [OF a]) simp
    from takesD [OF el this]
    show "bind_result (stream_read_value 4 s) (\<lambda>(count :: u32, s).
         bind_result (read_dict_entries sk (read_variant sk f) (unat count) [] s) (\<lambda>(es, s). Inr (VObject es, s))) =
         Inr (VObject es, moved (length (le_bytes 4 ?n @ ?w)) s)"
      using read_value_at [OF a] n by simp
  qed simp
qed simp

lemma encode_variant_bytes_wire:
  "fresh_ok fresh \<Longrightarrow> wire_encodable v \<Longrightarrow> encode_variant_bytes fresh v = Inr (wire v)"
  unfolding encode_variant_bytes_def by (rule emits_new [OF _ write_variant_emits, of fresh fresh v 128]) auto

lemma decode_variant_bytes_wire:
  assumes "wire_encodable v" "wire_decodable sk v"
  shows "decode_variant_bytes sk (wire v) = Inr v"
proof -
  have a: "bytes_ahead (stream_of (wrap_buffer (wire v)) False) (wire v @ [])" using ahead_stream_of by simp
  have "readable_bytes (moved (length (wire v)) (stream_of (wrap_buffer (wire v)) False)) = 0"
    using ahead_readable [OF ahead_moved [OF a refl]] by simp
  moreover have "takes (read_variant sk (Suc (length (wire v)))) (wire v) v"
    by (rule read_variant_takes) (use assms in auto)
  from takesD [OF this a] show ?thesis using calculation by (simp add: decode_variant_bytes_def del: read_variant.simps)
qed

section \<open>The wire form of fields\<close>

definition field_bytes :: "u32 \<times> variant \<Rightarrow> u8 list" where
  "field_bytes f = le_bytes 4 (fst f) @ sized (wire (snd f))"

definition fields_bytes :: "(u32 \<times> variant) list \<Rightarrow> u8 list" where
  "fields_bytes fs = le_bytes 4 (of_nat (length fs) :: u32) @ concat (map field_bytes fs)"

definition value_fits :: "(variant \<Rightarrow> variant \<Rightarrow> bool) \<Rightarrow> variant \<Rightarrow> bool" where
  "value_fits sk v \<longleftrightarrow> wire_encodable v \<and> wire_decodable sk v \<and> length (wire v) < 2 ^ 32"

definition fields_fit :: "(variant \<Rightarrow> variant \<Rightarrow> bool) \<Rightarrow> (u32 \<times> variant) list \<Rightarrow> bool" where
  "fields_fit sk fs \<longleftrightarrow> list_all (value_fits sk) (map snd fs) \<and> length (fields_bytes fs) < 2 ^ 32"

lemma length_sized [simp]: "length (sized bs) = 4 + length bs"
  by (simp add: sized_def)

lemma write_field_emits: "fresh_ok fresh \<Longrightarrow> value_fits sk v \<Longrightarrow> emits (write_field fresh i v) (field_bytes (i, v))"
  using emits_bind [OF emits_write_value [of fresh 4 i] write_sized_bytes_emits [of fresh "wire v"]]
  by (simp add: emits_def write_field_def field_bytes_def value_fits_def encode_variant_bytes_wire sized_def)

lemma write_fields_emits:
  "fresh_ok fresh \<Longrightarrow> list_all (value_fits sk) (map snd fs) \<Longrightarrow>
     emits (write_fields fresh fs) (concat (map field_bytes fs))"
proof (induction fs)
  case (Cons f fs)
  obtain i v where f: "f = (i, v)" by (cases f)
  have "emits (\<lambda>s. bind_result (write_field fresh i v s) (write_fields fresh fs))
      (field_bytes (i, v) @ concat (map field_bytes fs))"
    by (rule emits_bind [OF write_field_emits]) (use Cons f in auto)
  then show ?case by (simp add: emits_def f)
qed (simp add: emits_def)

lemma read_fields_takes:
  assumes "on_field_decoded (dc_options dc) = None"
  shows "list_all (value_fits (dc_same_key dc)) (map snd fs) \<Longrightarrow>
    takes (read_fields dc path_of pid kind (length fs)) (concat (map field_bytes fs)) fs"
proof (induction fs)
  case Nil
  then show ?case by (simp add: takes_def moved_def)
next
  case (Cons f fs)
  obtain i v where f: "f = (i, v)" by (cases f)
  have v: "wire_encodable v" "wire_decodable (dc_same_key dc) v" "length (wire v) < 2 ^ 32"
    using Cons.prems f by (simp_all add: value_fits_def)
  show ?case
    unfolding takes_def
  proof (intro allI impI)
    fix s ys assume "bytes_ahead s (concat (map field_bytes (f # fs)) @ ys)"
    then have a: "bytes_ahead s (le_bytes 4 i @ sized (wire v) @ concat (map field_bytes fs) @ ys)"
      by (simp add: f field_bytes_def)
    have a1: "bytes_ahead (moved 4 s) (sized (wire v) @ concat (map field_bytes fs) @ ys)" by (rule ahead_moved [OF a]) simp
    have a2: "bytes_ahead (moved (4 + length (wire v)) (moved 4 s)) (concat (map field_bytes fs) @ ys)"
      by (rule ahead_moved [OF a1]) simp
    have "read_fields dc path_of pid kind (length fs) (moved (4 + length (wire v)) (moved 4 s)) =
        Inr (fs, moved (length (concat (map field_bytes fs))) (moved (4 + length (wire v)) (moved 4 s)))"
      by (rule takesD [OF Cons.IH a2]) (use Cons.prems in simp)
    then show "read_fields dc path_of pid kind (length (f # fs)) s =
        Inr (f # fs, moved (length (concat (map field_bytes (f # fs)))) s)"
      using read_value_at [OF a] read_sized_bytes_at [OF a1 v(3)] decode_variant_bytes_wire [OF v(1,2)] assms
      by (simp add: f apply_field_hook_def field_bytes_def add_ac)
  qed
qed

lemma decode_fields_bytes:
  assumes "on_field_decoded (dc_options dc) = None" "fields_fit (dc_same_key dc) fs" "length fs < 2 ^ 32"
  shows "decode_fields dc path_of pid kind (fields_bytes fs) = Inr fs"
proof -
  let ?s = "stream_of (wrap_buffer (fields_bytes fs)) False"
  have n: "unat (of_nat (length fs) :: u32) = length fs" using assms(3) by (simp add: unat_of_nat take_bit_nat_eq_self)
  have a: "bytes_ahead ?s (le_bytes 4 (of_nat (length fs) :: u32) @ concat (map field_bytes fs) @ [])"
    using ahead_stream_of [of "fields_bytes fs"] by (simp add: fields_bytes_def)
  have a1: "bytes_ahead (moved 4 ?s) (concat (map field_bytes fs) @ [])" by (rule ahead_moved [OF a]) simp
  have "read_fields dc path_of pid kind (length fs) (moved 4 ?s) =
      Inr (fs, moved (length (concat (map field_bytes fs))) (moved 4 ?s))"
    by (rule takesD [OF read_fields_takes a1]) (use assms in \<open>simp_all add: fields_fit_def\<close>)
  moreover have "readable_bytes (moved (length (concat (map field_bytes fs))) (moved 4 ?s)) = 0"
    using ahead_readable [OF ahead_moved [OF a1 refl]] by simp
  ultimately show ?thesis using read_value_at [OF a] n by (simp add: decode_fields_def)
qed

section \<open>Headers\<close>

definition type_name :: "u32 \<Rightarrow> string" where
  "type_name t = message_type_names ! unat t"

definition header_fits :: "(variant \<Rightarrow> variant \<Rightarrow> bool) \<Rightarrow> message_header \<Rightarrow> bool" where
  "header_fits sk h \<longleftrightarrow> h_type h < 5 \<and> fields_fit sk (header_fields (VString (type_name (h_type h))) h)"

definition header_bytes :: "message_header \<Rightarrow> u8 list" where
  "header_bytes h = fields_bytes (header_fields (VString (type_name (h_type h))) h)"

lemma small_types: "(t :: u32) < 5 \<Longrightarrow> t = 0 \<or> t = 1 \<or> t = 2 \<or> t = 3 \<or> t = 4"
  by unat_arith

lemma type_name_read: "t < 5 \<Longrightarrow> message_type_from_variant m (VString (type_name t)) = Inr t"
  by (drule small_types) (auto simp: message_type_from_variant_def type_name_def message_type_names_def is_integer_def)

lemma encode_header_tlv_bytes:
  assumes f: "fresh_ok fresh" and h: "header_fits sk h"
  shows "encode_header_tlv_body fresh h = Inr (header_bytes h)"
proof -
  let ?fs = "header_fields (VString (type_name (h_type h))) h"
  have "emits (\<lambda>s. bind_result (stream_write_value fresh 4 (11 :: u32) s) (write_fields fresh ?fs))
      (le_bytes 4 (11 :: u32) @ concat (map field_bytes ?fs))"
    by (rule emits_bind [OF emits_write_value [OF f] write_fields_emits [OF f, where sk = sk]])
      (use h in \<open>simp add: header_fits_def fields_fit_def\<close>)
  then obtain s where s: "bind_result (stream_write_value fresh 4 (11 :: u32) (new_stream fresh 192))
      (write_fields fresh ?fs) = Inr s" "get_data s = le_bytes 4 (11 :: u32) @ concat (map field_bytes ?fs)"
    by (rule emits_new [OF f])
  have "message_type_to_variant (h_type h) = Inr (VString (type_name (h_type h)))"
    using h by (simp add: message_type_to_variant_def type_name_def header_fits_def)
  moreover have "length ?fs = 11" by (simp add: header_fields_def)
  ultimately show ?thesis using s
    by (cases "stream_write_value fresh 4 (11 :: u32) (new_stream fresh 192)")
      (simp_all add: encode_header_tlv_body_def header_bytes_def fields_bytes_def)
qed

lemma build_header: "h_type h < 5 \<Longrightarrow>
    build_header_from_fields m (header_fields (VString (type_name (h_type h))) h) = Inr h"
  by (simp add: build_header_from_fields_def field_or_default_def header_fields_def type_name_read as_object_def)

lemma decode_header_bytes:
  assumes "on_field_decoded (dc_options dc) = None" "header_fits (dc_same_key dc) h"
  shows "bind_result (decode_header_tlv_fields dc (header_bytes h)) (build_header_from_fields (dc_methods dc)) = Inr h"
proof -
  let ?fs = "header_fields (VString (type_name (h_type h))) h"
  have "length ?fs < 2 ^ 32" by (simp add: header_fields_def)
  then have "decode_header_tlv_fields dc (header_bytes h) = Inr ?fs"
    using decode_fields_bytes [OF assms(1)] assms(2)
    by (simp add: decode_header_tlv_fields_def header_bytes_def header_fits_def)
  then show ?thesis using assms(2) by (simp add: build_header header_fits_def)
qed

section \<open>Payloads\<close>

definition record_bytes :: "u64 \<Rightarrow> u32 \<Rightarrow> u8 \<Rightarrow> u8 list \<Rightarrow> u8 list" where
  "record_bytes pid kind enc body =
     le_bytes 4 magic_payload @ le_bytes 2 version_payload @ le_bytes 8 pid @ le_bytes 4 kind @ [enc] @ sized body"

lemma encode_payload_record:
  assumes f: "fresh_ok fresh" and l: "length body < 2 ^ 32"
  shows "encode_payload_record_bytes fresh pid kind enc body = Inr (record_bytes pid kind enc body)"
proof -
  have "emits (\<lambda>s.
     bind_result (stream_write_value fresh 4 magic_payload s) (\<lambda>s.
     bind_result (stream_write_value fresh 2 version_payload s) (\<lambda>s.
     bind_result (stream_write_value fresh 8 pid s) (\<lambda>s.
     bind_result (stream_write_value fresh 4 kind s) (\<lambda>s.
     bind_result (stream_write_value fresh 1 enc s) (write_sized_bytes fresh body))))))
     (le_bytes 4 magic_payload @ le_bytes 2 version_payload @ le_bytes 8 pid @ le_bytes 4 kind @ le_bytes 1 enc @
      (le_bytes 4 (of_nat (length body) :: u32) @ body))"
    by (intro emits_bind emits_write_value write_sized_bytes_emits f l)
  then obtain s where s: "bind_result (stream_write_value fresh 4 magic_payload (new_stream fresh (128 + length body))) (\<lambda>s.
     bind_result (stream_write_value fresh 2 version_payload s) (\<lambda>s.
     bind_result (stream_write_value fresh 8 pid s) (\<lambda>s.
     bind_result (stream_write_value fresh 4 kind s) (\<lambda>s.
     bind_result (stream_write_value fresh 1 enc s) (write_sized_bytes fresh body))))) = Inr s"
    "get_data s = record_bytes pid kind enc body"
    using emits_new [OF f] by (metis (no_types, lifting) record_bytes_def sized_def le_bytes_one)
  have bind_assoc: "bind_result (bind_result r g) k = bind_result r (\<lambda>x. bind_result (g x) k)"
    for r :: "io_stream result" and g and k :: "io_stream \<Rightarrow> u8 list result"
    by (cases r) auto
  have "bind_result (Inr s) (\<lambda>s. Inr (get_data s)) = (Inr (record_bytes pid kind enc body) :: u8 list result)"
    using s(2) by simp
  then show ?thesis unfolding s(1) [symmetric] bind_assoc encode_payload_record_bytes_def .
qed

lemma decode_payload_record:
  assumes "length body < 2 ^ 32"
  shows "decode_payload_bytes dc (record_bytes pid kind enc body) =
    (let opaque = Opaque_Payload pid kind (record_bytes pid kind enc body) in
     if enc = 1 then
       bind_result (decode_standard_payload_fields dc pid kind body) (\<lambda>fs.
       bind_result (standard_payload_of_fields (dc_methods dc) pid kind fs) (\<lambda>standard.
         Inr (case standard of Some p \<Rightarrow> p | None \<Rightarrow> opaque)))
     else if enc = 0 then
       bind_result (decode_dict_bytes (dc_same_key dc) body) (\<lambda>d.
       bind_result (decode_standard_payload dc pid kind d) (\<lambda>standard.
         case standard of
           Some p \<Rightarrow> Inr p
         | None \<Rightarrow> bind_result (decode_custom dc pid kind d) (\<lambda>custom.
             Inr (case custom of Some p \<Rightarrow> p | None \<Rightarrow> opaque))))
     else Inl invalid_arg_exception)"
proof -
  let ?s = "stream_of (wrap_buffer (record_bytes pid kind enc body)) False"
  have a: "bytes_ahead ?s (le_bytes 4 magic_payload @ le_bytes 2 version_payload @ le_bytes 8 pid @ le_bytes 4 kind @
      le_bytes 1 enc @ sized body @ [])"
    using ahead_stream_of [of "record_bytes pid kind enc body"] unfolding le_bytes_one record_bytes_def by simp
  have a1: "bytes_ahead (moved 4 ?s) (le_bytes 2 version_payload @ le_bytes 8 pid @ le_bytes 4 kind @ le_bytes 1 enc @ sized body @ [])"
    by (rule ahead_moved [OF a]) simp
  have a2: "bytes_ahead (moved 2 (moved 4 ?s)) (le_bytes 8 pid @ le_bytes 4 kind @ le_bytes 1 enc @ sized body @ [])"
    by (rule ahead_moved [OF a1]) simp
  have a3: "bytes_ahead (moved 8 (moved 2 (moved 4 ?s))) (le_bytes 4 kind @ le_bytes 1 enc @ sized body @ [])"
    by (rule ahead_moved [OF a2]) simp
  have a4: "bytes_ahead (moved 4 (moved 8 (moved 2 (moved 4 ?s)))) (le_bytes 1 enc @ sized body @ [])"
    by (rule ahead_moved [OF a3]) simp
  have a5: "bytes_ahead (moved 1 (moved 4 (moved 8 (moved 2 (moved 4 ?s))))) (sized body @ [])"
    by (rule ahead_moved [OF a4]) simp
  note R = read_value_at [OF a, simplified] read_value_at [OF a1, simplified] read_value_at [OF a2, simplified]
    read_value_at [OF a3, simplified] read_value_at [OF a4, simplified] read_sized_bytes_at [OF a5 assms, simplified]
  show ?thesis unfolding decode_payload_bytes_def by (simp add: R Let_def)
qed

text \<open>Keys that are texts are equal when the texts are.\<close>

definition text_keys :: "(variant \<Rightarrow> variant \<Rightarrow> bool) \<Rightarrow> bool" where
  "text_keys sk \<longleftrightarrow> (\<forall>s t. sk (VString s) (VString t) = (s = t))"

lemma text_keysD: "text_keys sk \<Longrightarrow> sk (VString s) (VString t) = (s = t)"
  by (simp add: text_keys_def)

definition no_hook :: "decoder \<Rightarrow> bool" where
  "no_hook dc \<longleftrightarrow> on_field_decoded (dc_options dc) = None"

lemma standard_body_decoded:
  assumes "text_keys (dc_same_key dc)" "no_hook dc"
  shows "decode_standard_payload dc 1 1 (payload_body_to_dict (Method_Call_Payload sig args)) = Inr (Some (Method_Call_Payload sig args))"
    "decode_standard_payload dc 2 2 (payload_body_to_dict (Method_Return_Payload v sig)) = Inr (Some (Method_Return_Payload v sig))"
    "decode_standard_payload dc 3 3 (payload_body_to_dict (Error_Payload name msg)) = Inr (Some (Error_Payload name msg))"
    "decode_standard_payload dc 4 4 (payload_body_to_dict (Signal_Payload sig args)) = Inr (Some (Signal_Payload sig args))"
  using assms
  by (simp_all add: decode_standard_payload_def decode_field_as_def decode_variant_field_def get_dict_field_def
      apply_field_hook_def text_keysD no_hook_def as_array_def)

text \<open>
  What a receiver with \<open>dc\<close> gets as it was sent: payloads of the four standard classes, those of the application that
  its hook builds again, and, as opaque payloads, the records of applications that its hook does not know.
\<close>

fun payload_fits :: "decoder \<Rightarrow> payload \<Rightarrow> bool" where
  "payload_fits dc (Opaque_Payload i k bs) =
     (\<exists>d. bs = record_bytes i k 0 (wire (VObject d)) \<and> (i = 0 \<or> 4 < i) \<and> value_fits (dc_same_key dc) (VObject d) \<and>
          decode_custom dc i k d = Inr None)"
| "payload_fits dc (Custom_Payload i k d) =
     ((i = 0 \<or> 4 < i) \<and> value_fits (dc_same_key dc) (VObject d) \<and>
      decode_custom dc i k d = Inr (Some (Custom_Payload i k d)))"
| "payload_fits dc p = (case standard_fields p of Inr fs \<Rightarrow> fields_fit (dc_same_key dc) fs | Inl e \<Rightarrow> False)"

fun payload_bytes :: "payload \<Rightarrow> u8 list" where
  "payload_bytes (Opaque_Payload i k bs) = bs"
| "payload_bytes (Custom_Payload i k d) = record_bytes i k 0 (wire (VObject d))"
| "payload_bytes p =
     record_bytes (payload_id p) (message_type_id p) 1 (case standard_fields p of Inr fs \<Rightarrow> fields_bytes fs | Inl e \<Rightarrow> [])"

lemma encode_standard_body:
  assumes f: "fresh_ok fresh" and "standard_fields p = Inr fs" "list_all (value_fits sk) (map snd fs)" "length fs = 2"
  shows "encode_standard_payload_body fresh p = Inr (fields_bytes fs)"
proof -
  have "emits (\<lambda>s. bind_result (stream_write_value fresh 4 (2 :: u32) s) (write_fields fresh fs))
      (le_bytes 4 (2 :: u32) @ concat (map field_bytes fs))"
    by (rule emits_bind [OF emits_write_value [OF f] write_fields_emits [OF f, where sk = sk]]) (rule assms(3))
  then obtain s where s: "bind_result (stream_write_value fresh 4 (2 :: u32) (new_stream fresh 128))
      (write_fields fresh fs) = Inr s" "get_data s = le_bytes 4 (2 :: u32) @ concat (map field_bytes fs)"
    by (rule emits_new [OF f])
  then show ?thesis using assms(2,4)
    by (cases "stream_write_value fresh 4 (2 :: u32) (new_stream fresh 128)")
      (simp_all add: encode_standard_payload_body_def fields_bytes_def)
qed

lemma encode_standard_payload:
  assumes f: "fresh_ok fresh" and "standard_fields p = Inr fs" "fields_fit sk fs" "length fs = 2"
    and "decode_standard_payload \<lparr>dc_methods = m, dc_same_key = sk', dc_options = no_options\<rparr> (payload_id p)
      (message_type_id p) (payload_body_to_dict p) = Inr (Some q)" "\<not> is_opaque p"
  shows "encode_payload_bytes fresh m sk' p = Inr (record_bytes (payload_id p) (message_type_id p) 1 (fields_bytes fs))"
proof -
  have "encode_standard_payload_body fresh p = Inr (fields_bytes fs)"
    by (rule encode_standard_body [OF f assms(2) _ assms(4), of sk]) (use assms(3) in \<open>simp add: fields_fit_def\<close>)
  moreover have "encode_payload_record_bytes fresh (payload_id p) (message_type_id p) 1 (fields_bytes fs) =
      Inr (record_bytes (payload_id p) (message_type_id p) 1 (fields_bytes fs))"
    by (rule encode_payload_record [OF f]) (use assms(3) in \<open>simp add: fields_fit_def\<close>)
  ultimately show ?thesis using assms(5,6) by (cases p) (simp_all add: encode_payload_bytes_def Let_def)
qed

lemma encode_payload_bytes_wire:
  assumes f: "fresh_ok fresh" and t: "text_keys (dc_same_key dc)" and p: "payload_fits dc p"
  shows "encode_payload_bytes fresh m (dc_same_key dc) p = Inr (payload_bytes p)"
proof -
  let ?dc = "\<lparr>dc_methods = m, dc_same_key = dc_same_key dc, dc_options = no_options\<rparr>"
  have D: "text_keys (dc_same_key ?dc)" "no_hook ?dc" using t by (simp_all add: no_hook_def no_options_def)
  note S = standard_body_decoded [OF D]
  show ?thesis
  proof (cases p)
    case (Method_Call_Payload sig args)
    show ?thesis using encode_standard_payload [OF f, of p _ "dc_same_key dc" m "dc_same_key dc"] S(1) p
      by (simp add: Method_Call_Payload)
  next
    case (Method_Return_Payload v sig)
    show ?thesis using encode_standard_payload [OF f, of p _ "dc_same_key dc" m "dc_same_key dc"] S(2) p
      by (simp add: Method_Return_Payload)
  next
    case (Error_Payload name msg)
    show ?thesis using encode_standard_payload [OF f, of p _ "dc_same_key dc" m "dc_same_key dc"] S(3) p
      by (simp add: Error_Payload)
  next
    case (Signal_Payload sig args)
    show ?thesis using encode_standard_payload [OF f, of p _ "dc_same_key dc" m "dc_same_key dc"] S(4) p
      by (simp add: Signal_Payload)
  next
    case (Opaque_Payload i k bs)
    then show ?thesis by (simp add: encode_payload_bytes_def)
  next
    case (Custom_Payload i k d)
    have ne: "i \<noteq> 1" "i \<noteq> 2" "i \<noteq> 3" "i \<noteq> 4" using p Custom_Payload by auto
    have v: "wire_encodable (VObject d)" "length (wire (VObject d)) < 2 ^ 32"
      using p Custom_Payload by (simp_all add: value_fits_def)
    show ?thesis using ne encode_variant_bytes_wire [OF f v(1)] encode_payload_record [OF f v(2)]
      by (simp add: Custom_Payload encode_payload_bytes_def decode_standard_payload_def encode_dict_bytes_def Let_def)
  qed
qed

lemma decode_standard_fields:
  assumes "no_hook dc" "fields_fit (dc_same_key dc) fs" "length fs = 2"
  shows "decode_payload_bytes dc (record_bytes pid kind 1 (fields_bytes fs)) =
    bind_result (standard_payload_of_fields (dc_methods dc) pid kind fs) (\<lambda>standard.
      Inr (case standard of Some p \<Rightarrow> p | None \<Rightarrow> Opaque_Payload pid kind (record_bytes pid kind 1 (fields_bytes fs))))"
proof -
  have "decode_standard_payload_fields dc pid kind (fields_bytes fs) = Inr fs"
    unfolding decode_standard_payload_fields_def by (rule decode_fields_bytes) (use assms in \<open>simp_all add: no_hook_def\<close>)
  moreover have "length (fields_bytes fs) < 2 ^ 32" using assms(2) by (simp add: fields_fit_def)
  ultimately show ?thesis by (simp add: decode_payload_record Let_def)
qed

lemma decode_dict_record:
  assumes "i = 0 \<or> 4 < i" "value_fits (dc_same_key dc) (VObject d)"
  shows "decode_payload_bytes dc (record_bytes i k 0 (wire (VObject d))) =
    bind_result (decode_custom dc i k d) (\<lambda>custom.
      Inr (case custom of Some p \<Rightarrow> p | None \<Rightarrow> Opaque_Payload i k (record_bytes i k 0 (wire (VObject d)))))"
proof -
  have ne: "i \<noteq> 1" "i \<noteq> 2" "i \<noteq> 3" "i \<noteq> 4" using assms(1) by auto
  have v: "wire_encodable (VObject d)" "wire_decodable (dc_same_key dc) (VObject d)" "length (wire (VObject d)) < 2 ^ 32"
    using assms(2) by (simp_all add: value_fits_def)
  have "decode_dict_bytes (dc_same_key dc) (wire (VObject d)) = Inr d"
    using decode_variant_bytes_wire [OF v(1,2)] by (simp add: decode_dict_bytes_def)
  moreover have "decode_standard_payload dc i k d = Inr None" using ne by (simp add: decode_standard_payload_def)
  ultimately show ?thesis using v(3) by (simp add: decode_payload_record Let_def)
qed

lemma decode_payload_bytes_wire:
  assumes n: "no_hook dc" and p: "payload_fits dc p"
  shows "decode_payload_bytes dc (payload_bytes p) = Inr p"
proof (cases p)
  case (Opaque_Payload i k bs)
  then obtain d where d: "bs = record_bytes i k 0 (wire (VObject d))" "i = 0 \<or> 4 < i"
      "value_fits (dc_same_key dc) (VObject d)" "decode_custom dc i k d = Inr None" using p by auto
  show ?thesis using decode_dict_record [OF d(2,3), of k] d(1,4) by (simp add: Opaque_Payload)
next
  case (Custom_Payload i k d)
  then show ?thesis using p decode_dict_record [of i dc d k] by simp
qed (use p decode_standard_fields [OF n] in
    \<open>simp_all add: standard_payload_of_fields_def both_fields_def as_array_def\<close>)

section \<open>Whole messages\<close>

definition body_bytes :: "message \<Rightarrow> u8 list" where
  "body_bytes msg = (case msg_body msg of Some p \<Rightarrow> payload_bytes p | None \<Rightarrow> [])"

definition message_bytes :: "message \<Rightarrow> u8 list" where
  "message_bytes msg =
     le_bytes 4 magic_message @ le_bytes 2 version_message @ [1] @ sized (header_bytes (msg_header msg)) @
     sized (body_bytes msg)"

definition message_fits :: "decoder \<Rightarrow> message \<Rightarrow> bool" where
  "message_fits dc msg \<longleftrightarrow>
     header_fits (dc_same_key dc) (msg_header msg) \<and> length (body_bytes msg) < 2 ^ 32 \<and>
     (case msg_body msg of Some p \<Rightarrow> payload_fits dc p | None \<Rightarrow> True)"

lemma payload_bytes_nonempty: "payload_fits dc p \<Longrightarrow> payload_bytes p \<noteq> []"
  by (cases p) (auto simp: record_bytes_def)

lemma bind_result_assoc:
  "bind_result (bind_result r g) k = bind_result r (\<lambda>x. bind_result (g x) k)"
  by (cases r) auto

lemma encode_message_bytes_wire:
  assumes f: "fresh_ok fresh" and t: "text_keys (dc_same_key dc)" and p: "message_fits dc msg"
  shows "encode_message_bytes fresh m (dc_same_key dc) msg = Inr (message_bytes msg)"
proof -
  have h: "encode_header_tlv_body fresh (msg_header msg) = Inr (header_bytes (msg_header msg))"
    by (rule encode_header_tlv_bytes [OF f, where sk = "dc_same_key dc"]) (use p in \<open>simp add: message_fits_def\<close>)
  have l: "length (header_bytes (msg_header msg)) < 2 ^ 32" "length (body_bytes msg) < 2 ^ 32"
    using p by (simp_all add: message_fits_def header_fits_def fields_fit_def header_bytes_def)
  have b: "(case msg_body msg of
      Some p \<Rightarrow> bind_result (encode_payload_bytes fresh m (dc_same_key dc) p) (\<lambda>bs. write_sized_bytes fresh bs s)
    | None \<Rightarrow> write_sized_bytes fresh [] s) = write_sized_bytes fresh (body_bytes msg) s" for s
    using encode_payload_bytes_wire [OF f t, of _ m] p
    by (cases "msg_body msg") (simp_all add: message_fits_def body_bytes_def)
  have "emits (\<lambda>s.
     bind_result (stream_write_value fresh 4 magic_message s) (\<lambda>s.
     bind_result (stream_write_value fresh 2 version_message s) (\<lambda>s.
     bind_result (stream_write_value fresh 1 (1 :: u8) s) (\<lambda>s.
     bind_result (write_sized_bytes fresh (header_bytes (msg_header msg)) s)
       (write_sized_bytes fresh (body_bytes msg))))))
     (le_bytes 4 magic_message @ le_bytes 2 version_message @ le_bytes 1 (1 :: u8) @
      (le_bytes 4 (of_nat (length (header_bytes (msg_header msg))) :: u32) @ header_bytes (msg_header msg)) @
      (le_bytes 4 (of_nat (length (body_bytes msg)) :: u32) @ body_bytes msg))"
    by (intro emits_bind emits_write_value write_sized_bytes_emits f l)
  from emits_new [OF f this, of 256] obtain s where s:
    "bind_result (stream_write_value fresh 4 magic_message (new_stream fresh 256)) (\<lambda>s.
     bind_result (stream_write_value fresh 2 version_message s) (\<lambda>s.
     bind_result (stream_write_value fresh 1 (1 :: u8) s) (\<lambda>s.
     bind_result (write_sized_bytes fresh (header_bytes (msg_header msg)) s)
       (write_sized_bytes fresh (body_bytes msg))))) = Inr s"
    "get_data s = message_bytes msg"
    unfolding le_bytes_one message_bytes_def sized_def by blast
  have "bind_result (Inr s) (\<lambda>s. Inr (get_data s)) = (Inr (message_bytes msg) :: u8 list result)"
    using s(2) by simp
  then show ?thesis unfolding s(1) [symmetric] bind_result_assoc encode_message_bytes_def h b by simp
qed

lemma decode_message_bytes_wire:
  assumes n: "no_hook dc" and p: "message_fits dc msg"
  shows "decode_message_bytes dc (message_bytes msg) = Inr msg"
proof -
  let ?s = "stream_of (wrap_buffer (message_bytes msg)) False"
  have l: "length (header_bytes (msg_header msg)) < 2 ^ 32" "length (body_bytes msg) < 2 ^ 32"
    using p by (simp_all add: message_fits_def header_fits_def fields_fit_def header_bytes_def)
  have a: "bytes_ahead ?s (le_bytes 4 magic_message @ le_bytes 2 version_message @ le_bytes 1 (1 :: u8) @
      sized (header_bytes (msg_header msg)) @ sized (body_bytes msg) @ [])"
    using ahead_stream_of [of "message_bytes msg"] unfolding le_bytes_one message_bytes_def by simp
  have a1: "bytes_ahead (moved 4 ?s) (le_bytes 2 version_message @ le_bytes 1 (1 :: u8) @
      sized (header_bytes (msg_header msg)) @ sized (body_bytes msg) @ [])"
    by (rule ahead_moved [OF a]) simp
  have a2: "bytes_ahead (moved 2 (moved 4 ?s)) (le_bytes 1 (1 :: u8) @
      sized (header_bytes (msg_header msg)) @ sized (body_bytes msg) @ [])"
    by (rule ahead_moved [OF a1]) simp
  have a3: "bytes_ahead (moved 1 (moved 2 (moved 4 ?s))) (sized (header_bytes (msg_header msg)) @ sized (body_bytes msg) @ [])"
    by (rule ahead_moved [OF a2]) simp
  have a4: "bytes_ahead (moved (4 + length (header_bytes (msg_header msg))) (moved 1 (moved 2 (moved 4 ?s))))
      (sized (body_bytes msg) @ [])"
    by (rule ahead_moved [OF a3]) simp
  have e: "readable_bytes (moved (4 + length (body_bytes msg)) (moved (4 + length (header_bytes (msg_header msg)))
      (moved 1 (moved 2 (moved 4 ?s))))) = 0"
    using ahead_readable [OF ahead_moved [OF a4, of "4 + length (body_bytes msg)"]] by simp
  have h: "bind_result (decode_header_tlv_fields dc (header_bytes (msg_header msg)))
      (build_header_from_fields (dc_methods dc)) = Inr (msg_header msg)"
    by (rule decode_header_bytes) (use n p in \<open>simp_all add: no_hook_def message_fits_def\<close>)
  have b: "(if body_bytes msg \<noteq> [] then bind_result (decode_payload_bytes dc (body_bytes msg)) (\<lambda>p. Inr (Some p))
      else Inr None) = (Inr (msg_body msg) :: payload option result)"
    using p decode_payload_bytes_wire [OF n] payload_bytes_nonempty [of dc]
    by (cases "msg_body msg") (auto simp: message_fits_def body_bytes_def)
  note R = read_value_at [OF a, simplified] read_value_at [OF a1, simplified] read_value_at [OF a2, simplified]
    read_sized_bytes_at [OF a3 l(1), simplified] read_sized_bytes_at [OF a4 l(2), simplified] e [simplified]
  show ?thesis unfolding decode_message_bytes_def by (simp add: R h b del: bind_result_assoc)
qed

text \<open>A payload that the receiver does not know is passed on as it came.\<close>

lemma standard_never_opaque:
  "decode_standard_payload dc pid kind d = Inr (Some p) \<Longrightarrow> \<not> is_opaque p"
  "standard_payload_of_fields m pid kind fs = Inr (Some p) \<Longrightarrow> \<not> is_opaque p"
  by (auto simp: decode_standard_payload_def standard_payload_of_fields_def both_fields_def bind_result_eq_Inr
      split: if_splits option.splits)

lemma standard_never_opaque' [simp]:
  "decode_standard_payload dc pid kind d \<noteq> Inr (Some (Opaque_Payload i k bs))"
  "standard_payload_of_fields m pid kind fs \<noteq> Inr (Some (Opaque_Payload i k bs))"
  using standard_never_opaque [where p = "Opaque_Payload i k bs"] by auto

lemma opaque_relay:
  assumes d: "decode_payload_bytes dc bs = Inr (Opaque_Payload i k bs')" and c: "custom_payload (dc_options dc) = None"
  shows "bs' = bs"
proof -
  show ?thesis using d c
    by (auto simp: decode_payload_bytes_def bind_result_eq_Inr decode_custom_def Let_def
        split: if_splits option.splits prod.splits)
qed

section \<open>The dict form\<close>

lemma bytes_of_string_of_bytes [simp]: "bytes_of_string (string_of_bytes bs) = bs"
proof -
  have "of_char (char_of (unat b)) = b" for b :: u8
  proof -
    have "of_char (char_of (unat b)) = (of_nat (of_char (char_of (unat b))) :: u8)" by (simp only: of_nat_of_char)
    also have "of_char (char_of (unat b)) = unat b"
      using unsigned_less [of b, where 'a = nat] by (simp only: of_char_of) simp
    finally show ?thesis by simp
  qed
  then show ?thesis by (induction bs) (simp_all add: bytes_of_string_def string_of_bytes_def)
qed

fun dict_fits :: "decoder \<Rightarrow> payload \<Rightarrow> bool" where
  "dict_fits dc (Opaque_Payload i k bs) =
     ((i = 0 \<or> 4 < i) \<and> k < 5 \<and>
      decode_custom dc i k [(VString ''wire_bytes'', VBlob (string_of_bytes bs))] = Inr None)"
| "dict_fits dc (Custom_Payload i k d) =
     ((i = 0 \<or> 4 < i) \<and> k < 5 \<and> decode_custom dc i k d = Inr (Some (Custom_Payload i k d)))"
| "dict_fits dc p = True"

lemma encode_message_type: "t < 5 \<Longrightarrow> message_type_to_variant t = Inr (VString (type_name t))"
  by (simp add: message_type_to_variant_def type_name_def)

lemmas dict_field_defs =
  decode_field_as_def decode_variant_field_def get_dict_field_def apply_field_hook_def

lemma decode_payload_dict:
  assumes t: "text_keys (dc_same_key dc)" and n: "no_hook dc" and p: "dict_fits dc p" and e: "encode_payload p = Inr d"
  shows "decode_payload fresh dc d = Inr p"
proof -
  have k: "message_type_id p < 5" using p by (cases p) auto
  have d: "d = [(VString ''payload_id'', VUInt uint64_type (payload_id p)),
      (VString ''message_type'', VString (type_name (message_type_id p))), (VString ''body'', VObject (payload_body_to_dict p))]"
    using e by (simp add: encode_payload_def encode_message_type [OF k])
  have step: "decode_payload fresh dc d =
     bind_result (decode_standard_payload dc (payload_id p) (message_type_id p) (payload_body_to_dict p)) (\<lambda>standard.
       case standard of Some q \<Rightarrow> Inr q
       | None \<Rightarrow> decode_unknown_payload fresh dc (payload_id p) (message_type_id p) (payload_body_to_dict p))"
    using t n type_name_read [OF k, of "dc_methods dc"]
    by (simp add: d decode_payload_def dict_field_defs text_keysD no_hook_def as_object_def)
  note S = standard_body_decoded [OF t n]
  show ?thesis
  proof (cases p)
    case (Opaque_Payload i k bs)
    have ne: "i \<noteq> 1" "i \<noteq> 2" "i \<noteq> 3" "i \<noteq> 4" using p Opaque_Payload by auto
    then show ?thesis using step p t bytes_of_string_of_bytes
      by (simp add: Opaque_Payload decode_standard_payload_def decode_unknown_payload_def text_keysD)
  next
    case (Custom_Payload i k d)
    have ne: "i \<noteq> 1" "i \<noteq> 2" "i \<noteq> 3" "i \<noteq> 4" using p Custom_Payload by auto
    then show ?thesis using step p
      by (simp add: Custom_Payload decode_standard_payload_def decode_unknown_payload_def)
  qed (use step S in simp_all)
qed

lemma decode_header_of_dict:
  assumes t: "text_keys (dc_same_key dc)" and n: "no_hook dc" and h: "h_type h < 5" and e: "header_to_dict h = Inr d"
  shows "decode_header_dict dc d = Inr h"
proof -
  have d: "d = zip (map VString header_field_names) (map snd (header_fields (VString (type_name (h_type h))) h))"
    using e by (simp add: header_to_dict_def encode_message_type [OF h])
  show ?thesis using t n type_name_read [OF h, of "dc_methods dc"]
    by (simp add: d header_fields_def header_field_names_def decode_header_dict_def dict_field_defs text_keysD
        no_hook_def as_object_def Let_def)
qed

lemma decode_message_dict:
  assumes t: "text_keys (dc_same_key dc)" and n: "no_hook dc" and h: "h_type (msg_header msg) < 5"
    and p: "\<And>p. msg_body msg = Some p \<Longrightarrow> dict_fits dc p" and e: "encode_message msg = Inr d"
  shows "decode_message fresh dc d = Inr msg"
proof -
  obtain hd where hd: "header_to_dict (msg_header msg) = Inr hd"
    using e by (cases "header_to_dict (msg_header msg)") (simp_all add: encode_message_def)
  note H = decode_header_of_dict [OF t n h hd]
  show ?thesis
  proof (cases "msg_body msg")
    case None
    then show ?thesis using e hd H t n
      by (auto simp: encode_message_def decode_message_def dict_field_defs text_keysD no_hook_def as_object_def)
  next
    case (Some q)
    then obtain b where b: "encode_payload q = Inr b" using e hd
      by (cases "encode_payload q") (simp_all add: encode_message_def)
    have "decode_payload fresh dc b = Inr q" by (rule decode_payload_dict [OF t n p [OF Some] b])
    then show ?thesis using e hd H t n Some b
      by (auto simp: encode_message_def decode_message_def dict_field_defs text_keysD no_hook_def as_object_def)
  qed
qed

section \<open>The contract of a codec\<close>

locale wire_format =
  fixes encode :: "'a \<Rightarrow> 'b result" and decode :: "'b \<Rightarrow> 'a result" and fits :: "'a \<Rightarrow> bool"
  assumes encode_total: "fits x \<Longrightarrow> \<exists>b. encode x = Inr b"
    and decode_encode: "fits x \<Longrightarrow> encode x = Inr b \<Longrightarrow> decode b = Inr x"
begin

lemma roundtrip:
  assumes "fits x"
  shows "bind_result (encode x) decode = Inr x"
proof -
  obtain b where b: "encode x = Inr b" using encode_total [OF assms] ..
  show ?thesis unfolding b bind_result_simps by (rule decode_encode [OF assms b])
qed

lemma encode_inject:
  assumes "fits x" "fits y" and e: "encode x = encode y"
  shows "x = y"
  using roundtrip [OF assms(1)] roundtrip [OF assms(2)] unfolding e by simp

text \<open>Passing a value on: what was decoded from the bytes of a sender encodes to the same bytes.\<close>

lemma relay: "fits x \<Longrightarrow> encode x = Inr b \<Longrightarrow> bind_result (decode b) encode = Inr b"
  using decode_encode by simp

end

interpretation variant_wire: wire_format "encode_variant_bytes fresh" "decode_variant_bytes sk"
    "\<lambda>v. fresh_ok fresh \<and> wire_encodable v \<and> wire_decodable sk v" for fresh sk
  by unfold_locales (auto simp: encode_variant_bytes_wire decode_variant_bytes_wire)

interpretation payload_wire: wire_format "encode_payload_bytes fresh m (dc_same_key dc)" "decode_payload_bytes dc"
    "\<lambda>p. fresh_ok fresh \<and> text_keys (dc_same_key dc) \<and> no_hook dc \<and> payload_fits dc p" for fresh m dc
  by unfold_locales (auto simp: encode_payload_bytes_wire decode_payload_bytes_wire)

interpretation message_wire: wire_format "encode_message_bytes fresh m (dc_same_key dc)" "decode_message_bytes dc"
    "\<lambda>msg. fresh_ok fresh \<and> text_keys (dc_same_key dc) \<and> no_hook dc \<and> message_fits dc msg" for fresh m dc
  by unfold_locales (auto simp: encode_message_bytes_wire decode_message_bytes_wire)

text \<open>Messages that survive the dict form: the header and the payload have one of the five types of messages.\<close>

definition message_dict_fits :: "decoder \<Rightarrow> message \<Rightarrow> bool" where
  "message_dict_fits dc msg \<longleftrightarrow> h_type (msg_header msg) < 5 \<and>
     (case msg_body msg of Some p \<Rightarrow> dict_fits dc p | None \<Rightarrow> True)"

lemma encode_message_total: "message_dict_fits dc msg \<Longrightarrow> \<exists>d. encode_message msg = Inr d"
proof -
  assume m: "message_dict_fits dc msg"
  then have "message_type_id p < 5" if "msg_body msg = Some p" for p
    using that by (cases p) (auto simp: message_dict_fits_def)
  with m show ?thesis
    by (cases "msg_body msg")
      (auto simp: message_dict_fits_def encode_message_def header_to_dict_def encode_payload_def encode_message_type)
qed

interpretation message_dict: wire_format encode_message "decode_message fresh dc"
    "\<lambda>msg. text_keys (dc_same_key dc) \<and> no_hook dc \<and> message_dict_fits dc msg" for fresh dc
  by unfold_locales
    (auto simp: message_dict_fits_def encode_message_total intro!: decode_message_dict intro: encode_message_total
      split: option.splits)

section \<open>Properties\<close>

text \<open>
  C18. A message is received as it was sent: what \<^verbatim>\<open>encode_message_bytes\<close> writes, \<^verbatim>\<open>decode_message_bytes\<close> reads back to
  the same header and payload, for every content of fresh memory. The payload is one of the four standard classes, one
  that the receiver's hook builds again from its dict, or a record the receiver does not know, which stays
  opaque. The strings, lists and fields are within the 32-bit lengths of the format, the keys of dicts are
  distinct and not null, there are no extensions, and no hook changes decoded fields.
\<close>

theorem message_bytes_roundtrip:
  assumes "fresh_ok fresh" "text_keys (dc_same_key dc)" "no_hook dc" "message_fits dc msg"
  shows "bind_result (encode_message_bytes fresh m (dc_same_key dc) msg) (decode_message_bytes dc) = Inr msg"
  by (rule message_wire.roundtrip) (use assms in simp)

definition example_message :: message where
  "example_message =
     \<lparr>msg_header = empty_header\<lparr>h_type := 1, h_destination := ''org.a'', h_serial := 7,
        h_context := [(VString ''id'', VArray [VInt int16_type (- 2), VBool True])]\<rparr>,
      msg_body = Some (Method_Call_Payload ''is'' [VInt int32_type 5, VString ''x''])\<rparr>"

definition example_decoder :: decoder where
  "example_decoder = \<lparr>dc_methods = no_extensions, dc_same_key = (=), dc_options = no_options\<rparr>"

lemma example_decoder_plain: "text_keys (dc_same_key example_decoder)" "no_hook example_decoder"
  by (simp_all add: text_keys_def no_hook_def example_decoder_def no_options_def)

lemma example_narrow: "narrow_int int16_type (- 2) = - 2" "narrow_int int32_type 5 = 5"
    "narrow_uint uint64_type u = u" "narrow_int int64_type i = i"
  by (simp_all add: narrow_int_roundtrip)

lemma example_message_fits: "message_fits example_decoder example_message"
  by (simp add: message_fits_def example_message_def example_decoder_def header_fits_def fields_fit_def value_fits_def
      header_fields_def empty_header_def body_bytes_def record_bytes_def fields_bytes_def field_bytes_def wire_object
      int_bytes_def uint_bytes_def type_name_def message_type_names_def example_narrow)

theorem message_bytes_roundtrip_witness:
  "bind_result (encode_message_bytes (\<lambda>n. replicate n 0xAA) no_extensions (=) example_message)
     (decode_message_bytes example_decoder) = Inr example_message"
proof -
  have "fresh_ok (\<lambda>n. replicate n 0xAA)" by (simp add: fresh_ok_def)
  from message_bytes_roundtrip [OF this example_decoder_plain example_message_fits, of no_extensions]
  show ?thesis by (simp add: example_decoder_def)
qed



text \<open>Different messages have different bytes, and a relay passes on the bytes that it received.\<close>

lemma message_bytes_inject:
  "fresh_ok fresh \<Longrightarrow> text_keys (dc_same_key dc) \<Longrightarrow> no_hook dc \<Longrightarrow> message_fits dc msg \<Longrightarrow> message_fits dc msg' \<Longrightarrow>
     encode_message_bytes fresh m (dc_same_key dc) msg = encode_message_bytes fresh m (dc_same_key dc) msg' \<Longrightarrow> msg = msg'"
  by (rule message_wire.encode_inject) auto

end
