(* ===== verification/CodecSafety.thy ===== *)
theory CodecSafety
  imports CodecRoundtrip
begin

chapter \<open>What is not known to be well formed\<close>

text \<open>
  The decoder of variants on arbitrary bytes. \<open>step_ok k P s r\<close> says that a step on the stream \<open>s\<close> fails with one of the
  two exceptions of the format, or gives a value with \<open>P\<close>, takes at least \<open>k\<close> bytes and stays in the buffer.
\<close>

definition valid_stream :: "io_stream \<Rightarrow> bool" where
  "valid_stream s \<longleftrightarrow> buf_ok (s_buffer s) \<and> s_read_pos s \<le> b_length (s_buffer s)"

definition unread :: "io_stream \<Rightarrow> nat" where
  "unread s = b_length (s_buffer s) - s_read_pos s"

definition wire_error :: "mc_exception \<Rightarrow> bool" where
  "wire_error e \<longleftrightarrow> e = out_of_range_exception \<or> e = invalid_arg_exception"

text \<open>A step takes at least \<open>k\<close> bytes and gives a value with \<open>P\<close>, or fails as it should.\<close>

definition step_ok :: "nat \<Rightarrow> ('a \<Rightarrow> bool) \<Rightarrow> io_stream \<Rightarrow> ('a \<times> io_stream) result \<Rightarrow> bool" where
  "step_ok k P s r \<longleftrightarrow>
     (case r of Inl e \<Rightarrow> wire_error e
      | Inr (v, s') \<Rightarrow> P v \<and> valid_stream s' \<and> unread s' + k \<le> unread s)"

lemma step_ok_simps [simp]:
  "step_ok k P s (Inl e) = wire_error e"
  "step_ok k P s (Inr (v, s')) = (P v \<and> valid_stream s' \<and> unread s' + k \<le> unread s)"
  "step_ok k P s (if c then r else r') = (if c then step_ok k P s r else step_ok k P s r')"
  by (simp_all add: step_ok_def)

lemma wire_error_simps [simp]: "wire_error out_of_range_exception" "wire_error invalid_arg_exception"
  by (simp_all add: wire_error_def)

lemma step_ok_bind:
  assumes "step_ok k P s r" "\<And>v s'. r = Inr (v, s') \<Longrightarrow> P v \<Longrightarrow> valid_stream s' \<Longrightarrow> unread s' + k \<le> unread s \<Longrightarrow>
      step_ok (n - k) Q s' (f v s')" "k \<le> n"
  shows "step_ok n Q s (bind_result r (\<lambda>(v, s'). f v s'))"
proof (cases r)
  case (Inr x)
  obtain v s' where x: "x = (v, s')" by (cases x)
  have "step_ok (n - k) Q s' (f v s')" using assms(1,2) Inr x by simp
  then show ?thesis using assms(1,3) Inr x by (cases "f v s'") auto
qed (use assms(1) in simp)

lemma stream_read_value_step: "valid_stream s \<Longrightarrow> step_ok n (\<lambda>_. True) s (stream_read_value n s)"
  by (auto simp: step_ok_def stream_read_value_def buffer_read_view valid_stream_def unread_def split: if_splits)

lemma stream_read_step: "valid_stream s \<Longrightarrow> step_ok n (\<lambda>bs. length bs = n) s (stream_read n s)"
  by (auto simp: step_ok_def stream_read_def buffer_read_view valid_stream_def unread_def)

lemma read_sized_bytes_step: "valid_stream s \<Longrightarrow> step_ok 4 (\<lambda>bs. length bs < 2 ^ 32) s (read_sized_bytes s)"
  unfolding read_sized_bytes_def
proof (rule step_ok_bind [OF stream_read_value_step])
  fix len :: u32 and s' assume "valid_stream s'"
  have "unat len < 2 ^ 32" using unsigned_less [of len] by simp
  then show "step_ok (4 - 4) (\<lambda>bs. length bs < 2 ^ 32) s' (if len = 0 then Inr ([], s') else stream_read (unat len) s')"
    using stream_read_step [OF \<open>valid_stream s'\<close>, of "unat len"] \<open>valid_stream s'\<close>
    by (cases "stream_read (unat len) s'") (auto simp: step_ok_def)
qed simp_all

definition good_value :: "(variant \<Rightarrow> variant \<Rightarrow> bool) \<Rightarrow> variant \<Rightarrow> bool" where
  "good_value sk v \<longleftrightarrow> wire_encodable v \<and> wire_decodable sk v"

definition reads_good :: "(variant \<Rightarrow> variant \<Rightarrow> bool) \<Rightarrow> nat \<Rightarrow> variant stream_reader \<Rightarrow> bool" where
  "reads_good sk n rd \<longleftrightarrow> (\<forall>s. valid_stream s \<and> unread s < n \<longrightarrow> step_ok 1 (good_value sk) s (rd s))"

lemma reads_goodD: "reads_good sk n rd \<Longrightarrow> valid_stream s \<Longrightarrow> unread s < n \<Longrightarrow> step_ok 1 (good_value sk) s (rd s)"
  by (simp add: reads_good_def)

lemma step_ok_weaken: "step_ok k P s r \<Longrightarrow> j \<le> k \<Longrightarrow> (\<And>v. P v \<Longrightarrow> Q v) \<Longrightarrow> step_ok j Q s r"
  by (auto simp: step_ok_def split: sum.splits)

lemma read_elements_step:
  assumes "reads_good sk n rd"
  shows "valid_stream s \<Longrightarrow> unread s < n \<Longrightarrow>
    step_ok 0 (\<lambda>vs. length vs = c \<and> list_all (good_value sk) vs) s (read_elements rd c s)"
proof (induction c arbitrary: s)
  case (Suc c)
  show ?case
    unfolding read_elements.simps
  proof (rule step_ok_bind [OF step_ok_weaken [OF reads_goodD [OF assms Suc.prems], of 0 "good_value sk"]])
    fix v s' assume v: "good_value sk v" "valid_stream s'" "unread s' + 0 \<le> unread s"
    show "step_ok (0 - 0) (\<lambda>vs. length vs = Suc c \<and> list_all (good_value sk) vs) s'
        (bind_result (read_elements rd c s') (\<lambda>(vs, s). Inr (v # vs, s)))"
      by (rule step_ok_bind [OF Suc.IH]) (use v Suc.prems in auto)
  qed simp_all
qed simp

definition good_entries :: "(variant \<Rightarrow> variant \<Rightarrow> bool) \<Rightarrow> dict_entries \<Rightarrow> bool" where
  "good_entries sk d \<longleftrightarrow> sorted_wrt (\<lambda>k k'. \<not> sk k' k) (map fst d) \<and>
     list_all (\<lambda>(k, v). k \<noteq> VNull \<and> good_value sk k \<and> good_value sk v) d"

lemma good_object: "good_value sk (VObject d) \<longleftrightarrow> length d < 2 ^ 32 \<and> good_entries sk d"
  by (auto simp: good_value_def good_entries_def list_all_iff)

lemma dict_set_fst: "set (map fst (dict_set sk key v d)) \<subseteq> insert key (set (map fst d))"
proof (induction d)
  case (Cons e d)
  then show ?case by (cases e) (simp, blast)
qed simp

lemma length_dict_set: "length (dict_set sk key v d) \<le> Suc (length d)"
  by (induction d) auto

lemma dict_set_good:
  "good_entries sk d \<Longrightarrow> key \<noteq> VNull \<Longrightarrow> good_value sk key \<Longrightarrow> good_value sk v \<Longrightarrow> good_entries sk (dict_set sk key v d)"
proof (induction d)
  case (Cons e d)
  obtain k w where e: "e = (k, w)" by (cases e)
  have d: "good_entries sk d" using Cons.prems(1) by (simp add: good_entries_def)
  have g: "good_entries sk (dict_set sk key v d)" by (rule Cons.IH [OF d Cons.prems(2-4)])
  have "\<not> sk k' k" if "k' \<in> set (map fst (dict_set sk key v d))" "\<not> sk key k" for k'
  proof -
    have "k' = key \<or> k' \<in> set (map fst d)" using that(1) dict_set_fst [of sk key v d] by blast
    then show ?thesis using that(2) Cons.prems(1) e by (auto simp: good_entries_def)
  qed
  then show ?case using Cons.prems g e by (auto simp: good_entries_def)
qed (simp add: good_entries_def)

lemma read_dict_entries_step:
  assumes "reads_good sk n rd"
  shows "valid_stream s \<Longrightarrow> unread s < n \<Longrightarrow> good_entries sk d \<Longrightarrow>
    step_ok 0 (\<lambda>d'. good_entries sk d' \<and> length d' \<le> length d + c) s (read_dict_entries sk rd c d s)"
proof (induction c arbitrary: s d)
  case (Suc c)
  note weak = step_ok_weaken [OF reads_goodD [OF assms], of _ 0 "good_value sk"]
  show ?case
    unfolding read_dict_entries.simps
  proof (rule step_ok_bind [OF weak])
    fix k s1 assume k: "good_value sk k" "valid_stream s1" "unread s1 + 0 \<le> unread s"
    show "step_ok (0 - 0) (\<lambda>d'. good_entries sk d' \<and> length d' \<le> length d + Suc c) s1
        (bind_result (rd s1) (\<lambda>(value, s).
           if is_null k then Inl invalid_arg_exception else read_dict_entries sk rd c (dict_set sk k value d) s))"
    proof (rule step_ok_bind [OF weak])
      fix v s2 assume v: "good_value sk v" "valid_stream s2" "unread s2 + 0 \<le> unread s1"
      show "step_ok (0 - 0 - 0) (\<lambda>d'. good_entries sk d' \<and> length d' \<le> length d + Suc c) s2
          (if is_null k then Inl invalid_arg_exception else read_dict_entries sk rd c (dict_set sk k v d) s2)"
      proof (cases "is_null k")
        case False
        then have "good_entries sk (dict_set sk k v d)"
          using dict_set_good [OF Suc.prems(3) _ k(1) v(1)] by (simp add: is_null_def)
        from Suc.IH [OF v(2) _ this] have "step_ok 0 (\<lambda>d'. good_entries sk d' \<and>
            length d' \<le> length (dict_set sk k v d) + c) s2 (read_dict_entries sk rd c (dict_set sk k v d) s2)"
          using Suc.prems k(3) v(3) by simp
        then show ?thesis
          using False length_dict_set [of sk k v d] by (auto elim!: step_ok_weaken)
      qed simp
    qed (use k Suc.prems in simp_all)
  qed (use Suc.prems in simp_all)
qed simp

lemma narrow_good:
  "good_value sk (VInt int8_type (scast (i8 :: 8 word)))" "good_value sk (VUInt uint8_type (ucast (u8 :: 8 word)))"
  "good_value sk (VInt int16_type (scast (i16 :: 16 word)))" "good_value sk (VUInt uint16_type (ucast (u16 :: 16 word)))"
  "good_value sk (VInt int32_type (scast (i32 :: 32 word)))" "good_value sk (VUInt uint32_type (ucast (u32 :: 32 word)))"
  "good_value sk (VInt int64_type i)" "good_value sk (VUInt uint64_type u)" "good_value sk (VDouble u)"
proof -
  have "scast (scast i8 :: 64 word) = i8" "scast (scast i16 :: 64 word) = i16" "scast (scast i32 :: 64 word) = i32"
    "ucast (ucast u8 :: 64 word) = u8" "ucast (ucast u16 :: 64 word) = u16" "ucast (ucast u32 :: 64 word) = u32"
    by (rule bit_word_eqI, auto simp: bit_simps)+
  then show "good_value sk (VInt int8_type (scast i8))" "good_value sk (VUInt uint8_type (ucast u8))"
  "good_value sk (VInt int16_type (scast i16))" "good_value sk (VUInt uint16_type (ucast u16))"
  "good_value sk (VInt int32_type (scast i32))" "good_value sk (VUInt uint32_type (ucast u32))"
  "good_value sk (VInt int64_type i)" "good_value sk (VUInt uint64_type u)" "good_value sk (VDouble u)"
    by (simp_all add: good_value_def narrow_int_roundtrip)
qed

lemma read_word_step:
  fixes g :: "'w::len word \<Rightarrow> 'a"
  assumes "valid_stream s" "1 \<le> n" "\<And>w. P (g w)"
  shows "step_ok 1 P s (bind_result (stream_read_value n s) (\<lambda>(w, s). Inr (g w, s)))"
  by (rule step_ok_bind [OF step_ok_weaken [OF stream_read_value_step [OF assms(1)] assms(2)]]) (use assms in auto)

lemma read_number_step: "valid_stream s \<Longrightarrow> step_ok 1 (good_value sk) s (read_number t s)"
  unfolding read_number_def
  by (simp only: step_ok_simps split: if_split) (intro conjI impI read_word_step narrow_good, simp_all)

lemma read_variant_good: "reads_good sk n (read_variant sk n)"
proof (induction n)
  case 0
  then show ?case by (simp add: reads_good_def)
next
  case (Suc n)
  show ?case
    unfolding reads_good_def
  proof (intro allI impI, elim conjE)
    fix s assume s: "valid_stream s" "unread s < Suc n"
    show "step_ok 1 (good_value sk) s (read_variant sk (Suc n) s)"
      unfolding read_variant.simps
    proof (rule step_ok_bind [OF stream_read_value_step [OF s(1), of 1]])
      fix tag :: u8 and s1 assume s1: "valid_stream s1" "unread s1 + 1 \<le> unread s"
      then have s1n: "unread s1 < n" using s(2) by simp
      have sizes: "unat c < 2 ^ 32" for c :: u32 using unsigned_less [of c] by simp
      have "step_ok 0 (good_value sk) s1 (read_number tag s1)"
        by (rule step_ok_weaken [OF read_number_step [OF s1(1)]]) auto
      moreover have "step_ok 0 (good_value sk) s1
          (bind_result (stream_read_value 1 s1) (\<lambda>(b :: u8, s). Inr (VBool (b \<noteq> 0), s)))"
        by (rule step_ok_weaken [OF read_word_step [OF s1(1)]]) (auto simp: good_value_def)
      moreover have "step_ok 0 (good_value sk) s1
          (bind_result (read_sized_bytes s1) (\<lambda>(bs, s). Inr (g (string_of_bytes bs), s)))"
        if "\<And>t. length t < 2 ^ 32 \<Longrightarrow> good_value sk (g t)" for g
        by (rule step_ok_bind [OF step_ok_weaken [OF read_sized_bytes_step [OF s1(1)]]])
          (use that in \<open>auto simp: string_of_bytes_def\<close>)
      from this [of VString] this [of VBlob]
      have "step_ok 0 (good_value sk) s1 (bind_result (read_sized_bytes s1) (\<lambda>(bs, s). Inr (VString (string_of_bytes bs), s)))"
        "step_ok 0 (good_value sk) s1 (bind_result (read_sized_bytes s1) (\<lambda>(bs, s). Inr (VBlob (string_of_bytes bs), s)))"
        by (simp_all add: good_value_def)
      moreover have "step_ok 0 (good_value sk) s1
          (bind_result (stream_read_value 4 s1) (\<lambda>(count :: u32, s).
           bind_result (read_elements (read_variant sk n) (unat count) s) (\<lambda>(vs, s). Inr (VArray vs, s))))"
      proof (rule step_ok_bind [OF step_ok_weaken [OF stream_read_value_step [OF s1(1)], of 0]])
        fix count :: u32 and s2 assume s2: "valid_stream s2" "unread s2 + 0 \<le> unread s1"
        show "step_ok (0 - 0) (good_value sk) s2
            (bind_result (read_elements (read_variant sk n) (unat count) s2) (\<lambda>(vs, s). Inr (VArray vs, s)))"
          by (rule step_ok_bind [OF read_elements_step [OF Suc]])
            (use s2 s1n sizes [of count] in \<open>auto simp: good_value_def list_all_iff\<close>)
      qed simp_all
      moreover have "step_ok 0 (good_value sk) s1
          (bind_result (stream_read_value 4 s1) (\<lambda>(count :: u32, s).
           bind_result (read_dict_entries sk (read_variant sk n) (unat count) [] s) (\<lambda>(es, s). Inr (VObject es, s))))"
      proof (rule step_ok_bind [OF step_ok_weaken [OF stream_read_value_step [OF s1(1)], of 0]])
        fix count :: u32 and s2 assume s2: "valid_stream s2" "unread s2 + 0 \<le> unread s1"
        show "step_ok (0 - 0) (good_value sk) s2
            (bind_result (read_dict_entries sk (read_variant sk n) (unat count) [] s2) (\<lambda>(es, s). Inr (VObject es, s)))"
          by (rule step_ok_bind [OF read_dict_entries_step [OF Suc]])
            (use s2 s1n sizes [of count] in \<open>auto simp: good_object good_entries_def\<close>)
      qed simp_all
      ultimately show "step_ok (1 - 1) (good_value sk) s1
          (if tag = 0 then Inr (VNull, s1)
           else if tag < 10 then read_number tag s1
           else if tag = 10 then bind_result (stream_read_value 1 s1) (\<lambda>(b :: u8, s). Inr (VBool (b \<noteq> 0), s))
           else if tag = 11 then bind_result (read_sized_bytes s1) (\<lambda>(bs, s). Inr (VString (string_of_bytes bs), s))
           else if tag = 12 then
             bind_result (stream_read_value 4 s1) (\<lambda>(count :: u32, s).
             bind_result (read_elements (read_variant sk n) (unat count) s) (\<lambda>(vs, s). Inr (VArray vs, s)))
           else if tag = 13 then
             bind_result (stream_read_value 4 s1) (\<lambda>(count :: u32, s).
             bind_result (read_dict_entries sk (read_variant sk n) (unat count) [] s) (\<lambda>(es, s). Inr (VObject es, s)))
           else if tag = 14 then bind_result (read_sized_bytes s1) (\<lambda>(bs, s). Inr (VBlob (string_of_bytes bs), s))
           else Inl invalid_arg_exception)"
        using s1(1) by (simp add: good_value_def)
    qed simp
  qed
qed

lemma valid_stream_of: "valid_stream (stream_of (wrap_buffer bs) w)" "unread (stream_of (wrap_buffer bs) w) = length bs"
  by (simp_all add: valid_stream_def unread_def stream_of_def wrap_buffer_def buf_ok_def)

lemma decode_variant_bytes_good:
  "case decode_variant_bytes sk bs of Inl e \<Rightarrow> wire_error e | Inr v \<Rightarrow> good_value sk v"
proof -
  have "step_ok 1 (good_value sk) (stream_of (wrap_buffer bs) False)
      (read_variant sk (Suc (length bs)) (stream_of (wrap_buffer bs) False))"
    by (rule reads_goodD [OF read_variant_good]) (simp_all add: valid_stream_of)
  then show ?thesis
    by (auto simp: decode_variant_bytes_def step_ok_def simp del: read_variant.simps split: sum.splits if_splits)
qed


lemma decode_example:
  "decode_variant_bytes (=) (wire (VArray [VBool True, VString ''x''])) = Inr (VArray [VBool True, VString ''x''])"
  by (rule decode_variant_bytes_wire; simp)


end
